(* ===== verification/Prelude.thy ===== *)
theory Prelude
  imports Main "HOL-Library.Word"
begin

text \<open>
  Shared vocabulary of the development: bytes, byte strings and machine words of the C++ code,
  the memory image of an integer (what \<^verbatim>\<open>memcpy\<close> of a \<^verbatim>\<open>uint32_t\<close> or \<^verbatim>\<open>uint64_t\<close> copies), string
  literals, the collections of rewrite rules the component theories fill, and the interface of an
  encoder/decoder pair.

  Conventions.  A \<^verbatim>\<open>std::string\<close> and a \<^verbatim>\<open>Slice\<close> are both the list of bytes they denote; a pointer
  \<^verbatim>\<open>p\<close> into a buffer that ends at \<^verbatim>\<open>limit\<close> is the list of the bytes in \<open>[p, limit)\<close>, so advancing the
  pointer drops a prefix.  \<^verbatim>\<open>size_t\<close> values that count bytes held in memory are \<^typ>\<open>nat\<close>; every integer
  whose width the code relies on keeps it.
\<close>

unbundle bit_operations_syntax

type_synonym byte = "8 word"
type_synonym bytes = "byte list"
type_synonym u16 = "16 word"
type_synonym u32 = "32 word"
type_synonym u64 = "64 word"

named_theorems slice_simps "rewrite rules for slices and byte buffers"
named_theorems codec_simps "decoding what an encoder wrote"
named_theorems order_simps "three-way comparison rules"

text \<open>A C++ string literal as bytes.\<close>

definition str :: "string \<Rightarrow> bytes" where
  "str s = map of_char s"

lemma length_str [simp]: "length (str s) = length s"
  by (simp add: str_def)

lemma str_Nil [simp]: "str [] = []"
  by (simp add: str_def)

text \<open>The decimal digits \<^verbatim>\<open>printf\<close> writes for an unsigned and for a signed integer.\<close>

fun decimal :: "nat \<Rightarrow> bytes" where
  "decimal n = (if n < 10 then [48 + of_nat n] else decimal (n div 10) @ [48 + of_nat (n mod 10)])"

declare decimal.simps [simp del]

definition print_int :: "int \<Rightarrow> bytes" where
  "print_int i = (if i < 0 then str ''-'' @ decimal (nat (- i)) else decimal (nat i))"

text \<open>
  The memory image of an integer on a little-endian machine, least significant byte first, and the
  integer loaded from such an image.
\<close>

definition mem_image :: "nat \<Rightarrow> 'a::len word \<Rightarrow> bytes" where
  "mem_image n v = map (\<lambda>i. ucast (drop_bit (8 * i) v)) [0..<n]"

primrec mem_load :: "bytes \<Rightarrow> 'a::len word" where
  "mem_load [] = 0"
| "mem_load (b # bs) = ucast b OR push_bit 8 (mem_load bs)"

lemma length_mem_image [simp]: "length (mem_image n v) = n"
  by (simp add: mem_image_def)

lemma bit_mem_load:
  "bit (mem_load bs :: 'a::len word) k \<longleftrightarrow>
     k < LENGTH('a) \<and> k div 8 < length bs \<and> bit (bs ! (k div 8)) (k mod 8)"
proof (induction bs arbitrary: k)
  case Nil
  then show ?case by simp
next
  case (Cons b bs)
  show ?case
  proof (cases "k < 8")
    case True
    then show ?thesis by (auto simp: bit_simps)
  next
    case False
    then have "k div 8 = Suc ((k - 8) div 8)" and "k mod 8 = (k - 8) mod 8"
      by (auto simp: le_div_geq le_mod_geq)
    with False Cons.IH [of "k - 8"] show ?thesis
      by (auto simp: bit_simps dest: bit_imp_le_length)
  qed
qed

lemma mem_load_image:
  assumes "LENGTH('a) \<le> 8 * n"
  shows "mem_load (mem_image n v @ rest) = (v :: 'a::len word)"
proof (rule bit_word_eqI)
  fix k assume k: "k < LENGTH('a)"
  then have "k div 8 < n" using assms by auto
  then show "bit (mem_load (mem_image n v @ rest) :: 'a word) k = bit v k"
    using k by (simp add: bit_mem_load mem_image_def nth_append bit_simps)
qed

lemma mem_image_load:
  assumes "8 * length bs \<le> LENGTH('a)"
  shows "mem_image (length bs) (mem_load bs :: 'a::len word) = bs"
proof (rule nth_equalityI)
  fix i assume "i < length (mem_image (length bs) (mem_load bs :: 'a word))"
  then have i: "i < length bs" by simp
  show "mem_image (length bs) (mem_load bs :: 'a word) ! i = bs ! i"
  proof (rule bit_word_eqI)
    fix k assume k: "k < LENGTH(8)"
    then have "8 * i + k < LENGTH('a)" using i assms by auto
    moreover have "(8 * i + k) div 8 = i" and "(8 * i + k) mod 8 = k"
      using k by auto
    ultimately show "bit (mem_image (length bs) (mem_load bs :: 'a word) ! i) k = bit (bs ! i) k"
      using i k by (simp add: mem_image_def bit_simps bit_mem_load)
  qed
qed simp

lemma mem_image_inject:
  assumes "LENGTH('a) \<le> 8 * n"
  shows "mem_image n v = mem_image n w \<longleftrightarrow> v = (w :: 'a::len word)"
  by (metis mem_load_image [OF assms])

lemma byte_msb_iff: "(b AND 128 = (0 :: byte)) \<longleftrightarrow> unat b < 128"
proof -
  have "b AND 128 = 0 \<longleftrightarrow> \<not> bit b 7"
    using and_exp_eq_0_iff_not_bit [of b 7] by simp
  also have "\<dots> \<longleftrightarrow> even (unat b div 128)"
    using bit_unsigned_iff [where 'a = nat, of b 7] by (auto simp: bit_iff_odd [of "unat b"])
  also have "\<dots> \<longleftrightarrow> unat b < 128"
  proof -
    have "unat b < 256" using unsigned_less [of b, where 'a = nat] by simp
    then have "unat b div 128 = (if unat b < 128 then 0 else 1)"
      by (auto intro: div_nat_eqI)
    then show ?thesis by simp
  qed
  finally show ?thesis .
qed

lemma take_append_exact: "take (length xs + length ys) (xs @ ys @ zs) = xs @ ys"
  by simp

lemma of_nat_u32_eq_0: "n < 2 ^ 32 \<Longrightarrow> (of_nat n :: u32) = 0 \<longleftrightarrow> n = 0"
  by (auto simp: word_of_nat_eq_0_iff dvd_def)

text \<open>
  The interface of an encoder and its decoder: a decoder reads a value off the front of a buffer and
  hands back the rest, or fails.  \<open>ok\<close> delimits the values the encoding can represent.
\<close>

locale codec =
  fixes enc :: "'a \<Rightarrow> bytes"
    and dec :: "bytes \<Rightarrow> ('a \<times> bytes) option"
    and ok :: "'a \<Rightarrow> bool"
  assumes dec_enc: "ok x \<Longrightarrow> dec (enc x @ rest) = Some (x, rest)"
begin

lemma enc_unique:
  assumes "ok x" and "ok y" and "enc x @ r = enc y @ s"
  shows "x = y \<and> r = s"
proof -
  have "Some (x, r) = Some (y, s)"
    unfolding dec_enc [OF assms(1), of r, symmetric] dec_enc [OF assms(2), of s, symmetric] assms(3) ..
  then show ?thesis by simp
qed

lemma enc_inj: "inj_on enc {x. ok x}"
  by (rule inj_onI) (use enc_unique [of _ _ "[]" "[]"] in auto)

lemma enc_prefix_free:
  assumes "ok x" and "ok y" and "x \<noteq> y"
  shows "enc x @ r \<noteq> enc y"
  using enc_unique [OF assms(1,2), of r "[]"] assms(3) by auto

lemma dec_enc_all: "ok x \<Longrightarrow> dec (enc x) = Some (x, [])"
  using dec_enc [of x "[]"] by simp

end

end
