(* ===== verification/Coding.thy ===== *)
theory Coding
  imports Prelude
begin

text \<open>
  The integer and string encodings of \<^verbatim>\<open>util/coding.h\<close> and \<^verbatim>\<open>util/coding.cc\<close>: fixed-width little-endian
  integers, varints of 32 and 64 bits, and length-prefixed slices.  Each \<^verbatim>\<open>Encode\<close> routine returns the
  bytes it writes; each \<^verbatim>\<open>Get\<close> routine returns the value with the bytes after it, or \<open>None\<close> where the
  code returns a null pointer or \<^verbatim>\<open>false\<close>.  The encodings are shown to be inverse to their decoders, the
  unrolled \<^verbatim>\<open>EncodeVarint32\<close> to agree with the loop of \<^verbatim>\<open>EncodeVarint64\<close>, and each pair is an instance of
  the interface \<open>codec\<close>.
\<close>

definition kLittleEndian :: bool where
  "kLittleEndian = True"

subsection \<open>Fixed-width integers\<close>

definition EncodeFixed32 :: "u32 \<Rightarrow> bytes" where
  "EncodeFixed32 value =
     (if kLittleEndian then mem_image 4 value
      else [ucast (value AND 0xff), ucast (drop_bit 8 value AND 0xff),
            ucast (drop_bit 16 value AND 0xff), ucast (drop_bit 24 value AND 0xff)])"

definition EncodeFixed64 :: "u64 \<Rightarrow> bytes" where
  "EncodeFixed64 value =
     (if kLittleEndian then mem_image 8 value
      else [ucast (value AND 0xff), ucast (drop_bit 8 value AND 0xff),
            ucast (drop_bit 16 value AND 0xff), ucast (drop_bit 24 value AND 0xff),
            ucast (drop_bit 32 value AND 0xff), ucast (drop_bit 40 value AND 0xff),
            ucast (drop_bit 48 value AND 0xff), ucast (drop_bit 56 value AND 0xff)])"

definition PutFixed32 :: "bytes \<Rightarrow> u32 \<Rightarrow> bytes" where
  "PutFixed32 dst value = dst @ EncodeFixed32 value"

definition PutFixed64 :: "bytes \<Rightarrow> u64 \<Rightarrow> bytes" where
  "PutFixed64 dst value = dst @ EncodeFixed64 value"

text \<open>
  The fixed decoders do no bounds checking: they read the 4 or 8 bytes at the pointer, and a shorter
  buffer is undefined behaviour, which the unspecified value of an out-of-range \<open>!\<close> stands for.
\<close>

definition DecodeFixed32 :: "bytes \<Rightarrow> u32" where
  "DecodeFixed32 ptr =
     (if kLittleEndian then mem_load (map (\<lambda>i. ptr ! i) [0..<4])
      else ucast (ptr ! 0) OR push_bit 8 (ucast (ptr ! 1))
           OR push_bit 16 (ucast (ptr ! 2)) OR push_bit 24 (ucast (ptr ! 3)))"

definition DecodeFixed64 :: "bytes \<Rightarrow> u64" where
  "DecodeFixed64 ptr =
     (if kLittleEndian then mem_load (map (\<lambda>i. ptr ! i) [0..<8])
      else let lo = ucast (DecodeFixed32 ptr); hi = ucast (DecodeFixed32 (drop 4 ptr))
           in push_bit 32 hi OR lo)"

lemma map_nth_take: "n \<le> length xs \<Longrightarrow> map (\<lambda>i. xs ! i) [0..<n] = take n xs"
  by (simp add: list_eq_iff_nth_eq)

lemma length_EncodeFixed32 [simp]: "length (EncodeFixed32 v) = 4"
  by (simp add: EncodeFixed32_def)

lemma length_EncodeFixed64 [simp]: "length (EncodeFixed64 v) = 8"
  by (simp add: EncodeFixed64_def)

lemma DecodeFixed32_take: "4 \<le> length p \<Longrightarrow> DecodeFixed32 p = mem_load (take 4 p)"
  by (simp add: DecodeFixed32_def kLittleEndian_def map_nth_take del: upt_rec_numeral)

lemma DecodeFixed64_take: "8 \<le> length p \<Longrightarrow> DecodeFixed64 p = mem_load (take 8 p)"
  by (simp add: DecodeFixed64_def kLittleEndian_def map_nth_take del: upt_rec_numeral)

lemma DecodeFixed32_Encode [simp, codec_simps]: "DecodeFixed32 (EncodeFixed32 v @ rest) = v"
  using mem_load_image [of 4 v "[]"]
  by (simp add: DecodeFixed32_take EncodeFixed32_def kLittleEndian_def)

lemma DecodeFixed64_Encode [simp, codec_simps]: "DecodeFixed64 (EncodeFixed64 v @ rest) = v"
  using mem_load_image [of 8 v "[]"]
  by (simp add: DecodeFixed64_take EncodeFixed64_def kLittleEndian_def)

lemma EncodeFixed32_Decode: "length p = 4 \<Longrightarrow> EncodeFixed32 (DecodeFixed32 p) = p"
  using mem_image_load [of p, where 'a = 32]
  by (simp add: DecodeFixed32_take EncodeFixed32_def kLittleEndian_def)

lemma EncodeFixed64_Decode: "length p = 8 \<Longrightarrow> EncodeFixed64 (DecodeFixed64 p) = p"
  using mem_image_load [of p, where 'a = 64]
  by (simp add: DecodeFixed64_take EncodeFixed64_def kLittleEndian_def)

subsection \<open>Varints\<close>

definition EncodeVarint32 :: "u32 \<Rightarrow> bytes" where
  "EncodeVarint32 v =
     (let B = 128 in
      if v < push_bit 7 1 then [ucast v]
      else if v < push_bit 14 1 then [ucast (v OR B), ucast (drop_bit 7 v)]
      else if v < push_bit 21 1 then
        [ucast (v OR B), ucast (drop_bit 7 v OR B), ucast (drop_bit 14 v)]
      else if v < push_bit 28 1 then
        [ucast (v OR B), ucast (drop_bit 7 v OR B), ucast (drop_bit 14 v OR B), ucast (drop_bit 21 v)]
      else
        [ucast (v OR B), ucast (drop_bit 7 v OR B), ucast (drop_bit 14 v OR B),
         ucast (drop_bit 21 v OR B), ucast (drop_bit 28 v)])"

definition PutVarint32 :: "bytes \<Rightarrow> u32 \<Rightarrow> bytes" where
  "PutVarint32 dst v = dst @ EncodeVarint32 v"

lemma unat_drop_bit_7: "unat (drop_bit 7 v) = unat v div 128"
  by (subst unat_drop_bit_eq) (simp add: drop_bit_eq_div)

function EncodeVarint64 :: "u64 \<Rightarrow> bytes" where
  "EncodeVarint64 v =
     (if v \<ge> 128 then ucast ((v AND 127) OR 128) # EncodeVarint64 (drop_bit 7 v) else [ucast v])"
  by pat_completeness auto
termination
  by (relation "measure unat") (auto simp: unat_drop_bit_7 word_le_nat_alt)

declare EncodeVarint64.simps [simp del]

definition PutVarint64 :: "bytes \<Rightarrow> u64 \<Rightarrow> bytes" where
  "PutVarint64 dst v = dst @ EncodeVarint64 v"

function VarintLength_loop :: "u64 \<Rightarrow> nat \<Rightarrow> nat" where
  "VarintLength_loop v len = (if v \<ge> 128 then VarintLength_loop (drop_bit 7 v) (len + 1) else len)"
  by pat_completeness auto
termination
  by (relation "measure (\<lambda>(v, len). unat v)") (auto simp: unat_drop_bit_7 word_le_nat_alt)

declare VarintLength_loop.simps [simp del]

definition VarintLength :: "u64 \<Rightarrow> nat" where
  "VarintLength v = VarintLength_loop v 1"

text \<open>
  The decoding loops: \<open>shift\<close> and \<open>result\<close> are the loop variables, the list is what is left in
  \<open>[p, limit)\<close>.
\<close>

fun GetVarint32PtrFallback_loop :: "nat \<Rightarrow> u32 \<Rightarrow> bytes \<Rightarrow> (u32 \<times> bytes) option" where
  "GetVarint32PtrFallback_loop shift result [] = None"
| "GetVarint32PtrFallback_loop shift result (b # p) =
     (if shift \<le> 28 then
        let byte = ucast b in
        if byte AND 128 \<noteq> 0
        then GetVarint32PtrFallback_loop (shift + 7) (result OR push_bit shift (byte AND 127)) p
        else Some (result OR push_bit shift byte, p)
      else None)"

definition GetVarint32PtrFallback :: "bytes \<Rightarrow> (u32 \<times> bytes) option" where
  "GetVarint32PtrFallback p = GetVarint32PtrFallback_loop 0 0 p"

definition GetVarint32Ptr :: "bytes \<Rightarrow> (u32 \<times> bytes) option" where
  "GetVarint32Ptr p =
     (case p of
        b # p' \<Rightarrow> let result = ucast b in
          if result AND 128 = 0 then Some (result, p') else GetVarint32PtrFallback p
      | [] \<Rightarrow> GetVarint32PtrFallback p)"

definition GetVarint32 :: "bytes \<Rightarrow> (u32 \<times> bytes) option" where
  "GetVarint32 input = (case GetVarint32Ptr input of None \<Rightarrow> None | Some (v, q) \<Rightarrow> Some (v, q))"

fun GetVarint64Ptr_loop :: "nat \<Rightarrow> u64 \<Rightarrow> bytes \<Rightarrow> (u64 \<times> bytes) option" where
  "GetVarint64Ptr_loop shift result [] = None"
| "GetVarint64Ptr_loop shift result (b # p) =
     (if shift \<le> 63 then
        let byte = ucast b in
        if byte AND 128 \<noteq> 0
        then GetVarint64Ptr_loop (shift + 7) (result OR push_bit shift (byte AND 127)) p
        else Some (result OR push_bit shift byte, p)
      else None)"

definition GetVarint64Ptr :: "bytes \<Rightarrow> (u64 \<times> bytes) option" where
  "GetVarint64Ptr p = GetVarint64Ptr_loop 0 0 p"

definition GetVarint64 :: "bytes \<Rightarrow> (u64 \<times> bytes) option" where
  "GetVarint64 input = (case GetVarint64Ptr input of None \<Rightarrow> None | Some (v, q) \<Rightarrow> Some (v, q))"

subsection \<open>Length-prefixed slices\<close>

text \<open>A slice longer than \<open>2^32 - 1\<close> has its length truncated to 32 bits, as the implicit conversion does.\<close>

definition PutLengthPrefixedSlice :: "bytes \<Rightarrow> bytes \<Rightarrow> bytes" where
  "PutLengthPrefixedSlice dst value = PutVarint32 dst (of_nat (length value)) @ value"

definition GetLengthPrefixedSlicePtr :: "bytes \<Rightarrow> (bytes \<times> bytes) option" where
  "GetLengthPrefixedSlicePtr p =
     (case GetVarint32Ptr p of
        None \<Rightarrow> None
      | Some (len, q) \<Rightarrow>
          if unat len > length q then None else Some (take (unat len) q, drop (unat len) q))"

definition GetLengthPrefixedSlice :: "bytes \<Rightarrow> (bytes \<times> bytes) option" where
  "GetLengthPrefixedSlice input =
     (case GetVarint32 input of
        Some (len, input') \<Rightarrow>
          if length input' \<ge> unat len then Some (take (unat len) input', drop (unat len) input')
          else None
      | None \<Rightarrow> None)"

subsection \<open>Round trips\<close>

text \<open>
  The reference encoding: base-128 digits of a natural number, least significant first, each but the
  last marked by the high bit.
\<close>

fun leb128 :: "nat \<Rightarrow> bytes" where
  "leb128 n = (if n < 128 then [of_nat n] else of_nat (n mod 128 + 128) # leb128 (n div 128))"

declare leb128.simps [simp del]

lemma leb128_nonempty [simp]: "leb128 n \<noteq> []"
  by (subst leb128.simps) simp

lemma bit_128: "bit (128 :: 'a::semiring_bit_operations) k \<longleftrightarrow> possible_bit TYPE('a) 7 \<and> k = 7"
  using bit_exp_iff [of 7 k, where 'a = 'a] by auto

lemma byte_of_nat_or: "ucast (v OR 128 :: 'a::len word) = (of_nat (unat v mod 128 + 128) :: byte)"
  if "8 \<le> LENGTH('a)"
proof (rule bit_word_eqI)
  fix k assume k: "k < LENGTH(8)"
  have "take_bit 7 (unat v) + 128 = take_bit 7 (unat v) OR 128"
    by (rule disjunctive_add) (auto simp: bit_128 bit_take_bit_iff)
  then have eq: "(of_nat (unat v mod 128 + 128) :: byte) = of_nat (take_bit 7 (unat v) OR 128)"
    by (simp add: take_bit_eq_mod)
  show "bit (ucast (v OR 128) :: byte) k = bit (of_nat (unat v mod 128 + 128) :: byte) k"
    using k that unfolding eq by (auto simp: bit_simps bit_128)
qed

lemma unat_and_127: "unat (v AND 127 :: 'a::len word) = unat v mod 128" if "8 \<le> LENGTH('a)"
proof -
  have "v AND 127 = take_bit 7 v"
    using take_bit_eq_mask [of 7 v] by (simp add: mask_eq_exp_minus_1)
  then have "unat (v AND 127) = take_bit 7 (unat v)"
    by (simp only: unsigned_take_bit_eq)
  then show ?thesis by (simp add: take_bit_eq_mod)
qed

lemma ucast_byte_of_nat: "ucast (v :: 'a::len word) = (of_nat (unat v) :: byte)"
  by simp

lemma EncodeVarint64_leb128: "EncodeVarint64 v = leb128 (unat v)"
proof (induction v rule: EncodeVarint64.induct)
  case (1 v)
  show ?case
  proof (cases "v \<ge> 128")
    case True
    then have "\<not> unat v < 128" by (simp add: word_le_nat_alt)
    with True 1 show ?thesis
      by (simp add: EncodeVarint64.simps [of v] leb128.simps [of "unat v"] byte_of_nat_or
          unat_and_127 unat_drop_bit_7)
  next
    case False
    then have "unat v < 128" by (simp add: word_le_nat_alt)
    with False show ?thesis
      by (simp add: EncodeVarint64.simps [of v] leb128.simps [of "unat v"])
  qed
qed

lemma unat_drop_bit_div: "unat (drop_bit k v) = unat v div 2 ^ k"
  by (subst unat_drop_bit_eq) (simp add: drop_bit_eq_div)

lemma leb128_small: "n < 128 \<Longrightarrow> leb128 n = [of_nat n]"
  by (simp add: leb128.simps [of n])

lemma leb128_big: "128 \<le> n \<Longrightarrow> leb128 n = of_nat (n mod 128 + 128) # leb128 (n div 128)"
  by (simp add: leb128.simps [of n])

lemma EncodeVarint32_byte:
  "ucast (drop_bit k v OR 128 :: u32) = (of_nat (unat v div 2 ^ k mod 128 + 128) :: byte)"
  by (subst byte_of_nat_or) (simp_all only: unat_drop_bit_div, simp)

lemma EncodeVarint32_last: "ucast (drop_bit k v :: u32) = (of_nat (unat v div 2 ^ k) :: byte)"
  by (subst ucast_byte_of_nat) (simp only: unat_drop_bit_div)

lemma EncodeVarint32_leb128: "EncodeVarint32 v = leb128 (unat v)"
proof -
  define n where "n = unat v"
  have n: "n < 2 ^ 32" using unsigned_less [of v, where 'a = nat] by (simp add: n_def)
  note bytes = EncodeVarint32_byte [of 0 v] EncodeVarint32_byte [of _ v] EncodeVarint32_last [of 0 v]
    EncodeVarint32_last [of _ v]
  have b: "EncodeVarint32 v =
     (if n < 2 ^ 7 then [of_nat n]
      else if n < 2 ^ 14 then [of_nat (n mod 128 + 128), of_nat (n div 128)]
      else if n < 2 ^ 21 then
        [of_nat (n mod 128 + 128), of_nat (n div 128 mod 128 + 128), of_nat (n div 128 div 128)]
      else if n < 2 ^ 28 then
        [of_nat (n mod 128 + 128), of_nat (n div 128 mod 128 + 128),
         of_nat (n div 128 div 128 mod 128 + 128), of_nat (n div 128 div 128 div 128)]
      else
        [of_nat (n mod 128 + 128), of_nat (n div 128 mod 128 + 128),
         of_nat (n div 128 div 128 mod 128 + 128), of_nat (n div 128 div 128 div 128 mod 128 + 128),
         of_nat (n div 128 div 128 div 128 div 128)])"
    unfolding EncodeVarint32_def Let_def bytes(1) [unfolded drop_bit_0 id_apply] bytes(2,4)
      bytes(3) [unfolded drop_bit_0 id_apply]
    by (simp add: word_less_nat_alt n_def [symmetric] div_mult2_eq [symmetric])
  consider "n < 2 ^ 7" | "2 ^ 7 \<le> n" "n < 2 ^ 14" | "2 ^ 14 \<le> n" "n < 2 ^ 21"
    | "2 ^ 21 \<le> n" "n < 2 ^ 28" | "2 ^ 28 \<le> n" by linarith
  then show ?thesis
    unfolding n_def [symmetric] b using n
    by cases (simp_all add: leb128_small leb128_big)
qed

lemma word_of_nat_split_7:
  "push_bit s (of_nat (n mod 128)) OR push_bit (s + 7) (of_nat (n div 128)) =
     (push_bit s (of_nat n) :: 'a::len word)"
proof (rule bit_word_eqI)
  fix k assume k: "k < LENGTH('a)"
  have nn: "n mod 128 = take_bit 7 n" "n div 128 = drop_bit 7 n"
    by (simp_all add: take_bit_eq_mod drop_bit_eq_div)
  show "bit (push_bit s (of_nat (n mod 128)) OR push_bit (s + 7) (of_nat (n div 128)) :: 'a word) k
      = bit (push_bit s (of_nat n) :: 'a word) k"
  proof (cases "s + 7 \<le> k")
    case True
    then have "7 + (k - (s + 7)) = k - s" by simp
    with True k show ?thesis unfolding nn by (auto simp: bit_simps)
  next
    case False
    with k show ?thesis unfolding nn by (auto simp: bit_simps)
  qed
qed

lemma ucast_of_nat_byte: "n < 256 \<Longrightarrow> ucast (of_nat n :: byte) = (of_nat n :: 'a::len word)"
  by (simp add: unsigned_of_nat take_bit_eq_mod)

lemma varint_last_byte: "n < 128 \<Longrightarrow> (of_nat n :: 'a::len word) AND 128 = 0"
  by (intro bit_word_eqI) (auto simp: bit_simps bit_128 bit_iff_odd [of n])

lemma varint_more_byte:
  assumes "8 \<le> LENGTH('a)"
  shows "(of_nat (n mod 128 + 128) :: 'a::len word) AND 128 \<noteq> 0"
    and "(of_nat (n mod 128 + 128) :: 'a word) AND 127 = of_nat (n mod 128)"
proof -
  have "take_bit 7 n + 128 = take_bit 7 n OR 128"
    by (rule disjunctive_add) (auto simp: bit_128 bit_take_bit_iff)
  then have eq: "n mod 128 + 128 = take_bit 7 n OR 128" by (simp add: take_bit_eq_mod)
  have "bit ((of_nat (n mod 128 + 128) :: 'a word) AND 128) 7"
    using assms unfolding eq by (simp add: bit_simps bit_128)
  then show "(of_nat (n mod 128 + 128) :: 'a word) AND 128 \<noteq> 0" by auto
  have m: "(127 :: 'a word) = mask 7" by (simp add: mask_eq_exp_minus_1)
  have "n mod 128 = take_bit 7 n" by (simp add: take_bit_eq_mod)
  then show "(of_nat (n mod 128 + 128) :: 'a word) AND 127 = of_nat (n mod 128)"
    using assms unfolding eq m by (intro bit_word_eqI) (auto simp: bit_simps bit_128)
qed

lemma leb128_room:
  fixes n :: nat
  assumes "128 \<le> n" and "n < 2 ^ (w - s)"
  shows "s + 7 < w" and "n div 128 < 2 ^ (w - (s + 7))"
proof -
  have "(2 :: nat) ^ 7 < 2 ^ (w - s)" using assms by simp
  then have "7 < w - s" by (rule power_less_imp_less_exp [rotated]) simp
  then show w: "s + 7 < w" by simp
  then have "w - s = w - (s + 7) + 7" by simp
  then have "(2 :: nat) ^ (w - s) = 2 ^ (w - (s + 7)) * 128"
    by (simp only: power_add) simp
  with assms(2) show "n div 128 < 2 ^ (w - (s + 7))"
    by (simp add: less_mult_imp_div_less)
qed

lemma GetVarint32PtrFallback_loop_leb128:
  assumes "7 dvd s" and "s \<le> 28" and "n < 2 ^ (32 - s)"
  shows "GetVarint32PtrFallback_loop s r (leb128 n @ rest) = Some (r OR push_bit s (of_nat n), rest)"
  using assms
proof (induction n arbitrary: s r rule: leb128.induct)
  case (1 n)
  show ?case
  proof (cases "n < 128")
    case True
    with "1.prems" show ?thesis
      by (simp add: leb128_small ucast_of_nat_byte varint_last_byte)
  next
    case False
    then have room: "s + 7 < 32" "n div 128 < 2 ^ (32 - (s + 7))"
      using leb128_room [of n 32 s] "1.prems"(3) by simp_all
    with "1.prems"(1) have "s + 7 \<le> 28" by (auto simp: dvd_def)
    then have "GetVarint32PtrFallback_loop (s + 7) (r OR push_bit s (of_nat (n mod 128)))
        (leb128 (n div 128) @ rest)
      = Some ((r OR push_bit s (of_nat (n mod 128))) OR push_bit (s + 7) (of_nat (n div 128)), rest)"
      using "1.IH" [of "s + 7"] False "1.prems" room by simp
    then show ?thesis
      using False "1.prems"
      by (simp add: leb128_big ucast_of_nat_byte varint_more_byte or.assoc word_of_nat_split_7
          del: of_nat_add)
  qed
qed

lemma GetVarint64Ptr_loop_leb128:
  assumes "7 dvd s" and "s \<le> 63" and "n < 2 ^ (64 - s)"
  shows "GetVarint64Ptr_loop s r (leb128 n @ rest) = Some (r OR push_bit s (of_nat n), rest)"
  using assms
proof (induction n arbitrary: s r rule: leb128.induct)
  case (1 n)
  show ?case
  proof (cases "n < 128")
    case True
    with "1.prems" show ?thesis
      by (simp add: leb128_small ucast_of_nat_byte varint_last_byte)
  next
    case False
    then have room: "s + 7 < 64" "n div 128 < 2 ^ (64 - (s + 7))"
      using leb128_room [of n 64 s] "1.prems"(3) by simp_all
    with "1.prems"(1) have "s + 7 \<le> 63" by (auto simp: dvd_def)
    then have "GetVarint64Ptr_loop (s + 7) (r OR push_bit s (of_nat (n mod 128)))
        (leb128 (n div 128) @ rest)
      = Some ((r OR push_bit s (of_nat (n mod 128))) OR push_bit (s + 7) (of_nat (n div 128)), rest)"
      using "1.IH" [of "s + 7"] False "1.prems" room by simp
    then show ?thesis
      using False "1.prems"
      by (simp add: leb128_big ucast_of_nat_byte varint_more_byte or.assoc word_of_nat_split_7
          del: of_nat_add)
  qed
qed

lemma GetVarint32Ptr_Encode [simp, codec_simps]:
  "GetVarint32Ptr (EncodeVarint32 v @ rest) = Some (v, rest)"
proof -
  have n: "unat v < 2 ^ (32 - 0)" using unsigned_less [of v, where 'a = nat] by simp
  have "GetVarint32PtrFallback (EncodeVarint32 v @ rest) = Some (v, rest)"
    unfolding GetVarint32PtrFallback_def EncodeVarint32_leb128
    by (subst GetVarint32PtrFallback_loop_leb128 [OF _ _ n]) simp_all
  then show ?thesis
    by (auto simp: GetVarint32Ptr_def GetVarint32PtrFallback_def Let_def split: list.split)
qed

lemma GetVarint64Ptr_Encode [simp, codec_simps]:
  "GetVarint64Ptr (EncodeVarint64 v @ rest) = Some (v, rest)"
proof -
  have n: "unat v < 2 ^ (64 - 0)" using unsigned_less [of v, where 'a = nat] by simp
  show ?thesis
    unfolding GetVarint64Ptr_def EncodeVarint64_leb128
    by (subst GetVarint64Ptr_loop_leb128 [OF _ _ n]) simp_all
qed

lemma GetVarint32_eq: "GetVarint32 input = GetVarint32Ptr input"
  by (simp add: GetVarint32_def split: option.split)

lemma GetVarint64_eq: "GetVarint64 input = GetVarint64Ptr input"
  by (simp add: GetVarint64_def split: option.split)

lemma GetVarint32_Encode [simp, codec_simps]: "GetVarint32 (EncodeVarint32 v @ rest) = Some (v, rest)"
  by (simp add: GetVarint32_eq)

lemma GetVarint64_Encode [simp, codec_simps]: "GetVarint64 (EncodeVarint64 v @ rest) = Some (v, rest)"
  by (simp add: GetVarint64_eq)

text \<open>The unrolled 32-bit encoder writes what the 64-bit loop writes.\<close>

lemma EncodeVarint32_eq_64: "EncodeVarint32 v = EncodeVarint64 (ucast v)"
proof -
  have "unat v < 2 ^ 64" using unsigned_less [of v, where 'a = nat] by simp
  then show ?thesis
    by (simp add: EncodeVarint32_leb128 EncodeVarint64_leb128 unsigned_ucast_eq take_bit_nat_eq_self)
qed

lemma EncodeVarint64_nonempty [simp]: "EncodeVarint64 v \<noteq> []"
  by (simp add: EncodeVarint64_leb128)

lemma VarintLength_loop_eq: "VarintLength_loop v len + 1 = len + length (EncodeVarint64 v)"
proof (induction v len rule: VarintLength_loop.induct)
  case (1 v len)
  then show ?case
    by (auto simp: VarintLength_loop.simps [of v len] EncodeVarint64.simps [of v])
qed

lemma VarintLength_eq: "VarintLength v = length (EncodeVarint64 v)"
  using VarintLength_loop_eq [of v 1] by (simp add: VarintLength_def)

lemma length_leb128: "n < 2 ^ (7 * k) \<Longrightarrow> 0 < k \<Longrightarrow> length (leb128 n) \<le> k"
proof (induction n arbitrary: k rule: leb128.induct)
  case (1 n)
  show ?case
  proof (cases "n < 128")
    case True
    with "1.prems" show ?thesis by (simp add: leb128_small)
  next
    case False
    with "1.prems"(1) have "k \<noteq> 1" by auto
    with "1.prems"(2) obtain j where k: "k = Suc j" "0 < j" by (cases k) auto
    with "1.prems"(1) have "n div 128 < 2 ^ (7 * j)"
      by (simp add: less_mult_imp_div_less power_add mult.commute)
    with "1.IH" [of j] False k show ?thesis by (simp add: leb128_big)
  qed
qed

lemma length_EncodeVarint32: "length (EncodeVarint32 v) \<le> 5"
  using unsigned_less [of v, where 'a = nat] length_leb128 [of "unat v" 5]
  by (simp add: EncodeVarint32_leb128)

lemma length_EncodeVarint64: "length (EncodeVarint64 v) \<le> 10"
  using unsigned_less [of v, where 'a = nat] length_leb128 [of "unat v" 10]
  by (simp add: EncodeVarint64_leb128)

lemma EncodeVarint32_nonempty [simp]: "EncodeVarint32 v \<noteq> []"
  by (simp add: EncodeVarint32_leb128)

lemma PutLengthPrefixedSlice_eq:
  "PutLengthPrefixedSlice dst value = dst @ PutLengthPrefixedSlice [] value"
  by (simp add: PutLengthPrefixedSlice_def PutVarint32_def)

lemma unat_length32: "length value < 2 ^ 32 \<Longrightarrow> unat (of_nat (length value) :: u32) = length value"
  by (simp add: unat_of_nat)

lemma GetLengthPrefixedSlice_Put [simp, codec_simps]:
  "length value < 2 ^ 32 \<Longrightarrow>
   GetLengthPrefixedSlice (PutLengthPrefixedSlice [] value @ rest) = Some (value, rest)"
  by (simp add: GetLengthPrefixedSlice_def PutLengthPrefixedSlice_def PutVarint32_def unat_of_nat)

lemma GetLengthPrefixedSlicePtr_Put [simp, codec_simps]:
  "length value < 2 ^ 32 \<Longrightarrow>
   GetLengthPrefixedSlicePtr (PutLengthPrefixedSlice [] value @ rest) = Some (value, rest)"
  by (simp add: GetLengthPrefixedSlicePtr_def PutLengthPrefixedSlice_def PutVarint32_def unat_of_nat)

text \<open>The two overloads of \<^verbatim>\<open>GetLengthPrefixedSlice\<close>, on pointers and on slices, agree.\<close>

lemma GetLengthPrefixedSlice_overloads: "GetLengthPrefixedSlicePtr p = GetLengthPrefixedSlice p"
  by (auto simp: GetLengthPrefixedSlicePtr_def GetLengthPrefixedSlice_def GetVarint32_eq
      split: option.split)

text \<open>A successful decoding consumes at least one byte: what makes the parsing loops terminate.\<close>

lemma GetVarint32PtrFallback_loop_shorter:
  "GetVarint32PtrFallback_loop shift result p = Some (v, q) \<Longrightarrow> length q < length p"
  by (induction shift result p arbitrary: v q rule: GetVarint32PtrFallback_loop.induct)
    (fastforce simp: Let_def split: if_splits)+

lemma GetVarint64Ptr_loop_shorter:
  "GetVarint64Ptr_loop shift result p = Some (v, q) \<Longrightarrow> length q < length p"
  by (induction shift result p arbitrary: v q rule: GetVarint64Ptr_loop.induct)
    (fastforce simp: Let_def split: if_splits)+

lemma GetVarint32_shorter: "GetVarint32 p = Some (v, q) \<Longrightarrow> length q < length p"
  by (auto simp: GetVarint32_def GetVarint32Ptr_def GetVarint32PtrFallback_def Let_def
      dest!: GetVarint32PtrFallback_loop_shorter split: option.splits list.splits if_splits)

lemma GetVarint64_shorter: "GetVarint64 p = Some (v, q) \<Longrightarrow> length q < length p"
  by (auto simp: GetVarint64_def GetVarint64Ptr_def dest!: GetVarint64Ptr_loop_shorter split: option.splits)

lemma GetLengthPrefixedSlice_shorter: "GetLengthPrefixedSlice p = Some (s, q) \<Longrightarrow> length q < length p"
  by (auto simp: GetLengthPrefixedSlice_def dest!: GetVarint32_shorter split: option.splits if_splits)

lemmas decode_shorter = GetVarint32_shorter GetVarint64_shorter GetLengthPrefixedSlice_shorter

text \<open>Indexing into an array of fixed-width integers.\<close>

lemma DecodeFixed32_array:
  assumes "j < length ws"
  shows "DecodeFixed32 (drop (j * 4) (concat (map EncodeFixed32 ws) @ rest)) = ws ! j"
proof -
  have len: "length (concat (map EncodeFixed32 xs)) = length xs * 4" for xs by (induction xs) simp_all
  have "concat (map EncodeFixed32 ws) = concat (map EncodeFixed32 (take j ws)) @ EncodeFixed32 (ws ! j)
      @ concat (map EncodeFixed32 (drop (Suc j) ws))"
    using assms by (subst (1) id_take_nth_drop [OF assms]) simp
  then have "drop (j * 4) (concat (map EncodeFixed32 ws) @ rest)
      = EncodeFixed32 (ws ! j) @ concat (map EncodeFixed32 (drop (Suc j) ws)) @ rest"
    using assms len [of "take j ws"] by simp
  then show ?thesis by simp
qed

interpretation fixed32: codec EncodeFixed32
  "\<lambda>p. if length p < 4 then None else Some (DecodeFixed32 p, drop 4 p)" "\<lambda>_. True"
  by unfold_locales simp

interpretation fixed64: codec EncodeFixed64
  "\<lambda>p. if length p < 8 then None else Some (DecodeFixed64 p, drop 8 p)" "\<lambda>_. True"
  by unfold_locales simp

interpretation varint32: codec EncodeVarint32 GetVarint32 "\<lambda>_. True"
  by unfold_locales simp

interpretation varint64: codec EncodeVarint64 GetVarint64 "\<lambda>_. True"
  by unfold_locales simp

interpretation lpslice: codec "PutLengthPrefixedSlice []" GetLengthPrefixedSlice
  "\<lambda>v. length v < 2 ^ 32"
  by unfold_locales simp

end
