(* ===== verification/Status.thy ===== *)
theory Status
  imports Coding
begin

text \<open>
  \<^verbatim>\<open>Slice\<close> (\<^verbatim>\<open>include/leveldb/slice.h\<close>) and \<^verbatim>\<open>Status\<close> (\<^verbatim>\<open>include/leveldb/status.h\<close>, \<^verbatim>\<open>util/status.cc\<close>).
  A slice is the list of bytes it refers to.  A status keeps the representation of the code: no state
  for success, otherwise one array holding the message length, the code and the message.
\<close>

subsection \<open>Slice\<close>

type_synonym Slice = bytes

definition Slice_empty :: "Slice \<Rightarrow> bool" where
  "Slice_empty s \<longleftrightarrow> length s = 0"

definition Slice_remove_prefix :: "nat \<Rightarrow> Slice \<Rightarrow> Slice" where
  "Slice_remove_prefix n s = drop n s"

text \<open>\<^verbatim>\<open>memcmp\<close> on the first \<open>n\<close> bytes, as unsigned bytes.\<close>

fun memcmp :: "bytes \<Rightarrow> bytes \<Rightarrow> nat \<Rightarrow> int" where
  "memcmp (x # xs) (y # ys) (Suc n) =
     (if x < y then -1 else if y < x then 1 else memcmp xs ys n)"
| "memcmp _ _ _ = 0"

definition Slice_starts_with :: "Slice \<Rightarrow> Slice \<Rightarrow> bool" where
  "Slice_starts_with s x \<longleftrightarrow> length s \<ge> length x \<and> memcmp s x (length x) = 0"

definition Slice_equal :: "Slice \<Rightarrow> Slice \<Rightarrow> bool" where
  "Slice_equal x y \<longleftrightarrow> length x = length y \<and> memcmp x y (length x) = 0"

definition Slice_compare :: "Slice \<Rightarrow> Slice \<Rightarrow> int" where
  "Slice_compare a b =
     (let min_len = (if length a < length b then length a else length b);
          r = memcmp a b min_len
      in if r = 0 then (if length a < length b then -1 else if length a > length b then 1 else r)
         else r)"

lemma memcmp_0_iff:
  "n \<le> length a \<Longrightarrow> n \<le> length b \<Longrightarrow> memcmp a b n = 0 \<longleftrightarrow> take n a = take n b"
  by (induction a b n rule: memcmp.induct) auto

lemma Slice_equal_iff [slice_simps]: "Slice_equal x y \<longleftrightarrow> x = y"
  by (auto simp: Slice_equal_def memcmp_0_iff)

lemma Slice_starts_with_iff [slice_simps]: "Slice_starts_with s x \<longleftrightarrow> take (length x) s = x"
proof -
  have "take (length x) s = x \<Longrightarrow> length x \<le> length s"
    by (metis length_take min.cobounded1)
  then show ?thesis
    unfolding Slice_starts_with_def by (metis memcmp_0_iff order_refl take_all)
qed

lemma Slice_compare_Nil: "Slice_compare [] b = (if b = [] then 0 else -1)"
  "Slice_compare a [] = (if a = [] then 0 else 1)"
  by (cases a; auto simp: Slice_compare_def)+

lemma Slice_compare_Cons:
  "Slice_compare (x # xs) (y # ys) = (if x < y then -1 else if y < x then 1 else Slice_compare xs ys)"
  by (simp add: Slice_compare_def Let_def)

lemma Slice_compare_range: "Slice_compare a b \<in> {-1, 0, 1}"
proof (induction a arbitrary: b)
  case Nil
  then show ?case by (simp add: Slice_compare_Nil)
next
  case (Cons x xs)
  then show ?case by (cases b) (auto simp: Slice_compare_Nil Slice_compare_Cons)
qed

text \<open>The order \<^verbatim>\<open>Slice::compare\<close> decides is the lexicographic order on unsigned bytes.\<close>

lemma Slice_compare_lex:
  "Slice_compare a b < 0 \<longleftrightarrow> (a, b) \<in> lexord {(x, y). x < y}"
  "Slice_compare a b = 0 \<longleftrightarrow> a = b"
proof (induction a arbitrary: b)
  case Nil
  { case 1 then show ?case by (cases b) (auto simp: Slice_compare_Nil) }
  { case 2 then show ?case by (auto simp: Slice_compare_Nil) }
next
  case (Cons x xs)
  { case 1 then show ?case using Cons by (cases b) (auto simp: Slice_compare_Nil Slice_compare_Cons) }
  { case 2 then show ?case using Cons by (cases b) (auto simp: Slice_compare_Nil Slice_compare_Cons) }
qed

lemma Slice_compare_swap: "Slice_compare b a = - Slice_compare a b"
proof (induction a arbitrary: b)
  case Nil
  then show ?case by (auto simp: Slice_compare_Nil)
next
  case (Cons x xs)
  then show ?case by (cases b) (auto simp: Slice_compare_Nil Slice_compare_Cons)
qed

lemma Slice_compare_trans:
  assumes "Slice_compare a b < 0" and "Slice_compare b c < 0"
  shows "Slice_compare a c < 0"
  using assms unfolding Slice_compare_lex
  by (rule lexord_trans) (auto simp: trans_def)

subsection \<open>Status\<close>

datatype Code = kOk | kNotFound | kCorruption | kNotSupported | kInvalidArgument | kIOError

primrec code_num :: "Code \<Rightarrow> byte" where
  "code_num kOk = 0"
| "code_num kNotFound = 1"
| "code_num kCorruption = 2"
| "code_num kNotSupported = 3"
| "code_num kInvalidArgument = 4"
| "code_num kIOError = 5"

text \<open>\<open>None\<close> is the null \<^verbatim>\<open>state_\<close> of an OK status.\<close>

type_synonym Status = "bytes option"

definition Status_OK :: Status where
  "Status_OK = None"

definition Status_make :: "Code \<Rightarrow> Slice \<Rightarrow> Slice \<Rightarrow> Status" where
  "Status_make code msg msg2 =
     (let len1 = of_nat (length msg) :: u32;
          len2 = of_nat (length msg2) :: u32;
          size = len1 + (if len2 \<noteq> 0 then 2 + len2 else 0)
      in Some (mem_image 4 size @ [code_num code] @ msg
               @ (if len2 \<noteq> 0 then str '': '' @ msg2 else [])))"

definition NotFound :: "Slice \<Rightarrow> Slice \<Rightarrow> Status" where
  "NotFound msg msg2 = Status_make kNotFound msg msg2"

definition Corruption :: "Slice \<Rightarrow> Slice \<Rightarrow> Status" where
  "Corruption msg msg2 = Status_make kCorruption msg msg2"

definition NotSupported :: "Slice \<Rightarrow> Slice \<Rightarrow> Status" where
  "NotSupported msg msg2 = Status_make kNotSupported msg msg2"

definition InvalidArgument :: "Slice \<Rightarrow> Slice \<Rightarrow> Status" where
  "InvalidArgument msg msg2 = Status_make kInvalidArgument msg msg2"

definition IOError :: "Slice \<Rightarrow> Slice \<Rightarrow> Status" where
  "IOError msg msg2 = Status_make kIOError msg msg2"

definition Status_ok :: "Status \<Rightarrow> bool" where
  "Status_ok s \<longleftrightarrow> s = None"

definition Status_code :: "Status \<Rightarrow> byte" where
  "Status_code s = (case s of None \<Rightarrow> code_num kOk | Some state \<Rightarrow> state ! 4)"

definition IsNotFound :: "Status \<Rightarrow> bool" where
  "IsNotFound s \<longleftrightarrow> Status_code s = code_num kNotFound"

definition IsCorruption :: "Status \<Rightarrow> bool" where
  "IsCorruption s \<longleftrightarrow> Status_code s = code_num kCorruption"

definition IsIOError :: "Status \<Rightarrow> bool" where
  "IsIOError s \<longleftrightarrow> Status_code s = code_num kIOError"

text \<open>\<^verbatim>\<open>CopyState\<close> reads the stored length and copies that many bytes and the 5-byte header.\<close>

definition CopyState :: "bytes \<Rightarrow> bytes" where
  "CopyState state = (let size = mem_load (take 4 state) :: u32 in take (unat size + 5) state)"

definition Status_copy :: "Status \<Rightarrow> Status" where
  "Status_copy s = (case s of None \<Rightarrow> None | Some state \<Rightarrow> Some (CopyState state))"

definition Status_ToString :: "Status \<Rightarrow> bytes" where
  "Status_ToString s =
     (case s of
        None \<Rightarrow> str ''OK''
      | Some state \<Rightarrow>
          let code = state ! 4;
              type = (if code = code_num kOk then str ''OK''
                      else if code = code_num kNotFound then str ''NotFound: ''
                      else if code = code_num kCorruption then str ''Corruption: ''
                      else if code = code_num kNotSupported then str ''Not implemented: ''
                      else if code = code_num kInvalidArgument then str ''Invalid argument: ''
                      else if code = code_num kIOError then str ''IO error: ''
                      else str ''Unknown code('' @ print_int (sint code) @ str ''): '');
              length = mem_load (take 4 state) :: u32
          in type @ take (unat length) (drop 5 state))"

lemmas status_ctor_defs = NotFound_def Corruption_def NotSupported_def InvalidArgument_def IOError_def

lemma Status_make_not_ok [simp]: "\<not> Status_ok (Status_make c m m2)"
  by (simp add: Status_ok_def Status_make_def Let_def)

lemma Status_ctors_not_ok [simp]:
  "\<not> Status_ok (NotFound m m2)" "\<not> Status_ok (Corruption m m2)" "\<not> Status_ok (IOError m m2)"
  "\<not> Status_ok (InvalidArgument m m2)" "\<not> Status_ok (NotSupported m m2)"
  by (simp_all add: status_ctor_defs)

lemma Status_OK_ok [simp]: "Status_ok Status_OK"
  by (simp add: Status_ok_def Status_OK_def)

lemma Status_code_make [simp]: "Status_code (Status_make c m m2) = code_num c"
  by (simp add: Status_code_def Status_make_def Let_def nth_append)

lemma code_num_inject [simp]: "code_num a = code_num b \<longleftrightarrow> a = b"
  by (cases a; cases b) auto

text \<open>The message a status carries, and that its stored length is the length of that message.\<close>

definition status_message :: "Slice \<Rightarrow> Slice \<Rightarrow> bytes" where
  "status_message msg msg2 = msg @ (if msg2 = [] then [] else str '': '' @ msg2)"

lemma Status_make_message:
  assumes "length msg + length msg2 + 2 < 2 ^ 32"
  shows "Status_make c msg msg2 =
    Some (mem_image 4 (of_nat (length (status_message msg msg2)) :: u32) @ [code_num c]
          @ status_message msg msg2)"
proof -
  have "(of_nat (length msg2) :: u32) = 0 \<longleftrightarrow> msg2 = []"
    using assms of_nat_u32_eq_0 [of "length msg2"] by simp
  then show ?thesis
    by (auto simp: Status_make_def status_message_def Let_def)
qed

lemma Status_ToString_make:
  assumes "length msg + length msg2 + 2 < 2 ^ 32"
  shows "Status_ToString (Status_make c msg msg2) =
    (case c of kOk \<Rightarrow> str ''OK'' | kNotFound \<Rightarrow> str ''NotFound: '' | kCorruption \<Rightarrow> str ''Corruption: ''
     | kNotSupported \<Rightarrow> str ''Not implemented: '' | kInvalidArgument \<Rightarrow> str ''Invalid argument: ''
     | kIOError \<Rightarrow> str ''IO error: '') @ status_message msg msg2"
proof -
  let ?m = "status_message msg msg2"
  let ?n = "of_nat (length ?m) :: u32"
  have "length ?m < 2 ^ 32" using assms by (simp add: status_message_def)
  then have n: "unat ?n = length ?m" by (simp add: unat_of_nat)
  have load: "mem_load (mem_image 4 ?n) = ?n" using mem_load_image [of 4 ?n "[]"] by simp
  show ?thesis
    unfolding Status_make_message [OF assms] Status_ToString_def
    by (cases c) (simp_all add: Let_def nth_append load n)
qed

lemma Status_copy_make:
  assumes "length msg + length msg2 + 2 < 2 ^ 32"
  shows "Status_copy (Status_make c msg msg2) = Status_make c msg msg2"
proof -
  let ?m = "status_message msg msg2"
  let ?n = "of_nat (length ?m) :: u32"
  have "length ?m < 2 ^ 32" using assms by (simp add: status_message_def)
  then have n: "unat ?n = length ?m" by (simp add: unat_of_nat)
  have load: "mem_load (mem_image 4 ?n) = ?n" using mem_load_image [of 4 ?n "[]"] by simp
  show ?thesis
    unfolding Status_make_message [OF assms] Status_copy_def
    by (simp add: CopyState_def Let_def load n)
qed

end
