(* ===== verification/Comparator.thy ===== *)
theory Comparator
  imports Status
begin

text \<open>
  Comparators: the abstract class of \<^verbatim>\<open>include/leveldb/comparator.h\<close> as a record of its methods, the
  built-in bytewise comparator of \<^verbatim>\<open>util/comparator.cc\<close>, and the interfaces the clients of a comparator
  rely on: a total preorder (\<open>comparator\<close>), and separators that stay between their bounds
  (\<open>key_comparator\<close>).
\<close>

record Comparator =
  Comparator_Name :: bytes
  Compare :: "Slice \<Rightarrow> Slice \<Rightarrow> int"
  FindShortestSeparator :: "bytes \<Rightarrow> Slice \<Rightarrow> bytes"
  FindShortSuccessor :: "bytes \<Rightarrow> bytes"

subsection \<open>The interfaces\<close>

locale comparator =
  fixes cmp :: "'k \<Rightarrow> 'k \<Rightarrow> int"
  assumes cmp_swap: "cmp a b < 0 \<longleftrightarrow> 0 < cmp b a"
    and cmp_le_trans: "cmp a b \<le> 0 \<Longrightarrow> cmp b c \<le> 0 \<Longrightarrow> cmp a c \<le> 0"
begin

lemma cmp_refl [simp]: "cmp a a = 0"
  using cmp_swap [of a a] by linarith

lemma cmp_zero_swap: "cmp a b = 0 \<longleftrightarrow> cmp b a = 0"
  using cmp_swap [of a b] cmp_swap [of b a] by linarith

lemma cmp_ge_swap: "0 \<le> cmp a b \<longleftrightarrow> cmp b a \<le> 0"
  using cmp_swap [of a b] cmp_swap [of b a] by linarith

lemma cmp_less_le_trans: "cmp a b < 0 \<Longrightarrow> cmp b c \<le> 0 \<Longrightarrow> cmp a c < 0"
  using cmp_swap [of a c] cmp_swap [of a b] cmp_ge_swap [of c a] cmp_ge_swap [of a c]
    cmp_le_trans [of b c a] by (metis leD linorder_le_less_linear order_less_imp_le)

lemma cmp_le_less_trans: "cmp a b \<le> 0 \<Longrightarrow> cmp b c < 0 \<Longrightarrow> cmp a c < 0"
  using cmp_swap [of b c] cmp_ge_swap [of a c] cmp_le_trans [of c a b] cmp_swap [of c b]
  by (metis cmp_ge_swap leD linorder_le_less_linear)

lemma cmp_less_trans: "cmp a b < 0 \<Longrightarrow> cmp b c < 0 \<Longrightarrow> cmp a c < 0"
  by (rule cmp_less_le_trans) auto

lemma cmp_zero_left: "cmp a b = 0 \<Longrightarrow> cmp a c < 0 \<longleftrightarrow> cmp b c < 0"
  using cmp_le_less_trans [of a b c] cmp_le_less_trans [of b a c] cmp_zero_swap [of a b] by auto

lemma cmp_zero_right: "cmp b c = 0 \<Longrightarrow> cmp a b < 0 \<longleftrightarrow> cmp a c < 0"
  using cmp_less_le_trans [of a b c] cmp_less_le_trans [of a c b] cmp_zero_swap [of b c] by auto

lemma cmp_less_transp: "transp (\<lambda>a b. cmp a b < 0)"
  by (rule transpI) (rule cmp_less_trans)

text \<open>
  In a list sorted by the order, the keys below a target form a prefix: the shape every binary or
  skip search of the code relies on.
\<close>

lemma sorted_filter_prefix:
  assumes "sorted_wrt (\<lambda>a b. cmp a b < 0) xs"
  shows "filter (\<lambda>x. cmp x k < 0) xs = takeWhile (\<lambda>x. cmp x k < 0) xs"
    and "filter (\<lambda>x. \<not> cmp x k < 0) xs = dropWhile (\<lambda>x. cmp x k < 0) xs"
proof -
  have "filter (\<lambda>x. cmp x k < 0) xs = takeWhile (\<lambda>x. cmp x k < 0) xs \<and>
        filter (\<lambda>x. \<not> cmp x k < 0) xs = dropWhile (\<lambda>x. cmp x k < 0) xs"
    using assms
  proof (induction xs)
    case Nil
    then show ?case by simp
  next
    case (Cons x xs)
    show ?case
    proof (cases "cmp x k < 0")
      case True
      with Cons show ?thesis by simp
    next
      case False
      have "\<not> cmp y k < 0" if "y \<in> set xs" for y
        using Cons.prems that False cmp_less_trans [of x y k] by auto
      then have "filter (\<lambda>x. cmp x k < 0) xs = []" and "filter (\<lambda>x. \<not> cmp x k < 0) xs = xs"
        by (auto simp: filter_empty_conv)
      with False show ?thesis by simp
    qed
  qed
  then show "filter (\<lambda>x. cmp x k < 0) xs = takeWhile (\<lambda>x. cmp x k < 0) xs"
    and "filter (\<lambda>x. \<not> cmp x k < 0) xs = dropWhile (\<lambda>x. cmp x k < 0) xs" by auto
qed

end

locale key_comparator =
  fixes C :: Comparator
  assumes Compare_swap: "Compare C a b < 0 \<longleftrightarrow> 0 < Compare C b a"
    and Compare_le_trans: "Compare C a b \<le> 0 \<Longrightarrow> Compare C b c \<le> 0 \<Longrightarrow> Compare C a c \<le> 0"
    and separator_ge: "Compare C a b < 0 \<Longrightarrow> Compare C a (FindShortestSeparator C a b) \<le> 0"
    and separator_less: "Compare C a b < 0 \<Longrightarrow> Compare C (FindShortestSeparator C a b) b < 0"
    and separator_same: "Compare C a b = 0 \<Longrightarrow> FindShortestSeparator C a b = a"
    and successor_ge: "Compare C a (FindShortSuccessor C a) \<le> 0"

sublocale key_comparator \<subseteq> user: comparator "Compare C"
  by unfold_locales (rule Compare_swap, rule Compare_le_trans)

context key_comparator
begin

lemma user_order: "comparator (Compare C)"
  by (rule user.comparator_axioms)

end

subsection \<open>The bytewise comparator\<close>

function Bytewise_diff_index :: "bytes \<Rightarrow> Slice \<Rightarrow> nat \<Rightarrow> nat \<Rightarrow> nat" where
  "Bytewise_diff_index start limit min_length diff_index =
     (if diff_index < min_length \<and> start ! diff_index = limit ! diff_index
      then Bytewise_diff_index start limit min_length (diff_index + 1) else diff_index)"
  by pat_completeness auto
termination
  by (relation "measure (\<lambda>(_, _, m, i). m - i)") auto

declare Bytewise_diff_index.simps [simp del]

definition Bytewise_FindShortestSeparator :: "bytes \<Rightarrow> Slice \<Rightarrow> bytes" where
  "Bytewise_FindShortestSeparator start limit =
     (let min_length = min (length start) (length limit);
          diff_index = Bytewise_diff_index start limit min_length 0
      in if diff_index \<ge> min_length then start
         else let diff_byte = start ! diff_index in
           if diff_byte < 0xff \<and> uint diff_byte + 1 < uint (limit ! diff_index)
           then take (diff_index + 1) (start[diff_index := start ! diff_index + 1])
           else start)"

function Bytewise_FindShortSuccessor_loop :: "bytes \<Rightarrow> nat \<Rightarrow> bytes" where
  "Bytewise_FindShortSuccessor_loop key i =
     (if i < length key then
        let byte = key ! i in
        if byte \<noteq> 0xff then take (i + 1) (key[i := byte + 1])
        else Bytewise_FindShortSuccessor_loop key (i + 1)
      else key)"
  by pat_completeness auto
termination
  by (relation "measure (\<lambda>(k, i). length k - i)") auto

declare Bytewise_FindShortSuccessor_loop.simps [simp del]

definition Bytewise_FindShortSuccessor :: "bytes \<Rightarrow> bytes" where
  "Bytewise_FindShortSuccessor key = Bytewise_FindShortSuccessor_loop key 0"

definition BytewiseComparator :: Comparator where
  "BytewiseComparator =
     \<lparr>Comparator_Name = str ''leveldb.BytewiseComparator'',
      Compare = Slice_compare,
      FindShortestSeparator = Bytewise_FindShortestSeparator,
      FindShortSuccessor = Bytewise_FindShortSuccessor\<rparr>"

lemma BytewiseComparator_simps [simp]:
  "Compare BytewiseComparator = Slice_compare"
  "FindShortestSeparator BytewiseComparator = Bytewise_FindShortestSeparator"
  "FindShortSuccessor BytewiseComparator = Bytewise_FindShortSuccessor"
  by (simp_all add: BytewiseComparator_def)

lemma Slice_compare_refl [simp]: "Slice_compare a a = 0"
  using Slice_compare_lex(2) [of a a] by simp

lemma Slice_compare_append: "Slice_compare (p @ a) (p @ b) = Slice_compare a b"
  by (induction p) (auto simp: Slice_compare_Cons)

lemma Bytewise_diff_index_inv:
  assumes "i \<le> m" and "\<forall>j<i. start ! j = limit ! j"
  shows "Bytewise_diff_index start limit m i \<le> m \<and>
    (\<forall>j<Bytewise_diff_index start limit m i. start ! j = limit ! j) \<and>
    (Bytewise_diff_index start limit m i < m \<longrightarrow>
       start ! Bytewise_diff_index start limit m i \<noteq> limit ! Bytewise_diff_index start limit m i)"
  using assms
proof (induction start limit m i rule: Bytewise_diff_index.induct)
  case (1 start limit m i)
  show ?case
  proof (cases "i < m \<and> start ! i = limit ! i")
    case True
    with 1 show ?thesis
      by (simp add: Bytewise_diff_index.simps [of start limit m i] less_Suc_eq)
  next
    case False
    with "1.prems" show ?thesis by (auto simp: Bytewise_diff_index.simps [of start limit m i])
  qed
qed

text \<open>
  The separator either leaves \<open>start\<close> alone or cuts it after the first byte that differs from
  \<open>limit\<close>, incremented, with room left below the byte of \<open>limit\<close>.
\<close>

lemma Bytewise_FindShortestSeparator_cases:
  obtains (same) "Bytewise_FindShortestSeparator start limit = start"
  | (cut) p x y s l where "start = p @ x # s" and "limit = p @ y # l" and "uint x + 1 < uint y"
      and "Bytewise_FindShortestSeparator start limit = p @ [x + 1]"
proof -
  let ?m = "min (length start) (length limit)"
  let ?i = "Bytewise_diff_index start limit ?m 0"
  show thesis
  proof (cases "?i < ?m \<and> start ! ?i < 0xff \<and> uint (start ! ?i) + 1 < uint (limit ! ?i)")
    case False
    then show thesis
      by (intro same) (auto simp: Bytewise_FindShortestSeparator_def Let_def)
  next
    case True
    have pre: "\<forall>j < ?i. start ! j = limit ! j"
      using Bytewise_diff_index_inv [of 0 ?m start limit] by simp
    then have "take ?i start = take ?i limit"
      using True by (intro nth_equalityI) auto
    moreover have "start = take ?i start @ start ! ?i # drop (Suc ?i) start"
      and "limit = take ?i limit @ limit ! ?i # drop (Suc ?i) limit"
      using True by (simp_all add: Cons_nth_drop_Suc)
    moreover have "Bytewise_FindShortestSeparator start limit = take ?i start @ [start ! ?i + 1]"
      using True
      by (auto simp: Bytewise_FindShortestSeparator_def Let_def take_Suc_conv_app_nth)
    ultimately show thesis using True by (intro cut) auto
  qed
qed

lemma byte_less_inc: "uint x + 1 < uint y \<Longrightarrow> x < x + 1 \<and> x + 1 < (y :: byte)"
proof -
  assume a: "uint x + 1 < uint y"
  moreover have "uint y < 256" using unsigned_less [of y, where 'a = int] by simp
  ultimately have "uint (x + 1) = uint x + 1"
    by (simp add: uint_word_ariths)
  with a show ?thesis by (simp add: word_less_def)
qed

lemma byte_less_Suc: "x \<noteq> 0xff \<Longrightarrow> x < x + (1 :: byte)"
proof -
  assume "x \<noteq> 0xff"
  then have "uint x \<noteq> 255" by (metis uint_word_of_int_eq word_of_int_uint of_int_numeral)
  moreover have "uint x < 256" using unsigned_less [of x, where 'a = int] by simp
  ultimately have "uint (x + 1) = uint x + 1" by (simp add: uint_word_ariths)
  then show ?thesis by (simp add: word_less_def)
qed

lemma Bytewise_separator_ge:
  "Slice_compare a b < 0 \<Longrightarrow> Slice_compare a (Bytewise_FindShortestSeparator a b) \<le> 0"
proof (cases rule: Bytewise_FindShortestSeparator_cases [of a b])
  case same
  then show ?thesis by simp
next
  case (cut p x y s l)
  then show ?thesis using byte_less_inc [of x y]
    by (simp add: Slice_compare_append Slice_compare_Cons)
qed

lemma Bytewise_separator_less:
  "Slice_compare a b < 0 \<Longrightarrow> Slice_compare (Bytewise_FindShortestSeparator a b) b < 0"
proof (cases rule: Bytewise_FindShortestSeparator_cases [of a b])
  case same
  then show "Slice_compare a b < 0 \<Longrightarrow> ?thesis" by simp
next
  case (cut p x y s l)
  then show ?thesis using byte_less_inc [of x y]
    by (simp add: Slice_compare_append Slice_compare_Cons)
qed

lemma Bytewise_separator_same: "Bytewise_FindShortestSeparator a a = a"
  by (rule Bytewise_FindShortestSeparator_cases [of a a]) auto

lemma Bytewise_successor_loop_ge: "Slice_compare key (Bytewise_FindShortSuccessor_loop key i) \<le> 0"
proof (induction key i rule: Bytewise_FindShortSuccessor_loop.induct)
  case (1 key i)
  show ?case
  proof (cases "i < length key \<and> key ! i \<noteq> 0xff")
    case True
    then have "key = take i key @ key ! i # drop (Suc i) key" by (simp add: Cons_nth_drop_Suc)
    moreover have "Bytewise_FindShortSuccessor_loop key i = take i key @ [key ! i + 1]"
      using True by (simp add: Bytewise_FindShortSuccessor_loop.simps [of key i] take_Suc_conv_app_nth)
    ultimately have "Slice_compare key (Bytewise_FindShortSuccessor_loop key i)
        = Slice_compare (key ! i # drop (Suc i) key) [key ! i + 1]"
      by (metis Slice_compare_append)
    with True byte_less_Suc [of "key ! i"] show ?thesis by (simp add: Slice_compare_Cons)
  next
    case False
    with 1 show ?thesis
      by (auto simp: Bytewise_FindShortSuccessor_loop.simps [of key i])
  qed
qed

lemma Slice_compare_le_trans:
  "Slice_compare a b \<le> 0 \<Longrightarrow> Slice_compare b c \<le> 0 \<Longrightarrow> Slice_compare a c \<le> 0"
  using Slice_compare_trans [of a b c] Slice_compare_lex(2) [of a b] Slice_compare_lex(2) [of b c]
  by (auto simp: le_less)

interpretation slice: comparator Slice_compare
proof unfold_locales
  fix a b c :: Slice
  show "Slice_compare a b < 0 \<longleftrightarrow> 0 < Slice_compare b a"
    using Slice_compare_swap [of a b] by linarith
  show "Slice_compare a b \<le> 0 \<Longrightarrow> Slice_compare b c \<le> 0 \<Longrightarrow> Slice_compare a c \<le> 0"
    by (rule Slice_compare_le_trans)
qed

interpretation bytewise: key_comparator BytewiseComparator
proof unfold_locales
  fix a b c :: Slice
  show "Compare BytewiseComparator a b < 0 \<longleftrightarrow> 0 < Compare BytewiseComparator b a"
    by (simp add: slice.cmp_swap)
  show "Compare BytewiseComparator a c \<le> 0"
    if "Compare BytewiseComparator a b \<le> 0" "Compare BytewiseComparator b c \<le> 0"
    using that Slice_compare_le_trans [of a b c] by simp
  show "FindShortestSeparator BytewiseComparator a b = a" if "Compare BytewiseComparator a b = 0"
    using that by (simp add: Slice_compare_lex Bytewise_separator_same)
qed (simp_all add: Bytewise_separator_ge Bytewise_separator_less Bytewise_successor_loop_ge
      Bytewise_FindShortSuccessor_def)

end
