(* ===== verification/Memenv.thy ===== *)
theory Memenv
  imports Comparator
begin

text \<open>
  Files.  The interfaces the log reader and writer rely on (\<^verbatim>\<open>SequentialFile\<close> and \<^verbatim>\<open>WritableFile\<close> of
  \<^verbatim>\<open>include/leveldb/env.h\<close>) as locales, and the in-memory implementation of them in
  \<^verbatim>\<open>helpers/memenv/memenv.cc\<close>: a file is a vector of blocks of 8 KiB and a size.  The block representation
  is shown to refine the plain byte string, for reads and for appends, whatever the indeterminate
  contents \<open>uninit\<close> of a freshly allocated block.
\<close>

subsection \<open>The interfaces\<close>

text \<open>\<open>content f\<close> is what has been written; a usable file (\<open>invar\<close>) accepts appends and flushes.\<close>

locale writable_file =
  fixes append :: "'w \<Rightarrow> bytes \<Rightarrow> Status \<times> 'w"
    and flush :: "'w \<Rightarrow> Status \<times> 'w"
    and content :: "'w \<Rightarrow> bytes"
    and invar :: "'w \<Rightarrow> bool"
  assumes append_ok: "invar f \<Longrightarrow> Status_ok (fst (append f data))"
    and append_invar: "invar f \<Longrightarrow> invar (snd (append f data))"
    and append_content: "invar f \<Longrightarrow> content (snd (append f data)) = content f @ data"
    and flush_ok: "invar f \<Longrightarrow> Status_ok (fst (flush f))"
    and flush_invar: "invar f \<Longrightarrow> invar (snd (flush f))"
    and flush_content: "invar f \<Longrightarrow> content (snd (flush f)) = content f"

text \<open>\<open>rest f\<close> is what is left to read; a read returns at most \<open>n\<close> bytes, and fewer only at the end.\<close>

locale sequential_file =
  fixes read :: "'r \<Rightarrow> nat \<Rightarrow> Status \<times> bytes \<times> 'r"
    and rest :: "'r \<Rightarrow> bytes"
    and rinvar :: "'r \<Rightarrow> bool"
  assumes read_ok: "rinvar f \<Longrightarrow> Status_ok (fst (read f n))"
    and read_result: "rinvar f \<Longrightarrow> fst (snd (read f n)) = take n (rest f)"
    and read_rest: "rinvar f \<Longrightarrow> rest (snd (snd (read f n))) = drop n (rest f)"
    and read_invar: "rinvar f \<Longrightarrow> rinvar (snd (snd (read f n)))"

subsection \<open>FileState\<close>

definition mem_kBlockSize :: nat where
  "mem_kBlockSize = 8 * 1024"

record FileState =
  fs_refs :: int
  fs_blocks :: "bytes list"
  fs_size :: nat

definition FileState_new :: FileState where
  "FileState_new = \<lparr>fs_refs = 0, fs_blocks = [], fs_size = 0\<rparr>"

definition FileState_Ref :: "FileState \<Rightarrow> FileState" where
  "FileState_Ref f = f\<lparr>fs_refs := fs_refs f + 1\<rparr>"

text \<open>\<open>None\<close>: the last reference is gone and the object is deleted.\<close>

definition FileState_Unref :: "FileState \<Rightarrow> FileState option" where
  "FileState_Unref f =
     (let f = f\<lparr>fs_refs := fs_refs f - 1\<rparr> in if fs_refs f \<le> 0 then None else Some f)"

lemma mem_kBlockSize_pos [simp]: "0 < mem_kBlockSize"
  by (simp add: mem_kBlockSize_def)

function FileState_Read_copy :: "bytes list \<Rightarrow> nat \<Rightarrow> nat \<Rightarrow> nat \<Rightarrow> bytes" where
  "FileState_Read_copy blocks block block_offset bytes_to_copy =
     (if bytes_to_copy > 0 then
        let avail = mem_kBlockSize - block_offset;
            avail = (if avail > bytes_to_copy then bytes_to_copy else avail)
        in take avail (drop block_offset (blocks ! block))
           @ FileState_Read_copy blocks (block + 1) 0 (bytes_to_copy - avail)
      else [])"
  by pat_completeness auto
termination
  by (relation "measure (\<lambda>(_, _, off, n). 2 * n + (if off = 0 then 0 else 1))") auto

declare FileState_Read_copy.simps [simp del]

definition FileState_Read :: "FileState \<Rightarrow> nat \<Rightarrow> nat \<Rightarrow> Status \<times> Slice" where
  "FileState_Read f offset n =
     (if offset > fs_size f then (IOError (str ''Offset greater than file size.'') [], [])
      else let available = fs_size f - offset;
               n = (if n > available then available else n)
           in if n = 0 then (Status_OK, [])
              else let block = offset div mem_kBlockSize;
                       block_offset = offset mod mem_kBlockSize
                   in if n \<le> mem_kBlockSize - block_offset
                      then (Status_OK, take n (drop block_offset (fs_blocks f ! block)))
                      else (Status_OK, FileState_Read_copy (fs_blocks f) block block_offset n))"

definition overwrite :: "bytes \<Rightarrow> nat \<Rightarrow> bytes \<Rightarrow> bytes" where
  "overwrite b off data = take off b @ data @ drop (off + length data) b"

function FileState_Append_loop :: "byte \<Rightarrow> FileState \<Rightarrow> bytes \<Rightarrow> FileState" where
  "FileState_Append_loop uninit f src =
     (if length src > 0 then
        let offset = fs_size f mod mem_kBlockSize;
            blocks = (if offset \<noteq> 0 then fs_blocks f
                      else fs_blocks f @ [replicate mem_kBlockSize uninit]);
            avail = (if offset \<noteq> 0 then mem_kBlockSize - offset else mem_kBlockSize);
            avail = (if avail > length src then length src else avail);
            blocks = butlast blocks @ [overwrite (last blocks) offset (take avail src)]
        in FileState_Append_loop uninit (f\<lparr>fs_blocks := blocks, fs_size := fs_size f + avail\<rparr>) (drop avail src)
      else f)"
  by pat_completeness auto
termination
proof (relation "measure (\<lambda>(_, _, src). length src)", simp, goal_cases)
  case (1 uninit f src x xa xb xc xd)
  moreover have "fs_size f mod mem_kBlockSize < mem_kBlockSize" by simp
  ultimately show ?case by (auto split: if_splits)
qed

declare FileState_Append_loop.simps [simp del]

definition FileState_Append :: "byte \<Rightarrow> FileState \<Rightarrow> Slice \<Rightarrow> Status \<times> FileState" where
  "FileState_Append uninit f data = (Status_OK, FileState_Append_loop uninit f data)"

subsection \<open>Refinement of the byte string\<close>

definition fs_invar :: "FileState \<Rightarrow> bool" where
  "fs_invar f \<longleftrightarrow> (\<forall>b \<in> set (fs_blocks f). length b = mem_kBlockSize)
     \<and> fs_size f \<le> length (fs_blocks f) * mem_kBlockSize
     \<and> length (fs_blocks f) * mem_kBlockSize < fs_size f + mem_kBlockSize"

definition fs_content :: "FileState \<Rightarrow> bytes" where
  "fs_content f = take (fs_size f) (concat (fs_blocks f))"

lemma length_concat_blocks:
  "\<forall>b \<in> set bs. length b = B \<Longrightarrow> length (concat bs) = length bs * B"
  by (induction bs) auto

lemma drop_concat_blocks:
  "\<forall>b \<in> set bs. length b = B \<Longrightarrow> drop (k * B) (concat bs) = concat (drop k bs)"
proof (induction bs arbitrary: k)
  case (Cons b bs)
  then show ?case by (cases k) (auto simp: add.commute)
qed simp

lemma drop_concat_block_offset:
  assumes "\<forall>b \<in> set bs. length b = B" and "k < length bs" and "off \<le> B"
  shows "drop (k * B + off) (concat bs) = drop off (bs ! k) @ concat (drop (Suc k) bs)"
proof -
  have "drop (k * B + off) (concat bs) = drop off (drop (k * B) (concat bs))"
    by (simp add: add.commute)
  also have "\<dots> = drop off (concat (bs ! k # drop (Suc k) bs))"
    using assms(1,2) by (simp add: drop_concat_blocks Cons_nth_drop_Suc)
  also have "\<dots> = drop off (bs ! k) @ concat (drop (Suc k) bs)"
    using assms by (simp add: nth_mem)
  finally show ?thesis .
qed

lemma block_in_range:
  assumes "0 < (B::nat)" and "i < k * B"
  shows "i div B < k" and "i mod B < B" and "i div B * B + i mod B = i"
  using assms by (simp_all add: less_mult_imp_div_less)

lemma FileState_Read_copy_eq:
  assumes "\<forall>b \<in> set bs. length b = mem_kBlockSize" and "off < mem_kBlockSize"
    and "k * mem_kBlockSize + off + n \<le> length bs * mem_kBlockSize"
  shows "FileState_Read_copy bs k off n = take n (drop (k * mem_kBlockSize + off) (concat bs))"
  using assms
proof (induction bs k off n rule: FileState_Read_copy.induct)
  case (1 bs k off n)
  show ?case
  proof (cases "n > 0")
    case False
    then show ?thesis by (simp add: FileState_Read_copy.simps [of bs k off 0])
  next
    case True
    define avail where "avail = (if mem_kBlockSize - off > n then n else mem_kBlockSize - off)"
    have "k * mem_kBlockSize < length bs * mem_kBlockSize" using "1.prems"(3) True by linarith
    then have k: "k < length bs" by (simp only: mult_less_cancel2)
    have d: "drop (k * mem_kBlockSize + off) (concat bs) = drop off (bs ! k) @ concat (drop (Suc k) bs)"
      using "1.prems" k by (intro drop_concat_block_offset) auto
    have l: "length (drop off (bs ! k)) = mem_kBlockSize - off" using "1.prems"(1) k by simp
    have "FileState_Read_copy bs (k + 1) 0 (n - avail)
        = take (n - avail) (drop ((k + 1) * mem_kBlockSize + 0) (concat bs))"
    proof (rule "1.IH" [OF True refl])
      show "avail = (if n < mem_kBlockSize - off then n else mem_kBlockSize - off)" by (simp add: avail_def)
      show "(k + 1) * mem_kBlockSize + 0 + (n - avail) \<le> length bs * mem_kBlockSize"
        using "1.prems" True k by (cases "n < mem_kBlockSize - off")
          (auto simp: avail_def Suc_le_eq [symmetric] intro: mult_le_mono1 [of "Suc k", simplified])
    qed (use "1.prems" in simp_all)
    also have "drop ((k + 1) * mem_kBlockSize + 0) (concat bs) = concat (drop (Suc k) bs)"
      using "1.prems"(1) drop_concat_blocks [of bs mem_kBlockSize "Suc k"] by simp
    finally show ?thesis
      using True l unfolding d
      by (simp add: FileState_Read_copy.simps [of bs k off n] avail_def Let_def)
  qed
qed

lemma FileState_Read_eq:
  assumes "fs_invar f" and "offset \<le> fs_size f"
  shows "FileState_Read f offset n = (Status_OK, take n (drop offset (fs_content f)))"
proof -
  let ?B = mem_kBlockSize
  define m where "m = (if n > fs_size f - offset then fs_size f - offset else n)"
  have bl: "\<forall>b \<in> set (fs_blocks f). length b = ?B" using assms(1) by (simp add: fs_invar_def)
  have sz: "fs_size f \<le> length (fs_blocks f) * ?B" using assms(1) by (simp add: fs_invar_def)
  have c: "take n (drop offset (fs_content f)) = take m (drop offset (concat (fs_blocks f)))"
    using assms(2) by (auto simp: fs_content_def m_def take_drop min_def add.commute)
  show ?thesis
  proof (cases "m = 0")
    case True
    then show ?thesis using assms(2) c by (simp add: FileState_Read_def m_def [symmetric])
  next
    case False
    then have "offset < length (fs_blocks f) * ?B" and m: "offset + m \<le> length (fs_blocks f) * ?B"
      using sz assms(2) by (auto simp: m_def split: if_splits)
    note r = block_in_range [OF mem_kBlockSize_pos this(1)]
    let ?k = "offset div ?B" and ?o = "offset mod ?B"
    have d: "drop offset (concat (fs_blocks f)) = drop ?o (fs_blocks f ! ?k) @ concat (drop (Suc ?k) (fs_blocks f))"
      using drop_concat_block_offset [OF bl r(1), of ?o] r by simp
    have "FileState_Read_copy (fs_blocks f) ?k ?o m = take m (drop offset (concat (fs_blocks f)))"
      using FileState_Read_copy_eq [OF bl, of ?o ?k m] r m by simp
    moreover have "length (drop ?o (fs_blocks f ! ?k)) = ?B - ?o" using bl r by simp
    ultimately show ?thesis
      using False assms(2) c by (simp add: FileState_Read_def m_def [symmetric] Let_def d)
  qed
qed

lemma block_count:
  fixes B :: nat
  assumes "o' < B" and "q * B + o' \<le> l * B" and "l * B < q * B + o' + B"
  shows "l = (if o' \<noteq> 0 then Suc q else q)"
proof -
  have "q * B \<le> l * B" using assms(2) by linarith
  then have "q \<le> l" using assms(1) by (simp only: mult_le_cancel2)
  moreover have "l * B < (q + 2) * B" using assms(1,3) by (simp add: algebra_simps)
  then have "l < q + 2" by (simp only: mult_less_cancel2)
  ultimately consider "l = q" | "l = Suc q" by linarith
  then show ?thesis using assms by cases auto
qed

lemma FileState_Append_step:
  assumes "fs_invar f" and "src \<noteq> []"
  obtains g n where "0 < n" and "n \<le> length src" and "fs_invar g"
    and "fs_content g = fs_content f @ take n src" and "fs_refs g = fs_refs f"
    and "FileState_Append_loop u f src = FileState_Append_loop u g (drop n src)"
proof -
  let ?B = mem_kBlockSize
  let ?o = "fs_size f mod ?B" and ?q = "fs_size f div ?B"
  define bs where "bs = (if ?o \<noteq> 0 then fs_blocks f else fs_blocks f @ [replicate ?B u])"
  define n where "n = (if ?B - ?o > length src then length src else ?B - ?o)"
  define g where "g = f\<lparr>fs_blocks := butlast bs @ [overwrite (last bs) ?o (take n src)],
    fs_size := fs_size f + n\<rparr>"
  have o: "?o < ?B" by simp
  have n: "0 < n" "n \<le> length src" "?o + n \<le> ?B" using assms(2) o by (auto simp: n_def)
  have bl: "\<forall>b \<in> set (fs_blocks f). length b = ?B"
    using assms(1) by (simp add: fs_invar_def)
  have q: "?q * ?B + ?o = fs_size f" by simp
  have nb: "length (fs_blocks f) = (if ?o \<noteq> 0 then Suc ?q else ?q)"
    using assms(1) unfolding fs_invar_def by (intro block_count [OF o]) (simp_all only: q)
  have bs: "bs \<noteq> []" "length bs = Suc ?q" "\<forall>b \<in> set bs. length b = ?B"
    using nb bl by (auto simp: bs_def)
  then have pre: "length (concat (butlast bs)) = ?q * ?B" "length (last bs) = ?B"
    using length_concat_blocks [of "butlast bs" ?B] by (auto dest: in_set_butlastD)
  have cont: "fs_content f = concat (butlast bs) @ take ?o (last bs)"
  proof (cases "?o = 0")
    case True
    then have "bs = fs_blocks f @ [replicate ?B u]" by (simp add: bs_def)
    with True pre q show ?thesis by (simp add: fs_content_def)
  next
    case False
    then have b: "bs = fs_blocks f" by (simp add: bs_def)
    have "concat bs = concat (butlast bs) @ last bs"
      using bs(1) by (metis append_butlast_last_id concat_append concat.simps append_Nil2)
    then have "fs_content f = take (length (concat (butlast bs)) + ?o) (concat (butlast bs) @ last bs)"
      by (simp only: fs_content_def b [symmetric] pre q)
    then show ?thesis by simp
  qed
  have "fs_content g = fs_content f @ take n src"
  proof -
    have "concat (fs_blocks g) = (concat (butlast bs) @ take ?o (last bs)) @ take n src
        @ drop (?o + n) (last bs)"
      using n by (simp add: g_def overwrite_def min_def)
    moreover have "fs_size g = length (concat (butlast bs) @ take ?o (last bs)) + length (take n src)"
      using pre n o q by (simp add: g_def)
    ultimately show ?thesis unfolding cont fs_content_def [of g]
      by (simp only: take_append_exact)
  qed
  moreover have "fs_invar g"
  proof -
    have "length (fs_blocks g) = Suc ?q" using bs by (simp add: g_def)
    moreover have "fs_size g \<le> Suc ?q * ?B" "Suc ?q * ?B < fs_size g + ?B"
    proof -
      have "fs_size g = fs_size f + n" by (simp add: g_def)
      with q n show "fs_size g \<le> Suc ?q * ?B" "Suc ?q * ?B < fs_size g + ?B"
        unfolding mult_Suc by linarith+
    qed
    moreover have "\<forall>b \<in> set (fs_blocks g). length b = ?B"
      using bs pre n by (auto simp: g_def overwrite_def dest: in_set_butlastD)
    ultimately show ?thesis unfolding fs_invar_def by (simp only:)
  qed
  moreover have "FileState_Append_loop u f src = FileState_Append_loop u g (drop n src)"
    using assms(2)
    by (simp add: FileState_Append_loop.simps [of u f src] g_def bs_def n_def Let_def)
  ultimately show thesis using n by (intro that [of n g]) (simp_all add: g_def)
qed

lemma FileState_Append_loop_eq:
  assumes "fs_invar f"
  shows "fs_invar (FileState_Append_loop u f src) \<and>
    fs_content (FileState_Append_loop u f src) = fs_content f @ src \<and>
    fs_refs (FileState_Append_loop u f src) = fs_refs f"
  using assms
proof (induction src arbitrary: f rule: length_induct)
  case (1 src)
  show ?case
  proof (cases "src = []")
    case True
    with 1 show ?thesis by (simp add: FileState_Append_loop.simps [of u f "[]"])
  next
    case False
    obtain g n where g: "0 < n" "n \<le> length src" "fs_invar g"
      "fs_content g = fs_content f @ take n src" "fs_refs g = fs_refs f"
      "FileState_Append_loop u f src = FileState_Append_loop u g (drop n src)"
      using FileState_Append_step [OF "1.prems" False, of u] by metis
    moreover have "length (drop n src) < length src" using g False by simp
    ultimately show ?thesis using 1 by simp
  qed
qed

lemma FileState_new_content: "fs_invar FileState_new" "fs_content FileState_new = []"
  by (simp_all add: FileState_new_def fs_invar_def fs_content_def)

lemma length_fs_content: "fs_invar f \<Longrightarrow> length (fs_content f) = fs_size f"
  using length_concat_blocks [of "fs_blocks f" mem_kBlockSize]
  by (simp add: fs_content_def fs_invar_def)

definition WritableFile_Flush :: "FileState \<Rightarrow> Status \<times> FileState" where
  "WritableFile_Flush f = (Status_OK, f)"

interpretation mem_writable: writable_file "FileState_Append u" WritableFile_Flush fs_content fs_invar for u
  by unfold_locales (auto simp: FileState_Append_def FileState_Append_loop_eq WritableFile_Flush_def)

subsection \<open>File objects\<close>

text \<open>A sequential file is a file and a position in it.\<close>

record SequentialFileImpl =
  sf_file :: FileState
  sf_pos :: nat

definition SequentialFile_Read :: "SequentialFileImpl \<Rightarrow> nat \<Rightarrow> Status \<times> Slice \<times> SequentialFileImpl" where
  "SequentialFile_Read self n =
     (let (s, result) = FileState_Read (sf_file self) (sf_pos self) n
      in if Status_ok s then (s, result, self\<lparr>sf_pos := sf_pos self + length result\<rparr>)
         else (s, result, self))"

definition SequentialFile_Skip :: "SequentialFileImpl \<Rightarrow> nat \<Rightarrow> Status \<times> SequentialFileImpl" where
  "SequentialFile_Skip self n =
     (if sf_pos self > fs_size (sf_file self) then (IOError (str ''pos_ > file_->Size()'') [], self)
      else let available = fs_size (sf_file self) - sf_pos self;
               n = (if n > available then available else n)
           in (Status_OK, self\<lparr>sf_pos := sf_pos self + n\<rparr>))"

definition sf_invar :: "SequentialFileImpl \<Rightarrow> bool" where
  "sf_invar r \<longleftrightarrow> fs_invar (sf_file r) \<and> sf_pos r \<le> fs_size (sf_file r)"

definition sf_rest :: "SequentialFileImpl \<Rightarrow> bytes" where
  "sf_rest r = drop (sf_pos r) (fs_content (sf_file r))"

interpretation mem_sequential: sequential_file SequentialFile_Read sf_rest sf_invar
proof unfold_locales
  fix f n assume f: "sf_invar f"
  have r: "SequentialFile_Read f n =
      (Status_OK, take n (sf_rest f), f\<lparr>sf_pos := sf_pos f + min n (fs_size (sf_file f) - sf_pos f)\<rparr>)"
    using f FileState_Read_eq [of "sf_file f" "sf_pos f" n]
    by (simp add: SequentialFile_Read_def sf_invar_def sf_rest_def length_fs_content min.commute)
  show "Status_ok (fst (SequentialFile_Read f n))"
    and "fst (snd (SequentialFile_Read f n)) = take n (sf_rest f)"
    and "sf_invar (snd (snd (SequentialFile_Read f n)))"
    using f by (auto simp: r sf_invar_def)
  show "sf_rest (snd (snd (SequentialFile_Read f n))) = drop n (sf_rest f)"
    using f by (auto simp: r sf_invar_def sf_rest_def min_def add.commute length_fs_content)
qed

subsection \<open>InMemoryEnv\<close>

text \<open>
  The file system: a sorted map from names to addresses of \<^verbatim>\<open>FileState\<close> objects, and the heap of these
  objects.  An open file object holds one reference; closing it is \<open>env_unref\<close>.
\<close>

record InMemoryEnv =
  env_map :: "(bytes \<times> nat) list"
  env_heap :: "nat \<Rightarrow> FileState option"
  env_next :: nat

definition env_ref :: "nat \<Rightarrow> InMemoryEnv \<Rightarrow> InMemoryEnv" where
  "env_ref a env = env\<lparr>env_heap := (env_heap env)(a := map_option FileState_Ref (env_heap env a))\<rparr>"

definition env_unref :: "nat \<Rightarrow> InMemoryEnv \<Rightarrow> InMemoryEnv" where
  "env_unref a env = env\<lparr>env_heap := (env_heap env)(a := Option.bind (env_heap env a) FileState_Unref)\<rparr>"

fun fm_set :: "bytes \<Rightarrow> nat \<Rightarrow> (bytes \<times> nat) list \<Rightarrow> (bytes \<times> nat) list" where
  "fm_set k a [] = [(k, a)]"
| "fm_set k a ((k', a') # m) =
     (if k = k' then (k, a) # m
      else if Slice_compare k k' < 0 then (k, a) # (k', a') # m
      else (k', a') # fm_set k a m)"

definition fm_erase :: "bytes \<Rightarrow> (bytes \<times> nat) list \<Rightarrow> (bytes \<times> nat) list" where
  "fm_erase k m = filter (\<lambda>e. fst e \<noteq> k) m"

definition NewSequentialFile :: "InMemoryEnv \<Rightarrow> bytes \<Rightarrow> Status \<times> nat option \<times> InMemoryEnv" where
  "NewSequentialFile env fname =
     (case map_of (env_map env) fname of
        None \<Rightarrow> (IOError fname (str ''File not found''), None, env)
      | Some a \<Rightarrow> (Status_OK, Some a, env_ref a env))"

definition NewRandomAccessFile :: "InMemoryEnv \<Rightarrow> bytes \<Rightarrow> Status \<times> nat option \<times> InMemoryEnv" where
  "NewRandomAccessFile env fname =
     (case map_of (env_map env) fname of
        None \<Rightarrow> (IOError fname (str ''File not found''), None, env)
      | Some a \<Rightarrow> (Status_OK, Some a, env_ref a env))"

definition DeleteFileInternal :: "InMemoryEnv \<Rightarrow> bytes \<Rightarrow> InMemoryEnv" where
  "DeleteFileInternal env fname =
     (case map_of (env_map env) fname of
        None \<Rightarrow> env
      | Some a \<Rightarrow> (env_unref a env)\<lparr>env_map := fm_erase fname (env_map env)\<rparr>)"

definition NewWritableFile :: "InMemoryEnv \<Rightarrow> bytes \<Rightarrow> Status \<times> nat \<times> InMemoryEnv" where
  "NewWritableFile env fname =
     (let env = (if map_of (env_map env) fname \<noteq> None then DeleteFileInternal env fname else env);
          a = env_next env;
          env = env\<lparr>env_heap := (env_heap env)(a \<mapsto> FileState_Ref FileState_new),
                    env_map := fm_set fname a (env_map env), env_next := a + 1\<rparr>
      in (Status_OK, a, env_ref a env))"

definition FileExists :: "InMemoryEnv \<Rightarrow> bytes \<Rightarrow> bool" where
  "FileExists env fname \<longleftrightarrow> map_of (env_map env) fname \<noteq> None"

definition GetChildren :: "InMemoryEnv \<Rightarrow> bytes \<Rightarrow> Status \<times> bytes list" where
  "GetChildren env dir =
     (Status_OK,
      map (\<lambda>(filename, _). drop (length dir + 1) filename)
        (filter (\<lambda>(filename, _). length filename \<ge> length dir + 1 \<and> filename ! length dir = 47
                  \<and> Slice_starts_with filename dir) (env_map env)))"

definition env_DeleteFile :: "InMemoryEnv \<Rightarrow> bytes \<Rightarrow> Status \<times> InMemoryEnv" where
  "env_DeleteFile env fname =
     (if map_of (env_map env) fname = None then (IOError fname (str ''File not found''), env)
      else (Status_OK, DeleteFileInternal env fname))"

definition GetFileSize :: "InMemoryEnv \<Rightarrow> bytes \<Rightarrow> Status \<times> nat option" where
  "GetFileSize env fname =
     (case map_of (env_map env) fname of
        None \<Rightarrow> (IOError fname (str ''File not found''), None)
      | Some a \<Rightarrow> (Status_OK, map_option fs_size (env_heap env a)))"

text \<open>
  After \<^verbatim>\<open>DeleteFileInternal(target)\<close> the lookup of \<open>src\<close> fails only if \<open>src = target\<close>; the null entry that
  \<^verbatim>\<open>operator[]\<close> then inserts is erased again by the last statement.
\<close>

definition RenameFile :: "InMemoryEnv \<Rightarrow> bytes \<Rightarrow> bytes \<Rightarrow> Status \<times> InMemoryEnv" where
  "RenameFile env src target =
     (if map_of (env_map env) src = None then (IOError src (str ''File not found''), env)
      else let env = DeleteFileInternal env target;
               m = (case map_of (env_map env) src of
                      None \<Rightarrow> env_map env
                    | Some a \<Rightarrow> fm_set target a (env_map env))
           in (Status_OK, env\<lparr>env_map := fm_erase src m\<rparr>))"

lemma map_of_fm_set [simp]: "map_of (fm_set k a m) x = (if x = k then Some a else map_of m x)"
  by (induction m) (auto split: if_splits)

lemma map_of_fm_erase [simp]: "map_of (fm_erase k m) x = (if x = k then None else map_of m x)"
  by (induction m) (auto simp: fm_erase_def)

text \<open>
  The reference counts: every object on the heap is referenced by the names that map to it and by the
  open file objects \<open>hs\<close>, its count is their number, and an object with no reference is gone.
\<close>

definition fm_sorted :: "(bytes \<times> nat) list \<Rightarrow> bool" where
  "fm_sorted m \<longleftrightarrow> sorted_wrt (\<lambda>x y. Slice_compare x y < 0) (map fst m)"

definition env_refs :: "InMemoryEnv \<Rightarrow> nat list \<Rightarrow> nat \<Rightarrow> nat" where
  "env_refs env hs a = count_list (map snd (env_map env)) a + count_list hs a"

definition env_invar :: "InMemoryEnv \<Rightarrow> nat list \<Rightarrow> bool" where
  "env_invar env hs \<longleftrightarrow> fm_sorted (env_map env) \<and>
     (\<forall>a. case env_heap env a of
            None \<Rightarrow> env_refs env hs a = 0
          | Some f \<Rightarrow> fs_refs f = int (env_refs env hs a) \<and> 0 < env_refs env hs a) \<and>
     (\<forall>a \<ge> env_next env. env_heap env a = None)"

lemma env_invar_heap:
  assumes "env_invar env hs"
  shows "env_heap env a = None \<longleftrightarrow> env_refs env hs a = 0"
    and "env_heap env a = Some f \<Longrightarrow> fs_refs f = int (env_refs env hs a)"
  using assms unfolding env_invar_def by (metis (mono_tags, lifting) option.case_eq_if
      less_not_refl2 not_None_eq option.sel option.simps(5))+

lemma env_invarI:
  assumes "fm_sorted (env_map env)"
    and "\<And>a. env_heap env a = None \<longleftrightarrow> env_refs env hs a = 0"
    and "\<And>a f. env_heap env a = Some f \<Longrightarrow> fs_refs f = int (env_refs env hs a)"
    and "\<And>a. env_next env \<le> a \<Longrightarrow> env_heap env a = None"
  shows "env_invar env hs"
  unfolding env_invar_def using assms(1,3,4) assms(2) by (auto split: option.split) (metis neq0_conv option.distinct(1))

lemma fm_sorted_distinct: "fm_sorted m \<Longrightarrow> distinct (map fst m)"
  unfolding fm_sorted_def by (induction m) auto

lemma fm_erase_absent: "map_of m k = None \<Longrightarrow> fm_erase k m = m"
  by (induction m) (auto simp: fm_erase_def split: if_splits)

lemma count_fm_erase:
  "distinct (map fst m) \<Longrightarrow>
   count_list (map snd m) x = count_list (map snd (fm_erase k m)) x + (if map_of m k = Some x then 1 else 0)"
proof (induction m)
  case (Cons e m)
  show ?case
  proof (cases "fst e = k")
    case True
    moreover have "map_of m k = None" using Cons.prems True by (auto simp: map_of_eq_None_iff)
    ultimately show ?thesis using fm_erase_absent [of m k] by (cases e) (auto simp: fm_erase_def)
  next
    case False
    with Cons show ?thesis by (cases e) (auto simp: fm_erase_def)
  qed
qed (simp add: fm_erase_def)

lemma count_fm_set:
  "map_of m k = None \<Longrightarrow> count_list (map snd (fm_set k a m)) x = count_list (map snd m) x + (if a = x then 1 else 0)"
  by (induction m) (auto split: if_splits)

lemma fst_fm_set: "fst ` set (fm_set k a m) = insert k (fst ` set m)"
  unfolding dom_map_of_conv_image_fst [symmetric] by (auto simp: dom_def split: if_splits)

lemma fm_sorted_set: "fm_sorted m \<Longrightarrow> fm_sorted (fm_set k a m)"
proof (induction m)
  case (Cons e m)
  obtain k' a' where e: "e = (k', a')" by fastforce
  have "Slice_compare k' k < 0" if "k \<noteq> k'" "\<not> Slice_compare k k' < 0"
    using that Slice_compare_lex(2) [of k k'] slice.cmp_swap [of k' k] by linarith
  with Cons slice.cmp_less_trans [of k k'] show ?case
    by (auto simp: e fm_sorted_def fst_fm_set)
qed (simp add: fm_sorted_def)

lemma fm_sorted_erase: "fm_sorted m \<Longrightarrow> fm_sorted (fm_erase k m)"
  unfolding fm_sorted_def by (induction m) (auto simp: fm_erase_def)

lemma env_ref_invar:
  assumes "env_invar env hs" and "env_heap env a \<noteq> None"
  shows "env_invar (env_ref a env) (a # hs)"
proof (rule env_invarI)
  note H = env_invar_heap [OF assms(1)]
  show "fm_sorted (env_map (env_ref a env))"
    using assms(1) by (simp add: env_ref_def env_invar_def)
  fix x
  show "env_heap (env_ref a env) x = None \<longleftrightarrow> env_refs (env_ref a env) (a # hs) x = 0"
    using assms(2) H(1) [of x] by (auto simp: env_ref_def env_refs_def)
  show "fs_refs f = int (env_refs (env_ref a env) (a # hs) x)"
    if "env_heap (env_ref a env) x = Some f" for f
    using that H(2) [of x] by (auto simp: env_ref_def env_refs_def FileState_Ref_def split: if_splits)
  show "env_heap (env_ref a env) x = None" if "env_next (env_ref a env) \<le> x"
    using that assms(1) by (auto simp: env_ref_def env_invar_def)
qed

lemma env_unref_invar:
  fixes a m' env
  defines "env' \<equiv> (env_unref a env)\<lparr>env_map := m'\<rparr>"
  assumes "env_invar env hs" and "fm_sorted m'"
    and "\<And>x. env_refs env hs x = env_refs env' hs' x + (if x = a then 1 else 0)"
  shows "env_invar env' hs'"
proof (rule env_invarI)
  note H = env_invar_heap [OF assms(2)] and eq = env'_def and cnt = assms(4)
  show "fm_sorted (env_map env')" using assms(3) by (simp add: eq)
  fix x
  have heap: "env_heap env' x = (if x = a then Option.bind (env_heap env a) FileState_Unref else env_heap env x)"
    by (simp add: eq env_unref_def)
  show "env_heap env' x = None \<longleftrightarrow> env_refs env' hs' x = 0"
  proof (cases "x = a")
    case True
    then obtain f where "env_heap env a = Some f" using H(1) [of a] cnt [of a] by fastforce
    with H(2) [of a f] cnt [of a] show ?thesis
      unfolding True heap [unfolded True] by (simp add: FileState_Unref_def Let_def)
  next
    case False
    then show ?thesis using H(1) [of x] cnt [of x] by (simp add: heap)
  qed
  show "fs_refs f = int (env_refs env' hs' x)" if "env_heap env' x = Some f" for f
  proof (cases "x = a")
    case True
    with that obtain g where "env_heap env a = Some g" "FileState_Unref g = Some f"
      by (auto simp: heap [unfolded True] bind_eq_Some_conv)
    then show ?thesis using True H(2) [of a g] cnt [of a]
      by (auto simp: FileState_Unref_def Let_def split: if_splits)
  next
    case False
    then show ?thesis using that H(2) [of x f] cnt [of x] by (simp add: heap)
  qed
  show "env_heap env' x = None" if "env_next env' \<le> x"
    using that assms(2) by (auto simp: heap env_invar_def eq env_unref_def)
qed

lemma DeleteFileInternal_invar:
  assumes "env_invar env hs"
  shows "env_invar (DeleteFileInternal env fname) hs"
proof (cases "map_of (env_map env) fname")
  case None
  with assms show ?thesis by (simp add: DeleteFileInternal_def)
next
  case (Some a)
  let ?env = "(env_unref a env)\<lparr>env_map := fm_erase fname (env_map env)\<rparr>"
  have s: "fm_sorted (env_map env)" using assms by (simp add: env_invar_def)
  have "env_invar ?env hs"
    using count_fm_erase [OF fm_sorted_distinct [OF s], of _ fname] Some
    by (intro env_unref_invar [OF assms]) (auto simp: env_refs_def fm_sorted_erase s)
  with Some show ?thesis by (simp add: DeleteFileInternal_def)
qed

lemma DeleteFileInternal_map:
  "map_of (env_map (DeleteFileInternal env fname)) = (map_of (env_map env))(fname := None)"
  by (auto simp: DeleteFileInternal_def split: option.split)

lemma NewWritableFile_invar:
  assumes "env_invar env hs" and "NewWritableFile env fname = (s, a, env')"
  shows "env_invar env' (a # hs)" and "map_of (env_map env') = (map_of (env_map env))(fname \<mapsto> a)"
proof -
  define e1 where "e1 = (if map_of (env_map env) fname \<noteq> None then DeleteFileInternal env fname else env)"
  define e2 where "e2 = e1\<lparr>env_heap := (env_heap e1)(env_next e1 \<mapsto> FileState_Ref FileState_new),
    env_map := fm_set fname (env_next e1) (env_map e1), env_next := env_next e1 + 1\<rparr>"
  have a: "a = env_next e1" and env': "env' = env_ref a e2"
    using assms(2) by (auto simp: NewWritableFile_def Let_def e1_def e2_def)
  have i1: "env_invar e1 hs" using assms(1) DeleteFileInternal_invar by (simp add: e1_def)
  note H = env_invar_heap [OF i1]
  have m1: "map_of (env_map e1) = (map_of (env_map env))(fname := None)"
    by (auto simp: e1_def DeleteFileInternal_map)
  then have cnt: "env_refs e2 hs x = env_refs e1 hs x + (if a = x then 1 else 0)" for x
    using count_fm_set [of "env_map e1" fname] by (simp add: env_refs_def e2_def a)
  have fresh: "env_refs e1 hs a = 0"
    using i1 H(1) [of a] by (simp add: a env_invar_def)
  have "env_invar e2 hs"
  proof (rule env_invarI)
    show "fm_sorted (env_map e2)" using i1 fm_sorted_set by (simp add: e2_def env_invar_def)
    fix x
    show "env_heap e2 x = None \<longleftrightarrow> env_refs e2 hs x = 0"
      using H(1) [of x] cnt [of x] by (auto simp: e2_def a)
    show "fs_refs f = int (env_refs e2 hs x)" if "env_heap e2 x = Some f" for f
      using that H(2) [of x f] cnt [of x] fresh
      by (auto simp: e2_def a FileState_Ref_def FileState_new_def split: if_splits)
    show "env_heap e2 x = None" if "env_next e2 \<le> x"
      using that i1 by (auto simp: e2_def env_invar_def)
  qed
  then show "env_invar env' (a # hs)"
    unfolding env' by (rule env_ref_invar) (simp add: e2_def a)
  show "map_of (env_map env') = (map_of (env_map env))(fname \<mapsto> a)"
    using m1 by (auto simp: env' env_ref_def e2_def a fun_eq_iff)
qed

lemma NewSequentialFile_invar:
  assumes "env_invar env hs" and "NewSequentialFile env fname = (s, Some a, env')"
  shows "env_invar env' (a # hs)"
proof -
  have m: "map_of (env_map env) fname = Some a" and e: "env' = env_ref a env"
    using assms(2) by (auto simp: NewSequentialFile_def split: option.splits)
  have "a \<in> set (map snd (env_map env))" using map_of_SomeD [OF m] by force
  then have "env_refs env hs a \<noteq> 0" by (simp add: env_refs_def count_list_0_iff)
  then show ?thesis unfolding e using env_ref_invar [OF assms(1)] env_invar_heap(1) [OF assms(1)] by metis
qed

lemma env_close_invar: "env_invar env (a # hs) \<Longrightarrow> env_invar (env_unref a env) hs"
  using env_unref_invar [of env "a # hs" "env_map env" a hs]
  by (simp add: env_refs_def env_unref_def env_invar_def)

lemma RenameFile_invar:
  assumes "env_invar env hs" and "src \<noteq> target" and "RenameFile env src target = (s, env')"
  shows "env_invar env' hs"
    and "map_of (env_map env) src \<noteq> None \<Longrightarrow>
      map_of (env_map env') = (map_of (env_map env))(target := map_of (env_map env) src, src := None)"
proof -
  let ?e1 = "DeleteFileInternal env target"
  have i1: "env_invar ?e1 hs" using assms(1) by (rule DeleteFileInternal_invar)
  have m1: "map_of (env_map ?e1) = (map_of (env_map env))(target := None)"
    by (rule DeleteFileInternal_map)
  show "env_invar env' hs"
  proof (cases "map_of (env_map env) src")
    case None
    then show ?thesis using assms by (simp add: RenameFile_def)
  next
    case (Some a)
    let ?m = "fm_erase src (fm_set target a (env_map ?e1))"
    have e: "env' = ?e1\<lparr>env_map := ?m\<rparr>"
      using assms(2,3) Some m1 by (simp add: RenameFile_def Let_def)
    have sm: "fm_sorted (env_map ?e1)" using i1 by (simp add: env_invar_def)
    then have srt: "fm_sorted (fm_set target a (env_map ?e1))" by (rule fm_sorted_set)
    have cnt: "env_refs env' hs x = env_refs ?e1 hs x" for x
      using count_fm_erase [OF fm_sorted_distinct [OF srt], of x src] m1 assms(2) Some
        count_fm_set [of "env_map ?e1" target a x] by (simp add: env_refs_def e split: if_splits)
    have "env_heap env' = env_heap ?e1" "env_next env' = env_next ?e1" "env_map env' = ?m"
      by (simp_all add: e)
    then show ?thesis
      using i1 fm_sorted_erase [OF srt] unfolding env_invar_def
      by (simp add: cnt cong: option.case_cong)
  qed
  show "map_of (env_map env') = (map_of (env_map env))(target := map_of (env_map env) src, src := None)"
    if "map_of (env_map env) src \<noteq> None"
    using that assms(2,3) m1 by (auto simp: RenameFile_def Let_def fun_eq_iff)
qed

end
