(* ===== verification/Log.thy ===== *)
theory Log
  imports Crc32c Memenv
begin

text \<open>
  The write-ahead log (\<^verbatim>\<open>db/log_format.h\<close>, \<^verbatim>\<open>db/log_writer.{h,cc}\<close>, \<^verbatim>\<open>db/log_reader.{h,cc}\<close>): records cut
  into checksummed fragments that never cross a block of 32 KiB.  The writer is parametrised by the
  \<^verbatim>\<open>Append\<close> and \<^verbatim>\<open>Flush\<close> of its file, the reader by \<^verbatim>\<open>Read\<close> and \<^verbatim>\<open>Skip\<close> of its file; the reports to the
  \<^verbatim>\<open>Reporter\<close> are collected in a list.  Offsets are the 64-bit words of the code, since \<^verbatim>\<open>ReportDrop\<close> relies
  on unsigned arithmetic.
\<close>

subsection \<open>Format\<close>

datatype RecordType = kZeroType | kFullType | kFirstType | kMiddleType | kLastType

primrec RecordType_num :: "RecordType \<Rightarrow> nat" where
  "RecordType_num kZeroType = 0"
| "RecordType_num kFullType = 1"
| "RecordType_num kFirstType = 2"
| "RecordType_num kMiddleType = 3"
| "RecordType_num kLastType = 4"

definition kMaxRecordType :: nat where "kMaxRecordType = 4"
definition log_kBlockSize :: nat where "log_kBlockSize = 32768"
definition log_kHeaderSize :: nat where "log_kHeaderSize = 4 + 2 + 1"

subsection \<open>Writer\<close>

record 'w Writer =
  lw_dest :: 'w
  lw_block_offset :: nat
  lw_type_crc :: "u32 list"

definition Writer_make :: "'w \<Rightarrow> 'w Writer" where
  "Writer_make dest =
     \<lparr>lw_dest = dest, lw_block_offset = 0,
      lw_type_crc = map (\<lambda>i. Value [of_nat i]) [0..<kMaxRecordType + 1]\<rparr>"

definition EmitPhysicalRecord ::
  "('w \<Rightarrow> bytes \<Rightarrow> Status \<times> 'w) \<Rightarrow> ('w \<Rightarrow> Status \<times> 'w) \<Rightarrow> 'w Writer \<Rightarrow> RecordType \<Rightarrow> bytes
   \<Rightarrow> Status \<times> 'w Writer" where
  "EmitPhysicalRecord ap fl w t data =
     (let n = length data;
          crc = Mask (Extend (lw_type_crc w ! RecordType_num t) data);
          buf = EncodeFixed32 crc
                @ [of_nat (n mod 256), of_nat (n div 256), of_nat (RecordType_num t)];
          (s, dest) = ap (lw_dest w) buf;
          (s, dest) = (if Status_ok s then
                         let (s, dest) = ap dest data
                         in if Status_ok s then fl dest else (s, dest)
                       else (s, dest))
      in (s, w\<lparr>lw_dest := dest, lw_block_offset := lw_block_offset w + (log_kHeaderSize + n)\<rparr>))"

text \<open>The switch to a new block when the header does not fit; the status of the padding is ignored.\<close>

definition AddRecord_switch :: "('w \<Rightarrow> bytes \<Rightarrow> Status \<times> 'w) \<Rightarrow> 'w Writer \<Rightarrow> 'w Writer" where
  "AddRecord_switch ap w =
     (let leftover = log_kBlockSize - lw_block_offset w in
      if leftover < log_kHeaderSize then
        let w = (if leftover > 0 then w\<lparr>lw_dest := snd (ap (lw_dest w) (replicate leftover 0))\<rparr> else w)
        in w\<lparr>lw_block_offset := 0\<rparr>
      else w)"

lemma log_sizes [simp]: "log_kHeaderSize = 7" "log_kHeaderSize < log_kBlockSize" "7 < log_kBlockSize"
  by (simp_all add: log_kHeaderSize_def log_kBlockSize_def)

lemma AddRecord_switch_offset:
  "lw_block_offset (AddRecord_switch ap w) =
     (if log_kBlockSize - lw_block_offset w < 7 then 0 else lw_block_offset w)"
  by (simp add: AddRecord_switch_def Let_def)

lemma EmitPhysicalRecord_offset:
  "lw_block_offset (snd (EmitPhysicalRecord ap fl w t data)) = lw_block_offset w + 7 + length data"
  by (simp add: EmitPhysicalRecord_def Let_def split: prod.split)

definition AddRecord_type :: "bool \<Rightarrow> bool \<Rightarrow> RecordType" where
  "AddRecord_type begin' end' =
     (if begin' \<and> end' then kFullType else if begin' then kFirstType
      else if end' then kLastType else kMiddleType)"

function AddRecord_loop ::
  "('w \<Rightarrow> bytes \<Rightarrow> Status \<times> 'w) \<Rightarrow> ('w \<Rightarrow> Status \<times> 'w) \<Rightarrow> 'w Writer \<Rightarrow> bool \<Rightarrow> bytes
   \<Rightarrow> Status \<times> 'w Writer" where
  "AddRecord_loop ap fl w begin' ptr =
     (let w = AddRecord_switch ap w;
          avail = log_kBlockSize - lw_block_offset w - log_kHeaderSize;
          fragment_length = (if length ptr < avail then length ptr else avail);
          end' = (length ptr = fragment_length);
          (s, w) = EmitPhysicalRecord ap fl w (AddRecord_type begin' end')
                     (take fragment_length ptr);
          ptr = drop fragment_length ptr
      in if Status_ok s \<and> length ptr > 0 then AddRecord_loop ap fl w False ptr else (s, w))"
  by pat_completeness auto
termination
proof (relation "measure (\<lambda>(_, _, w, _, ptr). 2 * length ptr
    + (if log_kBlockSize - lw_block_offset w = 7 then 1 else 0))", simp, goal_cases)
  case (1 ap fl w begin' ptr w1 avail n end' x s w2 ptr')
  have off: "lw_block_offset w2 = lw_block_offset w1 + 7 + length (take n ptr)"
    using 1(5,6) EmitPhysicalRecord_offset [of ap fl w1 _ "take n ptr"] by (metis snd_conv)
  have w1: "lw_block_offset w1 = (if log_kBlockSize - lw_block_offset w < 7 then 0 else lw_block_offset w)"
    unfolding 1(1) by (rule AddRecord_switch_offset)
  have B: "7 < log_kBlockSize" by simp
  show ?case
  proof (cases "n = 0")
    case True
    then have "avail = 0" using 1 by (auto split: if_splits)
    then have "log_kBlockSize - lw_block_offset w1 - 7 = 0" using 1(2) by simp
    then have "log_kBlockSize - lw_block_offset w = 7"
      using w1 B by (auto split: if_splits simp del: log_sizes(3))
    moreover have "log_kBlockSize - lw_block_offset w2 = 0"
      using off w1 calculation by (auto split: if_splits)
    ultimately show ?thesis using 1 True by simp
  next
    case False
    then have "length ptr' < length ptr" using 1 by auto
    then show ?thesis by auto
  qed
qed

declare AddRecord_loop.simps [simp del]

definition AddRecord ::
  "('w \<Rightarrow> bytes \<Rightarrow> Status \<times> 'w) \<Rightarrow> ('w \<Rightarrow> Status \<times> 'w) \<Rightarrow> 'w Writer \<Rightarrow> Slice \<Rightarrow> Status \<times> 'w Writer" where
  "AddRecord ap fl w data = AddRecord_loop ap fl w True data"

subsection \<open>Reader\<close>

record 'r Reader =
  lr_file :: 'r
  lr_reporter :: "(nat \<times> Status) list option"
  lr_checksum :: bool
  lr_buffer :: Slice
  lr_eof :: bool
  lr_last_record_offset :: u64
  lr_end_of_buffer_offset :: u64
  lr_initial_offset :: u64

definition kEof :: nat where "kEof = kMaxRecordType + 1"
definition kBadRecord :: nat where "kBadRecord = kMaxRecordType + 2"

definition Reader_make :: "'r \<Rightarrow> bool \<Rightarrow> bool \<Rightarrow> u64 \<Rightarrow> 'r Reader" where
  "Reader_make file with_reporter checksum initial_offset =
     \<lparr>lr_file = file, lr_reporter = (if with_reporter then Some [] else None), lr_checksum = checksum,
      lr_buffer = [], lr_eof = False, lr_last_record_offset = 0, lr_end_of_buffer_offset = 0,
      lr_initial_offset = initial_offset\<rparr>"

definition ReportDrop :: "'r Reader \<Rightarrow> u64 \<Rightarrow> Status \<Rightarrow> 'r Reader" where
  "ReportDrop r bytes reason =
     (case lr_reporter r of
        None \<Rightarrow> r
      | Some reports \<Rightarrow>
          if lr_end_of_buffer_offset r - of_nat (length (lr_buffer r)) - bytes \<ge> lr_initial_offset r
          then r\<lparr>lr_reporter := Some (reports @ [(unat bytes, reason)])\<rparr> else r)"

definition ReportCorruption :: "'r Reader \<Rightarrow> u64 \<Rightarrow> bytes \<Rightarrow> 'r Reader" where
  "ReportCorruption r bytes reason = ReportDrop r bytes (Corruption reason [])"

definition SkipToInitialBlock :: "('r \<Rightarrow> nat \<Rightarrow> Status \<times> 'r) \<Rightarrow> 'r Reader \<Rightarrow> bool \<times> 'r Reader" where
  "SkipToInitialBlock skip r =
     (let offset_in_block = unat (lr_initial_offset r) mod log_kBlockSize;
          block_start_location = lr_initial_offset r - of_nat offset_in_block;
          block_start_location =
            (if offset_in_block > log_kBlockSize - 6
             then block_start_location + of_nat log_kBlockSize else block_start_location);
          r = r\<lparr>lr_end_of_buffer_offset := block_start_location\<rparr>
      in if block_start_location > 0 then
           let (skip_status, file) = skip (lr_file r) (unat block_start_location);
               r = r\<lparr>lr_file := file\<rparr>
           in if \<not> Status_ok skip_status then (False, ReportDrop r block_start_location skip_status)
              else (True, r)
         else (True, r))"

text \<open>
  The parsing half of \<^verbatim>\<open>ReadPhysicalRecord\<close>, entered with at least a header in the buffer.  The type
  is read as a signed \<^verbatim>\<open>char\<close> widened to \<^verbatim>\<open>unsigned int\<close>.
\<close>

definition ReadPhysicalRecord_parse :: "'r Reader \<Rightarrow> Slice \<Rightarrow> nat \<times> Slice \<times> 'r Reader" where
  "ReadPhysicalRecord_parse r result =
     (let header = lr_buffer r;
          a = ucast (header ! 4) AND 0xff :: u32;
          b = ucast (header ! 5) AND 0xff :: u32;
          type = unat (scast (header ! 6) :: u32);
          len = unat (a OR push_bit 8 b)
      in if log_kHeaderSize + len > length (lr_buffer r) then
           let drop_size = length (lr_buffer r); r = r\<lparr>lr_buffer := []\<rparr>
           in if \<not> lr_eof r
              then (kBadRecord, result, ReportCorruption r (of_nat drop_size) (str ''bad record length''))
              else (kEof, result, r)
         else if type = RecordType_num kZeroType \<and> len = 0 then (kBadRecord, result, r\<lparr>lr_buffer := []\<rparr>)
         else if lr_checksum r \<and>
             Value (take (1 + len) (drop 6 header)) \<noteq> Unmask (DecodeFixed32 header) then
           let drop_size = length (lr_buffer r); r = r\<lparr>lr_buffer := []\<rparr>
           in (kBadRecord, result, ReportCorruption r (of_nat drop_size) (str ''checksum mismatch''))
         else
           let r = r\<lparr>lr_buffer := drop (log_kHeaderSize + len) (lr_buffer r)\<rparr>
           in if lr_end_of_buffer_offset r - of_nat (length (lr_buffer r)) - of_nat log_kHeaderSize
                   - of_nat len < lr_initial_offset r
              then (kBadRecord, [], r)
              else (type, take len (drop log_kHeaderSize header), r))"

function ReadPhysicalRecord ::
  "('r \<Rightarrow> nat \<Rightarrow> Status \<times> Slice \<times> 'r) \<Rightarrow> 'r Reader \<Rightarrow> Slice \<Rightarrow> nat \<times> Slice \<times> 'r Reader" where
  "ReadPhysicalRecord read r result =
     (if length (lr_buffer r) < log_kHeaderSize then
        if \<not> lr_eof r then
          let (status, buffer, file) = read (lr_file r) log_kBlockSize;
              r = r\<lparr>lr_file := file, lr_buffer := buffer,
                     lr_end_of_buffer_offset := lr_end_of_buffer_offset r + of_nat (length buffer)\<rparr>
          in if \<not> Status_ok status then
               let r = ReportDrop (r\<lparr>lr_buffer := []\<rparr>) (of_nat log_kBlockSize) status
               in (kEof, result, r\<lparr>lr_eof := True\<rparr>)
             else if length buffer < log_kBlockSize
             then ReadPhysicalRecord read (r\<lparr>lr_eof := True\<rparr>) result
             else ReadPhysicalRecord read r result
        else (kEof, result, r\<lparr>lr_buffer := []\<rparr>)
      else ReadPhysicalRecord_parse r result)"
  by pat_completeness auto
termination
  by (relation "measure (\<lambda>(_, r, _). if lr_eof r \<or> 7 \<le> length (lr_buffer r) then 0 else 1)")
    (auto simp: log_kBlockSize_def)

declare ReadPhysicalRecord.simps [simp del]

text \<open>
  The loop of \<^verbatim>\<open>ReadRecord\<close>.  \<open>fuel\<close> bounds the number of physical records read by one call; \<open>None\<close> is
  running out of it.  The result is \<open>Some (Some record, r')\<close> where the code returns true and
  \<open>Some (None, r')\<close> where it returns false.
\<close>

fun ReadRecord_loop ::
  "nat \<Rightarrow> ('r \<Rightarrow> nat \<Rightarrow> Status \<times> Slice \<times> 'r) \<Rightarrow> 'r Reader \<Rightarrow> bytes \<Rightarrow> bool \<Rightarrow> u64 \<Rightarrow> Slice
   \<Rightarrow> (Slice option \<times> 'r Reader) option" where
  "ReadRecord_loop 0 read r scratch in_fragmented_record prospective_record_offset fragment = None"
| "ReadRecord_loop (Suc fuel) read r scratch in_fragmented_record prospective_record_offset fragment =
     (let physical_record_offset = lr_end_of_buffer_offset r - of_nat (length (lr_buffer r));
          (record_type, fragment, r) = ReadPhysicalRecord read r fragment
      in if record_type = RecordType_num kFullType then
           let r = (if in_fragmented_record \<and> scratch \<noteq> []
                    then ReportCorruption r (of_nat (length scratch)) (str ''partial record without end(1)'')
                    else r)
           in Some (Some fragment, r\<lparr>lr_last_record_offset := physical_record_offset\<rparr>)
         else if record_type = RecordType_num kFirstType then
           let r = (if in_fragmented_record \<and> scratch \<noteq> []
                    then ReportCorruption r (of_nat (length scratch)) (str ''partial record without end(2)'')
                    else r)
           in ReadRecord_loop fuel read r fragment True physical_record_offset fragment
         else if record_type = RecordType_num kMiddleType then
           if \<not> in_fragmented_record then
             ReadRecord_loop fuel read
               (ReportCorruption r (of_nat (length fragment)) (str ''missing start of fragmented record(1)''))
               scratch in_fragmented_record prospective_record_offset fragment
           else ReadRecord_loop fuel read r (scratch @ fragment) in_fragmented_record
                  prospective_record_offset fragment
         else if record_type = RecordType_num kLastType then
           if \<not> in_fragmented_record then
             ReadRecord_loop fuel read
               (ReportCorruption r (of_nat (length fragment)) (str ''missing start of fragmented record(2)''))
               scratch in_fragmented_record prospective_record_offset fragment
           else Some (Some (scratch @ fragment), r\<lparr>lr_last_record_offset := prospective_record_offset\<rparr>)
         else if record_type = kEof then Some (None, r)
         else if record_type = kBadRecord then
           if in_fragmented_record then
             ReadRecord_loop fuel read
               (ReportCorruption r (of_nat (length scratch)) (str ''error in middle of record''))
               [] False prospective_record_offset fragment
           else ReadRecord_loop fuel read r scratch in_fragmented_record prospective_record_offset fragment
         else
           ReadRecord_loop fuel read
             (ReportCorruption r (of_nat (length fragment + (if in_fragmented_record then length scratch else 0)))
                (str ''unknown record type '' @ decimal record_type))
             [] False prospective_record_offset fragment)"

definition ReadRecord ::
  "nat \<Rightarrow> ('r \<Rightarrow> nat \<Rightarrow> Status \<times> Slice \<times> 'r) \<Rightarrow> ('r \<Rightarrow> nat \<Rightarrow> Status \<times> 'r) \<Rightarrow> 'r Reader
   \<Rightarrow> (Slice option \<times> 'r Reader) option" where
  "ReadRecord fuel read skip r =
     (if lr_last_record_offset r < lr_initial_offset r then
        let (b, r) = SkipToInitialBlock skip r
        in if \<not> b then Some (None, r) else ReadRecord_loop fuel read r [] False 0 []
      else ReadRecord_loop fuel read r [] False 0 [])"

text \<open>The clients' loop \<^verbatim>\<open>while (reader.ReadRecord(&record, &scratch))\<close>, for at most \<open>n\<close> records.\<close>

fun ReadAll ::
  "nat \<Rightarrow> nat \<Rightarrow> ('r \<Rightarrow> nat \<Rightarrow> Status \<times> Slice \<times> 'r) \<Rightarrow> ('r \<Rightarrow> nat \<Rightarrow> Status \<times> 'r) \<Rightarrow> 'r Reader
   \<Rightarrow> (Slice list \<times> 'r Reader) option" where
  "ReadAll 0 fuel read skip r = None"
| "ReadAll (Suc n) fuel read skip r =
     (case ReadRecord fuel read skip r of
        None \<Rightarrow> None
      | Some (None, r') \<Rightarrow> Some ([], r')
      | Some (Some rec, r') \<Rightarrow>
          (case ReadAll n fuel read skip r' of None \<Rightarrow> None | Some (recs, r'') \<Rightarrow> Some (rec # recs, r'')))"

text \<open>A writer's run: one \<^verbatim>\<open>AddRecord\<close> per record, while they succeed.\<close>

fun AddRecords ::
  "('w \<Rightarrow> bytes \<Rightarrow> Status \<times> 'w) \<Rightarrow> ('w \<Rightarrow> Status \<times> 'w) \<Rightarrow> 'w Writer \<Rightarrow> Slice list \<Rightarrow> Status \<times> 'w Writer" where
  "AddRecords ap fl w [] = (Status_OK, w)"
| "AddRecords ap fl w (rec # recs) =
     (let (s, w) = AddRecord ap fl w rec in if Status_ok s then AddRecords ap fl w recs else (s, w))"

end
