(* ===== verification/Log_Correct.thy ===== *)
theory Log_Correct
  imports Log
begin

text \<open>
  Correctness of the log: what the writer appends is a sequence of physical records laid out by the
  relation \<open>log_record\<close>; a reader positioned on such a layout returns the record written and moves
  past it; cut anywhere, the log yields a prefix of the records and no corruption report.  The writer is
  treated in the locale \<open>writable_file\<close>, the reader in \<open>sequential_file\<close>.
\<close>

subsection \<open>The layout\<close>

definition phys :: "RecordType \<Rightarrow> bytes \<Rightarrow> bytes" where
  "phys t frag =
     EncodeFixed32 (Mask (Value (of_nat (RecordType_num t) # frag)))
     @ [of_nat (length frag mod 256), of_nat (length frag div 256), of_nat (RecordType_num t)] @ frag"

definition pad :: "nat \<Rightarrow> bytes" where
  "pad off = (if log_kBlockSize - off < 7 then replicate (log_kBlockSize - off) 0 else [])"

definition start :: "nat \<Rightarrow> nat" where
  "start off = (if log_kBlockSize - off < 7 then 0 else off)"

text \<open>\<open>log_record off bg data bs off'\<close>: from block offset \<open>off\<close>, \<open>data\<close> is laid out as \<open>bs\<close>, ending at \<open>off'\<close>.\<close>

inductive log_record :: "nat \<Rightarrow> bool \<Rightarrow> bytes \<Rightarrow> bytes \<Rightarrow> nat \<Rightarrow> bool" where
  last: "length data \<le> log_kBlockSize - start off - 7 \<Longrightarrow>
     log_record off bg data (pad off @ phys (AddRecord_type bg True) data) (start off + 7 + length data)"
| more: "n = log_kBlockSize - start off - 7 \<Longrightarrow> n < length data \<Longrightarrow>
     log_record (start off + 7 + n) False (drop n data) bs off' \<Longrightarrow>
     log_record off bg data (pad off @ phys (AddRecord_type bg False) (take n data) @ bs) off'"

inductive log_records :: "nat \<Rightarrow> bytes list \<Rightarrow> bytes \<Rightarrow> nat \<Rightarrow> bool" where
  nil: "log_records off [] [] off"
| cons: "log_record off True rec bs off' \<Longrightarrow> log_records off' recs bs' off'' \<Longrightarrow>
     log_records off (rec # recs) (bs @ bs') off''"

inductive_cases log_records_NilE [elim!]: "log_records off [] bs off'"
inductive_cases log_records_ConsE [elim!]: "log_records off (rec # recs) bs off'"

lemma length_phys [simp]: "length (phys t frag) = 7 + length frag"
  by (simp add: phys_def)

lemma start_bound [simp]: "start off + 7 \<le> log_kBlockSize"
  using log_sizes(3) by (auto simp: start_def simp del: log_sizes(3))

lemma log_records_append:
  "log_records off xs bs off1 \<Longrightarrow> log_records off1 ys bs' off2 \<Longrightarrow> log_records off (xs @ ys) (bs @ bs') off2"
  by (induction rule: log_records.induct) (auto intro: log_records.cons)

subsection \<open>The writer\<close>

definition writer_ok :: "'w Writer \<Rightarrow> bool" where
  "writer_ok w \<longleftrightarrow> lw_block_offset w \<le> log_kBlockSize
     \<and> lw_type_crc w = map (\<lambda>i. Value [of_nat i]) [0..<kMaxRecordType + 1]"

lemma RecordType_num_bound: "RecordType_num t < kMaxRecordType + 1"
  by (cases t) (simp_all add: kMaxRecordType_def)

lemma type_crc_extend:
  assumes "writer_ok w"
  shows "Extend (lw_type_crc w ! RecordType_num t) data = Value (of_nat (RecordType_num t) # data)"
  using assms RecordType_num_bound [of t] Value_append [of "[of_nat (RecordType_num t)]" data]
  by (simp add: writer_ok_def del: upt_Suc)

context writable_file
begin

lemma AddRecord_switch_ok:
  assumes "invar (lw_dest w)" and "writer_ok w"
  defines "w' \<equiv> AddRecord_switch append w"
  shows "invar (lw_dest w')" and "content (lw_dest w') = content (lw_dest w) @ pad (lw_block_offset w)"
    and "lw_block_offset w' = start (lw_block_offset w)" and "writer_ok w'"
  using assms(1,2) append_invar append_content
  by (auto simp: w'_def AddRecord_switch_def Let_def pad_def start_def writer_ok_def)

lemma EmitPhysicalRecord_ok:
  assumes "invar (lw_dest w)" and "writer_ok w" and "lw_block_offset w + 7 + length data \<le> log_kBlockSize"
    and "EmitPhysicalRecord append flush w t data = (s, w')"
  shows "Status_ok s" and "invar (lw_dest w')" and "content (lw_dest w') = content (lw_dest w) @ phys t data"
    and "lw_block_offset w' = lw_block_offset w + 7 + length data" and "writer_ok w'"
proof -
  let ?buf = "EncodeFixed32 (Mask (Value (of_nat (RecordType_num t) # data)))
    @ [of_nat (length data mod 256), of_nat (length data div 256), of_nat (RecordType_num t)]"
  obtain s1 d1 where 1: "append (lw_dest w) ?buf = (s1, d1)" by fastforce
  obtain s2 d2 where 2: "append d1 data = (s2, d2)" by fastforce
  obtain s3 d3 where 3: "flush d2 = (s3, d3)" by fastforce
  have a: "Status_ok s1" "invar d1" "content d1 = content (lw_dest w) @ ?buf"
    using append_ok [OF assms(1), of ?buf] append_invar [OF assms(1), of ?buf]
      append_content [OF assms(1), of ?buf] by (simp_all add: 1)
  have b: "Status_ok s2" "invar d2" "content d2 = content d1 @ data"
    using append_ok [OF a(2), of data] append_invar [OF a(2), of data] append_content [OF a(2), of data]
    by (simp_all add: 2)
  have c: "Status_ok s3" "invar d3" "content d3 = content d2"
    using flush_ok [OF b(2)] flush_invar [OF b(2)] flush_content [OF b(2)] by (simp_all add: 3)
  have e: "(s, w') = (s3, w\<lparr>lw_dest := d3, lw_block_offset := lw_block_offset w + (7 + length data)\<rparr>)"
    using assms(4) unfolding EmitPhysicalRecord_def type_crc_extend [OF assms(2)]
    by (simp add: Let_def 1 2 3 a b del: of_nat_Suc)
  show "Status_ok s" "invar (lw_dest w')" "content (lw_dest w') = content (lw_dest w) @ phys t data"
    "lw_block_offset w' = lw_block_offset w + 7 + length data" "writer_ok w'"
    using e a b c assms(2,3) by (auto simp: phys_def writer_ok_def)
qed

lemma AddRecord_loop_ok:
  assumes "invar (lw_dest w)" and "writer_ok w"
  shows "\<exists>s w' bs. AddRecord_loop append flush w bg data = (s, w') \<and> Status_ok s \<and> invar (lw_dest w')
    \<and> writer_ok w' \<and> content (lw_dest w') = content (lw_dest w) @ bs
    \<and> log_record (lw_block_offset w) bg data bs (lw_block_offset w')"
  using assms
proof (induction "2 * length data + (if log_kBlockSize - lw_block_offset w = 7 then 1 else (0::nat))"
    arbitrary: w bg data rule: less_induct)
  case less
  define w1 where "w1 = AddRecord_switch append w"
  note sw = AddRecord_switch_ok [OF less.prems, folded w1_def]
  let ?off = "start (lw_block_offset w)"
  define avail n where "avail = log_kBlockSize - ?off - 7" and "n = min (length data) avail"
  have room: "?off + 7 + n \<le> log_kBlockSize"
    using start_bound [of "lw_block_offset w"] unfolding n_def avail_def by linarith
  obtain s w2 where em: "EmitPhysicalRecord append flush w1 (AddRecord_type bg (length data = n)) (take n data) = (s, w2)"
    by fastforce
  have tk: "length (take n data) = n" by (simp add: n_def)
  note E = EmitPhysicalRecord_ok [OF sw(1) sw(4) _ em, unfolded tk sw(3), OF room]
  have unfold: "AddRecord_loop append flush w bg data =
      (if length data > n then AddRecord_loop append flush w2 False (drop n data) else (s, w2))"
  proof -
    have n: "(if length data < avail then length data else avail) = n" by (simp add: n_def)
    have a: "log_kBlockSize - lw_block_offset w1 - log_kHeaderSize = avail" by (simp add: avail_def sw(3))
    show ?thesis
      using E(1) unfolding AddRecord_loop.simps [of append flush w bg data] Let_def w1_def [symmetric] a n em
      by simp
  qed
  show ?case
  proof (cases "length data > n")
    case False
    then have n: "n = length data" by (simp add: n_def)
    then have "log_record (lw_block_offset w) bg data
        (pad (lw_block_offset w) @ phys (AddRecord_type bg True) data) (?off + 7 + length data)"
      by (intro log_record.last) (simp add: n_def avail_def)
    with False n E sw show ?thesis by (simp add: unfold)
  next
    case True
    then have n: "n = avail" by (simp add: n_def)
    have "2 * length (drop n data) + (if log_kBlockSize - lw_block_offset w2 = 7 then 1 else 0)
      < 2 * length data + (if log_kBlockSize - lw_block_offset w = 7 then 1 else (0::nat))"
    proof (cases "n = 0")
      case z: True
      then have "log_kBlockSize - lw_block_offset w = 7"
        using n log_sizes(3) by (auto simp: avail_def start_def split: if_splits simp del: log_sizes(3))
      moreover have "log_kBlockSize - lw_block_offset w2 = 0"
        using E(4) z n start_bound [of "lw_block_offset w"] by (simp add: avail_def)
      ultimately show ?thesis using z by simp
    qed (use True in auto)
    from less.hyps [OF this E(2) E(5), of False] obtain s' w' bs where
      r: "AddRecord_loop append flush w2 False (drop n data) = (s', w')" "Status_ok s'"
        "invar (lw_dest w')" "writer_ok w'" "content (lw_dest w') = content (lw_dest w2) @ bs"
        "log_record (lw_block_offset w2) False (drop n data) bs (lw_block_offset w')" by blast
    have "log_record (lw_block_offset w) bg data
        (pad (lw_block_offset w) @ phys (AddRecord_type bg False) (take n data) @ bs) (lw_block_offset w')"
      using r(6) True n E(4) by (intro log_record.more) (simp_all add: avail_def)
    moreover have "(length data = n) = False" using True by simp
    ultimately show ?thesis using r True E(3) sw(2) by (simp add: unfold)
  qed
qed

lemma AddRecords_ok:
  assumes "invar (lw_dest w)" and "writer_ok w"
  shows "\<exists>s w' bs. AddRecords append flush w recs = (s, w') \<and> Status_ok s \<and> invar (lw_dest w')
    \<and> writer_ok w' \<and> content (lw_dest w') = content (lw_dest w) @ bs
    \<and> log_records (lw_block_offset w) recs bs (lw_block_offset w')"
  using assms
proof (induction recs arbitrary: w)
  case Nil
  then show ?case by (auto intro: log_records.nil)
next
  case (Cons rec recs)
  obtain s w1 bs where 1: "AddRecord_loop append flush w True rec = (s, w1)" "Status_ok s"
    "invar (lw_dest w1)" "writer_ok w1" "content (lw_dest w1) = content (lw_dest w) @ bs"
    "log_record (lw_block_offset w) True rec bs (lw_block_offset w1)"
    using AddRecord_loop_ok [OF Cons.prems, of True rec] by blast
  obtain s' w' bs' where 2: "AddRecords append flush w1 recs = (s', w')" "Status_ok s'"
    "invar (lw_dest w')" "writer_ok w'" "content (lw_dest w') = content (lw_dest w1) @ bs'"
    "log_records (lw_block_offset w1) recs bs' (lw_block_offset w')"
    using Cons.IH [OF 1(3,4)] by blast
  have "log_records (lw_block_offset w) (rec # recs) (bs @ bs') (lw_block_offset w')"
    using 1(6) 2(6) by (rule log_records.cons)
  with 1 2 show ?case by (simp add: AddRecord_def)
qed

end

subsection \<open>The reader\<close>

lemma unat_two_bytes:
  "unat ((ucast (x :: byte) AND 0xff :: u32) OR push_bit 8 (ucast (y :: byte) AND 0xff)) = unat x + 256 * unat y"
proof -
  have m: "(ucast z AND 0xff :: u32) = ucast z" for z :: byte
  proof (rule bit_word_eqI)
    fix n assume "n < LENGTH(32)"
    have "(0xff :: u32) = mask 8" by (simp add: mask_eq_exp_minus_1)
    then show "bit (ucast z AND 0xff :: u32) n = bit (ucast z :: u32) n"
      using bit_imp_le_length [of z n] by (simp only: bit_simps) auto
  qed
  have b: "unat x < 256" "unat y < 256"
    using unsigned_less [of x, where 'a = nat] unsigned_less [of y, where 'a = nat] by simp_all
  have "unat (ucast x OR push_bit 8 (ucast y) :: u32) = unat x OR push_bit 8 (unat y)"
  proof -
    have "unat (push_bit 8 (ucast y) :: u32) = push_bit 8 (unat y)"
      unfolding unsigned_push_bit_eq unsigned_ucast_eq
      using b by (simp add: take_bit_nat_eq_self push_bit_eq_mult)
    then show ?thesis
      using b by (simp add: unsigned_or_eq unsigned_ucast_eq take_bit_nat_eq_self del: push_bit_numeral)
  qed
  also have "\<dots> = unat x + push_bit 8 (unat y)"
    by (rule disjunctive_add [symmetric]) (auto simp: bit_simps dest: bit_imp_le_length)
  finally show ?thesis unfolding m by (simp add: push_bit_eq_mult)
qed

lemma phys_header:
  assumes "length frag < 65536"
  shows "unat ((ucast (phys t frag ! 4) AND 0xff :: u32) OR push_bit 8 (ucast (phys t frag ! 5) AND 0xff)) = length frag"
    and "unat (scast (phys t frag ! 6) :: u32) = RecordType_num t"
    and "Unmask (DecodeFixed32 (phys t frag @ tail)) = Value (of_nat (RecordType_num t) # frag)"
proof -
  let ?n = "length frag"
  have hdr: "phys t frag ! 4 = of_nat (?n mod 256)" "phys t frag ! 5 = of_nat (?n div 256)"
    "phys t frag ! 6 = of_nat (RecordType_num t)"
    by (simp_all add: phys_def nth_append)
  have "?n div 256 < 256" using assms by auto
  then show "unat ((ucast (phys t frag ! 4) AND 0xff :: u32) OR push_bit 8 (ucast (phys t frag ! 5) AND 0xff)) = length frag"
    unfolding unat_two_bytes hdr by (simp add: unat_of_nat)
  show "unat (scast (phys t frag ! 6) :: u32) = RecordType_num t"
    unfolding hdr by (cases t) simp_all
  show "Unmask (DecodeFixed32 (phys t frag @ tail)) = Value (of_nat (RecordType_num t) # frag)"
    by (simp add: phys_def)
qed

lemma parse_complete:
  assumes "lr_buffer r = phys t frag @ tail" and "length frag < 65536" and "lr_initial_offset r = 0"
    and "t \<noteq> kZeroType"
  shows "ReadPhysicalRecord_parse r res = (RecordType_num t, frag, r\<lparr>lr_buffer := tail\<rparr>)"
proof -
  have nth: "(phys t frag @ tail) ! i = phys t frag ! i" if "i < 7" for i
    using that by (simp add: nth_append)
  have "drop 6 (phys t frag @ tail) = of_nat (RecordType_num t) # frag @ tail"
    by (simp add: phys_def)
  moreover have "drop 7 (phys t frag @ tail) = frag @ tail"
    by (simp add: phys_def)
  moreover have "RecordType_num t \<noteq> 0" using assms(4) by (cases t) auto
  ultimately show ?thesis
    using assms(3)
    by (simp add: ReadPhysicalRecord_parse_def Let_def assms(1) nth phys_header [OF assms(2)] del: push_bit_and)
qed

lemma parse_truncated:
  assumes "lr_buffer r = take k (phys t frag)" and "7 \<le> k" and "k < 7 + length frag"
    and "length frag < 65536" and "lr_eof r"
  shows "ReadPhysicalRecord_parse r res = (kEof, res, r\<lparr>lr_buffer := []\<rparr>)"
  using assms by (simp add: ReadPhysicalRecord_parse_def Let_def phys_header [OF assms(4)] del: push_bit_and)

lemma ReadPhysicalRecord_full:
  "7 \<le> length (lr_buffer r) \<Longrightarrow> ReadPhysicalRecord read r res = ReadPhysicalRecord_parse r res"
  by (subst ReadPhysicalRecord.simps) simp

text \<open>
  \<open>reader_at rest rinvar off rem r\<close>: the reader stands at offset \<open>off\<close> of a block with the bytes \<open>rem\<close> of the
  log ahead of it, the rest of the block in its buffer and what follows still in the file.
\<close>

definition reader_at :: "('r \<Rightarrow> bytes) \<Rightarrow> ('r \<Rightarrow> bool) \<Rightarrow> nat \<Rightarrow> bytes \<Rightarrow> 'r Reader \<Rightarrow> bool" where
  "reader_at rest rinvar off rem r \<longleftrightarrow> rinvar (lr_file r) \<and> off \<le> log_kBlockSize
     \<and> lr_buffer r = take (log_kBlockSize - off) rem \<and> rest (lr_file r) = drop (log_kBlockSize - off) rem
     \<and> (lr_eof r \<longleftrightarrow> length rem < log_kBlockSize - off) \<and> lr_initial_offset r = 0"

lemma reader_at_make:
  "rinvar f \<Longrightarrow> reader_at rest rinvar log_kBlockSize (rest f) (Reader_make f rep ck 0)"
  by (simp add: reader_at_def Reader_make_def)

context sequential_file
begin

lemma read_next_block:
  assumes "reader_at rest rinvar off rem r" and "log_kBlockSize - off < 7" and "log_kBlockSize - off \<le> length rem"
  obtains r' where "reader_at rest rinvar 0 (drop (log_kBlockSize - off) rem) r'"
    and "ReadPhysicalRecord read r res = ReadPhysicalRecord read r' res"
    and "lr_reporter r' = lr_reporter r"
proof -
  let ?rem = "drop (log_kBlockSize - off) rem"
  have R: "rinvar (lr_file r)" "rest (lr_file r) = ?rem" "\<not> lr_eof r" "length (lr_buffer r) < 7" "lr_initial_offset r = 0"
    using assms by (auto simp: reader_at_def)
  obtain s b f where rd: "read (lr_file r) log_kBlockSize = (s, b, f)" by (cases "read (lr_file r) log_kBlockSize") auto
  have f: "Status_ok s" "b = take log_kBlockSize ?rem" "rest f = drop log_kBlockSize ?rem" "rinvar f"
    using read_ok [OF R(1), of log_kBlockSize] read_result [OF R(1), of log_kBlockSize]
      read_rest [OF R(1), of log_kBlockSize] read_invar [OF R(1), of log_kBlockSize] by (simp_all add: rd R(2))
  let ?r = "r\<lparr>lr_file := f, lr_buffer := b,
      lr_end_of_buffer_offset := lr_end_of_buffer_offset r + of_nat (length b), lr_eof := length b < log_kBlockSize\<rparr>"
  have "ReadPhysicalRecord read r res = ReadPhysicalRecord read ?r res"
  proof -
    have e: "r' = r'\<lparr>lr_eof := False\<rparr>" if "\<not> lr_eof r'" for r' :: "'a Reader"
      using that by simp
    show ?thesis
      using R f(1) by (subst ReadPhysicalRecord.simps) (auto simp: rd Let_def intro!: arg_cong [where f = "\<lambda>r. ReadPhysicalRecord read r res"] e)
  qed
  moreover have "reader_at rest rinvar 0 ?rem ?r"
    using R f by (auto simp: reader_at_def)
  ultimately show thesis by (intro that [of ?r]) simp_all
qed

lemma read_aligned:
  assumes "reader_at rest rinvar off (pad off @ rem) r"
  obtains r' where "reader_at rest rinvar (start off) rem r'"
    and "ReadPhysicalRecord read r res = ReadPhysicalRecord read r' res" and "lr_reporter r' = lr_reporter r"
proof (cases "log_kBlockSize - off < 7")
  case True
  then show thesis using read_next_block [OF assms True, of res] that by (auto simp: pad_def start_def)
next
  case False
  then show thesis using assms that [of r] by (simp add: pad_def start_def)
qed

lemma read_complete:
  assumes "reader_at rest rinvar off (pad off @ phys t frag @ tail) r"
    and "length frag \<le> log_kBlockSize - start off - 7" and "t \<noteq> kZeroType"
  obtains r' where "ReadPhysicalRecord read r res = (RecordType_num t, frag, r')"
    and "reader_at rest rinvar (start off + 7 + length frag) tail r'" and "lr_reporter r' = lr_reporter r"
proof -
  obtain r1 where r1: "reader_at rest rinvar (start off) (phys t frag @ tail) r1"
    "ReadPhysicalRecord read r res = ReadPhysicalRecord read r1 res" "lr_reporter r1 = lr_reporter r"
    using read_aligned [OF assms(1)] .
  obtain m where m: "log_kBlockSize - start off = 7 + length frag + m"
    "log_kBlockSize - (start off + 7 + length frag) = m"
    by (rule that [of "log_kBlockSize - (start off + 7 + length frag)"])
      (use assms(2) start_bound [of off] in linarith)+
  have buf: "lr_buffer r1 = phys t frag @ take m tail"
    and rest: "rest (lr_file r1) = drop m tail" and eof: "lr_eof r1 \<longleftrightarrow> length tail < m"
    using r1(1) unfolding reader_at_def m(1) by (simp_all del: diff_diff_left)
  have len: "length frag < 65536" using assms(2) by (simp add: log_kBlockSize_def)
  have "ReadPhysicalRecord read r1 res = (RecordType_num t, frag, r1\<lparr>lr_buffer := take m tail\<rparr>)"
  proof -
    have "lr_initial_offset r1 = 0" using r1(1) by (simp add: reader_at_def)
    from parse_complete [OF buf len this assms(3)] show ?thesis
      by (simp add: ReadPhysicalRecord_full buf)
  qed
  moreover have "reader_at rest rinvar (start off + 7 + length frag) tail (r1\<lparr>lr_buffer := take m tail\<rparr>)"
    using r1(1) rest eof m start_bound [of off] assms(2) unfolding reader_at_def m(2) by simp
  ultimately show thesis using r1 by (intro that [of "r1\<lparr>lr_buffer := take m tail\<rparr>"]) simp_all
qed

lemma read_truncated:
  assumes "reader_at rest rinvar off (take k (pad off @ phys t frag)) r"
    and "length frag \<le> log_kBlockSize - start off - 7" and "k < length (pad off) + 7 + length frag"
  obtains r' where "ReadPhysicalRecord read r res = (kEof, res, r')" and "lr_reporter r' = lr_reporter r"
proof (cases "k < length (pad off)")
  case True
  then have "length (pad off) = log_kBlockSize - off" "log_kBlockSize - off < 7"
    by (auto simp: pad_def split: if_splits)
  with True assms(1) have "lr_eof r" "length (lr_buffer r) < 7" by (auto simp: reader_at_def)
  then show thesis by (intro that [of "r\<lparr>lr_buffer := []\<rparr>"]) (subst ReadPhysicalRecord.simps, simp_all)
next
  case False
  let ?k = "k - length (pad off)"
  have "take k (pad off @ phys t frag) = pad off @ take ?k (phys t frag)"
    using False by simp
  then obtain r1 where r1: "reader_at rest rinvar (start off) (take ?k (phys t frag)) r1"
    "ReadPhysicalRecord read r res = ReadPhysicalRecord read r1 res" "lr_reporter r1 = lr_reporter r"
    using assms(1) read_aligned by metis
  have k: "?k < 7 + length frag" using assms(3) False by linarith
  have "?k < log_kBlockSize - start off" using k assms(2) start_bound [of off] by linarith
  then have buf: "lr_buffer r1 = take ?k (phys t frag)" and eof: "lr_eof r1"
    using r1(1) k by (simp_all add: reader_at_def min_def)
  have len: "length frag < 65536" using assms(2) by (simp add: log_kBlockSize_def)
  have "ReadPhysicalRecord read r1 res = (kEof, res, r1\<lparr>lr_buffer := []\<rparr>)"
  proof (cases "?k < 7")
    case True
    then show ?thesis using eof buf by (subst ReadPhysicalRecord.simps) simp
  next
    case False
    then have "7 \<le> ?k" by linarith
    then show ?thesis using parse_truncated [OF buf _ k len eof] by (simp add: ReadPhysicalRecord_full buf)
  qed
  with r1 show thesis by (intro that [of "r1\<lparr>lr_buffer := []\<rparr>"]) simp_all
qed

lemma read_end:
  assumes "reader_at rest rinvar off [] r"
  obtains r' where "ReadPhysicalRecord read r res = (kEof, res, r')" and "lr_reporter r' = lr_reporter r"
  using read_truncated [of off 0 kFullType "[]" r res] assms by auto

lemma RecordType_cases [simp]:
  "RecordType_num (AddRecord_type True True) = 1" "RecordType_num (AddRecord_type True False) = 2"
  "RecordType_num (AddRecord_type False True) = 4" "RecordType_num (AddRecord_type False False) = 3"
  "AddRecord_type b e \<noteq> kZeroType"
  by (auto simp: AddRecord_type_def)

lemma ReadRecord_loop_complete:
  assumes "log_record off bg data bs off'" and "reader_at rest rinvar off (bs @ tail) r" and "length bs < fuel"
  shows "\<exists>r'. ReadRecord_loop fuel read r scratch (\<not> bg) pro frag = Some (Some ((if bg then [] else scratch) @ data), r')
     \<and> reader_at rest rinvar off' tail r' \<and> lr_reporter r' = lr_reporter r"
  using assms
proof (induction arbitrary: r scratch pro frag fuel rule: log_record.induct)
  case (last data off bg)
  obtain r1 where r1: "ReadPhysicalRecord read r frag = (RecordType_num (AddRecord_type bg True), data, r1)"
    "reader_at rest rinvar (start off + 7 + length data) tail r1" "lr_reporter r1 = lr_reporter r"
    using read_complete [of off "AddRecord_type bg True" data tail r frag] last by auto
  obtain f where "fuel = Suc f" using last.prems by (cases fuel) auto
  with r1 show ?case
    by (cases bg) (simp_all add: Let_def reader_at_def)
next
  case (more n off data bs off' bg)
  have n: "length (take n data) = n" "start off + 7 + n = log_kBlockSize"
    using more.hyps start_bound [of off] by auto
  obtain r1 where r1: "ReadPhysicalRecord read r frag = (RecordType_num (AddRecord_type bg False), take n data, r1)"
    "reader_at rest rinvar (start off + 7 + n) (bs @ tail) r1" "lr_reporter r1 = lr_reporter r"
    using read_complete [of off "AddRecord_type bg False" "take n data" "bs @ tail" r frag] more n by auto
  obtain f where f: "fuel = Suc f" "length bs < f" using more.prems by (cases fuel) auto
  from more.IH [OF r1(2) f(2), of "if bg then take n data else scratch @ take n data"
      "if bg then lr_end_of_buffer_offset r - of_nat (length (lr_buffer r)) else pro" "take n data"] r1(1,3) f(1)
  show ?case by (cases bg) (auto simp: Let_def)
qed

lemma ReadRecord_loop_truncated:
  assumes "log_record off bg data bs off'" and "reader_at rest rinvar off (take k bs) r" and "k < length bs" and "k < fuel"
  shows "\<exists>r'. ReadRecord_loop fuel read r scratch (\<not> bg) pro frag = Some (None, r') \<and> lr_reporter r' = lr_reporter r"
  using assms
proof (induction arbitrary: r scratch pro frag fuel k rule: log_record.induct)
  case (last data off bg)
  obtain r1 where r1: "ReadPhysicalRecord read r frag = (kEof, frag, r1)" "lr_reporter r1 = lr_reporter r"
    using read_truncated [of off k "AddRecord_type bg True" data r frag] last by auto
  obtain f where "fuel = Suc f" using last.prems by (cases fuel) auto
  with r1 show ?case by (simp add: kEof_def kMaxRecordType_def)
next
  case (more n off data bs off' bg)
  let ?t = "AddRecord_type bg False" and ?l = "length (pad off) + 7 + n"
  have n: "length (take n data) = n" using more.hyps by auto
  obtain f where f: "fuel = Suc f" using more.prems by (cases fuel) auto
  show ?case
  proof (cases "k < ?l")
    case True
    then have "take k (pad off @ phys ?t (take n data) @ bs) = take k (pad off @ phys ?t (take n data))"
      using n by simp
    then obtain r1 where "ReadPhysicalRecord read r frag = (kEof, frag, r1)" "lr_reporter r1 = lr_reporter r"
      using read_truncated [of off k ?t "take n data" r frag] more n True by auto
    with f show ?thesis by (simp add: kEof_def kMaxRecordType_def)
  next
    case False
    then have "take k (pad off @ phys ?t (take n data) @ bs) = pad off @ phys ?t (take n data) @ take (k - ?l) bs"
      using n by (simp add: add.assoc)
    then obtain r1 where r1: "ReadPhysicalRecord read r frag = (RecordType_num ?t, take n data, r1)"
      "reader_at rest rinvar (start off + 7 + n) (take (k - ?l) bs) r1" "lr_reporter r1 = lr_reporter r"
      using read_complete [of off ?t "take n data" "take (k - ?l) bs" r frag] more n by auto
    have "k - ?l < length bs" "k - ?l < f" using False more.prems n f by auto
    from more.IH [OF r1(2) this, of "if bg then take n data else scratch @ take n data"
      "if bg then lr_end_of_buffer_offset r - of_nat (length (lr_buffer r)) else pro" "take n data"] r1(1,3) f
    show ?thesis by (cases bg) (auto simp: Let_def)
  qed
qed

lemma ReadRecord_start [simp]:
  "reader_at rest rinvar off rem r \<Longrightarrow> ReadRecord fuel read skip r = ReadRecord_loop fuel read r [] False 0 []"
  by (simp add: ReadRecord_def reader_at_def)

lemma ReadAll_records:
  assumes "log_records off recs bs off'" and "reader_at rest rinvar off (bs @ tail) r" and "length bs < fuel"
  shows "\<exists>r'. ReadAll (length recs + n) fuel read skip r
      = map_option (\<lambda>(recs', r''). (recs @ recs', r'')) (ReadAll n fuel read skip r')
    \<and> reader_at rest rinvar off' tail r' \<and> lr_reporter r' = lr_reporter r"
  using assms
proof (induction arbitrary: r rule: log_records.induct)
  case (nil off)
  then show ?case by (auto simp: option.map_id0 [unfolded id_def] split: option.splits)
next
  case (cons off rec bs off' recs bs' off'')
  have r: "reader_at rest rinvar off (bs @ bs' @ tail) r" "length bs < fuel" using cons.prems by auto
  obtain r1 where r1: "ReadRecord_loop fuel read r [] False 0 [] = Some (Some rec, r1)"
    "reader_at rest rinvar off' (bs' @ tail) r1" "lr_reporter r1 = lr_reporter r"
    using ReadRecord_loop_complete [OF cons.hyps(1) r, of "[]" 0 "[]"] by auto
  obtain r2 where r2: "ReadAll (length recs + n) fuel read skip r1
      = map_option (\<lambda>(recs', r''). (recs @ recs', r'')) (ReadAll n fuel read skip r2)"
    "reader_at rest rinvar off'' tail r2" "lr_reporter r2 = lr_reporter r1"
    using cons.IH [OF r1(2)] cons.prems by auto
  from r1 r2 r(1) show ?case
    by (intro exI [of _ r2]) (auto split: option.splits)
qed

lemma ReadAll_truncated:
  assumes "log_records off recs bs off'" and "reader_at rest rinvar off (take k bs) r" and "length bs < fuel"
    and "length recs < n"
  shows "\<exists>j r'. ReadAll n fuel read skip r = Some (take j recs, r') \<and> lr_reporter r' = lr_reporter r
     \<and> (length bs \<le> k \<longrightarrow> length recs \<le> j)"
  using assms
proof (induction arbitrary: r k n rule: log_records.induct)
  case (nil off)
  obtain r1 where r1: "ReadPhysicalRecord read r [] = (kEof, [], r1)" "lr_reporter r1 = lr_reporter r"
    using read_end [of off r "[]"] nil by auto
  obtain f m where "fuel = Suc f" "n = Suc m" using nil by (cases fuel; cases n) auto
  with r1 nil show ?case by (simp add: kEof_def kMaxRecordType_def)
next
  case (cons off rec bs off' recs bs' off'')
  obtain m where m: "n = Suc m" "length recs < m" using cons.prems by (cases n) auto
  show ?case
  proof (cases "k < length bs")
    case True
    then have "reader_at rest rinvar off (take k bs) r" "k < fuel" using cons.prems by auto
    with ReadRecord_loop_truncated [OF cons.hyps(1) this(1) True this(2), of "[]" 0 "[]"] True m
    show ?thesis by (intro exI [of _ 0]) auto
  next
    case False
    let ?k = "k - length bs"
    have r: "reader_at rest rinvar off (bs @ take ?k bs') r" "length bs < fuel"
      using cons.prems False by auto
    obtain r1 where r1: "ReadRecord_loop fuel read r [] False 0 [] = Some (Some rec, r1)"
      "reader_at rest rinvar off' (take ?k bs') r1" "lr_reporter r1 = lr_reporter r"
      using ReadRecord_loop_complete [OF cons.hyps(1) r, of "[]" 0 "[]"] by auto
    obtain j r2 where r2: "ReadAll m fuel read skip r1 = Some (take j recs, r2)"
      "lr_reporter r2 = lr_reporter r1" "length bs' \<le> ?k \<longrightarrow> length recs \<le> j"
      using cons.IH [OF r1(2) _ m(2)] cons.prems(2) by auto
    from r1 r2 r(1) m show ?thesis
      by (intro exI [of _ "Suc j"] exI [of _ r2]) (auto split: option.splits)
  qed
qed

end

subsection \<open>The log over in-memory files\<close>

lemma log_record_block_end: "log_record 0 bg data bs off' \<Longrightarrow> log_record log_kBlockSize bg data bs off'"
proof (erule log_record.cases, goal_cases)
  have e: "start log_kBlockSize = start 0" "pad log_kBlockSize = pad 0"
    using log_sizes(3) by (simp_all add: start_def pad_def del: log_sizes(3))
  case (1 data off bg)
  then show ?case using log_record.last [of data log_kBlockSize bg] by (simp add: e)
next
  have e: "start log_kBlockSize = start 0" "pad log_kBlockSize = pad 0"
    using log_sizes(3) by (simp_all add: start_def pad_def del: log_sizes(3))
  case (2 n off data bs off' bg)
  then show ?case using log_record.more [of n log_kBlockSize data bs off' bg] by (simp add: e)
qed

lemma log_records_block_end:
  assumes "log_records 0 xs bs1 off1" and "log_records off1 ys bs2 off2"
  obtains off1' off2' where "log_records log_kBlockSize xs bs1 off1'" and "log_records off1' ys bs2 off2'"
proof -
  have B: "\<exists>off''. log_records log_kBlockSize recs bs off''" if "log_records 0 recs bs off'" for recs bs off'
    using that by (rule log_records.cases) (auto intro: log_records.intros log_record_block_end)
  show thesis
  proof (cases xs)
    case Nil
    then have "bs1 = []" "off1 = 0" using assms(1) by auto
    with Nil assms(2) B that show thesis by (blast intro: log_records.nil)
  next
    case (Cons x xs')
    with assms that show thesis by (auto intro: log_records.cons log_record_block_end)
  qed
qed

lemma Writer_make_ok: "writer_ok (Writer_make d)"
  by (simp add: writer_ok_def Writer_make_def)

lemma log_written:
  assumes "AddRecords (FileState_Append u) WritableFile_Flush (Writer_make FileState_new) xs = (s1, w1)"
    and "AddRecords (FileState_Append u) WritableFile_Flush w1 ys = (s2, w2)"
  obtains bs1 bs2 off1 off2 where "Status_ok s1" "Status_ok s2" "fs_invar (lw_dest w1)" "fs_invar (lw_dest w2)"
    "fs_content (lw_dest w1) = bs1" "fs_content (lw_dest w2) = bs1 @ bs2"
    "log_records 0 xs bs1 off1" "log_records off1 ys bs2 off2"
proof -
  let ?w = "Writer_make FileState_new"
  have new: "fs_invar (lw_dest ?w)" "fs_content (lw_dest ?w) = []" "lw_block_offset ?w = 0"
    by (simp_all add: Writer_make_def FileState_new_content)
  from mem_writable.AddRecords_ok [OF new(1) Writer_make_ok, of u xs] assms(1) obtain bs1 where
    1: "Status_ok s1" "fs_invar (lw_dest w1)" "writer_ok w1" "fs_content (lw_dest w1) = bs1"
      "log_records 0 xs bs1 (lw_block_offset w1)" by (auto simp: new)
  from mem_writable.AddRecords_ok [OF 1(2,3), of u ys] assms(2) 1 that show thesis by auto
qed

text \<open>
  C16.  Crash recovery of the log.  Records \<open>xs\<close> and then \<open>ys\<close> are added to a fresh in-memory log file; the
  file is then cut at any length \<open>k\<close> not below what it held after \<open>xs\<close>.  Reading the cut file to its end
  terminates, returns all of \<open>xs\<close> followed by the first records of \<open>ys\<close> (all of them when nothing was cut
  off), and reports no corruption, with or without checksum verification.
\<close>

theorem log_crash_recovery:
  assumes "AddRecords (FileState_Append u) WritableFile_Flush (Writer_make FileState_new) xs = (s1, w1)"
    and "AddRecords (FileState_Append u) WritableFile_Flush w1 ys = (s2, w2)"
    and "fs_invar f" and "fs_content f = take k (fs_content (lw_dest w2))" and "fs_size (lw_dest w1) \<le> k"
    and "fs_size (lw_dest w2) < fuel" and "length xs + length ys < n"
  shows "\<exists>j r. ReadAll n fuel SequentialFile_Read SequentialFile_Skip
        (Reader_make \<lparr>sf_file = f, sf_pos = 0\<rparr> True checksum 0) = Some (xs @ take j ys, r)
      \<and> lr_reporter r = Some [] \<and> (fs_size (lw_dest w2) \<le> k \<longrightarrow> take j ys = ys)"
proof -
  obtain bs1 bs2 off1 off2 where w: "fs_invar (lw_dest w1)" "fs_invar (lw_dest w2)"
    "fs_content (lw_dest w1) = bs1" "fs_content (lw_dest w2) = bs1 @ bs2"
    "log_records 0 xs bs1 off1" "log_records off1 ys bs2 off2"
    using log_written [OF assms(1,2)] .
  have size: "fs_size (lw_dest w1) = length bs1" "fs_size (lw_dest w2) = length bs1 + length bs2"
    using w(1-4) length_fs_content by fastforce+
  let ?f = "\<lparr>sf_file = f, sf_pos = 0\<rparr>"
  let ?r = "Reader_make ?f True checksum 0"
  have "reader_at sf_rest sf_invar log_kBlockSize (sf_rest ?f) ?r"
    using assms(3) by (intro reader_at_make) (simp add: sf_invar_def)
  then have r: "reader_at sf_rest sf_invar log_kBlockSize (take k (bs1 @ bs2)) ?r"
    using assms(4) w(4) by (simp add: sf_rest_def)
  obtain o1 o2 where b: "log_records log_kBlockSize xs bs1 o1" "log_records o1 ys bs2 o2"
    using log_records_block_end [OF w(5,6)] .
  let ?tl = "take (k - length bs1) bs2" and ?m = "n - length xs"
  have "reader_at sf_rest sf_invar log_kBlockSize (bs1 @ ?tl) ?r" using r assms(5) size by simp
  from mem_sequential.ReadAll_records [OF b(1) this, of fuel ?m SequentialFile_Skip] assms(6) size
  obtain r1 where r1: "ReadAll (length xs + ?m) fuel SequentialFile_Read SequentialFile_Skip ?r =
        map_option (\<lambda>(recs', r''). (xs @ recs', r'')) (ReadAll ?m fuel SequentialFile_Read SequentialFile_Skip r1)"
      "reader_at sf_rest sf_invar o1 ?tl r1" "lr_reporter r1 = lr_reporter ?r" by auto
  obtain j r2 where r2: "ReadAll ?m fuel SequentialFile_Read SequentialFile_Skip r1 = Some (take j ys, r2)"
    "lr_reporter r2 = lr_reporter r1" "length bs2 \<le> k - length bs1 \<longrightarrow> length ys \<le> j"
  proof -
    have "length bs2 < fuel" "length ys < ?m" using assms(6,7) size by linarith+
    from mem_sequential.ReadAll_truncated [OF b(2) r1(2) this, of SequentialFile_Skip] that show thesis by blast
  qed
  have "length xs + ?m = n" using assms(7) by simp
  then have "ReadAll n fuel SequentialFile_Read SequentialFile_Skip ?r = Some (xs @ take j ys, r2)"
    using r1(1) r2(1) by simp
  moreover have "lr_reporter r2 = Some []" using r1(3) r2(2) by (simp add: Reader_make_def)
  ultimately show ?thesis using r2(3) size assms(5) by auto
qed

lemma log_crash_recovery_witness:
  "\<exists>j r. ReadAll 3 (Suc (fs_size (lw_dest (snd (AddRecords (FileState_Append 0) WritableFile_Flush
          (snd (AddRecords (FileState_Append 0) WritableFile_Flush (Writer_make FileState_new) [[1, 2, 3]])) [[4]])))))
        SequentialFile_Read SequentialFile_Skip
        (Reader_make \<lparr>sf_file = lw_dest (snd (AddRecords (FileState_Append 0) WritableFile_Flush
             (Writer_make FileState_new) [[1, 2, 3]])), sf_pos = 0\<rparr> True True 0) = Some ([[1, 2, 3]] @ take j [[4]], r)
      \<and> lr_reporter r = Some []"
proof -
  obtain s1 w1 where 1: "AddRecords (FileState_Append 0) WritableFile_Flush (Writer_make FileState_new) [[1, 2, 3]] = (s1, w1)"
    by fastforce
  obtain s2 w2 where 2: "AddRecords (FileState_Append 0) WritableFile_Flush w1 [[4]] = (s2, w2)"
    by fastforce
  obtain bs1 bs2 where w: "fs_invar (lw_dest w1)" "fs_content (lw_dest w1) = bs1" "fs_content (lw_dest w2) = bs1 @ bs2"
    using log_written [OF 1 2] by metis
  have "fs_content (lw_dest w1) = take (fs_size (lw_dest w1)) (fs_content (lw_dest w2))"
    using w length_fs_content [OF w(1)] by simp
  from log_crash_recovery [OF 1 2 w(1) this, of "Suc (fs_size (lw_dest w2))" 3 True]
  show ?thesis unfolding 1 2 snd_conv by auto
qed

end
