(* ===== verification/SkipList.thy ===== *)
theory SkipList
  imports Comparator
begin

text \<open>
  The skip list of \<^verbatim>\<open>db/skiplist.h\<close> and the generator of \<^verbatim>\<open>util/random.h\<close> it draws heights from.  Nodes
  live in the arena and are never freed: a node is named by its index in the list of nodes allocated so
  far, the head being node 0, and a null link is \<open>None\<close>.  The key of the head (\<^verbatim>\<open>any key will do\<close>) is \<open>None\<close>, and
  so is an entry of \<^verbatim>\<open>prev\<close> that was not written yet.  The three searches loop on the links, so they are
  partial functions; on well-formed lists they are shown to return.
\<close>

subsection \<open>Random\<close>

definition Random_make :: "u32 \<Rightarrow> u32" where
  "Random_make s =
     (let seed = s AND 0x7fffffff in if seed = 0 \<or> seed = 2147483647 then 1 else seed)"

definition Random_Next :: "u32 \<Rightarrow> u32" where
  "Random_Next seed =
     (let M = 2147483647 :: u32;
          product = ucast seed * 16807 :: u64;
          seed = ucast (drop_bit 31 product + (product AND ucast M)) :: u32
      in if seed > M then seed - M else seed)"

definition Random_Uniform :: "u32 \<Rightarrow> u32 \<Rightarrow> u32 \<times> u32" where
  "Random_Uniform seed n = (let v = Random_Next seed in (v mod n, v))"

definition Random_OneIn :: "u32 \<Rightarrow> u32 \<Rightarrow> bool \<times> u32" where
  "Random_OneIn seed n = (let v = Random_Next seed in (v mod n = 0, v))"

definition Random_Skewed :: "u32 \<Rightarrow> nat \<Rightarrow> u32 \<times> u32" where
  "Random_Skewed seed max_log =
     (let (b, seed) = Random_Uniform seed (of_nat (max_log + 1)) in Random_Uniform seed (push_bit (unat b) 1))"

subsection \<open>The data structure\<close>

definition kMaxHeight :: nat where "kMaxHeight = 12"

record 'k Node =
  nd_key :: "'k option"
  nd_next :: "nat option list"

record 'k SkipList =
  sl_nodes :: "'k Node list"
  sl_max_height :: nat
  sl_rnd :: u32

definition Node_Next :: "'k SkipList \<Rightarrow> nat \<Rightarrow> nat \<Rightarrow> nat option" where
  "Node_Next sl x n = nd_next (sl_nodes sl ! x) ! n"

definition Node_SetNext :: "'k SkipList \<Rightarrow> nat \<Rightarrow> nat \<Rightarrow> nat option \<Rightarrow> 'k SkipList" where
  "Node_SetNext sl x n y =
     sl\<lparr>sl_nodes := (sl_nodes sl)[x := (sl_nodes sl ! x)\<lparr>nd_next := (nd_next (sl_nodes sl ! x))[n := y]\<rparr>]\<rparr>"

definition node_key :: "'k SkipList \<Rightarrow> nat \<Rightarrow> 'k" where
  "node_key sl x = the (nd_key (sl_nodes sl ! x))"

text \<open>The links of a new node are uninitialised memory; they are all written before the node is published.\<close>

definition NewNode :: "'k SkipList \<Rightarrow> 'k option \<Rightarrow> nat \<Rightarrow> nat \<times> 'k SkipList" where
  "NewNode sl key height =
     (length (sl_nodes sl), sl\<lparr>sl_nodes := sl_nodes sl @ [\<lparr>nd_key = key, nd_next = replicate height None\<rparr>]\<rparr>)"

definition SkipList_make :: "'k SkipList" where
  "SkipList_make =
     (let sl = snd (NewNode \<lparr>sl_nodes = [], sl_max_height = 1, sl_rnd = Random_make 0xdeadbeef\<rparr> None kMaxHeight)
      in foldl (\<lambda>sl i. Node_SetNext sl 0 i None) sl [0..<kMaxHeight])"

function RandomHeight_loop :: "u32 \<Rightarrow> nat \<Rightarrow> nat \<times> u32" where
  "RandomHeight_loop rnd height =
     (if height < kMaxHeight then
        let v = Random_Next rnd in if v mod 4 = 0 then RandomHeight_loop v (height + 1) else (height, v)
      else (height, rnd))"
  by pat_completeness auto
termination by (relation "measure (\<lambda>(_, h). kMaxHeight - h)") auto

declare RandomHeight_loop.simps [simp del]

definition RandomHeight :: "'k SkipList \<Rightarrow> nat \<times> 'k SkipList" where
  "RandomHeight sl = (let (h, rnd) = RandomHeight_loop (sl_rnd sl) 1 in (h, sl\<lparr>sl_rnd := rnd\<rparr>))"

definition KeyIsAfterNode :: "('k \<Rightarrow> 'k \<Rightarrow> int) \<Rightarrow> 'k SkipList \<Rightarrow> 'k \<Rightarrow> nat option \<Rightarrow> bool" where
  "KeyIsAfterNode cmp sl key n = (case n of None \<Rightarrow> False | Some x \<Rightarrow> cmp (node_key sl x) key < 0)"

partial_function (option) FindGreaterOrEqual_loop ::
  "('k \<Rightarrow> 'k \<Rightarrow> int) \<Rightarrow> 'k SkipList \<Rightarrow> 'k \<Rightarrow> nat \<Rightarrow> nat \<Rightarrow> nat option list
   \<Rightarrow> (nat option \<times> nat option list) option" where
  "FindGreaterOrEqual_loop cmp sl key x level prev =
     (let nxt = Node_Next sl x level in
      if KeyIsAfterNode cmp sl key nxt then FindGreaterOrEqual_loop cmp sl key (the nxt) level prev
      else let prev = prev[level := Some x]
           in if level = 0 then Some (nxt, prev)
              else FindGreaterOrEqual_loop cmp sl key x (level - 1) prev)"

definition FindGreaterOrEqual ::
  "('k \<Rightarrow> 'k \<Rightarrow> int) \<Rightarrow> 'k SkipList \<Rightarrow> 'k \<Rightarrow> (nat option \<times> nat option list) option" where
  "FindGreaterOrEqual cmp sl key =
     FindGreaterOrEqual_loop cmp sl key 0 (sl_max_height sl - 1) (replicate kMaxHeight None)"

partial_function (option) FindLessThan_loop ::
  "('k \<Rightarrow> 'k \<Rightarrow> int) \<Rightarrow> 'k SkipList \<Rightarrow> 'k \<Rightarrow> nat \<Rightarrow> nat \<Rightarrow> nat option" where
  "FindLessThan_loop cmp sl key x level =
     (case Node_Next sl x level of
        None \<Rightarrow> if level = 0 then Some x else FindLessThan_loop cmp sl key x (level - 1)
      | Some nxt \<Rightarrow>
          if cmp (node_key sl nxt) key \<ge> 0
          then if level = 0 then Some x else FindLessThan_loop cmp sl key x (level - 1)
          else FindLessThan_loop cmp sl key nxt level)"

definition FindLessThan :: "('k \<Rightarrow> 'k \<Rightarrow> int) \<Rightarrow> 'k SkipList \<Rightarrow> 'k \<Rightarrow> nat option" where
  "FindLessThan cmp sl key = FindLessThan_loop cmp sl key 0 (sl_max_height sl - 1)"

partial_function (option) FindLast_loop :: "'k SkipList \<Rightarrow> nat \<Rightarrow> nat \<Rightarrow> nat option" where
  "FindLast_loop sl x level =
     (case Node_Next sl x level of
        None \<Rightarrow> if level = 0 then Some x else FindLast_loop sl x (level - 1)
      | Some nxt \<Rightarrow> FindLast_loop sl nxt level)"

definition FindLast :: "'k SkipList \<Rightarrow> nat option" where
  "FindLast sl = FindLast_loop sl 0 (sl_max_height sl - 1)"

text \<open>The linking loop of \<^verbatim>\<open>Insert\<close>, one level after the other.\<close>

definition Insert_link :: "nat \<Rightarrow> nat option list \<Rightarrow> 'k SkipList \<Rightarrow> nat \<Rightarrow> 'k SkipList" where
  "Insert_link x prev sl i =
     (let sl = Node_SetNext sl x i (Node_Next sl (the (prev ! i)) i)
      in Node_SetNext sl (the (prev ! i)) i (Some x))"

definition SkipList_Insert :: "('k \<Rightarrow> 'k \<Rightarrow> int) \<Rightarrow> 'k SkipList \<Rightarrow> 'k \<Rightarrow> 'k SkipList option" where
  "SkipList_Insert cmp sl key =
     (case FindGreaterOrEqual cmp sl key of
        None \<Rightarrow> None
      | Some (_, prev) \<Rightarrow>
          let (height, sl) = RandomHeight sl;
              prev = foldl (\<lambda>prev i. prev[i := Some 0]) prev [sl_max_height sl..<height];
              sl = (if height > sl_max_height sl then sl\<lparr>sl_max_height := height\<rparr> else sl);
              (x, sl) = NewNode sl (Some key) height
          in Some (foldl (Insert_link x prev) sl [0..<height]))"

definition SkipList_Contains :: "('k \<Rightarrow> 'k \<Rightarrow> int) \<Rightarrow> 'k SkipList \<Rightarrow> 'k \<Rightarrow> bool option" where
  "SkipList_Contains cmp sl key =
     (case FindGreaterOrEqual cmp sl key of
        None \<Rightarrow> None
      | Some (None, _) \<Rightarrow> Some False
      | Some (Some x, _) \<Rightarrow> Some (cmp key (node_key sl x) = 0))"

subsection \<open>Iterator\<close>

text \<open>The position \<^verbatim>\<open>node_\<close> of an iterator; \<open>None\<close> is the invalid position.  \<^verbatim>\<open>Prev\<close> and the seeks may not return.\<close>

definition SkipIter_Valid :: "nat option \<Rightarrow> bool" where
  "SkipIter_Valid node = (node \<noteq> None)"

definition SkipIter_key :: "'k SkipList \<Rightarrow> nat option \<Rightarrow> 'k" where
  "SkipIter_key sl node = node_key sl (the node)"

definition SkipIter_Next :: "'k SkipList \<Rightarrow> nat option \<Rightarrow> nat option" where
  "SkipIter_Next sl node = Node_Next sl (the node) 0"

definition not_head :: "nat \<Rightarrow> nat option" where
  "not_head x = (if x = 0 then None else Some x)"

definition SkipIter_Prev :: "('k \<Rightarrow> 'k \<Rightarrow> int) \<Rightarrow> 'k SkipList \<Rightarrow> nat option \<Rightarrow> nat option option" where
  "SkipIter_Prev cmp sl node = map_option not_head (FindLessThan cmp sl (node_key sl (the node)))"

definition SkipIter_Seek :: "('k \<Rightarrow> 'k \<Rightarrow> int) \<Rightarrow> 'k SkipList \<Rightarrow> 'k \<Rightarrow> nat option option" where
  "SkipIter_Seek cmp sl target = map_option fst (FindGreaterOrEqual cmp sl target)"

definition SkipIter_SeekToFirst :: "'k SkipList \<Rightarrow> nat option" where
  "SkipIter_SeekToFirst sl = Node_Next sl 0 0"

definition SkipIter_SeekToLast :: "'k SkipList \<Rightarrow> nat option option" where
  "SkipIter_SeekToLast sl = map_option not_head (FindLast sl)"

subsection \<open>Well-formed lists\<close>

text \<open>
  \<open>sl_repr sl xs\<close>: the nodes \<open>xs\<close>, in this order, are the contents of the list, and the links of every level
  run from the head through those of them that are high enough.
\<close>

definition node_height :: "'k SkipList \<Rightarrow> nat \<Rightarrow> nat" where
  "node_height sl x = length (nd_next (sl_nodes sl ! x))"

fun linked :: "'k SkipList \<Rightarrow> nat \<Rightarrow> nat \<Rightarrow> nat list \<Rightarrow> bool" where
  "linked sl l x [] \<longleftrightarrow> Node_Next sl x l = None"
| "linked sl l x (y # ys) \<longleftrightarrow> Node_Next sl x l = Some y \<and> linked sl l y ys"

definition level :: "'k SkipList \<Rightarrow> nat \<Rightarrow> nat list \<Rightarrow> nat list" where
  "level sl l xs = filter (\<lambda>x. l < node_height sl x) xs"

definition sl_repr :: "'k SkipList \<Rightarrow> nat list \<Rightarrow> bool" where
  "sl_repr sl xs \<longleftrightarrow> 0 < length (sl_nodes sl) \<and> node_height sl 0 = kMaxHeight
     \<and> 0 < sl_max_height sl \<and> sl_max_height sl \<le> kMaxHeight \<and> distinct (0 # xs)
     \<and> (\<forall>x \<in> set xs. x < length (sl_nodes sl) \<and> 0 < node_height sl x \<and> node_height sl x \<le> sl_max_height sl)
     \<and> (\<forall>l < kMaxHeight. linked sl l 0 (level sl l xs))"

definition sl_keys :: "'k SkipList \<Rightarrow> nat list \<Rightarrow> 'k list" where
  "sl_keys sl xs = map (node_key sl) xs"

definition first_of :: "'a list \<Rightarrow> 'a option" where
  "first_of xs = (case xs of [] \<Rightarrow> None | x # _ \<Rightarrow> Some x)"

lemma first_of_simps [simp]: "first_of [] = None" "first_of (x # xs) = Some x"
  by (simp_all add: first_of_def)

lemma level_append: "level sl l (xs @ ys) = level sl l xs @ level sl l ys"
  by (simp add: level_def)

lemma level_subset: "set (level sl l xs) \<subseteq> set xs"
  by (auto simp: level_def)

lemma level_0: "sl_repr sl (xs @ ys) \<Longrightarrow> level sl 0 xs = xs \<and> level sl 0 ys = ys"
  by (simp add: sl_repr_def level_def)

lemma linked_append: "linked sl l x (as @ bs) \<Longrightarrow> linked sl l (last (x # as)) bs"
  by (induction as arbitrary: x) auto

lemma linked_first: "linked sl l x ys \<Longrightarrow> Node_Next sl x l = first_of ys"
  by (cases ys) auto

lemma sl_repr_linked:
  assumes "sl_repr sl (P @ R)" and "l < kMaxHeight" and "level sl l P = as @ bs"
  shows "linked sl l (last (0 # as)) (bs @ level sl l R)"
proof (rule linked_append)
  show "linked sl l 0 (as @ bs @ level sl l R)"
    using assms unfolding sl_repr_def level_append by (metis append_assoc)
qed

lemma last_join: "last (last (x # as) # bs) = last (x # as @ bs)"
  by simp

text \<open>Going down one level from the end of a prefix lands inside the prefix of the level below.\<close>

lemma level_down:
  obtains as bs where "level sl l P = as @ bs" and "last (0 # as) = last (0 # level sl (Suc l) P)"
proof (cases "level sl (Suc l) P = []")
  case True
  then show thesis by (intro that [of "[]" "level sl l P"]) simp_all
next
  case False
  then have "last (level sl (Suc l) P) \<in> set (level sl (Suc l) P)" by simp
  then have "last (level sl (Suc l) P) \<in> set (level sl l P)" by (auto simp: level_def)
  then obtain as bs where "level sl l P = as @ last (level sl (Suc l) P) # bs" by (auto dest: split_list)
  with False show thesis by (intro that [of "as @ [last (level sl (Suc l) P)]" bs]) simp_all
qed

subsection \<open>The searches\<close>

lemma FindGreaterOrEqual_walk:
  assumes "linked sl l x (bs @ rs)" and "\<forall>b \<in> set bs. cmp (node_key sl b) k < 0"
    and "\<forall>r \<in> set rs. \<not> cmp (node_key sl r) k < 0"
  shows "FindGreaterOrEqual_loop cmp sl k x l prev =
    (let prev = prev[l := Some (last (x # bs))] in
     if l = 0 then Some (first_of rs, prev) else FindGreaterOrEqual_loop cmp sl k (last (x # bs)) (l - 1) prev)"
  using assms
proof (induction bs arbitrary: x)
  case Nil
  then show ?case
    by (subst FindGreaterOrEqual_loop.simps) (cases rs; simp add: KeyIsAfterNode_def Let_def)
next
  case (Cons b bs)
  have "FindGreaterOrEqual_loop cmp sl k x l prev = FindGreaterOrEqual_loop cmp sl k b l prev"
    using Cons.prems by (subst FindGreaterOrEqual_loop.simps) (simp add: KeyIsAfterNode_def)
  also have "\<dots> = (let prev = prev[l := Some (last (b # bs))] in
     if l = 0 then Some (first_of rs, prev) else FindGreaterOrEqual_loop cmp sl k (last (b # bs)) (l - 1) prev)"
    using Cons.prems by (intro Cons.IH) auto
  finally show ?case by (simp only: last.simps list.simps if_False)
qed

lemma FindLessThan_walk:
  assumes "linked sl l x (bs @ rs)" and "\<forall>b \<in> set bs. cmp (node_key sl b) k < 0"
    and "\<forall>r \<in> set rs. \<not> cmp (node_key sl r) k < 0"
  shows "FindLessThan_loop cmp sl k x l =
    (if l = 0 then Some (last (x # bs)) else FindLessThan_loop cmp sl k (last (x # bs)) (l - 1))"
  using assms
proof (induction bs arbitrary: x)
  case Nil
  then show ?case by (subst FindLessThan_loop.simps) (cases rs; simp)
next
  case (Cons b bs)
  have "FindLessThan_loop cmp sl k x l = FindLessThan_loop cmp sl k b l"
    using Cons.prems by (subst FindLessThan_loop.simps) simp
  with Cons.IH [of b] Cons.prems show ?case by simp
qed

lemma FindLast_walk:
  assumes "linked sl l x bs"
  shows "FindLast_loop sl x l = (if l = 0 then Some (last (x # bs)) else FindLast_loop sl (last (x # bs)) (l - 1))"
  using assms
proof (induction bs arbitrary: x)
  case Nil
  then show ?case by (subst FindLast_loop.simps) simp
next
  case (Cons b bs)
  then have "FindLast_loop sl x l = FindLast_loop sl b l" by (subst FindLast_loop.simps) simp
  with Cons show ?case by simp
qed

text \<open>\<open>prev_filled\<close>: up to level \<open>l\<close>, \<^verbatim>\<open>prev\<close> holds the last node before the key.\<close>

definition prev_filled :: "'k SkipList \<Rightarrow> nat list \<Rightarrow> nat \<Rightarrow> nat option list \<Rightarrow> nat option list \<Rightarrow> bool" where
  "prev_filled sl P l prev prev' \<longleftrightarrow> length prev' = length prev
     \<and> (\<forall>i \<le> l. i < length prev \<longrightarrow> prev' ! i = Some (last (0 # level sl i P)))
     \<and> (\<forall>i > l. prev' ! i = prev ! i)"

lemma level_sides:
  assumes "level sl l P = as @ bs" and "\<forall>b \<in> set P. Q b" and "\<forall>r \<in> set R. \<not> Q r"
  shows "\<forall>b \<in> set bs. Q b" and "\<forall>r \<in> set (level sl l R). \<not> Q r"
proof -
  have "set bs \<subseteq> set P" using level_subset [of sl l P] assms(1) by auto
  then show "\<forall>b \<in> set bs. Q b" using assms(2) by blast
  show "\<forall>r \<in> set (level sl l R). \<not> Q r" using level_subset [of sl l R] assms(3) by blast
qed

lemma FindGreaterOrEqual_descend:
  assumes "sl_repr sl (P @ R)" and "l < kMaxHeight"
    and P: "\<forall>b \<in> set P. cmp (node_key sl b) k < 0" and R: "\<forall>r \<in> set R. \<not> cmp (node_key sl r) k < 0"
    and "level sl l P = as @ bs"
  shows "\<exists>prev'. FindGreaterOrEqual_loop cmp sl k (last (0 # as)) l prev = Some (first_of R, prev')
    \<and> prev_filled sl P l prev prev'"
  using assms(2,5)
proof (induction l arbitrary: as bs prev)
  case (0 as bs prev)
  note w = FindGreaterOrEqual_walk [where cmp = cmp and k = k, OF sl_repr_linked [OF assms(1) 0] level_sides [OF 0(2) P R],
      of prev, unfolded last_join 0(2) [symmetric]]
  show ?case using w level_0 [OF assms(1)] by (auto simp: prev_filled_def Let_def)
next
  case (Suc l as bs prev)
  let ?prev = "prev[Suc l := Some (last (0 # level sl (Suc l) P))]"
  note w = FindGreaterOrEqual_walk [where cmp = cmp and k = k, OF sl_repr_linked [OF assms(1) Suc.prems] level_sides [OF Suc.prems(2) P R],
      of prev, unfolded last_join Suc.prems(2) [symmetric]]
  obtain as' bs' where d: "level sl l P = as' @ bs'" "last (0 # as') = last (0 # level sl (Suc l) P)"
    by (rule level_down)
  obtain prev' where "FindGreaterOrEqual_loop cmp sl k (last (0 # as')) l ?prev = Some (first_of R, prev')"
    "prev_filled sl P l ?prev prev'"
    using Suc.IH [OF _ d(1), of ?prev] Suc.prems by auto
  then show ?case using w d(2)
    by (auto simp: prev_filled_def nth_list_update less_Suc_eq_le le_Suc_eq simp del: last.simps)
qed

lemma FindLessThan_descend:
  assumes "sl_repr sl (P @ R)" and "l < kMaxHeight"
    and P: "\<forall>b \<in> set P. cmp (node_key sl b) k < 0" and R: "\<forall>r \<in> set R. \<not> cmp (node_key sl r) k < 0"
    and "level sl l P = as @ bs"
  shows "FindLessThan_loop cmp sl k (last (0 # as)) l = Some (last (0 # P))"
  using assms(2,5)
proof (induction l arbitrary: as bs)
  case (0 as bs)
  note w = FindLessThan_walk [where cmp = cmp and k = k, OF sl_repr_linked [OF assms(1) 0] level_sides [OF 0(2) P R],
      unfolded last_join 0(2) [symmetric]]
  show ?case using w level_0 [OF assms(1)] by auto
next
  case (Suc l as bs)
  note w = FindLessThan_walk [where cmp = cmp and k = k, OF sl_repr_linked [OF assms(1) Suc.prems] level_sides [OF Suc.prems(2) P R],
      unfolded last_join Suc.prems(2) [symmetric]]
  obtain as' bs' where d: "level sl l P = as' @ bs'" "last (0 # as') = last (0 # level sl (Suc l) P)"
    by (rule level_down)
  show ?case using Suc.IH [OF _ d(1)] Suc.prems w d(2) by (simp del: last.simps)
qed

lemma FindLast_descend:
  assumes "sl_repr sl xs" and "l < kMaxHeight" and "level sl l xs = as @ bs"
  shows "FindLast_loop sl (last (0 # as)) l = Some (last (0 # xs))"
  using assms(2,3)
proof (induction l arbitrary: as bs)
  case (0 as bs)
  have "linked sl 0 (last (0 # as)) bs" using sl_repr_linked [of sl xs "[]"] assms(1) 0 by (simp add: level_def)
  from FindLast_walk [OF this] 0 level_0 [of sl xs "[]"] assms(1) show ?case by auto
next
  case (Suc l as bs)
  have "linked sl (Suc l) (last (0 # as)) bs"
    using sl_repr_linked [of sl xs "[]"] assms(1) Suc.prems by (simp add: level_def)
  from FindLast_walk [OF this] Suc.prems
  have "FindLast_loop sl (last (0 # as)) (Suc l) = FindLast_loop sl (last (0 # level sl (Suc l) xs)) l" by auto
  moreover obtain as' bs' where d: "level sl l xs = as' @ bs'" "last (0 # as') = last (0 # level sl (Suc l) xs)"
    by (rule level_down)
  ultimately show ?case using Suc.IH [OF _ d(1)] Suc.prems by simp
qed

subsection \<open>Insertion\<close>

lemma Node_SetNext_nodes:
  "sl_nodes (Node_SetNext sl x n y) ! a =
     (if a = x \<and> x < length (sl_nodes sl)
      then (sl_nodes sl ! a)\<lparr>nd_next := (nd_next (sl_nodes sl ! a))[n := y]\<rparr> else sl_nodes sl ! a)"
  by (cases "x < length (sl_nodes sl)") (auto simp: Node_SetNext_def nth_list_update list_update_beyond)

lemma Node_SetNext_frame [simp]:
  "length (sl_nodes (Node_SetNext sl x n y)) = length (sl_nodes sl)"
  "node_height (Node_SetNext sl x n y) a = node_height sl a"
  "node_key (Node_SetNext sl x n y) a = node_key sl a"
  "sl_max_height (Node_SetNext sl x n y) = sl_max_height sl"
  by (simp_all add: node_height_def node_key_def Node_SetNext_nodes) (simp_all add: Node_SetNext_def)

lemma Node_Next_SetNext:
  "Node_Next (Node_SetNext sl x n y) a l =
     (if a = x \<and> l = n \<and> x < length (sl_nodes sl) \<and> n < node_height sl x then y else Node_Next sl a l)"
  by (cases "n < node_height sl x")
    (auto simp: Node_Next_def Node_SetNext_nodes node_height_def nth_list_update list_update_beyond)

lemma Insert_link_frame [simp]:
  "length (sl_nodes (Insert_link x prev sl i)) = length (sl_nodes sl)"
  "node_height (Insert_link x prev sl i) a = node_height sl a"
  "node_key (Insert_link x prev sl i) a = node_key sl a"
  "sl_max_height (Insert_link x prev sl i) = sl_max_height sl"
  by (simp_all add: Insert_link_def Let_def)

lemma Insert_links_frame [simp]:
  "length (sl_nodes (foldl (Insert_link x prev) sl is)) = length (sl_nodes sl)"
  "node_height (foldl (Insert_link x prev) sl is) a = node_height sl a"
  "node_key (foldl (Insert_link x prev) sl is) a = node_key sl a"
  "sl_max_height (foldl (Insert_link x prev) sl is) = sl_max_height sl"
  by (induction "is" arbitrary: sl) simp_all

lemma Insert_link_Next:
  assumes "prev ! i = Some p" and "p \<noteq> x" and "p < length (sl_nodes sl)" and "i < node_height sl p"
    and "x < length (sl_nodes sl)" and "i < node_height sl x"
  shows "Node_Next (Insert_link x prev sl i) a l =
    (if l = i \<and> a = x then Node_Next sl p i else if l = i \<and> a = p then Some x else Node_Next sl a l)"
  using assms by (auto simp: Insert_link_def Let_def Node_Next_SetNext)

lemma Insert_links_Next:
  assumes "x < length (sl_nodes sl)" and "m \<le> node_height sl x"
    and "\<forall>i < m. prev ! i = Some (p i) \<and> p i < length (sl_nodes sl) \<and> p i \<noteq> x \<and> i < node_height sl (p i)"
  shows "Node_Next (foldl (Insert_link x prev) sl [0..<m]) a l =
    (if l < m \<and> a = x then Node_Next sl (p l) l else if l < m \<and> a = p l then Some x else Node_Next sl a l)"
  using assms
proof (induction m arbitrary: a l)
  case 0
  then show ?case by simp
next
  case (Suc m)
  then have "prev ! m = Some (p m)" "p m \<noteq> x" "p m < length (sl_nodes sl)" "m < node_height sl (p m)"
    "m < node_height sl x" by auto
  with Suc show ?case
    by (simp add: Insert_link_Next [of prev m "p m"] less_Suc_eq)
qed

lemma linked_cong:
  "linked sl l y rs \<Longrightarrow> \<forall>a \<in> set (y # rs). Node_Next sl' a l = Node_Next sl a l \<Longrightarrow> linked sl' l y rs"
  by (induction rs arbitrary: y) auto

lemma linked_insert:
  assumes "linked sl l y (ps @ rs)" and "distinct (y # ps @ rs)"
    and "\<forall>a \<in> set (y # ps @ rs). a \<noteq> last (y # ps) \<longrightarrow> Node_Next sl' a l = Node_Next sl a l"
    and "Node_Next sl' (last (y # ps)) l = Some x" and "Node_Next sl' x l = Node_Next sl (last (y # ps)) l"
  shows "linked sl' l y (ps @ x # rs)"
  using assms
proof (induction ps arbitrary: y)
  case Nil
  show ?case
  proof (cases rs)
    case (Cons r rs')
    have "linked sl' l r rs'"
    proof (rule linked_cong)
      show "linked sl l r rs'" using Nil.prems(1) Cons by simp
      show "\<forall>a \<in> set (r # rs'). Node_Next sl' a l = Node_Next sl a l"
        using Nil.prems(2,3) unfolding Cons by auto
    qed
    then show ?thesis using Nil.prems(1,4,5) Cons by simp
  qed (use Nil.prems(1,4,5) in simp)
next
  case (Cons p ps)
  have "last (p # ps) \<in> set (p # ps)" by (rule last_in_set) simp
  then have "y \<noteq> last (p # ps)" using Cons.prems(2) by auto
  moreover have "linked sl' l p (ps @ x # rs)"
  proof (rule Cons.IH)
    show "linked sl l p (ps @ rs)" "distinct (p # ps @ rs)" using Cons.prems(1,2) by simp_all
    show "\<forall>a \<in> set (p # ps @ rs). a \<noteq> last (p # ps) \<longrightarrow> Node_Next sl' a l = Node_Next sl a l"
      using Cons.prems(3) by simp
    show "Node_Next sl' (last (p # ps)) l = Some x" using Cons.prems(4) by simp
    show "Node_Next sl' x l = Node_Next sl (last (p # ps)) l" using Cons.prems(5) by (simp only: last.simps list.simps if_False)
  qed
  moreover have "Node_Next sl' y l = Some p" using Cons.prems(1,3) \<open>y \<noteq> last (p # ps)\<close> by simp
  ultimately show ?case by simp
qed

lemma RandomHeight_loop_bounds:
  "0 < h \<Longrightarrow> h \<le> kMaxHeight \<Longrightarrow> 0 < fst (RandomHeight_loop rnd h) \<and> fst (RandomHeight_loop rnd h) \<le> kMaxHeight"
proof (induction rnd h rule: RandomHeight_loop.induct)
  case (1 rnd h)
  then show ?case by (subst (1 2) RandomHeight_loop.simps) (auto simp: Let_def)
qed

lemma prev_extend:
  assumes "i < length prev"
  shows "foldl (\<lambda>prev i. prev[i := Some 0]) prev [m..<h] ! i = (if m \<le> i \<and> i < h then Some 0 else prev ! i)
   \<and> length (foldl (\<lambda>prev i. prev[i := Some 0]) prev [m..<h]) = length prev"
  using assms by (induction h) (auto simp: nth_list_update less_Suc_eq)

text \<open>
  The effect of \<^verbatim>\<open>Insert\<close> on the nodes: the new node of height \<open>h\<close> follows, on each of its levels, the
  last node of that level among those (\<open>P\<close>) before the key.
\<close>

definition pred_node :: "'k SkipList \<Rightarrow> nat list \<Rightarrow> nat \<Rightarrow> nat" where
  "pred_node sl P l = last (0 # level sl l P)"

definition inserted :: "'k SkipList \<Rightarrow> 'k SkipList \<Rightarrow> nat list \<Rightarrow> 'k \<Rightarrow> nat \<Rightarrow> bool" where
  "inserted sl sl' P k h \<longleftrightarrow> 0 < h \<and> h \<le> kMaxHeight
     \<and> length (sl_nodes sl') = Suc (length (sl_nodes sl)) \<and> sl_max_height sl' = max (sl_max_height sl) h
     \<and> node_height sl' (length (sl_nodes sl)) = h \<and> node_key sl' (length (sl_nodes sl)) = k
     \<and> (\<forall>a < length (sl_nodes sl). node_height sl' a = node_height sl a \<and> node_key sl' a = node_key sl a)
     \<and> (\<forall>l < h. Node_Next sl' (length (sl_nodes sl)) l = Node_Next sl (pred_node sl P l) l)
     \<and> (\<forall>l. \<forall>a < length (sl_nodes sl).
          Node_Next sl' a l = (if l < h \<and> a = pred_node sl P l then Some (length (sl_nodes sl)) else Node_Next sl a l))"

lemma pred_node_beyond:
  assumes "sl_repr sl (P @ R)" and "sl_max_height sl \<le> i"
  shows "pred_node sl P i = 0"
proof -
  have "\<not> i < node_height sl a" if "a \<in> set P" for a
    using assms that unfolding sl_repr_def by (metis UnI1 leD order_trans set_append)
  then have "level sl i P = []" unfolding level_def by (simp add: filter_empty_conv)
  then show ?thesis by (simp add: pred_node_def)
qed

lemma pred_node_in:
  assumes "sl_repr sl (P @ R)" and "i < kMaxHeight"
  shows "pred_node sl P i < length (sl_nodes sl) \<and> i < node_height sl (pred_node sl P i)"
proof -
  have "pred_node sl P i \<in> set (0 # level sl i P)" unfolding pred_node_def by (rule last_in_set) simp
  then show ?thesis using assms by (auto simp: sl_repr_def level_def)
qed

lemma inserted_linked:
  assumes r: "sl_repr sl (P @ R)" and ins: "inserted sl sl' P k h" and l: "l < kMaxHeight"
  shows "linked sl' l 0 (level sl' l (P @ length (sl_nodes sl) # R))"
proof -
  let ?x = "length (sl_nodes sl)"
  have lk: "linked sl l 0 (level sl l P @ level sl l R)"
    using r l unfolding sl_repr_def level_append by blast
  have lt: "\<forall>a \<in> set (P @ R). a < ?x" "0 < ?x" "distinct (0 # P @ R)" using r by (auto simp: sl_repr_def)
  have lev: "level sl' l zs = level sl l zs" if "set zs \<subseteq> set (P @ R)" for zs
    unfolding level_def using that lt ins by (intro filter_cong) (auto simp: inserted_def)
  have eq: "level sl' l (P @ ?x # R) = level sl l P @ (if l < h then [?x] else []) @ level sl l R"
    using lev [of P] lev [of R] ins by (simp add: level_append) (simp add: level_def inserted_def)
  have lt': "\<forall>a \<in> set (0 # level sl l P @ level sl l R). a < ?x" using lt by (auto simp: level_def)
  show ?thesis
  proof (cases "l < h")
    case True
    have "linked sl' l 0 (level sl l P @ ?x # level sl l R)"
    proof (rule linked_insert [OF lk, folded pred_node_def])
      show "distinct (0 # level sl l P @ level sl l R)" using lt(3) by (auto simp: level_def)
      show "\<forall>a \<in> set (0 # level sl l P @ level sl l R). a \<noteq> pred_node sl P l \<longrightarrow> Node_Next sl' a l = Node_Next sl a l"
        using lt' ins by (auto simp: inserted_def)
      show "Node_Next sl' (pred_node sl P l) l = Some ?x"
        using True pred_node_in [OF r l] ins by (simp add: inserted_def)
      show "Node_Next sl' ?x l = Node_Next sl (pred_node sl P l) l"
        using True ins by (simp add: inserted_def)
    qed
    then show ?thesis using True by (simp add: eq)
  next
    case False
    have "linked sl' l 0 (level sl l P @ level sl l R)"
      using lt' ins False by (intro linked_cong [OF lk]) (simp add: inserted_def)
    then show ?thesis using False by (simp add: eq)
  qed
qed

lemma inserted_repr:
  assumes r: "sl_repr sl (P @ R)" and ins: "inserted sl sl' P k h"
  shows "sl_repr sl' (P @ length (sl_nodes sl) # R)"
    and "sl_keys sl' (P @ length (sl_nodes sl) # R) = sl_keys sl P @ k # sl_keys sl R"
proof -
  let ?x = "length (sl_nodes sl)"
  have xs: "\<forall>a \<in> set (P @ R). a < ?x \<and> 0 < node_height sl a \<and> node_height sl a \<le> sl_max_height sl"
    "distinct (0 # P @ R)" "0 < ?x" "node_height sl 0 = kMaxHeight" "0 < sl_max_height sl" "sl_max_height sl \<le> kMaxHeight"
    using r by (auto simp: sl_repr_def)
  have old: "\<forall>a < ?x. node_height sl' a = node_height sl a" "node_height sl' ?x = h" "0 < h" "h \<le> kMaxHeight"
    "length (sl_nodes sl') = Suc ?x" "sl_max_height sl' = max (sl_max_height sl) h"
    using ins by (simp_all add: inserted_def)
  have "\<forall>a \<in> set (P @ ?x # R). a < length (sl_nodes sl') \<and> 0 < node_height sl' a \<and> node_height sl' a \<le> sl_max_height sl'"
    using xs(1) old by (auto simp: less_Suc_eq le_max_iff_disj)
  moreover have "distinct (0 # P @ ?x # R)" using xs(1,2,3) by auto
  ultimately show "sl_repr sl' (P @ ?x # R)"
    unfolding sl_repr_def using inserted_linked [OF r ins] xs(3-6) old by simp
  show "sl_keys sl' (P @ length (sl_nodes sl) # R) = sl_keys sl P @ k # sl_keys sl R"
    using r ins by (simp add: sl_keys_def inserted_def sl_repr_def)
qed

text \<open>The nodes before a key and those after it, in a sorted list.\<close>

context comparator
begin

lemma sorted_split:
  fixes k
  assumes "sorted_wrt (\<lambda>a b. cmp a b < 0) (sl_keys sl xs)"
  defines "P \<equiv> takeWhile (\<lambda>x. cmp (node_key sl x) k < 0) xs" and "R \<equiv> dropWhile (\<lambda>x. cmp (node_key sl x) k < 0) xs"
  shows "xs = P @ R" and "\<forall>b \<in> set P. cmp (node_key sl b) k < 0" and "\<forall>r \<in> set R. \<not> cmp (node_key sl r) k < 0"
proof -
  show "xs = P @ R" by (simp add: P_def R_def)
  show "\<forall>b \<in> set P. cmp (node_key sl b) k < 0" by (auto simp: P_def dest: set_takeWhileD)
  have "map (node_key sl) R = filter (\<lambda>y. \<not> cmp y k < 0) (sl_keys sl xs)"
    using sorted_filter_prefix(2) [OF assms(1), of k]
    by (simp add: R_def sl_keys_def dropWhile_map comp_def)
  then have "set (map (node_key sl) R) = set (filter (\<lambda>y. \<not> cmp y k < 0) (sl_keys sl xs))" by simp
  then show "\<forall>r \<in> set R. \<not> cmp (node_key sl r) k < 0" by (auto simp: set_eq_iff)
qed

text \<open>A well-formed and sorted list with the nodes \<open>xs\<close>.\<close>

definition sl_ok :: "'k SkipList \<Rightarrow> nat list \<Rightarrow> bool" where
  "sl_ok sl xs \<longleftrightarrow> sl_repr sl xs \<and> sorted_wrt (\<lambda>a b. cmp a b < 0) (sl_keys sl xs)"

lemma FindGreaterOrEqual_ok:
  assumes "sl_ok sl xs"
  shows "\<exists>prev. FindGreaterOrEqual cmp sl k = Some (first_of (dropWhile (\<lambda>x. cmp (node_key sl x) k < 0) xs), prev)
    \<and> prev_filled sl (takeWhile (\<lambda>x. cmp (node_key sl x) k < 0) xs) (sl_max_height sl - 1) (replicate kMaxHeight None) prev"
proof -
  note sp = sorted_split [OF conjunct2 [OF assms [unfolded sl_ok_def]], of k]
  let ?P = "takeWhile (\<lambda>x. cmp (node_key sl x) k < 0) xs"
  have r: "sl_repr sl (?P @ dropWhile (\<lambda>x. cmp (node_key sl x) k < 0) xs)" using assms sp(1) by (simp add: sl_ok_def)
  then have "sl_max_height sl - 1 < kMaxHeight" by (auto simp: sl_repr_def)
  from FindGreaterOrEqual_descend [where cmp = cmp and k = k, OF r this sp(2,3), of "[]" "level sl (sl_max_height sl - 1) ?P"]
  show ?thesis by (simp add: FindGreaterOrEqual_def)
qed

lemma FindLessThan_ok:
  assumes "sl_ok sl xs"
  shows "FindLessThan cmp sl k = Some (last (0 # takeWhile (\<lambda>x. cmp (node_key sl x) k < 0) xs))"
proof -
  note sp = sorted_split [OF conjunct2 [OF assms [unfolded sl_ok_def]], of k]
  let ?P = "takeWhile (\<lambda>x. cmp (node_key sl x) k < 0) xs"
  have r: "sl_repr sl (?P @ dropWhile (\<lambda>x. cmp (node_key sl x) k < 0) xs)" using assms sp(1) by (simp add: sl_ok_def)
  then have "sl_max_height sl - 1 < kMaxHeight" by (auto simp: sl_repr_def)
  from FindLessThan_descend [where cmp = cmp and k = k, OF r this sp(2,3), of "[]" "level sl (sl_max_height sl - 1) ?P"]
  show ?thesis by (simp add: FindLessThan_def)
qed

lemma FindLast_ok: "sl_ok sl xs \<Longrightarrow> FindLast sl = Some (last (0 # xs))"
  using FindLast_descend [of sl xs "sl_max_height sl - 1" "[]" "level sl (sl_max_height sl - 1) xs"]
  by (auto simp: FindLast_def sl_ok_def sl_repr_def)

lemma SkipList_Insert_inserted:
  assumes ok: "sl_ok sl xs"
  obtains sl' h where "SkipList_Insert cmp sl k = Some sl'"
    and "inserted sl sl' (takeWhile (\<lambda>x. cmp (node_key sl x) k < 0) xs) k h"
proof -
  define P R where "P = takeWhile (\<lambda>x. cmp (node_key sl x) k < 0) xs"
    and "R = dropWhile (\<lambda>x. cmp (node_key sl x) k < 0) xs"
  have r: "sl_repr sl (P @ R)" using ok by (simp add: sl_ok_def P_def R_def)
  obtain prev where fge: "FindGreaterOrEqual cmp sl k = Some (first_of R, prev)"
    and pf: "prev_filled sl P (sl_max_height sl - 1) (replicate kMaxHeight None) prev"
    using FindGreaterOrEqual_ok [OF ok, of k] unfolding P_def R_def by auto
  obtain h rnd where rh: "RandomHeight_loop (sl_rnd sl) 1 = (h, rnd)" by fastforce
  have h: "0 < h" "h \<le> kMaxHeight" using RandomHeight_loop_bounds [of 1 "sl_rnd sl"] rh by (auto simp: kMaxHeight_def)
  let ?m = "sl_max_height sl" and ?x = "length (sl_nodes sl)"
  define prev' where "prev' = foldl (\<lambda>prev i. prev[i := Some 0]) prev [?m..<h]"
  define sl1 where "sl1 = sl\<lparr>sl_rnd := rnd, sl_max_height := max ?m h,
      sl_nodes := sl_nodes sl @ [\<lparr>nd_key = Some k, nd_next = replicate h None\<rparr>]\<rparr>"
  define sl' where "sl' = foldl (Insert_link ?x prev') sl1 [0..<h]"
  have ins: "SkipList_Insert cmp sl k = Some sl'"
    using rh by (auto simp: SkipList_Insert_def fge RandomHeight_def Let_def NewNode_def sl'_def sl1_def
        prev'_def max_def)
  have nodes1: "node_height sl1 a = node_height sl a" "node_key sl1 a = node_key sl a"
    "Node_Next sl1 a l = Node_Next sl a l" if "a < ?x" for a l
    using that by (simp_all add: sl1_def node_height_def node_key_def Node_Next_def nth_append)
  have new1: "node_height sl1 ?x = h" "node_key sl1 ?x = k" "length (sl_nodes sl1) = Suc ?x"
    by (simp_all add: sl1_def node_height_def node_key_def)
  have pv: "prev' ! i = Some (pred_node sl P i) \<and> pred_node sl P i < ?x \<and> i < node_height sl (pred_node sl P i)"
    if i: "i < h" for i
  proof -
    have len: "i < length prev" using pf h i by (simp add: prev_filled_def)
    have "prev ! i = Some (pred_node sl P i)" if "i < ?m"
      using pf len that by (auto simp: prev_filled_def pred_node_def simp del: last.simps)
    then have "prev' ! i = Some (pred_node sl P i)"
      using prev_extend [OF len, of ?m h] pred_node_beyond [OF r, of i] i by (simp add: prev'_def not_le)
    then show ?thesis using pred_node_in [OF r, of i] h i by simp
  qed
  have "Node_Next sl' a l = (if l < h \<and> a = ?x then Node_Next sl1 (pred_node sl P l) l
      else if l < h \<and> a = pred_node sl P l then Some ?x else Node_Next sl1 a l)" for a l
    unfolding sl'_def using new1 pv nodes1(1) less_SucI by (intro Insert_links_Next) fastforce+
  note nxt = this
  have "inserted sl sl' P k h"
    unfolding inserted_def
  proof (intro conjI allI impI)
    show "Node_Next sl' ?x l = Node_Next sl (pred_node sl P l) l" if "l < h" for l
      using nxt pv [OF that] that nodes1(3) by simp
    show "Node_Next sl' a l = (if l < h \<and> a = pred_node sl P l then Some ?x else Node_Next sl a l)" if "a < ?x" for a l
      using nxt that nodes1(3) by simp
    show "sl_max_height sl' = max ?m h" by (simp add: sl'_def sl1_def)
  qed (use h new1 nodes1 in \<open>simp_all add: sl'_def\<close>)
  with ins show thesis unfolding P_def by (rule that)
qed

lemma SkipList_Insert_ok:
  assumes ok: "sl_ok sl xs" and new: "\<forall>y \<in> set (sl_keys sl xs). cmp y k \<noteq> 0"
  obtains sl' xs' where "SkipList_Insert cmp sl k = Some sl'" and "sl_ok sl' xs'"
    and "sl_keys sl' xs' = takeWhile (\<lambda>y. cmp y k < 0) (sl_keys sl xs) @ k # dropWhile (\<lambda>y. cmp y k < 0) (sl_keys sl xs)"
proof -
  define P R where "P = takeWhile (\<lambda>x. cmp (node_key sl x) k < 0) xs"
    and "R = dropWhile (\<lambda>x. cmp (node_key sl x) k < 0) xs"
  note sp = sorted_split [OF conjunct2 [OF ok [unfolded sl_ok_def]], of k, folded P_def R_def]
  obtain sl' h where ins: "SkipList_Insert cmp sl k = Some sl'" "inserted sl sl' P k h"
    using SkipList_Insert_inserted [OF ok, of k] unfolding P_def by blast
  have r: "sl_repr sl (P @ R)" using ok sp(1) by (simp add: sl_ok_def)
  let ?xs = "P @ length (sl_nodes sl) # R"
  note rep = inserted_repr [OF r ins(2)]
  have sides: "\<forall>y \<in> set (sl_keys sl P). cmp y k < 0" "\<forall>z \<in> set (sl_keys sl R). cmp k z < 0"
  proof -
    show "\<forall>y \<in> set (sl_keys sl P). cmp y k < 0" using sp(2) by (simp add: sl_keys_def)
    have "cmp k z < 0" if "z \<in> set (sl_keys sl R)" for z
    proof -
      have "\<not> cmp z k < 0" using sp(3) that by (auto simp: sl_keys_def)
      moreover have "cmp z k \<noteq> 0" using new sp(1) that by (simp add: sl_keys_def)
      ultimately show ?thesis using cmp_swap [of k z] by linarith
    qed
    then show "\<forall>z \<in> set (sl_keys sl R). cmp k z < 0" by blast
  qed
  have "sorted_wrt (\<lambda>a b. cmp a b < 0) (sl_keys sl P @ sl_keys sl R)"
    using ok sp(1) by (simp add: sl_ok_def sl_keys_def)
  then have "sorted_wrt (\<lambda>a b. cmp a b < 0) (sl_keys sl' ?xs)"
    using sides unfolding rep(2) by (simp add: sorted_wrt_append)
  then have "sl_ok sl' ?xs" using rep(1) by (simp add: sl_ok_def)
  with ins(1) show thesis
    by (rule that, unfold rep(2)) (simp add: sl_keys_def P_def R_def takeWhile_map dropWhile_map comp_def)
qed

lemma SkipList_make_ok: "sl_ok SkipList_make []"
proof -
  have e: "SkipList_make = \<lparr>sl_nodes = [\<lparr>nd_key = None, nd_next = replicate kMaxHeight None\<rparr>],
      sl_max_height = 1, sl_rnd = Random_make 0xdeadbeef\<rparr>" (is "_ = ?sl")
  proof -
    have "Node_SetNext ?sl 0 i None = ?sl" for i
      by (cases "i < kMaxHeight") (simp_all add: Node_SetNext_def list_update_same_conv list_update_beyond)
    then have "foldl (\<lambda>sl i. Node_SetNext sl 0 i None) ?sl is = ?sl" for "is"
      by (induction "is") simp_all
    then show ?thesis by (simp add: SkipList_make_def NewNode_def)
  qed
  show ?thesis
    unfolding e by (simp add: sl_ok_def sl_repr_def sl_keys_def level_def node_height_def Node_Next_def kMaxHeight_def)
qed

end

subsection \<open>The list as an ordered table\<close>

text \<open>
  What a client of the skip list relies on: the contents stay sorted, an insertion of a new key (one that
  compares equal to none present) returns and adds it in its place, and a seek returns the first key not
  below the target.
\<close>

locale ordered_table = comparator cmp for cmp :: "'k \<Rightarrow> 'k \<Rightarrow> int" +
  fixes insert :: "'t \<Rightarrow> 'k \<Rightarrow> 't option"
    and seek :: "'t \<Rightarrow> 'k \<Rightarrow> 'k option option"
    and contents :: "'t \<Rightarrow> 'k list"
    and invar :: "'t \<Rightarrow> bool"
  assumes contents_sorted: "invar t \<Longrightarrow> sorted_wrt (\<lambda>a b. cmp a b < 0) (contents t)"
    and insert_returns: "invar t \<Longrightarrow> \<forall>y \<in> set (contents t). cmp y k \<noteq> 0 \<Longrightarrow> \<exists>t'. insert t k = Some t'"
    and insert_invar: "invar t \<Longrightarrow> \<forall>y \<in> set (contents t). cmp y k \<noteq> 0 \<Longrightarrow> insert t k = Some t' \<Longrightarrow> invar t'"
    and insert_contents: "invar t \<Longrightarrow> \<forall>y \<in> set (contents t). cmp y k \<noteq> 0 \<Longrightarrow> insert t k = Some t'
      \<Longrightarrow> contents t' = takeWhile (\<lambda>y. cmp y k < 0) (contents t) @ k # dropWhile (\<lambda>y. cmp y k < 0) (contents t)"
    and seek_result: "invar t \<Longrightarrow> seek t k = Some (first_of (dropWhile (\<lambda>y. cmp y k < 0) (contents t)))"
begin

lemma insert_set:
  assumes "invar t" and "\<forall>y \<in> set (contents t). cmp y k \<noteq> 0" and "insert t k = Some t'"
  shows "set (contents t') = Set.insert k (set (contents t))"
proof -
  have "set (contents t) = set (takeWhile (\<lambda>y. cmp y k < 0) (contents t) @ dropWhile (\<lambda>y. cmp y k < 0) (contents t))"
    by (simp only: takeWhile_dropWhile_id)
  then show ?thesis unfolding insert_contents [OF assms] by (simp only: set_append list.set Un_insert_right)
qed

text \<open>A seek finds the least key at or after the target.\<close>

lemma seek_Some:
  assumes "invar t" and "seek t k = Some (Some y)"
  shows "y \<in> set (contents t)" and "0 \<le> cmp y k"
    and "\<And>z. z \<in> set (contents t) \<Longrightarrow> 0 \<le> cmp z k \<Longrightarrow> cmp y z \<le> 0"
proof -
  obtain ys where d: "dropWhile (\<lambda>y. cmp y k < 0) (contents t) = y # ys"
    using assms seek_result [OF assms(1), of k] by (auto simp: first_of_def split: list.splits)
  then show "y \<in> set (contents t)" by (metis list.set_intros(1) set_dropWhileD)
  show "0 \<le> cmp y k" using d by (metis dropWhile_eq_Cons_conv linorder_not_less)
  fix z assume z: "z \<in> set (contents t)" "0 \<le> cmp z k"
  have f: "filter (\<lambda>y. \<not> cmp y k < 0) (contents t) = y # ys"
    using d sorted_filter_prefix(2) [OF contents_sorted [OF assms(1)], of k] by simp
  have "z \<in> set (filter (\<lambda>y. \<not> cmp y k < 0) (contents t))" using z by simp
  then have "z \<in> set (y # ys)" unfolding f .
  moreover have "sorted_wrt (\<lambda>a b. cmp a b < 0) (y # ys)"
    using contents_sorted [OF assms(1)] sorted_wrt_filter f by metis
  ultimately show "cmp y z \<le> 0" by auto
qed

lemma seek_None: "invar t \<Longrightarrow> seek t k = Some None \<Longrightarrow> z \<in> set (contents t) \<Longrightarrow> cmp z k < 0"
  using seek_result [of t k] by (auto simp: first_of_def split: list.splits)

lemma seek_returns: "invar t \<Longrightarrow> \<exists>r. seek t k = Some r"
  using seek_result by blast

end

text \<open>The nodes along the lowest level, and the keys in them.\<close>

fun sl_walk :: "nat \<Rightarrow> 'k SkipList \<Rightarrow> nat \<Rightarrow> nat list" where
  "sl_walk 0 sl x = []"
| "sl_walk (Suc n) sl x = (case Node_Next sl x 0 of None \<Rightarrow> [] | Some y \<Rightarrow> y # sl_walk n sl y)"

definition sl_list :: "'k SkipList \<Rightarrow> nat list" where
  "sl_list sl = sl_walk (length (sl_nodes sl)) sl 0"

definition sl_contents :: "'k SkipList \<Rightarrow> 'k list" where
  "sl_contents sl = sl_keys sl (sl_list sl)"

definition sl_invar :: "('k \<Rightarrow> 'k \<Rightarrow> int) \<Rightarrow> 'k SkipList \<Rightarrow> bool" where
  "sl_invar cmp sl \<longleftrightarrow> sl_repr sl (sl_list sl) \<and> sorted_wrt (\<lambda>a b. cmp a b < 0) (sl_contents sl)"

definition sl_seek :: "('k \<Rightarrow> 'k \<Rightarrow> int) \<Rightarrow> 'k SkipList \<Rightarrow> 'k \<Rightarrow> 'k option option" where
  "sl_seek cmp sl k = map_option (map_option (node_key sl)) (SkipIter_Seek cmp sl k)"

lemma sl_walk_linked: "linked sl 0 x xs \<Longrightarrow> length xs < n \<Longrightarrow> sl_walk n sl x = xs"
proof (induction n arbitrary: x xs)
  case (Suc n)
  then show ?case by (cases xs) auto
qed simp

lemma sl_list_repr:
  assumes "sl_repr sl xs"
  shows "sl_list sl = xs"
proof -
  have "set xs \<subseteq> {0<..<length (sl_nodes sl)}" "distinct xs"
    using assms by (auto simp: sl_repr_def intro: gr0I)
  then have "length xs \<le> card {0<..<length (sl_nodes sl)}" by (metis card_mono distinct_card finite_greaterThanLessThan)
  moreover have "0 < length (sl_nodes sl)" using assms by (simp add: sl_repr_def)
  ultimately have "length xs < length (sl_nodes sl)" unfolding card_greaterThanLessThan by linarith
  moreover have "linked sl 0 0 xs"
    using sl_repr_linked [of sl xs "[]" 0 "[]" xs] assms level_0 [of sl xs "[]"] by (simp add: kMaxHeight_def)
  ultimately show ?thesis unfolding sl_list_def by (intro sl_walk_linked)
qed

context comparator
begin

lemma sl_invar_ok: "sl_invar cmp sl \<longleftrightarrow> sl_ok sl (sl_list sl)"
  by (simp add: sl_invar_def sl_ok_def sl_contents_def)

lemma sl_ok_invar: "sl_ok sl xs \<Longrightarrow> sl_invar cmp sl \<and> sl_contents sl = sl_keys sl xs"
  using sl_list_repr [of sl xs] by (auto simp: sl_invar_ok sl_ok_def sl_contents_def)

lemma first_of_map: "first_of (map f xs) = map_option f (first_of xs)"
  by (cases xs) simp_all

lemma skip_list_table: "ordered_table cmp (SkipList_Insert cmp) (sl_seek cmp) sl_contents (sl_invar cmp)"
proof unfold_locales
  fix t k
  assume i: "sl_invar cmp t"
  then have ok: "sl_ok t (sl_list t)" by (simp add: sl_invar_ok)
  show "sorted_wrt (\<lambda>a b. cmp a b < 0) (sl_contents t)" using i by (simp add: sl_invar_def)
  show "sl_seek cmp t k = Some (first_of (dropWhile (\<lambda>y. cmp y k < 0) (sl_contents t)))"
    using FindGreaterOrEqual_ok [OF ok, of k]
    by (auto simp: sl_seek_def SkipIter_Seek_def sl_contents_def sl_keys_def dropWhile_map first_of_map comp_def)
  assume new: "\<forall>y \<in> set (sl_contents t). cmp y k \<noteq> 0"
  then obtain t1 xs' where t1: "SkipList_Insert cmp t k = Some t1" "sl_ok t1 xs'"
    "sl_keys t1 xs' = takeWhile (\<lambda>y. cmp y k < 0) (sl_contents t) @ k # dropWhile (\<lambda>y. cmp y k < 0) (sl_contents t)"
    using SkipList_Insert_ok [OF ok, of k] unfolding sl_contents_def by blast
  then show "\<exists>t'. SkipList_Insert cmp t k = Some t'" by blast
  fix t' assume "SkipList_Insert cmp t k = Some t'"
  with t1 sl_ok_invar [OF t1(2)] show "sl_invar cmp t'"
    and "sl_contents t' = takeWhile (\<lambda>y. cmp y k < 0) (sl_contents t) @ k # dropWhile (\<lambda>y. cmp y k < 0) (sl_contents t)"
    by auto
qed

end

sublocale comparator \<subseteq> skip: ordered_table cmp "SkipList_Insert cmp" "sl_seek cmp" sl_contents "sl_invar cmp"
  by (rule skip_list_table)

subsection \<open>The generator\<close>

lemma Random_Next_mod:
  assumes "0 < seed" and "seed < 2147483647"
  shows "unat (Random_Next seed) = (unat seed * 16807) mod 2147483647"
    and "0 < Random_Next seed \<and> Random_Next seed < 2147483647"
proof -
  let ?M = "2147483647 :: nat" and ?s = "unat seed"
  have s: "0 < ?s" "?s < ?M" using assms by (simp_all add: word_less_nat_alt)
  define q r where "q = ?s * 16807 div 2 ^ 31" and "r = ?s * 16807 mod 2 ^ 31"
  have q: "q < 16807" using s(2) unfolding q_def by (auto intro: less_mult_imp_div_less)
  have r: "r < 2 ^ 31" by (simp add: r_def)
  have p: "?s * 16807 = q * 2 ^ 31 + r" by (simp add: q_def r_def)
  have prod: "unat (ucast seed * 16807 :: u64) = ?s * 16807"
    using s(2) by (simp add: unat_word_ariths unsigned_ucast_eq take_bit_nat_eq_self)
  have m: "(ucast (2147483647 :: u32) :: u64) = mask 31" by (simp add: mask_eq_exp_minus_1)
  define v where "v = (ucast seed * 16807 :: u64)"
  have v: "unat v = ?s * 16807" unfolding v_def by (rule prod)
  have sum: "unat (ucast (drop_bit 31 v + (v AND ucast (2147483647 :: u32))) :: u32) = q + r"
    unfolding m take_bit_eq_mask [symmetric]
    using q r by (simp add: unsigned_ucast_eq unat_word_ariths unsigned_drop_bit_eq unsigned_take_bit_eq v
        drop_bit_eq_div take_bit_eq_mod q_def [simplified, symmetric] r_def [simplified, symmetric])
  have "\<not> ?M dvd ?s * 16807"
  proof -
    have "coprime ?M 16807" by (simp add: coprime_iff_gcd_eq_1 gcd_non_0_nat)
    moreover have "\<not> ?M dvd ?s" using s by (auto dest: dvd_imp_le)
    ultimately show ?thesis by (metis coprime_dvd_mult_left_iff)
  qed
  moreover have md: "(?s * 16807) mod ?M = (q + r) mod ?M"
  proof -
    have "?s * 16807 = q * ?M + (q + r)" unfolding p by simp
    then show ?thesis by (metis mod_mult_self3)
  qed
  ultimately have ne: "(q + r) mod ?M \<noteq> 0" by (metis dvd_eq_mod_eq_0)
  have res: "unat (Random_Next seed) = (if ?M < q + r then q + r - ?M else q + r)"
    using sum by (simp add: Random_Next_def Let_def v_def [symmetric] word_less_nat_alt unat_sub word_le_nat_alt)
  have "(if ?M < q + r then q + r - ?M else q + r) = (q + r) mod ?M"
    using ne q r by (auto simp: le_mod_geq not_less le_less)
  then show 1: "unat (Random_Next seed) = (unat seed * 16807) mod 2147483647" using res md by simp
  show "0 < Random_Next seed \<and> Random_Next seed < 2147483647"
    using 1 ne md by (simp add: word_less_nat_alt)
qed

subsection \<open>Properties\<close>

lemma linked_nth:
  "linked sl l x xs \<Longrightarrow> i < length xs
   \<Longrightarrow> Node_Next sl (xs ! i) l = (if Suc i < length xs then Some (xs ! Suc i) else None)"
proof (induction xs arbitrary: x i)
  case (Cons y xs)
  then show ?case by (cases i; cases xs) auto
qed simp

fun SkipList_Inserts :: "('k \<Rightarrow> 'k \<Rightarrow> int) \<Rightarrow> 'k SkipList \<Rightarrow> 'k list \<Rightarrow> 'k SkipList option" where
  "SkipList_Inserts cmp sl [] = Some sl"
| "SkipList_Inserts cmp sl (k # ks) =
     (case SkipList_Insert cmp sl k of None \<Rightarrow> None | Some sl' \<Rightarrow> SkipList_Inserts cmp sl' ks)"

context comparator
begin

lemma takeWhile_nth:
  assumes "sorted_wrt (\<lambda>a b. cmp a b < 0) (map f xs)" and "i < length xs"
  shows "takeWhile (\<lambda>x. cmp (f x) (f (xs ! i)) < 0) xs = take i xs"
proof (rule takeWhile_eq_take_P_nth)
  fix j assume "j < i" "j < length xs"
  then show "cmp (f (xs ! j)) (f (xs ! i)) < 0"
    using sorted_wrt_nth_less [OF assms(1), of j i] assms(2) by simp
qed simp

lemma skip_iterator_walk:
  assumes "sl_invar cmp sl" and "i < length (sl_list sl)"
  shows "SkipIter_Next sl (Some (sl_list sl ! i)) = (if Suc i < length (sl_list sl) then Some (sl_list sl ! Suc i) else None)"
    and "SkipIter_Prev cmp sl (Some (sl_list sl ! i)) = Some (if i = 0 then None else Some (sl_list sl ! (i - 1)))"
proof -
  have ok: "sl_ok sl (sl_list sl)" using assms(1) by (simp add: sl_invar_ok)
  then have r: "sl_repr sl (sl_list sl)" by (simp add: sl_ok_def)
  have "linked sl 0 0 (sl_list sl)"
    using sl_repr_linked [of sl "sl_list sl" "[]" 0 "[]"] level_0 [of sl "sl_list sl" "[]"] r by (simp add: kMaxHeight_def)
  from linked_nth [OF this assms(2)]
  show "SkipIter_Next sl (Some (sl_list sl ! i)) = (if Suc i < length (sl_list sl) then Some (sl_list sl ! Suc i) else None)"
    by (simp add: SkipIter_Next_def)
  have "takeWhile (\<lambda>x. cmp (node_key sl x) (node_key sl (sl_list sl ! i)) < 0) (sl_list sl) = take i (sl_list sl)"
    using ok assms(2) by (intro takeWhile_nth) (simp_all add: sl_ok_def sl_keys_def)
  then have "FindLessThan cmp sl (node_key sl (sl_list sl ! i)) = Some (last (0 # take i (sl_list sl)))"
    using FindLessThan_ok [OF ok] by simp
  moreover have "last (0 # take i (sl_list sl)) = (if i = 0 then 0 else sl_list sl ! (i - 1))"
    using assms(2) by (cases i) (auto simp: take_Suc_conv_app_nth)
  moreover have "0 \<notin> set (sl_list sl)" using r by (simp add: sl_repr_def)
  ultimately show "SkipIter_Prev cmp sl (Some (sl_list sl ! i)) = Some (if i = 0 then None else Some (sl_list sl ! (i - 1)))"
    using assms(2) by (auto simp: SkipIter_Prev_def not_head_def) (metis less_imp_diff_less nth_mem)
qed

lemma skip_iterator_seeks:
  assumes "sl_invar cmp sl"
  shows "SkipIter_SeekToFirst sl = first_of (sl_list sl)"
    and "SkipIter_SeekToLast sl = Some (if sl_list sl = [] then None else Some (last (sl_list sl)))"
    and "SkipIter_Seek cmp sl k = Some (first_of (dropWhile (\<lambda>x. cmp (node_key sl x) k < 0) (sl_list sl)))"
proof -
  have ok: "sl_ok sl (sl_list sl)" using assms(1) by (simp add: sl_invar_ok)
  then have r: "sl_repr sl (sl_list sl)" by (simp add: sl_ok_def)
  have "linked sl 0 0 (sl_list sl)"
    using sl_repr_linked [of sl "sl_list sl" "[]" 0 "[]"] level_0 [of sl "sl_list sl" "[]"] r by (simp add: kMaxHeight_def)
  then show "SkipIter_SeekToFirst sl = first_of (sl_list sl)"
    by (simp add: SkipIter_SeekToFirst_def linked_first)
  have "0 \<notin> set (sl_list sl)" using r by (simp add: sl_repr_def)
  then show "SkipIter_SeekToLast sl = Some (if sl_list sl = [] then None else Some (last (sl_list sl)))"
    using FindLast_ok [OF ok] by (auto simp: SkipIter_SeekToLast_def not_head_def) (metis last_in_set)
  show "SkipIter_Seek cmp sl k = Some (first_of (dropWhile (\<lambda>x. cmp (node_key sl x) k < 0) (sl_list sl)))"
    using FindGreaterOrEqual_ok [OF ok, of k] by (auto simp: SkipIter_Seek_def)
qed

lemma skip_inserts:
  assumes "sl_invar cmp sl" and "\<forall>y \<in> set (sl_contents sl). \<forall>k \<in> set ks. cmp y k \<noteq> 0"
    and "sorted_wrt (\<lambda>a b. cmp a b \<noteq> 0) ks"
  shows "\<exists>sl'. SkipList_Inserts cmp sl ks = Some sl' \<and> sl_invar cmp sl'
    \<and> set (sl_contents sl') = set (sl_contents sl) \<union> set ks"
  using assms
proof (induction ks arbitrary: sl)
  case (Cons k ks)
  have new: "\<forall>y \<in> set (sl_contents sl). cmp y k \<noteq> 0" using Cons.prems(2) by simp
  obtain sl1 where sl1: "SkipList_Insert cmp sl k = Some sl1"
    using skip.insert_returns [OF Cons.prems(1) new] by blast
  have 1: "sl_invar cmp sl1" "set (sl_contents sl1) = insert k (set (sl_contents sl))"
    using skip.insert_invar [OF Cons.prems(1) new sl1] skip.insert_set [OF Cons.prems(1) new sl1] by auto
  have "\<forall>y \<in> set (sl_contents sl1). \<forall>k' \<in> set ks. cmp y k' \<noteq> 0"
    using 1(2) Cons.prems(2,3) by auto
  from Cons.IH [OF 1(1) this] Cons.prems(3) 1(2) show ?case by (auto simp: sl1)
qed simp

end

text \<open>
  C23.  Whatever the order of insertion and whatever heights the generator draws, inserting keys that are
  pairwise different under the comparator into an empty skip list returns a well-formed list that holds
  exactly these keys, in increasing order.
\<close>

theorem skiplist_sorts:
  assumes "comparator cmp" and "sorted_wrt (\<lambda>a b. cmp a b \<noteq> 0) ks"
  shows "\<exists>sl. SkipList_Inserts cmp SkipList_make ks = Some sl \<and> sl_invar cmp sl
    \<and> set (sl_contents sl) = set ks \<and> sorted_wrt (\<lambda>a b. cmp a b < 0) (sl_contents sl)"
proof -
  note empty = comparator.sl_ok_invar [OF assms(1) comparator.SkipList_make_ok [OF assms(1)]]
  from comparator.skip_inserts [OF assms(1) conjunct1 [OF empty] _ assms(2)] empty
  obtain sl where "SkipList_Inserts cmp SkipList_make ks = Some sl" "sl_invar cmp sl" "set (sl_contents sl) = set ks"
    by (auto simp: sl_keys_def)
  then show ?thesis by (auto simp: sl_invar_def)
qed

lemma skiplist_sorts_witness:
  "\<exists>sl. SkipList_Inserts Slice_compare SkipList_make [[3], [1], [2, 5]] = Some sl
    \<and> set (sl_contents sl) = {[3], [1], [2, 5]} \<and> sorted_wrt (\<lambda>a b. Slice_compare a b < 0) (sl_contents sl)"
proof -
  have "sorted_wrt (\<lambda>a b. Slice_compare a b \<noteq> 0) [[3], [1], [2, 5 :: byte]]"
    by (simp add: Slice_compare_def)
  from skiplist_sorts [OF slice.comparator_axioms this] show ?thesis by auto
qed

text \<open>
  The iterator of a well-formed skip list visits its nodes in order: the seeks land on the first node,
  the last node and the first node not below the target; \<^verbatim>\<open>Next\<close> and \<^verbatim>\<open>Prev\<close> move to the neighbours and
  become invalid past either end.  In particular every search loop returns.
\<close>

theorem skiplist_iterator:
  assumes "comparator cmp" and "sl_invar cmp sl"
  shows "SkipIter_SeekToFirst sl = first_of (sl_list sl)
    \<and> SkipIter_SeekToLast sl = Some (if sl_list sl = [] then None else Some (last (sl_list sl)))
    \<and> SkipIter_Seek cmp sl k = Some (first_of (dropWhile (\<lambda>x. cmp (node_key sl x) k < 0) (sl_list sl)))
    \<and> (i < length (sl_list sl) \<longrightarrow>
         SkipIter_Next sl (Some (sl_list sl ! i)) = (if Suc i < length (sl_list sl) then Some (sl_list sl ! Suc i) else None)
         \<and> SkipIter_Prev cmp sl (Some (sl_list sl ! i)) = Some (if i = 0 then None else Some (sl_list sl ! (i - 1))))"
  using comparator.skip_iterator_seeks [OF assms] comparator.skip_iterator_walk [OF assms] by simp

lemma skiplist_iterator_witness:
  "SkipIter_SeekToLast (SkipList_make :: bytes SkipList) = Some None
    \<and> SkipIter_Seek Slice_compare (SkipList_make :: bytes SkipList) [7] = Some None"
proof -
  note empty = comparator.sl_ok_invar [OF slice.comparator_axioms slice.SkipList_make_ok]
  have "sl_list (SkipList_make :: bytes SkipList) = []"
    using sl_list_repr [of "SkipList_make :: bytes SkipList" "[]"] slice.SkipList_make_ok by (simp add: slice.sl_ok_def)
  with skiplist_iterator [OF slice.comparator_axioms conjunct1 [OF empty], of "[7]" 0]
  show ?thesis by simp
qed

text \<open>
  The generator computes \<open>seed * 16807 mod (2^31 - 1)\<close> without dividing, and never leaves the range
  of good seeds.
\<close>

theorem Random_Next_lehmer:
  assumes "0 < seed" and "seed < 2147483647"
  shows "unat (Random_Next seed) = (unat seed * 16807) mod 2147483647
    \<and> 0 < Random_Next seed \<and> Random_Next seed < 2147483647"
  using Random_Next_mod [OF assms] by simp

lemma Random_Next_lehmer_witness: "unat (Random_Next 127773) = (127773 * 16807) mod 2147483647"
  using Random_Next_lehmer [of 127773] by simp

end
