(* ===== verification/Logging.thy ===== *)
theory Logging
  imports Status
begin

text \<open>
  Printing and parsing of numbers and escaped strings (\<^verbatim>\<open>util/logging.cc\<close>).  The parser of decimal
  numbers is shown to read back every number the printer writes, and to reject the digit strings whose
  value does not fit 64 bits.
\<close>

definition AppendNumberTo :: "bytes \<Rightarrow> u64 \<Rightarrow> bytes" where
  "AppendNumberTo s num = s @ decimal (unat num)"

text \<open>The lower-case hexadecimal digit of a nibble, and the \<^verbatim>\<open>\x%02x\<close> escape.\<close>

definition hex_digit :: "nat \<Rightarrow> byte" where
  "hex_digit d = (if d < 10 then 48 + of_nat d else 87 + of_nat d)"

definition escape_char :: "byte \<Rightarrow> bytes" where
  "escape_char c =
     (if 32 \<le> c \<and> c \<le> 126 then [c]
      else [92, 120, hex_digit (unat c div 16), hex_digit (unat c mod 16)])"

fun AppendEscapedStringTo :: "bytes \<Rightarrow> Slice \<Rightarrow> bytes" where
  "AppendEscapedStringTo s [] = s"
| "AppendEscapedStringTo s (c # value) = AppendEscapedStringTo (s @ escape_char c) value"

definition NumberToString :: "u64 \<Rightarrow> bytes" where
  "NumberToString num = AppendNumberTo [] num"

definition EscapeString :: "Slice \<Rightarrow> bytes" where
  "EscapeString value = AppendEscapedStringTo [] value"

text \<open>
  \<^verbatim>\<open>ConsumeDecimalNumber\<close>: the result is the returned flag, the input after the digits consumed, and the
  stored value (the old one where the code returns before it stores).
\<close>

fun ConsumeDecimalNumber_loop :: "Slice \<Rightarrow> u64 \<Rightarrow> nat \<Rightarrow> u64 \<Rightarrow> bool \<times> Slice \<times> u64" where
  "ConsumeDecimalNumber_loop [] v digits val = (digits > 0, [], v)"
| "ConsumeDecimalNumber_loop (c # inp) v digits val =
     (if 48 \<le> c \<and> c \<le> 57 then
        let delta = unat c - 48; kMaxUint64 = (- 1 :: u64) in
        if v > kMaxUint64 div 10 \<or> (v = kMaxUint64 div 10 \<and> of_nat delta > kMaxUint64 mod 10)
        then (False, c # inp, val)
        else ConsumeDecimalNumber_loop inp (v * 10 + of_nat delta) (digits + 1) val
      else (digits > 0, c # inp, v))"

definition ConsumeDecimalNumber :: "Slice \<Rightarrow> u64 \<Rightarrow> bool \<times> Slice \<times> u64" where
  "ConsumeDecimalNumber inp val = ConsumeDecimalNumber_loop inp 0 0 val"

subsection \<open>Decimal round trip\<close>

definition is_digit :: "byte \<Rightarrow> bool" where
  "is_digit c \<longleftrightarrow> 48 \<le> c \<and> c \<le> 57"

definition digits_value :: "nat \<Rightarrow> bytes \<Rightarrow> nat" where
  "digits_value v ds = foldl (\<lambda>v c. v * 10 + (unat c - 48)) v ds"

lemma digits_value_Nil [simp]: "digits_value v [] = v"
  by (simp add: digits_value_def)

lemma digits_value_Cons [simp]: "digits_value v (c # ds) = digits_value (v * 10 + (unat c - 48)) ds"
  by (simp add: digits_value_def)

lemma digits_value_append [simp]: "digits_value v (a @ b) = digits_value (digits_value v a) b"
  by (simp add: digits_value_def)

lemma digits_value_mono: "v \<le> digits_value v ds"
proof (induction ds arbitrary: v)
  case Nil
  then show ?case by simp
next
  case (Cons c ds)
  have "v \<le> v * 10 + (unat c - 48)" by simp
  also have "\<dots> \<le> digits_value (v * 10 + (unat c - 48)) ds" by (rule Cons.IH)
  finally show ?case by simp
qed

lemma digit_byte:
  assumes "d < 10"
  shows "is_digit (48 + of_nat d)" and "unat (48 + of_nat d :: byte) = 48 + d"
proof -
  show u: "unat (48 + of_nat d :: byte) = 48 + d"
    using assms by (simp add: unat_word_ariths unat_of_nat)
  show "is_digit (48 + of_nat d)"
    unfolding is_digit_def word_le_nat_alt u using assms by simp
qed

lemma decimal_digits: "\<forall>c \<in> set (decimal n). is_digit c"
proof (induction n rule: decimal.induct)
  case (1 n)
  then show ?case
    by (cases "n < 10") (auto simp: decimal.simps [of n] digit_byte)
qed

lemma decimal_nonempty [simp]: "decimal n \<noteq> []"
  by (subst decimal.simps) simp

lemma digits_value_decimal: "digits_value 0 (decimal n) = n"
proof (induction n rule: decimal.induct)
  case (1 n)
  then show ?case
    by (cases "n < 10") (auto simp: decimal.simps [of n] digit_byte)
qed

text \<open>The overflow guard of the loop is exact: it fires iff the next value does not fit 64 bits.\<close>

lemma max_u64_div: "(- 1 :: u64) div 10 = 1844674407370955161" "(- 1 :: u64) mod 10 = 5"
  by code_simp+

lemma consume_overflow_iff:
  assumes "d < 10"
  shows "(v > (- 1 :: u64) div 10 \<or> (v = (- 1) div 10 \<and> (of_nat d :: u64) > (- 1) mod 10))
    \<longleftrightarrow> 2 ^ 64 \<le> unat v * 10 + d"
proof -
  have d: "unat (of_nat d :: u64) = d" using assms by (simp add: unat_of_nat)
  show ?thesis
    unfolding max_u64_div word_less_nat_alt d word_unat_eq_iff
    using assms by auto
qed

lemma ConsumeDecimalNumber_loop_digits:
  assumes "\<forall>c \<in> set ds. is_digit c" and "digits_value (unat v) ds < 2 ^ 64"
  shows "ConsumeDecimalNumber_loop (ds @ rest) v n val =
    ConsumeDecimalNumber_loop rest (of_nat (digits_value (unat v) ds)) (n + length ds) val"
  using assms
proof (induction ds arbitrary: v n)
  case Nil
  then show ?case by simp
next
  case (Cons c ds)
  let ?d = "unat c - 48"
  have c: "48 \<le> c" "c \<le> 57" and d: "?d < 10"
    using Cons.prems(1) by (auto simp: is_digit_def word_le_nat_alt)
  have lt: "unat v * 10 + ?d < 2 ^ 64"
    using Cons.prems(2) digits_value_mono [of "unat v * 10 + ?d" ds] by simp
  then have u: "unat (v * 10 + of_nat ?d) = unat v * 10 + ?d"
    using d by (simp add: unat_word_ariths unat_of_nat)
  from lt consume_overflow_iff [OF d, of v] have
    "\<not> (v > (- 1 :: u64) div 10 \<or> (v = (- 1) div 10 \<and> (of_nat ?d :: u64) > (- 1) mod 10))" by simp
  then have "ConsumeDecimalNumber_loop ((c # ds) @ rest) v n val =
      ConsumeDecimalNumber_loop (ds @ rest) (v * 10 + of_nat ?d) (n + 1) val"
    using c by (auto simp: Let_def)
  with Cons.IH [of "v * 10 + of_nat ?d" "n + 1"] Cons.prems u show ?case by simp
qed

lemma ConsumeDecimalNumber_loop_overflow:
  assumes "\<forall>c \<in> set ds. is_digit c" and "2 ^ 64 \<le> digits_value (unat v) ds"
  shows "fst (ConsumeDecimalNumber_loop (ds @ rest) v n val) = False"
  using assms
proof (induction ds arbitrary: v n)
  case Nil
  then show ?case using unsigned_less [of v, where 'a = nat] by simp
next
  case (Cons c ds)
  let ?d = "unat c - 48"
  have c: "48 \<le> c" "c \<le> 57" and d: "?d < 10"
    using Cons.prems(1) by (auto simp: is_digit_def word_le_nat_alt)
  show ?case
  proof (cases "2 ^ 64 \<le> unat v * 10 + ?d")
    case True
    then show ?thesis using c consume_overflow_iff [OF d, of v] by (simp add: Let_def)
  next
    case False
    then have "unat (v * 10 + of_nat ?d) = unat v * 10 + ?d"
      using d by (simp add: unat_word_ariths unat_of_nat)
    with Cons.IH [of "v * 10 + of_nat ?d" "n + 1"] Cons.prems False c
    show ?thesis using consume_overflow_iff [OF d, of v] by (simp add: Let_def)
  qed
qed

lemma ConsumeDecimalNumber_stop:
  "rest = [] \<or> \<not> is_digit (hd rest) \<Longrightarrow> ConsumeDecimalNumber_loop rest v n val = (n > 0, rest, v)"
  by (cases rest) (auto simp: is_digit_def)

lemma ConsumeDecimalNumber_decimal:
  assumes "rest = [] \<or> \<not> is_digit (hd rest)"
  shows "ConsumeDecimalNumber (NumberToString n @ rest) val = (True, rest, n)"
proof -
  have "digits_value (unat (0 :: u64)) (decimal (unat n)) < 2 ^ 64"
    using unsigned_less [of n, where 'a = nat] by (simp add: digits_value_decimal)
  then show ?thesis
    using assms
    by (simp add: ConsumeDecimalNumber_def NumberToString_def AppendNumberTo_def decimal_digits
        ConsumeDecimalNumber_loop_digits digits_value_decimal ConsumeDecimalNumber_stop)
qed

end
