(* ===== verification/Bloom.thy ===== *)
theory Bloom
  imports Status
begin

text \<open>
  The hash function of \<^verbatim>\<open>util/hash.cc\<close>, the filter-policy interface of
  \<^verbatim>\<open>include/leveldb/filter_policy.h\<close> as a record of its methods, and the Bloom filter policy of
  \<^verbatim>\<open>util/bloom.cc\<close>.  The contract of a filter policy, the locale \<open>filter_policy\<close>, is that a filter never
  denies a key it was built from; the Bloom policy is shown to satisfy it for every number of bits per
  key and whatever the destination string already holds.
\<close>

subsection \<open>Hash\<close>

function Hash_loop :: "u32 \<Rightarrow> bytes \<Rightarrow> u32 \<times> bytes" where
  "Hash_loop h data =
     (if 4 \<le> length data then
        let m = 0xc6a4a793;
            w = DecodeFixed32 data;
            h = h + w;
            h = h * m;
            h = h XOR drop_bit 16 h
        in Hash_loop h (drop 4 data)
      else (h, data))"
  by pat_completeness auto
termination
  by (relation "measure (\<lambda>(h, d). length d)") auto

declare Hash_loop.simps [simp del]

definition Hash :: "bytes \<Rightarrow> u32 \<Rightarrow> u32" where
  "Hash data seed =
     (let m = 0xc6a4a793; r = 24;
          h = seed XOR (of_nat (length data) * m);
          (h, data) = Hash_loop h data;
          h = (if length data = 3 then h + push_bit 16 (ucast (data ! 2)) else h);
          h = (if length data \<in> {2, 3} then h + push_bit 8 (ucast (data ! 1)) else h)
      in if length data \<in> {1, 2, 3} then
           let h = (h + ucast (data ! 0)) * m in h XOR drop_bit r h
         else h)"

subsection \<open>Filter policies\<close>

record FilterPolicy =
  FilterPolicy_Name :: bytes
  CreateFilter :: "Slice list \<Rightarrow> bytes \<Rightarrow> bytes"
  KeyMayMatch :: "Slice \<Rightarrow> Slice \<Rightarrow> bool"

locale filter_policy =
  fixes P :: FilterPolicy
  assumes create_appends: "take (length dst) (CreateFilter P keys dst) = dst"
    and no_false_negative:
      "key \<in> set keys \<Longrightarrow> KeyMayMatch P key (drop (length dst) (CreateFilter P keys dst))"
begin

lemma create_prefix: "\<exists>filter. CreateFilter P keys dst = dst @ filter"
  by (metis create_appends append_take_drop_id)

lemma may_match_created: "key \<in> set keys \<Longrightarrow> KeyMayMatch P key (CreateFilter P keys [])"
  using no_false_negative [of key keys "[]"] by simp

end

subsection \<open>The Bloom filter\<close>

definition BloomHash :: "Slice \<Rightarrow> u32" where
  "BloomHash key = Hash key 0xbc9f1d34"

record Bloom =
  bf_bits_per_key :: nat
  bf_k :: nat

text \<open>
  \<^verbatim>\<open>bits_per_key * 0.69\<close> rounded down: exact for every argument below 44, where \<open>69 * b / 100\<close> is never
  within rounding of an integer, and clamped to 30 from 44 on.
\<close>

definition BloomFilter_make :: "nat \<Rightarrow> Bloom" where
  "BloomFilter_make bits_per_key =
     (let k = bits_per_key * 69 div 100;
          k = (if k < 1 then 1 else k);
          k = (if k > 30 then 30 else k)
      in \<lparr>bf_bits_per_key = bits_per_key, bf_k = k\<rparr>)"

definition bloom_delta :: "u32 \<Rightarrow> u32" where
  "bloom_delta h = drop_bit 17 h OR push_bit 15 h"

primrec CreateFilter_probes :: "nat \<Rightarrow> u32 \<Rightarrow> u32 \<Rightarrow> nat \<Rightarrow> bytes \<Rightarrow> bytes" where
  "CreateFilter_probes 0 h delta bits array = array"
| "CreateFilter_probes (Suc j) h delta bits array =
     (let bitpos = unat h mod bits in
      CreateFilter_probes j (h + delta) delta bits
        (array[bitpos div 8 := array ! (bitpos div 8) OR push_bit (bitpos mod 8) 1]))"

primrec CreateFilter_keys :: "Slice list \<Rightarrow> nat \<Rightarrow> nat \<Rightarrow> bytes \<Rightarrow> bytes" where
  "CreateFilter_keys [] k bits array = array"
| "CreateFilter_keys (key # keys) k bits array =
     (let h = BloomHash key; delta = bloom_delta h in
      CreateFilter_keys keys k bits (CreateFilter_probes k h delta bits array))"

definition Bloom_CreateFilter :: "Bloom \<Rightarrow> Slice list \<Rightarrow> bytes \<Rightarrow> bytes" where
  "Bloom_CreateFilter self keys dst =
     (let n = length keys;
          bits = n * bf_bits_per_key self;
          bits = (if bits < 64 then 64 else bits);
          bytes = (bits + 7) div 8;
          bits = bytes * 8;
          array = replicate bytes 0 @ [of_nat (bf_k self)]
      in dst @ CreateFilter_keys keys (bf_k self) bits array)"

primrec KeyMayMatch_probes :: "nat \<Rightarrow> u32 \<Rightarrow> u32 \<Rightarrow> nat \<Rightarrow> bytes \<Rightarrow> bool" where
  "KeyMayMatch_probes 0 h delta bits array = True"
| "KeyMayMatch_probes (Suc j) h delta bits array =
     (let bitpos = unat h mod bits in
      if array ! (bitpos div 8) AND push_bit (bitpos mod 8) 1 = 0 then False
      else KeyMayMatch_probes j (h + delta) delta bits array)"

text \<open>The probe count is read from the last byte as a signed \<^verbatim>\<open>char\<close> widened to \<^verbatim>\<open>size_t\<close>.\<close>

definition Bloom_KeyMayMatch :: "Slice \<Rightarrow> Slice \<Rightarrow> bool" where
  "Bloom_KeyMayMatch key bloom_filter =
     (let len = length bloom_filter in
      if len < 2 then False
      else let array = bloom_filter;
               bits = (len - 1) * 8;
               k = unat (scast (array ! (len - 1)) :: u64)
           in if k > 30 then True
              else let h = BloomHash key; delta = bloom_delta h
                   in KeyMayMatch_probes k h delta bits array)"

definition BloomFilterPolicy :: "nat \<Rightarrow> FilterPolicy" where
  "BloomFilterPolicy bits_per_key =
     \<lparr>FilterPolicy_Name = str ''leveldb.BuiltinBloomFilter2'',
      CreateFilter = Bloom_CreateFilter (BloomFilter_make bits_per_key),
      KeyMayMatch = Bloom_KeyMayMatch\<rparr>"

subsection \<open>No false negatives\<close>

text \<open>Both loops visit the same positions; creating sets the bit, matching tests it.\<close>

primrec probe_positions :: "nat \<Rightarrow> u32 \<Rightarrow> u32 \<Rightarrow> nat \<Rightarrow> nat list" where
  "probe_positions 0 h delta bits = []"
| "probe_positions (Suc j) h delta bits = unat h mod bits # probe_positions j (h + delta) delta bits"

definition bit_set :: "bytes \<Rightarrow> nat \<Rightarrow> bool" where
  "bit_set array p \<longleftrightarrow> bit (array ! (p div 8)) (p mod 8)"

definition put_bit :: "nat \<Rightarrow> bytes \<Rightarrow> bytes" where
  "put_bit p array = array[p div 8 := array ! (p div 8) OR push_bit (p mod 8) 1]"

lemma CreateFilter_probes_fold:
  "CreateFilter_probes j h delta bits array = fold put_bit (probe_positions j h delta bits) array"
  by (induction j arbitrary: h array) (simp_all add: put_bit_def Let_def)

lemma KeyMayMatch_probes_all:
  "KeyMayMatch_probes j h delta bits array \<longleftrightarrow> (\<forall>p \<in> set (probe_positions j h delta bits). bit_set array p)"
proof (induction j arbitrary: h)
  case (Suc j)
  have "b AND push_bit i 1 = 0 \<longleftrightarrow> \<not> bit b i" for b :: byte and i
    using and_exp_eq_0_iff_not_bit [of b i] by (simp add: push_bit_of_1)
  with Suc show ?case by (simp add: bit_set_def Let_def)
qed simp

lemma length_put_bit [simp]: "length (put_bit p array) = length array"
  by (simp add: put_bit_def)

lemma length_fold_put_bit [simp]: "length (fold put_bit ps array) = length array"
  by (induction ps arbitrary: array) simp_all

lemma bit_set_put_bit_mono: "bit_set array q \<Longrightarrow> q div 8 < length array \<Longrightarrow> bit_set (put_bit p array) q"
  by (cases "q div 8 = p div 8") (auto simp: bit_set_def put_bit_def bit_simps)

lemma bit_set_put_bit_same: "p div 8 < length array \<Longrightarrow> bit_set (put_bit p array) p"
  by (simp add: bit_set_def put_bit_def bit_simps)

lemma bit_set_fold_mono:
  "bit_set array q \<Longrightarrow> q div 8 < length array \<Longrightarrow> bit_set (fold put_bit ps array) q"
  by (induction ps arbitrary: array) (simp_all add: bit_set_put_bit_mono)

lemma bit_set_fold:
  "q \<in> set ps \<Longrightarrow> q div 8 < length array \<Longrightarrow> bit_set (fold put_bit ps array) q"
  by (induction ps arbitrary: array) (auto simp: bit_set_put_bit_same bit_set_fold_mono)

lemma probe_positions_bound: "0 < bits \<Longrightarrow> \<forall>p \<in> set (probe_positions j h delta bits). p < bits"
  by (induction j arbitrary: h) auto

definition key_positions :: "nat \<Rightarrow> nat \<Rightarrow> Slice \<Rightarrow> nat list" where
  "key_positions k bits key =
     probe_positions k (BloomHash key) (bloom_delta (BloomHash key)) bits"

lemma CreateFilter_keys_fold:
  "CreateFilter_keys keys k bits array = fold put_bit (concat (map (key_positions k bits) keys)) array"
  by (induction keys arbitrary: array)
    (simp_all add: Let_def CreateFilter_probes_fold key_positions_def)

lemma fold_put_bit_beyond:
  "\<forall>p \<in> set ps. p div 8 < n \<Longrightarrow> n \<le> i \<Longrightarrow> fold put_bit ps array ! i = array ! i"
  by (induction ps arbitrary: array) (auto simp: put_bit_def)

lemma BloomFilter_make_k: "1 \<le> bf_k (BloomFilter_make b) \<and> bf_k (BloomFilter_make b) \<le> 30"
  by (simp add: BloomFilter_make_def Let_def)

lemma scast_small_byte: "k \<le> 30 \<Longrightarrow> unat (scast (of_nat k :: byte) :: u64) = k"
proof -
  assume k: "k \<le> 30"
  then have "\<forall>j \<in> set [0..<31]. unat (scast (of_nat j :: byte) :: u64) = j" by code_simp
  with k show ?thesis by auto
qed

lemma Bloom_no_false_negative:
  assumes "key \<in> set keys"
  shows "Bloom_KeyMayMatch key (Bloom_CreateFilter (BloomFilter_make b) keys [])"
proof -
  let ?self = "BloomFilter_make b"
  let ?k = "bf_k ?self"
  let ?n = "length keys * bf_bits_per_key ?self"
  define nb where "nb = ((if ?n < 64 then 64 else ?n) + 7) div 8"
  let ?bits = "nb * 8"
  let ?ps = "concat (map (key_positions ?k ?bits) keys)"
  let ?a = "fold put_bit ?ps (replicate nb 0 @ [of_nat ?k])"
  have "64 div 8 \<le> nb" unfolding nb_def by (rule div_le_mono) simp
  then have nb: "8 \<le> nb" by simp
  have f: "Bloom_CreateFilter ?self keys [] = ?a"
    by (simp add: Bloom_CreateFilter_def Let_def CreateFilter_keys_fold nb_def)
  have bound: "\<forall>p \<in> set ?ps. p div 8 < nb"
    using nb probe_positions_bound [of ?bits] by (auto simp: key_positions_def less_mult_imp_div_less)
  have last: "?a ! nb = of_nat ?k"
    using fold_put_bit_beyond [OF bound, of nb] by (simp add: nth_append)
  have "\<forall>p \<in> set (key_positions ?k ?bits key). bit_set ?a p"
  proof
    fix p assume "p \<in> set (key_positions ?k ?bits key)"
    with assms have p: "p \<in> set ?ps" by auto
    moreover have "p div 8 < length (replicate nb 0 @ [of_nat ?k :: byte])"
      using bspec [OF bound p] by simp
    ultimately show "bit_set ?a p" by (rule bit_set_fold)
  qed
  then have "KeyMayMatch_probes ?k (BloomHash key) (bloom_delta (BloomHash key)) ?bits ?a"
    by (simp add: KeyMayMatch_probes_all key_positions_def)
  then show ?thesis
    using nb last BloomFilter_make_k [of b]
    by (simp add: f Bloom_KeyMayMatch_def Let_def scast_small_byte)
qed

interpretation bloom: filter_policy "BloomFilterPolicy b" for b
proof unfold_locales
  fix dst keys and key :: Slice
  have *: "Bloom_CreateFilter self keys dst = dst @ Bloom_CreateFilter self keys []" for self
    by (simp add: Bloom_CreateFilter_def Let_def)
  show "take (length dst) (CreateFilter (BloomFilterPolicy b) keys dst) = dst"
    by (simp add: BloomFilterPolicy_def * [of "BloomFilter_make b"])
  show "KeyMayMatch (BloomFilterPolicy b) key
      (drop (length dst) (CreateFilter (BloomFilterPolicy b) keys dst))" if "key \<in> set keys"
    using Bloom_no_false_negative [OF that, of b]
    by (simp add: BloomFilterPolicy_def * [of "BloomFilter_make b"])
qed

end
