(* ===== verification/Dbformat.thy ===== *)
theory Dbformat
  imports Comparator Logging Bloom
begin

text \<open>
  Internal keys (\<^verbatim>\<open>db/dbformat.h\<close>, \<^verbatim>\<open>db/dbformat.cc\<close>): a user key followed by eight bytes that pack a
  sequence number and a value type; their comparator (increasing user key, decreasing sequence number),
  the filter policy on them, and the lookup key.  For every user comparator that satisfies
  \<open>key_comparator\<close> the internal comparator satisfies the same interface.
\<close>

subsection \<open>Configuration and value types\<close>

definition kNumLevels :: nat where "kNumLevels = 7"
definition kL0_CompactionTrigger :: nat where "kL0_CompactionTrigger = 4"
definition kL0_SlowdownWritesTrigger :: nat where "kL0_SlowdownWritesTrigger = 8"
definition kL0_StopWritesTrigger :: nat where "kL0_StopWritesTrigger = 12"
definition kMaxMemCompactLevel :: nat where "kMaxMemCompactLevel = 2"
definition kReadBytesPeriod :: nat where "kReadBytesPeriod = 1048576"

datatype ValueType = kTypeDeletion | kTypeValue

primrec ValueType_num :: "ValueType \<Rightarrow> byte" where
  "ValueType_num kTypeDeletion = 0x0"
| "ValueType_num kTypeValue = 0x1"

definition kValueTypeForSeek :: ValueType where
  "kValueTypeForSeek = kTypeValue"

type_synonym SequenceNumber = u64

definition kMaxSequenceNumber :: SequenceNumber where
  "kMaxSequenceNumber = push_bit 56 1 - 1"

record ParsedInternalKey =
  pik_user_key :: Slice
  pik_sequence :: SequenceNumber
  pik_type :: ValueType

definition InternalKeyEncodingLength :: "ParsedInternalKey \<Rightarrow> nat" where
  "InternalKeyEncodingLength key = length (pik_user_key key) + 8"

definition PackSequenceAndType :: "u64 \<Rightarrow> ValueType \<Rightarrow> u64" where
  "PackSequenceAndType seq t = push_bit 8 seq OR ucast (ValueType_num t)"

definition AppendInternalKey :: "bytes \<Rightarrow> ParsedInternalKey \<Rightarrow> bytes" where
  "AppendInternalKey result key =
     PutFixed64 (result @ pik_user_key key) (PackSequenceAndType (pik_sequence key) (pik_type key))"

definition ExtractUserKey :: "Slice \<Rightarrow> Slice" where
  "ExtractUserKey internal_key = take (length internal_key - 8) internal_key"

text \<open>The number packed in the last eight bytes.\<close>

definition ExtractTag :: "Slice \<Rightarrow> u64" where
  "ExtractTag internal_key = DecodeFixed64 (drop (length internal_key - 8) internal_key)"

definition ExtractValueType :: "Slice \<Rightarrow> byte" where
  "ExtractValueType internal_key =
     (let n = length internal_key;
          num = DecodeFixed64 (drop (n - 8) internal_key)
      in ucast (num AND 0xff))"

definition ValueType_of_byte :: "byte \<Rightarrow> ValueType option" where
  "ValueType_of_byte c =
     (if c = ValueType_num kTypeDeletion then Some kTypeDeletion
      else if c = ValueType_num kTypeValue then Some kTypeValue else None)"

text \<open>\<open>None\<close> where the code returns \<^verbatim>\<open>false\<close>: the key is too short, or its type byte exceeds \<open>kTypeValue\<close>.\<close>

definition ParseInternalKey :: "Slice \<Rightarrow> ParsedInternalKey option" where
  "ParseInternalKey internal_key =
     (let n = length internal_key in
      if n < 8 then None
      else let num = DecodeFixed64 (drop (n - 8) internal_key);
               c = ucast (num AND 0xff)
           in case ValueType_of_byte c of
                None \<Rightarrow> None
              | Some t \<Rightarrow> Some \<lparr>pik_user_key = take (n - 8) internal_key,
                               pik_sequence = drop_bit 8 num, pik_type = t\<rparr>)"

definition ParsedInternalKey_DebugString :: "ParsedInternalKey \<Rightarrow> bytes" where
  "ParsedInternalKey_DebugString k =
     [39] @ EscapeString (pik_user_key k) @ [39] @ str '' @ '' @ decimal (unat (pik_sequence k))
     @ str '' : '' @ decimal (unat (ValueType_num (pik_type k)))"

subsection \<open>InternalKey\<close>

type_synonym InternalKey = bytes

definition InternalKey_make :: "Slice \<Rightarrow> SequenceNumber \<Rightarrow> ValueType \<Rightarrow> InternalKey" where
  "InternalKey_make user_key s t =
     AppendInternalKey [] \<lparr>pik_user_key = user_key, pik_sequence = s, pik_type = t\<rparr>"

definition InternalKey_SetFrom :: "ParsedInternalKey \<Rightarrow> InternalKey" where
  "InternalKey_SetFrom p = AppendInternalKey [] p"

definition InternalKey_DebugString :: "InternalKey \<Rightarrow> bytes" where
  "InternalKey_DebugString rep =
     (case ParseInternalKey rep of
        Some parsed \<Rightarrow> ParsedInternalKey_DebugString parsed
      | None \<Rightarrow> str ''(bad)'' @ EscapeString rep)"

subsection \<open>The internal key comparator\<close>

definition InternalKey_Compare :: "Comparator \<Rightarrow> Slice \<Rightarrow> Slice \<Rightarrow> int" where
  "InternalKey_Compare user akey bkey =
     (let r = Compare user (ExtractUserKey akey) (ExtractUserKey bkey) in
      if r = 0 then
        let anum = DecodeFixed64 (drop (length akey - 8) akey);
            bnum = DecodeFixed64 (drop (length bkey - 8) bkey)
        in if anum > bnum then -1 else if anum < bnum then 1 else r
      else r)"

definition InternalKey_FindShortestSeparator :: "Comparator \<Rightarrow> bytes \<Rightarrow> Slice \<Rightarrow> bytes" where
  "InternalKey_FindShortestSeparator user start limit =
     (let user_start = ExtractUserKey start;
          user_limit = ExtractUserKey limit;
          tmp = FindShortestSeparator user user_start user_limit
      in if length tmp < length user_start \<and> Compare user user_start tmp < 0
         then PutFixed64 tmp (PackSequenceAndType kMaxSequenceNumber kValueTypeForSeek)
         else start)"

definition InternalKey_FindShortSuccessor :: "Comparator \<Rightarrow> bytes \<Rightarrow> bytes" where
  "InternalKey_FindShortSuccessor user key =
     (let user_key = ExtractUserKey key;
          tmp = FindShortSuccessor user user_key
      in if length tmp < length user_key \<and> Compare user user_key tmp < 0
         then PutFixed64 tmp (PackSequenceAndType kMaxSequenceNumber kValueTypeForSeek)
         else key)"

definition InternalKeyComparator :: "Comparator \<Rightarrow> Comparator" where
  "InternalKeyComparator user =
     \<lparr>Comparator_Name = str ''leveldb.InternalKeyComparator'',
      Compare = InternalKey_Compare user,
      FindShortestSeparator = InternalKey_FindShortestSeparator user,
      FindShortSuccessor = InternalKey_FindShortSuccessor user\<rparr>"

subsection \<open>The internal filter policy\<close>

definition InternalFilterPolicy :: "FilterPolicy \<Rightarrow> FilterPolicy" where
  "InternalFilterPolicy user_policy =
     \<lparr>FilterPolicy_Name = FilterPolicy_Name user_policy,
      CreateFilter = (\<lambda>keys dst. CreateFilter user_policy (map ExtractUserKey keys) dst),
      KeyMayMatch = (\<lambda>key f. KeyMayMatch user_policy (ExtractUserKey key) f)\<rparr>"

subsection \<open>LookupKey\<close>

text \<open>The array from \<^verbatim>\<open>start_\<close> to \<^verbatim>\<open>end_\<close>, and the offset of \<^verbatim>\<open>kstart_\<close> in it.\<close>

record LookupKey =
  lk_array :: bytes
  lk_kstart :: nat

definition LookupKey_make :: "Slice \<Rightarrow> SequenceNumber \<Rightarrow> LookupKey" where
  "LookupKey_make user_key s =
     (let usize = length user_key;
          klen = EncodeVarint32 (of_nat (usize + 8))
      in \<lparr>lk_array = klen @ user_key @ EncodeFixed64 (PackSequenceAndType s kValueTypeForSeek),
          lk_kstart = length klen\<rparr>)"

definition LookupKey_memtable_key :: "LookupKey \<Rightarrow> Slice" where
  "LookupKey_memtable_key k = lk_array k"

definition LookupKey_internal_key :: "LookupKey \<Rightarrow> Slice" where
  "LookupKey_internal_key k = drop (lk_kstart k) (lk_array k)"

definition LookupKey_user_key :: "LookupKey \<Rightarrow> Slice" where
  "LookupKey_user_key k = take (length (lk_array k) - lk_kstart k - 8) (drop (lk_kstart k) (lk_array k))"

subsection \<open>Packing and parsing\<close>

lemma unat_kMaxSequenceNumber: "unat kMaxSequenceNumber = 2 ^ 56 - 1"
  unfolding kMaxSequenceNumber_def by simp

lemma bit_sequence_high:
  assumes "seq \<le> kMaxSequenceNumber" and "56 \<le> k"
  shows "\<not> bit seq k"
proof -
  have "unat seq < 2 ^ 56"
    using assms(1) by (simp add: word_le_nat_alt unat_kMaxSequenceNumber)
  also have "(2 :: nat) ^ 56 \<le> 2 ^ k" using assms(2) by (rule power_increasing) simp
  finally have "unat seq div 2 ^ k = 0" by simp
  then have "\<not> bit (unat seq) k" by (simp add: bit_iff_odd)
  then show ?thesis by (simp add: bit_unsigned_iff)
qed

lemma PackSequenceAndType_seq:
  assumes "seq \<le> kMaxSequenceNumber"
  shows "drop_bit 8 (PackSequenceAndType seq t) = seq"
proof (rule bit_word_eqI)
  fix k assume "k < LENGTH(64)"
  moreover have "bit (ValueType_num t) (8 + k) = False"
    using bit_imp_le_length [of "ValueType_num t" "8 + k"] by auto
  ultimately show "bit (drop_bit 8 (PackSequenceAndType seq t)) k = bit seq k"
    using bit_sequence_high [OF assms, of k]
    by (cases "k < 56") (auto simp: PackSequenceAndType_def bit_simps)
qed

lemma PackSequenceAndType_type: "ucast (PackSequenceAndType seq t AND 0xff) = ValueType_num t"
proof -
  have ff: "(0xff :: u64) = mask 8" by (simp add: mask_eq_exp_minus_1)
  show ?thesis
    unfolding PackSequenceAndType_def ff by (rule bit_word_eqI) (auto simp: bit_simps)
qed

lemma ValueType_of_byte_num [simp]: "ValueType_of_byte (ValueType_num t) = Some t"
  by (cases t) (simp_all add: ValueType_of_byte_def)

lemma ExtractUserKey_append [simp]: "length t = 8 \<Longrightarrow> ExtractUserKey (u @ t) = u"
  by (simp add: ExtractUserKey_def)

lemma AppendInternalKey_eq:
  "AppendInternalKey r k =
     r @ pik_user_key k @ EncodeFixed64 (PackSequenceAndType (pik_sequence k) (pik_type k))"
  by (simp add: AppendInternalKey_def PutFixed64_def)

lemma ParseInternalKey_tag:
  "ParseInternalKey (u @ EncodeFixed64 tag) =
     (case ValueType_of_byte (ucast (tag AND 0xff)) of None \<Rightarrow> None
      | Some t \<Rightarrow> Some \<lparr>pik_user_key = u, pik_sequence = drop_bit 8 tag, pik_type = t\<rparr>)"
  using DecodeFixed64_Encode [of tag "[]"]
  by (simp add: ParseInternalKey_def Let_def split: option.split)

lemma ParseInternalKey_Append:
  assumes "pik_sequence k \<le> kMaxSequenceNumber"
  shows "ParseInternalKey (AppendInternalKey [] k) = Some k"
  using assms
  by (simp add: AppendInternalKey_eq ParseInternalKey_tag PackSequenceAndType_type
      PackSequenceAndType_seq)

lemma ParseInternalKey_short: "length k < 8 \<Longrightarrow> ParseInternalKey k = None"
  by (simp add: ParseInternalKey_def)

text \<open>Parsing inverts appending: whatever parses was written by \<^verbatim>\<open>AppendInternalKey\<close>.\<close>

lemma Pack_of_tag:
  assumes "ValueType_of_byte (ucast (tag AND 0xff)) = Some t"
  shows "PackSequenceAndType (drop_bit 8 tag) t = tag"
proof -
  have ff: "(0xff :: u64) = mask 8" by (simp add: mask_eq_exp_minus_1)
  have "ValueType_num t = ucast (tag AND 0xff)"
    using assms by (auto simp: ValueType_of_byte_def split: if_splits)
  then show ?thesis
    unfolding PackSequenceAndType_def ff
    by (intro bit_word_eqI, rename_tac n, case_tac "n < 8") (auto simp: bit_simps)
qed

lemma ParseInternalKey_Some:
  assumes "ParseInternalKey k = Some p"
  shows "AppendInternalKey [] p = k"
proof -
  have n: "8 \<le> length k" using assms by (auto simp: ParseInternalKey_def Let_def split: if_splits)
  define u tag where "u = take (length k - 8) k" and "tag = DecodeFixed64 (drop (length k - 8) k)"
  have k: "k = u @ EncodeFixed64 tag"
    using n by (simp add: u_def tag_def EncodeFixed64_Decode)
  from assms show ?thesis
    unfolding k ParseInternalKey_tag
    by (auto simp: AppendInternalKey_eq Pack_of_tag split: option.splits)
qed

lemma DecodeFixed64_EncodeFixed64 [simp]: "DecodeFixed64 (EncodeFixed64 v) = v"
  using DecodeFixed64_Encode [of v "[]"] by simp

lemma ExtractValueType_Append: "ExtractValueType (AppendInternalKey [] k) = ValueType_num (pik_type k)"
  by (simp add: AppendInternalKey_eq ExtractValueType_def PackSequenceAndType_type)

lemma LookupKey_keys:
  "LookupKey_internal_key (LookupKey_make u s) = u @ EncodeFixed64 (PackSequenceAndType s kValueTypeForSeek)"
  "LookupKey_user_key (LookupKey_make u s) = u"
  by (simp_all add: LookupKey_internal_key_def LookupKey_user_key_def LookupKey_make_def Let_def)

subsection \<open>The order on internal keys\<close>

lemma InternalKey_Compare_less:
  "InternalKey_Compare C a b < 0 \<longleftrightarrow>
     Compare C (ExtractUserKey a) (ExtractUserKey b) < 0 \<or>
     Compare C (ExtractUserKey a) (ExtractUserKey b) = 0 \<and> ExtractTag b < ExtractTag a"
  by (auto simp: InternalKey_Compare_def ExtractTag_def Let_def)

lemma InternalKey_Compare_le:
  "InternalKey_Compare C a b \<le> 0 \<longleftrightarrow>
     Compare C (ExtractUserKey a) (ExtractUserKey b) < 0 \<or>
     Compare C (ExtractUserKey a) (ExtractUserKey b) = 0 \<and> ExtractTag b \<le> ExtractTag a"
  by (auto simp: InternalKey_Compare_def ExtractTag_def Let_def)

lemma InternalKey_Compare_greater:
  "0 < InternalKey_Compare C a b \<longleftrightarrow>
     0 < Compare C (ExtractUserKey a) (ExtractUserKey b) \<or>
     Compare C (ExtractUserKey a) (ExtractUserKey b) = 0 \<and> ExtractTag a < ExtractTag b"
  by (auto simp: InternalKey_Compare_def ExtractTag_def Let_def)

lemma InternalKey_Compare_zero:
  "InternalKey_Compare C a b = 0 \<longleftrightarrow>
     Compare C (ExtractUserKey a) (ExtractUserKey b) = 0 \<and> ExtractTag a = ExtractTag b"
  by (auto simp: InternalKey_Compare_def ExtractTag_def Let_def)

lemma ExtractTag_append [simp]: "ExtractTag (u @ EncodeFixed64 tag) = tag"
  by (simp add: ExtractTag_def)

lemma ExtractUserKey_PutFixed64 [simp]: "ExtractUserKey (PutFixed64 u tag) = u"
  by (simp add: PutFixed64_def)

lemma InternalKeyComparator_simps [simp]:
  "Compare (InternalKeyComparator C) = InternalKey_Compare C"
  "FindShortestSeparator (InternalKeyComparator C) = InternalKey_FindShortestSeparator C"
  "FindShortSuccessor (InternalKeyComparator C) = InternalKey_FindShortSuccessor C"
  by (simp_all add: InternalKeyComparator_def)

lemma unat_Pack:
  assumes "seq \<le> kMaxSequenceNumber"
  shows "unat (PackSequenceAndType seq t) = unat seq * 256 + unat (ValueType_num t)"
proof -
  have s: "unat seq < 2 ^ 56" using assms by (simp add: word_le_nat_alt unat_kMaxSequenceNumber)
  have "push_bit 8 seq OR ucast (ValueType_num t) = push_bit 8 seq + ucast (ValueType_num t)"
    by (rule disjunctive_add [symmetric])
      (auto simp: bit_simps dest: bit_imp_le_length)
  then have "unat (PackSequenceAndType seq t) = unat (seq * 256 + ucast (ValueType_num t) :: u64)"
    by (simp add: PackSequenceAndType_def push_bit_eq_mult mult.commute)
  also have "\<dots> = unat seq * 256 + unat (ValueType_num t)"
    using s by (cases t) (simp_all add: unat_word_ariths)
  finally show ?thesis .
qed

text \<open>A well-formed internal key.\<close>

lemma parsed_key:
  assumes "ParseInternalKey k = Some p"
  shows "ExtractUserKey k = pik_user_key p" and "ExtractTag k = PackSequenceAndType (pik_sequence p) (pik_type p)"
    and "pik_sequence p \<le> kMaxSequenceNumber"
proof -
  have k: "k = AppendInternalKey [] p" using ParseInternalKey_Some [OF assms] by simp
  then show "ExtractUserKey k = pik_user_key p" and "ExtractTag k = PackSequenceAndType (pik_sequence p) (pik_type p)"
    by (simp_all add: AppendInternalKey_eq)
  obtain tag :: u64 where "pik_sequence p = drop_bit 8 tag"
    using assms by (auto simp: ParseInternalKey_def Let_def split: if_splits option.splits)
  moreover have "unat (drop_bit 8 tag) < 2 ^ 56"
  proof -
    have "unat (drop_bit 8 tag) = unat tag div 2 ^ 8" by (simp add: drop_bit_eq_div unat_div_distrib)
    then show ?thesis using unsigned_less [of tag, where 'a = nat] by (simp add: div_less_iff_less_mult del: drop_bit_eq_div)
  qed
  ultimately show "pik_sequence p \<le> kMaxSequenceNumber" by (simp add: word_le_nat_alt unat_kMaxSequenceNumber)
qed

context key_comparator
begin

lemma ikey_swap: "InternalKey_Compare C a b < 0 \<longleftrightarrow> 0 < InternalKey_Compare C b a"
  unfolding InternalKey_Compare_less InternalKey_Compare_greater
  using Compare_swap user.cmp_zero_swap by blast

lemma ikey_le_trans:
  assumes "InternalKey_Compare C a b \<le> 0" and "InternalKey_Compare C b c \<le> 0"
  shows "InternalKey_Compare C a c \<le> 0"
proof -
  let ?u = ExtractUserKey
  consider "Compare C (?u a) (?u b) < 0" | "Compare C (?u a) (?u b) = 0" "Compare C (?u b) (?u c) < 0"
    | "Compare C (?u a) (?u b) = 0" "Compare C (?u b) (?u c) = 0" "ExtractTag c \<le> ExtractTag a"
    using assms unfolding InternalKey_Compare_le by force
  then have "Compare C (?u a) (?u c) < 0 \<or> Compare C (?u a) (?u c) = 0 \<and> ExtractTag c \<le> ExtractTag a"
  proof cases
    case 1
    then show ?thesis
      using assms(2) user.cmp_less_le_trans [of "?u a" "?u b" "?u c"] by (auto simp: InternalKey_Compare_le)
  next
    case 2
    then show ?thesis using user.cmp_zero_left by blast
  next
    case 3
    moreover have "Compare C (?u a) (?u c) = 0"
      using 3 Compare_le_trans [of "?u a" "?u b" "?u c"] user.cmp_zero_swap [of "?u b" "?u c"]
        user.cmp_zero_right [of "?u b" "?u c" "?u a"] by simp
    ultimately show ?thesis by simp
  qed
  then show ?thesis by (simp add: InternalKey_Compare_le)
qed

lemma ikey_separator_ge:
  "InternalKey_Compare C a b < 0 \<Longrightarrow> InternalKey_Compare C a (InternalKey_FindShortestSeparator C a b) \<le> 0"
  by (auto simp: InternalKey_FindShortestSeparator_def Let_def InternalKey_Compare_le)

lemma ikey_separator_less:
  assumes "InternalKey_Compare C a b < 0"
  shows "InternalKey_Compare C (InternalKey_FindShortestSeparator C a b) b < 0"
proof (cases "Compare C (ExtractUserKey a) (ExtractUserKey b) < 0")
  case True
  then show ?thesis
    using assms separator_less [OF True]
    by (auto simp: InternalKey_FindShortestSeparator_def Let_def InternalKey_Compare_less)
next
  case False
  then have "Compare C (ExtractUserKey a) (ExtractUserKey b) = 0"
    using assms by (simp add: InternalKey_Compare_less)
  then show ?thesis
    using assms separator_same by (simp add: InternalKey_FindShortestSeparator_def Let_def)
qed

lemma ikey_separator_same:
  "InternalKey_Compare C a b = 0 \<Longrightarrow> InternalKey_FindShortestSeparator C a b = a"
  using separator_same by (simp add: InternalKey_Compare_zero InternalKey_FindShortestSeparator_def Let_def)

lemma ikey_successor_ge: "InternalKey_Compare C a (InternalKey_FindShortSuccessor C a) \<le> 0"
  by (auto simp: InternalKey_FindShortSuccessor_def Let_def InternalKey_Compare_le)

lemma internal_key_comparator: "key_comparator (InternalKeyComparator C)"
  unfolding key_comparator_def InternalKeyComparator_simps
  using ikey_swap ikey_le_trans ikey_separator_ge ikey_separator_less ikey_separator_same
    ikey_successor_ge by blast

end

sublocale key_comparator \<subseteq> ikey: comparator "InternalKey_Compare C"
  by unfold_locales (rule ikey_swap, rule ikey_le_trans)

interpretation ibytewise: key_comparator "InternalKeyComparator BytewiseComparator"
  by (rule bytewise.internal_key_comparator)

subsection \<open>The filter policy on internal keys\<close>

context filter_policy
begin

lemma internal_filter_policy: "filter_policy (InternalFilterPolicy P)"
  by unfold_locales (simp_all add: InternalFilterPolicy_def create_appends no_false_negative)

lemma internal_may_match:
  assumes "k \<in> set keys" and "ExtractUserKey k' = ExtractUserKey k"
  shows "KeyMayMatch (InternalFilterPolicy P) k' (CreateFilter (InternalFilterPolicy P) keys [])"
  using assms may_match_created [of "ExtractUserKey k" "map ExtractUserKey keys"]
  by (simp add: InternalFilterPolicy_def)

end

interpretation ibloom: filter_policy "InternalFilterPolicy (BloomFilterPolicy b)" for b
  by (rule bloom.internal_filter_policy)

end
