(* ===== verification/Iterator.thy ===== *)
theory Iterator
  imports Comparator
begin

text \<open>
  Iterators: the abstract class of \<^verbatim>\<open>include/leveldb/iterator.h\<close> as a record of its methods, objects with their
  registered cleanups and the empty iterator of \<^verbatim>\<open>table/iterator.cc\<close>, and the caching wrapper of
  \<^verbatim>\<open>table/iterator_wrapper.h\<close>.  A move returns \<open>None\<close> when the code does not return.  The contract is the locale
  \<open>iterator\<close>: an iterator stands at a position of a strictly sorted list of entries, or at none, and moves
  like the reference \<open>cursor\<close> on that list.  A client that obeys the contract (\<open>Next\<close> and \<open>Prev\<close> only when valid)
  cannot tell the two apart (\<open>iterator_trace\<close>).
\<close>

subsection \<open>The class\<close>

record 's Iterator =
  it_Valid :: "'s \<Rightarrow> bool"
  it_SeekToFirst :: "'s \<Rightarrow> 's option"
  it_SeekToLast :: "'s \<Rightarrow> 's option"
  it_Seek :: "'s \<Rightarrow> Slice \<Rightarrow> 's option"
  it_Next :: "'s \<Rightarrow> 's option"
  it_Prev :: "'s \<Rightarrow> 's option"
  it_key :: "'s \<Rightarrow> Slice"
  it_value :: "'s \<Rightarrow> Slice"
  it_status :: "'s \<Rightarrow> Status"

text \<open>An object: its virtual functions, its state and its list of cleanups, of type \<open>'c\<close>.\<close>

record ('s, 'c) IterObj =
  io_ops :: "'s Iterator"
  io_state :: "'s"
  io_cleanup :: "'c list"

definition Iterator_make :: "'s Iterator \<Rightarrow> 's \<Rightarrow> ('s, 'c) IterObj" where
  "Iterator_make ops s = \<lparr>io_ops = ops, io_state = s, io_cleanup = []\<rparr>"

text \<open>The first cleanup is stored in the object, every later one is linked in right behind it.\<close>

definition RegisterCleanup :: "('s, 'c) IterObj \<Rightarrow> 'c \<Rightarrow> ('s, 'c) IterObj" where
  "RegisterCleanup ob c = ob\<lparr>io_cleanup := (case io_cleanup ob of [] \<Rightarrow> [c] | d # ds \<Rightarrow> d # c # ds)\<rparr>"

definition Iterator_delete :: "('c \<Rightarrow> 'a \<Rightarrow> 'a) \<Rightarrow> ('s, 'c) IterObj \<Rightarrow> 'a \<Rightarrow> 'a" where
  "Iterator_delete run ob a = foldl (\<lambda>a c. run c a) a (io_cleanup ob)"

definition EmptyIterator :: "Status Iterator" where
  "EmptyIterator =
     \<lparr>it_Valid = (\<lambda>_. False), it_SeekToFirst = Some, it_SeekToLast = Some, it_Seek = (\<lambda>s _. Some s),
      it_Next = Some, it_Prev = Some, it_key = (\<lambda>_. []), it_value = (\<lambda>_. []), it_status = (\<lambda>s. s)\<rparr>"

definition NewEmptyIterator :: "(Status, 'c) IterObj" where
  "NewEmptyIterator = Iterator_make EmptyIterator Status_OK"

definition NewErrorIterator :: "Status \<Rightarrow> (Status, 'c) IterObj" where
  "NewErrorIterator status = Iterator_make EmptyIterator status"

text \<open>Virtual calls on an object.\<close>

definition obj_step :: "('s Iterator \<Rightarrow> 's \<Rightarrow> 's option) \<Rightarrow> ('s, 'c) IterObj \<Rightarrow> ('s, 'c) IterObj option" where
  "obj_step f ob = map_option (\<lambda>s. ob\<lparr>io_state := s\<rparr>) (f (io_ops ob) (io_state ob))"

definition obj_Iterator :: "('s, 'c) IterObj Iterator" where
  "obj_Iterator =
     \<lparr>it_Valid = (\<lambda>ob. it_Valid (io_ops ob) (io_state ob)), it_SeekToFirst = obj_step it_SeekToFirst,
      it_SeekToLast = obj_step it_SeekToLast, it_Seek = (\<lambda>ob k. obj_step (\<lambda>I s. it_Seek I s k) ob),
      it_Next = obj_step it_Next, it_Prev = obj_step it_Prev,
      it_key = (\<lambda>ob. it_key (io_ops ob) (io_state ob)), it_value = (\<lambda>ob. it_value (io_ops ob) (io_state ob)),
      it_status = (\<lambda>ob. it_status (io_ops ob) (io_state ob))\<rparr>"

text \<open>A pointer to one of two classes: the calls go to the class the object belongs to.\<close>

definition sum_Iterator :: "'s Iterator \<Rightarrow> 't Iterator \<Rightarrow> ('s + 't) Iterator" where
  "sum_Iterator I J =
     \<lparr>it_Valid = case_sum (it_Valid I) (it_Valid J),
      it_SeekToFirst = case_sum (map_option Inl \<circ> it_SeekToFirst I) (map_option Inr \<circ> it_SeekToFirst J),
      it_SeekToLast = case_sum (map_option Inl \<circ> it_SeekToLast I) (map_option Inr \<circ> it_SeekToLast J),
      it_Seek = case_sum (\<lambda>s k. map_option Inl (it_Seek I s k)) (\<lambda>s k. map_option Inr (it_Seek J s k)),
      it_Next = case_sum (map_option Inl \<circ> it_Next I) (map_option Inr \<circ> it_Next J),
      it_Prev = case_sum (map_option Inl \<circ> it_Prev I) (map_option Inr \<circ> it_Prev J),
      it_key = case_sum (it_key I) (it_key J), it_value = case_sum (it_value I) (it_value J),
      it_status = case_sum (it_status I) (it_status J)\<rparr>"

subsection \<open>The wrapper\<close>

record ('s, 'c) IteratorWrapper =
  iw_iter :: "('s, 'c) IterObj option"
  iw_valid :: bool
  iw_key :: Slice

definition IteratorWrapper_make :: "('s, 'c) IteratorWrapper" where
  "IteratorWrapper_make = \<lparr>iw_iter = None, iw_valid = False, iw_key = []\<rparr>"

definition IteratorWrapper_Update :: "('s, 'c) IterObj \<Rightarrow> ('s, 'c) IteratorWrapper \<Rightarrow> ('s, 'c) IteratorWrapper" where
  "IteratorWrapper_Update ob w =
     (let w = w\<lparr>iw_iter := Some ob, iw_valid := it_Valid obj_Iterator ob\<rparr> in
      if iw_valid w then w\<lparr>iw_key := it_key obj_Iterator ob\<rparr> else w)"

definition IteratorWrapper_delete :: "('c \<Rightarrow> 'a \<Rightarrow> 'a) \<Rightarrow> ('s, 'c) IteratorWrapper \<Rightarrow> 'a \<Rightarrow> 'a" where
  "IteratorWrapper_delete run w a = (case iw_iter w of None \<Rightarrow> a | Some ob \<Rightarrow> Iterator_delete run ob a)"

definition IteratorWrapper_Set ::
  "('c \<Rightarrow> 'a \<Rightarrow> 'a) \<Rightarrow> ('s, 'c) IteratorWrapper \<Rightarrow> ('s, 'c) IterObj option \<Rightarrow> 'a \<Rightarrow> ('s, 'c) IteratorWrapper \<times> 'a" where
  "IteratorWrapper_Set run w iter a =
     (let a = IteratorWrapper_delete run w a in
      case iter of
        None \<Rightarrow> (w\<lparr>iw_iter := None, iw_valid := False\<rparr>, a)
      | Some ob \<Rightarrow> (IteratorWrapper_Update ob w, a))"

definition IteratorWrapper_Valid :: "('s, 'c) IteratorWrapper \<Rightarrow> bool" where
  "IteratorWrapper_Valid w = iw_valid w"

definition IteratorWrapper_key :: "('s, 'c) IteratorWrapper \<Rightarrow> Slice" where
  "IteratorWrapper_key w = iw_key w"

definition IteratorWrapper_value :: "('s, 'c) IteratorWrapper \<Rightarrow> Slice" where
  "IteratorWrapper_value w = it_value obj_Iterator (the (iw_iter w))"

definition IteratorWrapper_status :: "('s, 'c) IteratorWrapper \<Rightarrow> Status" where
  "IteratorWrapper_status w = it_status obj_Iterator (the (iw_iter w))"

text \<open>A move of the wrapper on the null pointer does not return.\<close>

definition wrapper_step ::
  "(('s, 'c) IterObj \<Rightarrow> ('s, 'c) IterObj option) \<Rightarrow> ('s, 'c) IteratorWrapper \<Rightarrow> ('s, 'c) IteratorWrapper option" where
  "wrapper_step f w = Option.bind (iw_iter w) (\<lambda>ob. map_option (\<lambda>ob. IteratorWrapper_Update ob w) (f ob))"

definition IteratorWrapper_Next :: "('s, 'c) IteratorWrapper \<Rightarrow> ('s, 'c) IteratorWrapper option" where
  "IteratorWrapper_Next = wrapper_step (it_Next obj_Iterator)"

definition IteratorWrapper_Prev :: "('s, 'c) IteratorWrapper \<Rightarrow> ('s, 'c) IteratorWrapper option" where
  "IteratorWrapper_Prev = wrapper_step (it_Prev obj_Iterator)"

definition IteratorWrapper_Seek :: "('s, 'c) IteratorWrapper \<Rightarrow> Slice \<Rightarrow> ('s, 'c) IteratorWrapper option" where
  "IteratorWrapper_Seek w k = wrapper_step (\<lambda>ob. it_Seek obj_Iterator ob k) w"

definition IteratorWrapper_SeekToFirst :: "('s, 'c) IteratorWrapper \<Rightarrow> ('s, 'c) IteratorWrapper option" where
  "IteratorWrapper_SeekToFirst = wrapper_step (it_SeekToFirst obj_Iterator)"

definition IteratorWrapper_SeekToLast :: "('s, 'c) IteratorWrapper \<Rightarrow> ('s, 'c) IteratorWrapper option" where
  "IteratorWrapper_SeekToLast = wrapper_step (it_SeekToLast obj_Iterator)"

subsection \<open>The reference cursor\<close>

type_synonym entries = "(Slice \<times> Slice) list"

text \<open>Keys are stored behind 32-bit lengths.\<close>

definition key_fits :: "Slice \<Rightarrow> bool" where
  "key_fits k \<longleftrightarrow> length k < 2 ^ 32"

definition entries_sorted :: "(Slice \<Rightarrow> Slice \<Rightarrow> int) \<Rightarrow> entries \<Rightarrow> bool" where
  "entries_sorted cmp es \<longleftrightarrow> sorted_wrt (\<lambda>a b. cmp (fst a) (fst b) < 0) es \<and> (\<forall>e \<in> set es. key_fits (fst e))"

definition index_in :: "'a list \<Rightarrow> nat \<Rightarrow> nat option" where
  "index_in es i = (if i < length es then Some i else None)"

lemma index_in_map [simp]: "index_in (map f xs) i = index_in xs i"
  by (simp add: index_in_def)

definition index_before :: "nat \<Rightarrow> nat option" where
  "index_before i = (if i = 0 then None else Some (i - 1))"

definition lower_bound :: "(Slice \<Rightarrow> Slice \<Rightarrow> int) \<Rightarrow> entries \<Rightarrow> Slice \<Rightarrow> nat" where
  "lower_bound cmp es k = length (takeWhile (\<lambda>e. cmp (fst e) k < 0) es)"

definition cursor :: "(Slice \<Rightarrow> Slice \<Rightarrow> int) \<Rightarrow> entries \<Rightarrow> nat option Iterator" where
  "cursor cmp es =
     \<lparr>it_Valid = (\<lambda>p. p \<noteq> None), it_SeekToFirst = (\<lambda>_. Some (index_in es 0)),
      it_SeekToLast = (\<lambda>_. Some (index_before (length es))),
      it_Seek = (\<lambda>_ k. Some (index_in es (lower_bound cmp es k))),
      it_Next = (\<lambda>p. Some (index_in es (Suc (the p)))), it_Prev = (\<lambda>p. Some (index_before (the p))),
      it_key = (\<lambda>p. fst (es ! the p)), it_value = (\<lambda>p. snd (es ! the p)), it_status = (\<lambda>_. Status_OK)\<rparr>"

text \<open>What a client sees: the moves it makes, and after each the entry at the iterator and the status.\<close>

datatype Move = MFirst | MLast | MSeek Slice | MNext | MPrev

fun move_within :: "(Slice \<Rightarrow> bool) \<Rightarrow> Move \<Rightarrow> bool" where
  "move_within fits (MSeek k) = fits k"
| "move_within fits _ = True"

abbreviation move_fits :: "Move \<Rightarrow> bool" where
  "move_fits \<equiv> move_within key_fits"

definition Iterator_move :: "'s Iterator \<Rightarrow> Move \<Rightarrow> 's \<Rightarrow> 's option" where
  "Iterator_move I m s =
     (case m of
        MFirst \<Rightarrow> it_SeekToFirst I s | MLast \<Rightarrow> it_SeekToLast I s | MSeek k \<Rightarrow> it_Seek I s k
      | MNext \<Rightarrow> (if it_Valid I s then it_Next I s else None)
      | MPrev \<Rightarrow> (if it_Valid I s then it_Prev I s else None))"

definition Iterator_see :: "'s Iterator \<Rightarrow> 's \<Rightarrow> (Slice \<times> Slice) option \<times> Status" where
  "Iterator_see I s = (if it_Valid I s then Some (it_key I s, it_value I s) else None, it_status I s)"

primrec Iterator_trace :: "'s Iterator \<Rightarrow> Move list \<Rightarrow> 's \<Rightarrow> ((Slice \<times> Slice) option \<times> Status) list option" where
  "Iterator_trace I [] s = Some []"
| "Iterator_trace I (m # ms) s =
     Option.bind (Iterator_move I m s) (\<lambda>s. map_option (Cons (Iterator_see I s)) (Iterator_trace I ms s))"

lemma lower_bound_split:
  assumes "entries_sorted cmp es" and "comparator cmp"
  shows "j < lower_bound cmp es k \<Longrightarrow> cmp (fst (es ! j)) k < 0"
    and "lower_bound cmp es k \<le> m \<Longrightarrow> m < length es \<Longrightarrow> \<not> cmp (fst (es ! m)) k < 0"
proof -
  let ?P = "\<lambda>e. cmp (fst e) k < 0" and ?c = "lower_bound cmp es k"
  show "cmp (fst (es ! j)) k < 0" if "j < ?c"
    using that nth_mem [of j "takeWhile ?P es"] set_takeWhileD [of "takeWhile ?P es ! j" ?P es]
    by (simp add: lower_bound_def List.takeWhile_nth)
  assume m: "?c \<le> m" "m < length es"
  then have c: "\<not> ?P (es ! ?c)" unfolding lower_bound_def by (intro nth_length_takeWhile) (simp add: lower_bound_def)
  show "\<not> cmp (fst (es ! m)) k < 0"
  proof (cases "?c = m")
    case False
    then have "cmp (fst (es ! ?c)) (fst (es ! m)) < 0"
      using assms(1) m sorted_wrt_nth_less [of _ es ?c m] by (auto simp: entries_sorted_def)
    then show ?thesis using c comparator.cmp_less_trans [OF assms(2)] by blast
  qed (use c in simp)
qed

subsection \<open>The contract\<close>

text \<open>\<open>fits\<close> says which keys the iterator can seek.\<close>

locale bounded_iterator =
  fixes fits :: "Slice \<Rightarrow> bool"
    and cmp :: "Slice \<Rightarrow> Slice \<Rightarrow> int"
    and I :: "'s Iterator"
    and at :: "'s \<Rightarrow> entries \<Rightarrow> nat option \<Rightarrow> bool"
  assumes valid: "at s es p \<Longrightarrow> it_Valid I s = (p \<noteq> None)"
    and entry: "at s es (Some i) \<Longrightarrow> i < length es \<and> es ! i = (it_key I s, it_value I s)"
    and status: "at s es p \<Longrightarrow> it_status I s = Status_OK"
    and first: "at s es p \<Longrightarrow> \<exists>s'. it_SeekToFirst I s = Some s' \<and> at s' es (index_in es 0)"
    and last: "at s es p \<Longrightarrow> \<exists>s'. it_SeekToLast I s = Some s' \<and> at s' es (index_before (length es))"
    and seek: "at s es p \<Longrightarrow> fits k \<Longrightarrow> \<exists>s'. it_Seek I s k = Some s' \<and> at s' es (index_in es (lower_bound cmp es k))"
    and nxt: "at s es (Some i) \<Longrightarrow> \<exists>s'. it_Next I s = Some s' \<and> at s' es (index_in es (Suc i))"
    and prev: "at s es (Some i) \<Longrightarrow> \<exists>s'. it_Prev I s = Some s' \<and> at s' es (index_before i)"
begin

lemma see: "at s es p \<Longrightarrow> Iterator_see I s = Iterator_see (cursor cmp es) p"
  using valid [of s es p] status [of s es p] entry [of s es]
  by (cases p) (auto simp: Iterator_see_def cursor_def)

lemma move:
  assumes "at s es p" and "move_within fits m"
  shows "rel_option (\<lambda>s' p'. at s' es p') (Iterator_move I m s) (Iterator_move (cursor cmp es) m p)"
proof (cases m)
  case MFirst
  then show ?thesis using first [OF assms(1)] by (auto simp: Iterator_move_def cursor_def)
next
  case MLast
  then show ?thesis using last [OF assms(1)] by (auto simp: Iterator_move_def cursor_def)
next
  case (MSeek k)
  then show ?thesis using seek [OF assms(1), of k] assms(2) by (auto simp: Iterator_move_def cursor_def)
next
  case MNext
  then show ?thesis using nxt [of s es "the p"] valid [OF assms(1)] assms
    by (cases p) (auto simp: Iterator_move_def cursor_def)
next
  case MPrev
  then show ?thesis using prev [of s es "the p"] valid [OF assms(1)] assms
    by (cases p) (auto simp: Iterator_move_def cursor_def)
qed

lemma trace:
  "at s es p \<Longrightarrow> \<forall>m \<in> set ms. move_within fits m \<Longrightarrow> Iterator_trace I ms s = Iterator_trace (cursor cmp es) ms p"
proof (induction ms arbitrary: s p)
  case (Cons m ms)
  from move [OF Cons.prems(1), of m] Cons.prems(2) show ?case
    by (cases rule: option.rel_cases) (auto simp: Cons.IH see)
qed simp

end

locale iterator =
  fixes cmp :: "Slice \<Rightarrow> Slice \<Rightarrow> int"
    and I :: "'s Iterator"
    and at :: "'s \<Rightarrow> entries \<Rightarrow> nat option \<Rightarrow> bool"
  assumes at_order: "at s es p \<Longrightarrow> comparator cmp \<and> entries_sorted cmp es"
    and at_valid: "at s es p \<Longrightarrow> it_Valid I s = (p \<noteq> None)"
    and at_entry: "at s es (Some i) \<Longrightarrow> i < length es \<and> es ! i = (it_key I s, it_value I s)"
    and at_status: "at s es p \<Longrightarrow> it_status I s = Status_OK"
    and at_first: "at s es p \<Longrightarrow> \<exists>s'. it_SeekToFirst I s = Some s' \<and> at s' es (index_in es 0)"
    and at_last: "at s es p \<Longrightarrow> \<exists>s'. it_SeekToLast I s = Some s' \<and> at s' es (index_before (length es))"
    and at_seek: "at s es p \<Longrightarrow> key_fits k \<Longrightarrow> \<exists>s'. it_Seek I s k = Some s' \<and> at s' es (index_in es (lower_bound cmp es k))"
    and at_next: "at s es (Some i) \<Longrightarrow> \<exists>s'. it_Next I s = Some s' \<and> at s' es (index_in es (Suc i))"
    and at_prev: "at s es (Some i) \<Longrightarrow> \<exists>s'. it_Prev I s = Some s' \<and> at s' es (index_before i)"

sublocale iterator \<subseteq> bounded: bounded_iterator key_fits cmp I at
  by (rule bounded_iterator.intro) (fact at_valid at_entry at_status at_first at_last at_seek at_next at_prev)+

context iterator
begin

lemma iterator_trace: "at s es p \<Longrightarrow> \<forall>m \<in> set ms. move_fits m \<Longrightarrow> Iterator_trace I ms s = Iterator_trace (cursor cmp es) ms p"
  by (rule bounded.trace)

end

subsection \<open>Instances\<close>

definition cursor_at :: "(Slice \<Rightarrow> Slice \<Rightarrow> int) \<Rightarrow> entries \<Rightarrow> nat option \<Rightarrow> entries \<Rightarrow> nat option \<Rightarrow> bool" where
  "cursor_at cmp es q fs p \<longleftrightarrow> comparator cmp \<and> entries_sorted cmp es \<and> fs = es \<and> q = p \<and> (\<forall>i. p = Some i \<longrightarrow> i < length es)"

interpretation cursor: iterator cmp "cursor cmp es" "cursor_at cmp es" for cmp es
  by unfold_locales (auto simp: cursor_def cursor_at_def index_in_def index_before_def)

definition empty_at :: "(Slice \<Rightarrow> Slice \<Rightarrow> int) \<Rightarrow> Status \<Rightarrow> entries \<Rightarrow> nat option \<Rightarrow> bool" where
  "empty_at cmp s es p \<longleftrightarrow> comparator cmp \<and> s = Status_OK \<and> es = [] \<and> p = None"

interpretation empty: iterator cmp EmptyIterator "empty_at cmp" for cmp
  by unfold_locales (auto simp: EmptyIterator_def empty_at_def index_in_def index_before_def entries_sorted_def)

text \<open>An object stands at a position if its class satisfies the contract and its state does.\<close>

definition obj_at :: "(Slice \<Rightarrow> Slice \<Rightarrow> int) \<Rightarrow> ('s, 'c) IterObj \<Rightarrow> entries \<Rightarrow> nat option \<Rightarrow> bool" where
  "obj_at cmp ob es p \<longleftrightarrow> (\<exists>at. iterator cmp (io_ops ob) at \<and> at (io_state ob) es p)"

lemma obj_atI: "iterator cmp I at \<Longrightarrow> at s es p \<Longrightarrow> obj_at cmp \<lparr>io_ops = I, io_state = s, io_cleanup = cs\<rparr> es p"
  unfolding obj_at_def by auto

lemma obj_at_make: "iterator cmp I at \<Longrightarrow> at s es p \<Longrightarrow> obj_at cmp (Iterator_make I s) es p"
  unfolding Iterator_make_def by (rule obj_atI)

lemma obj_at_cleanup [simp]: "obj_at cmp (RegisterCleanup ob c) es p \<longleftrightarrow> obj_at cmp ob es p"
  by (simp add: obj_at_def RegisterCleanup_def)

lemma obj_step_at:
  assumes "iterator cmp (io_ops ob) at" and "\<exists>s'. f (io_ops ob) (io_state ob) = Some s' \<and> at s' es q"
  shows "\<exists>ob'. obj_step f ob = Some ob' \<and> obj_at cmp ob' es q"
  using assms by (auto simp: obj_step_def obj_at_def)

interpretation obj: iterator cmp "obj_Iterator :: ('s, 'c) IterObj Iterator" "obj_at cmp" for cmp
proof
  fix ob :: "('s, 'c) IterObj" and es p
  assume "obj_at cmp ob es p"
  then obtain at where I: "iterator cmp (io_ops ob) at" and at: "at (io_state ob) es p" unfolding obj_at_def by blast
  note step = obj_step_at [OF I]
  show "comparator cmp \<and> entries_sorted cmp es" using iterator.at_order [OF I at] .
  show "it_Valid obj_Iterator ob = (p \<noteq> None)" using iterator.at_valid [OF I at] by (simp add: obj_Iterator_def)
  show "it_status obj_Iterator ob = Status_OK" using iterator.at_status [OF I at] by (simp add: obj_Iterator_def)
  show "\<exists>s'. it_SeekToFirst obj_Iterator ob = Some s' \<and> obj_at cmp s' es (index_in es 0)"
    using step [where f = it_SeekToFirst, OF iterator.at_first [OF I at]] by (simp add: obj_Iterator_def)
  show "\<exists>s'. it_SeekToLast obj_Iterator ob = Some s' \<and> obj_at cmp s' es (index_before (length es))"
    using step [where f = it_SeekToLast, OF iterator.at_last [OF I at]] by (simp add: obj_Iterator_def)
  show "\<exists>s'. it_Seek obj_Iterator ob k = Some s' \<and> obj_at cmp s' es (index_in es (lower_bound cmp es k))" if "key_fits k" for k
    using step [of "\<lambda>I s. it_Seek I s k", OF iterator.at_seek [OF I at that]] by (simp add: obj_Iterator_def)
next
  fix ob :: "('s, 'c) IterObj" and es i
  assume "obj_at cmp ob es (Some i)"
  then obtain at where I: "iterator cmp (io_ops ob) at" and at: "at (io_state ob) es (Some i)" unfolding obj_at_def by blast
  note step = obj_step_at [OF I]
  show "i < length es \<and> es ! i = (it_key obj_Iterator ob, it_value obj_Iterator ob)"
    using iterator.at_entry [OF I at] by (simp add: obj_Iterator_def)
  show "\<exists>s'. it_Next obj_Iterator ob = Some s' \<and> obj_at cmp s' es (index_in es (Suc i))"
    using step [where f = it_Next, OF iterator.at_next [OF I at]] by (simp add: obj_Iterator_def)
  show "\<exists>s'. it_Prev obj_Iterator ob = Some s' \<and> obj_at cmp s' es (index_before i)"
    using step [where f = it_Prev, OF iterator.at_prev [OF I at]] by (simp add: obj_Iterator_def)
qed

lemma sum_iterator:
  assumes "iterator cmp I at" and "iterator cmp J at'"
  shows "iterator cmp (sum_Iterator I J) (case_sum at at')"
proof -
  note L = iterator.at_order [OF assms(1)] iterator.at_valid [OF assms(1)] iterator.at_entry [OF assms(1)]
    iterator.at_status [OF assms(1)]
  note R = iterator.at_order [OF assms(2)] iterator.at_valid [OF assms(2)] iterator.at_entry [OF assms(2)]
    iterator.at_status [OF assms(2)]
  show ?thesis
  proof
    fix s es p
    assume s: "case_sum at at' s es p"
    show "comparator cmp \<and> entries_sorted cmp es" using s L(1) R(1) by (auto split: sum.splits)
    show "it_Valid (sum_Iterator I J) s = (p \<noteq> None)" using s L(2) R(2) by (auto simp: sum_Iterator_def split: sum.splits)
    show "it_status (sum_Iterator I J) s = Status_OK" using s L(4) R(4) by (auto simp: sum_Iterator_def split: sum.splits)
    show "\<exists>s'. it_SeekToFirst (sum_Iterator I J) s = Some s' \<and> case_sum at at' s' es (index_in es 0)"
      using s iterator.at_first [OF assms(1)] iterator.at_first [OF assms(2)]
      by (cases s) (fastforce simp: sum_Iterator_def)+
    show "\<exists>s'. it_SeekToLast (sum_Iterator I J) s = Some s' \<and> case_sum at at' s' es (index_before (length es))"
      using s iterator.at_last [OF assms(1)] iterator.at_last [OF assms(2)]
      by (cases s) (fastforce simp: sum_Iterator_def)+
    show "\<exists>s'. it_Seek (sum_Iterator I J) s k = Some s' \<and> case_sum at at' s' es (index_in es (lower_bound cmp es k))" if "key_fits k" for k
      using s iterator.at_seek [OF assms(1) _ that] iterator.at_seek [OF assms(2) _ that]
      by (cases s) (fastforce simp: sum_Iterator_def)+
  next
    fix s es i
    assume s: "case_sum at at' s es (Some i)"
    show "i < length es \<and> es ! i = (it_key (sum_Iterator I J) s, it_value (sum_Iterator I J) s)"
      using s L(3) R(3) by (auto simp: sum_Iterator_def split: sum.splits)
    show "\<exists>s'. it_Next (sum_Iterator I J) s = Some s' \<and> case_sum at at' s' es (index_in es (Suc i))"
      using s iterator.at_next [OF assms(1)] iterator.at_next [OF assms(2)]
      by (cases s) (fastforce simp: sum_Iterator_def)+
    show "\<exists>s'. it_Prev (sum_Iterator I J) s = Some s' \<and> case_sum at at' s' es (index_before i)"
      using s iterator.at_prev [OF assms(1)] iterator.at_prev [OF assms(2)]
      by (cases s) (fastforce simp: sum_Iterator_def)+
  qed
qed

text \<open>The wrapper caches validity and key of an object that satisfies the contract.\<close>

definition wrapper_at :: "(Slice \<Rightarrow> Slice \<Rightarrow> int) \<Rightarrow> ('s, 'c) IteratorWrapper \<Rightarrow> entries \<Rightarrow> nat option \<Rightarrow> bool" where
  "wrapper_at cmp w es p \<longleftrightarrow> (\<exists>ob. iw_iter w = Some ob \<and> obj_at cmp ob es p \<and> iw_valid w = (p \<noteq> None)
     \<and> (\<forall>i. p = Some i \<longrightarrow> iw_key w = fst (es ! i)))"

lemma IteratorWrapper_Update_at: "obj_at cmp ob es p \<Longrightarrow> wrapper_at cmp (IteratorWrapper_Update ob w) es p"
  using obj.at_valid [of cmp ob es p] obj.at_entry [of cmp ob es]
  by (auto simp: wrapper_at_def IteratorWrapper_Update_def Let_def)

lemma IteratorWrapper_Set_at: "obj_at cmp ob es p \<Longrightarrow> wrapper_at cmp (fst (IteratorWrapper_Set run w (Some ob) a)) es p"
  by (simp add: IteratorWrapper_Set_def IteratorWrapper_Update_at)

lemma wrapper_step_at:
  assumes "wrapper_at cmp w es p" and "\<And>ob. obj_at cmp ob es p \<Longrightarrow> \<exists>ob'. f ob = Some ob' \<and> obj_at cmp ob' es q"
  shows "\<exists>w'. wrapper_step f w = Some w' \<and> wrapper_at cmp w' es q"
  using assms by (fastforce simp: wrapper_step_def wrapper_at_def [of cmp w] intro: IteratorWrapper_Update_at)

lemma wrapper_moves:
  assumes "wrapper_at cmp w es p"
  shows "\<exists>w'. IteratorWrapper_SeekToFirst w = Some w' \<and> wrapper_at cmp w' es (index_in es 0)"
    and "\<exists>w'. IteratorWrapper_SeekToLast w = Some w' \<and> wrapper_at cmp w' es (index_before (length es))"
    and "key_fits k \<Longrightarrow> \<exists>w'. IteratorWrapper_Seek w k = Some w' \<and> wrapper_at cmp w' es (index_in es (lower_bound cmp es k))"
    and "p = Some i \<Longrightarrow> \<exists>w'. IteratorWrapper_Next w = Some w' \<and> wrapper_at cmp w' es (index_in es (Suc i))"
    and "p = Some i \<Longrightarrow> \<exists>w'. IteratorWrapper_Prev w = Some w' \<and> wrapper_at cmp w' es (index_before i)"
  unfolding IteratorWrapper_SeekToFirst_def IteratorWrapper_SeekToLast_def IteratorWrapper_Seek_def
    IteratorWrapper_Next_def IteratorWrapper_Prev_def
  using wrapper_step_at [OF assms obj.at_first] wrapper_step_at [OF assms obj.at_last]
    wrapper_step_at [OF assms obj.at_seek] wrapper_step_at [OF assms obj.at_next] wrapper_step_at [OF assms obj.at_prev]
  by simp_all

lemma wrapper_reads:
  assumes "wrapper_at cmp w es p"
  shows "IteratorWrapper_Valid w = (p \<noteq> None)" and "IteratorWrapper_status w = Status_OK"
    and "p = Some i \<Longrightarrow> i < length es \<and> es ! i = (IteratorWrapper_key w, IteratorWrapper_value w)"
    and "comparator cmp" and "entries_sorted cmp es"
  using assms obj.at_status [of cmp "the (iw_iter w)" es p] obj.at_order [of cmp "the (iw_iter w)" es p]
    obj.at_entry [of cmp "the (iw_iter w)" es i]
  by (auto simp: wrapper_at_def IteratorWrapper_Valid_def IteratorWrapper_status_def IteratorWrapper_key_def
      IteratorWrapper_value_def)

end
