(* ===== verification/MemTable.thy ===== *)
theory MemTable
  imports SkipList Dbformat Iterator
begin

text \<open>
  The memtable (\<^verbatim>\<open>db/memtable.{h,cc}\<close>): entries encoded into one buffer each and kept in a skip list ordered
  by the internal key inside the entry.  A \<^verbatim>\<open>const char*\<close> to an entry is the list of bytes from there on.
  Its client view: a lookup at a sequence number returns the newest entry of the user key that is not newer
  than the lookup, whatever the order in which the skip list was built.
\<close>

subsection \<open>Entries\<close>

text \<open>The length read from at most five bytes, and the pointer behind it.\<close>

definition entry_varint :: "bytes \<Rightarrow> (u32 \<times> bytes) option" where
  "entry_varint p =
     (case GetVarint32Ptr (take 5 p) of
        None \<Rightarrow> None
      | Some (len, q) \<Rightarrow> Some (len, drop (length (take 5 p) - length q) p))"

definition mem_GetLengthPrefixedSlice :: "bytes \<Rightarrow> Slice" where
  "mem_GetLengthPrefixedSlice data =
     (case entry_varint data of None \<Rightarrow> [] | Some (len, p) \<Rightarrow> take (unat len) p)"

definition mem_KeyComparator :: "Comparator \<Rightarrow> bytes \<Rightarrow> bytes \<Rightarrow> int" where
  "mem_KeyComparator C aptr bptr =
     InternalKey_Compare C (mem_GetLengthPrefixedSlice aptr) (mem_GetLengthPrefixedSlice bptr)"

definition EncodeKey :: "Slice \<Rightarrow> bytes" where
  "EncodeKey target = PutVarint32 [] (of_nat (length target)) @ target"

record MemTable =
  mt_refs :: int
  mt_table :: "bytes SkipList"

definition MemTable_make :: MemTable where
  "MemTable_make = \<lparr>mt_refs = 0, mt_table = SkipList_make\<rparr>"

definition MemTable_Ref :: "MemTable \<Rightarrow> MemTable" where
  "MemTable_Ref m = m\<lparr>mt_refs := mt_refs m + 1\<rparr>"

text \<open>\<open>None\<close>: the memtable is deleted.\<close>

definition MemTable_Unref :: "MemTable \<Rightarrow> MemTable option" where
  "MemTable_Unref m = (let m = m\<lparr>mt_refs := mt_refs m - 1\<rparr> in if mt_refs m \<le> 0 then None else Some m)"

text \<open>The buffer \<^verbatim>\<open>Add\<close> fills, from its first byte to its last.\<close>

definition mem_entry :: "SequenceNumber \<Rightarrow> ValueType \<Rightarrow> Slice \<Rightarrow> Slice \<Rightarrow> bytes" where
  "mem_entry s type key value =
     (let internal_key_size = length key + 8
      in EncodeVarint32 (of_nat internal_key_size) @ key
         @ EncodeFixed64 (push_bit 8 s OR ucast (ValueType_num type))
         @ EncodeVarint32 (of_nat (length value)) @ value)"

definition MemTable_Add ::
  "Comparator \<Rightarrow> MemTable \<Rightarrow> SequenceNumber \<Rightarrow> ValueType \<Rightarrow> Slice \<Rightarrow> Slice \<Rightarrow> MemTable option" where
  "MemTable_Add C m s type key value =
     map_option (\<lambda>t. m\<lparr>mt_table := t\<rparr>)
       (SkipList_Insert (mem_KeyComparator C) (mt_table m) (mem_entry s type key value))"

text \<open>
  The outer option is whether the search returns.  Inside, \<open>None\<close> is the result \<^verbatim>\<open>false\<close>, \<open>Some (Inr value)\<close> is \<^verbatim>\<open>true\<close>
  with the value stored, and \<open>Some (Inl s)\<close> is \<^verbatim>\<open>true\<close> with the status stored.
\<close>

definition MemTable_Get :: "Comparator \<Rightarrow> MemTable \<Rightarrow> LookupKey \<Rightarrow> (Status + bytes) option option" where
  "MemTable_Get C m key =
     (let memkey = LookupKey_memtable_key key in
      case SkipIter_Seek (mem_KeyComparator C) (mt_table m) memkey of
        None \<Rightarrow> None
      | Some node \<Rightarrow>
          if SkipIter_Valid node then
            let entry = SkipIter_key (mt_table m) node in
            case entry_varint entry of
              None \<Rightarrow> Some None
            | Some (key_length, key_ptr) \<Rightarrow>
                let n = unat key_length in
                if Compare C (take (n - 8) key_ptr) (LookupKey_user_key key) = 0 then
                  let tag = DecodeFixed64 (drop (n - 8) key_ptr) in
                  case ValueType_of_byte (ucast (tag AND 0xff)) of
                    Some kTypeValue \<Rightarrow> Some (Some (Inr (mem_GetLengthPrefixedSlice (drop n key_ptr))))
                  | Some kTypeDeletion \<Rightarrow> Some (Some (Inl (NotFound [] [])))
                  | None \<Rightarrow> Some None
                else Some None
          else Some None)"

subsection \<open>Iterator\<close>

definition MemTableIter_Seek :: "Comparator \<Rightarrow> MemTable \<Rightarrow> Slice \<Rightarrow> nat option option" where
  "MemTableIter_Seek C m k = SkipIter_Seek (mem_KeyComparator C) (mt_table m) (EncodeKey k)"

definition MemTableIter_SeekToFirst :: "MemTable \<Rightarrow> nat option" where
  "MemTableIter_SeekToFirst m = SkipIter_SeekToFirst (mt_table m)"

definition MemTableIter_SeekToLast :: "MemTable \<Rightarrow> nat option option" where
  "MemTableIter_SeekToLast m = SkipIter_SeekToLast (mt_table m)"

definition MemTableIter_Next :: "MemTable \<Rightarrow> nat option \<Rightarrow> nat option" where
  "MemTableIter_Next m node = SkipIter_Next (mt_table m) node"

definition MemTableIter_Prev :: "Comparator \<Rightarrow> MemTable \<Rightarrow> nat option \<Rightarrow> nat option option" where
  "MemTableIter_Prev C m node = SkipIter_Prev (mem_KeyComparator C) (mt_table m) node"

definition MemTableIter_key :: "MemTable \<Rightarrow> nat option \<Rightarrow> Slice" where
  "MemTableIter_key m node = mem_GetLengthPrefixedSlice (SkipIter_key (mt_table m) node)"

definition MemTableIter_value :: "MemTable \<Rightarrow> nat option \<Rightarrow> Slice" where
  "MemTableIter_value m node =
     (let entry = SkipIter_key (mt_table m) node in
      case entry_varint entry of None \<Rightarrow> [] | Some (len, p) \<Rightarrow> mem_GetLengthPrefixedSlice (drop (unat len) p))"

subsection \<open>Reading entries back\<close>

lemma entry_varint_Encode [simp, codec_simps]: "entry_varint (EncodeVarint32 v @ rest) = Some (v, rest)"
proof -
  have "take 5 (EncodeVarint32 v @ rest) = EncodeVarint32 v @ take (5 - length (EncodeVarint32 v)) rest"
    using length_EncodeVarint32 [of v] by simp
  then show ?thesis by (simp add: entry_varint_def)
qed

lemma mem_GetLengthPrefixedSlice_Encode:
  "length k < 2 ^ 32 \<Longrightarrow> mem_GetLengthPrefixedSlice (EncodeVarint32 (of_nat (length k)) @ k @ rest) = k"
  by (simp add: mem_GetLengthPrefixedSlice_def unat_of_nat)

definition entry_key :: "SequenceNumber \<Rightarrow> ValueType \<Rightarrow> Slice \<Rightarrow> bytes" where
  "entry_key s t u = u @ EncodeFixed64 (PackSequenceAndType s t)"

lemma mem_entry_eq:
  "mem_entry s t u v =
     EncodeVarint32 (of_nat (length (entry_key s t u))) @ entry_key s t u @ EncodeVarint32 (of_nat (length v)) @ v"
  by (simp add: mem_entry_def entry_key_def PackSequenceAndType_def Let_def add.commute)

lemma entry_key_parts [simp]:
  "length (entry_key s t u) = length u + 8" "ExtractUserKey (entry_key s t u) = u"
  "ExtractTag (entry_key s t u) = PackSequenceAndType s t"
  by (simp_all add: entry_key_def)

lemma mem_entry_key: "length u < 2 ^ 32 - 8 \<Longrightarrow> mem_GetLengthPrefixedSlice (mem_entry s t u v) = entry_key s t u"
  unfolding mem_entry_eq by (rule mem_GetLengthPrefixedSlice_Encode) simp

lemma EncodeKey_key: "length k < 2 ^ 32 \<Longrightarrow> mem_GetLengthPrefixedSlice (EncodeKey k) = k"
  using mem_GetLengthPrefixedSlice_Encode [of k "[]"] by (simp add: EncodeKey_def PutVarint32_def)

lemma lookup_memtable_key:
  "length u < 2 ^ 32 - 8 \<Longrightarrow>
   mem_GetLengthPrefixedSlice (LookupKey_memtable_key (LookupKey_make u s)) = entry_key s kValueTypeForSeek u"
  using mem_GetLengthPrefixedSlice_Encode [of "entry_key s kValueTypeForSeek u" "[]"]
  by (simp add: LookupKey_memtable_key_def LookupKey_make_def Let_def) (simp add: entry_key_def)

text \<open>What \<^verbatim>\<open>Get\<close> does with the entry it lands on.\<close>

definition get_entry :: "Comparator \<Rightarrow> bytes \<Rightarrow> Slice \<Rightarrow> (Status + bytes) option" where
  "get_entry C entry user_key =
     (case entry_varint entry of
        None \<Rightarrow> None
      | Some (key_length, key_ptr) \<Rightarrow>
          let n = unat key_length in
          if Compare C (take (n - 8) key_ptr) user_key = 0 then
            case ValueType_of_byte (ucast (DecodeFixed64 (drop (n - 8) key_ptr) AND 0xff)) of
              Some kTypeValue \<Rightarrow> Some (Inr (mem_GetLengthPrefixedSlice (drop n key_ptr)))
            | Some kTypeDeletion \<Rightarrow> Some (Inl (NotFound [] []))
            | None \<Rightarrow> None
          else None)"

definition type_result :: "ValueType \<Rightarrow> Slice \<Rightarrow> Status + bytes" where
  "type_result t v = (case t of kTypeValue \<Rightarrow> Inr v | kTypeDeletion \<Rightarrow> Inl (NotFound [] []))"

lemma get_entry_mem_entry:
  assumes "length u < 2 ^ 32 - 8" and "length v < 2 ^ 32"
  shows "get_entry C (mem_entry s t u v) user_key =
    (if Compare C u user_key = 0 then Some (type_result t v) else None)"
proof -
  have n: "unat (of_nat (length u + 8) :: u32) = length u + 8" using assms(1) by (simp add: unat_of_nat del: of_nat_add)
  have v: "mem_GetLengthPrefixedSlice (EncodeVarint32 (of_nat (length v)) @ v) = v"
    using mem_GetLengthPrefixedSlice_Encode [OF assms(2), of "[]"] by simp
  show ?thesis
    unfolding get_entry_def mem_entry_eq entry_varint_Encode
    by (simp add: n entry_key_def v PackSequenceAndType_type type_result_def Let_def split: ValueType.splits
        del: of_nat_add)
qed

lemma MemTable_Get_seek:
  "MemTable_Get C m key =
     (case sl_seek (mem_KeyComparator C) (mt_table m) (LookupKey_memtable_key key) of
        None \<Rightarrow> None
      | Some None \<Rightarrow> Some None
      | Some (Some entry) \<Rightarrow> Some (get_entry C entry (LookupKey_user_key key)))"
  by (auto simp: MemTable_Get_def sl_seek_def get_entry_def SkipIter_Valid_def SkipIter_key_def Let_def
      split: option.splits ValueType.splits)

subsection \<open>The memtable as a versioned map\<close>

text \<open>An operation is a sequence number, a type, a user key and a value; a history lists them in the order added.\<close>

type_synonym mem_op = "SequenceNumber \<times> ValueType \<times> Slice \<times> Slice"

fun mem_op_entry :: "mem_op \<Rightarrow> bytes" where
  "mem_op_entry (s, t, u, v) = mem_entry s t u v"

fun mem_op_ok :: "mem_op \<Rightarrow> bool" where
  "mem_op_ok (s, t, u, v) \<longleftrightarrow> s \<le> kMaxSequenceNumber \<and> length u < 2 ^ 32 - 8 \<and> length v < 2 ^ 32"

fun MemTable_Adds :: "Comparator \<Rightarrow> MemTable \<Rightarrow> mem_op list \<Rightarrow> MemTable option" where
  "MemTable_Adds C m [] = Some m"
| "MemTable_Adds C m ((s, t, u, v) # ops) =
     (case MemTable_Add C m s t u v of None \<Rightarrow> None | Some m' \<Rightarrow> MemTable_Adds C m' ops)"

text \<open>The specification of a lookup: the last operation on the key that is visible at the sequence number.\<close>

definition visible :: "Comparator \<Rightarrow> Slice \<Rightarrow> SequenceNumber \<Rightarrow> mem_op \<Rightarrow> bool" where
  "visible C u s = (\<lambda>(s', t, u', v). Compare C u' u = 0 \<and> s' \<le> s)"

definition history_get :: "Comparator \<Rightarrow> mem_op list \<Rightarrow> Slice \<Rightarrow> SequenceNumber \<Rightarrow> (Status + bytes) option" where
  "history_get C ops u s =
     (let hits = filter (visible C u s) ops in
      if hits = [] then None else (case last hits of (_, t, _, v) \<Rightarrow> Some (type_result t v)))"

definition history_ok :: "mem_op list \<Rightarrow> bool" where
  "history_ok ops \<longleftrightarrow> (\<forall>op \<in> set ops. mem_op_ok op) \<and> sorted_wrt (\<lambda>a b. fst a < fst b) ops"

definition mt_holds :: "Comparator \<Rightarrow> MemTable \<Rightarrow> mem_op list \<Rightarrow> bool" where
  "mt_holds C m ops \<longleftrightarrow> sl_invar (mem_KeyComparator C) (mt_table m)
     \<and> set (sl_contents (mt_table m)) = mem_op_entry ` set ops"

lemma Pack_less_iff:
  assumes "s1 \<le> kMaxSequenceNumber" and "s2 \<le> kMaxSequenceNumber" and "s1 \<noteq> s2"
  shows "PackSequenceAndType s1 t1 \<noteq> PackSequenceAndType s2 t2"
    and "PackSequenceAndType s1 t1 \<le> PackSequenceAndType s2 t2 \<Longrightarrow> s1 \<le> s2"
proof -
  have b: "unat (ValueType_num t) \<le> 1" for t by (cases t) simp_all
  show "PackSequenceAndType s1 t1 \<noteq> PackSequenceAndType s2 t2"
    using PackSequenceAndType_seq [OF assms(1)] PackSequenceAndType_seq [OF assms(2)] assms(3) by metis
  show "PackSequenceAndType s1 t1 \<le> PackSequenceAndType s2 t2 \<Longrightarrow> s1 \<le> s2"
    using b [of t1] b [of t2] unfolding word_le_nat_alt unat_Pack [OF assms(1)] unat_Pack [OF assms(2)] by linarith
qed

lemma Pack_seek_le:
  assumes "s1 \<le> kMaxSequenceNumber" and "s2 \<le> kMaxSequenceNumber"
  shows "PackSequenceAndType s1 t1 \<le> PackSequenceAndType s2 kValueTypeForSeek \<longleftrightarrow> s1 \<le> s2"
proof -
  have "unat (ValueType_num t1) \<le> 1" by (cases t1) simp_all
  then show ?thesis
    unfolding word_le_nat_alt [of "PackSequenceAndType _ _"] word_le_nat_alt [of s1] unat_Pack [OF assms(1)]
      unat_Pack [OF assms(2)] kValueTypeForSeek_def by simp linarith
qed

lemma mem_compare_entries:
  assumes "mem_op_ok (s1, t1, u1, v1)" and "mem_op_ok (s2, t2, u2, v2)"
  shows "mem_KeyComparator C (mem_entry s1 t1 u1 v1) (mem_entry s2 t2 u2 v2) =
    InternalKey_Compare C (entry_key s1 t1 u1) (entry_key s2 t2 u2)"
  using assms by (simp add: mem_KeyComparator_def mem_entry_key)

lemma last_max_unique:
  assumes "sorted_wrt (\<lambda>a b. f a < (f b :: 'b :: linorder)) xs" and "e \<in> set xs" and "\<forall>x \<in> set xs. f x \<le> f e"
  shows "last xs = e"
proof -
  obtain as bs where xs: "xs = as @ e # bs" using assms(2) by (auto dest: split_list)
  then have "bs = []" using assms(1,3) by (cases bs) (auto simp: sorted_wrt_append)
  then show ?thesis by (simp add: xs)
qed

context key_comparator
begin

lemma mem_comparator: "comparator (mem_KeyComparator C)"
  by unfold_locales (use ikey.cmp_swap ikey.cmp_le_trans in \<open>auto simp: mem_KeyComparator_def\<close>)

end

sublocale key_comparator \<subseteq> mem: comparator "mem_KeyComparator C"
  by (rule mem_comparator)

context key_comparator
begin

lemma MemTable_make_holds: "mt_holds C MemTable_make []"
  using mem.sl_ok_invar [OF mem.SkipList_make_ok] by (simp add: mt_holds_def MemTable_make_def sl_keys_def)

lemma MemTable_Add_holds:
  assumes "mt_holds C m ops" and "history_ok (ops @ [(s, t, u, v)])"
  obtains m' where "MemTable_Add C m s t u v = Some m'" and "mt_holds C m' (ops @ [(s, t, u, v)])"
proof -
  let ?e = "mem_entry s t u v"
  have i: "sl_invar (mem_KeyComparator C) (mt_table m)" using assms(1) by (simp add: mt_holds_def)
  have new: "\<forall>y \<in> set (sl_contents (mt_table m)). mem_KeyComparator C y ?e \<noteq> 0"
  proof
    fix y assume "y \<in> set (sl_contents (mt_table m))"
    then obtain s' t' u' v' where op: "(s', t', u', v') \<in> set ops" "y = mem_entry s' t' u' v'"
      using assms(1) by (auto simp: mt_holds_def)
    then have "s' < s" "mem_op_ok (s', t', u', v')" "mem_op_ok (s, t, u, v)"
      using assms(2) by (auto simp: history_ok_def sorted_wrt_append)
    then show "mem_KeyComparator C y ?e \<noteq> 0"
      using Pack_less_iff(1) [of s' s t' t] by (auto simp: op(2) mem_compare_entries InternalKey_Compare_zero)
  qed
  obtain t' where t': "SkipList_Insert (mem_KeyComparator C) (mt_table m) ?e = Some t'"
    using mem.skip.insert_returns [OF i new] by blast
  then have "mt_holds C (m\<lparr>mt_table := t'\<rparr>) (ops @ [(s, t, u, v)])"
    using mem.skip.insert_invar [OF i new t'] mem.skip.insert_set [OF i new t'] assms(1)
    by (simp add: mt_holds_def)
  with t' show thesis by (intro that) (simp add: MemTable_Add_def)
qed

lemma MemTable_Adds_holds:
  assumes "mt_holds C m ops" and "history_ok (ops @ ops2)"
  shows "\<exists>m'. MemTable_Adds C m ops2 = Some m' \<and> mt_holds C m' (ops @ ops2)"
  using assms
proof (induction ops2 arbitrary: m ops)
  case (Cons op ops2)
  obtain s t u v where op: "op = (s, t, u, v)" by (cases op)
  have "history_ok (ops @ [op])" using Cons.prems(2) by (auto simp: history_ok_def sorted_wrt_append)
  then obtain m1 where "MemTable_Add C m s t u v = Some m1" "mt_holds C m1 (ops @ [op])"
    using MemTable_Add_holds [OF Cons.prems(1)] unfolding op by blast
  with Cons.IH [of m1 "ops @ [op]"] Cons.prems(2) show ?case by (simp add: op)
qed simp

lemma entry_ge_target:
  assumes "mem_op_ok (s', t', u', v')" and "length u < 2 ^ 32 - 8" and "s \<le> kMaxSequenceNumber"
  shows "0 \<le> mem_KeyComparator C (mem_entry s' t' u' v') (LookupKey_memtable_key (LookupKey_make u s)) \<longleftrightarrow>
    0 < Compare C u' u \<or> Compare C u' u = 0 \<and> s' \<le> s"
  using assms Pack_seek_le [of s' s t'] 
  by (auto simp: mem_KeyComparator_def mem_entry_key lookup_memtable_key not_less [symmetric]
      InternalKey_Compare_less simp del: not_less)

text \<open>The least entry at or after the target decides the lookup.\<close>

lemma history_get_least:
  assumes h: "history_ok ops" and op: "(s', t', u', v') \<in> set ops"
    and ge: "0 < Compare C u' u \<or> Compare C u' u = 0 \<and> s' \<le> s"
    and least: "\<And>s'' t'' u'' v''. (s'', t'', u'', v'') \<in> set (filter (visible C u s) ops) \<Longrightarrow>
      Compare C u' u'' < 0 \<or> Compare C u' u'' = 0 \<and> PackSequenceAndType s'' t'' \<le> PackSequenceAndType s' t'"
  shows "history_get C ops u s = (if Compare C u' u = 0 then Some (type_result t' v') else None)"
proof (cases "Compare C u' u = 0")
  case True
  let ?hits = "filter (visible C u s) ops"
  have ok: "mem_op_ok op" if "op \<in> set ops" for op using h that by (simp add: history_ok_def)
  have hit: "(s', t', u', v') \<in> set ?hits" using True ge op by (simp add: visible_def)
  have "fst x \<le> s'" if x: "x \<in> set ?hits" for x
  proof -
    obtain s'' t'' u'' v'' where e: "x = (s'', t'', u'', v'')" by (cases x)
    have "Compare C u u'' = 0" using x user.cmp_zero_swap by (simp add: e visible_def)
    then have "\<not> Compare C u' u'' < 0" using True user.cmp_zero_right [of u u'' u'] by simp
    then have "PackSequenceAndType s'' t'' \<le> PackSequenceAndType s' t'" using least x unfolding e by blast
    then show "fst x \<le> s'"
      using Pack_less_iff(2) [of s'' s' t'' t'] ok [OF op] ok [of x] x by (cases "s'' = s'") (simp_all add: e)
  qed
  then have "last ?hits = (s', t', u', v')"
    using last_max_unique [of fst ?hits "(s', t', u', v')"] hit h by (simp add: history_ok_def sorted_wrt_filter)
  moreover have "?hits \<noteq> []" using hit by (metis empty_iff list.set(1))
  ultimately show ?thesis using True by (simp add: history_get_def)
next
  case False
  have "op \<notin> set (filter (visible C u s) ops)" for op
  proof
    assume x: "op \<in> set (filter (visible C u s) ops)"
    obtain s'' t'' u'' v'' where e: "op = (s'', t'', u'', v'')" by (cases op)
    have "Compare C u' u'' \<le> 0" using least [OF x [unfolded e]] by linarith
    moreover have "Compare C u'' u \<le> 0" using x by (simp add: e visible_def)
    ultimately have "Compare C u' u \<le> 0" by (rule user.cmp_le_trans)
    with ge False show False by linarith
  qed
  then have "filter (visible C u s) ops = []" by (metis list.set_intros(1) neq_Nil_conv)
  then show ?thesis using False by (simp add: history_get_def)
qed

lemma MemTable_Get_holds:
  assumes h: "mt_holds C m ops" "history_ok ops" and u: "length u < 2 ^ 32 - 8" and s: "s \<le> kMaxSequenceNumber"
  shows "MemTable_Get C m (LookupKey_make u s) = Some (history_get C ops u s)"
proof -
  let ?k = "LookupKey_memtable_key (LookupKey_make u s)" and ?cmp = "mem_KeyComparator C"
  have i: "sl_invar ?cmp (mt_table m)" using h(1) by (simp add: mt_holds_def)
  have ok: "mem_op_ok op" if "op \<in> set ops" for op using h(2) that by (simp add: history_ok_def)
  have vis: "visible C u s op \<Longrightarrow> 0 \<le> ?cmp (mem_op_entry op) ?k" if "op \<in> set ops" for op
    using ok [OF that] entry_ge_target [OF _ u s] by (cases op) (simp add: visible_def)
  obtain r where r: "sl_seek ?cmp (mt_table m) ?k = Some r" using mem.skip.seek_returns [OF i] by blast
  show ?thesis
  proof (cases r)
    case None
    have "\<not> visible C u s op" if op: "op \<in> set ops" for op
      using mem.skip.seek_None [OF i, of ?k "mem_op_entry op"] r None vis [OF op] h(1) op
      by (auto simp: mt_holds_def)
    then have "filter (visible C u s) ops = []" by (simp add: filter_empty_conv)
    then show ?thesis by (simp add: MemTable_Get_seek r None history_get_def)
  next
    case (Some y)
    note sk = mem.skip.seek_Some [OF i r [unfolded Some]]
    obtain s' t' u' v' where op: "(s', t', u', v') \<in> set ops" "y = mem_entry s' t' u' v'"
      using sk(1) h(1) by (auto simp: mt_holds_def)
    have ge: "0 < Compare C u' u \<or> Compare C u' u = 0 \<and> s' \<le> s"
      using sk(2) entry_ge_target [OF ok [OF op(1)] u s] op(2) by simp
    have "Compare C u' u'' < 0 \<or> Compare C u' u'' = 0 \<and> PackSequenceAndType s'' t'' \<le> PackSequenceAndType s' t'"
      if "(s'', t'', u'', v'') \<in> set (filter (visible C u s) ops)" for s'' t'' u'' v''
    proof -
      have m: "(s'', t'', u'', v'') \<in> set ops" "visible C u s (s'', t'', u'', v'')" using that by auto
      then have "mem_entry s'' t'' u'' v'' \<in> set (sl_contents (mt_table m))" using h(1) by (force simp: mt_holds_def)
      from sk(3) [OF this] vis [OF m] mem_compare_entries [OF ok [OF op(1)] ok [OF m(1)]] op(2)
      show ?thesis by (simp add: InternalKey_Compare_le)
    qed
    from history_get_least [OF h(2) op(1) ge this] ok [OF op(1)] show ?thesis
      by (simp add: MemTable_Get_seek r Some op(2) get_entry_mem_entry LookupKey_keys)
  qed
qed

end

text \<open>
  C18.  The memtable is a versioned map.  Adding any history of puts and deletions with increasing sequence
  numbers returns, and a lookup of a user key at a sequence number then returns what the last operation of
  the history visible at it says: its value, a \<open>NotFound\<close> for a deletion, and no answer when there is none.
\<close>

theorem memtable_get_history:
  assumes "key_comparator C" and "history_ok ops" and "length u < 2 ^ 32 - 8" and "s \<le> kMaxSequenceNumber"
  shows "\<exists>m. MemTable_Adds C MemTable_make ops = Some m
    \<and> MemTable_Get C m (LookupKey_make u s) = Some (history_get C ops u s)"
proof -
  have "mt_holds C MemTable_make []" by (rule key_comparator.MemTable_make_holds [OF assms(1)])
  from key_comparator.MemTable_Adds_holds [OF assms(1) this, of ops] assms(2) obtain m where
    "MemTable_Adds C MemTable_make ops = Some m" "mt_holds C m ops" by auto
  with key_comparator.MemTable_Get_holds [OF assms(1) _ assms(2-4)] show ?thesis by blast
qed

lemma memtable_get_history_witness:
  "\<exists>m. MemTable_Adds BytewiseComparator MemTable_make
        [(1, kTypeValue, [97], [1]), (2, kTypeValue, [98], [2]), (3, kTypeValue, [97], [3]), (5, kTypeDeletion, [97], [])] = Some m
      \<and> MemTable_Get BytewiseComparator m (LookupKey_make [97] 4) = Some (Some (Inr [3]))"
proof -
  let ?ops = "[(1, kTypeValue, [97], [1]), (2, kTypeValue, [98], [2]), (3, kTypeValue, [97], [3]), (5, kTypeDeletion, [97], [])]"
  have ok: "history_ok ?ops" "(4 :: SequenceNumber) \<le> kMaxSequenceNumber"
    by (simp_all add: history_ok_def kMaxSequenceNumber_def)
  have "history_get BytewiseComparator ?ops [97] 4 = Some (Inr [3])"
    by (simp add: history_get_def visible_def type_result_def BytewiseComparator_def Slice_compare_def)
  with memtable_get_history [OF bytewise.key_comparator_axioms ok(1) _ ok(2), of "[97]"] show ?thesis by simp
qed

subsection \<open>The memtable iterator as an iterator\<close>

definition MemTable_Iterator :: "Comparator \<Rightarrow> MemTable \<Rightarrow> nat option Iterator" where
  "MemTable_Iterator C m =
     \<lparr>it_Valid = SkipIter_Valid, it_SeekToFirst = (\<lambda>_. Some (MemTableIter_SeekToFirst m)),
      it_SeekToLast = (\<lambda>_. MemTableIter_SeekToLast m), it_Seek = (\<lambda>_ k. MemTableIter_Seek C m k),
      it_Next = (\<lambda>node. Some (MemTableIter_Next m node)), it_Prev = MemTableIter_Prev C m,
      it_key = MemTableIter_key m, it_value = MemTableIter_value m, it_status = (\<lambda>_. Status_OK)\<rparr>"

definition MemTable_NewIterator :: "Comparator \<Rightarrow> MemTable \<Rightarrow> (nat option, 'c) IterObj" where
  "MemTable_NewIterator C m = Iterator_make (MemTable_Iterator C m) None"

definition node_entry :: "MemTable \<Rightarrow> nat \<Rightarrow> Slice \<times> Slice" where
  "node_entry m x = (MemTableIter_key m (Some x), MemTableIter_value m (Some x))"

definition mem_entries :: "MemTable \<Rightarrow> entries" where
  "mem_entries m = map (node_entry m) (sl_list (mt_table m))"

definition mem_at :: "Comparator \<Rightarrow> MemTable \<Rightarrow> nat option \<Rightarrow> entries \<Rightarrow> nat option \<Rightarrow> bool" where
  "mem_at C m node es p \<longleftrightarrow> key_comparator C \<and> sl_invar (mem_KeyComparator C) (mt_table m) \<and> es = mem_entries m
     \<and> (\<forall>i. p = Some i \<longrightarrow> i < length es) \<and> node = map_option (\<lambda>i. sl_list (mt_table m) ! i) p"

lemma mem_key_fits: "key_fits (mem_GetLengthPrefixedSlice p)"
proof -
  have "unat len < 2 ^ 32" for len :: u32 using unsigned_less [of len, where 'a = nat] by simp
  then show ?thesis
    unfolding key_fits_def mem_GetLengthPrefixedSlice_def by (auto split: option.splits simp: min_less_iff_disj)
qed

lemma first_of_index: "first_of xs = map_option (\<lambda>i. xs ! i) (index_in xs 0)"
  by (cases xs) (simp_all add: index_in_def)

lemma first_of_dropWhile: "first_of (dropWhile P xs) = map_option (\<lambda>i. xs ! i) (index_in xs (length (takeWhile P xs)))"
  by (simp add: first_of_index dropWhile_eq_drop index_in_def)

context key_comparator
begin

lemma mem_entries_sorted:
  assumes "sl_invar (mem_KeyComparator C) (mt_table m)"
  shows "entries_sorted (InternalKey_Compare C) (mem_entries m)"
  using assms unfolding sl_invar_def entries_sorted_def
  by (auto simp: mem_entries_def node_entry_def sl_contents_def sl_keys_def sorted_wrt_map mem_KeyComparator_def
      MemTableIter_key_def SkipIter_key_def mem_key_fits)

lemma mem_lower_bound:
  assumes "key_fits k"
  shows "lower_bound (InternalKey_Compare C) (mem_entries m) k
    = length (takeWhile (\<lambda>x. mem_KeyComparator C (node_key (mt_table m) x) (EncodeKey k) < 0) (sl_list (mt_table m)))"
  using assms by (simp add: lower_bound_def mem_entries_def takeWhile_map comp_def node_entry_def MemTableIter_key_def
      SkipIter_key_def mem_KeyComparator_def EncodeKey_key key_fits_def)

lemma mem_iterator: "iterator (InternalKey_Compare C) (MemTable_Iterator C m) (mem_at C m)"
proof
  fix node es p
  assume at: "mem_at C m node es p"
  then have i: "sl_invar (mem_KeyComparator C) (mt_table m)" and es: "es = mem_entries m" by (simp_all add: mem_at_def)
  let ?xs = "sl_list (mt_table m)"
  have at': "mem_at C m (map_option (\<lambda>i. ?xs ! i) q) es q" if "\<forall>i. q = Some i \<longrightarrow> i < length ?xs" for q
    using at that by (simp add: mem_at_def mem_entries_def)
  note k = mem.skip_iterator_seeks [OF i]
  show "comparator (InternalKey_Compare C) \<and> entries_sorted (InternalKey_Compare C) es"
    using ikey.comparator_axioms mem_entries_sorted [OF i] es by simp
  show "it_Valid (MemTable_Iterator C m) node = (p \<noteq> None)"
    using at by (simp add: MemTable_Iterator_def SkipIter_Valid_def mem_at_def)
  show "it_status (MemTable_Iterator C m) node = Status_OK" by (simp add: MemTable_Iterator_def)
  show "\<exists>s'. it_SeekToFirst (MemTable_Iterator C m) node = Some s' \<and> mem_at C m s' es (index_in es 0)"
    using at' [of "index_in es 0"]
    by (simp add: MemTable_Iterator_def MemTableIter_SeekToFirst_def k(1) first_of_index es mem_entries_def index_in_def)
  show "\<exists>s'. it_SeekToLast (MemTable_Iterator C m) node = Some s' \<and> mem_at C m s' es (index_before (length es))"
    using at' [of "index_before (length es)"]
    by (auto simp: MemTable_Iterator_def MemTableIter_SeekToLast_def k(2) es mem_entries_def index_before_def last_conv_nth)
  show "\<exists>s'. it_Seek (MemTable_Iterator C m) node key = Some s'
      \<and> mem_at C m s' es (index_in es (lower_bound (InternalKey_Compare C) es key))" if "key_fits key" for key
  proof -
    let ?j = "length (takeWhile (\<lambda>x. mem_KeyComparator C (node_key (mt_table m) x) (EncodeKey key) < 0) ?xs)"
    have "index_in es (lower_bound (InternalKey_Compare C) es key) = index_in ?xs ?j"
      unfolding es mem_lower_bound [OF that] by (simp add: mem_entries_def)
    moreover have "it_Seek (MemTable_Iterator C m) node key = Some (map_option (\<lambda>i. ?xs ! i) (index_in ?xs ?j))"
    proof -
      have "it_Seek (MemTable_Iterator C m) node key = MemTableIter_Seek C m key" by (simp add: MemTable_Iterator_def)
      then show ?thesis by (simp only: MemTableIter_Seek_def k(3) first_of_dropWhile)
    qed
    moreover have "mem_at C m (map_option (\<lambda>i. ?xs ! i) (index_in ?xs ?j)) es (index_in ?xs ?j)"
      by (rule at') (simp add: index_in_def)
    ultimately show ?thesis by (simp only:) blast
  qed
next
  fix node es p
  assume at: "mem_at C m node es (Some p)"
  let ?xs = "sl_list (mt_table m)"
  from at have i: "sl_invar (mem_KeyComparator C) (mt_table m)" "p < length ?xs" and es: "es = mem_entries m"
    and node: "node = Some (?xs ! p)" by (auto simp: mem_at_def mem_entries_def)
  have at': "mem_at C m (map_option (\<lambda>i. ?xs ! i) q) es q" if "\<forall>i. q = Some i \<longrightarrow> i < length ?xs" for q
    using at that by (simp add: mem_at_def mem_entries_def)
  note w = mem.skip_iterator_walk [OF i]
  show "p < length es \<and> es ! p = (it_key (MemTable_Iterator C m) node, it_value (MemTable_Iterator C m) node)"
    using i(2) by (simp add: es mem_entries_def MemTable_Iterator_def node node_entry_def)
  have "it_Next (MemTable_Iterator C m) node = Some (map_option (\<lambda>i. ?xs ! i) (index_in ?xs (Suc p)))"
    unfolding node by (simp add: MemTable_Iterator_def MemTableIter_Next_def w(1) index_in_def)
  moreover have "mem_at C m (map_option (\<lambda>i. ?xs ! i) (index_in ?xs (Suc p))) es (index_in ?xs (Suc p))"
    by (rule at') (simp add: index_in_def)
  moreover have "index_in es (Suc p) = index_in ?xs (Suc p)" by (simp add: es mem_entries_def)
  ultimately show "\<exists>s'. it_Next (MemTable_Iterator C m) node = Some s' \<and> mem_at C m s' es (index_in es (Suc p))" by simp
  have "it_Prev (MemTable_Iterator C m) node = Some (map_option (\<lambda>i. ?xs ! i) (index_before p))"
    unfolding node by (simp add: MemTable_Iterator_def MemTableIter_Prev_def w(2) index_before_def)
  moreover have "mem_at C m (map_option (\<lambda>i. ?xs ! i) (index_before p)) es (index_before p)"
    by (rule at') (use i(2) in \<open>auto simp: index_before_def\<close>)
  ultimately show "\<exists>s'. it_Prev (MemTable_Iterator C m) node = Some s' \<and> mem_at C m s' es (index_before p)" by blast
qed

end

interpretation mem_bytewise: iterator "InternalKey_Compare BytewiseComparator" "MemTable_Iterator BytewiseComparator m" "mem_at BytewiseComparator m" for m
  by (rule bytewise.mem_iterator)

lemma MemTable_NewIterator_at:
  assumes "key_comparator C" and "mt_holds C m ops"
  shows "obj_at (InternalKey_Compare C) (MemTable_NewIterator C m) (mem_entries m) None"
  unfolding MemTable_NewIterator_def
  by (rule obj_at_make [OF key_comparator.mem_iterator [OF assms(1)]])
    (use assms in \<open>simp add: mem_at_def mt_holds_def\<close>)

text \<open>The entries of a memtable that holds a history.\<close>

fun op_entry :: "mem_op \<Rightarrow> Slice \<times> Slice" where
  "op_entry (s, t, u, v) = (entry_key s t u, v)"

lemma node_entry_op:
  assumes "mem_op_ok op" and "node_key (mt_table m) x = mem_op_entry op"
  shows "node_entry m x = op_entry op"
proof -
  obtain s t u v where op: "op = (s, t, u, v)" by (cases op)
  have n: "unat (of_nat (length (entry_key s t u)) :: u32) = length (entry_key s t u)"
    using assms(1) by (simp add: op unat_of_nat del: of_nat_add)
  have "mem_GetLengthPrefixedSlice (EncodeVarint32 (of_nat (length v)) @ v) = v"
    using mem_GetLengthPrefixedSlice_Encode [of v "[]"] assms(1) by (simp add: op)
  then have "MemTableIter_value m (Some x) = v"
    using assms(2) n by (simp add: MemTableIter_value_def SkipIter_key_def op mem_entry_eq Let_def del: of_nat_add entry_key_parts(1))
  then show ?thesis
    using assms mem_entry_key [of u s t v] by (simp add: node_entry_def op MemTableIter_key_def SkipIter_key_def)
qed

lemma mem_entries_history:
  assumes "mt_holds C m ops" and "history_ok ops"
  shows "set (mem_entries m) = op_entry ` set ops"
proof -
  have s: "node_key (mt_table m) ` set (sl_list (mt_table m)) = mem_op_entry ` set ops"
    using assms(1) by (simp add: mt_holds_def sl_contents_def sl_keys_def)
  have ok: "mem_op_ok op" if "op \<in> set ops" for op using assms(2) that by (simp add: history_ok_def)
  show ?thesis
  proof
    show "set (mem_entries m) \<subseteq> op_entry ` set ops"
    proof
      fix e assume "e \<in> set (mem_entries m)"
      then obtain x where x: "x \<in> set (sl_list (mt_table m))" "e = node_entry m x" by (auto simp: mem_entries_def)
      then obtain op where "op \<in> set ops" "node_key (mt_table m) x = mem_op_entry op" using s by blast
      with x node_entry_op [OF ok] show "e \<in> op_entry ` set ops" by blast
    qed
    show "op_entry ` set ops \<subseteq> set (mem_entries m)"
    proof
      fix e assume "e \<in> op_entry ` set ops"
      then obtain op where op: "op \<in> set ops" "e = op_entry op" by blast
      then obtain x where "x \<in> set (sl_list (mt_table m))" "node_key (mt_table m) x = mem_op_entry op"
        using s by (metis imageE imageI)
      with op(2) node_entry_op [OF ok [OF op(1)]] show "e \<in> set (mem_entries m)" unfolding mem_entries_def set_map
        by (intro image_eqI [of _ _ x]) simp_all
    qed
  qed
qed

text \<open>
  C19.  Iterating over a memtable: after any history, the iterator behaves for every sequence of moves like a cursor on
  the operations of the history as internal keys and values, sorted by internal key.
\<close>

theorem memtable_iterator_trace:
  assumes "key_comparator C" and "history_ok ops"
  shows "\<exists>m es. MemTable_Adds C MemTable_make ops = Some m \<and> entries_sorted (InternalKey_Compare C) es
    \<and> set es = op_entry ` set ops
    \<and> (\<forall>ms. list_all move_fits ms \<longrightarrow> Iterator_trace obj_Iterator ms (MemTable_NewIterator C m :: (nat option, unit) IterObj)
          = Iterator_trace (cursor (InternalKey_Compare C) es) ms None)"
proof -
  have "mt_holds C MemTable_make []" by (rule key_comparator.MemTable_make_holds [OF assms(1)])
  from key_comparator.MemTable_Adds_holds [OF assms(1) this, of ops] assms(2) obtain m where
    m: "MemTable_Adds C MemTable_make ops = Some m" "mt_holds C m ops" by auto
  have "list_all move_fits ms \<longrightarrow> Iterator_trace obj_Iterator ms (MemTable_NewIterator C m :: (nat option, unit) IterObj)
      = Iterator_trace (cursor (InternalKey_Compare C) (mem_entries m)) ms None" for ms
    by (intro impI obj.iterator_trace MemTable_NewIterator_at [OF assms(1) m(2)]) (simp add: list_all_iff)
  moreover have "entries_sorted (InternalKey_Compare C) (mem_entries m)"
    using key_comparator.mem_entries_sorted [OF assms(1)] m(2) by (simp add: mt_holds_def)
  ultimately show ?thesis using m(1) mem_entries_history [OF m(2) assms(2)] by blast
qed

theorem memtable_iterator_trace_witness:
  "\<exists>m es. MemTable_Adds BytewiseComparator MemTable_make [(1, kTypeValue, [97], [1]), (2, kTypeDeletion, [97], [])] = Some m
    \<and> entries_sorted (InternalKey_Compare BytewiseComparator) es
    \<and> set es = {(entry_key 1 kTypeValue [97], [1]), (entry_key 2 kTypeDeletion [97], [])}
    \<and> Iterator_trace obj_Iterator [MFirst, MNext, MPrev] (MemTable_NewIterator BytewiseComparator m :: (nat option, unit) IterObj)
          = Iterator_trace (cursor (InternalKey_Compare BytewiseComparator) es) [MFirst, MNext, MPrev] None"
proof -
  let ?ops = "[(1, kTypeValue, [97], [1]), (2, kTypeDeletion, [97], [])]"
  have ok: "history_ok ?ops" by (simp add: history_ok_def kMaxSequenceNumber_def)
  obtain m es where m: "MemTable_Adds BytewiseComparator MemTable_make ?ops = Some m"
      "entries_sorted (InternalKey_Compare BytewiseComparator) es" "set es = op_entry ` set ?ops"
    and t: "\<forall>ms. list_all move_fits ms \<longrightarrow> Iterator_trace obj_Iterator ms (MemTable_NewIterator BytewiseComparator m :: (nat option, unit) IterObj)
          = Iterator_trace (cursor (InternalKey_Compare BytewiseComparator) es) ms None"
    using memtable_iterator_trace [OF bytewise.key_comparator_axioms ok] by blast
  from t [THEN spec, of "[MFirst, MNext, MPrev]"] m show ?thesis by (intro exI [of _ m] exI [of _ es]) simp
qed

end
