(* ===== verification/WriteBatch.thy ===== *)
theory WriteBatch
  imports MemTable
begin

text \<open>
  Write batches (\<^verbatim>\<open>include/leveldb/write_batch.h\<close>, \<^verbatim>\<open>db/write_batch.cc\<close>, \<^verbatim>\<open>db/write_batch_internal.h\<close>): a batch is
  the byte string \<^verbatim>\<open>rep_\<close> of a 12-byte header (sequence number, count) and its records.  \<^verbatim>\<open>Iterate\<close> is
  parametrised by the two methods of its handler and threads the handler's state.
\<close>

subsection \<open>Operations\<close>

type_synonym WriteBatch = bytes

definition wb_kHeader :: nat where "wb_kHeader = 12"

definition WriteBatch_Clear :: "WriteBatch \<Rightarrow> WriteBatch" where
  "WriteBatch_Clear rep = replicate wb_kHeader 0"

definition WriteBatch_make :: WriteBatch where
  "WriteBatch_make = WriteBatch_Clear []"

text \<open>Overwriting part of a string in place.\<close>

definition poke :: "bytes \<Rightarrow> nat \<Rightarrow> bytes \<Rightarrow> bytes" where
  "poke rep off bs = take off rep @ bs @ drop (off + length bs) rep"

definition Batch_Count :: "WriteBatch \<Rightarrow> u32" where
  "Batch_Count rep = DecodeFixed32 (drop 8 rep)"

definition Batch_SetCount :: "WriteBatch \<Rightarrow> u32 \<Rightarrow> WriteBatch" where
  "Batch_SetCount rep n = poke rep 8 (EncodeFixed32 n)"

definition Batch_Sequence :: "WriteBatch \<Rightarrow> SequenceNumber" where
  "Batch_Sequence rep = DecodeFixed64 rep"

definition Batch_SetSequence :: "WriteBatch \<Rightarrow> SequenceNumber \<Rightarrow> WriteBatch" where
  "Batch_SetSequence rep seq = poke rep 0 (EncodeFixed64 seq)"

definition Batch_Contents :: "WriteBatch \<Rightarrow> Slice" where
  "Batch_Contents rep = rep"

definition Batch_ByteSize :: "WriteBatch \<Rightarrow> nat" where
  "Batch_ByteSize rep = length rep"

definition WriteBatch_Put :: "WriteBatch \<Rightarrow> Slice \<Rightarrow> Slice \<Rightarrow> WriteBatch" where
  "WriteBatch_Put rep key value =
     (let rep = Batch_SetCount rep (Batch_Count rep + 1);
          rep = rep @ [ValueType_num kTypeValue];
          rep = PutLengthPrefixedSlice rep key
      in PutLengthPrefixedSlice rep value)"

definition WriteBatch_Delete :: "WriteBatch \<Rightarrow> Slice \<Rightarrow> WriteBatch" where
  "WriteBatch_Delete rep key =
     (let rep = Batch_SetCount rep (Batch_Count rep + 1);
          rep = rep @ [ValueType_num kTypeDeletion]
      in PutLengthPrefixedSlice rep key)"

text \<open>The loop of \<^verbatim>\<open>Iterate\<close>: the status of an early return, or the number of records found.\<close>

function Iterate_loop ::
  "('h \<Rightarrow> Slice \<Rightarrow> Slice \<Rightarrow> 'h) \<Rightarrow> ('h \<Rightarrow> Slice \<Rightarrow> 'h) \<Rightarrow> bytes \<Rightarrow> int \<Rightarrow> 'h \<Rightarrow> (Status + int) \<times> 'h" where
  "Iterate_loop put del input found h =
     (case input of
        [] \<Rightarrow> (Inr found, h)
      | tag # input \<Rightarrow>
          if tag = ValueType_num kTypeValue then
            (case GetLengthPrefixedSlice input of
               None \<Rightarrow> (Inl (Corruption (str ''bad WriteBatch Put'') []), h)
             | Some (key, input) \<Rightarrow>
                 (case GetLengthPrefixedSlice input of
                    None \<Rightarrow> (Inl (Corruption (str ''bad WriteBatch Put'') []), h)
                  | Some (value, input) \<Rightarrow> Iterate_loop put del input (found + 1) (put h key value)))
          else if tag = ValueType_num kTypeDeletion then
            (case GetLengthPrefixedSlice input of
               None \<Rightarrow> (Inl (Corruption (str ''bad WriteBatch Delete'') []), h)
             | Some (key, input) \<Rightarrow> Iterate_loop put del input (found + 1) (del h key))
          else (Inl (Corruption (str ''unknown WriteBatch tag'') []), h))"
  by pat_completeness auto
termination
  by (relation "measure (\<lambda>(_, _, input, _, _). length input)")
    (auto dest!: GetLengthPrefixedSlice_shorter)

declare Iterate_loop.simps [simp del]

definition WriteBatch_Iterate ::
  "('h \<Rightarrow> Slice \<Rightarrow> Slice \<Rightarrow> 'h) \<Rightarrow> ('h \<Rightarrow> Slice \<Rightarrow> 'h) \<Rightarrow> WriteBatch \<Rightarrow> 'h \<Rightarrow> Status \<times> 'h" where
  "WriteBatch_Iterate put del rep h =
     (if length rep < wb_kHeader then (Corruption (str ''malformed WriteBatch (too small)'') [], h)
      else case Iterate_loop put del (drop wb_kHeader rep) 0 h of
             (Inl s, h) \<Rightarrow> (s, h)
           | (Inr found, h) \<Rightarrow>
               if found \<noteq> sint (Batch_Count rep) then (Corruption (str ''WriteBatch has wrong count'') [], h)
               else (Status_OK, h))"

text \<open>\<open>None\<close> for a memtable operation that does not return.\<close>

record MemTableInserter =
  mi_sequence :: SequenceNumber
  mi_mem :: "MemTable option"

definition Inserter_Put :: "Comparator \<Rightarrow> MemTableInserter \<Rightarrow> Slice \<Rightarrow> Slice \<Rightarrow> MemTableInserter" where
  "Inserter_Put C i key value =
     i\<lparr>mi_mem := Option.bind (mi_mem i) (\<lambda>m. MemTable_Add C m (mi_sequence i) kTypeValue key value),
       mi_sequence := mi_sequence i + 1\<rparr>"

definition Inserter_Delete :: "Comparator \<Rightarrow> MemTableInserter \<Rightarrow> Slice \<Rightarrow> MemTableInserter" where
  "Inserter_Delete C i key =
     i\<lparr>mi_mem := Option.bind (mi_mem i) (\<lambda>m. MemTable_Add C m (mi_sequence i) kTypeDeletion key []),
       mi_sequence := mi_sequence i + 1\<rparr>"

definition Batch_InsertInto :: "Comparator \<Rightarrow> WriteBatch \<Rightarrow> MemTable \<Rightarrow> Status \<times> MemTable option" where
  "Batch_InsertInto C b memtable =
     (let (s, i) = WriteBatch_Iterate (Inserter_Put C) (Inserter_Delete C) b
                     \<lparr>mi_sequence = Batch_Sequence b, mi_mem = Some memtable\<rparr>
      in (s, mi_mem i))"

definition Batch_SetContents :: "WriteBatch \<Rightarrow> Slice \<Rightarrow> WriteBatch" where
  "Batch_SetContents b contents = contents"

definition Batch_Append :: "WriteBatch \<Rightarrow> WriteBatch \<Rightarrow> WriteBatch" where
  "Batch_Append dst src =
     (let dst = Batch_SetCount dst (Batch_Count dst + Batch_Count src) in dst @ drop wb_kHeader src)"

subsection \<open>Batches as lists of operations\<close>

datatype batch_op = BPut Slice Slice | BDelete Slice

primrec op_bytes :: "batch_op \<Rightarrow> bytes" where
  "op_bytes (BPut k v) = ValueType_num kTypeValue # PutLengthPrefixedSlice [] k @ PutLengthPrefixedSlice [] v"
| "op_bytes (BDelete k) = ValueType_num kTypeDeletion # PutLengthPrefixedSlice [] k"

primrec op_ok :: "batch_op \<Rightarrow> bool" where
  "op_ok (BPut k v) \<longleftrightarrow> length k < 2 ^ 32 - 8 \<and> length v < 2 ^ 32"
| "op_ok (BDelete k) \<longleftrightarrow> length k < 2 ^ 32 - 8"

primrec batch_apply :: "WriteBatch \<Rightarrow> batch_op \<Rightarrow> WriteBatch" where
  "batch_apply b (BPut k v) = WriteBatch_Put b k v"
| "batch_apply b (BDelete k) = WriteBatch_Delete b k"

definition batch_rep :: "SequenceNumber \<Rightarrow> batch_op list \<Rightarrow> WriteBatch" where
  "batch_rep seq ops = EncodeFixed64 seq @ EncodeFixed32 (of_nat (length ops)) @ concat (map op_bytes ops)"

text \<open>The calls a handler receives, and the state it ends in.\<close>

primrec handle :: "('h \<Rightarrow> Slice \<Rightarrow> Slice \<Rightarrow> 'h) \<Rightarrow> ('h \<Rightarrow> Slice \<Rightarrow> 'h) \<Rightarrow> 'h \<Rightarrow> batch_op \<Rightarrow> 'h" where
  "handle put del h (BPut k v) = put h k v"
| "handle put del h (BDelete k) = del h k"

lemma PutLengthPrefixedSlice_append: "PutLengthPrefixedSlice dst v = dst @ PutLengthPrefixedSlice [] v"
  by (simp add: PutLengthPrefixedSlice_def PutVarint32_def)

lemma poke_count: "length a = 8 \<Longrightarrow> length b = 4 \<Longrightarrow> length b' = 4 \<Longrightarrow> poke (a @ b @ c) 8 b' = a @ b' @ c"
  by (simp add: poke_def)

lemma poke_sequence: "length a = 8 \<Longrightarrow> length a' = 8 \<Longrightarrow> poke (a @ c) 0 a' = a' @ c"
  by (simp add: poke_def)

lemma batch_rep_header [simp]:
  "Batch_Count (batch_rep seq ops) = of_nat (length ops)" "Batch_Sequence (batch_rep seq ops) = seq"
  "wb_kHeader \<le> length (batch_rep seq ops)" "drop wb_kHeader (batch_rep seq ops) = concat (map op_bytes ops)"
  by (simp_all add: Batch_Count_def Batch_Sequence_def batch_rep_def wb_kHeader_def)

lemma Batch_SetCount_rep: "Batch_SetCount (batch_rep seq ops) n = EncodeFixed64 seq @ EncodeFixed32 n @ concat (map op_bytes ops)"
  unfolding Batch_SetCount_def batch_rep_def by (rule poke_count) simp_all

lemma Batch_SetSequence_rep: "Batch_SetSequence (batch_rep seq ops) seq' = batch_rep seq' ops"
  unfolding Batch_SetSequence_def batch_rep_def by (rule poke_sequence) simp_all

lemma EncodeFixed_zero: "EncodeFixed64 0 @ EncodeFixed32 0 = replicate 12 0"
  by (simp add: EncodeFixed64_def EncodeFixed32_def kLittleEndian_def mem_image_def upt_rec numeral_eq_Suc)

lemma WriteBatch_make_rep: "WriteBatch_make = batch_rep 0 []"
  by (simp add: WriteBatch_make_def WriteBatch_Clear_def batch_rep_def wb_kHeader_def EncodeFixed_zero)

lemma batch_apply_rep: "batch_apply (batch_rep seq ops) op = batch_rep seq (ops @ [op])"
proof (cases op)
  case (BPut k v)
  then show ?thesis
    by (simp add: WriteBatch_Put_def Let_def Batch_SetCount_rep PutLengthPrefixedSlice_append [of "_ @ _"])
      (simp add: batch_rep_def add.commute)
next
  case (BDelete k)
  then show ?thesis
    by (simp add: WriteBatch_Delete_def Let_def Batch_SetCount_rep PutLengthPrefixedSlice_append [of "_ @ _"])
      (simp add: batch_rep_def add.commute)
qed

lemma batch_build: "foldl batch_apply (batch_rep seq ops) ops' = batch_rep seq (ops @ ops')"
  by (induction ops' arbitrary: ops) (simp_all add: batch_apply_rep)

lemma Batch_Append_rep: "Batch_Append (batch_rep s a) (batch_rep s' b) = batch_rep s (a @ b)"
  by (simp add: Batch_Append_def Let_def Batch_SetCount_rep) (simp add: batch_rep_def)

subsection \<open>Iteration\<close>

lemma Iterate_loop_op:
  assumes "op_ok op"
  shows "Iterate_loop put del (op_bytes op @ rest) n h = Iterate_loop put del rest (n + 1) (handle put del h op)"
  using assms by (cases op) (subst Iterate_loop.simps, simp add: Iterate_loop.simps [of _ _ "_ # _"])+

lemma Iterate_loop_ops:
  "\<forall>op \<in> set ops. op_ok op \<Longrightarrow>
   Iterate_loop put del (concat (map op_bytes ops)) n h = (Inr (n + int (length ops)), foldl (handle put del) h ops)"
proof (induction ops arbitrary: n h)
  case Nil
  then show ?case by (subst Iterate_loop.simps) simp
qed (simp add: Iterate_loop_op)

lemma Iterate_rep:
  assumes "\<forall>op \<in> set ops. op_ok op" and "length ops < 2 ^ 31"
  shows "WriteBatch_Iterate put del (batch_rep seq ops) h = (Status_OK, foldl (handle put del) h ops)"
proof -
  have "sint (of_nat (length ops) :: u32) = int (length ops)"
    using assms(2) by (simp add: signed_of_nat signed_take_bit_int_eq_self)
  then show ?thesis
    using leD [OF batch_rep_header(3) [of seq ops]] by (simp add: WriteBatch_Iterate_def Iterate_loop_ops [OF assms(1)])
qed

text \<open>An iteration that succeeds made exactly as many calls as the header counts.\<close>

definition record_put :: "batch_op list \<Rightarrow> Slice \<Rightarrow> Slice \<Rightarrow> batch_op list" where
  "record_put ops k v = ops @ [BPut k v]"

definition record_delete :: "batch_op list \<Rightarrow> Slice \<Rightarrow> batch_op list" where
  "record_delete ops k = ops @ [BDelete k]"

lemma record_foldl: "foldl (handle record_put record_delete) h ops = h @ ops"
proof (induction ops arbitrary: h)
  case (Cons op ops)
  then show ?case by (cases op) (simp_all add: record_put_def record_delete_def)
qed simp

lemma Iterate_loop_count:
  "Iterate_loop record_put record_delete input n h = (Inr m, h')
   \<Longrightarrow> m - n = int (length h') - int (length h)"
proof (induction input arbitrary: n h rule: length_induct)
  case (1 input)
  note IH = "1.IH" [rule_format]
  show ?case
  proof (cases input)
    case Nil
    then show ?thesis using "1.prems" by (simp add: Iterate_loop.simps [of _ _ "[]"])
  next
    case (Cons tag rest)
    have put: "m - n = int (length h') - int (length h)"
      if "GetLengthPrefixedSlice rest = Some (k, r1)" "GetLengthPrefixedSlice r1 = Some (v, r2)"
        "Iterate_loop record_put record_delete r2 (n + 1) (record_put h k v) = (Inr m, h')" for k r1 v r2
      using IH [OF _ that(3)] GetLengthPrefixedSlice_shorter [OF that(1)] GetLengthPrefixedSlice_shorter [OF that(2)]
      by (simp add: Cons record_put_def)
    have del: "m - n = int (length h') - int (length h)"
      if "GetLengthPrefixedSlice rest = Some (k, r1)"
        "Iterate_loop record_put record_delete r1 (n + 1) (record_delete h k) = (Inr m, h')" for k r1
      using IH [OF _ that(2)] GetLengthPrefixedSlice_shorter [OF that(1)]
      by (simp add: Cons record_delete_def)
    from "1.prems" [unfolded Cons Iterate_loop.simps [of _ _ "_ # _"]] show ?thesis
      by (auto split: if_splits option.splits intro: put del)
  qed
qed

lemma Iterate_loop_error: "Iterate_loop put del input n h = (Inl s, h') \<Longrightarrow> \<not> Status_ok s"
proof (induction input arbitrary: n h rule: length_induct)
  case (1 input)
  note IH = "1.IH" [rule_format]
  show ?case
  proof (cases input)
    case Nil
    then show ?thesis using "1.prems" by (simp add: Iterate_loop.simps [of _ _ "[]"])
  next
    case (Cons tag rest)
    have more: "\<not> Status_ok s"
      if "length r \<le> length rest" "Iterate_loop put del r (n + 1) h1 = (Inl s, h')" for r h1
      using IH [OF _ that(2)] that(1) by (simp add: Cons)
    from "1.prems" [unfolded Cons Iterate_loop.simps [of _ _ "_ # _"]] show ?thesis
      using more by (auto simp: Corruption_def Status_make_def Status_ok_def split: if_splits option.splits
          dest!: GetLengthPrefixedSlice_shorter) (metis less_imp_le less_trans)+
  qed
qed

subsection \<open>Insertion into a memtable\<close>

text \<open>The operations of a batch with the sequence numbers they get.\<close>

fun numbered :: "SequenceNumber \<Rightarrow> batch_op list \<Rightarrow> mem_op list" where
  "numbered seq [] = []"
| "numbered seq (BPut k v # ops) = (seq, kTypeValue, k, v) # numbered (seq + 1) ops"
| "numbered seq (BDelete k # ops) = (seq, kTypeDeletion, k, []) # numbered (seq + 1) ops"

lemma Inserter_op:
  "handle (Inserter_Put C) (Inserter_Delete C) \<lparr>mi_sequence = seq, mi_mem = r\<rparr> (BPut k v)
   = \<lparr>mi_sequence = seq + 1, mi_mem = Option.bind r (\<lambda>m. MemTable_Add C m seq kTypeValue k v)\<rparr>"
  "handle (Inserter_Put C) (Inserter_Delete C) \<lparr>mi_sequence = seq, mi_mem = r\<rparr> (BDelete k)
   = \<lparr>mi_sequence = seq + 1, mi_mem = Option.bind r (\<lambda>m. MemTable_Add C m seq kTypeDeletion k [])\<rparr>"
  by (simp_all add: Inserter_Put_def Inserter_Delete_def)

lemma Inserter_foldl:
  "foldl (handle (Inserter_Put C) (Inserter_Delete C)) \<lparr>mi_sequence = seq, mi_mem = r\<rparr> ops
   = \<lparr>mi_sequence = seq + of_nat (length ops), mi_mem = Option.bind r (\<lambda>m. MemTable_Adds C m (numbered seq ops))\<rparr>"
proof (induction seq ops arbitrary: r rule: numbered.induct)
  case (2 seq k v ops)
  then show ?case
    by (simp add: Inserter_op add.assoc del: handle.simps) (auto simp: bind_eq_None_conv split: option.split bind_splits)
next
  case (3 seq k ops)
  then show ?case
    by (simp add: Inserter_op add.assoc del: handle.simps) (auto simp: bind_eq_None_conv split: option.split bind_splits)
qed (cases r; simp)

lemma numbered_range:
  assumes "unat seq + length ops \<le> 2 ^ 56" and "op \<in> set (numbered seq ops)"
  shows "seq \<le> fst op \<and> fst op \<le> kMaxSequenceNumber"
  using assms
proof (induction seq ops rule: numbered.induct)
  case (2 seq k v ops)
  have "unat (seq + 1) = unat seq + 1" using 2(2) by (simp add: unat_word_ariths)
  with 2 show ?case by (fastforce simp: word_le_nat_alt unat_kMaxSequenceNumber)
next
  case (3 seq k ops)
  have "unat (seq + 1) = unat seq + 1" using 3(2) by (simp add: unat_word_ariths)
  with 3 show ?case by (fastforce simp: word_le_nat_alt unat_kMaxSequenceNumber)
qed simp

lemma numbered_history:
  assumes "unat seq + length ops \<le> 2 ^ 56" and "\<forall>op \<in> set ops. op_ok op"
  shows "history_ok (numbered seq ops)"
  using assms
proof (induction seq ops rule: numbered.induct)
  case (1 seq)
  then show ?case by (simp add: history_ok_def)
next
  case (2 seq k v ops)
  have s: "unat (seq + 1) = unat seq + 1" "seq \<le> kMaxSequenceNumber"
    using 2(2) by (simp_all add: unat_word_ariths word_le_nat_alt unat_kMaxSequenceNumber)
  have "seq < fst op" if "op \<in> set (numbered (seq + 1) ops)" for op
    using numbered_range [OF _ that] 2(2) s by (simp add: word_le_nat_alt word_less_nat_alt)
  with 2 s show ?case by (simp add: history_ok_def)
next
  case (3 seq k ops)
  have s: "unat (seq + 1) = unat seq + 1" "seq \<le> kMaxSequenceNumber"
    using 3(2) by (simp_all add: unat_word_ariths word_le_nat_alt unat_kMaxSequenceNumber)
  have "seq < fst op" if "op \<in> set (numbered (seq + 1) ops)" for op
    using numbered_range [OF _ that] 3(2) s by (simp add: word_le_nat_alt word_less_nat_alt)
  with 3 s show ?case by (simp add: history_ok_def)
qed

lemma history_ok_append:
  "history_ok a \<Longrightarrow> history_ok b \<Longrightarrow> (\<And>x y. x \<in> set a \<Longrightarrow> y \<in> set b \<Longrightarrow> fst x < fst y) \<Longrightarrow> history_ok (a @ b)"
  by (auto simp: history_ok_def sorted_wrt_append)

context key_comparator
begin

lemma InsertInto_holds:
  assumes "mt_holds C m hist" and "history_ok hist" and "\<forall>op \<in> set hist. fst op < seq"
    and "\<forall>op \<in> set ops. op_ok op" and "length ops < 2 ^ 31" and "unat seq + length ops \<le> 2 ^ 56"
  obtains m' where "Batch_InsertInto C (batch_rep seq ops) m = (Status_OK, Some m')"
    and "mt_holds C m' (hist @ numbered seq ops)" and "history_ok (hist @ numbered seq ops)"
proof -
  have h: "history_ok (hist @ numbered seq ops)"
    using assms(3) numbered_range [OF assms(6)]
    by (intro history_ok_append assms(2) numbered_history [OF assms(6,4)]) (meson less_le_trans)
  obtain m' where "MemTable_Adds C m (numbered seq ops) = Some m'" "mt_holds C m' (hist @ numbered seq ops)"
    using MemTable_Adds_holds [OF assms(1) h] by blast
  then show thesis
    using Iterate_rep [OF assms(4,5), of "Inserter_Put C" "Inserter_Delete C" seq] h
    by (intro that) (simp_all add: Batch_InsertInto_def Inserter_foldl)
qed

end

subsection \<open>Properties\<close>

text \<open>
  C35.  Round trip of write batches.  Building a batch from puts and deletions, appending a second batch to
  it and stamping it with a sequence number, iterating over the result succeeds and calls the handler with
  exactly these operations in order.
\<close>

theorem batch_roundtrip:
  assumes "\<forall>op \<in> set (ops @ ops'). op_ok op" and "length ops + length ops' < 2 ^ 31"
  shows "WriteBatch_Iterate record_put record_delete
      (Batch_SetSequence (Batch_Append (foldl batch_apply WriteBatch_make ops) (foldl batch_apply WriteBatch_make ops')) seq) []
    = (Status_OK, ops @ ops')"
  using Iterate_rep [of "ops @ ops'" record_put record_delete seq "[]"] assms
  by (simp add: WriteBatch_make_rep batch_build Batch_Append_rep Batch_SetSequence_rep record_foldl)

lemma batch_roundtrip_witness:
  "WriteBatch_Iterate record_put record_delete
      (Batch_SetSequence (Batch_Append (foldl batch_apply WriteBatch_make [BPut [1] [2, 3], BDelete [4]])
         (foldl batch_apply WriteBatch_make [BPut [] []])) 77) []
    = (Status_OK, [BPut [1] [2, 3], BDelete [4], BPut [] []])"
  using batch_roundtrip [of "[BPut [1] [2, 3], BDelete [4]]" "[BPut [] []]" 77] by simp

text \<open>
  A batch that \<^verbatim>\<open>Iterate\<close> accepts, whatever its bytes, made exactly as many handler calls as its header
  counts, so a truncated or padded batch is never reported as OK.
\<close>

theorem batch_iterate_count:
  assumes "WriteBatch_Iterate record_put record_delete rep [] = (s, ops)" and "Status_ok s"
  shows "wb_kHeader \<le> length rep \<and> int (length ops) = sint (Batch_Count rep)"
  using assms
  by (auto simp: WriteBatch_Iterate_def Corruption_def Status_ok_def Status_make_def Status_OK_def
      dest!: Iterate_loop_count Iterate_loop_error [unfolded Status_ok_def] split: if_splits prod.splits sum.splits)

lemma batch_iterate_count_witness:
  "wb_kHeader \<le> length WriteBatch_make \<and> int (length ([] :: batch_op list)) = sint (Batch_Count WriteBatch_make)"
  using batch_iterate_count [of WriteBatch_make Status_OK "[]"] Iterate_rep [of "[]" record_put record_delete 0 "[]"]
  by (simp add: WriteBatch_make_rep Status_OK_def Status_ok_def)

text \<open>
  C17.  Inserting a batch into a memtable.  On a memtable that holds a history older than the batch, the
  insertion returns OK, and lookups afterwards see the history extended by the operations of the batch, the
  i-th one at the sequence number of the batch plus i.
\<close>

theorem batch_insert_lookup:
  assumes "key_comparator C" and "history_ok hist" and "\<forall>op \<in> set hist. fst op < seq"
    and "\<forall>op \<in> set ops. op_ok op" and "length ops < 2 ^ 31" and "unat seq + length ops \<le> 2 ^ 56"
    and "MemTable_Adds C MemTable_make hist = Some m"
    and "length u < 2 ^ 32 - 8" and "s \<le> kMaxSequenceNumber"
  shows "\<exists>m'. Batch_InsertInto C (Batch_SetSequence (foldl batch_apply WriteBatch_make ops) seq) m = (Status_OK, Some m')
    \<and> MemTable_Get C m' (LookupKey_make u s) = Some (history_get C (hist @ numbered seq ops) u s)"
proof -
  have "mt_holds C m hist"
    using key_comparator.MemTable_Adds_holds [OF assms(1) key_comparator.MemTable_make_holds [OF assms(1)], of hist] assms(2,7)
    by auto
  from key_comparator.InsertInto_holds [OF assms(1) this assms(2-6)] obtain m' where
    m': "Batch_InsertInto C (batch_rep seq ops) m = (Status_OK, Some m')"
      "mt_holds C m' (hist @ numbered seq ops)" "history_ok (hist @ numbered seq ops)" by blast
  from key_comparator.MemTable_Get_holds [OF assms(1) m'(2,3) assms(8,9)] m'(1) show ?thesis
    by (simp add: WriteBatch_make_rep batch_build Batch_SetSequence_rep)
qed

lemma batch_insert_lookup_witness:
  "\<exists>m'. Batch_InsertInto BytewiseComparator (Batch_SetSequence (foldl batch_apply WriteBatch_make [BPut [1] [2], BDelete [1]]) 10)
        MemTable_make = (Status_OK, Some m')
      \<and> MemTable_Get BytewiseComparator m' (LookupKey_make [1] 10) = Some (Some (Inr [2]))"
proof -
  have h: "history_ok []" "(10 :: SequenceNumber) \<le> kMaxSequenceNumber" by (simp_all add: history_ok_def kMaxSequenceNumber_def)
  have "history_get BytewiseComparator (numbered 10 [BPut [1] [2], BDelete [1]]) [1] 10 = Some (Inr [2])"
    by (simp add: history_get_def visible_def type_result_def BytewiseComparator_def Slice_compare_def)
  with batch_insert_lookup [OF bytewise.key_comparator_axioms h(1), of 10 "[BPut [1] [2], BDelete [1]]" MemTable_make "[1]" 10] h(2)
  show ?thesis by simp
qed

end
