(* ===== verification/FilterBlock.thy ===== *)
theory FilterBlock
  imports Bloom
begin

text \<open>
  The filter block of a table (\<^verbatim>\<open>table/filter_block.{h,cc}\<close>): one filter per 2 KiB of file offsets, concatenated
  and indexed by an array of offsets.  Shown in the locale of a filter policy: whatever data blocks are
  started at non-decreasing offsets, no key of a block is ever ruled out by the reader at the offset of the
  block.
\<close>

subsection \<open>FilterBlockBuilder\<close>

definition kFilterBaseLg :: nat where "kFilterBaseLg = 11"
definition kFilterBase :: nat where "kFilterBase = 2 ^ kFilterBaseLg"

record FilterBlockBuilder =
  fb_keys :: bytes
  fb_start :: "nat list"
  fb_result :: bytes
  fb_filter_offsets :: "u32 list"

definition FilterBlockBuilder_make :: FilterBlockBuilder where
  "FilterBlockBuilder_make = \<lparr>fb_keys = [], fb_start = [], fb_result = [], fb_filter_offsets = []\<rparr>"

definition GenerateFilter :: "FilterPolicy \<Rightarrow> FilterBlockBuilder \<Rightarrow> FilterBlockBuilder" where
  "GenerateFilter P b =
     (let num_keys = length (fb_start b) in
      if num_keys = 0
      then b\<lparr>fb_filter_offsets := fb_filter_offsets b @ [of_nat (length (fb_result b))]\<rparr>
      else let start = fb_start b @ [length (fb_keys b)];
               tmp_keys = map (\<lambda>i. take (start ! (i + 1) - start ! i) (drop (start ! i) (fb_keys b))) [0..<num_keys]
           in b\<lparr>fb_filter_offsets := fb_filter_offsets b @ [of_nat (length (fb_result b))],
                fb_result := CreateFilter P tmp_keys (fb_result b), fb_keys := [], fb_start := []\<rparr>)"

lemma GenerateFilter_count [simp]:
  "length (fb_filter_offsets (GenerateFilter P b)) = Suc (length (fb_filter_offsets b))"
  by (simp add: GenerateFilter_def Let_def)

function StartBlock_loop :: "FilterPolicy \<Rightarrow> FilterBlockBuilder \<Rightarrow> nat \<Rightarrow> FilterBlockBuilder" where
  "StartBlock_loop P b filter_index =
     (if filter_index > length (fb_filter_offsets b)
      then StartBlock_loop P (GenerateFilter P b) filter_index else b)"
  by pat_completeness auto
termination by (relation "measure (\<lambda>(_, b, n). n - length (fb_filter_offsets b))") auto

declare StartBlock_loop.simps [simp del]

definition StartBlock :: "FilterPolicy \<Rightarrow> FilterBlockBuilder \<Rightarrow> u64 \<Rightarrow> FilterBlockBuilder" where
  "StartBlock P b block_offset = StartBlock_loop P b (unat block_offset div kFilterBase)"

definition AddKey :: "FilterBlockBuilder \<Rightarrow> Slice \<Rightarrow> FilterBlockBuilder" where
  "AddKey b key = b\<lparr>fb_start := fb_start b @ [length (fb_keys b)], fb_keys := fb_keys b @ key\<rparr>"

definition FilterBlock_Finish :: "FilterPolicy \<Rightarrow> FilterBlockBuilder \<Rightarrow> Slice \<times> FilterBlockBuilder" where
  "FilterBlock_Finish P b =
     (let b = (if fb_start b \<noteq> [] then GenerateFilter P b else b);
          array_offset = of_nat (length (fb_result b)) :: u32;
          result = foldl PutFixed32 (fb_result b) (fb_filter_offsets b);
          result = PutFixed32 result array_offset @ [of_nat kFilterBaseLg];
          b = b\<lparr>fb_result := result\<rparr>
      in (fb_result b, b))"

subsection \<open>FilterBlockReader\<close>

text \<open>The offset array is an offset into the data; \<open>None\<close> stands for the null pointers of a rejected block.\<close>

record FilterBlockReader =
  fr_data :: "bytes option"
  fr_offset :: nat
  fr_num :: nat
  fr_base_lg :: nat

definition FilterBlockReader_make :: "Slice \<Rightarrow> FilterBlockReader" where
  "FilterBlockReader_make contents =
     (let r = \<lparr>fr_data = None, fr_offset = 0, fr_num = 0, fr_base_lg = 0\<rparr>;
          n = length contents
      in if n < 5 then r
         else let r = r\<lparr>fr_base_lg := unat (contents ! (n - 1))\<rparr>;
                  last_word = unat (DecodeFixed32 (drop (n - 5) contents))
              in if last_word > n - 5 then r
                 else r\<lparr>fr_data := Some contents, fr_offset := last_word, fr_num := (n - 5 - last_word) div 4\<rparr>)"

definition FilterBlock_KeyMayMatch :: "FilterPolicy \<Rightarrow> FilterBlockReader \<Rightarrow> u64 \<Rightarrow> Slice \<Rightarrow> bool" where
  "FilterBlock_KeyMayMatch P r block_offset key =
     (let index = unat (drop_bit (fr_base_lg r) block_offset) in
      if index < fr_num r then
        let data = the (fr_data r);
            start = unat (DecodeFixed32 (drop (fr_offset r + index * 4) data));
            limit = unat (DecodeFixed32 (drop (fr_offset r + index * 4 + 4) data))
        in if start \<le> limit \<and> limit \<le> fr_offset r
           then KeyMayMatch P key (take (limit - start) (drop start data))
           else if start = limit then False
           else True
      else True)"

subsection \<open>Contents of a builder\<close>

text \<open>
  \<open>fb_holds\<close>: the filters generated so far are the byte strings \<open>segs\<close>, each accepting the keys in the list at its
  index, and the keys \<open>pend\<close> wait for the next filter.
\<close>

definition seg_off :: "bytes list \<Rightarrow> nat \<Rightarrow> nat" where
  "seg_off segs i = length (concat (take i segs))"

definition fb_holds :: "FilterPolicy \<Rightarrow> FilterBlockBuilder \<Rightarrow> bytes list \<Rightarrow> Slice list list \<Rightarrow> Slice list \<Rightarrow> bool" where
  "fb_holds P b segs ks pend \<longleftrightarrow> fb_keys b = concat pend
     \<and> fb_start b = map (\<lambda>i. length (concat (take i pend))) [0..<length pend]
     \<and> fb_result b = concat segs \<and> length ks = length segs
     \<and> fb_filter_offsets b = map (\<lambda>i. of_nat (seg_off segs i)) [0..<length segs]
     \<and> (\<forall>i < length segs. \<forall>k \<in> set (ks ! i). KeyMayMatch P k (segs ! i))"

lemma fb_make_holds: "fb_holds P FilterBlockBuilder_make [] [] []"
  by (simp add: fb_holds_def FilterBlockBuilder_make_def)

lemma AddKey_holds: "fb_holds P b segs ks pend \<Longrightarrow> fb_holds P (AddKey b k) segs ks (pend @ [k])"
  by (simp add: fb_holds_def AddKey_def)

lemma concat_split_keys:
  "map (\<lambda>i. take (length (concat (take (i + 1) pend)) - length (concat (take i pend)))
      (drop (length (concat (take i pend))) (concat pend))) [0..<length pend] = pend"
proof (rule nth_equalityI)
  fix i assume "i < length (map (\<lambda>i. take (length (concat (take (i + 1) pend)) - length (concat (take i pend)))
      (drop (length (concat (take i pend))) (concat pend))) [0..<length pend])"
  then have i: "i < length pend" by simp
  have "concat pend = concat (take i pend) @ pend ! i @ concat (drop (Suc i) pend)"
    using i by (subst id_take_nth_drop [OF i]) simp
  then have "drop (length (concat (take i pend))) (concat pend) = pend ! i @ concat (drop (Suc i) pend)" by simp
  then show "map (\<lambda>i. take (length (concat (take (i + 1) pend)) - length (concat (take i pend)))
      (drop (length (concat (take i pend))) (concat pend))) [0..<length pend] ! i = pend ! i"
    using i by (simp add: take_Suc_conv_app_nth)
qed simp

lemma seg_off_append: "i \<le> length segs \<Longrightarrow> seg_off (segs @ segs') i = seg_off segs i"
  by (simp add: seg_off_def)

context filter_policy
begin

lemma GenerateFilter_holds:
  assumes "fb_holds P b segs ks pend"
  obtains seg where "fb_holds P (GenerateFilter P b) (segs @ [seg]) (ks @ [pend]) []"
proof (cases "pend = []")
  case True
  have "fb_holds P (GenerateFilter P b) (segs @ [[]]) (ks @ [pend]) []"
    using assms True by (auto simp: fb_holds_def GenerateFilter_def seg_off_append seg_off_def nth_append less_Suc_eq)
  then show thesis by (rule that)
next
  case False
  have start: "fb_start b @ [length (fb_keys b)] = map (\<lambda>i. length (concat (take i pend))) [0..<Suc (length pend)]"
    using assms by (simp add: fb_holds_def)
  have keys: "map (\<lambda>i. take ((fb_start b @ [length (fb_keys b)]) ! (i + 1) - (fb_start b @ [length (fb_keys b)]) ! i)
      (drop ((fb_start b @ [length (fb_keys b)]) ! i) (fb_keys b))) [0..<length (fb_start b)] = pend"
  proof -
    have "length (fb_start b) = length pend" "fb_keys b = concat pend" using assms by (simp_all add: fb_holds_def)
    then show ?thesis
      unfolding start by (subst (2) concat_split_keys [symmetric]) (simp cong: map_cong del: upt_Suc)
  qed
  obtain seg where seg: "CreateFilter P pend (concat segs) = concat segs @ seg" using create_prefix by blast
  then have ok: "\<forall>k \<in> set pend. KeyMayMatch P k seg" using no_false_negative [of _ pend "concat segs"] by simp
  have "fb_start b \<noteq> []" using assms False by (simp add: fb_holds_def)
  then have "GenerateFilter P b = b\<lparr>fb_filter_offsets := fb_filter_offsets b @ [of_nat (length (concat segs))],
      fb_result := concat segs @ seg, fb_keys := [], fb_start := []\<rparr>"
    using assms keys seg by (simp add: GenerateFilter_def Let_def fb_holds_def)
  then have "fb_holds P (GenerateFilter P b) (segs @ [seg]) (ks @ [pend]) []"
    using assms ok by (auto simp: fb_holds_def seg_off_append seg_off_def nth_append less_Suc_eq)
  then show thesis by (rule that)
qed

end

text \<open>Every key recorded at the offset of its block is in the filter of that offset or still waits for it.\<close>

abbreviation filter_index :: "u64 \<Rightarrow> nat" where "filter_index off \<equiv> unat off div kFilterBase"

definition fb_covers :: "Slice list list \<Rightarrow> Slice list \<Rightarrow> (u64 \<times> Slice) set \<Rightarrow> bool" where
  "fb_covers ks pend R \<longleftrightarrow> (\<forall>(off, k) \<in> R. filter_index off < length ks \<and> k \<in> set (ks ! filter_index off)
     \<or> filter_index off = length ks \<and> k \<in> set pend)"

definition fb_run :: "FilterPolicy \<Rightarrow> FilterBlockBuilder \<Rightarrow> (u64 \<times> Slice list) list \<Rightarrow> FilterBlockBuilder" where
  "fb_run P b blocks = foldl (\<lambda>b (off, keys). foldl AddKey (StartBlock P b off) keys) b blocks"

definition block_keys :: "(u64 \<times> Slice list) list \<Rightarrow> (u64 \<times> Slice) set" where
  "block_keys blocks = {(off, k). \<exists>keys. (off, keys) \<in> set blocks \<and> k \<in> set keys}"

lemma fb_covers_flush: "fb_covers ks pend R \<Longrightarrow> fb_covers (ks @ [pend]) [] R"
  by (fastforce simp: fb_covers_def nth_append)

lemma foldl_AddKey_holds:
  "fb_holds P b segs ks pend \<Longrightarrow> fb_holds P (foldl AddKey b keys) segs ks (pend @ keys)"
proof (induction keys arbitrary: b pend)
  case (Cons k keys)
  from Cons.IH [OF AddKey_holds [OF Cons.prems, of k]] show ?case by simp
qed simp

context filter_policy
begin

lemma StartBlock_loop_holds:
  assumes "fb_holds P b segs ks pend" and "fb_covers ks pend R" and "length ks \<le> n"
  shows "\<exists>segs' ks' pend'. fb_holds P (StartBlock_loop P b n) segs' ks' pend' \<and> fb_covers ks' pend' R \<and> length ks' = n"
  using assms
proof (induction "n - length ks" arbitrary: b segs ks pend)
  case 0
  then have "StartBlock_loop P b n = b" by (subst StartBlock_loop.simps) (simp add: fb_holds_def)
  then show ?case using 0 by (intro exI [of _ segs] exI [of _ ks] exI [of _ pend]) simp
next
  case (Suc d)
  obtain seg where g: "fb_holds P (GenerateFilter P b) (segs @ [seg]) (ks @ [pend]) []"
    using GenerateFilter_holds [OF Suc.prems(1)] .
  have "StartBlock_loop P b n = StartBlock_loop P (GenerateFilter P b) n"
    using Suc by (subst StartBlock_loop.simps) (simp add: fb_holds_def)
  moreover have "d = n - length (ks @ [pend])" "length (ks @ [pend]) \<le> n" using Suc.hyps(2) by simp_all
  ultimately show ?case using Suc.hyps(1) [OF _ g fb_covers_flush [OF Suc.prems(2)]] by simp
qed

lemma fb_run_holds:
  assumes "fb_holds P b segs ks pend" and "fb_covers ks pend R"
    and "sorted (map (\<lambda>(off, _). filter_index off) blocks)" and "\<forall>(off, _) \<in> set blocks. length ks \<le> filter_index off"
  shows "\<exists>segs' ks' pend'. fb_holds P (fb_run P b blocks) segs' ks' pend' \<and> fb_covers ks' pend' (R \<union> block_keys blocks)"
  using assms
proof (induction blocks arbitrary: b segs ks pend R)
  case Nil
  then show ?case by (auto simp: fb_run_def block_keys_def)
next
  case (Cons blk blocks)
  obtain off keys where blk: "blk = (off, keys)" by (cases blk)
  obtain segs1 ks1 pend1 where 1: "fb_holds P (StartBlock P b off) segs1 ks1 pend1" "fb_covers ks1 pend1 R"
    "length ks1 = filter_index off"
    using StartBlock_loop_holds [OF Cons.prems(1,2), of "filter_index off"] Cons.prems(4) by (auto simp: StartBlock_def blk)
  note 2 = foldl_AddKey_holds [OF 1(1), of keys]
  have 3: "fb_covers ks1 (pend1 @ keys) (R \<union> {off} \<times> set keys)"
    using 1(2,3) by (fastforce simp: fb_covers_def)
  have 4: "\<forall>(off', _) \<in> set blocks. length ks1 \<le> filter_index off'"
    using Cons.prems(3) 1(3) by (fastforce simp: blk)
  obtain segs' ks' pend' where "fb_holds P (fb_run P (foldl AddKey (StartBlock P b off) keys) blocks) segs' ks' pend'"
    "fb_covers ks' pend' (R \<union> {off} \<times> set keys \<union> block_keys blocks)"
    using Cons.IH [OF 2 3 _ 4] Cons.prems(3) by (auto simp: blk)
  moreover have "R \<union> {off} \<times> set keys \<union> block_keys blocks = R \<union> block_keys (blk # blocks)"
    by (auto simp: block_keys_def blk)
  ultimately show ?case by (auto simp: fb_run_def blk)
qed

end

subsection \<open>Reading a finished block\<close>

definition filter_bytes :: "bytes list \<Rightarrow> bytes" where
  "filter_bytes segs = concat segs
     @ concat (map (\<lambda>i. EncodeFixed32 (of_nat (seg_off segs i))) [0..<Suc (length segs)]) @ [11]"

lemma length_filter_bytes: "length (filter_bytes segs) = length (concat segs) + length segs * 4 + 5"
proof -
  have "length (concat (map (\<lambda>i. EncodeFixed32 (of_nat (seg_off segs i))) xs)) = length xs * 4" for xs
    by (induction xs) simp_all
  then show ?thesis by (simp add: filter_bytes_def del: upt_Suc)
qed

lemma seg_off_mono: "i \<le> j \<Longrightarrow> seg_off segs i \<le> seg_off segs j"
proof -
  assume "i \<le> j"
  then have "take j segs = take i segs @ drop i (take j segs)" by (metis append_take_drop_id min.absorb1 take_take)
  then show ?thesis unfolding seg_off_def by (metis concat_append le_add1 length_append)
qed

lemma filter_array:
  assumes "length (filter_bytes segs) < 2 ^ 32" and "i \<le> length segs"
  shows "unat (DecodeFixed32 (drop (length (concat segs) + i * 4) (filter_bytes segs))) = seg_off segs i"
proof -
  let ?ws = "map (\<lambda>i. of_nat (seg_off segs i) :: u32) [0..<Suc (length segs)]"
  have "drop (length (concat segs) + i * 4) (filter_bytes segs)
      = drop (i * 4) (concat (map EncodeFixed32 ?ws) @ [11])"
    by (simp add: filter_bytes_def comp_def del: upt_Suc)
  moreover have "seg_off segs i \<le> length (concat segs)" using seg_off_mono [OF assms(2), of segs] by (simp add: seg_off_def)
  then have "seg_off segs i < 2 ^ 32" using assms(1) length_filter_bytes [of segs] by simp
  moreover have "i < length ?ws" using assms(2) by simp
  ultimately show ?thesis
    using DecodeFixed32_array [of i ?ws "[11]"] assms(2) by (simp add: unat_of_nat del: upt_Suc)
qed

lemma FilterBlockReader_make_filter_bytes:
  assumes "length (filter_bytes segs) < 2 ^ 32"
  shows "FilterBlockReader_make (filter_bytes segs)
    = \<lparr>fr_data = Some (filter_bytes segs), fr_offset = length (concat segs), fr_num = length segs, fr_base_lg = 11\<rparr>"
proof -
  let ?n = "length (filter_bytes segs)"
  have "filter_bytes segs ! (?n - 1) = 11" by (simp add: filter_bytes_def nth_append del: upt_Suc)
  moreover have "?n - 5 = length (concat segs) + length segs * 4" by (simp add: length_filter_bytes)
  moreover have "seg_off segs (length segs) = length (concat segs)" by (simp add: seg_off_def)
  ultimately show ?thesis
    using filter_array [OF assms, of "length segs"]
    by (simp add: FilterBlockReader_make_def length_filter_bytes Let_def)
qed

lemma KeyMayMatch_filter_bytes:
  assumes "length (filter_bytes segs) < 2 ^ 32" and "filter_index off < length segs"
  shows "FilterBlock_KeyMayMatch P (FilterBlockReader_make (filter_bytes segs)) off key
    = KeyMayMatch P key (segs ! filter_index off)"
proof -
  let ?i = "filter_index off"
  have idx: "unat (drop_bit 11 off) = ?i"
    unfolding unsigned_drop_bit_eq using unsigned_less [of off, where 'a = nat]
    by (simp add: drop_bit_eq_div kFilterBase_def kFilterBaseLg_def take_bit_nat_eq_self)
  have lim: "seg_off segs (Suc ?i) = seg_off segs ?i + length (segs ! ?i)"
    using assms(2) by (simp add: seg_off_def take_Suc_conv_app_nth)
  have le: "seg_off segs (Suc ?i) \<le> length (concat segs)"
    using seg_off_mono [of "Suc ?i" "length segs" segs] assms(2) by (simp add: seg_off_def)
  have "concat segs = concat (take ?i segs) @ segs ! ?i @ concat (drop (Suc ?i) segs)"
    using assms(2) by (subst id_take_nth_drop [OF assms(2)]) simp
  then have seg: "take (length (segs ! ?i)) (drop (seg_off segs ?i) (filter_bytes segs)) = segs ! ?i"
    by (simp add: filter_bytes_def seg_off_def)
  have a: "unat (DecodeFixed32 (drop (length (concat segs) + ?i * 4) (filter_bytes segs))) = seg_off segs ?i"
    "unat (DecodeFixed32 (drop (length (concat segs) + ?i * 4 + 4) (filter_bytes segs))) = seg_off segs (Suc ?i)"
    using filter_array [OF assms(1), of ?i] filter_array [OF assms(1), of "Suc ?i"] assms(2) by (simp_all add: add.commute add.left_commute)
  show ?thesis
    unfolding FilterBlock_KeyMayMatch_def FilterBlockReader_make_filter_bytes [OF assms(1)]
    using assms(2) idx lim le seg a by (simp add: Let_def)
qed

context filter_policy
begin

lemma FilterBlock_Finish_holds:
  assumes "fb_holds P b segs ks pend" and "fb_covers ks pend R"
  obtains segs' ks' where "fst (FilterBlock_Finish P b) = filter_bytes segs'"
    and "\<And>off k. (off, k) \<in> R \<Longrightarrow> filter_index off < length segs' \<and> KeyMayMatch P k (segs' ! filter_index off)"
proof -
  define b' where "b' = (if fb_start b \<noteq> [] then GenerateFilter P b else b)"
  obtain segs' ks' where h: "fb_holds P b' segs' ks' []" "fb_covers ks' [] R"
  proof (cases "pend = []")
    case True
    then have "b' = b" using assms(1) by (simp add: b'_def fb_holds_def)
    then show thesis using assms True that by blast
  next
    case False
    obtain seg where "fb_holds P (GenerateFilter P b) (segs @ [seg]) (ks @ [pend]) []"
      using GenerateFilter_holds [OF assms(1)] .
    moreover have "b' = GenerateFilter P b" using False assms(1) by (simp add: b'_def fb_holds_def)
    ultimately show thesis using fb_covers_flush [OF assms(2)] that by blast
  qed
  have "foldl PutFixed32 buf xs = buf @ concat (map EncodeFixed32 xs)" for buf xs
    by (induction xs arbitrary: buf) (simp_all add: PutFixed32_def)
  then have "fst (FilterBlock_Finish P b) = filter_bytes segs'"
    using h(1) by (simp add: FilterBlock_Finish_def b'_def [symmetric] Let_def filter_bytes_def fb_holds_def PutFixed32_def
        comp_def seg_off_def kFilterBaseLg_def)
  then show thesis using h by (intro that) (fastforce simp: fb_holds_def fb_covers_def)+
qed

end

lemma filter_block_matches:
  assumes "filter_policy P" and "sorted (map (\<lambda>(off, _). unat off) blocks)"
    and "contents = fst (FilterBlock_Finish P (fb_run P FilterBlockBuilder_make blocks))" and "length contents < 2 ^ 32"
    and "(off, keys) \<in> set blocks" and "key \<in> set keys"
  shows "FilterBlock_KeyMayMatch P (FilterBlockReader_make contents) off key"
proof -
  have "sorted (map (\<lambda>(off, _). filter_index off) blocks)"
    using assms(2) unfolding sorted_map by (rule sorted_wrt_mono_rel [rotated]) (auto intro: div_le_mono)
  from filter_policy.fb_run_holds [OF assms(1) fb_make_holds, of "{}" blocks] this obtain segs ks pend where
    "fb_holds P (fb_run P FilterBlockBuilder_make blocks) segs ks pend" "fb_covers ks pend (block_keys blocks)"
    by (auto simp: fb_covers_def)
  from filter_policy.FilterBlock_Finish_holds [OF assms(1) this] obtain segs' where
    "contents = filter_bytes segs'"
    "\<And>off k. (off, k) \<in> block_keys blocks \<Longrightarrow> filter_index off < length segs' \<and> KeyMayMatch P k (segs' ! filter_index off)"
    using assms(3) by metis
  moreover have "(off, key) \<in> block_keys blocks" using assms(5,6) by (auto simp: block_keys_def)
  ultimately show ?thesis using KeyMayMatch_filter_bytes [of segs' off P key] assms(4) by simp
qed

text \<open>
  C24.  The filter block never rules out a key that is there.  Whatever blocks are started at non-decreasing
  offsets and whatever keys they hold, the reader of the finished filter block lets every key of a block
  through at the offset of that block, for every policy without false negatives.
\<close>

theorem filter_block_no_false_negative:
  assumes "filter_policy P" and "sorted (map (\<lambda>(off, _). unat off) blocks)"
    and "contents = fst (FilterBlock_Finish P (fb_run P FilterBlockBuilder_make blocks))" and "length contents < 2 ^ 32"
    and "(off, keys) \<in> set blocks" and "key \<in> set keys"
  shows "FilterBlock_KeyMayMatch P (FilterBlockReader_make contents) off key"
  using assms by (rule filter_block_matches)

text \<open>A policy that stores the keys themselves, for a concrete run.\<close>

lemma filter_block_no_false_negative_witness:
  "FilterBlock_KeyMayMatch \<lparr>FilterPolicy_Name = [], CreateFilter = (\<lambda>ks dst. dst @ map hd ks), KeyMayMatch = (\<lambda>k f. hd k \<in> set f)\<rparr>
     (FilterBlockReader_make (fst (FilterBlock_Finish \<lparr>FilterPolicy_Name = [], CreateFilter = (\<lambda>ks dst. dst @ map hd ks), KeyMayMatch = (\<lambda>k f. hd k \<in> set f)\<rparr>
        (fb_run \<lparr>FilterPolicy_Name = [], CreateFilter = (\<lambda>ks dst. dst @ map hd ks), KeyMayMatch = (\<lambda>k f. hd k \<in> set f)\<rparr>
           FilterBlockBuilder_make [(0, [[1], [2]]), (100, [[3]])])))) 100 [3]"
proof -
  let ?P = "\<lparr>FilterPolicy_Name = [], CreateFilter = (\<lambda>ks dst. dst @ map hd ks), KeyMayMatch = (\<lambda>k f. hd k \<in> set f)\<rparr>"
  have P: "filter_policy ?P" by unfold_locales auto
  have "length (fst (FilterBlock_Finish ?P (fb_run ?P FilterBlockBuilder_make [(0, [[1], [2]]), (100, [[3]])]))) < 2 ^ 32"
    by (simp add: fb_run_def FilterBlock_Finish_def FilterBlockBuilder_make_def StartBlock_def StartBlock_loop.simps [of _ _ 0]
        GenerateFilter_def AddKey_def PutFixed32_def kFilterBase_def kFilterBaseLg_def Let_def)
  from filter_block_no_false_negative [OF P _ refl this] show ?thesis by simp
qed

end
