(* ===== verification/Block.thy ===== *)
theory Block
  imports Iterator
begin

text \<open>
  Blocks of a table: the builder of \<^verbatim>\<open>table/block_builder.{h,cc}\<close> with its prefix compression and restart
  points, and the block and its iterator of \<^verbatim>\<open>table/block.{h,cc}\<close>.  Offsets into a block are natural numbers
  (a block is far smaller than 4 GiB); the one 32-bit sum that can wrap on corrupt input, in \<^verbatim>\<open>DecodeEntry\<close>,
  keeps its width.  The slice \<^verbatim>\<open>value_\<close> of the iterator is an offset and a length, since the code computes the
  next entry from where it ends.
\<close>

subsection \<open>BlockBuilder\<close>

record BlockBuilder =
  bb_buffer :: bytes
  bb_restarts :: "u32 list"
  bb_counter :: nat
  bb_finished :: bool
  bb_last_key :: bytes

definition BlockBuilder_make :: BlockBuilder where
  "BlockBuilder_make =
     \<lparr>bb_buffer = [], bb_restarts = [0], bb_counter = 0, bb_finished = False, bb_last_key = []\<rparr>"

definition BlockBuilder_Reset :: "BlockBuilder \<Rightarrow> BlockBuilder" where
  "BlockBuilder_Reset b =
     b\<lparr>bb_buffer := [], bb_restarts := [0], bb_counter := 0, bb_finished := False, bb_last_key := []\<rparr>"

definition CurrentSizeEstimate :: "BlockBuilder \<Rightarrow> nat" where
  "CurrentSizeEstimate b = length (bb_buffer b) + length (bb_restarts b) * 4 + 4"

definition BlockBuilder_empty :: "BlockBuilder \<Rightarrow> bool" where
  "BlockBuilder_empty b = (bb_buffer b = [])"

definition BlockBuilder_Finish :: "BlockBuilder \<Rightarrow> Slice \<times> BlockBuilder" where
  "BlockBuilder_Finish b =
     (let buffer = foldl PutFixed32 (bb_buffer b) (bb_restarts b);
          buffer = PutFixed32 buffer (of_nat (length (bb_restarts b)));
          b = b\<lparr>bb_buffer := buffer, bb_finished := True\<rparr>
      in (bb_buffer b, b))"

function shared_prefix :: "Slice \<Rightarrow> Slice \<Rightarrow> nat \<Rightarrow> nat" where
  "shared_prefix last_key_piece key shared =
     (if shared < min (length last_key_piece) (length key) \<and> last_key_piece ! shared = key ! shared
      then shared_prefix last_key_piece key (shared + 1) else shared)"
  by pat_completeness auto
termination by (relation "measure (\<lambda>(a, _, n). length a - n)") auto

declare shared_prefix.simps [simp del]

definition BlockBuilder_Add :: "nat \<Rightarrow> BlockBuilder \<Rightarrow> Slice \<Rightarrow> Slice \<Rightarrow> BlockBuilder" where
  "BlockBuilder_Add block_restart_interval b key value =
     (let (shared, b) =
            (if bb_counter b < block_restart_interval then (shared_prefix (bb_last_key b) key 0, b)
             else (0, b\<lparr>bb_restarts := bb_restarts b @ [of_nat (length (bb_buffer b))], bb_counter := 0\<rparr>));
          non_shared = length key - shared;
          buffer = PutVarint32 (bb_buffer b) (of_nat shared);
          buffer = PutVarint32 buffer (of_nat non_shared);
          buffer = PutVarint32 buffer (of_nat (length value));
          buffer = buffer @ take non_shared (drop shared key);
          buffer = buffer @ value
      in b\<lparr>bb_buffer := buffer,
           bb_last_key := take shared (bb_last_key b) @ take non_shared (drop shared key),
           bb_counter := bb_counter b + 1\<rparr>)"

subsection \<open>Block\<close>

record Block =
  bl_data :: bytes
  bl_size :: nat
  bl_restart_offset :: nat

definition NumRestarts :: "bytes \<Rightarrow> nat \<Rightarrow> nat" where
  "NumRestarts data sz = unat (DecodeFixed32 (drop (sz - 4) data))"

definition Block_make :: "Slice \<Rightarrow> Block" where
  "Block_make contents =
     (let sz = length contents in
      if sz < 4 then \<lparr>bl_data = contents, bl_size = 0, bl_restart_offset = 0\<rparr>
      else let max_restarts_allowed = (sz - 4) div 4
           in if NumRestarts contents sz > max_restarts_allowed
              then \<lparr>bl_data = contents, bl_size = 0, bl_restart_offset = 0\<rparr>
              else \<lparr>bl_data = contents, bl_size = sz,
                    bl_restart_offset = sz - (1 + NumRestarts contents sz) * 4\<rparr>)"

text \<open>
  The result is the three lengths and the number of bytes the header took, so that \<^verbatim>\<open>p\<close> advanced by it is the
  pointer the code returns; \<open>None\<close> is the null pointer.  The argument is the bytes from \<^verbatim>\<open>p\<close> to \<^verbatim>\<open>limit\<close>.
\<close>

definition DecodeEntry :: "bytes \<Rightarrow> (u32 \<times> u32 \<times> u32 \<times> nat) option" where
  "DecodeEntry p =
     (if length p < 3 then None
      else let shared = ucast (p ! 0) :: u32; non_shared = ucast (p ! 1) :: u32; value_length = ucast (p ! 2) :: u32
           in (let decoded =
                 (if (shared OR non_shared OR value_length) < 128
                  then Some (shared, non_shared, value_length, drop 3 p)
                  else (case GetVarint32Ptr p of
                          None \<Rightarrow> None
                        | Some (shared, q) \<Rightarrow>
                            (case GetVarint32Ptr q of
                               None \<Rightarrow> None
                             | Some (non_shared, q) \<Rightarrow>
                                 (case GetVarint32Ptr q of
                                    None \<Rightarrow> None
                                  | Some (value_length, q) \<Rightarrow> Some (shared, non_shared, value_length, q)))))
               in case decoded of
                    None \<Rightarrow> None
                  | Some (shared, non_shared, value_length, q) \<Rightarrow>
                      if of_nat (length q) < non_shared + value_length then None
                      else Some (shared, non_shared, value_length, length p - length q)))"

subsection \<open>Block::Iter\<close>

record BlockIter =
  bi_data :: bytes
  bi_restarts :: nat
  bi_num_restarts :: nat
  bi_current :: nat
  bi_restart_index :: nat
  bi_key :: bytes
  bi_value_off :: nat
  bi_value_len :: nat
  bi_status :: Status

definition BlockIter_make :: "bytes \<Rightarrow> nat \<Rightarrow> nat \<Rightarrow> BlockIter" where
  "BlockIter_make data restarts num_restarts =
     \<lparr>bi_data = data, bi_restarts = restarts, bi_num_restarts = num_restarts, bi_current = restarts,
      bi_restart_index = num_restarts, bi_key = [], bi_value_off = 0, bi_value_len = 0, bi_status = Status_OK\<rparr>"

definition NextEntryOffset :: "BlockIter \<Rightarrow> nat" where
  "NextEntryOffset it = bi_value_off it + bi_value_len it"

definition GetRestartPoint :: "BlockIter \<Rightarrow> nat \<Rightarrow> nat" where
  "GetRestartPoint it index = unat (DecodeFixed32 (drop (bi_restarts it + index * 4) (bi_data it)))"

definition SeekToRestartPoint :: "BlockIter \<Rightarrow> nat \<Rightarrow> BlockIter" where
  "SeekToRestartPoint it index =
     it\<lparr>bi_key := [], bi_restart_index := index, bi_value_off := GetRestartPoint it index, bi_value_len := 0\<rparr>"

definition BlockIter_Valid :: "BlockIter \<Rightarrow> bool" where
  "BlockIter_Valid it = (bi_current it < bi_restarts it)"

definition BlockIter_key :: "BlockIter \<Rightarrow> Slice" where
  "BlockIter_key it = bi_key it"

definition BlockIter_value :: "BlockIter \<Rightarrow> Slice" where
  "BlockIter_value it = take (bi_value_len it) (drop (bi_value_off it) (bi_data it))"

definition CorruptionError :: "BlockIter \<Rightarrow> BlockIter" where
  "CorruptionError it =
     it\<lparr>bi_current := bi_restarts it, bi_restart_index := bi_num_restarts it,
        bi_status := Corruption (str ''bad entry in block'') [], bi_key := [], bi_value_off := 0, bi_value_len := 0\<rparr>"

function ParseNextKey_restarts :: "BlockIter \<Rightarrow> nat \<Rightarrow> nat" where
  "ParseNextKey_restarts it index =
     (if index + 1 < bi_num_restarts it \<and> GetRestartPoint it (index + 1) < bi_current it
      then ParseNextKey_restarts it (index + 1) else index)"
  by pat_completeness auto
termination by (relation "measure (\<lambda>(it, i). bi_num_restarts it - i)") auto

declare ParseNextKey_restarts.simps [simp del]

text \<open>The bytes from offset \<open>off\<close> to the restart array.\<close>

definition entry_bytes :: "BlockIter \<Rightarrow> nat \<Rightarrow> bytes" where
  "entry_bytes it off = take (bi_restarts it - off) (drop off (bi_data it))"

definition ParseNextKey :: "BlockIter \<Rightarrow> bool \<times> BlockIter" where
  "ParseNextKey it =
     (let it = it\<lparr>bi_current := NextEntryOffset it\<rparr> in
      if bi_current it \<ge> bi_restarts it
      then (False, it\<lparr>bi_current := bi_restarts it, bi_restart_index := bi_num_restarts it\<rparr>)
      else case DecodeEntry (entry_bytes it (bi_current it)) of
             None \<Rightarrow> (False, CorruptionError it)
           | Some (shared, non_shared, value_length, n) \<Rightarrow>
               if length (bi_key it) < unat shared then (False, CorruptionError it)
               else let p = bi_current it + n;
                        it = it\<lparr>bi_key := take (unat shared) (bi_key it)
                                  @ take (unat non_shared) (drop p (bi_data it)),
                                bi_value_off := p + unat non_shared, bi_value_len := unat value_length\<rparr>
                    in (True, it\<lparr>bi_restart_index := ParseNextKey_restarts it (bi_restart_index it)\<rparr>))"

lemma DecodeEntry_header: "DecodeEntry p = Some (s, ns, vl, n) \<Longrightarrow> 3 \<le> length p"
  by (auto simp: DecodeEntry_def split: if_splits)

definition BlockIter_Next :: "BlockIter \<Rightarrow> BlockIter" where
  "BlockIter_Next it = snd (ParseNextKey it)"

primrec Prev_restart :: "BlockIter \<Rightarrow> nat \<Rightarrow> nat \<Rightarrow> nat option" where
  "Prev_restart it original 0 = (if GetRestartPoint it 0 \<ge> original then None else Some 0)"
| "Prev_restart it original (Suc index) =
     (if GetRestartPoint it (Suc index) \<ge> original then Prev_restart it original index else Some (Suc index))"

text \<open>
  The loops that parse entry after entry.  The fuel bounds the entries parsed in one call; each takes at
  least three bytes, so the size of the block is enough.
\<close>

primrec Skip_to :: "nat \<Rightarrow> BlockIter \<Rightarrow> nat \<Rightarrow> BlockIter option" where
  "Skip_to 0 it limit = None"
| "Skip_to (Suc fuel) it limit =
     (let (b, it) = ParseNextKey it in
      if b \<and> NextEntryOffset it < limit then Skip_to fuel it limit else Some it)"

definition BlockIter_Prev :: "nat \<Rightarrow> BlockIter \<Rightarrow> BlockIter option" where
  "BlockIter_Prev fuel it =
     (let original = bi_current it in
      case Prev_restart it original (bi_restart_index it) of
        None \<Rightarrow> Some (it\<lparr>bi_current := bi_restarts it, bi_restart_index := bi_num_restarts it\<rparr>)
      | Some index \<Rightarrow> Skip_to fuel (SeekToRestartPoint it index) original)"

text \<open>The binary search; \<open>None\<close> is a corrupt entry.\<close>

function Seek_search :: "(Slice \<Rightarrow> Slice \<Rightarrow> int) \<Rightarrow> BlockIter \<Rightarrow> Slice \<Rightarrow> nat \<Rightarrow> nat \<Rightarrow> nat option" where
  "Seek_search cmp it target left right =
     (if left < right then
        let mid = (left + right + 1) div 2;
            region_offset = GetRestartPoint it mid
        in case DecodeEntry (entry_bytes it region_offset) of
             None \<Rightarrow> None
           | Some (shared, non_shared, value_length, n) \<Rightarrow>
               if shared \<noteq> 0 then None
               else let mid_key = take (unat non_shared) (drop (region_offset + n) (bi_data it))
                    in if cmp mid_key target < 0 then Seek_search cmp it target mid right
                       else Seek_search cmp it target left (mid - 1)
      else Some left)"
  by pat_completeness auto
termination by (relation "measure (\<lambda>(_, _, _, l, r). r - l)") auto

declare Seek_search.simps [simp del]

primrec Seek_linear :: "(Slice \<Rightarrow> Slice \<Rightarrow> int) \<Rightarrow> nat \<Rightarrow> BlockIter \<Rightarrow> Slice \<Rightarrow> BlockIter option" where
  "Seek_linear cmp 0 it target = None"
| "Seek_linear cmp (Suc fuel) it target =
     (let (b, it) = ParseNextKey it in
      if \<not> b then Some it
      else if cmp (bi_key it) target \<ge> 0 then Some it
      else Seek_linear cmp fuel it target)"

definition BlockIter_Seek :: "(Slice \<Rightarrow> Slice \<Rightarrow> int) \<Rightarrow> nat \<Rightarrow> BlockIter \<Rightarrow> Slice \<Rightarrow> BlockIter option" where
  "BlockIter_Seek cmp fuel it target =
     (case Seek_search cmp it target 0 (bi_num_restarts it - 1) of
        None \<Rightarrow> Some (CorruptionError it)
      | Some left \<Rightarrow> Seek_linear cmp fuel (SeekToRestartPoint it left) target)"

definition BlockIter_SeekToFirst :: "BlockIter \<Rightarrow> BlockIter" where
  "BlockIter_SeekToFirst it = snd (ParseNextKey (SeekToRestartPoint it 0))"

definition BlockIter_SeekToLast :: "nat \<Rightarrow> BlockIter \<Rightarrow> BlockIter option" where
  "BlockIter_SeekToLast fuel it =
     Skip_to fuel (SeekToRestartPoint it (bi_num_restarts it - 1)) (bi_restarts it)"

text \<open>\<open>Inl s\<close> is the error iterator with status \<open>s\<close> (the empty iterator when it is OK).\<close>

definition Block_NewIterator :: "Block \<Rightarrow> Status + BlockIter" where
  "Block_NewIterator b =
     (if bl_size b < 4 then Inl (Corruption (str ''bad block contents'') [])
      else let num_restarts = NumRestarts (bl_data b) (bl_size b)
           in if num_restarts = 0 then Inl Status_OK
              else Inr (BlockIter_make (bl_data b) (bl_restart_offset b) num_restarts))"

subsection \<open>Entries\<close>

text \<open>The reference for \<^verbatim>\<open>DecodeEntry\<close>: three varints, without the fast path.\<close>

definition decode3 :: "bytes \<Rightarrow> (u32 \<times> u32 \<times> u32 \<times> bytes) option" where
  "decode3 p =
     Option.bind (GetVarint32Ptr p) (\<lambda>(shared, q).
       Option.bind (GetVarint32Ptr q) (\<lambda>(non_shared, q).
         Option.bind (GetVarint32Ptr q) (\<lambda>(value_length, q). Some (shared, non_shared, value_length, q))))"

lemma small_byte:
  assumes "(ucast (b :: byte) :: u32) < 128"
  shows "(ucast b :: u32) AND 128 = 0"
proof -
  have u: "unat (ucast b :: u32) = unat b"
    using unsigned_less [of b, where 'a = nat] by (simp add: unsigned_ucast_eq take_bit_nat_eq_self)
  then have "unat b < 128" using assms by (simp add: word_less_nat_alt)
  then have "b AND 128 = 0" by (simp add: byte_msb_iff)
  then have "ucast (b AND 128) = (0 :: u32)" by simp
  then show ?thesis by (simp add: unsigned_and_eq)
qed

lemma or_less_both:
  assumes "(a :: u32) OR b < c"
  shows "a < c" and "b < c"
  using le_less_trans [OF le_word_or2 assms] le_less_trans [OF le_word_or2 assms [unfolded or.commute [of a]]] .

lemma GetVarint32Ptr_small: "(ucast b :: u32) < 128 \<Longrightarrow> GetVarint32Ptr (b # p) = Some (ucast b, p)"
  using small_byte [of b] by (simp add: GetVarint32Ptr_def)

lemma DecodeEntry_decode3:
  "DecodeEntry p =
     (if length p < 3 then None
      else Option.bind (decode3 p) (\<lambda>(shared, non_shared, value_length, q).
             if of_nat (length q) < non_shared + value_length then None
             else Some (shared, non_shared, value_length, length p - length q)))"
proof (cases "length p < 3")
  case False
  then obtain a b c q where p: "p = a # b # c # q"
    by (metis One_nat_def Suc_1 length_Cons less_Suc_eq_0_disj list.exhaust list.size(3) not_less_eq numeral_3_eq_3 zero_less_Suc)
  show ?thesis
  proof (cases "(ucast a :: u32) OR ucast b OR ucast c < 128")
    case True
    note ab = or_less_both [OF True] and a = or_less_both [OF or_less_both(2) [OF True]]
    show ?thesis using True ab a by (simp add: DecodeEntry_def p decode3_def GetVarint32Ptr_small)
  next
    case no: False
    then show ?thesis
      using False by (simp add: DecodeEntry_def decode3_def p Let_def split: option.splits)
  qed
qed (simp add: DecodeEntry_def)

definition entry_enc :: "nat \<Rightarrow> Slice \<Rightarrow> Slice \<Rightarrow> bytes" where
  "entry_enc sh k v =
     EncodeVarint32 (of_nat sh) @ EncodeVarint32 (of_nat (length k - sh)) @ EncodeVarint32 (of_nat (length v))
     @ drop sh k @ v"

definition entry_header :: "nat \<Rightarrow> Slice \<Rightarrow> Slice \<Rightarrow> nat" where
  "entry_header sh k v = length (EncodeVarint32 (of_nat sh) @ EncodeVarint32 (of_nat (length k - sh))
     @ EncodeVarint32 (of_nat (length v)))"

lemma EncodeVarint32_pos: "0 < length (EncodeVarint32 v)"
  by (simp add: EncodeVarint32_def Let_def)

lemma entry_header_ge: "3 \<le> entry_header sh k v"
  using EncodeVarint32_pos [of "of_nat sh"] EncodeVarint32_pos [of "of_nat (length k - sh)"]
    EncodeVarint32_pos [of "of_nat (length v)"] unfolding entry_header_def length_append by linarith

lemma length_entry_enc: "length (entry_enc sh k v) = entry_header sh k v + (length k - sh) + length v"
  by (simp add: entry_enc_def entry_header_def)

lemma DecodeEntry_enc:
  assumes "length (entry_enc sh k v @ tail) < 2 ^ 32" and "sh \<le> length k" and "length k < 2 ^ 32"
  shows "DecodeEntry (entry_enc sh k v @ tail)
    = Some (of_nat sh, of_nat (length k - sh), of_nat (length v), entry_header sh k v)"
proof -
  let ?q = "drop sh k @ v @ tail"
  have d: "decode3 (entry_enc sh k v @ tail) = Some (of_nat sh, of_nat (length k - sh), of_nat (length v), ?q)"
    by (simp add: decode3_def entry_enc_def)
  have len: "length (entry_enc sh k v @ tail) = entry_header sh k v + length ?q"
    by (simp add: length_entry_enc)
  have "\<not> (of_nat (length ?q) :: u32) < of_nat (length k - sh) + of_nat (length v)"
  proof -
    have "(of_nat (length k - sh) + of_nat (length v) :: u32) = of_nat (length k - sh + length v)" by simp
    moreover have "unat (of_nat (length k - sh + length v) :: u32) = length k - sh + length v"
      "unat (of_nat (length ?q) :: u32) = length ?q"
      using assms(1) len by (simp_all add: unat_of_nat del: of_nat_add)
    ultimately show ?thesis by (simp add: word_less_nat_alt del: of_nat_add)
  qed
  moreover have "\<not> length (entry_enc sh k v @ tail) < 3"
    using entry_header_ge [of sh k v] len by linarith
  ultimately show ?thesis unfolding DecodeEntry_decode3 d using len by simp
qed

subsection \<open>Layout of a built block\<close>

text \<open>
  The entries of a block with the lengths of the prefixes they share with their predecessor, and the indices of
  the entries that are restart points.
\<close>

type_synonym laid = "(nat \<times> Slice \<times> Slice) list"

abbreviation sh_of :: "laid \<Rightarrow> nat \<Rightarrow> nat" where "sh_of ls i \<equiv> fst (ls ! i)"
abbreviation key_of :: "laid \<Rightarrow> nat \<Rightarrow> Slice" where "key_of ls i \<equiv> fst (snd (ls ! i))"
abbreviation val_of :: "laid \<Rightarrow> nat \<Rightarrow> Slice" where "val_of ls i \<equiv> snd (snd (ls ! i))"

definition layout :: "laid \<Rightarrow> bytes" where
  "layout ls = concat (map (\<lambda>(sh, k, v). entry_enc sh k v) ls)"

definition off :: "laid \<Rightarrow> nat \<Rightarrow> nat" where
  "off ls i = length (layout (take i ls))"

definition prev_key :: "laid \<Rightarrow> nat \<Rightarrow> Slice" where
  "prev_key ls i = (if i = 0 then [] else key_of ls (i - 1))"

definition chained :: "laid \<Rightarrow> bool" where
  "chained ls \<longleftrightarrow> (\<forall>i < length ls. sh_of ls i \<le> length (prev_key ls i) \<and> sh_of ls i \<le> length (key_of ls i)
     \<and> take (sh_of ls i) (prev_key ls i) = take (sh_of ls i) (key_of ls i))"

definition restart_points :: "laid \<Rightarrow> nat list \<Rightarrow> bool" where
  "restart_points ls rs \<longleftrightarrow> rs \<noteq> [] \<and> hd rs = 0 \<and> sorted_wrt (<) rs
     \<and> (\<forall>r \<in> set rs. r = 0 \<or> r < length ls) \<and> (\<forall>r \<in> set rs. r < length ls \<longrightarrow> sh_of ls r = 0)"

definition block_bytes :: "laid \<Rightarrow> nat list \<Rightarrow> bytes" where
  "block_bytes ls rs = layout ls @ concat (map (\<lambda>r. EncodeFixed32 (of_nat (off ls r))) rs)
     @ EncodeFixed32 (of_nat (length rs))"

lemma layout_append: "layout (as @ bs) = layout as @ layout bs"
  by (simp add: layout_def)

lemma layout_Cons: "layout (e # es) = entry_enc (fst e) (fst (snd e)) (snd (snd e)) @ layout es"
  by (cases e) (simp add: layout_def)

lemma off_0 [simp]: "off ls 0 = 0"
  by (simp add: off_def layout_def)

lemma off_all [simp]: "off ls (length ls) = length (layout ls)"
  by (simp add: off_def)

lemma off_Suc:
  "i < length ls \<Longrightarrow> off ls (Suc i) = off ls i + length (entry_enc (sh_of ls i) (key_of ls i) (val_of ls i))"
  by (simp add: off_def take_Suc_conv_app_nth layout_append layout_Cons) (simp add: layout_def)

lemma off_less: "i < j \<Longrightarrow> j \<le> length ls \<Longrightarrow> off ls i < off ls j"
proof (induction j)
  case (Suc j)
  then have "off ls j < off ls (Suc j)"
    using entry_header_ge [of "sh_of ls j" "key_of ls j" "val_of ls j"] by (simp add: off_Suc length_entry_enc)
  with Suc show ?case by (cases "i = j") auto
qed simp

lemma off_le_iff: "i \<le> length ls \<Longrightarrow> j \<le> length ls \<Longrightarrow> off ls i \<le> off ls j \<longleftrightarrow> i \<le> j"
  using off_less [of i j ls] off_less [of j i ls] by (cases i j rule: linorder_cases) auto

lemma off_less_iff: "i \<le> length ls \<Longrightarrow> j \<le> length ls \<Longrightarrow> off ls i < off ls j \<longleftrightarrow> i < j"
  using off_le_iff [of j ls i] by linarith

lemma off_append: "i \<le> length ls \<Longrightarrow> off (ls @ ls') i = off ls i"
  by (simp add: off_def)

lemma layout_drop:
  assumes "i < length ls"
  shows "drop (off ls i) (layout ls) = entry_enc (sh_of ls i) (key_of ls i) (val_of ls i) @ layout (drop (Suc i) ls)"
proof -
  have "layout ls = layout (take i ls) @ layout (drop i ls)" by (simp flip: layout_append)
  then have "drop (off ls i) (layout ls) = layout (drop i ls)" by (simp add: off_def)
  then show ?thesis using assms by (simp add: Cons_nth_drop_Suc [symmetric] layout_Cons)
qed

subsection \<open>The builder\<close>

definition builder_holds :: "nat \<Rightarrow> BlockBuilder \<Rightarrow> laid \<Rightarrow> nat list \<Rightarrow> bool" where
  "builder_holds interval b ls rs \<longleftrightarrow> bb_buffer b = layout ls \<and> chained ls \<and> restart_points ls rs
     \<and> bb_restarts b = map (\<lambda>r. of_nat (off ls r)) rs \<and> bb_last_key b = prev_key ls (length ls)
     \<and> (ls = [] \<longrightarrow> bb_counter b = 0)"

lemma shared_prefix_le:
  assumes "n \<le> length a" and "n \<le> length b" and "take n a = take n b"
  shows "shared_prefix a b n \<le> length a \<and> shared_prefix a b n \<le> length b
    \<and> take (shared_prefix a b n) a = take (shared_prefix a b n) b"
  using assms
proof (induction a b n rule: shared_prefix.induct)
  case (1 a b n)
  show ?case
  proof (cases "n < min (length a) (length b) \<and> a ! n = b ! n")
    case True
    then have "take (n + 1) a = take (n + 1) b" using 1(4) by (simp add: take_Suc_conv_app_nth)
    moreover have "shared_prefix a b n = shared_prefix a b (n + 1)"
      using True by (simp add: shared_prefix.simps [of a b n])
    ultimately show ?thesis using 1(1) [OF True] True by simp
  next
    case False
    then have "shared_prefix a b n = n" by (subst shared_prefix.simps) (simp only: if_False)
    then show ?thesis using 1 by simp
  qed
qed

lemma BlockBuilder_make_holds: "builder_holds n BlockBuilder_make [] [0]"
  by (simp add: builder_holds_def BlockBuilder_make_def layout_def chained_def restart_points_def prev_key_def)

lemma chained_snoc:
  assumes "chained ls" and "sh \<le> length (prev_key ls (length ls))" and "sh \<le> length k"
    and "take sh (prev_key ls (length ls)) = take sh k"
  shows "chained (ls @ [(sh, k, v)])"
proof -
  have "prev_key (ls @ [(sh, k, v)]) i = prev_key ls i" if "i \<le> length ls" for i
    using that by (auto simp: prev_key_def nth_append)
  then show ?thesis using assms by (auto simp: chained_def nth_append less_Suc_eq)
qed

lemma BlockBuilder_Add_holds:
  assumes h: "builder_holds n b ls rs" and n: "0 < n"
  obtains sh rs' where "builder_holds n (BlockBuilder_Add n b k v) (ls @ [(sh, k, v)]) rs'"
proof (cases "bb_counter b < n")
  case True
  let ?sh = "shared_prefix (bb_last_key b) k 0"
  have sh: "?sh \<le> length (prev_key ls (length ls))" "?sh \<le> length k" "take ?sh (prev_key ls (length ls)) = take ?sh k"
    using shared_prefix_le [of 0 "bb_last_key b" k] h by (simp_all add: builder_holds_def)
  have "restart_points (ls @ [(?sh, k, v)]) rs"
    using h sh(1) by (auto simp: builder_holds_def restart_points_def nth_append prev_key_def less_Suc_eq)
  moreover have "take ?sh (bb_last_key b) @ drop ?sh k = k"
    using sh(3) h by (simp add: builder_holds_def)
  moreover have "map (\<lambda>r. of_nat (off ls r) :: u32) rs = map (\<lambda>r. of_nat (off (ls @ [(?sh, k, v)]) r)) rs"
    using h by (auto simp: builder_holds_def restart_points_def off_append)
  ultimately have "builder_holds n (BlockBuilder_Add n b k v) (ls @ [(?sh, k, v)]) rs"
    using True h chained_snoc [OF _ sh, of v]
    by (simp add: builder_holds_def BlockBuilder_Add_def Let_def layout_append layout_Cons layout_def entry_enc_def
        PutVarint32_def prev_key_def)
  then show thesis by (rule that)
next
  case False
  then have ls: "ls \<noteq> []" using h n by (auto simp: builder_holds_def)
  have "restart_points (ls @ [(0, k, v)]) (rs @ [length ls])"
    using h ls by (auto simp: builder_holds_def restart_points_def nth_append sorted_wrt_append)
  moreover have "map (\<lambda>r. of_nat (off ls r) :: u32) rs = map (\<lambda>r. of_nat (off (ls @ [(0, k, v)]) r)) rs"
    using h by (auto simp: builder_holds_def restart_points_def off_append)
  ultimately have "builder_holds n (BlockBuilder_Add n b k v) (ls @ [(0, k, v)]) (rs @ [length ls])"
    using False h chained_snoc [of ls 0 k v]
    by (simp add: builder_holds_def BlockBuilder_Add_def Let_def layout_append layout_Cons layout_def entry_enc_def
        PutVarint32_def prev_key_def off_append off_def)
  then show thesis by (rule that)
qed

lemma BlockBuilder_Finish_holds:
  assumes "builder_holds n b ls rs"
  shows "fst (BlockBuilder_Finish b) = block_bytes ls rs"
proof -
  have "foldl PutFixed32 buf xs = buf @ concat (map EncodeFixed32 xs)" for buf xs
    by (induction xs arbitrary: buf) (simp_all add: PutFixed32_def)
  then show ?thesis
    using assms by (simp add: BlockBuilder_Finish_def builder_holds_def block_bytes_def PutFixed32_def Let_def comp_def)
qed

subsection \<open>The iterator\<close>

text \<open>\<open>iter_on\<close>: an iterator over the block; \<open>iter_at\<close>: it stands on entry \<open>i\<close>; \<open>iter_ready\<close>: the next parse reads entry \<open>i\<close>.\<close>

definition iter_on :: "laid \<Rightarrow> nat list \<Rightarrow> BlockIter \<Rightarrow> bool" where
  "iter_on ls rs it \<longleftrightarrow> bi_data it = block_bytes ls rs \<and> bi_restarts it = length (layout ls)
     \<and> bi_num_restarts it = length rs \<and> length (block_bytes ls rs) < 2 ^ 32 \<and> chained ls \<and> restart_points ls rs
     \<and> (\<forall>e \<in> set ls. length (fst (snd e)) < 2 ^ 32) \<and> bi_status it = Status_OK"

definition iter_in :: "laid \<Rightarrow> nat list \<Rightarrow> BlockIter \<Rightarrow> nat \<Rightarrow> bool" where
  "iter_in ls rs it i \<longleftrightarrow> bi_restart_index it < length rs \<and> rs ! bi_restart_index it \<le> i"

definition iter_at :: "laid \<Rightarrow> nat list \<Rightarrow> BlockIter \<Rightarrow> nat \<Rightarrow> bool" where
  "iter_at ls rs it i \<longleftrightarrow> iter_on ls rs it \<and> i < length ls \<and> bi_current it = off ls i \<and> bi_key it = key_of ls i
     \<and> BlockIter_value it = val_of ls i \<and> NextEntryOffset it = off ls (Suc i) \<and> iter_in ls rs it i"

definition iter_ready :: "laid \<Rightarrow> nat list \<Rightarrow> BlockIter \<Rightarrow> nat \<Rightarrow> bool" where
  "iter_ready ls rs it i \<longleftrightarrow> iter_on ls rs it \<and> i \<le> length ls \<and> NextEntryOffset it = off ls i
     \<and> (i < length ls \<longrightarrow> sh_of ls i \<le> length (bi_key it) \<and> take (sh_of ls i) (bi_key it) = take (sh_of ls i) (key_of ls i))
     \<and> iter_in ls rs it i"

definition iter_done :: "laid \<Rightarrow> nat list \<Rightarrow> BlockIter \<Rightarrow> bool" where
  "iter_done ls rs it \<longleftrightarrow> iter_on ls rs it \<and> \<not> BlockIter_Valid it"

lemma restart_index_bound: "restart_points ls rs \<Longrightarrow> j < length rs \<Longrightarrow> rs ! j \<le> length ls"
  unfolding restart_points_def by (metis nth_mem le0 less_imp_le)

lemma GetRestartPoint_eq:
  assumes "iter_on ls rs it" and "j < length rs"
  shows "GetRestartPoint it j = off ls (rs ! j)"
proof -
  let ?enc = "\<lambda>r. EncodeFixed32 (of_nat (off ls r))"
  have len: "length (concat (map ?enc xs)) = length xs * 4" for xs by (induction xs) simp_all
  have rs: "rs = take j rs @ rs ! j # drop (Suc j) rs" using assms(2) by (simp add: id_take_nth_drop)
  have "drop (j * 4) (concat (map ?enc rs) @ x) = ?enc (rs ! j) @ concat (map ?enc (drop (Suc j) rs)) @ x" for x
    using assms(2) len [of "take j rs"] by (subst (1) rs) simp
  then have d: "drop (bi_restarts it + j * 4) (bi_data it)
      = ?enc (rs ! j) @ concat (map ?enc (drop (Suc j) rs)) @ EncodeFixed32 (of_nat (length rs))"
    using assms(1) by (simp add: iter_on_def block_bytes_def)
  have "off ls (rs ! j) \<le> length (layout ls)"
    using restart_index_bound [of ls rs j] assms off_le_iff [of "rs ! j" ls "length ls"] by (simp add: iter_on_def)
  then have "off ls (rs ! j) < 2 ^ 32" using assms(1) by (simp add: iter_on_def block_bytes_def)
  then show ?thesis by (simp add: GetRestartPoint_def d unat_of_nat)
qed

lemma ParseNextKey_restarts_in:
  assumes "iter_on ls rs it" and "bi_current it = off ls i" and "i \<le> length ls" and "j < length rs" and "rs ! j \<le> i"
  shows "ParseNextKey_restarts it j < length rs \<and> rs ! ParseNextKey_restarts it j \<le> i"
  using assms
proof (induction it j rule: ParseNextKey_restarts.induct)
  case (1 it j)
  show ?case
  proof (cases "j + 1 < bi_num_restarts it \<and> GetRestartPoint it (j + 1) < bi_current it")
    case True
    then have j: "j + 1 < length rs" using 1(2) by (simp add: iter_on_def)
    have "rs ! (j + 1) \<le> i"
      using True GetRestartPoint_eq [OF 1(2) j] 1(3,4) off_less_iff [of "rs ! (j + 1)" ls i] restart_index_bound [of ls rs "j + 1"] 1(2) j
      by (simp add: iter_on_def)
    with 1(1) [OF True 1(2-4) j] True show ?thesis by (subst (1 2) ParseNextKey_restarts.simps) simp
  next
    case False
    then have "ParseNextKey_restarts it j = j" by (subst ParseNextKey_restarts.simps) (simp only: if_False)
    with 1 show ?thesis by simp
  qed
qed

lemma entry_bytes_at:
  assumes "iter_on ls rs it" and "i < length ls"
  shows "entry_bytes it (off ls i)
      = entry_enc (sh_of ls i) (key_of ls i) (val_of ls i) @ layout (drop (Suc i) ls)"
    and "drop (off ls i) (bi_data it) = entry_bytes it (off ls i) @ drop (bi_restarts it) (bi_data it)"
proof -
  have o: "off ls i \<le> length (layout ls)" using off_le_iff [of i ls "length ls"] assms(2) by simp
  obtain X where X: "bi_data it = layout ls @ X" and r: "bi_restarts it = length (layout ls)"
    using assms(1) by (simp add: iter_on_def block_bytes_def)
  have e: "entry_bytes it (off ls i) = drop (off ls i) (layout ls)"
    using o by (simp add: entry_bytes_def X r)
  show "entry_bytes it (off ls i)
      = entry_enc (sh_of ls i) (key_of ls i) (val_of ls i) @ layout (drop (Suc i) ls)"
    unfolding e by (rule layout_drop [OF assms(2)])
  show "drop (off ls i) (bi_data it) = entry_bytes it (off ls i) @ drop (bi_restarts it) (bi_data it)"
    unfolding e using o by (simp add: X r)
qed

lemma entry_fits:
  assumes "iter_on ls rs it" and "i < length ls"
  shows "off ls (Suc i) \<le> bi_restarts it" and "off ls i < bi_restarts it"
  using assms off_le_iff [of "Suc i" ls "length ls"] off_less_iff [of i ls "length ls"] by (simp_all add: iter_on_def)

lemma DecodeEntry_at:
  assumes on: "iter_on ls rs it" and i: "i < length ls"
  shows "DecodeEntry (entry_bytes it (off ls i))
      = Some (of_nat (sh_of ls i), of_nat (length (key_of ls i) - sh_of ls i), of_nat (length (val_of ls i)),
          entry_header (sh_of ls i) (key_of ls i) (val_of ls i))"
    and "unat (of_nat (sh_of ls i) :: u32) = sh_of ls i"
    and "unat (of_nat (length (key_of ls i) - sh_of ls i) :: u32) = length (key_of ls i) - sh_of ls i"
    and "unat (of_nat (length (val_of ls i)) :: u32) = length (val_of ls i)"
proof -
  let ?k = "key_of ls i" and ?v = "val_of ls i" and ?sh = "sh_of ls i"
  have k: "length ?k < 2 ^ 32" using on i by (simp add: iter_on_def)
  have sh: "?sh \<le> length ?k" using on i by (simp add: iter_on_def chained_def)
  have "length (entry_bytes it (off ls i)) \<le> length (bi_data it)" by (simp add: entry_bytes_def)
  then have l: "length (entry_enc ?sh ?k ?v @ layout (drop (Suc i) ls)) < 2 ^ 32"
    using on entry_bytes_at(1) [OF assms] by (simp add: iter_on_def)
  show "DecodeEntry (entry_bytes it (off ls i)) = Some (of_nat ?sh, of_nat (length ?k - ?sh), of_nat (length ?v), entry_header ?sh ?k ?v)"
    unfolding entry_bytes_at(1) [OF assms] by (rule DecodeEntry_enc [OF l sh k])
  show "unat (of_nat ?sh :: u32) = ?sh" "unat (of_nat (length ?k - ?sh) :: u32) = length ?k - ?sh"
    "unat (of_nat (length ?v) :: u32) = length ?v"
    using sh k l by (simp_all add: unat_of_nat length_entry_enc del: of_nat_diff)
qed

lemma entry_parts_at:
  assumes on: "iter_on ls rs it" and i: "i < length ls"
  defines "p \<equiv> off ls i + entry_header (sh_of ls i) (key_of ls i) (val_of ls i)"
    and "m \<equiv> length (key_of ls i) - sh_of ls i"
  shows "take m (drop p (bi_data it)) = drop (sh_of ls i) (key_of ls i)"
    and "take (length (val_of ls i)) (drop (p + m) (bi_data it)) = val_of ls i"
    and "p + m + length (val_of ls i) = off ls (Suc i)"
proof -
  let ?k = "key_of ls i" and ?v = "val_of ls i" and ?sh = "sh_of ls i"
  obtain X where X: "drop (off ls i) (bi_data it) = entry_enc ?sh ?k ?v @ X"
    using entry_bytes_at [OF assms(1,2)] by simp
  have d: "drop p (bi_data it) = drop ?sh ?k @ ?v @ X"
  proof -
    have "drop p (bi_data it) = drop (entry_header ?sh ?k ?v) (drop (off ls i) (bi_data it))"
      by (simp add: p_def add.commute)
    then show ?thesis unfolding X by (simp add: entry_enc_def entry_header_def)
  qed
  show "take m (drop p (bi_data it)) = drop ?sh ?k" unfolding d m_def by simp
  have "drop (p + m) (bi_data it) = drop m (drop p (bi_data it))" by (simp add: add.commute)
  then show "take (length ?v) (drop (p + m) (bi_data it)) = ?v" unfolding d m_def by simp
  show "p + m + length ?v = off ls (Suc i)" using i by (simp add: p_def m_def off_Suc length_entry_enc)
qed

lemma ParseNextKey_ready:
  assumes r: "iter_ready ls rs it i" and i: "i < length ls"
  obtains it' where "ParseNextKey it = (True, it')" and "iter_at ls rs it' i"
proof -
  have on: "iter_on ls rs it" using r by (simp add: iter_ready_def)
  let ?k = "key_of ls i" and ?v = "val_of ls i" and ?sh = "sh_of ls i"
  let ?m = "length ?k - ?sh" and ?p = "off ls i + entry_header ?sh ?k ?v"
  define it1 where "it1 = it\<lparr>bi_current := off ls i, bi_key := ?k, bi_value_off := ?p + ?m, bi_value_len := length ?v\<rparr>"
  have on1: "iter_on ls rs it1" using on by (simp add: iter_on_def it1_def)
  let ?it = "it1\<lparr>bi_restart_index := ParseNextKey_restarts it1 (bi_restart_index it1)\<rparr>"
  have key: "take ?sh (bi_key it) @ drop ?sh ?k = ?k" "?sh \<le> length (bi_key it)"
    using r i by (simp_all add: iter_ready_def)
  have eb: "entry_bytes (it\<lparr>bi_current := c\<rparr>) o' = entry_bytes it o'" for c o' by (simp add: entry_bytes_def)
  have "ParseNextKey it = (True, ?it)"
    using r entry_fits(2) [OF on i] key DecodeEntry_at [OF on i] entry_parts_at(1) [OF on i]
    by (simp add: ParseNextKey_def Let_def iter_ready_def eb it1_def)
  moreover have "iter_at ls rs ?it i"
    using on1 i r entry_parts_at [OF on i] ParseNextKey_restarts_in [OF on1, of i "bi_restart_index it1"]
    by (simp add: iter_at_def iter_ready_def iter_in_def iter_on_def it1_def BlockIter_value_def NextEntryOffset_def)
  ultimately show thesis by (rule that)
qed

lemma ParseNextKey_end:
  assumes "iter_ready ls rs it (length ls)"
  obtains it' where "ParseNextKey it = (False, it')" and "iter_done ls rs it'"
  using assms that [of "it\<lparr>bi_current := bi_restarts it, bi_restart_index := bi_num_restarts it\<rparr>"]
  by (auto simp: ParseNextKey_def iter_ready_def iter_done_def iter_on_def BlockIter_Valid_def)

lemma ParseNextKey_step:
  assumes "iter_ready ls rs it i"
  shows "if i < length ls then iter_at ls rs (snd (ParseNextKey it)) i else iter_done ls rs (snd (ParseNextKey it))"
proof (cases "i < length ls")
  case True
  then show ?thesis using ParseNextKey_ready [OF assms True] by (metis snd_conv)
next
  case False
  then have "i = length ls" using assms by (simp add: iter_ready_def)
  then show ?thesis using ParseNextKey_end assms by (metis less_irrefl snd_conv)
qed

lemma iter_at_ready: "iter_at ls rs it i \<Longrightarrow> iter_ready ls rs it (Suc i)"
  by (auto simp: iter_at_def iter_ready_def iter_in_def iter_on_def chained_def prev_key_def)

lemma SeekToRestartPoint_ready:
  assumes on: "iter_on ls rs it" and j: "j < length rs"
  shows "iter_ready ls rs (SeekToRestartPoint it j) (rs ! j)"
proof -
  have "iter_on ls rs (SeekToRestartPoint it j)" using on by (simp add: iter_on_def SeekToRestartPoint_def)
  moreover have "rs ! j < length ls \<Longrightarrow> sh_of ls (rs ! j) = 0" using on j by (simp add: iter_on_def restart_points_def)
  ultimately show ?thesis
    using on j restart_index_bound [of ls rs j] GetRestartPoint_eq [OF on j]
    by (simp add: iter_ready_def iter_in_def SeekToRestartPoint_def NextEntryOffset_def iter_on_def)
qed

lemma iter_at_on: "iter_at ls rs it i \<Longrightarrow> iter_on ls rs it"
  by (simp add: iter_at_def)

lemma Skip_to_at:
  assumes "iter_ready ls rs it i" and "i \<le> t" and "t < length ls" and "t - i < fuel"
  shows "\<exists>it'. Skip_to fuel it (off ls (Suc t)) = Some it' \<and> iter_at ls rs it' t"
  using assms
proof (induction fuel arbitrary: it i)
  case (Suc fuel)
  obtain it1 where it1: "ParseNextKey it = (True, it1)" "iter_at ls rs it1 i"
    using ParseNextKey_ready [OF Suc.prems(1)] Suc.prems(2,3) by auto
  have n: "NextEntryOffset it1 = off ls (Suc i)" using it1(2) by (simp add: iter_at_def)
  show ?case
  proof (cases "i = t")
    case True
    then show ?thesis using it1 n by simp
  next
    case False
    then have lt: "i < t" using Suc.prems(2) by simp
    then have "off ls (Suc i) < off ls (Suc t)" using Suc.prems(3) by (simp add: off_less_iff)
    moreover have "Suc i \<le> t" "t - Suc i < fuel" using lt Suc.prems(4) by linarith+
    moreover from Suc.IH [OF iter_at_ready [OF it1(2)] this(1) Suc.prems(3) this(2)]
    obtain it' where "Skip_to fuel it1 (off ls (Suc t)) = Some it'" "iter_at ls rs it' t" by blast
    ultimately show ?thesis using it1(1) n by simp
  qed
qed simp

lemma Prev_restart_eq:
  assumes "iter_on ls rs it" and "i \<le> length ls" and "j < length rs" and "0 < i"
  obtains j' where "Prev_restart it (off ls i) j = Some j'" and "j' < length rs" and "rs ! j' < i"
  using assms
proof (induction j arbitrary: thesis)
  case 0
  have "rs ! 0 = 0" using "0.prems" by (auto simp: iter_on_def restart_points_def hd_conv_nth)
  moreover have "off ls 0 < off ls i" using "0.prems" by (intro off_less) auto
  ultimately show ?case using "0.prems" GetRestartPoint_eq [OF "0.prems"(2,4)] by auto
next
  case (Suc j)
  show ?case
  proof (cases "GetRestartPoint it (Suc j) \<ge> off ls i")
    case True
    then show ?thesis using Suc.IH Suc.prems by auto
  next
    case False
    then have "rs ! Suc j < i"
      using GetRestartPoint_eq [OF Suc.prems(2,4)] off_less_iff [of "rs ! Suc j" ls i] Suc.prems(2,3,4)
        restart_index_bound [of ls rs "Suc j"] by (simp add: iter_on_def)
    then show ?thesis using False Suc.prems by auto
  qed
qed

lemma Prev_restart_first:
  "iter_on ls rs it \<Longrightarrow> j < length rs \<Longrightarrow> Prev_restart it 0 j = None"
  by (induction j) auto

lemma BlockIter_Prev_at:
  assumes "iter_at ls rs it i" and "length ls < fuel"
  shows "\<exists>it'. BlockIter_Prev fuel it = Some it' \<and> (if i = 0 then iter_done ls rs it' else iter_at ls rs it' (i - 1))"
proof -
  have on: "iter_on ls rs it" and i: "i < length ls" and cur: "bi_current it = off ls i"
    and ri: "bi_restart_index it < length rs"
    using assms(1) by (simp_all add: iter_at_def iter_in_def)
  show ?thesis
  proof (cases "i = 0")
    case True
    then show ?thesis
      using on cur Prev_restart_first [OF on ri]
      by (simp add: BlockIter_Prev_def iter_done_def iter_on_def BlockIter_Valid_def)
  next
    case False
    obtain j where j: "Prev_restart it (off ls i) (bi_restart_index it) = Some j" "j < length rs" "rs ! j < i"
      using Prev_restart_eq [OF on less_imp_le [OF i] ri] False by blast
    have "\<exists>it'. Skip_to fuel (SeekToRestartPoint it j) (off ls (Suc (i - 1))) = Some it' \<and> iter_at ls rs it' (i - 1)"
      using j i assms(2) by (intro Skip_to_at [OF SeekToRestartPoint_ready [OF on j(2)]]) auto
    then show ?thesis using False j(1) by (simp add: BlockIter_Prev_def cur)
  qed
qed

lemma BlockIter_SeekToFirst_at:
  assumes "iter_on ls rs it"
  shows "if ls = [] then iter_done ls rs (BlockIter_SeekToFirst it) else iter_at ls rs (BlockIter_SeekToFirst it) 0"
proof -
  have rs: "0 < length rs" "rs ! 0 = 0" using assms by (auto simp: iter_on_def restart_points_def hd_conv_nth)
  have r: "iter_ready ls rs (SeekToRestartPoint it 0) 0" using SeekToRestartPoint_ready [OF assms rs(1)] rs(2) by simp
  from ParseNextKey_step [OF r] show ?thesis by (cases "ls = []") (simp_all add: BlockIter_SeekToFirst_def)
qed

lemma BlockIter_SeekToLast_at:
  assumes on: "iter_on ls rs it" and "length ls < fuel"
  shows "\<exists>it'. BlockIter_SeekToLast fuel it = Some it' \<and> (if ls = [] then iter_done ls rs it' else iter_at ls rs it' (length ls - 1))"
proof -
  let ?j = "length rs - 1"
  have j: "?j < length rs" "bi_num_restarts it = length rs" "bi_restarts it = off ls (length ls)"
    using on by (auto simp: iter_on_def restart_points_def)
  note r = SeekToRestartPoint_ready [OF on j(1)]
  show ?thesis
  proof (cases "ls = []")
    case True
    then have "rs ! ?j = length ls" using restart_index_bound [OF _ j(1), of ls] on by (simp add: iter_on_def)
    with r obtain it' where "ParseNextKey (SeekToRestartPoint it ?j) = (False, it')" "iter_done ls rs it'"
      using ParseNextKey_end [of ls rs "SeekToRestartPoint it ?j"] by auto
    moreover obtain f where "fuel = Suc f" using assms(2) by (cases fuel) auto
    ultimately show ?thesis using True j(2) by (simp add: BlockIter_SeekToLast_def)
  next
    case False
    have "rs ! ?j \<le> length ls - 1" using on j(1) False nth_mem [OF j(1)]
      by (auto simp: iter_on_def restart_points_def simp del: nth_mem)
    then have "\<exists>it'. Skip_to fuel (SeekToRestartPoint it ?j) (off ls (Suc (length ls - 1))) = Some it' \<and> iter_at ls rs it' (length ls - 1)"
      using False assms(2) by (intro Skip_to_at [OF r]) auto
    then show ?thesis using False j by (simp add: BlockIter_SeekToLast_def)
  qed
qed

lemma BlockIter_Next_at:
  assumes "iter_at ls rs it i"
  shows "if Suc i < length ls then iter_at ls rs (BlockIter_Next it) (Suc i) else iter_done ls rs (BlockIter_Next it)"
  using ParseNextKey_step [OF iter_at_ready [OF assms]] by (simp add: BlockIter_Next_def)

subsection \<open>Seek\<close>

definition index_ge :: "(Slice \<Rightarrow> Slice \<Rightarrow> int) \<Rightarrow> laid \<Rightarrow> Slice \<Rightarrow> nat" where
  "index_ge cmp ls target = length (takeWhile (\<lambda>e. cmp (fst (snd e)) target < 0) ls)"

lemma index_ge_before: "j < index_ge cmp ls target \<Longrightarrow> cmp (key_of ls j) target < 0"
  unfolding index_ge_def by (metis nth_length_takeWhile nth_mem set_takeWhileD takeWhile_nth)

lemma index_ge_at: "index_ge cmp ls target < length ls \<Longrightarrow> \<not> cmp (key_of ls (index_ge cmp ls target)) target < 0"
  unfolding index_ge_def by (rule nth_length_takeWhile)

lemma index_ge_le: "index_ge cmp ls target \<le> length ls"
  unfolding index_ge_def by (rule length_takeWhile_le)

lemma Seek_linear_at:
  assumes "iter_ready ls rs it i" and "i \<le> index_ge cmp ls target" and "index_ge cmp ls target - i < fuel"
  shows "\<exists>it'. Seek_linear cmp fuel it target = Some it' \<and>
    (if index_ge cmp ls target < length ls then iter_at ls rs it' (index_ge cmp ls target) else iter_done ls rs it')"
  using assms
proof (induction fuel arbitrary: it i)
  case (Suc fuel)
  let ?t = "index_ge cmp ls target"
  show ?case
  proof (cases "i < length ls")
    case False
    then have i: "i = length ls" "?t = length ls"
      using Suc.prems(1,2) index_ge_le [of cmp ls target] by (auto simp: iter_ready_def)
    then obtain it1 where "ParseNextKey it = (False, it1)" "iter_done ls rs it1"
      using ParseNextKey_end Suc.prems(1) by blast
    then show ?thesis by (simp add: i(2))
  next
    case True
    obtain it1 where it1: "ParseNextKey it = (True, it1)" "iter_at ls rs it1 i"
      using ParseNextKey_ready [OF Suc.prems(1) True] by blast
    then have k: "bi_key it1 = key_of ls i" by (simp add: iter_at_def)
    show ?thesis
    proof (cases "i = ?t")
      case t: True
      then have "\<not> cmp (bi_key it1) target < 0" using index_ge_at [of cmp ls target] True k by simp
      then show ?thesis using it1 t True by simp
    next
      case False
      then have "cmp (bi_key it1) target < 0" using index_ge_before [of i cmp ls target] Suc.prems(2) k by simp
      moreover have "Suc i \<le> ?t" "?t - Suc i < fuel" using False Suc.prems(2,3) by linarith+
      moreover note Suc.IH [OF iter_at_ready [OF it1(2)] this]
      ultimately show ?thesis using it1(1) by simp
    qed
  qed
qed simp

lemma Seek_search_at:
  assumes on: "iter_on ls rs it" and ne: "ls \<noteq> []" and "r < length rs" and "l \<le> r" and "l = 0 \<or> cmp (key_of ls (rs ! l)) target < 0"
  shows "\<exists>l'. Seek_search cmp it target l r = Some l' \<and> l' < length rs \<and> (l' = 0 \<or> cmp (key_of ls (rs ! l')) target < 0)"
  using assms(3-5)
proof (induction "r - l" arbitrary: l r rule: less_induct)
  case less
  show ?case
  proof (cases "l < r")
    case False
    then show ?thesis using less.prems by (subst Seek_search.simps) simp
  next
    case True
    let ?mid = "(l + r + 1) div 2"
    have mid: "l < ?mid" "?mid \<le> r" "?mid < length rs" using True less.prems(1) by linarith+
    have i: "rs ! ?mid < length ls" "sh_of ls (rs ! ?mid) = 0"
      using on nth_mem [OF mid(3)] ne by (auto simp: iter_on_def restart_points_def)
    have ent: "take (length (key_of ls (rs ! ?mid))) (drop (off ls (rs ! ?mid) + entry_header 0 (key_of ls (rs ! ?mid)) (val_of ls (rs ! ?mid))) (bi_data it))
        = key_of ls (rs ! ?mid)"
      using entry_parts_at(1) [OF on i(1)] i(2) by simp
    have step: "Seek_search cmp it target l r = (if cmp (key_of ls (rs ! ?mid)) target < 0
        then Seek_search cmp it target ?mid r else Seek_search cmp it target l (?mid - 1))"
      using True GetRestartPoint_eq [OF on mid(3)] DecodeEntry_at [OF on i(1)] ent i(2)
      by (subst Seek_search.simps) (simp add: Let_def)
    show ?thesis
    proof (cases "cmp (key_of ls (rs ! ?mid)) target < 0")
      case True
      then show ?thesis using less.hyps [of r ?mid] less.prems mid step by simp
    next
      case False
      have "?mid - 1 - l < r - l" "?mid - 1 < length rs" "l \<le> ?mid - 1" using mid less.prems(1) by linarith+
      then show ?thesis using less.hyps [of "?mid - 1" l] less.prems(3) False step by simp
    qed
  qed
qed

lemma BlockIter_Seek_at:
  assumes cmp: "comparator cmp" and on: "iter_on ls rs it" and sorted: "sorted_wrt (\<lambda>a b. cmp (fst (snd a)) (fst (snd b)) < 0) ls"
    and fuel: "length ls < fuel"
  shows "\<exists>it'. BlockIter_Seek cmp fuel it target = Some it' \<and>
    (if index_ge cmp ls target < length ls then iter_at ls rs it' (index_ge cmp ls target) else iter_done ls rs it')"
proof -
  let ?t = "index_ge cmp ls target"
  have rs: "0 < length rs" "rs ! 0 = 0" "bi_num_restarts it = length rs" "restart_points ls rs"
    using on by (auto simp: iter_on_def restart_points_def hd_conv_nth)
  have "\<exists>l. Seek_search cmp it target 0 (length rs - 1) = Some l \<and> l < length rs \<and> rs ! l \<le> ?t"
  proof (cases "ls = []")
    case True
    then have "sorted_wrt (<) rs" "\<forall>r \<in> set rs. r = 0" using rs(4) by (auto simp: restart_points_def)
    then have "length rs = 1" using rs(1) by (cases rs; cases "tl rs") auto
    then show ?thesis using rs by (subst Seek_search.simps) simp
  next
    case False
    obtain l where l: "Seek_search cmp it target 0 (length rs - 1) = Some l" "l < length rs"
      "l = 0 \<or> cmp (key_of ls (rs ! l)) target < 0"
      using Seek_search_at [OF on False, of "length rs - 1" 0 cmp target] rs(1) by auto
    have "rs ! l \<le> ?t"
    proof (rule ccontr)
      assume "\<not> rs ! l \<le> ?t"
      then have l0: "?t < rs ! l" "l \<noteq> 0" using rs(2) by (auto intro: gr0I)
      then have lt: "?t < rs ! l" "rs ! l < length ls" "l \<noteq> 0"
        using rs(4) nth_mem [OF l(2)] by (auto simp: restart_points_def)
      then have "cmp (key_of ls ?t) (key_of ls (rs ! l)) < 0" using sorted_wrt_nth_less [OF sorted lt(1,2)] by simp
      moreover have "cmp (key_of ls (rs ! l)) target < 0" using l(3) lt(3) by simp
      ultimately have "cmp (key_of ls ?t) target < 0" by (rule comparator.cmp_less_trans [OF cmp])
      then show False using index_ge_at [of cmp ls target] lt by simp
    qed
    then show ?thesis using l by blast
  qed
  then obtain l where l: "Seek_search cmp it target 0 (length rs - 1) = Some l" "l < length rs" "rs ! l \<le> ?t" by blast
  have "?t - rs ! l < fuel" using index_ge_le [of cmp ls target] fuel by linarith
  from Seek_linear_at [OF SeekToRestartPoint_ready [OF on l(2)] l(3) this] show ?thesis
    using l(1) rs(3) by (simp add: BlockIter_Seek_def)
qed

subsection \<open>Properties\<close>

text \<open>Reading a block from the position of an iterator, forwards and backwards, until it is no longer valid.\<close>

primrec Block_collect :: "nat \<Rightarrow> BlockIter \<Rightarrow> (Slice \<times> Slice) list option" where
  "Block_collect 0 it = None"
| "Block_collect (Suc fuel) it =
     (if BlockIter_Valid it
      then map_option (\<lambda>es. (BlockIter_key it, BlockIter_value it) # es) (Block_collect fuel (BlockIter_Next it))
      else Some [])"

primrec Block_collect_back :: "nat \<Rightarrow> nat \<Rightarrow> BlockIter \<Rightarrow> (Slice \<times> Slice) list option" where
  "Block_collect_back 0 n it = None"
| "Block_collect_back (Suc fuel) n it =
     (if BlockIter_Valid it
      then map_option (\<lambda>es. (BlockIter_key it, BlockIter_value it) # es)
             (Option.bind (BlockIter_Prev n it) (Block_collect_back fuel n))
      else Some [])"

definition block_of :: "nat \<Rightarrow> (Slice \<times> Slice) list \<Rightarrow> Slice" where
  "block_of n es =
     fst (BlockBuilder_Finish (foldl (\<lambda>b (k, v). BlockBuilder_Add n b k v) BlockBuilder_make es))"

lemma iter_at_entry:
  assumes "iter_at ls rs it i"
  shows "BlockIter_Valid it" and "(BlockIter_key it, BlockIter_value it) = snd (ls ! i)"
  using assms entry_fits(2) [OF iter_at_on [OF assms]] by (simp_all add: iter_at_def BlockIter_Valid_def BlockIter_key_def)

lemma Block_collect_at:
  "iter_at ls rs it i \<Longrightarrow> length ls - i < fuel \<Longrightarrow> Block_collect fuel it = Some (map snd (drop i ls))"
proof (induction fuel arbitrary: it i)
  case (Suc fuel)
  note e = iter_at_entry [OF Suc.prems(1)]
  have i: "i < length ls" using Suc.prems(1) by (simp add: iter_at_def)
  have "Block_collect fuel (BlockIter_Next it) = Some (map snd (drop (Suc i) ls))"
  proof (cases "Suc i < length ls")
    case True
    then show ?thesis using BlockIter_Next_at [OF Suc.prems(1)] Suc.prems(2) by (intro Suc.IH) auto
  next
    case False
    then have "iter_done ls rs (BlockIter_Next it)" using BlockIter_Next_at [OF Suc.prems(1)] by simp
    then show ?thesis using False i Suc.prems(2) by (cases fuel) (simp_all add: iter_done_def)
  qed
  then show ?case using e i by (simp add: Cons_nth_drop_Suc [symmetric])
qed simp

lemma Block_collect_back_at:
  "iter_at ls rs it i \<Longrightarrow> i + 1 < fuel \<Longrightarrow> length ls < n \<Longrightarrow>
   Block_collect_back fuel n it = Some (rev (map snd (take (Suc i) ls)))"
proof (induction fuel arbitrary: it i)
  case (Suc fuel)
  note e = iter_at_entry [OF Suc.prems(1)]
  have i: "i < length ls" using Suc.prems(1) by (simp add: iter_at_def)
  obtain it' where it': "BlockIter_Prev n it = Some it'"
    "if i = 0 then iter_done ls rs it' else iter_at ls rs it' (i - 1)"
    using BlockIter_Prev_at [OF Suc.prems(1,3)] by blast
  have "Block_collect_back fuel n it' = Some (rev (map snd (take i ls)))"
  proof (cases i)
    case 0
    then show ?thesis using it'(2) Suc.prems(2) by (cases fuel) (simp_all add: iter_done_def)
  next
    case (Suc j)
    then show ?thesis using it'(2) Suc.prems Suc.IH [of it' j] by simp
  qed
  then show ?case using e i it'(1) by (simp add: take_Suc_conv_app_nth)
qed simp

lemma builder_run:
  assumes "builder_holds n b ls rs" and "0 < n"
  shows "\<exists>ls' rs'. builder_holds n (foldl (\<lambda>b (k, v). BlockBuilder_Add n b k v) b es) (ls @ ls') rs' \<and> map snd ls' = es"
  using assms(1)
proof (induction es arbitrary: b ls rs)
  case Nil
  then show ?case by (intro exI [of _ "[]"] exI [of _ rs]) simp
next
  case (Cons e es)
  obtain k v where e: "e = (k, v)" by (cases e)
  obtain sh rs1 where "builder_holds n (BlockBuilder_Add n b k v) (ls @ [(sh, k, v)]) rs1"
    using BlockBuilder_Add_holds [OF Cons.prems assms(2)] by blast
  from Cons.IH [OF this] obtain ls' rs' where
    "builder_holds n (foldl (\<lambda>b (k, v). BlockBuilder_Add n b k v) (BlockBuilder_Add n b k v) es) ((ls @ [(sh, k, v)]) @ ls') rs'"
    "map snd ls' = es" by blast
  then show ?case by (intro exI [of _ "(sh, k, v) # ls'"] exI [of _ rs']) (simp add: e)
qed

lemma block_opened:
  assumes "0 < n" and "length (block_of n es) < 2 ^ 32" and "\<forall>(k, v) \<in> set es. length k < 2 ^ 32"
  obtains ls rs it where "map snd ls = es" and "Block_NewIterator (Block_make (block_of n es)) = Inr it" and "iter_on ls rs it"
proof -
  obtain ls rs where h: "builder_holds n (foldl (\<lambda>b (k, v). BlockBuilder_Add n b k v) BlockBuilder_make es) ls rs" "map snd ls = es"
    using builder_run [OF BlockBuilder_make_holds assms(1), of es] by auto
  have bytes: "block_of n es = block_bytes ls rs"
    unfolding block_of_def by (rule BlockBuilder_Finish_holds [OF h(1)])
  have len: "length (concat (map (\<lambda>r. EncodeFixed32 (of_nat (off ls r))) xs)) = length xs * 4" for xs by (induction xs) simp_all
  have sz: "length (block_bytes ls rs) = length (layout ls) + length rs * 4 + 4" by (simp add: block_bytes_def len)
  have "drop (length (block_bytes ls rs) - 4) (block_bytes ls rs) = EncodeFixed32 (of_nat (length rs))"
    by (simp add: block_bytes_def)
  then have num: "NumRestarts (block_bytes ls rs) (length (block_bytes ls rs)) = length rs"
    using DecodeFixed32_Encode [of _ "[]"] assms(2) sz bytes by (simp add: NumRestarts_def unat_of_nat)
  have "Block_make (block_bytes ls rs)
      = \<lparr>bl_data = block_bytes ls rs, bl_size = length (block_bytes ls rs), bl_restart_offset = length (layout ls)\<rparr>"
    unfolding Block_make_def Let_def num by (simp add: sz)
  moreover have "rs \<noteq> []" using h(1) by (simp add: builder_holds_def restart_points_def)
  ultimately have "Block_NewIterator (Block_make (block_of n es)) = Inr (BlockIter_make (block_bytes ls rs) (length (layout ls)) (length rs))"
    using num [unfolded sz] by (simp add: bytes Block_NewIterator_def sz)
  moreover have "iter_on ls rs (BlockIter_make (block_bytes ls rs) (length (layout ls)) (length rs))"
  proof -
    have "length (fst (snd e)) < 2 ^ 32" if "e \<in> set ls" for e
      using assms(3) that unfolding h(2) [symmetric] by (cases e) fastforce
    then show ?thesis using h(1) assms(2) bytes by (simp add: iter_on_def BlockIter_make_def builder_holds_def)
  qed
  ultimately show thesis using h(2) that by blast
qed

text \<open>
  C21.  Round trip of blocks.  Whatever the restart interval, a block built from a list of entries opens, and its
  iterator yields these entries in order from the first one and in reverse order from the last one.
\<close>

theorem block_roundtrip:
  assumes "0 < n" and "length (block_of n es) < 2 ^ 32" and "\<forall>(k, v) \<in> set es. length k < 2 ^ 32"
    and "length es + 1 < fuel"
  shows "\<exists>it it'. Block_NewIterator (Block_make (block_of n es)) = Inr it
    \<and> Block_collect fuel (BlockIter_SeekToFirst it) = Some es
    \<and> BlockIter_SeekToLast fuel it = Some it' \<and> Block_collect_back fuel fuel it' = Some (rev es)"
proof -
  obtain ls rs it where it: "map snd ls = es" "Block_NewIterator (Block_make (block_of n es)) = Inr it" "iter_on ls rs it"
    using block_opened [OF assms(1-3)] .
  then have len: "length ls = length es" by auto
  obtain f where f: "fuel = Suc f" using assms(4) by (cases fuel) auto
  obtain it' where last: "BlockIter_SeekToLast fuel it = Some it'"
    "if ls = [] then iter_done ls rs it' else iter_at ls rs it' (length ls - 1)"
    using BlockIter_SeekToLast_at [OF it(3), of fuel] assms(4) len by auto
  note first = BlockIter_SeekToFirst_at [OF it(3)]
  have "Block_collect fuel (BlockIter_SeekToFirst it) = Some es \<and> Block_collect_back fuel fuel it' = Some (rev es)"
  proof (cases "ls = []")
    case True
    then show ?thesis using first last(2) it(1) f by (simp add: iter_done_def)
  next
    case False
    then show ?thesis
      using Block_collect_at [of ls rs "BlockIter_SeekToFirst it" 0 fuel] Block_collect_back_at [of ls rs it' "length ls - 1" fuel fuel]
        first last(2) it(1) len assms(4) by simp
  qed
  with it(2) last(1) show ?thesis by blast
qed

lemma block_roundtrip_witness:
  "\<exists>it it'. Block_NewIterator (Block_make (block_of 2 [([1, 1], [9]), ([1, 2], [8]), ([1, 2, 3], [])])) = Inr it
    \<and> Block_collect 5 (BlockIter_SeekToFirst it) = Some [([1, 1], [9]), ([1, 2], [8]), ([1, 2, 3], [])]
    \<and> BlockIter_SeekToLast 5 it = Some it' \<and> Block_collect_back 5 5 it' = Some [([1, 2, 3], []), ([1, 2], [8]), ([1, 1], [9])]"
proof -
  let ?es = "[([1, 1], [9]), ([1, 2], [8]), ([1, 2, 3], [])] :: (Slice \<times> Slice) list"
  have "length (block_of 2 ?es) < 2 ^ 32"
    by (simp add: block_of_def BlockBuilder_Add_def BlockBuilder_make_def BlockBuilder_Finish_def shared_prefix.simps
        PutVarint32_def PutFixed32_def EncodeVarint32_def Let_def)
  from block_roundtrip [OF _ this, of 5] show ?thesis by simp
qed

text \<open>
  C22.  Seeking in a block.  In a block whose keys increase, a seek (binary search over the restart points, then a
  linear scan) returns, without a corruption status, at the first entry whose key is not below the target.
\<close>

theorem block_seek:
  assumes "comparator cmp" and "0 < n" and "length (block_of n es) < 2 ^ 32" and "\<forall>(k, v) \<in> set es. length k < 2 ^ 32"
    and "sorted_wrt (\<lambda>a b. cmp (fst a) (fst b) < 0) es" and "length es + 1 < fuel"
  shows "\<exists>it it'. Block_NewIterator (Block_make (block_of n es)) = Inr it \<and> BlockIter_Seek cmp fuel it target = Some it'
    \<and> Block_collect fuel it' = Some (dropWhile (\<lambda>e. cmp (fst e) target < 0) es) \<and> bi_status it' = Status_OK"
proof -
  obtain ls rs it where it: "map snd ls = es" "Block_NewIterator (Block_make (block_of n es)) = Inr it" "iter_on ls rs it"
    using block_opened [OF assms(2-4)] .
  then have len: "length ls = length es" by auto
  obtain f where f: "fuel = Suc f" using assms(6) by (cases fuel) auto
  have "sorted_wrt (\<lambda>a b. cmp (fst (snd a)) (fst (snd b)) < 0) ls" using assms(5) it(1) by (auto simp: sorted_wrt_map)
  from BlockIter_Seek_at [OF assms(1) it(3) this, of fuel target] assms(6) len obtain it' where
    s: "BlockIter_Seek cmp fuel it target = Some it'"
      "if index_ge cmp ls target < length ls then iter_at ls rs it' (index_ge cmp ls target) else iter_done ls rs it'" by auto
  have d: "map snd (drop (index_ge cmp ls target) ls) = dropWhile (\<lambda>e. cmp (fst e) target < 0) es"
    unfolding index_ge_def dropWhile_eq_drop [symmetric] it(1) [symmetric] by (simp add: dropWhile_map comp_def)
  have "Block_collect fuel it' = Some (map snd (drop (index_ge cmp ls target) ls)) \<and> bi_status it' = Status_OK"
  proof (cases "index_ge cmp ls target < length ls")
    case True
    then show ?thesis using s(2) Block_collect_at [of ls rs it' "index_ge cmp ls target" fuel] assms(6) len
      by (auto simp: iter_at_def iter_on_def)
  next
    case False
    then show ?thesis using s(2) f by (simp add: iter_done_def iter_on_def)
  qed
  then show ?thesis using it(2) s(1) d by auto
qed

lemma block_seek_witness:
  "\<exists>it it'. Block_NewIterator (Block_make (block_of 1 [([1], [9]), ([3], [8])])) = Inr it
    \<and> BlockIter_Seek Slice_compare 4 it [2] = Some it' \<and> Block_collect 4 it' = Some [([3], [8])]"
proof -
  let ?es = "[([1], [9]), ([3], [8])] :: (Slice \<times> Slice) list"
  have "length (block_of 1 ?es) < 2 ^ 32"
    by (simp add: block_of_def BlockBuilder_Add_def BlockBuilder_make_def BlockBuilder_Finish_def shared_prefix.simps
        PutVarint32_def PutFixed32_def EncodeVarint32_def Let_def)
  moreover have "sorted_wrt (\<lambda>a b. Slice_compare (fst a) (fst b) < 0) ?es" by (simp add: Slice_compare_def)
  ultimately show ?thesis
    using block_seek [OF slice.comparator_axioms, of 1 ?es 4 "[2]"] by (auto simp: Slice_compare_def)
qed


subsection \<open>The block iterator as an iterator\<close>

text \<open>The loops of the iterator stop within the number of bytes of the block.\<close>

definition BlockIter_fuel :: "BlockIter \<Rightarrow> nat" where
  "BlockIter_fuel it = Suc (length (bi_data it))"

definition BlockIter_Iterator :: "(Slice \<Rightarrow> Slice \<Rightarrow> int) \<Rightarrow> BlockIter Iterator" where
  "BlockIter_Iterator cmp =
     \<lparr>it_Valid = BlockIter_Valid, it_SeekToFirst = (\<lambda>it. Some (BlockIter_SeekToFirst it)),
      it_SeekToLast = (\<lambda>it. BlockIter_SeekToLast (BlockIter_fuel it) it),
      it_Seek = (\<lambda>it k. BlockIter_Seek cmp (BlockIter_fuel it) it k),
      it_Next = (\<lambda>it. Some (BlockIter_Next it)), it_Prev = (\<lambda>it. BlockIter_Prev (BlockIter_fuel it) it),
      it_key = BlockIter_key, it_value = BlockIter_value, it_status = bi_status\<rparr>"

text \<open>What \<^verbatim>\<open>NewIterator\<close> returns is an error iterator, an empty iterator or a block iterator.\<close>

definition Block_Iterator :: "(Slice \<Rightarrow> Slice \<Rightarrow> int) \<Rightarrow> (Status + BlockIter) Iterator" where
  "Block_Iterator cmp = sum_Iterator EmptyIterator (BlockIter_Iterator cmp)"

definition laid_at :: "laid \<Rightarrow> nat list \<Rightarrow> BlockIter \<Rightarrow> nat option \<Rightarrow> bool" where
  "laid_at ls rs it p = (case p of None \<Rightarrow> iter_done ls rs it | Some i \<Rightarrow> iter_at ls rs it i)"

definition block_at :: "(Slice \<Rightarrow> Slice \<Rightarrow> int) \<Rightarrow> BlockIter \<Rightarrow> entries \<Rightarrow> nat option \<Rightarrow> bool" where
  "block_at cmp it es p \<longleftrightarrow> comparator cmp \<and> entries_sorted cmp es \<and> (\<exists>ls rs. map snd ls = es \<and> laid_at ls rs it p)"

lemma length_layout_ge: "length ls \<le> length (layout ls)"
proof (induction ls)
  case (Cons e ls)
  then show ?case using entry_header_ge [of "fst e" "fst (snd e)" "snd (snd e)"]
    by (cases e) (simp add: layout_Cons length_entry_enc)
qed simp

lemma BlockIter_fuel_enough: "iter_on ls rs it \<Longrightarrow> length ls < BlockIter_fuel it"
  using length_layout_ge [of ls] by (simp add: iter_on_def block_bytes_def BlockIter_fuel_def)

lemma laid_at_on: "laid_at ls rs it p \<Longrightarrow> iter_on ls rs it"
  by (auto simp: laid_at_def iter_at_def iter_done_def split: option.splits)

lemma lower_bound_index_ge: "lower_bound cmp (map snd ls) k = index_ge cmp ls k"
  by (simp add: lower_bound_def index_ge_def takeWhile_map comp_def)

lemma laid_moves:
  assumes "comparator cmp" and "entries_sorted cmp (map snd ls)" and "laid_at ls rs it p"
  shows "laid_at ls rs (BlockIter_SeekToFirst it) (index_in ls 0)"
    and "\<exists>it'. BlockIter_SeekToLast (BlockIter_fuel it) it = Some it' \<and> laid_at ls rs it' (index_before (length ls))"
    and "\<exists>it'. BlockIter_Seek cmp (BlockIter_fuel it) it k = Some it' \<and> laid_at ls rs it' (index_in ls (lower_bound cmp (map snd ls) k))"
    and "p = Some i \<Longrightarrow> laid_at ls rs (BlockIter_Next it) (index_in ls (Suc i))"
    and "p = Some i \<Longrightarrow> \<exists>it'. BlockIter_Prev (BlockIter_fuel it) it = Some it' \<and> laid_at ls rs it' (index_before i)"
proof -
  note on = laid_at_on [OF assms(3)]
  note fuel = BlockIter_fuel_enough [OF on]
  have sorted: "sorted_wrt (\<lambda>a b. cmp (fst (snd a)) (fst (snd b)) < 0) ls"
    using assms(2) by (simp add: entries_sorted_def sorted_wrt_map)
  show "laid_at ls rs (BlockIter_SeekToFirst it) (index_in ls 0)"
    using BlockIter_SeekToFirst_at [OF on] by (auto simp: laid_at_def index_in_def)
  show "\<exists>it'. BlockIter_SeekToLast (BlockIter_fuel it) it = Some it' \<and> laid_at ls rs it' (index_before (length ls))"
    using BlockIter_SeekToLast_at [OF on fuel] by (auto simp: laid_at_def index_before_def)
  show "\<exists>it'. BlockIter_Seek cmp (BlockIter_fuel it) it k = Some it' \<and> laid_at ls rs it' (index_in ls (lower_bound cmp (map snd ls) k))"
    using BlockIter_Seek_at [OF assms(1) on sorted fuel, of k] by (auto simp: laid_at_def index_in_def lower_bound_index_ge)
  show "laid_at ls rs (BlockIter_Next it) (index_in ls (Suc i))" if "p = Some i"
    using BlockIter_Next_at [of ls rs it i] assms(3) that by (auto simp: laid_at_def index_in_def)
  show "\<exists>it'. BlockIter_Prev (BlockIter_fuel it) it = Some it' \<and> laid_at ls rs it' (index_before i)" if "p = Some i"
    using BlockIter_Prev_at [OF _ fuel, of rs it i] assms(3) that by (auto simp: laid_at_def index_before_def)
qed

lemma block_atI: "comparator cmp \<Longrightarrow> entries_sorted cmp (map snd ls) \<Longrightarrow> laid_at ls rs it p \<Longrightarrow> block_at cmp it (map snd ls) p"
  unfolding block_at_def by blast

interpretation block: iterator cmp "BlockIter_Iterator cmp" "block_at cmp" for cmp
proof
  fix it es p
  assume "block_at cmp it es p"
  then obtain ls rs where c: "comparator cmp" "entries_sorted cmp (map snd ls)" and es: "es = map snd ls" and at: "laid_at ls rs it p"
    unfolding block_at_def by blast
  note m = laid_moves [OF c at] and I = block_atI [OF c]
  show "comparator cmp \<and> entries_sorted cmp es" using c es by simp
  show "it_Valid (BlockIter_Iterator cmp) it = (p \<noteq> None)"
    using at iter_at_entry(1) [of ls rs it] by (cases p) (auto simp: BlockIter_Iterator_def laid_at_def iter_done_def)
  show "it_status (BlockIter_Iterator cmp) it = Status_OK"
    using laid_at_on [OF at] by (simp add: BlockIter_Iterator_def iter_on_def)
  show "\<exists>it'. it_SeekToFirst (BlockIter_Iterator cmp) it = Some it' \<and> block_at cmp it' es (index_in es 0)"
    using I [OF m(1)] by (simp add: BlockIter_Iterator_def es)
  show "\<exists>it'. it_SeekToLast (BlockIter_Iterator cmp) it = Some it' \<and> block_at cmp it' es (index_before (length es))"
    using m(2) I by (auto simp: BlockIter_Iterator_def es)
  show "\<exists>it'. it_Seek (BlockIter_Iterator cmp) it k = Some it' \<and> block_at cmp it' es (index_in es (lower_bound cmp es k))" for k
    using m(3) [of k] I by (auto simp: BlockIter_Iterator_def es)
next
  fix it es i
  assume "block_at cmp it es (Some i)"
  then obtain ls rs where c: "comparator cmp" "entries_sorted cmp (map snd ls)" and es: "es = map snd ls"
    and at: "laid_at ls rs it (Some i)"
    unfolding block_at_def by blast
  note m = laid_moves(4,5) [OF c at refl] and I = block_atI [OF c]
  have "iter_at ls rs it i" using at by (simp add: laid_at_def)
  then show "i < length es \<and> es ! i = (it_key (BlockIter_Iterator cmp) it, it_value (BlockIter_Iterator cmp) it)"
    using iter_at_entry(2) [of ls rs it i] by (simp add: BlockIter_Iterator_def es iter_at_def)
  show "\<exists>it'. it_Next (BlockIter_Iterator cmp) it = Some it' \<and> block_at cmp it' es (index_in es (Suc i))"
    using I [OF m(1)] by (simp add: BlockIter_Iterator_def es)
  show "\<exists>it'. it_Prev (BlockIter_Iterator cmp) it = Some it' \<and> block_at cmp it' es (index_before i)"
    using m(2) I by (auto simp: BlockIter_Iterator_def es)
qed

lemma block_iterator: "iterator cmp (Block_Iterator cmp) (case_sum (empty_at cmp) (block_at cmp))"
  unfolding Block_Iterator_def by (rule sum_iterator [OF empty.iterator_axioms block.iterator_axioms])

text \<open>An opened block is an iterator over its entries.\<close>

lemma block_opened_at:
  assumes "comparator cmp" and "0 < n" and "length (block_of n es) < 2 ^ 32" and "entries_sorted cmp es"
  obtains it where "Block_NewIterator (Block_make (block_of n es)) = Inr it" and "block_at cmp it es None"
proof -
  have "\<forall>(k, v) \<in> set es. length k < 2 ^ 32" using assms(4) by (auto simp: entries_sorted_def key_fits_def)
  from block_opened [OF assms(2,3) this] obtain ls rs it where
    it: "map snd ls = es" "Block_NewIterator (Block_make (block_of n es)) = Inr it" "iter_on ls rs it" .
  have "\<not> BlockIter_Valid it"
    using it(2,3) by (auto simp: Block_NewIterator_def BlockIter_Valid_def BlockIter_make_def Let_def split: if_splits)
  then have "laid_at ls rs it None" using it(3) by (simp add: laid_at_def iter_done_def)
  then have "block_at cmp it es None" using block_atI [OF assms(1), of ls] assms(4) it(1) by simp
  with it(2) show thesis by (rule that)
qed

end
