(* ===== verification/Format.thy ===== *)
theory Format
  imports Memenv Crc32c
begin

text \<open>
  The fixed parts of a table file (\<^verbatim>\<open>table/format.{h,cc}\<close>): block handles, the footer, and reading a block with
  its trailer of a type byte and a checksum.  The file is the \<^verbatim>\<open>Read\<close> of its random-access interface, a
  parameter; so are the two functions of the Snappy library, which is not part of the sources.
\<close>

subsection \<open>Block handles and the footer\<close>

record BlockHandle =
  bh_offset :: u64
  bh_size :: u64

definition BlockHandle_make :: BlockHandle where
  "BlockHandle_make = \<lparr>bh_offset = NOT 0, bh_size = NOT 0\<rparr>"

definition bh_kMaxEncodedLength :: nat where "bh_kMaxEncodedLength = 10 + 10"

definition BlockHandle_EncodeTo :: "BlockHandle \<Rightarrow> bytes \<Rightarrow> bytes" where
  "BlockHandle_EncodeTo h dst = PutVarint64 (PutVarint64 dst (bh_offset h)) (bh_size h)"

text \<open>
  A failed decoding may already have set the offset; the result carries the handle as it is left, and the
  input after the fields read.
\<close>

definition BlockHandle_DecodeFrom :: "BlockHandle \<Rightarrow> Slice \<Rightarrow> Status \<times> BlockHandle \<times> Slice" where
  "BlockHandle_DecodeFrom h input =
     (case GetVarint64 input of
        None \<Rightarrow> (Corruption (str ''bad block handle'') [], h, input)
      | Some (offset, input) \<Rightarrow>
          let h = h\<lparr>bh_offset := offset\<rparr> in
          case GetVarint64 input of
            None \<Rightarrow> (Corruption (str ''bad block handle'') [], h, input)
          | Some (sz, input) \<Rightarrow> (Status_OK, h\<lparr>bh_size := sz\<rparr>, input))"

record Footer =
  ft_metaindex_handle :: BlockHandle
  ft_index_handle :: BlockHandle

definition Footer_make :: Footer where
  "Footer_make = \<lparr>ft_metaindex_handle = BlockHandle_make, ft_index_handle = BlockHandle_make\<rparr>"

definition ft_kEncodedLength :: nat where "ft_kEncodedLength = 2 * bh_kMaxEncodedLength + 8"
definition kTableMagicNumber :: u64 where "kTableMagicNumber = 0xdb4775248b80fb57"
definition kBlockTrailerSize :: nat where "kBlockTrailerSize = 5"

text \<open>\<^verbatim>\<open>std::string::resize\<close>.\<close>

definition resize :: "nat \<Rightarrow> bytes \<Rightarrow> bytes" where
  "resize n s = take n s @ replicate (n - length s) 0"

definition Footer_EncodeTo :: "Footer \<Rightarrow> bytes \<Rightarrow> bytes" where
  "Footer_EncodeTo f dst =
     (let dst = BlockHandle_EncodeTo (ft_metaindex_handle f) dst;
          dst = BlockHandle_EncodeTo (ft_index_handle f) dst;
          dst = resize (2 * bh_kMaxEncodedLength) dst;
          dst = PutFixed32 dst (ucast (kTableMagicNumber AND 0xffffffff))
      in PutFixed32 dst (ucast (drop_bit 32 kTableMagicNumber)))"

definition Footer_DecodeFrom :: "Footer \<Rightarrow> Slice \<Rightarrow> Status \<times> Footer \<times> Slice" where
  "Footer_DecodeFrom f input =
     (let magic_ptr = drop (ft_kEncodedLength - 8) input;
          magic_lo = DecodeFixed32 magic_ptr;
          magic_hi = DecodeFixed32 (drop 4 magic_ptr);
          magic = push_bit 32 (ucast magic_hi) OR ucast magic_lo :: u64
      in if magic \<noteq> kTableMagicNumber
         then (Corruption (str ''not an sstable (bad magic number)'') [], f, input)
         else let (result, h, input') = BlockHandle_DecodeFrom (ft_metaindex_handle f) input;
                  f = f\<lparr>ft_metaindex_handle := h\<rparr>
              in if Status_ok result then
                   let (result, h, input') = BlockHandle_DecodeFrom (ft_index_handle f) input';
                       f = f\<lparr>ft_index_handle := h\<rparr>
                   in if Status_ok result then (result, f, drop 8 magic_ptr) else (result, f, input')
                 else (result, f, input'))"

subsection \<open>Reading a block\<close>

datatype CompressionType = kNoCompression | kSnappyCompression

primrec CompressionType_num :: "CompressionType \<Rightarrow> byte" where
  "CompressionType_num kNoCompression = 0"
| "CompressionType_num kSnappyCompression = 1"

text \<open>
  \<open>bc_heap_allocated\<close> and \<open>bc_cachable\<close> say whether the data was copied; whether the file hands out a pointer of its own
  (\<open>mapped\<close>) is a parameter.
\<close>

record BlockContents =
  bc_data :: Slice
  bc_cachable :: bool
  bc_heap_allocated :: bool

definition BlockContents_empty :: BlockContents where
  "BlockContents_empty = \<lparr>bc_data = [], bc_cachable = False, bc_heap_allocated = False\<rparr>"

definition ReadBlock ::
  "(nat \<Rightarrow> nat \<Rightarrow> Status \<times> Slice) \<Rightarrow> bool \<Rightarrow> (bytes \<Rightarrow> nat option) \<Rightarrow> (bytes \<Rightarrow> bytes option)
   \<Rightarrow> bool \<Rightarrow> BlockHandle \<Rightarrow> Status \<times> BlockContents" where
  "ReadBlock read mapped snappy_length snappy_uncompress verify_checksums handle =
     (let n = unat (bh_size handle);
          (s, contents) = read (unat (bh_offset handle)) (n + kBlockTrailerSize)
      in if \<not> Status_ok s then (s, BlockContents_empty)
         else if length contents \<noteq> n + kBlockTrailerSize
         then (Corruption (str ''truncated block read'') [], BlockContents_empty)
         else if verify_checksums \<and>
             Value (take (n + 1) contents) \<noteq> Unmask (DecodeFixed32 (drop (n + 1) contents))
         then (Corruption (str ''block checksum mismatch'') [], BlockContents_empty)
         else if contents ! n = CompressionType_num kNoCompression then
           (Status_OK, \<lparr>bc_data = take n contents, bc_cachable = \<not> mapped, bc_heap_allocated = \<not> mapped\<rparr>)
         else if contents ! n = CompressionType_num kSnappyCompression then
           (case snappy_length (take n contents) of
              None \<Rightarrow> (Corruption (str ''corrupted compressed block contents'') [], BlockContents_empty)
            | Some ulength \<Rightarrow>
                (case snappy_uncompress (take n contents) of
                   None \<Rightarrow> (Corruption (str ''corrupted compressed block contents'') [], BlockContents_empty)
                 | Some ubuf \<Rightarrow>
                     (Status_OK, \<lparr>bc_data = take ulength ubuf, bc_cachable = True, bc_heap_allocated = True\<rparr>)))
         else (Corruption (str ''bad block type'') [], BlockContents_empty))"

subsection \<open>Round trips\<close>

lemma BlockHandle_Encode_eq:
  "BlockHandle_EncodeTo h dst = dst @ EncodeVarint64 (bh_offset h) @ EncodeVarint64 (bh_size h)"
  by (simp add: BlockHandle_EncodeTo_def PutVarint64_def)

lemma BlockHandle_Decode_Encode [codec_simps]:
  "BlockHandle_DecodeFrom h0 (BlockHandle_EncodeTo h [] @ rest) = (Status_OK, h, rest)"
  by (simp add: BlockHandle_DecodeFrom_def BlockHandle_Encode_eq Let_def)

lemma length_BlockHandle_Encode: "length (BlockHandle_EncodeTo h []) \<le> bh_kMaxEncodedLength"
  using length_EncodeVarint64 [of "bh_offset h"] length_EncodeVarint64 [of "bh_size h"]
  by (simp add: BlockHandle_Encode_eq bh_kMaxEncodedLength_def)

definition footer_handles :: "Footer \<Rightarrow> bytes" where
  "footer_handles f = BlockHandle_EncodeTo (ft_metaindex_handle f) [] @ BlockHandle_EncodeTo (ft_index_handle f) []"

definition footer_magic :: bytes where
  "footer_magic = EncodeFixed32 0x8b80fb57 @ EncodeFixed32 0xdb477524"

lemma length_footer_handles: "length (footer_handles f) \<le> 40"
  using length_BlockHandle_Encode [of "ft_metaindex_handle f"] length_BlockHandle_Encode [of "ft_index_handle f"]
  by (simp add: footer_handles_def bh_kMaxEncodedLength_def)

lemma Footer_Encode_eq:
  "Footer_EncodeTo f [] = footer_handles f @ replicate (40 - length (footer_handles f)) 0 @ footer_magic"
proof -
  have e: "BlockHandle_EncodeTo (ft_index_handle f) (BlockHandle_EncodeTo (ft_metaindex_handle f) []) = footer_handles f"
    by (simp add: footer_handles_def BlockHandle_Encode_eq)
  have "ucast (kTableMagicNumber AND 0xffffffff) = (0x8b80fb57 :: u32)" "ucast (drop_bit 32 kTableMagicNumber) = (0xdb477524 :: u32)"
    unfolding kTableMagicNumber_def by simp_all
  then show ?thesis
    using length_footer_handles [of f]
    by (simp add: Footer_EncodeTo_def e Let_def resize_def bh_kMaxEncodedLength_def PutFixed32_def footer_magic_def)
qed

lemma length_Footer_Encode: "length (Footer_EncodeTo f []) = ft_kEncodedLength"
  using length_footer_handles [of f]
  by (simp add: Footer_Encode_eq footer_magic_def ft_kEncodedLength_def bh_kMaxEncodedLength_def)

lemma Footer_Decode_Encode:
  "Footer_DecodeFrom f0 (Footer_EncodeTo f [] @ rest) = (Status_OK, f, rest)"
proof -
  let ?pad = "replicate (40 - length (footer_handles f)) (0 :: byte)"
  have d: "drop (ft_kEncodedLength - 8) (Footer_EncodeTo f [] @ rest) = footer_magic @ rest"
    using length_footer_handles [of f] by (simp add: Footer_Encode_eq ft_kEncodedLength_def bh_kMaxEncodedLength_def)
  have m: "(push_bit 32 (ucast (0xdb477524 :: u32)) OR ucast (0x8b80fb57 :: u32) :: u64) = kTableMagicNumber"
    unfolding kTableMagicNumber_def by simp
  have magic: "DecodeFixed32 (footer_magic @ rest) = 0x8b80fb57" "DecodeFixed32 (drop 4 (footer_magic @ rest)) = 0xdb477524"
    "drop 8 (footer_magic @ rest) = rest"
    by (simp_all add: footer_magic_def)
  have in1: "Footer_EncodeTo f [] @ rest = BlockHandle_EncodeTo (ft_metaindex_handle f) []
      @ BlockHandle_EncodeTo (ft_index_handle f) [] @ ?pad @ footer_magic @ rest"
    by (simp add: Footer_Encode_eq footer_handles_def)
  show ?thesis
    unfolding Footer_DecodeFrom_def Let_def d magic m
    by (simp add: in1 codec_simps)
qed

text \<open>The bytes a table file holds for a block: its contents, the type and the masked checksum of both.\<close>

definition stored_block :: "bytes \<Rightarrow> CompressionType \<Rightarrow> bytes" where
  "stored_block data t =
     data @ [CompressionType_num t] @ EncodeFixed32 (Mask (Value (data @ [CompressionType_num t])))"

lemma length_stored_block: "length (stored_block data t) = length data + kBlockTrailerSize"
  by (simp add: stored_block_def kBlockTrailerSize_def)

lemma stored_block_parts:
  "stored_block data t ! length data = CompressionType_num t"
  "take (length data) (stored_block data t) = data"
  "take (length data + 1) (stored_block data t) = data @ [CompressionType_num t]"
  "drop (length data + 1) (stored_block data t) = EncodeFixed32 (Mask (Value (data @ [CompressionType_num t])))"
  by (simp_all add: stored_block_def)

subsection \<open>Properties\<close>

text \<open>
  The footer of a table always takes 48 bytes, and decoding it gives back both handles and leaves what
  follows it, whatever the handles were.
\<close>

theorem footer_roundtrip:
  "length (Footer_EncodeTo f []) = 48 \<and> Footer_DecodeFrom f0 (Footer_EncodeTo f [] @ rest) = (Status_OK, f, rest)"
  using Footer_Decode_Encode length_Footer_Encode by (simp add: ft_kEncodedLength_def bh_kMaxEncodedLength_def)

lemma ReadBlock_contents:
  assumes "read (unat (bh_offset h)) (unat (bh_size h) + kBlockTrailerSize) = (Status_OK, stored_block data t)"
    and "unat (bh_size h) = length data"
    and "t = kSnappyCompression \<Longrightarrow> snappy_length data = Some (length raw) \<and> snappy_uncompress data = Some raw"
    and "t = kNoCompression \<Longrightarrow> raw = data"
  shows "\<exists>c. ReadBlock read mapped snappy_length snappy_uncompress verify h = (Status_OK, c) \<and> bc_data c = raw"
proof -
  have crc: "Value (data @ [CompressionType_num t])
      = Unmask (DecodeFixed32 (EncodeFixed32 (Mask (Value (data @ [CompressionType_num t])))))"
    using DecodeFixed32_Encode [of _ "[]"] by simp
  have "Status_ok Status_OK" by (simp add: Status_ok_def Status_OK_def)
  with assms crc show ?thesis
    by (cases t) (simp_all add: ReadBlock_def length_stored_block stored_block_parts stored_block_parts [simplified] Let_def)
qed

text \<open>
  Reading back a stored block.  A file that holds a block with its type and checksum at the place its
  handle says is read as exactly that block, with and without checksum verification; a compressed block
  gives what the decompressor makes of it.
\<close>

theorem ReadBlock_stored:
  assumes "fs_invar f" and "fs_content f = pre @ stored_block data t @ post"
    and "length pre + length data < 2 ^ 64"
    and "t = kSnappyCompression \<Longrightarrow> snappy_length data = Some (length raw) \<and> snappy_uncompress data = Some raw"
    and "t = kNoCompression \<Longrightarrow> raw = data"
  shows "\<exists>c. ReadBlock (FileState_Read f) mapped snappy_length snappy_uncompress verify
      \<lparr>bh_offset = of_nat (length pre), bh_size = of_nat (length data)\<rparr> = (Status_OK, c) \<and> bc_data c = raw"
proof (rule ReadBlock_contents [where data = data and t = t])
  have n: "unat (of_nat (length pre) :: u64) = length pre" "unat (of_nat (length data) :: u64) = length data"
    using assms(3) by (simp_all add: unat_of_nat)
  have "length pre \<le> fs_size f"
    using assms(1,2) length_fs_content [of f] by simp
  from FileState_Read_eq [OF assms(1) this, of "length data + kBlockTrailerSize"]
  show "FileState_Read f (unat (bh_offset \<lparr>bh_offset = of_nat (length pre), bh_size = of_nat (length data)\<rparr>))
      (unat (bh_size \<lparr>bh_offset = of_nat (length pre), bh_size = of_nat (length data)\<rparr>) + kBlockTrailerSize)
      = (Status_OK, stored_block data t)"
    by (simp add: n assms(2) length_stored_block [symmetric, of data t])
  show "unat (bh_size \<lparr>bh_offset = of_nat (length pre), bh_size = of_nat (length data)\<rparr>) = length data" by (simp add: n)
qed (use assms(4,5) in auto)

lemma ReadBlock_stored_witness:
  "\<exists>c. ReadBlock (FileState_Read (FileState_Append_loop 0 FileState_new (stored_block [1, 2, 3] kSnappyCompression)))
      False (\<lambda>d. Some (2 * length d)) (\<lambda>d. Some (d @ d)) True \<lparr>bh_offset = 0, bh_size = 3\<rparr> = (Status_OK, c)
    \<and> bc_data c = [1, 2, 3, 1, 2, 3]"
  using ReadBlock_stored [of "FileState_Append_loop 0 FileState_new (stored_block [1, 2, 3] kSnappyCompression)" "[]"
      "[1, 2, 3]" kSnappyCompression "[]" "\<lambda>d. Some (2 * length d)" "[1, 2, 3, 1, 2, 3]" "\<lambda>d. Some (d @ d)" False True]
    FileState_new_content
  by (simp add: FileState_Append_loop_eq)

end
