(* ===== verification/VersionEdit.thy ===== *)
theory VersionEdit
  imports Dbformat
begin

text \<open>
  Version edits (\<^verbatim>\<open>db/version_edit.{h,cc}\<close>): the records of the manifest.  The set \<^verbatim>\<open>deleted_files_\<close> is the
  ordered list of its elements, since it is encoded in that order.
\<close>

subsection \<open>Data\<close>

record FileMetaData =
  fm_refs :: int
  fm_allowed_seeks :: int
  fm_number :: u64
  fm_file_size :: u64
  fm_smallest :: InternalKey
  fm_largest :: InternalKey

definition FileMetaData_make :: FileMetaData where
  "FileMetaData_make = \<lparr>fm_refs = 0, fm_allowed_seeks = 2 ^ 30, fm_number = 0, fm_file_size = 0,
     fm_smallest = [], fm_largest = []\<rparr>"

record VersionEdit =
  ve_comparator :: bytes
  ve_log_number :: u64
  ve_prev_log_number :: u64
  ve_next_file_number :: u64
  ve_last_sequence :: SequenceNumber
  ve_has_comparator :: bool
  ve_has_log_number :: bool
  ve_has_prev_log_number :: bool
  ve_has_next_file_number :: bool
  ve_has_last_sequence :: bool
  ve_compact_pointers :: "(nat \<times> InternalKey) list"
  ve_deleted_files :: "(nat \<times> u64) list"
  ve_new_files :: "(nat \<times> FileMetaData) list"

definition VersionEdit_Clear :: "VersionEdit \<Rightarrow> VersionEdit" where
  "VersionEdit_Clear e =
     e\<lparr>ve_comparator := [], ve_log_number := 0, ve_prev_log_number := 0, ve_last_sequence := 0,
       ve_next_file_number := 0, ve_has_comparator := False, ve_has_log_number := False,
       ve_has_prev_log_number := False, ve_has_next_file_number := False, ve_has_last_sequence := False,
       ve_deleted_files := [], ve_new_files := []\<rparr>"

definition VersionEdit_make :: VersionEdit where
  "VersionEdit_make = VersionEdit_Clear
     \<lparr>ve_comparator = [], ve_log_number = 0, ve_prev_log_number = 0, ve_next_file_number = 0, ve_last_sequence = 0,
      ve_has_comparator = False, ve_has_log_number = False, ve_has_prev_log_number = False,
      ve_has_next_file_number = False, ve_has_last_sequence = False, ve_compact_pointers = [],
      ve_deleted_files = [], ve_new_files = []\<rparr>"

definition SetComparatorName :: "VersionEdit \<Rightarrow> Slice \<Rightarrow> VersionEdit" where
  "SetComparatorName e name = e\<lparr>ve_has_comparator := True, ve_comparator := name\<rparr>"

definition SetLogNumber :: "VersionEdit \<Rightarrow> u64 \<Rightarrow> VersionEdit" where
  "SetLogNumber e num = e\<lparr>ve_has_log_number := True, ve_log_number := num\<rparr>"

definition SetPrevLogNumber :: "VersionEdit \<Rightarrow> u64 \<Rightarrow> VersionEdit" where
  "SetPrevLogNumber e num = e\<lparr>ve_has_prev_log_number := True, ve_prev_log_number := num\<rparr>"

definition SetNextFile :: "VersionEdit \<Rightarrow> u64 \<Rightarrow> VersionEdit" where
  "SetNextFile e num = e\<lparr>ve_has_next_file_number := True, ve_next_file_number := num\<rparr>"

definition SetLastSequence :: "VersionEdit \<Rightarrow> SequenceNumber \<Rightarrow> VersionEdit" where
  "SetLastSequence e seq = e\<lparr>ve_has_last_sequence := True, ve_last_sequence := seq\<rparr>"

definition SetCompactPointer :: "VersionEdit \<Rightarrow> nat \<Rightarrow> InternalKey \<Rightarrow> VersionEdit" where
  "SetCompactPointer e lev key = e\<lparr>ve_compact_pointers := ve_compact_pointers e @ [(lev, key)]\<rparr>"

definition AddFile :: "VersionEdit \<Rightarrow> nat \<Rightarrow> u64 \<Rightarrow> u64 \<Rightarrow> InternalKey \<Rightarrow> InternalKey \<Rightarrow> VersionEdit" where
  "AddFile e lev file file_size smallest largest =
     e\<lparr>ve_new_files := ve_new_files e @
        [(lev, FileMetaData_make\<lparr>fm_number := file, fm_file_size := file_size,
                 fm_smallest := smallest, fm_largest := largest\<rparr>)]\<rparr>"

text \<open>\<^verbatim>\<open>std::set::insert\<close> on pairs, in lexicographic order.\<close>

definition file_less :: "nat \<times> u64 \<Rightarrow> nat \<times> u64 \<Rightarrow> bool" where
  "file_less a b \<longleftrightarrow> fst a < fst b \<or> fst a = fst b \<and> snd a < snd b"

fun set_insert :: "nat \<times> u64 \<Rightarrow> (nat \<times> u64) list \<Rightarrow> (nat \<times> u64) list" where
  "set_insert x [] = [x]"
| "set_insert x (y # ys) = (if x = y then y # ys else if file_less x y then x # y # ys else y # set_insert x ys)"

definition Edit_DeleteFile :: "VersionEdit \<Rightarrow> nat \<Rightarrow> u64 \<Rightarrow> VersionEdit" where
  "Edit_DeleteFile e lev file = e\<lparr>ve_deleted_files := set_insert (lev, file) (ve_deleted_files e)\<rparr>"

subsection \<open>Encoding\<close>

datatype Tag = kComparator | kLogNumber | kNextFileNumber | kLastSequence | kCompactPointer | kDeletedFile
  | kNewFile | kPrevLogNumber

primrec Tag_num :: "Tag \<Rightarrow> u32" where
  "Tag_num kComparator = 1"
| "Tag_num kLogNumber = 2"
| "Tag_num kNextFileNumber = 3"
| "Tag_num kLastSequence = 4"
| "Tag_num kCompactPointer = 5"
| "Tag_num kDeletedFile = 6"
| "Tag_num kNewFile = 7"
| "Tag_num kPrevLogNumber = 9"

definition Encode_pointer :: "bytes \<Rightarrow> nat \<times> InternalKey \<Rightarrow> bytes" where
  "Encode_pointer dst = (\<lambda>(lev, key).
     PutLengthPrefixedSlice (PutVarint32 (PutVarint32 dst (Tag_num kCompactPointer)) (of_nat lev)) key)"

definition Encode_deleted :: "bytes \<Rightarrow> nat \<times> u64 \<Rightarrow> bytes" where
  "Encode_deleted dst = (\<lambda>(lev, number).
     PutVarint64 (PutVarint32 (PutVarint32 dst (Tag_num kDeletedFile)) (of_nat lev)) number)"

definition Encode_new :: "bytes \<Rightarrow> nat \<times> FileMetaData \<Rightarrow> bytes" where
  "Encode_new dst = (\<lambda>(lev, f).
     let dst = PutVarint32 dst (Tag_num kNewFile);
         dst = PutVarint32 dst (of_nat lev);
         dst = PutVarint64 dst (fm_number f);
         dst = PutVarint64 dst (fm_file_size f);
         dst = PutLengthPrefixedSlice dst (fm_smallest f)
     in PutLengthPrefixedSlice dst (fm_largest f))"

definition VersionEdit_EncodeTo :: "VersionEdit \<Rightarrow> bytes \<Rightarrow> bytes" where
  "VersionEdit_EncodeTo e dst =
     (let dst = (if ve_has_comparator e
                 then PutLengthPrefixedSlice (PutVarint32 dst (Tag_num kComparator)) (ve_comparator e) else dst);
          dst = (if ve_has_log_number e
                 then PutVarint64 (PutVarint32 dst (Tag_num kLogNumber)) (ve_log_number e) else dst);
          dst = (if ve_has_prev_log_number e
                 then PutVarint64 (PutVarint32 dst (Tag_num kPrevLogNumber)) (ve_prev_log_number e) else dst);
          dst = (if ve_has_next_file_number e
                 then PutVarint64 (PutVarint32 dst (Tag_num kNextFileNumber)) (ve_next_file_number e) else dst);
          dst = (if ve_has_last_sequence e
                 then PutVarint64 (PutVarint32 dst (Tag_num kLastSequence)) (ve_last_sequence e) else dst);
          dst = foldl Encode_pointer dst (ve_compact_pointers e);
          dst = foldl Encode_deleted dst (ve_deleted_files e)
      in foldl Encode_new dst (ve_new_files e))"

subsection \<open>Decoding\<close>

definition GetInternalKey :: "Slice \<Rightarrow> (InternalKey \<times> Slice) option" where
  "GetInternalKey input = (case GetLengthPrefixedSlice input of None \<Rightarrow> None | Some (s, input) \<Rightarrow> Some (s, input))"

definition GetLevel :: "Slice \<Rightarrow> (nat \<times> Slice) option" where
  "GetLevel input =
     (case GetVarint32 input of
        None \<Rightarrow> None
      | Some (v, input) \<Rightarrow> if v < of_nat kNumLevels then Some (unat v, input) else None)"

text \<open>One turn of the loop, behind the tag: the message of an error, or the edit and the input left.\<close>

definition Decode_field :: "u32 \<Rightarrow> VersionEdit \<Rightarrow> Slice \<Rightarrow> bytes + VersionEdit \<times> Slice" where
  "Decode_field tag e input =
     (if tag = Tag_num kComparator then
        (case GetLengthPrefixedSlice input of
           Some (s, input) \<Rightarrow> Inr (e\<lparr>ve_comparator := s, ve_has_comparator := True\<rparr>, input)
         | None \<Rightarrow> Inl (str ''comparator name''))
      else if tag = Tag_num kLogNumber then
        (case GetVarint64 input of
           Some (n, input) \<Rightarrow> Inr (e\<lparr>ve_log_number := n, ve_has_log_number := True\<rparr>, input)
         | None \<Rightarrow> Inl (str ''log number''))
      else if tag = Tag_num kPrevLogNumber then
        (case GetVarint64 input of
           Some (n, input) \<Rightarrow> Inr (e\<lparr>ve_prev_log_number := n, ve_has_prev_log_number := True\<rparr>, input)
         | None \<Rightarrow> Inl (str ''previous log number''))
      else if tag = Tag_num kNextFileNumber then
        (case GetVarint64 input of
           Some (n, input) \<Rightarrow> Inr (e\<lparr>ve_next_file_number := n, ve_has_next_file_number := True\<rparr>, input)
         | None \<Rightarrow> Inl (str ''next file number''))
      else if tag = Tag_num kLastSequence then
        (case GetVarint64 input of
           Some (n, input) \<Rightarrow> Inr (e\<lparr>ve_last_sequence := n, ve_has_last_sequence := True\<rparr>, input)
         | None \<Rightarrow> Inl (str ''last sequence number''))
      else if tag = Tag_num kCompactPointer then
        (case Option.bind (GetLevel input) (\<lambda>(lev, input).
           Option.bind (GetInternalKey input) (\<lambda>(key, input). Some (lev, key, input))) of
           Some (lev, key, input) \<Rightarrow> Inr (e\<lparr>ve_compact_pointers := ve_compact_pointers e @ [(lev, key)]\<rparr>, input)
         | None \<Rightarrow> Inl (str ''compaction pointer''))
      else if tag = Tag_num kDeletedFile then
        (case Option.bind (GetLevel input) (\<lambda>(lev, input).
           Option.bind (GetVarint64 input) (\<lambda>(number, input). Some (lev, number, input))) of
           Some (lev, number, input) \<Rightarrow>
             Inr (e\<lparr>ve_deleted_files := set_insert (lev, number) (ve_deleted_files e)\<rparr>, input)
         | None \<Rightarrow> Inl (str ''deleted file''))
      else if tag = Tag_num kNewFile then
        (case Option.bind (GetLevel input) (\<lambda>(lev, input).
           Option.bind (GetVarint64 input) (\<lambda>(number, input).
           Option.bind (GetVarint64 input) (\<lambda>(file_size, input).
           Option.bind (GetInternalKey input) (\<lambda>(smallest, input).
           Option.bind (GetInternalKey input) (\<lambda>(largest, input).
             Some (lev, FileMetaData_make\<lparr>fm_number := number, fm_file_size := file_size,
               fm_smallest := smallest, fm_largest := largest\<rparr>, input)))))) of
           Some (lev, f, input) \<Rightarrow> Inr (e\<lparr>ve_new_files := ve_new_files e @ [(lev, f)]\<rparr>, input)
         | None \<Rightarrow> Inl (str ''new-file entry''))
      else Inl (str ''unknown tag''))"

lemma GetLevel_shorter: "GetLevel p = Some (v, q) \<Longrightarrow> length q < length p"
  by (auto simp: GetLevel_def dest!: GetVarint32_shorter split: option.splits if_splits)

lemma GetInternalKey_shorter: "GetInternalKey p = Some (v, q) \<Longrightarrow> length q < length p"
  by (auto simp: GetInternalKey_def dest!: GetLengthPrefixedSlice_shorter split: option.splits)

lemma Decode_field_shorter: "Decode_field tag e input = Inr (e', input') \<Longrightarrow> length input' < length input"
  unfolding Decode_field_def
  by (auto split: if_splits option.splits simp: bind_eq_Some_conv
      dest!: decode_shorter GetLevel_shorter GetInternalKey_shorter)

function Decode_loop :: "VersionEdit \<Rightarrow> Slice \<Rightarrow> bytes option \<times> VersionEdit \<times> Slice" where
  "Decode_loop e input =
     (case GetVarint32 input of
        None \<Rightarrow> (None, e, input)
      | Some (tag, input') \<Rightarrow>
          (case Decode_field tag e input' of
             Inl msg \<Rightarrow> (Some msg, e, input')
           | Inr (e', input'') \<Rightarrow> Decode_loop e' input''))"
  by pat_completeness auto
termination
  by (relation "measure (\<lambda>(_, input). length input)") (auto dest!: Decode_field_shorter GetVarint32_shorter)

declare Decode_loop.simps [simp del]

definition VersionEdit_DecodeFrom :: "VersionEdit \<Rightarrow> Slice \<Rightarrow> Status \<times> VersionEdit" where
  "VersionEdit_DecodeFrom e src =
     (let (msg, e, input) = Decode_loop (VersionEdit_Clear e) src;
          msg = (if msg = None \<and> input \<noteq> [] then Some (str ''invalid tag'') else msg)
      in (case msg of None \<Rightarrow> Status_OK | Some m \<Rightarrow> Corruption (str ''VersionEdit'') m, e))"

subsection \<open>DebugString\<close>

definition VersionEdit_DebugString :: "VersionEdit \<Rightarrow> bytes" where
  "VersionEdit_DebugString e =
     (let r = str ''VersionEdit {'';
          r = (if ve_has_comparator e then r @ str (CHR 0x0A # ''  Comparator: '') @ ve_comparator e else r);
          r = (if ve_has_log_number e then AppendNumberTo (r @ str (CHR 0x0A # ''  LogNumber: '')) (ve_log_number e) else r);
          r = (if ve_has_prev_log_number e
               then AppendNumberTo (r @ str (CHR 0x0A # ''  PrevLogNumber: '')) (ve_prev_log_number e) else r);
          r = (if ve_has_next_file_number e
               then AppendNumberTo (r @ str (CHR 0x0A # ''  NextFile: '')) (ve_next_file_number e) else r);
          r = (if ve_has_last_sequence e
               then AppendNumberTo (r @ str (CHR 0x0A # ''  LastSeq: '')) (ve_last_sequence e) else r);
          r = foldl (\<lambda>r (lev, key).
                 AppendNumberTo (r @ str (CHR 0x0A # ''  CompactPointer: '')) (of_nat lev) @ str '' ''
                 @ InternalKey_DebugString key) r (ve_compact_pointers e);
          r = foldl (\<lambda>r (lev, number).
                 AppendNumberTo (AppendNumberTo (r @ str (CHR 0x0A # ''  DeleteFile: '')) (of_nat lev) @ str '' '') number)
                 r (ve_deleted_files e);
          r = foldl (\<lambda>r (lev, f).
                 let r = AppendNumberTo (r @ str (CHR 0x0A # ''  AddFile: '')) (of_nat lev) @ str '' '';
                     r = AppendNumberTo r (fm_number f) @ str '' '';
                     r = AppendNumberTo r (fm_file_size f) @ str '' ''
                 in r @ InternalKey_DebugString (fm_smallest f) @ str '' .. '' @ InternalKey_DebugString (fm_largest f))
                 r (ve_new_files e)
      in r @ str (CHR 0x0A # ''}'') @ str [CHR 0x0A])"

subsection \<open>Round trip\<close>

definition file_ok :: "FileMetaData \<Rightarrow> bool" where
  "file_ok f \<longleftrightarrow> fm_refs f = 0 \<and> fm_allowed_seeks f = 2 ^ 30 \<and> length (fm_smallest f) < 2 ^ 32 \<and> length (fm_largest f) < 2 ^ 32"

text \<open>The edits the setters build: fields that are not set have their initial value, levels exist, slices fit.\<close>

definition edit_ok :: "VersionEdit \<Rightarrow> bool" where
  "edit_ok e \<longleftrightarrow> (\<not> ve_has_comparator e \<longrightarrow> ve_comparator e = []) \<and> length (ve_comparator e) < 2 ^ 32
     \<and> (\<not> ve_has_log_number e \<longrightarrow> ve_log_number e = 0) \<and> (\<not> ve_has_prev_log_number e \<longrightarrow> ve_prev_log_number e = 0)
     \<and> (\<not> ve_has_next_file_number e \<longrightarrow> ve_next_file_number e = 0)
     \<and> (\<not> ve_has_last_sequence e \<longrightarrow> ve_last_sequence e = 0)
     \<and> (\<forall>(lev, key) \<in> set (ve_compact_pointers e). lev < kNumLevels \<and> length key < 2 ^ 32)
     \<and> (\<forall>(lev, n) \<in> set (ve_deleted_files e). lev < kNumLevels) \<and> sorted_wrt file_less (ve_deleted_files e)
     \<and> (\<forall>(lev, f) \<in> set (ve_new_files e). lev < kNumLevels \<and> file_ok f)"

lemma Put_append:
  "PutVarint32 dst v = dst @ EncodeVarint32 v" "PutVarint64 dst w = dst @ EncodeVarint64 w"
  "PutLengthPrefixedSlice dst x = dst @ PutLengthPrefixedSlice [] x"
  by (simp_all add: PutVarint32_def PutVarint64_def PutLengthPrefixedSlice_def)

definition pointer_bytes :: "nat \<times> InternalKey \<Rightarrow> bytes" where
  "pointer_bytes = (\<lambda>(lev, key). EncodeVarint32 5 @ EncodeVarint32 (of_nat lev) @ PutLengthPrefixedSlice [] key)"

definition deleted_bytes :: "nat \<times> u64 \<Rightarrow> bytes" where
  "deleted_bytes = (\<lambda>(lev, n). EncodeVarint32 6 @ EncodeVarint32 (of_nat lev) @ EncodeVarint64 n)"

definition new_bytes :: "nat \<times> FileMetaData \<Rightarrow> bytes" where
  "new_bytes = (\<lambda>(lev, f). EncodeVarint32 7 @ EncodeVarint32 (of_nat lev) @ EncodeVarint64 (fm_number f)
     @ EncodeVarint64 (fm_file_size f) @ PutLengthPrefixedSlice [] (fm_smallest f) @ PutLengthPrefixedSlice [] (fm_largest f))"

lemma Encode_pointers: "foldl Encode_pointer dst ps = dst @ concat (map pointer_bytes ps)"
  by (induction ps arbitrary: dst)
    (auto simp: Encode_pointer_def pointer_bytes_def Put_append(1) Put_append(3) [of "_ @ _"])

lemma Encode_deleteds: "foldl Encode_deleted dst ds = dst @ concat (map deleted_bytes ds)"
  by (induction ds arbitrary: dst) (auto simp: Encode_deleted_def deleted_bytes_def Put_append(1,2))

lemma Encode_news: "foldl Encode_new dst fs = dst @ concat (map new_bytes fs)"
  by (induction fs arbitrary: dst)
    (auto simp: Encode_new_def new_bytes_def Put_append(1,2) Put_append(3) [of "_ @ _"] Let_def)

lemma GetLevel_Encode: "lev < kNumLevels \<Longrightarrow> GetLevel (EncodeVarint32 (of_nat lev) @ rest) = Some (lev, rest)"
  by (auto simp: GetLevel_def kNumLevels_def word_less_nat_alt unat_of_nat)

lemma GetInternalKey_Put: "length k < 2 ^ 32 \<Longrightarrow> GetInternalKey (PutLengthPrefixedSlice [] k @ rest) = Some (k, rest)"
  by (simp add: GetInternalKey_def)

lemma Decode_loop_step:
  "Decode_field tag e rest = Inr (e', rest') \<Longrightarrow> Decode_loop e (EncodeVarint32 tag @ rest) = Decode_loop e' rest'"
  by (subst Decode_loop.simps) simp

lemma Decode_loop_end: "Decode_loop e [] = (None, e, [])"
  by (subst Decode_loop.simps)
    (simp add: GetVarint32_def GetVarint32Ptr_def GetVarint32PtrFallback_def)

lemma Decode_pointers:
  "\<forall>(lev, key) \<in> set ps. lev < kNumLevels \<and> length key < 2 ^ 32 \<Longrightarrow>
   Decode_loop e (concat (map pointer_bytes ps) @ rest) = Decode_loop (e\<lparr>ve_compact_pointers := ve_compact_pointers e @ ps\<rparr>) rest"
proof (induction ps arbitrary: e)
  case (Cons p ps)
  obtain lev key where p: "p = (lev, key)" by (cases p)
  have ok: "lev < kNumLevels" "length key < 2 ^ 32" using Cons.prems by (simp_all add: p)
  let ?e = "e\<lparr>ve_compact_pointers := ve_compact_pointers e @ [p]\<rparr>"
  have "Decode_loop e (EncodeVarint32 5 @ EncodeVarint32 (of_nat lev) @ PutLengthPrefixedSlice [] key @ concat (map pointer_bytes ps) @ rest)
      = Decode_loop ?e (concat (map pointer_bytes ps) @ rest)"
    using ok by (intro Decode_loop_step) (simp add: Decode_field_def GetLevel_Encode GetInternalKey_Put p)
  also have "\<dots> = Decode_loop (?e\<lparr>ve_compact_pointers := ve_compact_pointers ?e @ ps\<rparr>) rest"
    using Cons.prems by (intro Cons.IH) auto
  finally show ?case by (simp add: pointer_bytes_def p)
qed simp

lemma set_insert_last: "\<forall>y \<in> set ys. file_less y x \<Longrightarrow> set_insert x ys = ys @ [x]"
  by (induction ys) (auto simp: file_less_def)

lemma Decode_deleted:
  "\<forall>(lev, n) \<in> set ds. lev < kNumLevels \<Longrightarrow> sorted_wrt file_less (ve_deleted_files e @ ds) \<Longrightarrow>
   Decode_loop e (concat (map deleted_bytes ds) @ rest) = Decode_loop (e\<lparr>ve_deleted_files := ve_deleted_files e @ ds\<rparr>) rest"
proof (induction ds arbitrary: e)
  case (Cons d ds)
  obtain lev n where d: "d = (lev, n)" by (cases d)
  have ok: "lev < kNumLevels" using Cons.prems(1) by (simp add: d)
  let ?e = "e\<lparr>ve_deleted_files := ve_deleted_files e @ [d]\<rparr>"
  have ins: "set_insert d (ve_deleted_files e) = ve_deleted_files e @ [d]"
    using Cons.prems(2) by (intro set_insert_last) (simp add: sorted_wrt_append)
  have "Decode_loop e (EncodeVarint32 6 @ EncodeVarint32 (of_nat lev) @ EncodeVarint64 n @ concat (map deleted_bytes ds) @ rest)
      = Decode_loop ?e (concat (map deleted_bytes ds) @ rest)"
    using ok ins by (intro Decode_loop_step) (simp add: Decode_field_def GetLevel_Encode d)
  also have "\<dots> = Decode_loop (?e\<lparr>ve_deleted_files := ve_deleted_files ?e @ ds\<rparr>) rest"
    using Cons.prems by (intro Cons.IH) auto
  finally show ?case by (simp add: deleted_bytes_def d)
qed simp

lemma Decode_new:
  "\<forall>(lev, f) \<in> set fs. lev < kNumLevels \<and> file_ok f \<Longrightarrow>
   Decode_loop e (concat (map new_bytes fs) @ rest) = Decode_loop (e\<lparr>ve_new_files := ve_new_files e @ fs\<rparr>) rest"
proof (induction fs arbitrary: e)
  case (Cons x fs)
  obtain lev f where x: "x = (lev, f)" by (cases x)
  have ok: "lev < kNumLevels" "file_ok f" using Cons.prems by (simp_all add: x)
  then have f: "FileMetaData_make\<lparr>fm_number := fm_number f, fm_file_size := fm_file_size f, fm_smallest := fm_smallest f,
      fm_largest := fm_largest f\<rparr> = f" by (cases f) (simp add: FileMetaData_make_def file_ok_def)
  let ?e = "e\<lparr>ve_new_files := ve_new_files e @ [x]\<rparr>"
  have "Decode_loop e (EncodeVarint32 7 @ EncodeVarint32 (of_nat lev) @ EncodeVarint64 (fm_number f) @ EncodeVarint64 (fm_file_size f)
      @ PutLengthPrefixedSlice [] (fm_smallest f) @ PutLengthPrefixedSlice [] (fm_largest f) @ concat (map new_bytes fs) @ rest)
      = Decode_loop ?e (concat (map new_bytes fs) @ rest)"
    using ok f by (intro Decode_loop_step) (simp add: Decode_field_def GetLevel_Encode GetInternalKey_Put x file_ok_def)
  also have "\<dots> = Decode_loop (?e\<lparr>ve_new_files := ve_new_files ?e @ fs\<rparr>) rest"
    using Cons.prems by (intro Cons.IH) auto
  finally show ?case by (simp add: new_bytes_def x)
qed simp

text \<open>The scalar fields, in front of the three lists.\<close>

definition scalar_bytes :: "bool \<Rightarrow> u32 \<Rightarrow> bytes \<Rightarrow> bytes" where
  "scalar_bytes has tag body = (if has then EncodeVarint32 tag @ body else [])"

lemma Encode_eq:
  "VersionEdit_EncodeTo e dst = dst
     @ scalar_bytes (ve_has_comparator e) 1 (PutLengthPrefixedSlice [] (ve_comparator e))
     @ scalar_bytes (ve_has_log_number e) 2 (EncodeVarint64 (ve_log_number e))
     @ scalar_bytes (ve_has_prev_log_number e) 9 (EncodeVarint64 (ve_prev_log_number e))
     @ scalar_bytes (ve_has_next_file_number e) 3 (EncodeVarint64 (ve_next_file_number e))
     @ scalar_bytes (ve_has_last_sequence e) 4 (EncodeVarint64 (ve_last_sequence e))
     @ concat (map pointer_bytes (ve_compact_pointers e)) @ concat (map deleted_bytes (ve_deleted_files e))
     @ concat (map new_bytes (ve_new_files e))"
  by (simp add: VersionEdit_EncodeTo_def Let_def Encode_pointers Encode_deleteds Encode_news scalar_bytes_def
      Put_append(1,2) Put_append(3) [of "_ @ _"])

lemma Decode_scalar:
  "length s < 2 ^ 32 \<Longrightarrow> (\<not> b \<Longrightarrow> s = ve_comparator e \<and> \<not> ve_has_comparator e) \<Longrightarrow>
   Decode_loop e (scalar_bytes b 1 (PutLengthPrefixedSlice [] s) @ rest)
     = Decode_loop (e\<lparr>ve_comparator := s, ve_has_comparator := b\<rparr>) rest"
  "(\<not> b \<Longrightarrow> n = ve_log_number e \<and> \<not> ve_has_log_number e) \<Longrightarrow> Decode_loop e (scalar_bytes b 2 (EncodeVarint64 n) @ rest)
     = Decode_loop (e\<lparr>ve_log_number := n, ve_has_log_number := b\<rparr>) rest"
  "(\<not> b \<Longrightarrow> n = ve_prev_log_number e \<and> \<not> ve_has_prev_log_number e) \<Longrightarrow> Decode_loop e (scalar_bytes b 9 (EncodeVarint64 n) @ rest)
     = Decode_loop (e\<lparr>ve_prev_log_number := n, ve_has_prev_log_number := b\<rparr>) rest"
  "(\<not> b \<Longrightarrow> n = ve_next_file_number e \<and> \<not> ve_has_next_file_number e) \<Longrightarrow> Decode_loop e (scalar_bytes b 3 (EncodeVarint64 n) @ rest)
     = Decode_loop (e\<lparr>ve_next_file_number := n, ve_has_next_file_number := b\<rparr>) rest"
  "(\<not> b \<Longrightarrow> n = ve_last_sequence e \<and> \<not> ve_has_last_sequence e) \<Longrightarrow> Decode_loop e (scalar_bytes b 4 (EncodeVarint64 n) @ rest)
     = Decode_loop (e\<lparr>ve_last_sequence := n, ve_has_last_sequence := b\<rparr>) rest"
  by (cases b; cases e; simp add: scalar_bytes_def Decode_loop_step Decode_field_def)+

text \<open>What decoding the encoding of one edit into another gives: every field but the compact pointers is
  replaced, the compact pointers are added to those the receiver has.\<close>

lemma Decode_Encode:
  assumes "edit_ok e"
  shows "VersionEdit_DecodeFrom e0 (VersionEdit_EncodeTo e [])
    = (Status_OK, e\<lparr>ve_compact_pointers := ve_compact_pointers e0 @ ve_compact_pointers e\<rparr>)"
proof -
  let ?c = "VersionEdit_Clear e0"
  let ?s = "?c\<lparr>ve_comparator := ve_comparator e, ve_has_comparator := ve_has_comparator e,
    ve_log_number := ve_log_number e, ve_has_log_number := ve_has_log_number e,
    ve_prev_log_number := ve_prev_log_number e, ve_has_prev_log_number := ve_has_prev_log_number e,
    ve_next_file_number := ve_next_file_number e, ve_has_next_file_number := ve_has_next_file_number e,
    ve_last_sequence := ve_last_sequence e, ve_has_last_sequence := ve_has_last_sequence e\<rparr>"
  have ok: "length (ve_comparator e) < 2 ^ 32"
    "\<forall>(lev, key) \<in> set (ve_compact_pointers e). lev < kNumLevels \<and> length key < 2 ^ 32"
    "\<forall>(lev, n) \<in> set (ve_deleted_files e). lev < kNumLevels" "sorted_wrt file_less (ve_deleted_files e)"
    "\<forall>(lev, f) \<in> set (ve_new_files e). lev < kNumLevels \<and> file_ok f"
    using assms by (simp_all add: edit_ok_def)
  let ?L = "concat (map pointer_bytes (ve_compact_pointers e)) @ concat (map deleted_bytes (ve_deleted_files e))
     @ concat (map new_bytes (ve_new_files e)) @ []"
  have "Decode_loop ?c (VersionEdit_EncodeTo e []) = Decode_loop ?s ?L"
    using assms by (simp add: edit_ok_def Encode_eq Decode_scalar VersionEdit_Clear_def)
  also have "\<dots> = Decode_loop (?s\<lparr>ve_compact_pointers := ve_compact_pointers e0 @ ve_compact_pointers e,
      ve_deleted_files := ve_deleted_files e, ve_new_files := ve_new_files e\<rparr>) []"
    using ok by (simp add: Decode_pointers Decode_deleted Decode_new VersionEdit_Clear_def del: append_Nil2)
  also have "?s\<lparr>ve_compact_pointers := ve_compact_pointers e0 @ ve_compact_pointers e,
      ve_deleted_files := ve_deleted_files e, ve_new_files := ve_new_files e\<rparr>
    = e\<lparr>ve_compact_pointers := ve_compact_pointers e0 @ ve_compact_pointers e\<rparr>"
    by (simp add: VersionEdit_Clear_def)
  finally show ?thesis
    by (simp add: VersionEdit_DecodeFrom_def Decode_loop_end)
qed

text \<open>The setters keep \<^const>\<open>edit_ok\<close>.\<close>

lemma set_insert_set [simp]: "set (set_insert x ys) = insert x (set ys)"
  by (induction ys) auto

lemma set_insert_sorted: "sorted_wrt file_less ys \<Longrightarrow> sorted_wrt file_less (set_insert x ys)"
proof (induction ys)
  case (Cons y ys)
  have "x = y \<or> file_less x y \<or> file_less y x" by (cases x; cases y) (auto simp: file_less_def)
  then show ?case using Cons by (auto simp: file_less_def)
qed simp

lemma edit_ok_make [simp]: "edit_ok VersionEdit_make"
  by (simp add: edit_ok_def VersionEdit_make_def VersionEdit_Clear_def)

lemma edit_ok_set [simp]:
  "edit_ok e \<Longrightarrow> length name < 2 ^ 32 \<Longrightarrow> edit_ok (SetComparatorName e name)"
  "edit_ok e \<Longrightarrow> edit_ok (SetLogNumber e n)" "edit_ok e \<Longrightarrow> edit_ok (SetPrevLogNumber e n)"
  "edit_ok e \<Longrightarrow> edit_ok (SetNextFile e n)" "edit_ok e \<Longrightarrow> edit_ok (SetLastSequence e n)"
  by (simp_all add: edit_ok_def SetComparatorName_def SetLogNumber_def SetPrevLogNumber_def SetNextFile_def
      SetLastSequence_def)

lemma edit_ok_lists [simp]:
  "edit_ok e \<Longrightarrow> lev < kNumLevels \<Longrightarrow> length key < 2 ^ 32 \<Longrightarrow> edit_ok (SetCompactPointer e lev key)"
  "edit_ok e \<Longrightarrow> lev < kNumLevels \<Longrightarrow> edit_ok (Edit_DeleteFile e lev n)"
  "edit_ok e \<Longrightarrow> lev < kNumLevels \<Longrightarrow> length s < 2 ^ 32 \<Longrightarrow> length l < 2 ^ 32 \<Longrightarrow> edit_ok (AddFile e lev n sz s l)"
  by (simp_all add: edit_ok_def SetCompactPointer_def Edit_DeleteFile_def AddFile_def set_insert_sorted file_ok_def
      FileMetaData_make_def)

subsection \<open>Properties\<close>

text \<open>C25.  Round trip of a manifest record: decoding the encoding of any edit built by the setters (scalar fields,
  compact pointers, deleted and new files) into a fresh edit succeeds and gives the same edit, field for field.\<close>

theorem VersionEdit_roundtrip:
  assumes "edit_ok e"
  shows "VersionEdit_DecodeFrom VersionEdit_make (VersionEdit_EncodeTo e []) = (Status_OK, e)"
  using Decode_Encode [OF assms, of VersionEdit_make] by (simp add: VersionEdit_make_def VersionEdit_Clear_def)

theorem VersionEdit_roundtrip_witness:
  "let e = AddFile (Edit_DeleteFile (Edit_DeleteFile (SetCompactPointer (SetLogNumber VersionEdit_make 7) 2 [1, 2]) 1 9) 0 12)
             3 14 4096 [5] [6]
   in VersionEdit_DecodeFrom VersionEdit_make (VersionEdit_EncodeTo e []) = (Status_OK, e)"
  unfolding Let_def by (rule VersionEdit_roundtrip) (simp add: kNumLevels_def)

text \<open>C40.  \<^verbatim>\<open>DecodeFrom\<close> starts with \<^verbatim>\<open>Clear\<close>, which leaves \<^verbatim>\<open>compact_pointers_\<close> alone: decoding into an edit that
  already has compact pointers succeeds, but the result keeps them in front of the decoded ones.\<close>

theorem DecodeFrom_keeps_compact_pointers:
  assumes "edit_ok e" and "ve_compact_pointers e0 \<noteq> []"
  shows "let (s, d) = VersionEdit_DecodeFrom e0 (VersionEdit_EncodeTo e [])
         in s = Status_OK \<and> d \<noteq> e \<and> ve_compact_pointers d = ve_compact_pointers e0 @ ve_compact_pointers e"
proof -
  have "e\<lparr>ve_compact_pointers := ve_compact_pointers e0 @ ve_compact_pointers e\<rparr> \<noteq> e"
    using assms(2) by (cases e) simp
  then show ?thesis by (simp add: Decode_Encode [OF assms(1)])
qed

theorem DecodeFrom_keeps_compact_pointers_witness:
  "let (s, d) = VersionEdit_DecodeFrom (SetCompactPointer VersionEdit_make 1 [3]) (VersionEdit_EncodeTo VersionEdit_make [])
   in s = Status_OK \<and> d \<noteq> VersionEdit_make \<and> ve_compact_pointers d
      = ve_compact_pointers (SetCompactPointer VersionEdit_make 1 [3]) @ ve_compact_pointers VersionEdit_make"
  by (rule DecodeFrom_keeps_compact_pointers) (simp_all add: SetCompactPointer_def)

end
