(* ===== verification/Env.thy ===== *)
theory Env
  imports Memenv
begin

text \<open>
  The environment interface (\<^verbatim>\<open>include/leveldb/env.h\<close>) and the helpers built on it (\<^verbatim>\<open>util/env.cc\<close>): writing a
  string to a file and reading a file into a string.  An environment is the record of its virtual
  methods on a state \<open>'e\<close> with file objects \<open>'w\<close> (writable) and \<open>'r\<close> (sequential); a method that opens a
  file returns the error status or the file.  The locale \<open>file_env\<close> is what the code relies on, with every
  operation allowed to fail; the in-memory environment satisfies it.
\<close>

subsection \<open>The interface\<close>

record ('e, 'w, 'r) Env =
  op_NewSequentialFile :: "'e \<Rightarrow> bytes \<Rightarrow> (Status + 'r) \<times> 'e"
  op_Read :: "'e \<Rightarrow> 'r \<Rightarrow> nat \<Rightarrow> Status \<times> bytes \<times> 'r"
  op_delete_sequential :: "'e \<Rightarrow> 'r \<Rightarrow> 'e"
  op_NewWritableFile :: "'e \<Rightarrow> bytes \<Rightarrow> (Status + 'w) \<times> 'e"
  op_Append :: "'e \<Rightarrow> 'w \<Rightarrow> bytes \<Rightarrow> Status \<times> 'e"
  op_Flush :: "'e \<Rightarrow> 'w \<Rightarrow> Status \<times> 'e"
  op_Sync :: "'e \<Rightarrow> 'w \<Rightarrow> Status \<times> 'e"
  op_Close :: "'e \<Rightarrow> 'w \<Rightarrow> Status \<times> 'e"
  op_delete_writable :: "'e \<Rightarrow> 'w \<Rightarrow> 'e"
  op_DeleteFile :: "'e \<Rightarrow> bytes \<Rightarrow> Status \<times> 'e"
  op_RenameFile :: "'e \<Rightarrow> bytes \<Rightarrow> bytes \<Rightarrow> Status \<times> 'e"
  op_GetChildren :: "'e \<Rightarrow> bytes \<Rightarrow> Status \<times> bytes list"

subsection \<open>env.cc\<close>

definition DoWriteStringToFile ::
  "('e, 'w, 'r) Env \<Rightarrow> 'e \<Rightarrow> Slice \<Rightarrow> bytes \<Rightarrow> bool \<Rightarrow> Status \<times> 'e" where
  "DoWriteStringToFile E env data fname should_sync =
     (case op_NewWritableFile E env fname of
        (Inl s, env) \<Rightarrow> (s, env)
      | (Inr file, env) \<Rightarrow>
          let (s, env) = op_Append E env file data;
              (s, env) = (if Status_ok s \<and> should_sync then op_Sync E env file else (s, env));
              (s, env) = (if Status_ok s then op_Close E env file else (s, env));
              env = op_delete_writable E env file;
              env = (if \<not> Status_ok s then snd (op_DeleteFile E env fname) else env)
          in (s, env))"

definition WriteStringToFile :: "('e, 'w, 'r) Env \<Rightarrow> 'e \<Rightarrow> Slice \<Rightarrow> bytes \<Rightarrow> Status \<times> 'e" where
  "WriteStringToFile E env data fname = DoWriteStringToFile E env data fname False"

definition WriteStringToFileSync :: "('e, 'w, 'r) Env \<Rightarrow> 'e \<Rightarrow> Slice \<Rightarrow> bytes \<Rightarrow> Status \<times> 'e" where
  "WriteStringToFileSync E env data fname = DoWriteStringToFile E env data fname True"

text \<open>The reading loop ends when a read fails or returns nothing; \<open>None\<close> is more turns than \<open>fuel\<close>.\<close>

definition kBufferSize :: nat where
  "kBufferSize = 8192"

primrec ReadFile_loop :: "nat \<Rightarrow> ('e, 'w, 'r) Env \<Rightarrow> 'e \<Rightarrow> 'r \<Rightarrow> bytes \<Rightarrow> (Status \<times> bytes \<times> 'r) option" where
  "ReadFile_loop 0 E env file data = None"
| "ReadFile_loop (Suc fuel) E env file data =
     (let (s, fragment, file) = op_Read E env file kBufferSize
      in if \<not> Status_ok s then Some (s, data, file)
         else let data = data @ fragment
              in if fragment = [] then Some (s, data, file) else ReadFile_loop fuel E env file data)"

definition ReadFileToString :: "nat \<Rightarrow> ('e, 'w, 'r) Env \<Rightarrow> 'e \<Rightarrow> bytes \<Rightarrow> (Status \<times> bytes \<times> 'e) option" where
  "ReadFileToString fuel E env fname =
     (case op_NewSequentialFile E env fname of
        (Inl s, env) \<Rightarrow> Some (s, [], env)
      | (Inr file, env) \<Rightarrow>
          map_option (\<lambda>(s, data, file). (s, data, op_delete_sequential E env file)) (ReadFile_loop fuel E env file []))"

subsection \<open>The contract\<close>

text \<open>
  \<open>files e\<close> maps the names to the contents.  \<open>wopen e w f\<close>: the file object \<open>w\<close> is open on the file named \<open>f\<close>;
  \<open>ropen e r c\<close>: \<open>c\<close> is what is left to read.  A failing call leaves the names it does not concern alone.
\<close>

locale file_env =
  fixes E :: "('e, 'w, 'r) Env"
    and files :: "'e \<Rightarrow> bytes \<Rightarrow> bytes option"
    and einvar :: "'e \<Rightarrow> bool"
    and wopen :: "'e \<Rightarrow> 'w \<Rightarrow> bytes \<Rightarrow> bool"
    and ropen :: "'e \<Rightarrow> 'r \<Rightarrow> bytes \<Rightarrow> bool"
  assumes new_writable: "einvar e \<Longrightarrow> op_NewWritableFile E e f = (Inr w, e') \<Longrightarrow>
      einvar e' \<and> wopen e' w f \<and> files e' = (files e)(f \<mapsto> [])"
    and new_writable_fail: "einvar e \<Longrightarrow> op_NewWritableFile E e f = (Inl s, e') \<Longrightarrow>
      einvar e' \<and> \<not> Status_ok s \<and> (\<forall>g. g \<noteq> f \<longrightarrow> files e' g = files e g)"
    and append: "einvar e \<Longrightarrow> wopen e w f \<Longrightarrow> op_Append E e w d = (s, e') \<Longrightarrow>
      einvar e' \<and> wopen e' w f \<and> (\<forall>g. g \<noteq> f \<longrightarrow> files e' g = files e g)
      \<and> (Status_ok s \<longrightarrow> files e' f = map_option (\<lambda>c. c @ d) (files e f))"
    and sync: "einvar e \<Longrightarrow> wopen e w f \<Longrightarrow> op_Sync E e w = (s, e') \<Longrightarrow>
      einvar e' \<and> wopen e' w f \<and> (\<forall>g. g \<noteq> f \<longrightarrow> files e' g = files e g) \<and> (Status_ok s \<longrightarrow> files e' f = files e f)"
    and close: "einvar e \<Longrightarrow> wopen e w f \<Longrightarrow> op_Close E e w = (s, e') \<Longrightarrow>
      einvar e' \<and> wopen e' w f \<and> (\<forall>g. g \<noteq> f \<longrightarrow> files e' g = files e g) \<and> (Status_ok s \<longrightarrow> files e' f = files e f)"
    and delete_writable: "einvar e \<Longrightarrow> wopen e w f \<Longrightarrow>
      einvar (op_delete_writable E e w) \<and> files (op_delete_writable E e w) = files e"
    and delete_file: "einvar e \<Longrightarrow> op_DeleteFile E e f = (s, e') \<Longrightarrow>
      einvar e' \<and> files e' = (if Status_ok s then (files e)(f := None) else files e)"
    and rename_file: "einvar e \<Longrightarrow> src \<noteq> target \<Longrightarrow> op_RenameFile E e src target = (s, e') \<Longrightarrow>
      einvar e' \<and> files e' = (if Status_ok s then (files e)(target := files e src, src := None) else files e)"
    and new_sequential: "einvar e \<Longrightarrow> op_NewSequentialFile E e f = (Inr r, e') \<Longrightarrow>
      einvar e' \<and> files e' = files e \<and> (\<exists>c. files e f = Some c \<and> ropen e' r c)"
    and new_sequential_fail: "einvar e \<Longrightarrow> op_NewSequentialFile E e f = (Inl s, e') \<Longrightarrow>
      einvar e' \<and> \<not> Status_ok s \<and> files e' = files e"
    and read: "einvar e \<Longrightarrow> ropen e r c \<Longrightarrow> op_Read E e r n = (s, d, r') \<Longrightarrow>
      ropen e r' (if Status_ok s then drop n c else c) \<and> (Status_ok s \<longrightarrow> d = take n c)"
    and delete_sequential: "einvar e \<Longrightarrow> ropen e r c \<Longrightarrow>
      einvar (op_delete_sequential E e r) \<and> files (op_delete_sequential E e r) = files e"
    and flush_file: "einvar e \<Longrightarrow> wopen e w f \<Longrightarrow> op_Flush E e w = (s, e') \<Longrightarrow>
      einvar e' \<and> wopen e' w f \<and> (\<forall>g. g \<noteq> f \<longrightarrow> files e' g = files e g) \<and> (Status_ok s \<longrightarrow> files e' f = files e f)"
begin

lemma DoWriteStringToFile_spec:
  assumes "einvar e" and "DoWriteStringToFile E e data f sync = (s, e')"
  shows "einvar e' \<and> (\<forall>g. g \<noteq> f \<longrightarrow> files e' g = files e g) \<and> (Status_ok s \<longrightarrow> files e' f = Some data)"
proof (cases "op_NewWritableFile E e f")
  case (Pair r e1)
  show ?thesis
  proof (cases r)
    case (Inl x)
    then show ?thesis using assms Pair new_writable_fail by (auto simp: DoWriteStringToFile_def)
  next
    case (Inr w)
    have 1: "einvar e1" "wopen e1 w f" "files e1 = (files e)(f \<mapsto> [])"
      using new_writable [OF assms(1)] Pair Inr by auto
    obtain s2 e2 where o2: "op_Append E e1 w data = (s2, e2)" by fastforce
    note 2 = append [OF 1(1,2) o2]
    define p where "p = (if Status_ok s2 \<and> sync then op_Sync E e2 w else (s2, e2))"
    obtain s3 e3 where p: "p = (s3, e3)" by fastforce
    have 3: "einvar e3 \<and> wopen e3 w f \<and> (\<forall>g. g \<noteq> f \<longrightarrow> files e3 g = files e g) \<and> (Status_ok s3 \<longrightarrow> files e3 f = Some data)"
      using 1 2 p sync [of e2 w f s3 e3] unfolding p_def by (auto split: if_splits)
    define q where "q = (if Status_ok s3 then op_Close E e3 w else (s3, e3))"
    obtain s4 e4 where q: "q = (s4, e4)" by fastforce
    have 4: "einvar e4 \<and> wopen e4 w f \<and> (\<forall>g. g \<noteq> f \<longrightarrow> files e4 g = files e g) \<and> (Status_ok s4 \<longrightarrow> files e4 f = Some data)"
      using 3 q close [of e3 w f s4 e4] unfolding q_def by (auto split: if_splits)
    define e5 where "e5 = op_delete_writable E e4 w"
    have 5: "einvar e5" "files e5 = files e4" using 4 delete_writable [of e4 w f] by (auto simp: e5_def)
    obtain s6 e6 where o6: "op_DeleteFile E e5 f = (s6, e6)" by fastforce
    note 6 = delete_file [OF 5(1) o6]
    have "(s, e') = (s4, if \<not> Status_ok s4 then e6 else e5)"
      using assms(2) Pair Inr o2 p q o6
      by (auto simp: DoWriteStringToFile_def p_def [symmetric] q_def [symmetric] e5_def [symmetric])
    then show ?thesis using 4 5 6 by (auto split: if_splits)
  qed
qed

lemma ReadFile_loop_spec:
  assumes "einvar e" and "ropen e r c" and "length c < fuel"
  shows "\<exists>s d r'. ReadFile_loop fuel E e r acc = Some (s, d, r') \<and> (\<exists>c'. ropen e r' c') \<and> (Status_ok s \<longrightarrow> d = acc @ c)"
  using assms(2,3)
proof (induction fuel arbitrary: r c acc)
  case (Suc fuel)
  obtain s d r' where o: "op_Read E e r kBufferSize = (s, d, r')" by (cases "op_Read E e r kBufferSize") auto
  note R = read [OF assms(1) Suc.prems(1) o]
  show ?case
  proof (cases "Status_ok s \<and> d \<noteq> []")
    case False
    moreover from this have "Status_ok s \<Longrightarrow> c = []" using R by (simp add: kBufferSize_def)
    ultimately show ?thesis using R by (auto simp: o)
  next
    case True
    then have "length (drop kBufferSize c) < fuel" using R Suc.prems(2) by (cases c) (auto simp: kBufferSize_def)
    with True R Suc.IH [of r' "drop kBufferSize c" "acc @ d"] show ?thesis by (auto simp: o)
  qed
qed simp

lemma ReadFileToString_spec:
  assumes "einvar e" and "\<And>c. files e f = Some c \<Longrightarrow> length c < fuel"
  shows "\<exists>s d e'. ReadFileToString fuel E e f = Some (s, d, e') \<and> einvar e' \<and> files e' = files e
    \<and> (Status_ok s \<longrightarrow> files e f = Some d)"
proof (cases "op_NewSequentialFile E e f")
  case (Pair x e1)
  show ?thesis
  proof (cases x)
    case (Inl s)
    then show ?thesis using new_sequential_fail [OF assms(1)] Pair by (auto simp: ReadFileToString_def)
  next
    case (Inr r)
    then obtain c where 1: "einvar e1" "files e1 = files e" "files e f = Some c" "ropen e1 r c"
      using new_sequential [OF assms(1)] Pair by blast
    obtain s d r' c' where 2: "ReadFile_loop fuel E e1 r [] = Some (s, d, r')" "ropen e1 r' c'" "Status_ok s \<longrightarrow> d = c"
      using ReadFile_loop_spec [OF 1(1,4), of fuel "[]"] assms(2) [OF 1(3)] by auto
    show ?thesis using delete_sequential [OF 1(1) 2(2)] 1 2 Pair Inr by (auto simp: ReadFileToString_def)
  qed
qed

end

subsection \<open>The in-memory environment\<close>

text \<open>
  The methods of \<^verbatim>\<open>InMemoryEnv\<close> and of its file objects behind the interface: a writable file object is the
  address of its \<^verbatim>\<open>FileState\<close>, a sequential one an address and a position.  \<^verbatim>\<open>Sync\<close> and \<^verbatim>\<open>Close\<close> do nothing.
\<close>

definition mem_Append :: "byte \<Rightarrow> InMemoryEnv \<Rightarrow> nat \<Rightarrow> bytes \<Rightarrow> Status \<times> InMemoryEnv" where
  "mem_Append u env a data =
     (case env_heap env a of
        None \<Rightarrow> (Status_OK, env)
      | Some f \<Rightarrow> let (s, f) = FileState_Append u f data in (s, env\<lparr>env_heap := (env_heap env)(a \<mapsto> f)\<rparr>))"

definition mem_Read :: "InMemoryEnv \<Rightarrow> nat \<times> nat \<Rightarrow> nat \<Rightarrow> Status \<times> bytes \<times> nat \<times> nat" where
  "mem_Read env = (\<lambda>(a, pos) n.
     case env_heap env a of
       None \<Rightarrow> (Status_OK, [], a, pos)
     | Some f \<Rightarrow> let (s, d, sf) = SequentialFile_Read \<lparr>sf_file = f, sf_pos = pos\<rparr> n in (s, d, a, sf_pos sf))"

definition mem_Env :: "byte \<Rightarrow> (InMemoryEnv, nat, nat \<times> nat) Env" where
  "mem_Env u =
     \<lparr>op_NewSequentialFile = (\<lambda>env f. case NewSequentialFile env f of
          (s, None, env) \<Rightarrow> (Inl s, env) | (s, Some a, env) \<Rightarrow> (Inr (a, 0), env)),
      op_Read = mem_Read,
      op_delete_sequential = (\<lambda>env (a, _). env_unref a env),
      op_NewWritableFile = (\<lambda>env f. case NewWritableFile env f of (s, a, env) \<Rightarrow> (Inr a, env)),
      op_Append = mem_Append u,
      op_Flush = (\<lambda>env a. (Status_OK, env)),
      op_Sync = (\<lambda>env a. (Status_OK, env)),
      op_Close = (\<lambda>env a. (Status_OK, env)),
      op_delete_writable = (\<lambda>env a. env_unref a env),
      op_DeleteFile = env_DeleteFile,
      op_RenameFile = RenameFile,
      op_GetChildren = GetChildren\<rparr>"

definition mem_files :: "InMemoryEnv \<Rightarrow> bytes \<Rightarrow> bytes option" where
  "mem_files env f = Option.bind (map_of (env_map env) f) (\<lambda>a. map_option fs_content (env_heap env a))"

text \<open>The invariant: the reference counts are right for some open file objects \<open>hs\<close>, every object is well formed,
  and no object has two names.\<close>

definition mem_ok :: "InMemoryEnv \<Rightarrow> nat list \<Rightarrow> bool" where
  "mem_ok env hs \<longleftrightarrow> env_invar env hs \<and> (\<forall>a f. env_heap env a = Some f \<longrightarrow> fs_invar f)
     \<and> distinct (map snd (env_map env))"

definition mem_einvar :: "InMemoryEnv \<Rightarrow> bool" where
  "mem_einvar env \<longleftrightarrow> (\<exists>hs. mem_ok env hs)"

definition mem_wopen :: "InMemoryEnv \<Rightarrow> nat \<Rightarrow> bytes \<Rightarrow> bool" where
  "mem_wopen env a f \<longleftrightarrow> (\<exists>hs. mem_ok env (a # hs)) \<and> map_of (env_map env) f = Some a"

definition mem_ropen :: "InMemoryEnv \<Rightarrow> nat \<times> nat \<Rightarrow> bytes \<Rightarrow> bool" where
  "mem_ropen env = (\<lambda>(a, pos) c. (\<exists>hs. mem_ok env (a # hs)) \<and>
     (\<exists>f. env_heap env a = Some f \<and> pos \<le> fs_size f \<and> c = drop pos (fs_content f)))"

lemma mem_ok_live:
  assumes "mem_ok env hs" and "map_of (env_map env) f = Some a"
  shows "env_heap env a \<noteq> None"
proof -
  have "a \<in> set (map snd (env_map env))" using map_of_SomeD [OF assms(2)] by force
  then have "env_refs env hs a \<noteq> 0" by (simp add: env_refs_def count_list_0_iff)
  then show ?thesis using env_invar_heap(1) [of env hs a] assms(1) by (simp add: mem_ok_def)
qed

lemma mem_ok_inj:
  assumes "mem_ok env hs" and "map_of (env_map env) f = Some a" and "map_of (env_map env) g = Some a"
  shows "f = g"
proof -
  have "distinct (map snd (env_map env))" using assms(1) by (simp add: mem_ok_def)
  then show ?thesis using map_of_SomeD [OF assms(2)] map_of_SomeD [OF assms(3)]
    by (metis distinct_map inj_onD prod.inject snd_conv)
qed

text \<open>Dropping and taking a reference to a live object does not change the files.\<close>

lemma env_ref_ok:
  assumes "mem_ok env hs" and "env_heap env a \<noteq> None"
  shows "mem_ok (env_ref a env) (a # hs)" and "mem_files (env_ref a env) = mem_files env"
proof -
  show "mem_ok (env_ref a env) (a # hs)"
    using assms env_ref_invar [of env hs a]
    by (auto simp: mem_ok_def env_ref_def FileState_Ref_def fs_invar_def)
  show "mem_files (env_ref a env) = mem_files env"
    using assms(2) by (auto simp: fun_eq_iff mem_files_def env_ref_def FileState_Ref_def fs_content_def split: bind_splits)
qed

lemma FileState_Unref_SomeD:
  "FileState_Unref f = Some g \<Longrightarrow> fs_invar f \<Longrightarrow> fs_invar g"
  "FileState_Unref f = Some g \<Longrightarrow> fs_content g = fs_content f"
  by (auto simp: FileState_Unref_def Let_def fs_invar_def fs_content_def split: if_splits)

lemma env_unref_ok:
  assumes "mem_ok env (a # hs)"
  shows "mem_ok (env_unref a env) hs" and "mem_files (env_unref a env) = mem_files env"
proof -
  show ok: "mem_ok (env_unref a env) hs"
    using assms env_close_invar [of env a hs] unfolding mem_ok_def
    by (auto simp: env_unref_def bind_eq_Some_conv dest: FileState_Unref_SomeD split: if_splits)
  show "mem_files (env_unref a env) = mem_files env"
  proof
    fix f
    have "map_of (env_map (env_unref a env)) f = map_of (env_map env) f" by (simp add: env_unref_def)
    moreover have "map_option fs_content (env_heap (env_unref a env) b) = map_option fs_content (env_heap env b)"
      if "map_of (env_map env) f = Some b" for b
      using that mem_ok_live [OF ok, of f b]
      by (auto simp: env_unref_def bind_eq_Some_conv FileState_Unref_SomeD(2))
    ultimately show "mem_files (env_unref a env) f = mem_files env f"
      by (auto simp: mem_files_def split: bind_splits)
  qed
qed

lemma DeleteFileInternal_ok:
  assumes "mem_ok env hs"
  shows "mem_ok (DeleteFileInternal env f) hs"
    and "mem_files (DeleteFileInternal env f) = (mem_files env)(f := None)"
    and "env_next (DeleteFileInternal env f) = env_next env"
proof -
  have inv: "env_invar (DeleteFileInternal env f) hs"
    using assms DeleteFileInternal_invar by (simp add: mem_ok_def)
  have dist: "distinct (map snd (env_map (DeleteFileInternal env f)))"
    using assms by (auto simp: mem_ok_def DeleteFileInternal_def fm_erase_def distinct_map_filter split: option.split)
  show ok: "mem_ok (DeleteFileInternal env f) hs"
    using assms inv dist unfolding mem_ok_def
    by (auto simp: DeleteFileInternal_def env_unref_def bind_eq_Some_conv dest: FileState_Unref_SomeD
        split: option.splits if_splits)
  show "mem_files (DeleteFileInternal env f) = (mem_files env)(f := None)"
  proof
    fix g
    have heap: "env_heap (DeleteFileInternal env f) b = env_heap env b"
      if "map_of (env_map env) g = Some b" "g \<noteq> f" for b
      using that mem_ok_inj [OF assms that(1), of f] by (auto simp: DeleteFileInternal_def env_unref_def split: option.split)
    then show "mem_files (DeleteFileInternal env f) g = ((mem_files env)(f := None)) g"
      by (auto simp: mem_files_def DeleteFileInternal_map split: bind_splits)
  qed
  show "env_next (DeleteFileInternal env f) = env_next env"
    by (simp add: DeleteFileInternal_def env_unref_def split: option.split)
qed

lemma set_fm_set: "set (fm_set k a m) \<subseteq> insert (k, a) (set m)"
  by (induction m) (auto split: if_splits)

lemma snd_fm_set: "snd ` set (fm_set k a m) \<subseteq> insert a (snd ` set m)"
  using image_mono [OF set_fm_set, of snd k a m] by simp

lemma distinct_snd_fm_set:
  "distinct (map snd m) \<Longrightarrow> a \<notin> snd ` set m \<Longrightarrow> distinct (map snd (fm_set k a m))"
proof (induction m)
  case (Cons e m)
  then show ?case using snd_fm_set [of k a m] by (cases e) (auto split: if_splits)
qed simp

lemma distinct_count_le: "distinct xs \<longleftrightarrow> (\<forall>x. count_list xs x \<le> 1)"
proof (induction xs)
  case (Cons y ys)
  have "y \<in> set ys \<longleftrightarrow> 1 \<le> count_list ys y" using count_list_0_iff [of ys y] by linarith
  with Cons show ?case by (auto simp: le_Suc_eq)
qed simp

text \<open>Renaming: the entry that is erased carries the address that is set.\<close>

lemma distinct_snd_rename:
  assumes "fm_sorted m" and "distinct (map snd m)" and "map_of m src = Some a" and "map_of m target = None"
  shows "distinct (map snd (fm_erase src (fm_set target a m)))"
proof -
  have "src \<noteq> target" using assms by auto
  then have "count_list (map snd (fm_erase src (fm_set target a m))) x = count_list (map snd m) x" for x
    using count_fm_erase [OF fm_sorted_distinct [OF fm_sorted_set [OF assms(1)]], of target a x src]
      count_fm_set [OF assms(4), of a x] assms(3) by (auto split: if_splits)
  with assms(2) show ?thesis by (simp add: distinct_count_le)
qed

lemma mem_ok_fresh: "mem_ok env hs \<Longrightarrow> env_next env \<le> a \<Longrightarrow> a \<notin> snd ` set (env_map env)"
  using env_invar_heap(1) [of env hs a]
  by (auto simp: mem_ok_def env_invar_def env_refs_def count_list_0_iff)

lemma NewWritableFile_ok:
  assumes "mem_ok env hs" and "NewWritableFile env f = (s, a, env')"
  shows "mem_ok env' (a # hs)" and "mem_files env' = (mem_files env)(f \<mapsto> [])" and "map_of (env_map env') f = Some a"
proof -
  define e1 where "e1 = (if map_of (env_map env) f \<noteq> None then DeleteFileInternal env f else env)"
  have 1: "mem_ok e1 hs" using assms(1) DeleteFileInternal_ok by (auto simp: e1_def)
  have files1: "(mem_files e1)(f := None) = (mem_files env)(f := None)"
    using assms(1) DeleteFileInternal_ok by (auto simp: e1_def)
  have a: "a = env_next e1" and map': "env_map env' = fm_set f a (env_map e1)"
    and heap': "env_heap env' = (env_heap e1)(a \<mapsto> FileState_Ref (FileState_Ref FileState_new))"
    using assms(2) by (auto simp: NewWritableFile_def Let_def e1_def env_ref_def)
  have fresh: "a \<notin> snd ` set (env_map e1)" using mem_ok_fresh [OF 1] by (simp add: a)
  show "mem_ok env' (a # hs)"
    using NewWritableFile_invar(1) [OF _ assms(2)] assms(1) 1 fresh distinct_snd_fm_set [of "env_map e1" a f]
    by (auto simp: mem_ok_def map' heap' FileState_Ref_def FileState_new_def fs_invar_def)
  have "map_of (env_map e1) g = Some b \<Longrightarrow> b \<noteq> a" for g b using fresh map_of_SomeD [of "env_map e1" g b] by force
  then have "mem_files env' g = ((mem_files e1)(f \<mapsto> [])) g" for g
    by (auto simp: mem_files_def map' heap' FileState_Ref_def FileState_new_def fs_content_def split: bind_splits)
  then show "mem_files env' = (mem_files env)(f \<mapsto> [])"
    using files1 by (auto simp: fun_eq_iff split: if_splits)
  show "map_of (env_map env') f = Some a" by (simp add: map')
qed

lemma RenameFile_ok:
  assumes "mem_ok env hs" and "src \<noteq> target" and "RenameFile env src target = (s, env')"
  shows "mem_ok env' hs"
    and "mem_files env' = (if Status_ok s then (mem_files env)(target := mem_files env src, src := None) else mem_files env)"
proof -
  let ?e1 = "DeleteFileInternal env target"
  have 1: "mem_ok ?e1 hs" "mem_files ?e1 = (mem_files env)(target := None)"
    using DeleteFileInternal_ok [OF assms(1)] by auto
  have inv: "env_invar env' hs"
    using RenameFile_invar(1) [OF _ assms(2,3)] assms(1) by (simp add: mem_ok_def)
  have *: "mem_ok env' hs \<and> mem_files env' = (if Status_ok s then (mem_files env)(target := mem_files env src, src := None) else mem_files env)"
  proof (cases "map_of (env_map env) src")
    case None
    then show ?thesis using assms by (auto simp: RenameFile_def)
  next
    case (Some a)
    then have m1: "map_of (env_map ?e1) src = Some a" using assms(2) by (simp add: DeleteFileInternal_map)
    then have s: "s = Status_OK" and e: "env' = ?e1\<lparr>env_map := fm_erase src (fm_set target a (env_map ?e1))\<rparr>"
      using assms(3) Some by (simp_all add: RenameFile_def Let_def)
    have "distinct (map snd (env_map env'))"
      using 1(1) m1 by (simp add: e mem_ok_def env_invar_def distinct_snd_rename DeleteFileInternal_map)
    then have "mem_ok env' hs" using 1 inv by (auto simp: mem_ok_def e)
    moreover have "mem_files env' = (mem_files ?e1)(target := mem_files ?e1 src, src := None)"
      using m1 by (auto simp: mem_files_def e fun_eq_iff)
    then have "mem_files env' = (mem_files env)(target := mem_files env src, src := None)"
      using assms(2) by (simp add: 1(2))
    ultimately show ?thesis by (simp add: s)
  qed
  then show "mem_ok env' hs"
    and "mem_files env' = (if Status_ok s then (mem_files env)(target := mem_files env src, src := None) else mem_files env)"
    by auto
qed

lemma mem_Append_ok:
  assumes "mem_ok env (a # hs)" and "map_of (env_map env) f = Some a" and "mem_Append u env a d = (s, env')"
  shows "mem_ok env' (a # hs)" and "map_of (env_map env') f = Some a" and "s = Status_OK"
    and "mem_files env' = (mem_files env)(f := map_option (\<lambda>c. c @ d) (mem_files env f))"
proof -
  obtain x where x: "env_heap env a = Some x" using mem_ok_live [OF assms(1,2)] by blast
  have fx: "fs_invar x" using assms(1) x by (simp add: mem_ok_def)
  note A = FileState_Append_loop_eq [OF fx, of u d]
  have s: "s = Status_OK" and e: "env' = env\<lparr>env_heap := (env_heap env)(a \<mapsto> FileState_Append_loop u x d)\<rparr>"
    using assms(3) x by (auto simp: mem_Append_def FileState_Append_def)
  show "s = Status_OK" by (rule s)
  show "map_of (env_map env') f = Some a" using assms(2) by (simp add: e)
  have inv: "env_invar env (a # hs)" using assms(1) by (simp add: mem_ok_def)
  have "env_invar env' (a # hs)"
  proof (rule env_invarI)
    note H = env_invar_heap [OF inv]
    have refs: "env_refs env' (a # hs) y = env_refs env (a # hs) y" for y by (simp add: e env_refs_def)
    show "fm_sorted (env_map env')" using inv by (simp add: e env_invar_def)
    fix y
    show "env_heap env' y = None \<longleftrightarrow> env_refs env' (a # hs) y = 0"
      using H(1) [of y] x unfolding refs by (auto simp: e)
    show "fs_refs g = int (env_refs env' (a # hs) y)" if "env_heap env' y = Some g" for g
      using that H(2) [of y] x A unfolding refs by (auto simp: e split: if_splits)
    show "env_heap env' y = None" if "env_next env' \<le> y"
      using that inv x by (auto simp: e env_invar_def)
  qed
  then show "mem_ok env' (a # hs)" using assms(1) A by (auto simp: mem_ok_def e)
  show "mem_files env' = (mem_files env)(f := map_option (\<lambda>c. c @ d) (mem_files env f))"
  proof
    fix g
    show "mem_files env' g = ((mem_files env)(f := map_option (\<lambda>c. c @ d) (mem_files env f))) g"
    proof (cases "g = f")
      case True
      then show ?thesis using assms(2) x A by (simp add: mem_files_def e)
    next
      case False
      then have "map_of (env_map env) g \<noteq> Some a" using mem_ok_inj [OF assms(1) _ assms(2)] by blast
      then show ?thesis using False by (cases "map_of (env_map env) g") (simp_all add: mem_files_def e)
    qed
  qed
qed

lemma mem_ok_tl: "mem_ok env hs \<Longrightarrow> mem_einvar env"
  by (auto simp: mem_einvar_def)

interpretation memenv: file_env "mem_Env u" mem_files mem_einvar mem_wopen mem_ropen for u
proof (unfold_locales, goal_cases)
  case (1 e f w e')
  then obtain hs s where "mem_ok e hs" "NewWritableFile e f = (s, w, e')"
    by (auto simp: mem_einvar_def mem_Env_def split: prod.splits)
  from NewWritableFile_ok [OF this] show ?case by (auto simp: mem_wopen_def dest: mem_ok_tl)
next
  case (2 e f s e')
  then show ?case by (auto simp: mem_Env_def split: prod.splits)
next
  case (3 e w f d s e')
  then obtain hs where "mem_ok e (w # hs)" "map_of (env_map e) f = Some w" "mem_Append u e w d = (s, e')"
    by (auto simp: mem_wopen_def mem_Env_def)
  from mem_Append_ok [OF this] show ?case by (auto simp: mem_wopen_def dest: mem_ok_tl)
next
  case (6 e w f)
  then obtain hs where "mem_ok e (w # hs)" by (auto simp: mem_wopen_def)
  from env_unref_ok [OF this] show ?case by (auto simp: mem_Env_def dest: mem_ok_tl)
next
  case (7 e f s e')
  then obtain hs where "mem_ok e hs" "env_DeleteFile e f = (s, e')" by (auto simp: mem_einvar_def mem_Env_def)
  with DeleteFileInternal_ok [OF this(1), of f] show ?case
    by (auto simp: env_DeleteFile_def dest: mem_ok_tl split: if_splits)
next
  case (8 e src target s e')
  then obtain hs where "mem_ok e hs" "RenameFile e src target = (s, e')" by (auto simp: mem_einvar_def mem_Env_def)
  from RenameFile_ok [OF this(1) 8(2) this(2)] show ?case by (auto dest: mem_ok_tl)
next
  case (9 e f r e')
  then obtain hs a where e: "mem_ok e hs" and a: "map_of (env_map e) f = Some a" and r: "r = (a, 0)" "e' = env_ref a e"
    by (auto simp: mem_einvar_def mem_Env_def NewSequentialFile_def split: prod.splits option.splits)
  obtain x where x: "env_heap e a = Some x" using mem_ok_live [OF e a] by blast
  then show ?case using env_ref_ok [OF e, of a] a
    by (auto simp: r mem_ropen_def mem_files_def env_ref_def FileState_Ref_def fs_content_def dest: mem_ok_tl)
next
  case (10 e f s e')
  then show ?case by (auto simp: mem_Env_def NewSequentialFile_def split: prod.splits option.splits)
next
  case (11 e r c n s d r')
  then obtain hs x where r: "mem_ok e (fst r # hs)" "env_heap e (fst r) = Some x" "snd r \<le> fs_size x"
    "c = drop (snd r) (fs_content x)" by (cases r) (auto simp: mem_ropen_def)
  let ?sf = "\<lparr>sf_file = x, sf_pos = snd r\<rparr>"
  have i: "sf_invar ?sf" using r by (auto simp: sf_invar_def mem_ok_def)
  obtain s1 d1 sf1 where o: "SequentialFile_Read ?sf n = (s1, d1, sf1)" by (cases "SequentialFile_Read ?sf n") auto
  then have f1: "sf_file sf1 = x" by (auto simp: SequentialFile_Read_def split: prod.splits if_splits)
  have "(s, d, r') = (s1, d1, fst r, sf_pos sf1)" using 11(3) r o by (cases r) (auto simp: mem_Env_def mem_Read_def)
  moreover note mem_sequential.read_ok [OF i, of n] mem_sequential.read_result [OF i, of n]
    mem_sequential.read_rest [OF i, of n] mem_sequential.read_invar [OF i, of n]
  ultimately show ?case using r o f1 by (auto simp: mem_ropen_def sf_rest_def sf_invar_def)
next
  case (12 e r c)
  then obtain hs where "mem_ok e (fst r # hs)" by (cases r) (auto simp: mem_ropen_def)
  from env_unref_ok [OF this] show ?case by (cases r) (auto simp: mem_Env_def dest: mem_ok_tl)
qed (auto simp: mem_Env_def)

lemma mem_WriteStringToFile_ok: "fst (DoWriteStringToFile (mem_Env u) env data f sync) = Status_OK"
  by (auto simp: DoWriteStringToFile_def mem_Env_def mem_Append_def FileState_Append_def Let_def split: prod.splits option.splits)

lemma mem_Read_ok:
  assumes "mem_einvar env" and "mem_ropen env r c"
  shows "fst (op_Read (mem_Env u) env r n) = Status_OK"
proof -
  obtain hs x where r: "mem_ok env (fst r # hs)" "env_heap env (fst r) = Some x" "snd r \<le> fs_size x"
    using assms by (cases r) (auto simp: mem_ropen_def)
  then show ?thesis
    by (cases r) (auto simp: mem_Env_def mem_Read_def SequentialFile_Read_def FileState_Read_eq mem_ok_def split: prod.splits)
qed

lemma mem_ReadFile_loop_ok:
  assumes "mem_einvar env" and "mem_ropen env r c" and "ReadFile_loop fuel (mem_Env u) env r acc = Some (s, d, r')"
  shows "s = Status_OK"
  using assms(2,3)
proof (induction fuel arbitrary: r c acc)
  case (Suc fuel)
  obtain s1 d1 r1 where o: "op_Read (mem_Env u) env r kBufferSize = (s1, d1, r1)"
    by (cases "op_Read (mem_Env u) env r kBufferSize") auto
  have s1: "s1 = Status_OK" using mem_Read_ok [OF assms(1) Suc.prems(1), of u kBufferSize] o by simp
  show ?case
  proof (cases "d1 = []")
    case False
    then show ?thesis
      using Suc.IH [of r1 _ "acc @ d1"] memenv.read [OF assms(1) Suc.prems(1) o] Suc.prems(2) by (auto simp: o s1)
  qed (use Suc.prems(2) in \<open>auto simp: o s1\<close>)
qed simp

subsection \<open>Properties\<close>

text \<open>C29.  Write then read: \<^verbatim>\<open>WriteStringToFile\<close> on the in-memory environment always succeeds, and \<^verbatim>\<open>ReadFileToString\<close>
  of the same name then ends, succeeds and returns exactly the data; no other file changes.\<close>

theorem write_read_file:
  assumes "mem_einvar env" and "length data < fuel"
  shows "\<exists>env1 env2. WriteStringToFile (mem_Env u) env data f = (Status_OK, env1)
    \<and> ReadFileToString fuel (mem_Env u) env1 f = Some (Status_OK, data, env2)
    \<and> mem_einvar env2 \<and> mem_files env2 = (mem_files env)(f \<mapsto> data)"
proof -
  obtain env1 where w: "WriteStringToFile (mem_Env u) env data f = (Status_OK, env1)"
    using mem_WriteStringToFile_ok [of u env data f False] by (metis WriteStringToFile_def prod.collapse)
  note W = memenv.DoWriteStringToFile_spec [OF assms(1) w [unfolded WriteStringToFile_def]]
  then have f1: "mem_files env1 f = Some data" and i1: "mem_einvar env1" by auto
  obtain s d env2 where r: "ReadFileToString fuel (mem_Env u) env1 f = Some (s, d, env2)" "mem_einvar env2"
    "mem_files env2 = mem_files env1" "Status_ok s \<longrightarrow> mem_files env1 f = Some d"
    using memenv.ReadFileToString_spec [OF i1, of f fuel u] f1 assms(2) by auto
  have "s = Status_OK"
  proof -
    obtain a where "map_of (env_map env1) f = Some a" using f1 by (auto simp: mem_files_def bind_eq_Some_conv)
    then have o: "op_NewSequentialFile (mem_Env u) env1 f = (Inr (a, 0), env_ref a env1)"
      by (simp add: mem_Env_def NewSequentialFile_def)
    then obtain c where "mem_einvar (env_ref a env1)" "mem_ropen (env_ref a env1) (a, 0) c"
      using memenv.new_sequential [OF i1 o] by blast
    from mem_ReadFile_loop_ok [OF this, of fuel u "[]"] show ?thesis using r(1) by (auto simp: ReadFileToString_def o)
  qed
  with r f1 w W show ?thesis by (auto simp: fun_eq_iff)
qed

definition mem_empty :: InMemoryEnv where
  "mem_empty = \<lparr>env_map = [], env_heap = (\<lambda>_. None), env_next = 0\<rparr>"

lemma mem_empty_invar: "mem_einvar mem_empty"
  unfolding mem_einvar_def
  by (rule exI [of _ "[]"]) (simp add: mem_ok_def mem_empty_def env_invar_def fm_sorted_def env_refs_def)

theorem write_read_file_witness:
  "\<exists>env1 env2. WriteStringToFile (mem_Env 0) mem_empty [1, 2, 3] [65] = (Status_OK, env1)
    \<and> ReadFileToString 4 (mem_Env 0) env1 [65] = Some (Status_OK, [1, 2, 3], env2)
    \<and> mem_einvar env2 \<and> mem_files env2 = (mem_files mem_empty)([65] \<mapsto> [1, 2, 3])"
  by (rule write_read_file [OF mem_empty_invar]) simp

text \<open>C39.  Renaming a file of the in-memory environment to its own name reports success and deletes the file.\<close>

theorem RenameFile_self_deletes:
  assumes "FileExists env f"
  shows "fst (RenameFile env f f) = Status_OK \<and> \<not> FileExists (snd (RenameFile env f f)) f"
  using assms by (auto simp: RenameFile_def FileExists_def Let_def DeleteFileInternal_map)

theorem RenameFile_self_deletes_witness:
  "fst (RenameFile (snd (snd (NewWritableFile mem_empty [65]))) [65] [65]) = Status_OK
   \<and> \<not> FileExists (snd (RenameFile (snd (snd (NewWritableFile mem_empty [65]))) [65] [65])) [65]"
  by (rule RenameFile_self_deletes)
    (simp add: FileExists_def NewWritableFile_def mem_empty_def Let_def env_ref_def)

end
