(* ===== verification/Filename.thy ===== *)
theory Filename
  imports Logging Env
begin

text \<open>
  File names (\<^verbatim>\<open>db/filename.{h,cc}\<close>): the names of the files of a database, the parser that classifies them, and
  \<^verbatim>\<open>SetCurrentFile\<close>, which switches \<^verbatim>\<open>CURRENT\<close> to a new manifest through a temporary file.  The buffer of \<^verbatim>\<open>snprintf\<close> holds
  every name: a 64-bit number has at most 20 digits.
\<close>

subsection \<open>Names\<close>

text \<open>The conversion \<^verbatim>\<open>%06llu\<close>.\<close>

definition decimal6 :: "u64 \<Rightarrow> bytes" where
  "decimal6 n = replicate (6 - length (decimal (unat n))) 48 @ decimal (unat n)"

definition MakeFileName :: "bytes \<Rightarrow> u64 \<Rightarrow> bytes \<Rightarrow> bytes" where
  "MakeFileName name number suffix = name @ str ''/'' @ decimal6 number @ str ''.'' @ suffix"

definition LogFileName :: "bytes \<Rightarrow> u64 \<Rightarrow> bytes" where
  "LogFileName name number = MakeFileName name number (str ''log'')"

definition TableFileName :: "bytes \<Rightarrow> u64 \<Rightarrow> bytes" where
  "TableFileName name number = MakeFileName name number (str ''ldb'')"

definition SSTTableFileName :: "bytes \<Rightarrow> u64 \<Rightarrow> bytes" where
  "SSTTableFileName name number = MakeFileName name number (str ''sst'')"

definition DescriptorFileName :: "bytes \<Rightarrow> u64 \<Rightarrow> bytes" where
  "DescriptorFileName dbname number = dbname @ str ''/MANIFEST-'' @ decimal6 number"

definition CurrentFileName :: "bytes \<Rightarrow> bytes" where
  "CurrentFileName dbname = dbname @ str ''/CURRENT''"

definition LockFileName :: "bytes \<Rightarrow> bytes" where
  "LockFileName dbname = dbname @ str ''/LOCK''"

definition TempFileName :: "bytes \<Rightarrow> u64 \<Rightarrow> bytes" where
  "TempFileName dbname number = MakeFileName dbname number (str ''dbtmp'')"

definition InfoLogFileName :: "bytes \<Rightarrow> bytes" where
  "InfoLogFileName dbname = dbname @ str ''/LOG''"

definition OldInfoLogFileName :: "bytes \<Rightarrow> bytes" where
  "OldInfoLogFileName dbname = dbname @ str ''/LOG.old''"

subsection \<open>Parsing\<close>

datatype FileType = kLogFile | kDBLockFile | kTableFile | kDescriptorFile | kCurrentFile | kTempFile | kInfoLogFile

definition ParseFileName :: "bytes \<Rightarrow> (u64 \<times> FileType) option" where
  "ParseFileName fname =
     (let rest = fname in
      if Slice_equal rest (str ''CURRENT'') then Some (0, kCurrentFile)
      else if Slice_equal rest (str ''LOCK'') then Some (0, kDBLockFile)
      else if Slice_equal rest (str ''LOG'') \<or> Slice_equal rest (str ''LOG.old'') then Some (0, kInfoLogFile)
      else if Slice_starts_with rest (str ''MANIFEST-'') then
        let rest = drop (length ''MANIFEST-'') rest;
            (ok, rest, num) = ConsumeDecimalNumber rest 0
        in if \<not> ok then None
           else if rest \<noteq> [] then None
           else Some (num, kDescriptorFile)
      else
        let (ok, rest, num) = ConsumeDecimalNumber rest 0
        in if \<not> ok then None
           else let suffix = rest
                in if Slice_equal suffix (str ''.log'') then Some (num, kLogFile)
                   else if Slice_equal suffix (str ''.sst'') \<or> Slice_equal suffix (str ''.ldb'') then Some (num, kTableFile)
                   else if Slice_equal suffix (str ''.dbtmp'') then Some (num, kTempFile)
                   else None)"

subsection \<open>SetCurrentFile\<close>

definition SetCurrentFile :: "('e, 'w, 'r) Env \<Rightarrow> 'e \<Rightarrow> bytes \<Rightarrow> u64 \<Rightarrow> Status \<times> 'e" where
  "SetCurrentFile E env dbname descriptor_number =
     (let manifest = DescriptorFileName dbname descriptor_number;
          contents = drop (length dbname + 1) manifest;
          tmp = TempFileName dbname descriptor_number;
          (s, env) = WriteStringToFileSync E env (contents @ str [CHR 0x0A]) tmp;
          (s, env) = (if Status_ok s then op_RenameFile E env tmp (CurrentFileName dbname) else (s, env));
          env = (if \<not> Status_ok s then snd (op_DeleteFile E env tmp) else env)
      in (s, env))"

subsection \<open>Lemmas\<close>

lemma digits_value_zeros [simp]: "digits_value 0 (replicate k 48) = 0"
  by (induction k) simp_all

lemma decimal6_digits: "\<forall>c \<in> set (decimal6 n). is_digit c"
  using decimal_digits by (auto simp: decimal6_def is_digit_def)

lemma decimal6_nonempty [simp]: "decimal6 n \<noteq> []"
  by (simp add: decimal6_def)

lemma hd_decimal6: "is_digit (hd (decimal6 n @ rest))"
  using decimal6_digits [of n] by (metis decimal6_nonempty hd_append2 hd_in_set)

lemma ConsumeDecimalNumber_decimal6:
  assumes "rest = [] \<or> \<not> is_digit (hd rest)"
  shows "ConsumeDecimalNumber (decimal6 n @ rest) val = (True, rest, n)"
proof -
  have v: "digits_value (unat (0 :: u64)) (decimal6 n) = unat n"
    by (simp add: decimal6_def digits_value_decimal)
  then have "digits_value (unat (0 :: u64)) (decimal6 n) < 2 ^ 64"
    using unsigned_less [of n, where 'a = nat] by simp
  then show ?thesis using assms decimal6_nonempty [of n]
    by (simp add: ConsumeDecimalNumber_def ConsumeDecimalNumber_loop_digits [OF decimal6_digits] v [simplified] ConsumeDecimalNumber_stop)
qed

text \<open>A name that starts with a digit is none of the fixed names.\<close>

lemma str_letters:
  "str ''CURRENT'' = [67, 85, 82, 82, 69, 78, 84]" "str ''LOCK'' = [76, 79, 67, 75]" "str ''LOG'' = [76, 79, 71]"
  "str ''LOG.old'' = [76, 79, 71, 46, 111, 108, 100]" "str ''MANIFEST-'' = [77, 65, 78, 73, 70, 69, 83, 84, 45]"
  "str ''.log'' = [46, 108, 111, 103]" "str ''.sst'' = [46, 115, 115, 116]" "str ''.ldb'' = [46, 108, 100, 98]"
  "str ''.dbtmp'' = [46, 100, 98, 116, 109, 112]" "str ''.'' = [46]" "str ''/'' = [47]"
  "str ''log'' = [108, 111, 103]" "str ''sst'' = [115, 115, 116]" "str ''ldb'' = [108, 100, 98]"
  "str ''dbtmp'' = [100, 98, 116, 109, 112]"
  by (simp_all add: str_def)

lemma ParseFileName_number:
  assumes "rest = [] \<or> \<not> is_digit (hd rest)"
  shows "ParseFileName (decimal6 n @ rest) =
    (if rest = str ''.log'' then Some (n, kLogFile)
     else if rest = str ''.sst'' \<or> rest = str ''.ldb'' then Some (n, kTableFile)
     else if rest = str ''.dbtmp'' then Some (n, kTempFile) else None)"
proof -
  obtain c cs where c: "decimal6 n = c # cs" "is_digit c" using decimal6_digits [of n] by (cases "decimal6 n") auto
  have "c \<noteq> 67" "c \<noteq> 76" "c \<noteq> 77" using c(2) by (auto simp: is_digit_def word_le_nat_alt)
  then have "decimal6 n @ rest \<noteq> str ''CURRENT''" "decimal6 n @ rest \<noteq> str ''LOCK''" "decimal6 n @ rest \<noteq> str ''LOG''"
    "decimal6 n @ rest \<noteq> str ''LOG.old''" "\<not> Slice_starts_with (decimal6 n @ rest) (str ''MANIFEST-'')"
    by (auto simp: c str_letters Slice_starts_with_iff)
  then show ?thesis
    by (simp add: ParseFileName_def Slice_equal_iff ConsumeDecimalNumber_decimal6 [OF assms])
qed

lemma ParseFileName_manifest: "ParseFileName (str ''MANIFEST-'' @ decimal6 n) = Some (n, kDescriptorFile)"
  using ConsumeDecimalNumber_decimal6 [of "[]" n 0]
  by (simp add: ParseFileName_def Slice_equal_iff Slice_starts_with_iff str_letters)

lemma drop_name: "drop (length db + 1) (db @ str ''/'' @ rest) = rest"
  by (simp add: str_letters)

lemma DescriptorFileName_eq: "DescriptorFileName db n = db @ str ''/'' @ str ''MANIFEST-'' @ decimal6 n"
  by (simp add: DescriptorFileName_def str_def)

lemma tmp_not_current: "TempFileName db n \<noteq> CurrentFileName db"
proof
  assume "TempFileName db n = CurrentFileName db"
  then have "hd (decimal6 n @ str ''.'' @ str ''dbtmp'') = 67"
    by (simp add: TempFileName_def CurrentFileName_def MakeFileName_def str_def)
  with hd_decimal6 [of n "str ''.'' @ str ''dbtmp''"] show False by (simp add: is_digit_def)
qed

text \<open>\<^verbatim>\<open>SetCurrentFile\<close> under the contract of the environment.\<close>

context file_env
begin

lemma SetCurrentFile_spec:
  assumes "einvar e" and "SetCurrentFile E e db n = (s, e')"
  shows "einvar e' \<and> files e' (CurrentFileName db) =
      (if Status_ok s then Some (str ''MANIFEST-'' @ decimal6 n @ str [CHR 0x0A]) else files e (CurrentFileName db))
    \<and> (\<forall>g. g \<noteq> CurrentFileName db \<longrightarrow> g \<noteq> TempFileName db n \<longrightarrow> files e' g = files e g)"
proof -
  let ?tmp = "TempFileName db n" and ?cur = "CurrentFileName db"
  let ?data = "str ''MANIFEST-'' @ decimal6 n @ str [CHR 0x0A]"
  have data: "drop (length db + 1) (DescriptorFileName db n) @ str [CHR 0x0A] = ?data"
    unfolding DescriptorFileName_eq drop_name by simp
  obtain s1 e1 where o1: "DoWriteStringToFile E e ?data ?tmp True = (s1, e1)" by fastforce
  note 1 = DoWriteStringToFile_spec [OF assms(1) o1]
  define p where "p = (if Status_ok s1 then op_RenameFile E e1 ?tmp ?cur else (s1, e1))"
  obtain s2 e2 where p: "p = (s2, e2)" by fastforce
  have 2: "einvar e2 \<and> files e2 ?cur = (if Status_ok s2 then Some ?data else files e ?cur)
      \<and> (\<forall>g. g \<noteq> ?cur \<longrightarrow> g \<noteq> ?tmp \<longrightarrow> files e2 g = files e g)"
    using 1 p rename_file [OF _ tmp_not_current, of e1 db n s2 e2] tmp_not_current [of db n]
    unfolding p_def by (auto split: if_splits)
  obtain s3 e3 where o3: "op_DeleteFile E e2 ?tmp = (s3, e3)" by fastforce
  have 3: "einvar e3" "files e3 = (if Status_ok s3 then (files e2)(?tmp := None) else files e2)"
    using delete_file [OF _ o3] 2 by auto
  have "(s, e') = (s2, if \<not> Status_ok s2 then e3 else e2)"
    using assms(2) o1 p o3 unfolding SetCurrentFile_def WriteStringToFileSync_def Let_def data p_def [symmetric]
    by (auto simp: p_def [symmetric] split: if_splits)
  then show ?thesis using 2 3 tmp_not_current [of db n] by (auto split: if_splits)
qed

end

subsection \<open>Properties\<close>



text \<open>C38.  Round trip of file names: the parser recognises every generated name, behind the database name and the
  slash, with its type and with the number it was made from.\<close>

theorem ParseFileName_roundtrip:
  "(let parse = \<lambda>f. ParseFileName (drop (length db + 1) f) in
     parse (LogFileName db n) = Some (n, kLogFile) \<and> parse (TableFileName db n) = Some (n, kTableFile)
     \<and> parse (SSTTableFileName db n) = Some (n, kTableFile) \<and> parse (TempFileName db n) = Some (n, kTempFile)
     \<and> parse (DescriptorFileName db n) = Some (n, kDescriptorFile) \<and> parse (CurrentFileName db) = Some (0, kCurrentFile)
     \<and> parse (LockFileName db) = Some (0, kDBLockFile) \<and> parse (InfoLogFileName db) = Some (0, kInfoLogFile)
     \<and> parse (OldInfoLogFileName db) = Some (0, kInfoLogFile))"
proof -
  have "\<not> is_digit (hd (str ''.'' @ x))" for x by (simp add: str_letters is_digit_def)
  note P = ParseFileName_number [OF disjI2 [OF this]]
  show ?thesis
    unfolding Let_def LogFileName_def TableFileName_def SSTTableFileName_def TempFileName_def MakeFileName_def drop_name
      DescriptorFileName_eq P ParseFileName_manifest
    by (simp add: str_letters CurrentFileName_def LockFileName_def InfoLogFileName_def OldInfoLogFileName_def str_def
        ParseFileName_def Slice_equal_iff Slice_starts_with_iff)
qed

text \<open>A file name whose number does not fit 64 bits is rejected, whatever follows the digits.\<close>

theorem ParseFileName_overflow:
  assumes "\<forall>c \<in> set ds. is_digit c" and "2 ^ 64 \<le> digits_value 0 ds"
  shows "ParseFileName (ds @ rest) = None \<and> ParseFileName (str ''MANIFEST-'' @ ds @ rest) = None"
proof -
  have "ds \<noteq> []" using assms(2) by auto
  then obtain c cs where c: "ds = c # cs" "is_digit c" using assms(1) by (cases ds) auto
  have ne: "c \<noteq> 67" "c \<noteq> 76" "c \<noteq> 77" using c(2) by (auto simp: is_digit_def word_le_nat_alt)
  have no: "fst (ConsumeDecimalNumber (ds @ rest) 0) = False"
    using ConsumeDecimalNumber_loop_overflow [OF assms(1), of 0 rest 0 0] assms(2) by (simp add: ConsumeDecimalNumber_def)
  then obtain x y where no': "ConsumeDecimalNumber (ds @ rest) 0 = (False, x, y)" by (metis prod.collapse)
  have "ParseFileName (ds @ rest) = None"
    using ne no' by (auto simp: ParseFileName_def Slice_equal_iff Slice_starts_with_iff str_letters c)
  moreover have "ParseFileName (str ''MANIFEST-'' @ ds @ rest) = None"
    using no' by (auto simp: ParseFileName_def Slice_equal_iff Slice_starts_with_iff str_letters)
  ultimately show ?thesis ..
qed

theorem ParseFileName_overflow_witness:
  "ParseFileName (str ''99999999999999999999'' @ str ''.ldb'') = None \<and> ParseFileName (str ''MANIFEST-'' @ str ''99999999999999999999'' @ str ''.ldb'') = None"
  by (rule ParseFileName_overflow) (simp_all add: is_digit_def digits_value_def str_def)

end
