(* ===== verification/Cache.thy ===== *)
theory Cache
  imports Bloom "HOL-Library.Multiset"
begin

text \<open>
  The block cache (\<^verbatim>\<open>util/cache.cc\<close>): a hash table of handles, a shard with its list in order of last use, and
  the sharded cache.  Handles live on a heap and are named by addresses; a freed one is \<open>None\<close>.  The chain of a
  bucket (linked by \<^verbatim>\<open>next_hash\<close>) is the list of its addresses, and so is the circular list headed by \<^verbatim>\<open>lru_\<close>, oldest
  entry first.  Calls of the deleter are recorded in the order they happen.  Counters are natural numbers:
  they count objects that are in memory.
\<close>

subsection \<open>Handles and the hash table\<close>

record 'v LRUHandle =
  lh_value :: 'v
  lh_charge :: nat
  lh_refs :: nat
  lh_hash :: u32
  lh_key :: bytes

type_synonym 'v heap = "nat \<Rightarrow> 'v LRUHandle option"

record HandleTable =
  ht_length :: nat
  ht_elems :: nat
  ht_list :: "nat list list"

definition ht_index :: "nat \<Rightarrow> u32 \<Rightarrow> nat" where
  "ht_index len hash = unat (hash AND (of_nat len - 1))"

definition lh_matches :: "'v heap \<Rightarrow> bytes \<Rightarrow> u32 \<Rightarrow> nat \<Rightarrow> bool" where
  "lh_matches hp key hash a \<longleftrightarrow> (case hp a of None \<Rightarrow> False | Some h \<Rightarrow> lh_hash h = hash \<and> key = lh_key h)"

fun find_slot :: "'v heap \<Rightarrow> bytes \<Rightarrow> u32 \<Rightarrow> nat list \<Rightarrow> nat" where
  "find_slot hp key hash [] = 0"
| "find_slot hp key hash (a # as) = (if \<not> lh_matches hp key hash a then Suc (find_slot hp key hash as) else 0)"

text \<open>The slot that \<^verbatim>\<open>FindPointer\<close> returns: a bucket and a position in its chain, the end of the chain if nothing matches.\<close>

definition FindPointer :: "'v heap \<Rightarrow> HandleTable \<Rightarrow> bytes \<Rightarrow> u32 \<Rightarrow> nat \<times> nat" where
  "FindPointer hp t key hash =
     (let i = ht_index (ht_length t) hash in (i, find_slot hp key hash (ht_list t ! i)))"

definition slot_get :: "HandleTable \<Rightarrow> nat \<times> nat \<Rightarrow> nat option" where
  "slot_get t = (\<lambda>(i, p). if p < length (ht_list t ! i) then Some (ht_list t ! i ! p) else None)"

function grow_length :: "nat \<Rightarrow> nat \<Rightarrow> nat" where
  "grow_length new_length elems = (if 0 < new_length \<and> new_length < elems then grow_length (new_length * 2) elems else new_length)"
  by pat_completeness auto
termination by (relation "measure (\<lambda>(n, e). e - n)") auto

declare grow_length.simps [simp del]

definition push_bucket :: "'v heap \<Rightarrow> nat list list \<Rightarrow> nat \<Rightarrow> nat list list" where
  "push_bucket hp new_list a =
     (let i = (case hp a of None \<Rightarrow> 0 | Some h \<Rightarrow> ht_index (length new_list) (lh_hash h))
      in new_list[i := a # new_list ! i])"

definition HandleTable_Resize :: "'v heap \<Rightarrow> HandleTable \<Rightarrow> HandleTable" where
  "HandleTable_Resize hp t =
     (let new_length = grow_length 4 (ht_elems t);
          new_list = foldl (foldl (push_bucket hp)) (replicate new_length []) (ht_list t)
      in t\<lparr>ht_list := new_list, ht_length := new_length\<rparr>)"

definition HandleTable_make :: HandleTable where
  "HandleTable_make = HandleTable_Resize (\<lambda>_. None :: unit LRUHandle option) \<lparr>ht_length = 0, ht_elems = 0, ht_list = []\<rparr>"

definition HandleTable_Lookup :: "'v heap \<Rightarrow> HandleTable \<Rightarrow> bytes \<Rightarrow> u32 \<Rightarrow> nat option" where
  "HandleTable_Lookup hp t key hash = slot_get t (FindPointer hp t key hash)"

definition HandleTable_Insert :: "'v heap \<Rightarrow> HandleTable \<Rightarrow> nat \<Rightarrow> 'v LRUHandle \<Rightarrow> nat option \<times> HandleTable" where
  "HandleTable_Insert hp t a h =
     (let (i, p) = FindPointer hp t (lh_key h) (lh_hash h);
          old = slot_get t (i, p);
          chain = ht_list t ! i;
          t = t\<lparr>ht_list := (ht_list t)[i := take p chain @ a # drop (Suc p) chain]\<rparr>
      in if old = None then
           let t = t\<lparr>ht_elems := ht_elems t + 1\<rparr>
           in (old, if ht_elems t > ht_length t then HandleTable_Resize hp t else t)
         else (old, t))"

definition HandleTable_Remove :: "'v heap \<Rightarrow> HandleTable \<Rightarrow> bytes \<Rightarrow> u32 \<Rightarrow> nat option \<times> HandleTable" where
  "HandleTable_Remove hp t key hash =
     (let (i, p) = FindPointer hp t key hash;
          result = slot_get t (i, p);
          chain = ht_list t ! i
      in if result \<noteq> None
         then (result, t\<lparr>ht_list := (ht_list t)[i := take p chain @ drop (Suc p) chain], ht_elems := ht_elems t - 1\<rparr>)
         else (result, t))"

subsection \<open>One shard\<close>

record 'v LRUCache =
  lc_capacity :: nat
  lc_usage :: nat
  lc_lru :: "nat list"
  lc_table :: HandleTable
  lc_heap :: "'v heap"
  lc_next :: nat
  lc_deleted :: "(bytes \<times> 'v) list"

definition LRUCache_make :: "'v LRUCache" where
  "LRUCache_make = \<lparr>lc_capacity = 0, lc_usage = 0, lc_lru = [], lc_table = HandleTable_make, lc_heap = (\<lambda>_. None),
     lc_next = 0, lc_deleted = []\<rparr>"

definition SetCapacity :: "'v LRUCache \<Rightarrow> nat \<Rightarrow> 'v LRUCache" where
  "SetCapacity c capacity = c\<lparr>lc_capacity := capacity\<rparr>"

definition LRU_Unref :: "'v LRUCache \<Rightarrow> nat \<Rightarrow> 'v LRUCache" where
  "LRU_Unref c e =
     (case lc_heap c e of
        None \<Rightarrow> c
      | Some h \<Rightarrow>
          let h = h\<lparr>lh_refs := lh_refs h - 1\<rparr>
          in if lh_refs h \<le> 0
             then c\<lparr>lc_usage := lc_usage c - lh_charge h, lc_deleted := lc_deleted c @ [(lh_key h, lh_value h)],
                    lc_heap := (lc_heap c)(e := None)\<rparr>
             else c\<lparr>lc_heap := (lc_heap c)(e \<mapsto> h)\<rparr>)"

definition LRU_Remove :: "'v LRUCache \<Rightarrow> nat \<Rightarrow> 'v LRUCache" where
  "LRU_Remove c e = c\<lparr>lc_lru := remove1 e (lc_lru c)\<rparr>"

definition LRU_Append :: "'v LRUCache \<Rightarrow> nat \<Rightarrow> 'v LRUCache" where
  "LRU_Append c e = c\<lparr>lc_lru := lc_lru c @ [e]\<rparr>"

definition LRUCache_Lookup :: "'v LRUCache \<Rightarrow> bytes \<Rightarrow> u32 \<Rightarrow> nat option \<times> 'v LRUCache" where
  "LRUCache_Lookup c key hash =
     (let e = HandleTable_Lookup (lc_heap c) (lc_table c) key hash
      in case e of
           None \<Rightarrow> (e, c)
         | Some a \<Rightarrow>
             let c = c\<lparr>lc_heap := (lc_heap c)(a := map_option (\<lambda>h. h\<lparr>lh_refs := lh_refs h + 1\<rparr>) (lc_heap c a))\<rparr>;
                 c = LRU_Remove c a;
                 c = LRU_Append c a
             in (e, c))"

definition LRUCache_Release :: "'v LRUCache \<Rightarrow> nat \<Rightarrow> 'v LRUCache" where
  "LRUCache_Release c handle = LRU_Unref c handle"

lemma LRU_Unref_frame [simp]:
  "lc_lru (LRU_Unref c a) = lc_lru c" "lc_table (LRU_Unref c a) = lc_table c" "lc_next (LRU_Unref c a) = lc_next c"
  "lc_capacity (LRU_Unref c a) = lc_capacity c"
  by (simp_all add: LRU_Unref_def Let_def split: option.split)

text \<open>The eviction loop: the list gets shorter in every turn.\<close>

function LRUCache_evict :: "'v LRUCache \<Rightarrow> 'v LRUCache" where
  "LRUCache_evict c =
     (if lc_usage c > lc_capacity c \<and> lc_lru c \<noteq> [] then
        let old = hd (lc_lru c);
            c' = LRU_Remove c old;
            c' = (case lc_heap c' old of
                    None \<Rightarrow> c'
                  | Some h \<Rightarrow> c'\<lparr>lc_table := snd (HandleTable_Remove (lc_heap c') (lc_table c') (lh_key h) (lh_hash h))\<rparr>)
        in LRUCache_evict (LRU_Unref c' old)
      else c)"
  by pat_completeness auto
termination
  by (relation "measure (\<lambda>c. length (lc_lru c))", simp)
    (auto simp: LRU_Remove_def length_remove1 split: option.split intro: diff_less)

declare LRUCache_evict.simps [simp del]

definition LRUCache_Insert :: "'v LRUCache \<Rightarrow> bytes \<Rightarrow> u32 \<Rightarrow> 'v \<Rightarrow> nat \<Rightarrow> nat \<times> 'v LRUCache" where
  "LRUCache_Insert c key hash val charge =
     (let e = lc_next c;
          h = \<lparr>lh_value = val, lh_charge = charge, lh_refs = 2, lh_hash = hash, lh_key = key\<rparr>;
          c = c\<lparr>lc_next := e + 1, lc_heap := (lc_heap c)(e \<mapsto> h)\<rparr>;
          c = LRU_Append c e;
          c = c\<lparr>lc_usage := lc_usage c + charge\<rparr>;
          (old, t) = HandleTable_Insert (lc_heap c) (lc_table c) e h;
          c = c\<lparr>lc_table := t\<rparr>;
          c = (case old of None \<Rightarrow> c | Some a \<Rightarrow> LRU_Unref (LRU_Remove c a) a);
          c = LRUCache_evict c
      in (e, c))"

definition LRUCache_Erase :: "'v LRUCache \<Rightarrow> bytes \<Rightarrow> u32 \<Rightarrow> 'v LRUCache" where
  "LRUCache_Erase c key hash =
     (let (e, t) = HandleTable_Remove (lc_heap c) (lc_table c) key hash;
          c = c\<lparr>lc_table := t\<rparr>
      in case e of None \<Rightarrow> c | Some a \<Rightarrow> LRU_Unref (LRU_Remove c a) a)"

text \<open>The destructor drops the cache's reference to every entry.\<close>

definition LRUCache_destroy :: "'v LRUCache \<Rightarrow> 'v LRUCache" where
  "LRUCache_destroy c = foldl LRU_Unref c (lc_lru c)"

subsection \<open>The sharded cache\<close>

definition kNumShardBits :: nat where
  "kNumShardBits = 4"

definition kNumShards :: nat where
  "kNumShards = 2 ^ kNumShardBits"

record 'v ShardedLRUCache =
  sc_shard :: "'v LRUCache list"
  sc_last_id :: u64

definition HashSlice :: "Slice \<Rightarrow> u32" where
  "HashSlice s = Hash s 0"

definition Shard :: "u32 \<Rightarrow> nat" where
  "Shard hash = unat (drop_bit (32 - kNumShardBits) hash)"

definition NewLRUCache :: "nat \<Rightarrow> 'v ShardedLRUCache" where
  "NewLRUCache capacity =
     (let per_shard = (capacity + (kNumShards - 1)) div kNumShards
      in \<lparr>sc_shard = replicate kNumShards (SetCapacity LRUCache_make per_shard), sc_last_id = 0\<rparr>)"

text \<open>A handle: the shard that owns it and its address there.\<close>

definition Cache_Insert :: "'v ShardedLRUCache \<Rightarrow> bytes \<Rightarrow> 'v \<Rightarrow> nat \<Rightarrow> (nat \<times> nat) \<times> 'v ShardedLRUCache" where
  "Cache_Insert c key val charge =
     (let hash = HashSlice key;
          i = Shard hash;
          (e, s) = LRUCache_Insert (sc_shard c ! i) key hash val charge
      in ((i, e), c\<lparr>sc_shard := (sc_shard c)[i := s]\<rparr>))"

definition Cache_Lookup :: "'v ShardedLRUCache \<Rightarrow> bytes \<Rightarrow> (nat \<times> nat) option \<times> 'v ShardedLRUCache" where
  "Cache_Lookup c key =
     (let hash = HashSlice key;
          i = Shard hash;
          (e, s) = LRUCache_Lookup (sc_shard c ! i) key hash
      in (map_option (Pair i) e, c\<lparr>sc_shard := (sc_shard c)[i := s]\<rparr>))"

definition Cache_Release :: "'v ShardedLRUCache \<Rightarrow> nat \<times> nat \<Rightarrow> 'v ShardedLRUCache" where
  "Cache_Release c = (\<lambda>(i, e).
     case lc_heap (sc_shard c ! i) e of
       None \<Rightarrow> c
     | Some h \<Rightarrow> let j = Shard (lh_hash h) in c\<lparr>sc_shard := (sc_shard c)[j := LRUCache_Release (sc_shard c ! j) e]\<rparr>)"

definition Cache_Erase :: "'v ShardedLRUCache \<Rightarrow> bytes \<Rightarrow> 'v ShardedLRUCache" where
  "Cache_Erase c key =
     (let hash = HashSlice key; i = Shard hash
      in c\<lparr>sc_shard := (sc_shard c)[i := LRUCache_Erase (sc_shard c ! i) key hash]\<rparr>)"

definition Cache_Value :: "'v ShardedLRUCache \<Rightarrow> nat \<times> nat \<Rightarrow> 'v option" where
  "Cache_Value c = (\<lambda>(i, e). map_option lh_value (lc_heap (sc_shard c ! i) e))"

definition NewId :: "'v ShardedLRUCache \<Rightarrow> u64 \<times> 'v ShardedLRUCache" where
  "NewId c = (let n = sc_last_id c + 1 in (n, c\<lparr>sc_last_id := n\<rparr>))"

subsection \<open>The hash table is a set of handles\<close>

definition tbl_mset :: "HandleTable \<Rightarrow> nat multiset" where
  "tbl_mset t = mset (concat (ht_list t))"

definition bucket_ok :: "'v heap \<Rightarrow> nat list list \<Rightarrow> bool" where
  "bucket_ok hp bs \<longleftrightarrow> (\<forall>i < length bs. \<forall>a \<in> set (bs ! i). \<exists>h. hp a = Some h \<and> ht_index (length bs) (lh_hash h) = i)"

definition keys_distinct :: "'v heap \<Rightarrow> nat multiset \<Rightarrow> bool" where
  "keys_distinct hp M \<longleftrightarrow> (\<forall>a. count M a \<le> 1) \<and>
     (\<forall>a b h g. a \<in># M \<longrightarrow> b \<in># M \<longrightarrow> hp a = Some h \<longrightarrow> hp b = Some g \<longrightarrow>
        lh_hash h = lh_hash g \<longrightarrow> lh_key h = lh_key g \<longrightarrow> a = b)"

definition ht_ok :: "'v heap \<Rightarrow> HandleTable \<Rightarrow> bool" where
  "ht_ok hp t \<longleftrightarrow> (\<exists>k. ht_length t = 2 ^ k) \<and> length (ht_list t) = ht_length t \<and> ht_elems t = size (tbl_mset t)
     \<and> bucket_ok hp (ht_list t) \<and> keys_distinct hp (tbl_mset t)"

lemma keys_distinct_mono:
  assumes "N \<subseteq># M" and "keys_distinct hp M"
  shows "keys_distinct hp N"
proof -
  have "count N a \<le> 1" for a
    using mset_subset_eq_count [OF assms(1), of a] assms(2) unfolding keys_distinct_def by (metis le_trans)
  moreover have "a \<in># M" if "a \<in># N" for a using mset_subset_eqD [OF assms(1) that] .
  ultimately show ?thesis using assms(2) unfolding keys_distinct_def by blast
qed

lemma keys_distinct_add:
  assumes "keys_distinct hp M" and "a \<notin># M" and "hp a = Some h"
    and "\<And>b g. b \<in># M \<Longrightarrow> hp b = Some g \<Longrightarrow> lh_hash g = lh_hash h \<Longrightarrow> lh_key g = lh_key h \<Longrightarrow> b = a"
  shows "keys_distinct hp (M + {#a#})"
proof -
  have "count (M + {#a#}) b \<le> 1" for b
    using assms(1,2) by (cases "b = a") (simp_all add: keys_distinct_def not_in_iff)
  moreover have "x = y" if "x \<in># M + {#a#}" "y \<in># M + {#a#}" "hp x = Some g" "hp y = Some g'" "lh_hash g = lh_hash g'"
    "lh_key g = lh_key g'" for x y g g'
  proof (cases "x = a \<or> y = a")
    case True
    then have "x = a \<and> y \<in># M \<or> y = a \<and> x \<in># M \<or> x = y" using that(1,2) by auto
    then show ?thesis using that(3-6) assms(3,4) by (metis option.inject)
  next
    case False
    then have "x \<in># M" "y \<in># M" using that(1,2) by auto
    then show ?thesis using that(3-6) assms(1) unfolding keys_distinct_def by blast
  qed
  ultimately show ?thesis unfolding keys_distinct_def by blast
qed

lemma ht_index_less: "ht_index (2 ^ k) hash < 2 ^ k"
proof (cases "k < 32")
  case True
  have le: "hash AND (of_nat (2 ^ k) - 1) = take_bit k hash"
    using mask_eq_exp_minus_1 [of k, where 'a = "32 word"] by (simp add: take_bit_eq_mask)
  show ?thesis
    unfolding ht_index_def le unsigned_take_bit_eq by (rule take_bit_nat_less_exp)
next
  case False
  then have "(2 :: nat) ^ 32 \<le> 2 ^ k" by (intro power_increasing) auto
  then show ?thesis using unsigned_less [of "hash AND (of_nat (2 ^ k) - 1)", where 'a = nat] unfolding ht_index_def by simp
qed

lemma mset_concat_update:
  "i < length xs \<Longrightarrow> mset (concat (xs[i := ys])) + mset (xs ! i) = mset (concat xs) + mset ys"
proof (induction xs arbitrary: i)
  case (Cons x xs)
  then show ?case by (cases i) (auto simp: ac_simps)
qed simp

lemma in_concat_nth: "i < length xs \<Longrightarrow> a \<in> set (xs ! i) \<Longrightarrow> a \<in> set (concat xs)"
  by (auto intro: nth_mem)

lemma concat_nth_ex: "a \<in> set (concat xs) \<Longrightarrow> \<exists>i < length xs. a \<in> set (xs ! i)"
  by (metis in_set_conv_nth UN_E set_concat)

lemma find_slot_le: "find_slot hp key hash as \<le> length as"
  by (induction as) auto

lemma find_slot_hit: "find_slot hp key hash as < length as \<Longrightarrow> lh_matches hp key hash (as ! find_slot hp key hash as)"
  by (induction as) (auto split: if_splits)

lemma find_slot_miss: "find_slot hp key hash as = length as \<longleftrightarrow> (\<forall>a \<in> set as. \<not> lh_matches hp key hash a)"
  by (induction as) auto

lemma tbl_in_bucket:
  assumes "ht_ok hp t" and "a \<in># tbl_mset t"
  obtains h where "hp a = Some h" and "ht_index (ht_length t) (lh_hash h) < length (ht_list t)"
    and "a \<in> set (ht_list t ! ht_index (ht_length t) (lh_hash h))"
proof -
  have "a \<in> set (concat (ht_list t))" using assms(2) by (simp add: tbl_mset_def)
  then obtain i where "i < length (ht_list t)" "a \<in> set (ht_list t ! i)" by (metis concat_nth_ex)
  with assms(1) that show thesis unfolding ht_ok_def bucket_ok_def by metis
qed

text \<open>The slot of a key holds the only handle of the table that matches it.\<close>

lemma HandleTable_Lookup_iff:
  assumes "ht_ok hp t"
  shows "HandleTable_Lookup hp t key hash = Some a \<longleftrightarrow> a \<in># tbl_mset t \<and> lh_matches hp key hash a"
proof -
  let ?i = "ht_index (ht_length t) hash"
  let ?c = "ht_list t ! ?i"
  let ?p = "find_slot hp key hash ?c"
  have i: "?i < length (ht_list t)" using assms ht_index_less by (auto simp: ht_ok_def)
  have eq: "HandleTable_Lookup hp t key hash = (if ?p < length ?c then Some (?c ! ?p) else None)"
    by (simp add: HandleTable_Lookup_def slot_get_def FindPointer_def Let_def)
  have uniq: "a = b" if "a \<in># tbl_mset t" "b \<in># tbl_mset t" "lh_matches hp key hash a" "lh_matches hp key hash b" for a b
    using assms that by (auto simp: ht_ok_def keys_distinct_def lh_matches_def split: option.splits)
  show ?thesis
  proof
    assume l: "HandleTable_Lookup hp t key hash = Some a"
    then have "?p < length ?c" "a = ?c ! ?p" by (auto simp: eq split: if_splits)
    then show "a \<in># tbl_mset t \<and> lh_matches hp key hash a"
      using find_slot_hit in_concat_nth [OF i, of a] by (auto simp: tbl_mset_def)
  next
    assume r: "a \<in># tbl_mset t \<and> lh_matches hp key hash a"
    obtain h where "hp a = Some h" "a \<in> set (ht_list t ! ht_index (ht_length t) (lh_hash h))"
      using tbl_in_bucket [OF assms] r by metis
    then have "a \<in> set ?c" using r by (auto simp: lh_matches_def)
    then have p: "?p < length ?c" using r find_slot_miss [of hp key hash ?c] find_slot_le [of hp key hash ?c]
      by (metis le_neq_implies_less)
    then have "?c ! ?p \<in># tbl_mset t" "lh_matches hp key hash (?c ! ?p)"
      using find_slot_hit in_concat_nth [OF i nth_mem [OF p]] by (auto simp: tbl_mset_def)
    with uniq r p show "HandleTable_Lookup hp t key hash = Some a" by (simp add: eq)
  qed
qed

lemma ht_ok_cong:
  fixes hp :: "'v heap" and hp' :: "'w heap"
  assumes "ht_ok hp t"
    and "\<And>a h. a \<in># tbl_mset t \<Longrightarrow> hp a = Some h \<Longrightarrow> \<exists>g. hp' a = Some g \<and> lh_hash g = lh_hash h \<and> lh_key g = lh_key h"
  shows "ht_ok hp' t"
proof -
  have "bucket_ok hp' (ht_list t)" unfolding bucket_ok_def
  proof (intro allI impI ballI)
    fix i a assume ia: "i < length (ht_list t)" "a \<in> set (ht_list t ! i)"
    then obtain h where "hp a = Some h" "ht_index (length (ht_list t)) (lh_hash h) = i"
      using assms(1) unfolding ht_ok_def bucket_ok_def by metis
    moreover have "a \<in># tbl_mset t" using in_concat_nth [OF ia] by (simp add: tbl_mset_def)
    ultimately show "\<exists>h. hp' a = Some h \<and> ht_index (length (ht_list t)) (lh_hash h) = i" using assms(2) by metis
  qed
  moreover have "keys_distinct hp' (tbl_mset t)" unfolding keys_distinct_def
  proof (intro conjI allI impI)
    show "count (tbl_mset t) a \<le> 1" for a using assms(1) by (simp add: ht_ok_def keys_distinct_def)
    fix a b h g
    assume ab: "a \<in># tbl_mset t" "b \<in># tbl_mset t" "hp' a = Some h" "hp' b = Some g" "lh_hash h = lh_hash g" "lh_key h = lh_key g"
    obtain h0 g0 where "hp a = Some h0" "hp b = Some g0" using tbl_in_bucket [OF assms(1)] ab(1,2) by metis
    with ab assms(2) [OF ab(1)] assms(2) [OF ab(2)] show "a = b"
      using assms(1) unfolding ht_ok_def keys_distinct_def by (metis option.inject)
  qed
  ultimately show ?thesis using assms(1) by (simp add: ht_ok_def)
qed

lemma bucket_ok_update:
  assumes "bucket_ok hp bs" and "i < length bs"
    and "\<And>a. a \<in> set ys \<Longrightarrow> a \<in> set (bs ! i) \<or> (\<exists>h. hp a = Some h \<and> ht_index (length bs) (lh_hash h) = i)"
  shows "bucket_ok hp (bs[i := ys])"
  using assms unfolding bucket_ok_def by (auto simp: nth_list_update)

text \<open>Rehashing keeps the handles.\<close>

lemma push_buckets:
  assumes "bucket_ok hp bs" and "length bs = 2 ^ k" and "\<forall>a \<in> set as. hp a \<noteq> None"
  shows "bucket_ok hp (foldl (push_bucket hp) bs as) \<and> length (foldl (push_bucket hp) bs as) = 2 ^ k
    \<and> mset (concat (foldl (push_bucket hp) bs as)) = mset (concat bs) + mset as"
  using assms
proof (induction as arbitrary: bs)
  case (Cons a as)
  then obtain h where h: "hp a = Some h" by auto
  let ?i = "ht_index (length bs) (lh_hash h)"
  have i: "?i < length bs" using Cons.prems(2) ht_index_less by simp
  have push: "push_bucket hp bs a = bs[?i := a # bs ! ?i]" by (simp add: push_bucket_def h Let_def)
  have "mset (concat (push_bucket hp bs a)) = mset (concat bs) + {#a#}"
    using mset_concat_update [OF i, of "a # bs ! ?i"] by (simp add: push)
  moreover have "bucket_ok hp (push_bucket hp bs a)"
    unfolding push using Cons.prems(1) i h by (intro bucket_ok_update) auto
  ultimately show ?case using Cons.IH [of "push_bucket hp bs a"] Cons.prems by (simp add: push)
qed simp

lemma foldl_foldl: "foldl (foldl f) z xss = foldl f z (concat xss)"
  by (induction xss arbitrary: z) auto

lemma grow_length_power: "\<exists>k. grow_length (2 ^ j) e = 2 ^ k"
proof (induction "2 ^ j :: nat" e arbitrary: j rule: grow_length.induct)
  case (1 e)
  then show ?case using "1.hyps" [of "Suc j"]
    by (subst grow_length.simps) (auto simp: mult.commute)
qed

lemma HandleTable_Resize_ok:
  assumes "\<forall>a \<in># tbl_mset t. hp a \<noteq> None" and "ht_elems t = size (tbl_mset t)" and "keys_distinct hp (tbl_mset t)"
  shows "ht_ok hp (HandleTable_Resize hp t)" and "tbl_mset (HandleTable_Resize hp t) = tbl_mset t"
proof -
  obtain k where k: "grow_length 4 (ht_elems t) = 2 ^ k" using grow_length_power [of 2 "ht_elems t"] by auto
  have "bucket_ok hp (replicate (2 ^ k) [])" by (simp add: bucket_ok_def)
  note P = push_buckets [OF this length_replicate, of "concat (ht_list t)"]
  have R: "HandleTable_Resize hp t
      = t\<lparr>ht_list := foldl (push_bucket hp) (replicate (2 ^ k) []) (concat (ht_list t)), ht_length := 2 ^ k\<rparr>"
    by (simp add: HandleTable_Resize_def Let_def k foldl_foldl)
  have z: "concat (replicate n []) = []" for n :: nat by (induction n) auto
  show m: "tbl_mset (HandleTable_Resize hp t) = tbl_mset t"
    using P assms(1) by (simp add: R tbl_mset_def z)
  show "ht_ok hp (HandleTable_Resize hp t)"
    unfolding ht_ok_def m using P assms by (auto simp: R tbl_mset_def)
qed

lemma mset_split_nth: "p < length c \<Longrightarrow> mset (take p c @ drop (Suc p) c) + {#c ! p#} = mset c"
  by (metis add_mset_add_single id_take_nth_drop mset.simps(2) mset_append union_mset_add_mset_right)

lemma HandleTable_Remove_ok:
  assumes "ht_ok hp t"
  shows "fst (HandleTable_Remove hp t key hash) = HandleTable_Lookup hp t key hash"
    and "ht_ok hp (snd (HandleTable_Remove hp t key hash))"
    and "tbl_mset (snd (HandleTable_Remove hp t key hash))
      = tbl_mset t - (case HandleTable_Lookup hp t key hash of None \<Rightarrow> {#} | Some a \<Rightarrow> {#a#})"
proof -
  let ?i = "ht_index (ht_length t) hash"
  let ?c = "ht_list t ! ?i"
  let ?p = "find_slot hp key hash ?c"
  let ?t = "snd (HandleTable_Remove hp t key hash)"
  have i: "?i < length (ht_list t)" using assms ht_index_less by (auto simp: ht_ok_def)
  have L: "HandleTable_Lookup hp t key hash = (if ?p < length ?c then Some (?c ! ?p) else None)"
    by (simp add: HandleTable_Lookup_def slot_get_def FindPointer_def Let_def)
  show "fst (HandleTable_Remove hp t key hash) = HandleTable_Lookup hp t key hash"
    by (simp add: L HandleTable_Remove_def FindPointer_def slot_get_def Let_def)
  have T: "?t = (if ?p < length ?c
      then t\<lparr>ht_list := (ht_list t)[?i := take ?p ?c @ drop (Suc ?p) ?c], ht_elems := ht_elems t - 1\<rparr> else t)"
    by (simp add: HandleTable_Remove_def FindPointer_def slot_get_def Let_def)
  have "ht_ok hp ?t \<and> tbl_mset ?t = tbl_mset t - (if ?p < length ?c then {#?c ! ?p#} else {#})"
  proof (cases "?p < length ?c")
    case True
    define r where "r = take ?p ?c @ drop (Suc ?p) ?c"
    define t' where "t' = t\<lparr>ht_list := (ht_list t)[?i := r], ht_elems := ht_elems t - 1\<rparr>"
    have t: "?t = t'" using True by (simp add: T t'_def r_def)
    have "mset (concat ((ht_list t)[?i := r])) + (mset r + {#?c ! ?p#}) = mset (concat (ht_list t)) + mset r"
      using mset_concat_update [OF i, of r] mset_split_nth [OF True] by (simp only: r_def)
    then have m: "tbl_mset t' + {#?c ! ?p#} = tbl_mset t" by (simp add: tbl_mset_def t'_def)
    have "bucket_ok hp (ht_list t')"
      unfolding t'_def using assms i by simp (intro bucket_ok_update; auto simp: ht_ok_def r_def dest: in_set_takeD in_set_dropD)
    moreover have "keys_distinct hp (tbl_mset t')"
      using assms keys_distinct_mono [OF mset_subset_eq_add_left [of "tbl_mset t'" "{#?c ! ?p#}"], of hp]
      unfolding m ht_ok_def by blast
    moreover have "ht_elems t' = size (tbl_mset t')"
      using assms arg_cong [OF m, of size] by (simp add: ht_ok_def t'_def)
    ultimately have "ht_ok hp t'" using assms unfolding ht_ok_def by (simp add: t'_def)
    moreover have "tbl_mset t' = tbl_mset t - {#?c ! ?p#}" unfolding m [symmetric] by simp
    ultimately show ?thesis using True by (simp only: t if_True)
  qed (use assms in \<open>simp add: T\<close>)
  then show "ht_ok hp ?t"
    and "tbl_mset ?t = tbl_mset t - (case HandleTable_Lookup hp t key hash of None \<Rightarrow> {#} | Some a \<Rightarrow> {#a#})"
    by (simp_all add: L)
qed

lemma HandleTable_Insert_ok:
  assumes "ht_ok hp t" and "hp a = Some h" and "a \<notin># tbl_mset t"
  shows "fst (HandleTable_Insert hp t a h) = HandleTable_Lookup hp t (lh_key h) (lh_hash h)"
    and "ht_ok hp (snd (HandleTable_Insert hp t a h))"
    and "tbl_mset (snd (HandleTable_Insert hp t a h))
      = tbl_mset t - (case HandleTable_Lookup hp t (lh_key h) (lh_hash h) of None \<Rightarrow> {#} | Some b \<Rightarrow> {#b#}) + {#a#}"
proof -
  let ?i = "ht_index (ht_length t) (lh_hash h)"
  let ?c = "ht_list t ! ?i"
  let ?p = "find_slot hp (lh_key h) (lh_hash h) ?c"
  let ?L = "HandleTable_Lookup hp t (lh_key h) (lh_hash h)"
  let ?old = "case ?L of None \<Rightarrow> {#} | Some b \<Rightarrow> {#b#}"
  have i: "?i < length (ht_list t)" and len: "length (ht_list t) = ht_length t"
    using assms(1) ht_index_less by (auto simp: ht_ok_def)
  have L: "?L = (if ?p < length ?c then Some (?c ! ?p) else None)"
    by (simp add: HandleTable_Lookup_def slot_get_def FindPointer_def Let_def)
  define r where "r = take ?p ?c @ drop (Suc ?p) ?c"
  define c' where "c' = take ?p ?c @ a # drop (Suc ?p) ?c"
  define t1 where "t1 = t\<lparr>ht_list := (ht_list t)[?i := c']\<rparr>"
  define t2 where "t2 = t1\<lparr>ht_elems := ht_elems t + 1\<rparr>"
  have I: "HandleTable_Insert hp t a h = (?L, if ?L = None
      then (if ht_elems t2 > ht_length t2 then HandleTable_Resize hp t2 else t2) else t1)"
    by (simp add: HandleTable_Insert_def L t1_def t2_def c'_def FindPointer_def slot_get_def Let_def)
  then show "fst (HandleTable_Insert hp t a h) = ?L" by simp
  have c': "mset c' = mset r + {#a#}" by (simp add: c'_def r_def)
  have r: "mset r + ?old = mset ?c"
    using mset_split_nth [of ?p ?c] find_slot_le [of hp "lh_key h" "lh_hash h" ?c] by (auto simp: r_def L)
  have "mset (concat ((ht_list t)[?i := c'])) + (mset r + ?old) = mset (concat (ht_list t)) + (mset r + {#a#})"
    using mset_concat_update [OF i, of c'] by (simp only: r c')
  then have m: "tbl_mset t1 + ?old = tbl_mset t + {#a#}"
    by (simp add: tbl_mset_def t1_def)
  have sub: "?old \<subseteq># tbl_mset t"
    using HandleTable_Lookup_iff [OF assms(1)] by (auto split: option.split)
  have m': "tbl_mset t1 = tbl_mset t - ?old + {#a#}"
    using m sub by (metis add_diff_cancel_right' subset_mset.add_diff_assoc2)
  have kd: "keys_distinct hp (tbl_mset t1)"
  proof -
    have "b = a" if "b \<in># tbl_mset t1" "lh_matches hp (lh_key h) (lh_hash h) b" for b
    proof (rule ccontr)
      assume "b \<noteq> a"
      with that(1) have b: "b \<in># tbl_mset t - ?old" by (simp add: m')
      then have "?L = Some b" using that(2) HandleTable_Lookup_iff [OF assms(1)] by (meson in_diffD)
      moreover have "count (tbl_mset t) b \<le> 1" using assms(1) by (simp add: ht_ok_def keys_distinct_def)
      ultimately show False using b by (simp add: in_diff_count)
    qed
    moreover have "keys_distinct hp (tbl_mset t - ?old)"
      using assms(1) keys_distinct_mono [OF diff_subset_eq_self] by (auto simp: ht_ok_def)
    moreover have "a \<notin># tbl_mset t - ?old" using assms(3) by (meson in_diffD)
    ultimately show ?thesis unfolding m' using assms(2) by (intro keys_distinct_add) (auto simp: lh_matches_def)
  qed
  have bk: "bucket_ok hp (ht_list t1)"
    unfolding t1_def using assms(1,2) i len
    by simp (intro bucket_ok_update; auto simp: ht_ok_def c'_def dest: in_set_takeD in_set_dropD)
  have t2: "tbl_mset t2 = tbl_mset t1" by (simp add: t2_def tbl_mset_def)
  have "ht_ok hp (snd (HandleTable_Insert hp t a h)) \<and> tbl_mset (snd (HandleTable_Insert hp t a h)) = tbl_mset t1"
  proof (cases "?L")
    case (Some b)
    then have "size (tbl_mset t1) = size (tbl_mset t)" using arg_cong [OF m, of size] by simp
    then have "ht_ok hp t1" using assms(1) kd bk by (simp add: ht_ok_def t1_def)
    then show ?thesis using Some by (simp add: I)
  next
    case None
    then have sz: "ht_elems t2 = size (tbl_mset t2)" using assms(1) arg_cong [OF m, of size] by (simp add: t2) (simp add: t2_def ht_ok_def)
    have "ht_ok hp t2" using assms(1) kd bk sz unfolding ht_ok_def t2 by (simp add: t2_def t1_def)
    moreover have "\<forall>b \<in># tbl_mset t2. hp b \<noteq> None" using tbl_in_bucket [OF \<open>ht_ok hp t2\<close>] by blast
    note HandleTable_Resize_ok [OF this sz kd [folded t2]]
    ultimately show ?thesis using None by (simp add: I t2)
  qed
  then show "ht_ok hp (snd (HandleTable_Insert hp t a h))"
    and "tbl_mset (snd (HandleTable_Insert hp t a h)) = tbl_mset t - ?old + {#a#}"
    by (simp_all add: m')
qed

lemma HandleTable_make_ok: "ht_ok hp HandleTable_make" "tbl_mset HandleTable_make = {#}"
proof -
  let ?t = "\<lparr>ht_length = 0, ht_elems = 0, ht_list = []\<rparr>"
  have "ht_ok (\<lambda>_. None :: unit LRUHandle option) HandleTable_make" "tbl_mset HandleTable_make = tbl_mset ?t"
    unfolding HandleTable_make_def by (rule HandleTable_Resize_ok; simp add: tbl_mset_def keys_distinct_def)+
  then show "tbl_mset HandleTable_make = {#}" and "ht_ok hp HandleTable_make"
    using ht_ok_cong [of "\<lambda>_. None :: unit LRUHandle option" HandleTable_make hp] by (auto simp: tbl_mset_def)
qed

subsection \<open>Reference counts and usage of a shard\<close>

text \<open>\<open>rc a\<close> is the number of references to the handle at \<open>a\<close>; the usage is the sum of the charges of all handles that
  are alive, and every handle ever allocated is alive or was handed to the deleter.\<close>

definition live_charge :: "'v heap \<Rightarrow> nat \<Rightarrow> nat" where
  "live_charge hp n = (\<Sum>a < n. case hp a of None \<Rightarrow> 0 | Some h \<Rightarrow> lh_charge h)"

definition ref_ok :: "'v LRUHandle option \<Rightarrow> nat \<Rightarrow> bool" where
  "ref_ok x n \<longleftrightarrow> (case x of None \<Rightarrow> n = 0 | Some h \<Rightarrow> lh_refs h = n \<and> 0 < n)"

lemma ref_ok_simps [simp]: "ref_ok None n \<longleftrightarrow> n = 0" "ref_ok (Some h) n \<longleftrightarrow> lh_refs h = n \<and> 0 < n"
  by (simp_all add: ref_ok_def)

definition live :: "'v heap \<Rightarrow> nat \<Rightarrow> nat set" where
  "live hp n = {a. a < n \<and> hp a \<noteq> None}"

lemma live_finite [simp]: "finite (live hp n)"
  by (simp add: live_def)

definition lc_counts :: "'v LRUCache \<Rightarrow> (nat \<Rightarrow> nat) \<Rightarrow> bool" where
  "lc_counts c rc \<longleftrightarrow> (\<forall>a. ref_ok (lc_heap c a) (rc a)) \<and> (\<forall>a \<ge> lc_next c. lc_heap c a = None)
     \<and> lc_usage c = live_charge (lc_heap c) (lc_next c)
     \<and> length (lc_deleted c) + card (live (lc_heap c) (lc_next c)) = lc_next c"

lemma lc_countsD:
  assumes "lc_counts c rc"
  shows "lc_heap c a = None \<longleftrightarrow> rc a = 0" and "lc_heap c a = Some h \<Longrightarrow> lh_refs h = rc a"
    and "lc_heap c a = Some h \<Longrightarrow> a < lc_next c"
proof -
  have a: "ref_ok (lc_heap c a) (rc a)"
    using assms by (simp add: lc_counts_def)
  then show "lc_heap c a = None \<longleftrightarrow> rc a = 0" and "lc_heap c a = Some h \<Longrightarrow> lh_refs h = rc a"
    by (cases "lc_heap c a"; auto)+
  show "a < lc_next c" if "lc_heap c a = Some h"
    using assms that unfolding lc_counts_def by (metis not_le option.distinct(1))
qed

lemma live_charge_upd:
  assumes "a < n"
  shows "live_charge (hp(a := x)) n + (case hp a of None \<Rightarrow> 0 | Some h \<Rightarrow> lh_charge h)
    = live_charge hp n + (case x of None \<Rightarrow> 0 | Some h \<Rightarrow> lh_charge h)"
  using assms unfolding live_charge_def by (simp add: sum.remove [of "{..<n}" a])

lemma lc_counts_heap:
  assumes "lc_counts c rc" and "lc_heap c a = Some h" and "0 < lh_refs g" and "lh_charge g = lh_charge h"
  shows "lc_counts (c\<lparr>lc_heap := (lc_heap c)(a \<mapsto> g)\<rparr>) (rc(a := lh_refs g))"
proof -
  have a: "a < lc_next c" by (rule lc_countsD(3) [OF assms(1,2)])
  have "live ((lc_heap c)(a \<mapsto> g)) (lc_next c) = live (lc_heap c) (lc_next c)"
    using assms(2) by (auto simp: live_def)
  moreover have "live_charge ((lc_heap c)(a \<mapsto> g)) (lc_next c) = live_charge (lc_heap c) (lc_next c)"
    using live_charge_upd [OF a, of "lc_heap c" "Some g"] assms(2,4) by simp
  ultimately show ?thesis using assms a unfolding lc_counts_def by auto
qed

lemma LRU_Unref_counts:
  assumes "lc_counts c rc" and "0 < rc a"
  shows "lc_counts (LRU_Unref c a) (rc(a := rc a - 1))"
proof -
  obtain h where h: "lc_heap c a = Some h" using lc_countsD(1) [OF assms(1), of a] assms(2) by auto
  have r: "lh_refs h = rc a" and a: "a < lc_next c" using lc_countsD(2,3) [OF assms(1) h] by auto
  show ?thesis
  proof (cases "rc a = 1")
    case False
    then have "LRU_Unref c a = c\<lparr>lc_heap := (lc_heap c)(a \<mapsto> h\<lparr>lh_refs := rc a - 1\<rparr>)\<rparr>"
      using h r assms(2) by (simp add: LRU_Unref_def Let_def)
    then show ?thesis using lc_counts_heap [OF assms(1) h, of "h\<lparr>lh_refs := rc a - 1\<rparr>"] False assms(2) by simp
  next
    case True
    then have U: "LRU_Unref c a = c\<lparr>lc_usage := lc_usage c - lh_charge h,
        lc_deleted := lc_deleted c @ [(lh_key h, lh_value h)], lc_heap := (lc_heap c)(a := None)\<rparr>"
      using h r by (simp add: LRU_Unref_def Let_def)
    have "live ((lc_heap c)(a := None)) (lc_next c) = live (lc_heap c) (lc_next c) - {a}" by (auto simp: live_def)
    moreover have "a \<in> live (lc_heap c) (lc_next c)" using a h by (simp add: live_def)
    ultimately have "Suc (card (live ((lc_heap c)(a := None)) (lc_next c))) = card (live (lc_heap c) (lc_next c))"
      by (metis card_Suc_Diff1 live_finite)
    moreover have "lc_usage c - lh_charge h = live_charge ((lc_heap c)(a := None)) (lc_next c)"
      using live_charge_upd [OF a, of "lc_heap c" None] h assms(1) by (simp add: lc_counts_def)
    ultimately show ?thesis using assms(1) True unfolding lc_counts_def U by auto
  qed
qed

text \<open>What an \<^verbatim>\<open>Unref\<close> leaves of the other handles.\<close>

lemma LRU_Unref_heap: "b \<noteq> a \<Longrightarrow> lc_heap (LRU_Unref c a) b = lc_heap c b"
  by (simp add: LRU_Unref_def Let_def split: option.split)

subsection \<open>The invariant of a shard\<close>

text \<open>\<open>hs\<close> are the handles that clients hold, with multiplicity.\<close>

definition lc_ok :: "'v LRUCache \<Rightarrow> nat multiset \<Rightarrow> bool" where
  "lc_ok c hs \<longleftrightarrow> ht_ok (lc_heap c) (lc_table c) \<and> mset (lc_lru c) = tbl_mset (lc_table c)
     \<and> lc_counts c (count (mset (lc_lru c) + hs))"

lemma lc_okD:
  assumes "lc_ok c hs"
  shows "ht_ok (lc_heap c) (lc_table c)" and "mset (lc_lru c) = tbl_mset (lc_table c)"
    and "lc_counts c (count (mset (lc_lru c) + hs))"
  using assms unfolding lc_ok_def by blast+

text \<open>\<open>heap_le hp' hp\<close>: the handles of \<open>hp'\<close> are handles of \<open>hp\<close>, with the same entry.\<close>

definition same_entry :: "'v LRUHandle \<Rightarrow> 'v LRUHandle \<Rightarrow> bool" where
  "same_entry g h \<longleftrightarrow> lh_value g = lh_value h \<and> lh_key g = lh_key h \<and> lh_hash g = lh_hash h \<and> lh_charge g = lh_charge h"

definition heap_le :: "'v heap \<Rightarrow> 'v heap \<Rightarrow> bool" where
  "heap_le hp' hp \<longleftrightarrow> (\<forall>a g. hp' a = Some g \<longrightarrow> (\<exists>h. hp a = Some h \<and> same_entry g h))"

lemma heap_le_refl [simp]: "heap_le hp hp"
  by (simp add: heap_le_def same_entry_def)

lemma heap_le_trans: "heap_le a b \<Longrightarrow> heap_le b c \<Longrightarrow> heap_le a c"
  unfolding heap_le_def same_entry_def by metis

lemma heap_leE:
  assumes "heap_le hp' hp" and "hp' a \<noteq> None"
  obtains g h where "hp' a = Some g" and "hp a = Some h" and "same_entry g h"
  using assms unfolding heap_le_def by blast

lemma heap_le_matches: "heap_le hp' hp \<Longrightarrow> hp' a \<noteq> None \<Longrightarrow> lh_matches hp' key hash a = lh_matches hp key hash a"
  by (erule (1) heap_leE) (simp add: lh_matches_def same_entry_def)

lemma heap_le_value: "heap_le hp' hp \<Longrightarrow> hp' a \<noteq> None \<Longrightarrow> map_option lh_value (hp' a) = map_option lh_value (hp a)"
  by (erule (1) heap_leE) (simp add: same_entry_def)

lemma lh_matches_key: "lh_matches hp k x a \<Longrightarrow> lh_matches hp k' x' a \<Longrightarrow> k = k'"
  by (auto simp: lh_matches_def split: option.splits)

lemma LRU_Unref_le: "heap_le (lc_heap (LRU_Unref c a)) (lc_heap c)"
  by (auto simp: heap_le_def same_entry_def LRU_Unref_def Let_def split: option.splits if_splits)

lemma ht_ok_le:
  assumes "ht_ok hp t" and "heap_le hp' hp" and "\<And>a. a \<in># tbl_mset t \<Longrightarrow> hp' a \<noteq> None"
  shows "ht_ok hp' t"
proof (rule ht_ok_cong [OF assms(1)])
  fix a h assume a: "a \<in># tbl_mset t" "hp a = Some h"
  obtain g where "hp' a = Some g" using assms(3) [OF a(1)] by auto
  with assms(2) a(2) show "\<exists>g. hp' a = Some g \<and> lh_hash g = lh_hash h \<and> lh_key g = lh_key h"
    unfolding heap_le_def same_entry_def by (metis option.inject)
qed

lemma lc_counts_frame [simp]:
  "lc_counts (c\<lparr>lc_lru := l\<rparr>) rc = lc_counts c rc" "lc_counts (c\<lparr>lc_table := t\<rparr>) rc = lc_counts c rc"
  by (simp_all add: lc_counts_def)

lemma lc_upd_swap: "c\<lparr>lc_table := t, lc_lru := l\<rparr> = c\<lparr>lc_lru := l, lc_table := t\<rparr>"
  by simp

text \<open>An entry that leaves the table and the list loses the reference of the cache.\<close>

lemma lc_drop:
  assumes "ht_ok (lc_heap c) t" and "mset (lc_lru c) = tbl_mset t + {#a#}" and "distinct (lc_lru c)"
    and "lc_counts c (count (mset (lc_lru c) + hs))"
  shows "lc_ok (LRU_Unref (c\<lparr>lc_lru := remove1 a (lc_lru c), lc_table := t\<rparr>) a) hs"
proof -
  let ?rc = "count (mset (lc_lru c) + hs)"
  let ?c = "c\<lparr>lc_lru := remove1 a (lc_lru c), lc_table := t\<rparr>"
  have pos: "0 < ?rc a" using assms(2) by simp
  have rc: "?rc(a := ?rc a - 1) = count (mset (remove1 a (lc_lru c)) + hs)"
    using assms(2) by (auto simp: fun_eq_iff)
  have "lc_counts ?c ?rc" using assms(4) by (simp add: lc_counts_def)
  then have n: "lc_counts (LRU_Unref ?c a) (count (mset (remove1 a (lc_lru c)) + hs))"
    using LRU_Unref_counts [of ?c ?rc a] pos unfolding rc by blast
  have m: "tbl_mset t = mset (remove1 a (lc_lru c))" using assms(2) by simp
  have "ht_ok (lc_heap (LRU_Unref ?c a)) t"
  proof (rule ht_ok_le [OF assms(1)])
    show "heap_le (lc_heap (LRU_Unref ?c a)) (lc_heap c)" using LRU_Unref_le [of ?c a] by simp
    fix b assume "b \<in># tbl_mset t"
    then have "count (mset (remove1 a (lc_lru c)) + hs) b \<noteq> 0"
      unfolding m count_union by (metis add_is_0 count_eq_zero_iff)
    then show "lc_heap (LRU_Unref ?c a) b \<noteq> None" using lc_countsD(1) [OF n] by metis
  qed
  then show ?thesis using n m by (simp add: lc_ok_def)
qed

lemma lc_ok_distinct: "lc_ok c hs \<Longrightarrow> distinct (lc_lru c)"
proof -
  assume "lc_ok c hs"
  then have "count (mset (lc_lru c)) a \<le> 1" for a by (simp add: lc_ok_def ht_ok_def keys_distinct_def)
  then show ?thesis by (metis distinct_count_atmost_1 count_eq_zero_iff le_SucE One_nat_def le_zero_eq set_mset_mset)
qed

lemma lc_ok_alive: "lc_ok c hs \<Longrightarrow> lc_heap c a \<noteq> None \<longleftrightarrow> a \<in> set (lc_lru c) \<or> a \<in># hs"
  using lc_countsD(1) [OF lc_okD(3), of c hs a] by (simp add: count_eq_zero_iff)

lemma lc_ok_lookup:
  assumes "lc_ok c hs"
  shows "HandleTable_Lookup (lc_heap c) (lc_table c) key hash = Some a
    \<longleftrightarrow> a \<in> set (lc_lru c) \<and> lh_matches (lc_heap c) key hash a"
  using assms HandleTable_Lookup_iff [of "lc_heap c" "lc_table c" key hash a] by (auto simp: lc_ok_def simp flip: set_mset_mset)

text \<open>The eviction loop.\<close>

lemma LRUCache_evict_ok:
  assumes "lc_ok c hs"
  shows "lc_ok (LRUCache_evict c) hs \<and> (\<exists>n. lc_lru (LRUCache_evict c) = drop n (lc_lru c))
    \<and> (lc_usage (LRUCache_evict c) \<le> lc_capacity (LRUCache_evict c) \<or> lc_lru (LRUCache_evict c) = [])
    \<and> heap_le (lc_heap (LRUCache_evict c)) (lc_heap c)"
  using assms
proof (induction c rule: LRUCache_evict.induct)
  case (1 c)
  show ?case
  proof (cases "lc_usage c > lc_capacity c \<and> lc_lru c \<noteq> []")
    case False
    then have "LRUCache_evict c = c" by (subst LRUCache_evict.simps) (simp only: if_False)
    then show ?thesis using "1.prems" False by (auto intro: exI [of _ 0])
  next
    case True
    then obtain a as where l: "lc_lru c = a # as" by (cases "lc_lru c") auto
    then obtain h where h: "lc_heap c a = Some h" using lc_ok_alive [OF "1.prems", of a] by auto
    let ?R = "HandleTable_Remove (lc_heap c) (lc_table c) (lh_key h) (lh_hash h)"
    have t: "ht_ok (lc_heap c) (lc_table c)" using "1.prems" by (simp add: lc_ok_def)
    have "HandleTable_Lookup (lc_heap c) (lc_table c) (lh_key h) (lh_hash h) = Some a"
      using lc_ok_lookup [OF "1.prems"] h l by (simp add: lh_matches_def)
    then have R: "ht_ok (lc_heap c) (snd ?R)" "tbl_mset (lc_table c) = tbl_mset (snd ?R) + {#a#}"
      using HandleTable_Remove_ok [OF t, of "lh_key h" "lh_hash h"] HandleTable_Lookup_iff [OF t, of "lh_key h" "lh_hash h" a]
      by simp_all
    let ?c = "LRU_Unref (c\<lparr>lc_lru := remove1 a (lc_lru c), lc_table := snd ?R\<rparr>) a"
    have ok: "lc_ok ?c hs"
      using lc_okD(2) [OF "1.prems"] R(2)
      by (intro lc_drop [OF R(1) _ lc_ok_distinct [OF "1.prems"] lc_okD(3) [OF "1.prems"]]) (simp only:)
    have ev: "LRUCache_evict c = LRUCache_evict ?c"
      using True l h by (subst LRUCache_evict.simps) (simp add: LRU_Remove_def Let_def)
    have "lc_ok (LRUCache_evict ?c) hs \<and> (\<exists>n. lc_lru (LRUCache_evict ?c) = drop n (lc_lru ?c))
      \<and> (lc_usage (LRUCache_evict ?c) \<le> lc_capacity (LRUCache_evict ?c) \<or> lc_lru (LRUCache_evict ?c) = [])
      \<and> heap_le (lc_heap (LRUCache_evict ?c)) (lc_heap ?c)"
      using "1.IH" [OF True refl refl refl] ok l h by (simp add: LRU_Remove_def)
    moreover have "heap_le (lc_heap ?c) (lc_heap c)"
      using LRU_Unref_le [of "c\<lparr>lc_lru := remove1 a (lc_lru c), lc_table := snd ?R\<rparr>" a] by simp
    moreover have "\<exists>n. drop m (lc_lru ?c) = drop n (lc_lru c)" for m using l by (intro exI [of _ "Suc m"]) simp
    ultimately show ?thesis unfolding ev [symmetric] by (auto intro: heap_le_trans)
  qed
qed

subsection \<open>The operations\<close>

lemma LRUCache_make_ok: "lc_ok (SetCapacity LRUCache_make cap) {#}"
  by (simp add: lc_ok_def LRUCache_make_def SetCapacity_def HandleTable_make_ok lc_counts_def live_charge_def live_def)

lemma LRUCache_Release_ok:
  assumes "lc_ok c hs" and "e \<in># hs"
  shows "lc_ok (LRUCache_Release c e) (hs - {#e#})"
proof -
  let ?rc = "count (mset (lc_lru c) + hs)"
  have rc: "?rc(e := ?rc e - 1) = count (mset (lc_lru c) + (hs - {#e#}))" using assms(2) by (auto simp: fun_eq_iff)
  have pos: "0 < ?rc e" using assms(2) by simp
  have n: "lc_counts (LRU_Unref c e) (count (mset (lc_lru c) + (hs - {#e#})))"
    using LRU_Unref_counts [OF lc_okD(3) [OF assms(1)] pos] unfolding rc .
  have "ht_ok (lc_heap (LRU_Unref c e)) (lc_table c)"
  proof (rule ht_ok_le [OF lc_okD(1) [OF assms(1)] LRU_Unref_le])
    fix b assume "b \<in># tbl_mset (lc_table c)"
    then have "count (mset (lc_lru c) + (hs - {#e#})) b \<noteq> 0"
      unfolding lc_okD(2) [OF assms(1)] count_union by (metis add_is_0 count_eq_zero_iff)
    then show "lc_heap (LRU_Unref c e) b \<noteq> None" using lc_countsD(1) [OF n] by metis
  qed
  then show ?thesis using n lc_okD(2) [OF assms(1)] by (simp add: lc_ok_def LRUCache_Release_def)
qed

lemma LRUCache_Lookup_ok:
  assumes "lc_ok c hs" and "LRUCache_Lookup c key hash = (r, c')"
  shows "r = HandleTable_Lookup (lc_heap c) (lc_table c) key hash"
    and "lc_ok c' (case r of None \<Rightarrow> hs | Some a \<Rightarrow> hs + {#a#})"
    and "lc_lru c' = (case r of None \<Rightarrow> lc_lru c | Some a \<Rightarrow> remove1 a (lc_lru c) @ [a])"
    and "heap_le (lc_heap c') (lc_heap c)"
proof -
  let ?L = "HandleTable_Lookup (lc_heap c) (lc_table c) key hash"
  show r: "r = ?L" using assms(2) by (auto simp: LRUCache_Lookup_def Let_def split: option.splits)
  have "lc_ok c' (case r of None \<Rightarrow> hs | Some a \<Rightarrow> hs + {#a#})
    \<and> lc_lru c' = (case r of None \<Rightarrow> lc_lru c | Some a \<Rightarrow> remove1 a (lc_lru c) @ [a]) \<and> heap_le (lc_heap c') (lc_heap c)"
  proof (cases ?L)
    case None
    then show ?thesis using assms r by (simp add: LRUCache_Lookup_def)
  next
    case (Some a)
    then have a: "a \<in> set (lc_lru c)" using lc_ok_lookup [OF assms(1)] by blast
    obtain h where h: "lc_heap c a = Some h" using lc_ok_alive [OF assms(1), of a] a by auto
    let ?g = "h\<lparr>lh_refs := lh_refs h + 1\<rparr>"
    let ?l = "remove1 a (lc_lru c) @ [a]"
    have c': "c' = c\<lparr>lc_heap := (lc_heap c)(a \<mapsto> ?g), lc_lru := ?l\<rparr>"
      using assms(2) Some h by (simp add: LRUCache_Lookup_def LRU_Remove_def LRU_Append_def Let_def)
    have m: "mset ?l = mset (lc_lru c)" using a by simp
    have n: "lc_counts (c\<lparr>lc_heap := (lc_heap c)(a \<mapsto> ?g)\<rparr>) ((count (mset (lc_lru c) + hs))(a := lh_refs ?g))"
      by (rule lc_counts_heap [OF lc_okD(3) [OF assms(1)] h]) simp_all
    have rc: "(count (mset (lc_lru c) + hs))(a := lh_refs ?g) = count (mset (lc_lru c) + (hs + {#a#}))"
      using lc_countsD(2) [OF lc_okD(3) [OF assms(1)] h] by (auto simp: fun_eq_iff)
    have le: "heap_le ((lc_heap c)(a \<mapsto> ?g)) (lc_heap c)" using h by (auto simp: heap_le_def same_entry_def)
    have "ht_ok ((lc_heap c)(a \<mapsto> ?g)) (lc_table c)"
    proof (rule ht_ok_le [OF lc_okD(1) [OF assms(1)] le])
      fix b assume "b \<in># tbl_mset (lc_table c)"
      then show "((lc_heap c)(a \<mapsto> ?g)) b \<noteq> None" using tbl_in_bucket [OF lc_okD(1) [OF assms(1)]] by auto
    qed
    moreover have "lc_counts c' (count (mset (lc_lru c) + (hs + {#a#})))"
      using n unfolding rc c' by (simp add: lc_counts_def)
    moreover have l': "lc_lru c' = ?l" "lc_table c' = lc_table c" "lc_heap c' = (lc_heap c)(a \<mapsto> ?g)" by (simp_all add: c')
    ultimately have "lc_ok c' (hs + {#a#})"
      unfolding lc_ok_def l' m using lc_okD(2) [OF assms(1)] by blast
    then show ?thesis using le Some r by (simp add: c')
  qed
  then show "lc_ok c' (case r of None \<Rightarrow> hs | Some a \<Rightarrow> hs + {#a#})"
    and "lc_lru c' = (case r of None \<Rightarrow> lc_lru c | Some a \<Rightarrow> remove1 a (lc_lru c) @ [a])"
    and "heap_le (lc_heap c') (lc_heap c)"
    by blast+
qed

lemma LRUCache_Erase_ok:
  assumes "lc_ok c hs"
  shows "lc_ok (LRUCache_Erase c key hash) hs"
    and "lc_lru (LRUCache_Erase c key hash) = filter (\<lambda>a. \<not> lh_matches (lc_heap c) key hash a) (lc_lru c)"
    and "heap_le (lc_heap (LRUCache_Erase c key hash)) (lc_heap c)"
proof -
  let ?L = "HandleTable_Lookup (lc_heap c) (lc_table c) key hash"
  let ?t = "snd (HandleTable_Remove (lc_heap c) (lc_table c) key hash)"
  note R = HandleTable_Remove_ok [OF lc_okD(1) [OF assms], of key hash]
  have "lc_ok (LRUCache_Erase c key hash) hs
    \<and> lc_lru (LRUCache_Erase c key hash) = filter (\<lambda>a. \<not> lh_matches (lc_heap c) key hash a) (lc_lru c)
    \<and> heap_le (lc_heap (LRUCache_Erase c key hash)) (lc_heap c)"
  proof (cases ?L)
    case None
    then have "LRUCache_Erase c key hash = c\<lparr>lc_table := ?t\<rparr>" using R(1) by (auto simp: LRUCache_Erase_def Let_def split: prod.splits)
    moreover have "filter (\<lambda>a. \<not> lh_matches (lc_heap c) key hash a) (lc_lru c) = lc_lru c"
      using lc_ok_lookup [OF assms, of key hash] None by (intro filter_True) auto
    ultimately show ?thesis using R None lc_okD [OF assms] by (simp add: lc_ok_def)
  next
    case (Some a)
    have a: "a \<in> set (lc_lru c)" using Some lc_ok_lookup [OF assms] by blast
    have E: "LRUCache_Erase c key hash = LRU_Unref (c\<lparr>lc_lru := remove1 a (lc_lru c), lc_table := ?t\<rparr>) a"
      using R(1) Some by (auto simp: LRUCache_Erase_def LRU_Remove_def lc_upd_swap split: prod.splits)
    have m: "mset (lc_lru c) = tbl_mset ?t + {#a#}"
      using R(3) Some lc_okD(2) [OF assms] a by (metis add_mset_add_single insert_DiffM option.simps(5) set_mset_mset)
    have "lh_matches (lc_heap c) key hash b \<longleftrightarrow> b = a" if "b \<in> set (lc_lru c)" for b
      using that Some lc_ok_lookup [OF assms, of key hash] by (metis option.inject)
    then have "filter (\<lambda>a. \<not> lh_matches (lc_heap c) key hash a) (lc_lru c) = filter (\<lambda>b. b \<noteq> a) (lc_lru c)"
      by (intro filter_cong) auto
    then have "filter (\<lambda>a. \<not> lh_matches (lc_heap c) key hash a) (lc_lru c) = remove1 a (lc_lru c)"
      by (simp add: distinct_remove1_removeAll [OF lc_ok_distinct [OF assms]] removeAll_filter_not_eq neq_commute)
    then show ?thesis
      using lc_drop [OF R(2) m lc_ok_distinct [OF assms] lc_okD(3) [OF assms]]
        LRU_Unref_le [of "c\<lparr>lc_lru := remove1 a (lc_lru c), lc_table := ?t\<rparr>" a] unfolding E by simp
  qed
  then show "lc_ok (LRUCache_Erase c key hash) hs"
    and "lc_lru (LRUCache_Erase c key hash) = filter (\<lambda>a. \<not> lh_matches (lc_heap c) key hash a) (lc_lru c)"
    and "heap_le (lc_heap (LRUCache_Erase c key hash)) (lc_heap c)" by blast+
qed

lemma lc_counts_alloc:
  assumes "lc_counts c rc" and "rc (lc_next c) = 0" and "0 < lh_refs h"
  shows "lc_counts (c\<lparr>lc_next := lc_next c + 1, lc_heap := (lc_heap c)(lc_next c \<mapsto> h), lc_lru := l,
      lc_usage := lc_usage c + lh_charge h\<rparr>) (rc(lc_next c := lh_refs h))"
proof -
  let ?e = "lc_next c"
  have none: "lc_heap c ?e = None" using assms(1) by (simp add: lc_counts_def)
  have "live ((lc_heap c)(?e \<mapsto> h)) (Suc ?e) = insert ?e (live (lc_heap c) ?e)" by (auto simp: live_def less_Suc_eq)
  then have "card (live ((lc_heap c)(?e \<mapsto> h)) (Suc ?e)) = Suc (card (live (lc_heap c) ?e))"
    by (simp add: live_def)
  moreover have "live_charge ((lc_heap c)(?e \<mapsto> h)) (Suc ?e) = live_charge (lc_heap c) ?e + lh_charge h"
    by (simp add: live_charge_def)
  ultimately show ?thesis using assms unfolding lc_counts_def by auto
qed

lemma LRUCache_Insert_ok:
  assumes "lc_ok c hs" and "LRUCache_Insert c key hash val charge = (e, c')"
  shows "lc_ok c' (hs + {#e#})" and "e = lc_next c"
    and "lc_usage c' \<le> lc_capacity c' \<or> lc_lru c' = []"
    and "\<exists>n. lc_lru c' = drop n (filter (\<lambda>a. \<not> lh_matches (lc_heap c) key hash a) (lc_lru c) @ [e])"
    and "heap_le (lc_heap c') ((lc_heap c)(e \<mapsto> \<lparr>lh_value = val, lh_charge = charge, lh_refs = 2, lh_hash = hash, lh_key = key\<rparr>))"
proof -
  let ?h = "\<lparr>lh_value = val, lh_charge = charge, lh_refs = 2, lh_hash = hash, lh_key = key\<rparr>"
  let ?e = "lc_next c" and ?l = "lc_lru c @ [lc_next c]"
  let ?hp = "(lc_heap c)(?e \<mapsto> ?h)"
  define c1 where "c1 = c\<lparr>lc_next := lc_next c + 1, lc_heap := ?hp, lc_lru := ?l, lc_usage := lc_usage c + charge\<rparr>"
  let ?I = "HandleTable_Insert ?hp (lc_table c) ?e ?h"
  define c2 where "c2 = (case fst ?I of None \<Rightarrow> c1\<lparr>lc_table := snd ?I\<rparr>
    | Some a \<Rightarrow> LRU_Unref (c1\<lparr>lc_lru := remove1 a ?l, lc_table := snd ?I\<rparr>) a)"
  have ins: "e = ?e" "c' = LRUCache_evict c2"
    using assms(2) by (auto simp: LRUCache_Insert_def LRU_Append_def LRU_Remove_def Let_def c1_def c2_def lc_upd_swap
        split: prod.splits option.splits)
  have none: "lc_heap c ?e = None" using lc_okD(3) [OF assms(1)] by (simp add: lc_counts_def)
  then have fresh: "?e \<notin> set (lc_lru c)" "?e \<notin># hs" using lc_ok_alive [OF assms(1), of ?e] by auto
  then have nt: "?e \<notin># tbl_mset (lc_table c)" using lc_okD(2) [OF assms(1)] by (metis set_mset_mset)
  have hp: "ht_ok ?hp (lc_table c)"
    using nt by (intro ht_ok_cong [OF lc_okD(1) [OF assms(1)]]) auto
  let ?L = "HandleTable_Lookup ?hp (lc_table c) key hash"
  have I: "fst ?I = ?L" "ht_ok ?hp (snd ?I)"
    "tbl_mset (snd ?I) = tbl_mset (lc_table c) - (case ?L of None \<Rightarrow> {#} | Some b \<Rightarrow> {#b#}) + {#?e#}"
    using HandleTable_Insert_ok [OF hp _ nt, of ?h] by simp_all
  have matches: "lh_matches ?hp key hash a = lh_matches (lc_heap c) key hash a" if "a \<in> set (lc_lru c)" for a
    using that fresh by (auto simp: lh_matches_def)
  have L: "?L = Some a \<longleftrightarrow> a \<in> set (lc_lru c) \<and> lh_matches (lc_heap c) key hash a" for a
    unfolding HandleTable_Lookup_iff [OF hp] lc_okD(2) [OF assms(1), symmetric] using matches by auto
  have rc: "(count (mset (lc_lru c) + hs))(?e := 2) = count (mset ?l + (hs + {#?e#}))"
    using fresh by (auto simp: fun_eq_iff count_mset_0_iff not_in_iff)
  have "count (mset (lc_lru c) + hs) ?e = 0" using fresh by (simp add: count_eq_zero_iff)
  from lc_counts_alloc [OF lc_okD(3) [OF assms(1)] this, of ?h ?l]
  have n1: "lc_counts c1 (count (mset ?l + (hs + {#?e#})))" unfolding rc [symmetric]
    by (simp add: c1_def del: count_union)
  have "lc_ok c2 (hs + {#?e#}) \<and> lc_lru c2 = filter (\<lambda>a. \<not> lh_matches (lc_heap c) key hash a) (lc_lru c) @ [?e]
    \<and> heap_le (lc_heap c2) ?hp"
  proof (cases ?L)
    case None
    then have c2: "c2 = c1\<lparr>lc_table := snd ?I\<rparr>" using I(1) by (simp add: c2_def)
    have "mset ?l = tbl_mset (snd ?I)" using I(3) None lc_okD(2) [OF assms(1)] by simp
    moreover have "filter (\<lambda>a. \<not> lh_matches (lc_heap c) key hash a) (lc_lru c) = lc_lru c"
      using L None by (intro filter_True) auto
    ultimately show ?thesis using I(2) n1 unfolding lc_ok_def c2 by (simp add: c1_def lc_counts_def)
  next
    case (Some a)
    have a: "a \<in> set (lc_lru c)" using L Some by blast
    have c2: "c2 = LRU_Unref (c1\<lparr>lc_lru := remove1 a (lc_lru c1), lc_table := snd ?I\<rparr>) a"
      using I(1) Some by (simp add: c2_def c1_def)
    have m: "mset (lc_lru c1) = tbl_mset (snd ?I) + {#a#}"
      using I(3) Some lc_okD(2) [OF assms(1)] a by (simp add: c1_def) (metis insert_DiffM set_mset_mset add_mset_commute)
    have d: "distinct (lc_lru c1)" using lc_ok_distinct [OF assms(1)] fresh by (simp add: c1_def)
    have "lh_matches (lc_heap c) key hash b \<longleftrightarrow> b = a" if "b \<in> set (lc_lru c)" for b
      using that Some L by (metis option.inject)
    then have "filter (\<lambda>a. \<not> lh_matches (lc_heap c) key hash a) (lc_lru c) = filter (\<lambda>b. b \<noteq> a) (lc_lru c)"
      by (intro filter_cong) auto
    also have "\<dots> = remove1 a (lc_lru c)"
      by (simp add: distinct_remove1_removeAll [OF lc_ok_distinct [OF assms(1)]] removeAll_filter_not_eq neq_commute)
    finally have f: "filter (\<lambda>a. \<not> lh_matches (lc_heap c) key hash a) (lc_lru c) = remove1 a (lc_lru c)" .
    have "lc_ok c2 (hs + {#?e#})"
      unfolding c2 using I(2) n1 by (intro lc_drop [OF _ m d]) (simp_all add: c1_def)
    moreover have "heap_le (lc_heap c2) ?hp"
      using LRU_Unref_le [of "c1\<lparr>lc_lru := remove1 a (lc_lru c1), lc_table := snd ?I\<rparr>" a] unfolding c2 by (simp add: c1_def)
    ultimately show ?thesis using a unfolding f by (simp add: c2 c1_def remove1_append)
  qed
  moreover from this have "lc_ok c' (hs + {#?e#})" "\<exists>n. lc_lru c' = drop n (lc_lru c2)"
    "lc_usage c' \<le> lc_capacity c' \<or> lc_lru c' = []" "heap_le (lc_heap c') (lc_heap c2)"
    using LRUCache_evict_ok [of c2 "hs + {#?e#}"] unfolding ins by auto
  ultimately show "lc_ok c' (hs + {#e#})" "e = lc_next c" "lc_usage c' \<le> lc_capacity c' \<or> lc_lru c' = []"
    "\<exists>n. lc_lru c' = drop n (filter (\<lambda>a. \<not> lh_matches (lc_heap c) key hash a) (lc_lru c) @ [e])"
    "heap_le (lc_heap c') ((lc_heap c)(e \<mapsto> ?h))"
    unfolding ins(1) by (auto intro: heap_le_trans)
qed

subsection \<open>Bounds\<close>

definition lc_bounded :: "nat \<Rightarrow> 'v LRUCache \<Rightarrow> bool" where
  "lc_bounded cap c \<longleftrightarrow> lc_capacity c = cap \<and> (lc_usage c \<le> cap \<or> lc_lru c = [])"

lemma LRU_Unref_usage: "lc_usage (LRU_Unref c a) \<le> lc_usage c"
  by (simp add: LRU_Unref_def Let_def split: option.split)

lemma LRUCache_evict_capacity [simp]: "lc_capacity (LRUCache_evict c) = lc_capacity c"
proof (induction c rule: LRUCache_evict.induct)
  case (1 c)
  show ?case
  proof (cases "lc_usage c > lc_capacity c \<and> lc_lru c \<noteq> []")
    case True
    let ?r = "LRU_Remove c (hd (lc_lru c))"
    let ?x = "LRU_Unref (case lc_heap ?r (hd (lc_lru c)) of None \<Rightarrow> ?r | Some h \<Rightarrow>
      ?r\<lparr>lc_table := snd (HandleTable_Remove (lc_heap ?r) (lc_table ?r) (lh_key h) (lh_hash h))\<rparr>) (hd (lc_lru c))"
    have ev: "LRUCache_evict c = LRUCache_evict ?x"
      using True by (subst LRUCache_evict.simps) (simp only: if_True Let_def simp_thms)
    have "lc_capacity ?x = lc_capacity c" by (simp add: LRU_Remove_def split: option.splits)
    then show ?thesis unfolding ev "1.IH" [OF True refl refl refl] .
  qed (subst LRUCache_evict.simps, simp only: if_False)
qed

lemma LRUCache_Insert_capacity: "LRUCache_Insert c key hash val charge = (e, c') \<Longrightarrow> lc_capacity c' = lc_capacity c"
  by (auto simp: LRUCache_Insert_def LRU_Append_def LRU_Remove_def Let_def split: prod.splits option.splits)

lemma LRUCache_Lookup_frame:
  "LRUCache_Lookup c key hash = (r, c') \<Longrightarrow> lc_capacity c' = lc_capacity c \<and> lc_usage c' = lc_usage c"
  by (auto simp: LRUCache_Lookup_def LRU_Append_def LRU_Remove_def Let_def split: option.splits)

lemma LRUCache_Erase_frame:
  "lc_capacity (LRUCache_Erase c key hash) = lc_capacity c" "lc_usage (LRUCache_Erase c key hash) \<le> lc_usage c"
  by (auto simp: LRUCache_Erase_def LRU_Remove_def Let_def split: prod.splits option.splits
      intro!: order_trans [OF LRU_Unref_usage])

subsection \<open>The sharded cache\<close>

definition hashes_ok :: "nat \<Rightarrow> 'v heap \<Rightarrow> bool" where
  "hashes_ok i hp \<longleftrightarrow> (\<forall>a h. hp a = Some h \<longrightarrow> lh_hash h = HashSlice (lh_key h) \<and> Shard (HashSlice (lh_key h)) = i)"

definition shard_ok :: "nat \<Rightarrow> nat \<Rightarrow> 'v LRUCache \<Rightarrow> nat multiset \<Rightarrow> bool" where
  "shard_ok cap i c hs \<longleftrightarrow> lc_ok c hs \<and> lc_bounded cap c \<and> hashes_ok i (lc_heap c)"

definition sc_ok :: "nat \<Rightarrow> 'v ShardedLRUCache \<Rightarrow> (nat \<Rightarrow> nat multiset) \<Rightarrow> bool" where
  "sc_ok cap c hs \<longleftrightarrow> length (sc_shard c) = kNumShards \<and> (\<forall>i < kNumShards. shard_ok cap i (sc_shard c ! i) (hs i))"

text \<open>The states a cache can reach, with the handles its clients hold: a client releases only handles it holds.\<close>

inductive cache_run :: "nat \<Rightarrow> 'v ShardedLRUCache \<Rightarrow> (nat \<Rightarrow> nat multiset) \<Rightarrow> bool" for cap where
  init: "cache_run cap (NewLRUCache cap) (\<lambda>_. {#})"
| insert: "cache_run cap c hs \<Longrightarrow> Cache_Insert c key val charge = ((i, e), c') \<Longrightarrow> cache_run cap c' (hs(i := hs i + {#e#}))"
| lookup_hit: "cache_run cap c hs \<Longrightarrow> Cache_Lookup c key = (Some (i, e), c') \<Longrightarrow> cache_run cap c' (hs(i := hs i + {#e#}))"
| lookup_miss: "cache_run cap c hs \<Longrightarrow> Cache_Lookup c key = (None, c') \<Longrightarrow> cache_run cap c' hs"
| release: "cache_run cap c hs \<Longrightarrow> i < kNumShards \<Longrightarrow> e \<in># hs i \<Longrightarrow> cache_run cap (Cache_Release c (i, e)) (hs(i := hs i - {#e#}))"
| erase: "cache_run cap c hs \<Longrightarrow> cache_run cap (Cache_Erase c key) hs"

lemma Shard_less: "Shard hash < kNumShards"
proof -
  have "take_bit 32 (unat hash) = unat hash" using unsigned_less [of hash, where 'a = nat] by (simp add: take_bit_nat_eq_self)
  then have "unat (drop_bit 28 hash) = unat hash div 2 ^ 28"
    unfolding unsigned_drop_bit_eq by (simp add: drop_bit_eq_div)
  moreover have "unat hash < 2 ^ 28 * 16" using unsigned_less [of hash, where 'a = nat] by simp
  ultimately show ?thesis
    unfolding Shard_def kNumShards_def kNumShardBits_def by (simp add: less_mult_imp_div_less)
qed

lemma hashes_ok_le: "heap_le hp' hp \<Longrightarrow> hashes_ok i hp \<Longrightarrow> hashes_ok i hp'"
  unfolding heap_le_def same_entry_def hashes_ok_def by metis

lemma shard_Insert:
  assumes "shard_ok cap i c hs" and "LRUCache_Insert c key (HashSlice key) val charge = (e, c')" and "Shard (HashSlice key) = i"
  shows "shard_ok cap i c' (hs + {#e#})"
proof -
  have ok: "lc_ok c hs" using assms(1) by (simp add: shard_ok_def)
  note I = LRUCache_Insert_ok [OF ok assms(2)] LRUCache_Insert_capacity [OF assms(2)]
  have "hashes_ok i (lc_heap c')"
    by (rule hashes_ok_le [OF I(5)]) (use assms(1,3) in \<open>auto simp: shard_ok_def hashes_ok_def\<close>)
  then show ?thesis using I assms(1) by (simp add: shard_ok_def lc_bounded_def)
qed

lemma shard_Lookup:
  assumes "shard_ok cap i c hs" and "LRUCache_Lookup c key hash = (r, c')"
  shows "shard_ok cap i c' (case r of None \<Rightarrow> hs | Some a \<Rightarrow> hs + {#a#})"
proof -
  have ok: "lc_ok c hs" using assms(1) by (simp add: shard_ok_def)
  note L = LRUCache_Lookup_ok [OF ok assms(2)] LRUCache_Lookup_frame [OF assms(2)]
  have "lc_lru c' = []" if "lc_lru c = []" using that L(1,3) lc_ok_lookup [OF ok] by (auto split: option.splits)
  then show ?thesis using L(2,5) hashes_ok_le [OF L(4)] assms(1) by (auto simp: shard_ok_def lc_bounded_def)
qed

lemma shard_Erase:
  assumes "shard_ok cap i c hs"
  shows "shard_ok cap i (LRUCache_Erase c key hash) hs"
proof -
  have ok: "lc_ok c hs" using assms by (simp add: shard_ok_def)
  note E = LRUCache_Erase_ok [OF ok, of key hash] LRUCache_Erase_frame [of c key hash]
  show ?thesis using E(1,2,4,5) hashes_ok_le [OF E(3)] assms by (auto simp: shard_ok_def lc_bounded_def)
qed

lemma shard_Release:
  assumes "shard_ok cap i c hs" and "e \<in># hs"
  shows "shard_ok cap i (LRUCache_Release c e) (hs - {#e#})"
proof -
  have ok: "lc_ok c hs" using assms by (simp add: shard_ok_def)
  have "lc_bounded cap (LRUCache_Release c e)"
    using assms(1) LRU_Unref_usage [of c e] by (auto simp: shard_ok_def lc_bounded_def LRUCache_Release_def)
  then show ?thesis using LRUCache_Release_ok [OF ok assms(2)] hashes_ok_le [OF LRU_Unref_le [of c e]] assms(1)
    by (simp add: shard_ok_def LRUCache_Release_def)
qed

lemma sc_ok_update:
  assumes "sc_ok cap c hs" and "i < kNumShards" and "shard_ok cap i s h"
  shows "sc_ok cap (c\<lparr>sc_shard := (sc_shard c)[i := s]\<rparr>) (hs(i := h))"
  using assms by (auto simp: sc_ok_def nth_list_update)

lemma shard_make: "shard_ok n i (SetCapacity LRUCache_make n) {#}"
  using LRUCache_make_ok [of n] by (simp add: shard_ok_def lc_bounded_def hashes_ok_def SetCapacity_def LRUCache_make_def)

lemma sc_ok_Insert:
  assumes "sc_ok n c hs" and "Cache_Insert c key val charge = ((i, e), c')"
  shows "sc_ok n c' (hs(i := hs i + {#e#}))" and "i < kNumShards"
proof -
  have i: "i = Shard (HashSlice key)" using assms(2) by (auto simp: Cache_Insert_def Let_def split: prod.splits)
  obtain s where s: "LRUCache_Insert (sc_shard c ! i) key (HashSlice key) val charge = (e, s)"
    "c' = c\<lparr>sc_shard := (sc_shard c)[i := s]\<rparr>"
    using assms(2) by (auto simp: Cache_Insert_def Let_def split: prod.splits)
  show "sc_ok n c' (hs(i := hs i + {#e#}))"
    using assms(1) shard_Insert [OF _ s(1)] Shard_less [of "HashSlice key"] unfolding s(2) i
    by (intro sc_ok_update) (auto simp: sc_ok_def)
  show "i < kNumShards" unfolding i by (rule Shard_less)
qed

lemma sc_ok_Lookup_hit:
  assumes "sc_ok n c hs" and "Cache_Lookup c key = (Some (i, e), c')"
  shows "sc_ok n c' (hs(i := hs i + {#e#}))" and "i < kNumShards"
proof -
  have i: "i = Shard (HashSlice key)" using assms(2) by (auto simp: Cache_Lookup_def Let_def split: prod.splits)
  obtain s where s: "LRUCache_Lookup (sc_shard c ! i) key (HashSlice key) = (Some e, s)"
    "c' = c\<lparr>sc_shard := (sc_shard c)[i := s]\<rparr>"
    using assms(2) by (auto simp: Cache_Lookup_def Let_def split: prod.splits)
  show "sc_ok n c' (hs(i := hs i + {#e#}))"
    using assms(1) shard_Lookup [OF _ s(1)] Shard_less [of "HashSlice key"] unfolding s(2) i
    by (intro sc_ok_update) (auto simp: sc_ok_def)
  show "i < kNumShards" unfolding i by (rule Shard_less)
qed

lemma sc_ok_Lookup_miss:
  assumes "sc_ok n c hs" and "Cache_Lookup c key = (None, c')"
  shows "sc_ok n c' hs"
proof -
  let ?i = "Shard (HashSlice key)"
  obtain s where s: "LRUCache_Lookup (sc_shard c ! ?i) key (HashSlice key) = (None, s)"
    "c' = c\<lparr>sc_shard := (sc_shard c)[?i := s]\<rparr>"
    using assms(2) by (auto simp: Cache_Lookup_def Let_def split: prod.splits)
  show ?thesis using assms(1) shard_Lookup [OF _ s(1)] Shard_less [of "HashSlice key"]
      sc_ok_update [OF assms(1), of ?i s "hs ?i"] unfolding s(2) by (auto simp: sc_ok_def)
qed

lemma sc_ok_Release:
  assumes "sc_ok n c hs" and "i < kNumShards" and "e \<in># hs i"
  shows "sc_ok n (Cache_Release c (i, e)) (hs(i := hs i - {#e#}))"
    and "Cache_Release c (i, e) = c\<lparr>sc_shard := (sc_shard c)[i := LRUCache_Release (sc_shard c ! i) e]\<rparr>"
proof -
  have sh: "shard_ok n i (sc_shard c ! i) (hs i)" using assms(1,2) by (simp add: sc_ok_def)
  then obtain h where h: "lc_heap (sc_shard c ! i) e = Some h" "Shard (lh_hash h) = i"
    using lc_ok_alive [of "sc_shard c ! i" "hs i" e] assms(3) by (auto simp: shard_ok_def hashes_ok_def)
  then show eq: "Cache_Release c (i, e) = c\<lparr>sc_shard := (sc_shard c)[i := LRUCache_Release (sc_shard c ! i) e]\<rparr>"
    by (simp add: Cache_Release_def)
  show "sc_ok n (Cache_Release c (i, e)) (hs(i := hs i - {#e#}))"
    using sc_ok_update [OF assms(1,2) shard_Release [OF sh assms(3)]] unfolding eq by (simp add: fun_upd_def)
qed

lemma sc_ok_Erase:
  assumes "sc_ok n c hs"
  shows "sc_ok n (Cache_Erase c key) hs"
proof -
  let ?i = "Shard (HashSlice key)"
  have i: "?i < kNumShards" by (rule Shard_less)
  have "shard_ok n ?i (sc_shard c ! ?i) (hs ?i)" using assms i by (simp add: sc_ok_def)
  from sc_ok_update [OF assms i shard_Erase [OF this]] show ?thesis by (simp add: Cache_Erase_def Let_def)
qed

lemma sc_ok_New: "sc_ok ((cap + (kNumShards - 1)) div kNumShards) (NewLRUCache cap) (\<lambda>_. {#})"
  unfolding NewLRUCache_def sc_ok_def Let_def by (simp add: shard_make)

text \<open>The invariant, by induction on the run.\<close>

lemma cache_run_ok: "cache_run cap c hs \<Longrightarrow> sc_ok ((cap + (kNumShards - 1)) div kNumShards) c hs"
  by (induction rule: cache_run.induct)
    (rule sc_ok_New, erule (1) sc_ok_Insert(1), erule (1) sc_ok_Lookup_hit(1), erule (1) sc_ok_Lookup_miss,
      erule (2) sc_ok_Release(1), erule sc_ok_Erase)

text \<open>The shard and the table of a key after an operation on that key.\<close>

subsection \<open>Properties\<close>

lemma option_some_cong: "(\<And>a. x = Some a \<longleftrightarrow> P \<and> y = Some a) \<Longrightarrow> x = (if P then y else None)"
  by (cases x; cases y) auto

text \<open>The shard and the table of a key after an operation on that key.\<close>

lemma Cache_Insert_shard:
  assumes "sc_ok n c hs" and "Cache_Insert c key val charge = ((i, e), c')"
  shows "i = Shard (HashSlice key)" and "i < kNumShards"
    and "LRUCache_Insert (sc_shard c ! i) key (HashSlice key) val charge = (e, sc_shard c' ! i)"
    and "\<And>j. j \<noteq> i \<Longrightarrow> sc_shard c' ! j = sc_shard c ! j"
  using assms Shard_less [of "HashSlice key"] by (auto simp: Cache_Insert_def sc_ok_def Let_def split: prod.splits)

lemma fst_Cache_Lookup:
  "fst (Cache_Lookup c key) = map_option (Pair (Shard (HashSlice key)))
     (fst (LRUCache_Lookup (sc_shard c ! Shard (HashSlice key)) key (HashSlice key)))"
  by (simp add: Cache_Lookup_def Let_def split: prod.splits)

lemma fst_LRUCache_Lookup:
  "fst (LRUCache_Lookup c key hash) = HandleTable_Lookup (lc_heap c) (lc_table c) key hash"
  by (simp add: LRUCache_Lookup_def Let_def split: option.splits)



text \<open>C28.  Insert then look up: the handle that \<^verbatim>\<open>Insert\<close> returns reads the inserted value, a following \<^verbatim>\<open>Lookup\<close> of the key
  returns that handle unless the insertion had to evict everything from the shard, and for every other key a
  lookup that hits returns the handle it returned before (the insertion can only have evicted it).\<close>

theorem cache_insert_lookup:
  assumes "cache_run cap c hs" and "Cache_Insert c key val charge = (r, c')"
  shows "Cache_Value c' r = Some val
    \<and> fst (Cache_Lookup c' key) = (if lc_lru (sc_shard c' ! fst r) = [] then None else Some r)
    \<and> (\<forall>k q. k \<noteq> key \<longrightarrow> fst (Cache_Lookup c' k) = Some q \<longrightarrow> fst (Cache_Lookup c k) = Some q)"
proof -
  obtain i e where r: "r = (i, e)" by (cases r)
  let ?n = "(cap + (kNumShards - 1)) div kNumShards"
  have ok: "sc_ok ?n c hs" by (rule cache_run_ok [OF assms(1)])
  note S = Cache_Insert_shard [OF ok assms(2) [unfolded r]]
  let ?s = "sc_shard c ! i" and ?s' = "sc_shard c' ! i"
  have s: "lc_ok ?s (hs i)" "hashes_ok i (lc_heap ?s)" using ok S(2) by (auto simp: sc_ok_def shard_ok_def)
  note I = LRUCache_Insert_ok [OF s(1) S(3)]
  have "lc_heap ?s' e \<noteq> None" using lc_ok_alive [OF I(1), of e] by simp
  from heap_leE [OF I(5) this] obtain g h where gh: "lc_heap ?s' e = Some g" "same_entry g h"
    "((lc_heap ?s)(e \<mapsto> \<lparr>lh_value = val, lh_charge = charge, lh_refs = 2, lh_hash = HashSlice key, lh_key = key\<rparr>)) e = Some h"
    by blast
  then have g: "lc_heap ?s' e = Some g" "lh_value g = val" "lh_key g = key" "lh_hash g = HashSlice key"
    by (auto simp: same_entry_def)
  have "e \<in> set (lc_lru ?s')" if ne: "lc_lru ?s' \<noteq> []"
  proof -
    obtain m where "lc_lru ?s' = drop m (filter (\<lambda>a. \<not> lh_matches (lc_heap ?s) key (HashSlice key) a) (lc_lru ?s) @ [e])"
      using I(4) by blast
    with ne have "last (lc_lru ?s') = e" by (metis drop_eq_Nil2 last_drop last_snoc not_le)
    with ne show ?thesis using last_in_set by metis
  qed
  moreover have "lh_matches (lc_heap ?s') key (HashSlice key) e" using g by (simp add: lh_matches_def)
  ultimately have hit: "HandleTable_Lookup (lc_heap ?s') (lc_table ?s') key (HashSlice key) = Some e" if "lc_lru ?s' \<noteq> []"
    using that lc_ok_lookup [OF I(1)] by blast
  have "HandleTable_Lookup (lc_heap ?s') (lc_table ?s') key (HashSlice key) = None" if "lc_lru ?s' = []"
    using that lc_ok_lookup [OF I(1), of key "HashSlice key"] by (metis not_None_eq empty_iff list.set(1))
  with hit have L: "fst (LRUCache_Lookup ?s' key (HashSlice key)) = (if lc_lru ?s' = [] then None else Some e)"
    unfolding fst_LRUCache_Lookup by simp
  have other: "fst (Cache_Lookup c k) = Some q" if k: "k \<noteq> key" "fst (Cache_Lookup c' k) = Some q" for k q
  proof (cases "Shard (HashSlice k) = i")
    case False
    then show ?thesis using k(2) S(4) by (simp add: fst_Cache_Lookup)
  next
    case True
    then obtain b where b: "q = (i, b)" "HandleTable_Lookup (lc_heap ?s') (lc_table ?s') k (HashSlice k) = Some b"
      using k(2) by (auto simp: fst_Cache_Lookup fst_LRUCache_Lookup)
    then have bl: "b \<in> set (lc_lru ?s')" "lh_matches (lc_heap ?s') k (HashSlice k) b"
      using lc_ok_lookup [OF I(1)] by blast+
    then have be: "b \<noteq> e" using g k(1) by (auto simp: lh_matches_def)
    have "b \<in> set (lc_lru ?s)" using I(4) bl(1) be by (auto dest!: in_set_dropD)
    moreover have "lh_matches (lc_heap ?s) k (HashSlice k) b"
      using bl(2) heap_le_matches [OF I(5), of b k "HashSlice k"] be by (auto simp: lh_matches_def split: option.splits)
    ultimately show ?thesis using lc_ok_lookup [OF s(1)] b True by (simp add: fst_Cache_Lookup fst_LRUCache_Lookup)
  qed
  show ?thesis using g L other S(1) by (simp add: r Cache_Value_def fst_Cache_Lookup)
qed

theorem cache_insert_lookup_witness:
  "let (r, c) = Cache_Insert (NewLRUCache 100) [1, 2] (7 :: nat) 3 in Cache_Value c r = Some 7
    \<and> fst (Cache_Lookup c [1, 2]) = (if lc_lru (sc_shard c ! fst r) = [] then None else Some r)"
proof -
  obtain r c where c: "Cache_Insert (NewLRUCache 100) [1, 2] (7 :: nat) 3 = (r, c)" by (cases "Cache_Insert (NewLRUCache 100) [1, 2] (7 :: nat) 3")
  show ?thesis using cache_insert_lookup [OF cache_run.init c] unfolding c by simp
qed

text \<open>Erase: a key that was erased is not found any more, other keys are found as before, and the handles that clients
  hold keep their values.\<close>

theorem cache_erase:
  assumes "cache_run cap c hs"
  shows "fst (Cache_Lookup (Cache_Erase c key) key) = None
    \<and> (\<forall>k. k \<noteq> key \<longrightarrow> fst (Cache_Lookup (Cache_Erase c key) k) = fst (Cache_Lookup c k))
    \<and> (\<forall>i < kNumShards. \<forall>e. e \<in># hs i \<longrightarrow> Cache_Value (Cache_Erase c key) (i, e) = Cache_Value c (i, e))"
proof -
  let ?n = "(cap + (kNumShards - 1)) div kNumShards" and ?i = "Shard (HashSlice key)"
  have ok: "sc_ok ?n c hs" by (rule cache_run_ok [OF assms])
  let ?s = "sc_shard c ! ?i" and ?c = "Cache_Erase c key"
  have s: "lc_ok ?s (hs ?i)" and len: "?i < length (sc_shard c)"
    using ok Shard_less [of "HashSlice key"] by (auto simp: sc_ok_def shard_ok_def)
  let ?s' = "LRUCache_Erase ?s key (HashSlice key)"
  note E = LRUCache_Erase_ok [OF s, of key "HashSlice key"]
  have sh: "sc_shard ?c ! j = (if j = ?i then ?s' else sc_shard c ! j)" for j
    using len by (simp add: Cache_Erase_def Let_def)
  have alive: "lc_heap ?s' a = None \<longrightarrow> a \<notin> set (lc_lru ?s') \<and> a \<notin># hs ?i" for a
    using lc_ok_alive [OF E(1), of a] by auto
  have same: "lh_matches (lc_heap ?s') k x a = lh_matches (lc_heap ?s) k x a" if "lc_heap ?s' a \<noteq> None" for k x a
    by (rule heap_le_matches [OF E(3) that])
  have look: "HandleTable_Lookup (lc_heap ?s') (lc_table ?s') k (HashSlice k) = Some a \<longleftrightarrow>
      k \<noteq> key \<and> HandleTable_Lookup (lc_heap ?s) (lc_table ?s) k (HashSlice k) = Some a" for k a
  proof -
    have "a \<in> set (lc_lru ?s') \<longleftrightarrow> a \<in> set (lc_lru ?s) \<and> \<not> lh_matches (lc_heap ?s) key (HashSlice key) a"
      unfolding E(2) by simp
    then show ?thesis
      unfolding lc_ok_lookup [OF E(1)] lc_ok_lookup [OF s]
      using alive [of a] same [of a k "HashSlice k"] lh_matches_key [of "lc_heap ?s" k "HashSlice k" a key "HashSlice key"]
      by blast
  qed
  have look': "HandleTable_Lookup (lc_heap ?s') (lc_table ?s') k (HashSlice k) =
      (if k \<noteq> key then HandleTable_Lookup (lc_heap ?s) (lc_table ?s) k (HashSlice k) else None)" for k
    by (rule option_some_cong) (rule look)
  have "Cache_Value ?c (i, e) = Cache_Value c (i, e)" if "e \<in># hs i" for i e
  proof (cases "i = ?i")
    case True
    then have "lc_heap ?s' e \<noteq> None" using that alive [of e] by blast
    from heap_le_value [OF E(3) this] show ?thesis by (simp add: Cache_Value_def sh True)
  qed (simp add: Cache_Value_def sh)
  then show ?thesis using look' by (simp add: fst_Cache_Lookup fst_LRUCache_Lookup sh)
qed

theorem cache_erase_witness:
  "fst (Cache_Lookup (Cache_Erase (NewLRUCache 100 :: nat ShardedLRUCache) [1, 2]) [1, 2]) = None
    \<and> fst (Cache_Lookup (Cache_Erase (NewLRUCache 100 :: nat ShardedLRUCache) [1, 2]) [3])
          = fst (Cache_Lookup (NewLRUCache 100 :: nat ShardedLRUCache) [3])"
proof -
  have "cache_run 100 (NewLRUCache 100 :: nat ShardedLRUCache) (\<lambda>_. {#})" by (rule cache_run.init)
  from cache_erase [OF this, of "[1, 2]"] show ?thesis by simp
qed

subsection \<open>The contract for clients\<close>

text \<open>
  \<open>holds c H P\<close>: the clients hold the handles \<open>H\<close> of the cache \<open>c\<close>, and every entry that is alive satisfies \<open>P\<close>.
\<close>

locale entry_cache =
  fixes lookup :: "'c \<Rightarrow> bytes \<Rightarrow> 'h option \<times> 'c"
    and insert :: "'c \<Rightarrow> bytes \<Rightarrow> 'v \<Rightarrow> nat \<Rightarrow> 'h \<times> 'c"
    and release :: "'c \<Rightarrow> 'h \<Rightarrow> 'c"
    and val :: "'c \<Rightarrow> 'h \<Rightarrow> 'v option"
    and holds :: "'c \<Rightarrow> 'h multiset \<Rightarrow> (bytes \<Rightarrow> 'v \<Rightarrow> bool) \<Rightarrow> bool"
  assumes lookup_miss: "holds c H P \<Longrightarrow> lookup c k = (None, c') \<Longrightarrow> holds c' H P"
    and lookup_hit: "holds c H P \<Longrightarrow> lookup c k = (Some h, c') \<Longrightarrow> holds c' (add_mset h H) P \<and> (\<exists>v. val c' h = Some v \<and> P k v)"
    and insert_new: "holds c H P \<Longrightarrow> P k v \<Longrightarrow> insert c k v n = (h, c') \<Longrightarrow> holds c' (add_mset h H) P \<and> val c' h = Some v"
    and release_held: "holds c (add_mset h H) P \<Longrightarrow> holds (release c h) H P"
    and held_alive: "holds c H P \<Longrightarrow> h \<in># H \<Longrightarrow> \<exists>v. val c h = Some v"

definition shard_handles :: "(nat \<times> nat) multiset \<Rightarrow> nat \<Rightarrow> nat multiset" where
  "shard_handles H i = image_mset snd (filter_mset (\<lambda>h. fst h = i) H)"

definition heap_all :: "(bytes \<Rightarrow> 'v \<Rightarrow> bool) \<Rightarrow> 'v heap \<Rightarrow> bool" where
  "heap_all P hp \<longleftrightarrow> (\<forall>a h. hp a = Some h \<longrightarrow> P (lh_key h) (lh_value h))"

definition sc_holds :: "'v ShardedLRUCache \<Rightarrow> (nat \<times> nat) multiset \<Rightarrow> (bytes \<Rightarrow> 'v \<Rightarrow> bool) \<Rightarrow> bool" where
  "sc_holds c H P \<longleftrightarrow> (\<exists>n. sc_ok n c (shard_handles H)) \<and> (\<forall>h \<in># H. fst h < kNumShards)
     \<and> (\<forall>i < kNumShards. heap_all P (lc_heap (sc_shard c ! i)))"

lemma shard_handles_add: "shard_handles (add_mset (i, e) H) = (shard_handles H)(i := shard_handles H i + {#e#})"
  by (auto simp: shard_handles_def fun_eq_iff)

lemma shard_handles_in: "(i, e) \<in># H \<Longrightarrow> e \<in># shard_handles H i"
  by (force simp: shard_handles_def image_iff)

lemma heap_all_le: "heap_le hp' hp \<Longrightarrow> heap_all P hp \<Longrightarrow> heap_all P hp'"
  unfolding heap_le_def same_entry_def heap_all_def by metis

lemma sc_holds_alive:
  assumes "sc_ok n c (shard_handles H)" and "(i, e) \<in># H" and "i < kNumShards"
  shows "\<exists>h. lc_heap (sc_shard c ! i) e = Some h"
proof -
  have "lc_ok (sc_shard c ! i) (shard_handles H i)" using assms(1,3) by (simp add: sc_ok_def shard_ok_def)
  from lc_ok_alive [OF this, of e] shard_handles_in [OF assms(2)] show ?thesis by auto
qed

text \<open>The value of a new handle.\<close>

lemma Cache_Insert_value:
  assumes "sc_ok n c hs" and "Cache_Insert c key v charge = ((i, e), c')"
  shows "Cache_Value c' (i, e) = Some v"
    and "heap_all P (lc_heap (sc_shard c ! i)) \<Longrightarrow> P key v \<Longrightarrow> heap_all P (lc_heap (sc_shard c' ! i))"
proof -
  note sh = Cache_Insert_shard [OF assms]
  have ok: "lc_ok (sc_shard c ! i) (hs i)" using assms(1) sh(2) by (simp add: sc_ok_def shard_ok_def)
  note I = LRUCache_Insert_ok [OF ok sh(3)]
  show "heap_all P (lc_heap (sc_shard c ! i)) \<Longrightarrow> P key v \<Longrightarrow> heap_all P (lc_heap (sc_shard c' ! i))"
    by (rule heap_all_le [OF I(5)]) (auto simp: heap_all_def)
  have "lc_heap (sc_shard c' ! i) e \<noteq> None" using lc_ok_alive [OF I(1), of e] by auto
  from heap_le_value [OF I(5) this] show "Cache_Value c' (i, e) = Some v" by (simp add: Cache_Value_def)
qed

lemma Cache_Lookup_shard:
  assumes "sc_ok n c hs" and "Cache_Lookup c key = (r, c')"
  shows "heap_all P (lc_heap (sc_shard c ! j)) \<Longrightarrow> heap_all P (lc_heap (sc_shard c' ! j))"
    and "r = Some (i, e) \<Longrightarrow> \<exists>h. lc_heap (sc_shard c' ! i) e = Some h \<and> lh_key h = key"
proof -
  let ?i = "Shard (HashSlice key)"
  have len: "?i < length (sc_shard c)" using assms(1) Shard_less by (simp add: sc_ok_def)
  obtain q s where s: "LRUCache_Lookup (sc_shard c ! ?i) key (HashSlice key) = (q, s)" "r = map_option (Pair ?i) q"
    "c' = c\<lparr>sc_shard := (sc_shard c)[?i := s]\<rparr>"
    using assms(2) by (auto simp: Cache_Lookup_def Let_def split: prod.splits)
  have ok: "lc_ok (sc_shard c ! ?i) (hs ?i)" using assms(1) Shard_less by (simp add: sc_ok_def shard_ok_def)
  note L = LRUCache_Lookup_ok [OF ok s(1)]
  show "heap_all P (lc_heap (sc_shard c ! j)) \<Longrightarrow> heap_all P (lc_heap (sc_shard c' ! j))"
    using heap_all_le [OF L(4)] len unfolding s(3) by (cases "j = ?i") simp_all
  assume "r = Some (i, e)"
  then have i: "i = ?i" "q = Some e" using s(2) by auto
  have m: "lh_matches (lc_heap (sc_shard c ! ?i)) key (HashSlice key) e"
    using L(1) HandleTable_Lookup_iff [OF lc_okD(1) [OF ok], of key "HashSlice key" e] i(2) by simp
  have "lc_heap s e \<noteq> None" using lc_ok_alive [OF L(2), of e] i(2) by auto
  then obtain g where g: "lc_heap s e = Some g" by auto
  have "lh_matches (lc_heap s) key (HashSlice key) e" using heap_le_matches [OF L(4)] m g by simp
  then show "\<exists>h. lc_heap (sc_shard c' ! i) e = Some h \<and> lh_key h = key"
    using g len unfolding s(3) i(1) by (auto simp: lh_matches_def)
qed

interpretation lru: entry_cache "Cache_Lookup :: 'v ShardedLRUCache \<Rightarrow> _" Cache_Insert Cache_Release Cache_Value sc_holds
proof
  fix c c' :: "'v ShardedLRUCache" and H k P
  assume c: "sc_holds c H P" "Cache_Lookup c k = (None, c')"
  then show "sc_holds c' H P"
    unfolding sc_holds_def using sc_ok_Lookup_miss [OF _ c(2)] Cache_Lookup_shard(1) [OF _ c(2)] by blast
next
  fix c c' :: "'v ShardedLRUCache" and H k h P
  assume c: "sc_holds c H P" "Cache_Lookup c k = (Some h, c')"
  obtain i e where h: "h = (i, e)" by (cases h)
  obtain n where ok: "sc_ok n c (shard_handles H)" using c(1) by (auto simp: sc_holds_def)
  note c2 = c(2) [unfolded h]
  have all: "\<forall>j < kNumShards. heap_all P (lc_heap (sc_shard c' ! j))"
    using c(1) Cache_Lookup_shard(1) [OF ok c2] by (auto simp: sc_holds_def)
  obtain g where g: "lc_heap (sc_shard c' ! i) e = Some g" "lh_key g = k" using Cache_Lookup_shard(2) [OF ok c2 refl] by blast
  have i: "i < kNumShards" by (rule sc_ok_Lookup_hit(2) [OF ok c2])
  have "sc_holds c' (add_mset h H) P"
    using sc_ok_Lookup_hit(1) [OF ok c2] c(1) all i by (auto simp: sc_holds_def h shard_handles_add)
  moreover have "Cache_Value c' h = Some (lh_value g) \<and> P k (lh_value g)"
    using g all i by (auto simp: Cache_Value_def h heap_all_def)
  ultimately show "sc_holds c' (add_mset h H) P \<and> (\<exists>v. Cache_Value c' h = Some v \<and> P k v)" by blast
next
  fix c c' :: "'v ShardedLRUCache" and H k v n h P
  assume c: "sc_holds c H P" "P k v" "Cache_Insert c k v n = (h, c')"
  obtain i e where h: "h = (i, e)" by (cases h)
  obtain m where ok: "sc_ok m c (shard_handles H)" using c(1) by (auto simp: sc_holds_def)
  note c3 = c(3) [unfolded h]
  have "heap_all P (lc_heap (sc_shard c' ! j))" if "j < kNumShards" for j
    using c(1,2) that Cache_Insert_value(2) [OF ok c3] Cache_Insert_shard(4) [OF ok c3, of j] by (cases "j = i") (auto simp: sc_holds_def)
  then show "sc_holds c' (add_mset h H) P \<and> Cache_Value c' h = Some v"
    using sc_ok_Insert [OF ok c3] Cache_Insert_value(1) [OF ok c3] c(1) by (auto simp: sc_holds_def h shard_handles_add)
next
  fix c :: "'v ShardedLRUCache" and h H P
  assume c: "sc_holds c (add_mset h H) P"
  obtain i e where h: "h = (i, e)" by (cases h)
  obtain n where ok: "sc_ok n c (shard_handles (add_mset (i, e) H))" using c by (auto simp: sc_holds_def h)
  have i: "i < kNumShards" "e \<in># shard_handles (add_mset (i, e) H) i" using c by (auto simp: sc_holds_def h shard_handles_add)
  note R = sc_ok_Release [OF ok i]
  have "heap_all P (lc_heap (sc_shard (Cache_Release c (i, e)) ! j))" if "j < kNumShards" for j
    using c that heap_all_le [OF LRU_Unref_le, of P "sc_shard c ! i" e] ok unfolding R(2)
    by (cases "j = i") (auto simp: sc_holds_def sc_ok_def LRUCache_Release_def)
  moreover have "(shard_handles (add_mset (i, e) H))(i := shard_handles (add_mset (i, e) H) i - {#e#}) = shard_handles H"
    by (simp add: shard_handles_add fun_eq_iff)
  ultimately show "sc_holds (Cache_Release c h) H P" using R(1) c by (auto simp: sc_holds_def h)
next
  fix c :: "'v ShardedLRUCache" and h H P
  assume c: "sc_holds c H P" "h \<in># H"
  then show "\<exists>v. Cache_Value c h = Some v"
    using sc_holds_alive [of _ c H "fst h" "snd h"] by (auto simp: sc_holds_def Cache_Value_def split: prod.splits)
qed

lemma sc_holds_New: "sc_holds (NewLRUCache cap) {#} P"
proof -
  have "shard_handles {#} = (\<lambda>_. {#})" by (simp add: shard_handles_def fun_eq_iff)
  then show ?thesis using sc_ok_New [of cap]
    by (auto simp: sc_holds_def heap_all_def NewLRUCache_def Let_def SetCapacity_def LRUCache_make_def)
qed

lemma sc_holds_NewId: "sc_holds (snd (NewId c)) H P \<longleftrightarrow> sc_holds c H P"
  by (simp add: NewId_def Let_def sc_holds_def sc_ok_def)

end
