(* ===== verification/Merger.thy ===== *)
theory Merger
  imports Iterator "HOL-Library.Multiset"
begin

text \<open>
  The merging iterator of \<^verbatim>\<open>table/merger.cc\<close>.  Its children are objects of the class; \<^verbatim>\<open>current_\<close>, a pointer into the
  array of wrappers, is an index.  If the children satisfy the iterator contract on lists without common keys, the
  merging iterator satisfies it on the sorted merge of these lists, whatever way its direction changes.
\<close>

datatype Direction = kForward | kReverse

record ('s, 'c) MergingIterator =
  mi_children :: "('s, 'c) IteratorWrapper list"
  mi_current :: "nat option"
  mi_direction :: Direction

text \<open>The constructor puts the children into fresh wrappers; no object is deleted by that.\<close>

definition MergingIterator_make :: "('s, 'c) IterObj list \<Rightarrow> ('s, 'c) MergingIterator" where
  "MergingIterator_make children =
     \<lparr>mi_children = map (\<lambda>ob. fst (IteratorWrapper_Set (\<lambda>_ a. a) IteratorWrapper_make (Some ob) ())) children,
      mi_current = None, mi_direction = kForward\<rparr>"

definition MergingIterator_delete :: "('c \<Rightarrow> 'a \<Rightarrow> 'a) \<Rightarrow> ('s, 'c) MergingIterator \<Rightarrow> 'a \<Rightarrow> 'a" where
  "MergingIterator_delete run mi a = foldr (IteratorWrapper_delete run) (mi_children mi) a"

text \<open>The loop over the children, with their index.\<close>

primrec Merging_each :: "(nat \<Rightarrow> 'w \<Rightarrow> 'w option) \<Rightarrow> nat \<Rightarrow> 'w list \<Rightarrow> 'w list option" where
  "Merging_each f i [] = Some []"
| "Merging_each f i (w # ws) = Option.bind (f i w) (\<lambda>w'. map_option (Cons w') (Merging_each f (Suc i) ws))"

text \<open>The scan for the best valid child in a given order of the indexes.\<close>

definition Merging_scan :: "('s, 'c) IteratorWrapper list \<Rightarrow> (Slice \<Rightarrow> Slice \<Rightarrow> bool) \<Rightarrow> nat list \<Rightarrow> nat option" where
  "Merging_scan cs better is =
     foldl (\<lambda>best i. if IteratorWrapper_Valid (cs ! i) then
                       case best of
                         None \<Rightarrow> Some i
                       | Some b \<Rightarrow> if better (IteratorWrapper_key (cs ! i)) (IteratorWrapper_key (cs ! b)) then Some i else best
                     else best) None is"

definition FindSmallest :: "(Slice \<Rightarrow> Slice \<Rightarrow> int) \<Rightarrow> ('s, 'c) IteratorWrapper list \<Rightarrow> nat option" where
  "FindSmallest cmp cs = Merging_scan cs (\<lambda>child smallest. cmp child smallest < 0) [0..<length cs]"

definition FindLargest :: "(Slice \<Rightarrow> Slice \<Rightarrow> int) \<Rightarrow> ('s, 'c) IteratorWrapper list \<Rightarrow> nat option" where
  "FindLargest cmp cs = Merging_scan cs (\<lambda>child largest. cmp child largest > 0) (rev [0..<length cs])"

definition merging_forward :: "(Slice \<Rightarrow> Slice \<Rightarrow> int) \<Rightarrow> ('s, 'c) IteratorWrapper list \<Rightarrow> ('s, 'c) MergingIterator" where
  "merging_forward cmp cs = \<lparr>mi_children = cs, mi_current = FindSmallest cmp cs, mi_direction = kForward\<rparr>"

definition merging_reverse :: "(Slice \<Rightarrow> Slice \<Rightarrow> int) \<Rightarrow> ('s, 'c) IteratorWrapper list \<Rightarrow> ('s, 'c) MergingIterator" where
  "merging_reverse cmp cs = \<lparr>mi_children = cs, mi_current = FindLargest cmp cs, mi_direction = kReverse\<rparr>"

definition Merging_Valid :: "('s, 'c) MergingIterator \<Rightarrow> bool" where
  "Merging_Valid mi = (mi_current mi \<noteq> None)"

definition Merging_SeekToFirst :: "(Slice \<Rightarrow> Slice \<Rightarrow> int) \<Rightarrow> ('s, 'c) MergingIterator \<Rightarrow> ('s, 'c) MergingIterator option" where
  "Merging_SeekToFirst cmp mi =
     map_option (merging_forward cmp) (Merging_each (\<lambda>_. IteratorWrapper_SeekToFirst) 0 (mi_children mi))"

definition Merging_SeekToLast :: "(Slice \<Rightarrow> Slice \<Rightarrow> int) \<Rightarrow> ('s, 'c) MergingIterator \<Rightarrow> ('s, 'c) MergingIterator option" where
  "Merging_SeekToLast cmp mi =
     map_option (merging_reverse cmp) (Merging_each (\<lambda>_. IteratorWrapper_SeekToLast) 0 (mi_children mi))"

definition Merging_Seek :: "(Slice \<Rightarrow> Slice \<Rightarrow> int) \<Rightarrow> ('s, 'c) MergingIterator \<Rightarrow> Slice \<Rightarrow> ('s, 'c) MergingIterator option" where
  "Merging_Seek cmp mi target =
     map_option (merging_forward cmp) (Merging_each (\<lambda>_ child. IteratorWrapper_Seek child target) 0 (mi_children mi))"

text \<open>The repositioning of a child other than the current one when the direction changes.\<close>

definition Merging_after :: "(Slice \<Rightarrow> Slice \<Rightarrow> int) \<Rightarrow> Slice \<Rightarrow> ('s, 'c) IteratorWrapper \<Rightarrow> ('s, 'c) IteratorWrapper option" where
  "Merging_after cmp key child =
     Option.bind (IteratorWrapper_Seek child key)
       (\<lambda>child. if IteratorWrapper_Valid child \<and> cmp key (IteratorWrapper_key child) = 0
                then IteratorWrapper_Next child else Some child)"

definition Merging_before :: "Slice \<Rightarrow> ('s, 'c) IteratorWrapper \<Rightarrow> ('s, 'c) IteratorWrapper option" where
  "Merging_before key child =
     Option.bind (IteratorWrapper_Seek child key)
       (\<lambda>child. if IteratorWrapper_Valid child then IteratorWrapper_Prev child else IteratorWrapper_SeekToLast child)"

definition Merging_Next :: "(Slice \<Rightarrow> Slice \<Rightarrow> int) \<Rightarrow> ('s, 'c) MergingIterator \<Rightarrow> ('s, 'c) MergingIterator option" where
  "Merging_Next cmp mi =
     Option.bind (mi_current mi) (\<lambda>c.
       let key = IteratorWrapper_key (mi_children mi ! c) in
       Option.bind
         (if mi_direction mi \<noteq> kForward
          then Merging_each (\<lambda>i child. if i \<noteq> c then Merging_after cmp key child else Some child) 0 (mi_children mi)
          else Some (mi_children mi))
         (\<lambda>cs. map_option (\<lambda>w. merging_forward cmp (cs[c := w])) (IteratorWrapper_Next (cs ! c))))"

definition Merging_Prev :: "(Slice \<Rightarrow> Slice \<Rightarrow> int) \<Rightarrow> ('s, 'c) MergingIterator \<Rightarrow> ('s, 'c) MergingIterator option" where
  "Merging_Prev cmp mi =
     Option.bind (mi_current mi) (\<lambda>c.
       let key = IteratorWrapper_key (mi_children mi ! c) in
       Option.bind
         (if mi_direction mi \<noteq> kReverse
          then Merging_each (\<lambda>i child. if i \<noteq> c then Merging_before key child else Some child) 0 (mi_children mi)
          else Some (mi_children mi))
         (\<lambda>cs. map_option (\<lambda>w. merging_reverse cmp (cs[c := w])) (IteratorWrapper_Prev (cs ! c))))"

definition Merging_key :: "('s, 'c) MergingIterator \<Rightarrow> Slice" where
  "Merging_key mi = IteratorWrapper_key (mi_children mi ! the (mi_current mi))"

definition Merging_value :: "('s, 'c) MergingIterator \<Rightarrow> Slice" where
  "Merging_value mi = IteratorWrapper_value (mi_children mi ! the (mi_current mi))"

primrec Merging_status_loop :: "Status \<Rightarrow> ('s, 'c) IteratorWrapper list \<Rightarrow> Status" where
  "Merging_status_loop status [] = status"
| "Merging_status_loop status (w # ws) =
     (let status = IteratorWrapper_status w in if Status_ok status then Merging_status_loop status ws else status)"

definition Merging_status :: "('s, 'c) MergingIterator \<Rightarrow> Status" where
  "Merging_status mi = Merging_status_loop Status_OK (mi_children mi)"

definition Merging_Iterator :: "(Slice \<Rightarrow> Slice \<Rightarrow> int) \<Rightarrow> ('s, 'c) MergingIterator Iterator" where
  "Merging_Iterator cmp =
     \<lparr>it_Valid = Merging_Valid, it_SeekToFirst = Merging_SeekToFirst cmp, it_SeekToLast = Merging_SeekToLast cmp,
      it_Seek = Merging_Seek cmp, it_Next = Merging_Next cmp, it_Prev = Merging_Prev cmp,
      it_key = Merging_key, it_value = Merging_value, it_status = Merging_status\<rparr>"

text \<open>The factory returns an empty iterator, the only child, or a merging iterator.\<close>

type_synonym ('s, 'c) Merged = "Status + (('s, 'c) IterObj + ('s, 'c) MergingIterator)"

definition Merged_Iterator :: "(Slice \<Rightarrow> Slice \<Rightarrow> int) \<Rightarrow> ('s, 'c) Merged Iterator" where
  "Merged_Iterator cmp = sum_Iterator EmptyIterator (sum_Iterator obj_Iterator (Merging_Iterator cmp))"

definition NewMergingIterator :: "('s, 'c) IterObj list \<Rightarrow> ('s, 'c) Merged" where
  "NewMergingIterator list =
     (if length list = 0 then Inl Status_OK
      else if length list = 1 then Inr (Inl (list ! 0))
      else Inr (Inr (MergingIterator_make list)))"

subsection \<open>Positions in sorted lists\<close>

definition fpos :: "('a \<Rightarrow> bool) \<Rightarrow> 'a list \<Rightarrow> nat option" where
  "fpos P L = index_in L (length (takeWhile P L))"

definition bpos :: "('a \<Rightarrow> bool) \<Rightarrow> 'a list \<Rightarrow> nat option" where
  "bpos P L = index_before (length (takeWhile P L))"

text \<open>Position \<open>p\<close> holds the extreme one of the elements that satisfy \<open>Q\<close>.\<close>

definition extreme :: "('a \<Rightarrow> 'a \<Rightarrow> bool) \<Rightarrow> ('a \<Rightarrow> bool) \<Rightarrow> 'a list \<Rightarrow> nat option \<Rightarrow> bool" where
  "extreme le Q L p = (case p of
      None \<Rightarrow> \<forall>x \<in> set L. \<not> Q x
    | Some j \<Rightarrow> j < length L \<and> Q (L ! j) \<and> (\<forall>x \<in> set L. Q x \<longrightarrow> le (L ! j) x))"

abbreviation key_before :: "('k \<Rightarrow> 'k \<Rightarrow> int) \<Rightarrow> 'k \<Rightarrow> 'k \<times> 'v \<Rightarrow> bool" where
  "key_before cmp k \<equiv> \<lambda>e. cmp (fst e) k < 0"

abbreviation key_upto :: "('k \<Rightarrow> 'k \<Rightarrow> int) \<Rightarrow> 'k \<Rightarrow> 'k \<times> 'v \<Rightarrow> bool" where
  "key_upto cmp k \<equiv> \<lambda>e. cmp (fst e) k \<le> 0"

definition downward :: "('k \<Rightarrow> 'k \<Rightarrow> int) \<Rightarrow> ('k \<times> 'v \<Rightarrow> bool) \<Rightarrow> bool" where
  "downward cmp P \<longleftrightarrow> (\<forall>a b. cmp (fst a) (fst b) \<le> 0 \<longrightarrow> P b \<longrightarrow> P a)"

lemma fpos_lower_bound: "index_in L (lower_bound cmp L k) = fpos (key_before cmp k) L"
  by (simp add: fpos_def lower_bound_def)

lemma fpos_False: "fpos (\<lambda>_. False) L = index_in L 0"
  by (cases L) (simp_all add: fpos_def)

lemma bpos_True: "bpos (\<lambda>_. True) L = index_before (length L)"
  unfolding bpos_def by (simp add: takeWhile_eq_all_conv [THEN iffD2])

context comparator
begin

lemma sorted_le:
  assumes "sorted_wrt (\<lambda>a b. cmp (fst a) (fst b) < 0) L" and "i \<le> j" and "j < length L"
  shows "cmp (fst (L ! i)) (fst (L ! j)) \<le> 0"
  using sorted_wrt_nth_less [OF assms(1), of i j] assms(2,3) by (cases "i = j") auto

lemma extreme_fpos:
  assumes "sorted_wrt (\<lambda>a b. cmp (fst a) (fst b) < 0) L" and "\<And>a b. cmp (fst a) (fst b) \<le> 0 \<Longrightarrow> P b \<Longrightarrow> P a"
  shows "extreme (\<lambda>a b. cmp (fst a) (fst b) \<le> 0) (\<lambda>e. \<not> P e) L (fpos P L)"
proof (cases "length (takeWhile P L) < length L")
  case True
  let ?j = "length (takeWhile P L)"
  have "cmp (fst (L ! ?j)) (fst x) \<le> 0" if x: "x \<in> set L" "\<not> P x" for x
  proof -
    obtain i where i: "i < length L" "x = L ! i" using x(1) by (auto simp: in_set_conv_nth)
    then have "?j \<le> i" using x(2) nth_mem [of i "takeWhile P L"] set_takeWhileD [of x P L] List.takeWhile_nth [of i P L] by (metis not_less)
    then show ?thesis using sorted_le [OF assms(1)] i by simp
  qed
  then show ?thesis using True nth_length_takeWhile [OF True] by (simp add: extreme_def fpos_def index_in_def)
next
  case False
  then have "takeWhile P L = L" by (metis length_takeWhile_le linorder_neqE_nat not_le takeWhile_eq_take take_all)
  then show ?thesis using False by (auto simp: extreme_def fpos_def index_in_def takeWhile_eq_all_conv)
qed

lemma extreme_bpos:
  assumes "sorted_wrt (\<lambda>a b. cmp (fst a) (fst b) < 0) L" and "\<And>a b. cmp (fst a) (fst b) \<le> 0 \<Longrightarrow> P b \<Longrightarrow> P a"
  shows "extreme (\<lambda>a b. cmp (fst b) (fst a) \<le> 0) P L (bpos P L)"
proof -
  let ?j = "length (takeWhile P L)"
  have len: "?j \<le> length L" by (rule length_takeWhile_le)
  have before: "i < ?j" if "i < length L" "P (L ! i)" for i
  proof (rule ccontr)
    assume "\<not> i < ?j"
    then have j: "?j \<le> i" "?j < length L" using that(1) by simp_all
    have "P (L ! ?j)" using assms(2) [OF sorted_le [OF assms(1) j(1) that(1)] that(2)] .
    then show False using nth_length_takeWhile [OF j(2)] by simp
  qed
  have P: "P (L ! (?j - 1))" if "0 < ?j"
  proof -
    have j: "?j - 1 < ?j" using that by simp
    then have "L ! (?j - 1) \<in> set (takeWhile P L)" using nth_mem [OF j] unfolding List.takeWhile_nth [OF j] by simp
    then show ?thesis by (rule set_takeWhileD [THEN conjunct2])
  qed
  show ?thesis
  proof (cases "?j = 0")
    case True
    have "\<not> P x" if x: "x \<in> set L" for x
    proof -
      obtain i where i: "i < length L" "x = L ! i" using x by (auto simp: in_set_conv_nth)
      show ?thesis using before [OF i(1)] True i(2) by auto
    qed
    then show ?thesis using True by (simp add: extreme_def bpos_def index_before_def)
  next
    case False
    then have "?j - 1 < length L" using len by linarith
    moreover have "cmp (fst x) (fst (L ! (?j - 1))) \<le> 0" if x: "x \<in> set L" "P x" for x
    proof -
      obtain i where i: "i < length L" "x = L ! i" using x(1) by (auto simp: in_set_conv_nth)
      then have "i \<le> ?j - 1" using before [OF i(1)] x(2) by simp
      then show ?thesis using sorted_le [OF assms(1), of i "?j - 1"] \<open>?j - 1 < length L\<close> i(2) by simp
    qed
    ultimately show ?thesis using False P by (simp add: extreme_def bpos_def index_before_def)
  qed
qed

lemma takeWhile_before:
  assumes "sorted_wrt (\<lambda>a b. cmp (fst a) (fst b) < 0) L" and "j < length L"
  shows "length (takeWhile (key_before cmp (fst (L ! j))) L) = j"
    and "length (takeWhile (key_upto cmp (fst (L ! j))) L) = Suc j"
proof -
  have "takeWhile (key_before cmp (fst (L ! j))) L = take j L"
    by (rule takeWhile_eq_take_P_nth) (use sorted_wrt_nth_less [OF assms(1), of _ j] assms(2) in auto)
  then show "length (takeWhile (key_before cmp (fst (L ! j))) L) = j" using assms(2) by simp
  have "takeWhile (key_upto cmp (fst (L ! j))) L = take (Suc j) L"
  proof (rule takeWhile_eq_take_P_nth)
    show "cmp (fst (L ! i)) (fst (L ! j)) \<le> 0" if "i < Suc j" "i < length L" for i
      using sorted_le [OF assms(1), of i j] that assms(2) by simp
    show "\<not> cmp (fst (L ! Suc j)) (fst (L ! j)) \<le> 0" if "Suc j < length L"
      using sorted_wrt_nth_less [OF assms(1), of j "Suc j"] that cmp_swap [of "fst (L ! j)" "fst (L ! Suc j)"] by simp
  qed
  then show "length (takeWhile (key_upto cmp (fst (L ! j))) L) = Suc j" using assms(2) by simp
qed

lemma sorted_zero_eq:
  assumes "sorted_wrt (\<lambda>a b. cmp (fst a) (fst b) < 0) L" and "x \<in> set L" and "y \<in> set L" and "cmp (fst x) (fst y) = 0"
  shows "x = y"
proof -
  obtain i j where ij: "i < length L" "x = L ! i" "j < length L" "y = L ! j" using assms(2,3) by (auto simp: in_set_conv_nth)
  have "\<not> i < j" using sorted_wrt_nth_less [OF assms(1), of i j] ij assms(4) by auto
  moreover have "\<not> j < i"
    using sorted_wrt_nth_less [OF assms(1), of j i] ij assms(4) cmp_zero_swap [of "fst x" "fst y"] by auto
  ultimately show ?thesis using ij by simp
qed

lemma sorted_distinct: "sorted_wrt (\<lambda>a b. cmp (fst a) (fst b) < 0) L \<Longrightarrow> distinct L"
  by (induction L) auto

lemma downward_key: "downward cmp (key_before cmp k)" "downward cmp (key_upto cmp k)"
  unfolding downward_def by (blast intro: cmp_le_less_trans cmp_le_trans)+

end

lemma distinct_concat_nth:
  assumes "distinct (concat Ls)" and "i < length Ls" and "j < length Ls" and "i \<noteq> j"
  shows "set (Ls ! i) \<inter> set (Ls ! j) = {}"
  using assms
proof (induction Ls arbitrary: i j)
  case (Cons L Ls)
  have "set L \<inter> set (Ls ! k) = {}" if "k < length Ls" for k
    using Cons.prems(1) nth_mem [OF that] by fastforce
  then show ?case using Cons by (cases i; cases j) (auto simp: Int_commute)
qed simp

subsection \<open>Scanning the children\<close>

definition children_at :: "(Slice \<Rightarrow> Slice \<Rightarrow> int) \<Rightarrow> ('s, 'c) IteratorWrapper list \<Rightarrow> entries list \<Rightarrow> (nat \<Rightarrow> nat option) \<Rightarrow> bool" where
  "children_at cmp cs Ls q \<longleftrightarrow> length cs = length Ls \<and> (\<forall>i < length cs. wrapper_at cmp (cs ! i) (Ls ! i) (q i))"

lemma Merging_each_at:
  assumes "\<forall>i < length ws. \<exists>w. f (k + i) (ws ! i) = Some w \<and> Q (k + i) w"
  shows "\<exists>ws'. Merging_each f k ws = Some ws' \<and> length ws' = length ws \<and> (\<forall>i < length ws. Q (k + i) (ws' ! i))"
  using assms
proof (induction ws arbitrary: k)
  case (Cons w ws)
  obtain w' where w': "f k w = Some w'" "Q k w'" using Cons.prems by (metis add.right_neutral length_Cons nth_Cons_0 zero_less_Suc)
  have "\<forall>i < length ws. \<exists>w. f (Suc k + i) (ws ! i) = Some w \<and> Q (Suc k + i) w" using Cons.prems by fastforce
  from Cons.IH [OF this] obtain ws' where
    ws': "Merging_each f (Suc k) ws = Some ws'" "length ws' = length ws" "\<forall>i < length ws. Q (Suc k + i) (ws' ! i)" by blast
  then show ?case using w' by (auto simp: nth_Cons split: nat.splits)
qed simp

lemma Merging_each_children:
  assumes "children_at cmp cs Ls q"
    and "\<And>i. i < length cs \<Longrightarrow> wrapper_at cmp (cs ! i) (Ls ! i) (q i) \<Longrightarrow>
           \<exists>w. f i (cs ! i) = Some w \<and> wrapper_at cmp w (Ls ! i) (r i)"
  shows "\<exists>cs'. Merging_each f 0 cs = Some cs' \<and> children_at cmp cs' Ls r"
proof -
  have "\<forall>i < length cs. \<exists>w. f (0 + i) (cs ! i) = Some w \<and> wrapper_at cmp w (Ls ! (0 + i)) (r (0 + i))"
    using assms by (auto simp: children_at_def)
  from Merging_each_at [OF this] show ?thesis using assms(1) by (auto simp: children_at_def)
qed

lemma Merging_scan_best:
  assumes "transp better" and "irreflp better"
  shows "case Merging_scan cs better ids of
      None \<Rightarrow> \<forall>i \<in> set ids. \<not> IteratorWrapper_Valid (cs ! i)
    | Some b \<Rightarrow> b \<in> set ids \<and> IteratorWrapper_Valid (cs ! b)
        \<and> (\<forall>i \<in> set ids. IteratorWrapper_Valid (cs ! i) \<longrightarrow> \<not> better (IteratorWrapper_key (cs ! i)) (IteratorWrapper_key (cs ! b)))"
proof (induction ids rule: rev_induct)
  case (snoc i ids)
  note IH = snoc
  show ?case
  proof (cases "Merging_scan cs better ids")
    case None
    with IH show ?thesis by (auto simp: Merging_scan_def irreflpD [OF assms(2)] split: option.splits)
  next
    case (Some b)
    with IH transpD [OF assms(1)] irreflpD [OF assms(2)] show ?thesis by (simp add: Merging_scan_def) blast
  qed
qed (simp add: Merging_scan_def)

text \<open>The best child stands at the extreme entry of the merge.\<close>

lemma Merging_scan_extreme:
  assumes at: "children_at cmp cs Ls q" and ids: "set ids = {..<length cs}"
    and q: "\<forall>i < length cs. extreme le Q (Ls ! i) (q i)" and r: "extreme le Q es r"
    and es: "set es = \<Union> (set ` set Ls)"
    and le: "\<And>a b. le a b \<longleftrightarrow> \<not> better (fst b) (fst a)"
    and trans: "transp better"
    and irrefl: "irreflp better"
    and le_trans: "\<And>a b c. le a b \<Longrightarrow> le b c \<Longrightarrow> le a c"
    and anti: "\<And>a b. a \<in> set es \<Longrightarrow> b \<in> set es \<Longrightarrow> le a b \<Longrightarrow> le b a \<Longrightarrow> a = b"
  shows "case r of None \<Rightarrow> Merging_scan cs better ids = None
    | Some m \<Rightarrow> \<exists>c j. Merging_scan cs better ids = Some c \<and> c < length cs \<and> q c = Some j \<and> Ls ! c ! j = es ! m"
proof -
  have len: "length cs = length Ls" using at by (simp add: children_at_def)
  have w: "IteratorWrapper_Valid (cs ! i) \<longleftrightarrow> q i \<noteq> None" "q i = Some j \<Longrightarrow> IteratorWrapper_key (cs ! i) = fst (Ls ! i ! j)"
    if "i < length cs" for i j
    using at that wrapper_reads(1,3) [of cmp "cs ! i" "Ls ! i" "q i"] by (auto simp: children_at_def)
  have sub: "set (Ls ! i) \<subseteq> set es" if "i < length cs" for i using that len es by auto
  have ext: "j < length (Ls ! i) \<and> Q (Ls ! i ! j) \<and> (\<forall>x \<in> set (Ls ! i). Q x \<longrightarrow> le (Ls ! i ! j) x)"
    if "i < length cs" "q i = Some j" for i j using q that by (auto simp: extreme_def)
  note best = Merging_scan_best [of better ids cs, OF trans irrefl]
  show ?thesis
  proof (cases r)
    case None
    have "q i = None" if i: "i < length cs" for i
    proof (cases "q i")
      case (Some j)
      then show ?thesis using ext [OF i Some] sub [OF i] r None by (auto simp: extreme_def) (meson nth_mem subsetD)
    qed simp
    then show ?thesis using best None w(1) ids by (cases "Merging_scan cs better ids") auto
  next
    case (Some m)
    then have m: "m < length es" "Q (es ! m)" "\<forall>x \<in> set es. Q x \<longrightarrow> le (es ! m) x" using r by (simp_all add: extreme_def)
    then obtain i where i: "i < length cs" "es ! m \<in> set (Ls ! i)"
      using es len nth_mem [OF m(1)] by (auto simp: in_set_conv_nth [of _ Ls])
    then obtain j where j: "q i = Some j" using q m(2) by (cases "q i") (auto simp: extreme_def)
    note e = ext [OF i(1) j]
    obtain c where c: "Merging_scan cs better ids = Some c" using best w(1) [OF i(1)] j i(1) ids
      by (cases "Merging_scan cs better ids") auto
    then have cl: "c < length cs" and cv: "q c \<noteq> None"
      and cb: "\<not> better (IteratorWrapper_key (cs ! i)) (IteratorWrapper_key (cs ! c))"
      using best w(1) i(1) j ids by auto
    obtain k where k: "q c = Some k" using cv by auto
    note f = ext [OF cl k]
    let ?x = "Ls ! c ! k"
    have x: "?x \<in> set es" "Q ?x" using f sub [OF cl] nth_mem by auto
    have "le ?x (Ls ! i ! j)" using cb w(2) [OF i(1) j] w(2) [OF cl k] by (simp add: le)
    then have "le ?x (es ! m)" using le_trans e i(2) m(2) by blast
    moreover have "le (es ! m) ?x" using m(3) x by blast
    ultimately have "?x = es ! m" using anti x(1) nth_mem [OF m(1)] by blast
    with c cl k show ?thesis by (simp add: Some)
  qed
qed

subsection \<open>The contract\<close>

definition merge_of :: "(Slice \<Rightarrow> Slice \<Rightarrow> int) \<Rightarrow> entries \<Rightarrow> entries list \<Rightarrow> bool" where
  "merge_of cmp es Ls \<longleftrightarrow> comparator cmp \<and> entries_sorted cmp es \<and> mset es = mset (concat Ls)
     \<and> (\<forall>L \<in> set Ls. entries_sorted cmp L)"

text \<open>
  Moving forward, every child stands at its first entry not before the current key; moving backward, at its last
  entry up to it.
\<close>

definition direction_pos :: "(Slice \<Rightarrow> Slice \<Rightarrow> int) \<Rightarrow> Direction \<Rightarrow> Slice \<Rightarrow> entries \<Rightarrow> nat option" where
  "direction_pos cmp d k L = (case d of kForward \<Rightarrow> fpos (key_before cmp k) L | kReverse \<Rightarrow> bpos (key_upto cmp k) L)"

definition current_at :: "(Slice \<Rightarrow> Slice \<Rightarrow> int) \<Rightarrow> ('s, 'c) MergingIterator \<Rightarrow> entries list \<Rightarrow> (nat \<Rightarrow> nat option) \<Rightarrow> Slice \<times> Slice \<Rightarrow> bool" where
  "current_at cmp mi Ls q e \<longleftrightarrow> (\<exists>c j. mi_current mi = Some c \<and> c < length Ls \<and> q c = Some j \<and> Ls ! c ! j = e)
     \<and> (\<forall>i < length Ls. q i = direction_pos cmp (mi_direction mi) (fst e) (Ls ! i))"

definition merge_at :: "(Slice \<Rightarrow> Slice \<Rightarrow> int) \<Rightarrow> ('s, 'c) MergingIterator \<Rightarrow> entries \<Rightarrow> nat option \<Rightarrow> bool" where
  "merge_at cmp mi es p \<longleftrightarrow> (\<exists>Ls q. merge_of cmp es Ls \<and> children_at cmp (mi_children mi) Ls q
     \<and> (case p of None \<Rightarrow> mi_current mi = None | Some m \<Rightarrow> m < length es \<and> current_at cmp mi Ls q (es ! m)))"

lemma merge_of_set: "merge_of cmp es Ls \<Longrightarrow> set es = \<Union> (set ` set Ls)"
  unfolding merge_of_def by (metis set_concat set_mset_mset)

lemma merge_of_sorted:
  assumes "merge_of cmp es Ls"
  shows "comparator cmp" and "sorted_wrt (\<lambda>a b. cmp (fst a) (fst b) < 0) es"
    and "i < length Ls \<Longrightarrow> sorted_wrt (\<lambda>a b. cmp (fst a) (fst b) < 0) (Ls ! i)"
    and "i < length Ls \<Longrightarrow> x \<in> set (Ls ! i) \<Longrightarrow> x \<in> set es"
  using assms merge_of_set [OF assms] nth_mem [of i Ls] by (auto simp: merge_of_def entries_sorted_def)

lemma merging_forward_at:
  assumes m: "merge_of cmp es Ls" and at: "children_at cmp cs Ls q"
    and q: "\<And>i. i < length Ls \<Longrightarrow> q i = fpos P (Ls ! i)" and P: "downward cmp P"
  shows "merge_at cmp (merging_forward cmp cs) es (fpos P es)"
proof -
  note c = merge_of_sorted(1) [OF m]
  note trans = comparator.cmp_less_trans [OF c] and swap = comparator.cmp_swap [OF c]
  have P': "cmp (fst a) (fst b) \<le> 0 \<Longrightarrow> P b \<Longrightarrow> P a" for a b using P unfolding downward_def by blast
  have len: "length cs = length Ls" using at by (simp add: children_at_def)
  let ?le = "\<lambda>a b. cmp (fst a) (fst b) \<le> 0"
  have es: "extreme ?le (\<lambda>e. \<not> P e) es (fpos P es)"
    by (rule comparator.extreme_fpos [OF c merge_of_sorted(2) [OF m] P'])
  have Ls: "\<forall>i < length cs. extreme ?le (\<lambda>e. \<not> P e) (Ls ! i) (q i)"
    using comparator.extreme_fpos [OF c merge_of_sorted(3) [OF m] P'] q len by simp
  have find: "case fpos P es of None \<Rightarrow> FindSmallest cmp cs = None
      | Some m \<Rightarrow> \<exists>c j. FindSmallest cmp cs = Some c \<and> c < length cs \<and> q c = Some j \<and> Ls ! c ! j = es ! m"
    unfolding FindSmallest_def
  proof (rule Merging_scan_extreme [OF at _ Ls es merge_of_set [OF m]])
    show "cmp (fst a) (fst b) \<le> 0 \<longleftrightarrow> \<not> cmp (fst b) (fst a) < 0" for a b :: "Slice \<times> Slice"
      using comparator.cmp_ge_swap [OF c, of "fst b" "fst a"] by auto
    show "a = b" if "a \<in> set es" "b \<in> set es" "?le a b" "?le b a" for a b
      using comparator.sorted_zero_eq [OF c merge_of_sorted(2) [OF m] that(1,2)] that(3,4) swap [of "fst a" "fst b"] by linarith
  qed (use trans comparator.cmp_le_trans [OF c] comparator.cmp_refl [OF c] in \<open>auto intro!: transpI irreflpI\<close>)
  show ?thesis
  proof (cases "fpos P es")
    case None
    then show ?thesis using find m at by (auto simp: merge_at_def merging_forward_def)
  next
    case (Some k)
    then have k: "k < length es" "\<not> P (es ! k)" "\<forall>x \<in> set es. \<not> P x \<longrightarrow> ?le (es ! k) x" using es by (auto simp: extreme_def)
    have "P x \<longleftrightarrow> cmp (fst x) (fst (es ! k)) < 0" if "x \<in> set es" for x
      using k(2,3) that P' [of "es ! k" x] swap [of "fst x" "fst (es ! k)"] comparator.cmp_ge_swap [OF c, of "fst x" "fst (es ! k)"]
      by fastforce
    then have "q i = direction_pos cmp kForward (fst (es ! k)) (Ls ! i)" if i: "i < length Ls" for i
      using merge_of_sorted(4) [OF m i] takeWhile_cong [OF refl, of "Ls ! i" P "key_before cmp (fst (es ! k))"]
      by (simp add: direction_pos_def q [OF i] fpos_def)
    then have "current_at cmp (merging_forward cmp cs) Ls q (es ! k)"
      using find Some len by (auto simp: current_at_def merging_forward_def)
    then show ?thesis using m at k(1) Some by (auto simp: merge_at_def merging_forward_def)
  qed
qed

lemma merging_reverse_at:
  assumes m: "merge_of cmp es Ls" and at: "children_at cmp cs Ls q"
    and q: "\<And>i. i < length Ls \<Longrightarrow> q i = bpos P (Ls ! i)" and P: "downward cmp P"
  shows "merge_at cmp (merging_reverse cmp cs) es (bpos P es)"
proof -
  note c = merge_of_sorted(1) [OF m]
  note trans = comparator.cmp_less_trans [OF c] and swap = comparator.cmp_swap [OF c]
  have P': "cmp (fst a) (fst b) \<le> 0 \<Longrightarrow> P b \<Longrightarrow> P a" for a b using P unfolding downward_def by blast
  have len: "length cs = length Ls" using at by (simp add: children_at_def)
  let ?le = "\<lambda>a b. cmp (fst b) (fst a) \<le> 0"
  have es: "extreme ?le P es (bpos P es)"
    by (rule comparator.extreme_bpos [OF c merge_of_sorted(2) [OF m] P'])
  have Ls: "\<forall>i < length cs. extreme ?le P (Ls ! i) (q i)"
    using comparator.extreme_bpos [OF c merge_of_sorted(3) [OF m] P'] q len by simp
  have find: "case bpos P es of None \<Rightarrow> FindLargest cmp cs = None
      | Some m \<Rightarrow> \<exists>c j. FindLargest cmp cs = Some c \<and> c < length cs \<and> q c = Some j \<and> Ls ! c ! j = es ! m"
    unfolding FindLargest_def
  proof (rule Merging_scan_extreme [OF at _ Ls es merge_of_set [OF m]])
    show "cmp (fst b) (fst a) \<le> 0 \<longleftrightarrow> \<not> cmp (fst b) (fst a) > 0" for a b :: "Slice \<times> Slice" by auto
    show "a = b" if "a \<in> set es" "b \<in> set es" "?le a b" "?le b a" for a b
      using comparator.sorted_zero_eq [OF c merge_of_sorted(2) [OF m] that(1,2)] that(3,4) swap [of "fst a" "fst b"] by linarith
  qed (use trans swap comparator.cmp_le_trans [OF c] comparator.cmp_refl [OF c] in \<open>auto intro!: transpI irreflpI\<close>)
  show ?thesis
  proof (cases "bpos P es")
    case None
    then show ?thesis using find m at by (auto simp: merge_at_def merging_reverse_def)
  next
    case (Some k)
    then have k: "k < length es" "P (es ! k)" "\<forall>x \<in> set es. P x \<longrightarrow> ?le (es ! k) x" using es by (auto simp: extreme_def)
    have "P x \<longleftrightarrow> cmp (fst x) (fst (es ! k)) \<le> 0" if "x \<in> set es" for x
      using k(2,3) that P' [of x "es ! k"] by blast
    then have "q i = direction_pos cmp kReverse (fst (es ! k)) (Ls ! i)" if i: "i < length Ls" for i
      using merge_of_sorted(4) [OF m i] takeWhile_cong [OF refl, of "Ls ! i" P "key_upto cmp (fst (es ! k))"]
      by (simp add: direction_pos_def q [OF i] bpos_def)
    then have "current_at cmp (merging_reverse cmp cs) Ls q (es ! k)"
      using find Some len by (auto simp: current_at_def merging_reverse_def)
    then show ?thesis using m at k(1) Some by (auto simp: merge_at_def merging_reverse_def)
  qed
qed

text \<open>Only one child has an entry with the current key.\<close>

lemma merge_of_other:
  assumes m: "merge_of cmp es Ls" and c: "c < length Ls" "j < length (Ls ! c)" and i: "i < length Ls" "i \<noteq> c" "x \<in> set (Ls ! i)"
  shows "cmp (fst x) (fst (Ls ! c ! j)) \<noteq> 0"
proof
  assume "cmp (fst x) (fst (Ls ! c ! j)) = 0"
  then have "x = Ls ! c ! j"
    using comparator.sorted_zero_eq [OF merge_of_sorted(1,2) [OF m]] merge_of_sorted(4) [OF m] c i nth_mem by blast
  moreover have "distinct (concat Ls)"
    using comparator.sorted_distinct [OF merge_of_sorted(1,2) [OF m]] m unfolding merge_of_def by (metis mset_eq_imp_distinct_iff)
  ultimately show False using distinct_concat_nth [of Ls i c] c i by (metis disjoint_iff nth_mem)
qed

lemma merge_of_pos:
  assumes m: "merge_of cmp es Ls" and c: "c < length Ls" "j < length (Ls ! c)" and i: "i < length Ls" "i \<noteq> c"
  shows "takeWhile (key_upto cmp (fst (Ls ! c ! j))) (Ls ! i) = takeWhile (key_before cmp (fst (Ls ! c ! j))) (Ls ! i)"
proof (rule takeWhile_cong [OF refl])
  show "(cmp (fst x) (fst (Ls ! c ! j)) \<le> 0) = (cmp (fst x) (fst (Ls ! c ! j)) < 0)" if "x \<in> set (Ls ! i)" for x
    using merge_of_other [OF assms that] by linarith
qed

text \<open>The children other than the current one move to the other side of the current key.\<close>

lemma Merging_after_at:
  assumes "wrapper_at cmp w L p" and "key_fits k" and "\<And>x. x \<in> set L \<Longrightarrow> cmp (fst x) k \<noteq> 0"
  shows "\<exists>w'. Merging_after cmp k w = Some w' \<and> wrapper_at cmp w' L (fpos (key_before cmp k) L)"
proof -
  obtain w1 where w1: "IteratorWrapper_Seek w k = Some w1" "wrapper_at cmp w1 L (fpos (key_before cmp k) L)"
    using wrapper_moves(3) [OF assms(1,2)] by (auto simp: fpos_lower_bound)
  have "cmp k (IteratorWrapper_key w1) \<noteq> 0" if v: "IteratorWrapper_Valid w1"
  proof -
    obtain i where i: "fpos (key_before cmp k) L = Some i" using v wrapper_reads(1) [OF w1(2)] by auto
    from wrapper_reads(3) [OF w1(2) i] have "(IteratorWrapper_key w1, IteratorWrapper_value w1) \<in> set L" by (metis nth_mem)
    from assms(3) [OF this] comparator.cmp_zero_swap [OF wrapper_reads(4) [OF assms(1)]] show ?thesis by auto
  qed
  then show ?thesis using w1 by (auto simp: Merging_after_def)
qed

lemma Merging_before_at:
  assumes "wrapper_at cmp w L p" and "key_fits k"
  shows "\<exists>w'. Merging_before k w = Some w' \<and> wrapper_at cmp w' L (bpos (key_before cmp k) L)"
proof -
  let ?P = "key_before cmp k"
  obtain w1 where w1: "IteratorWrapper_Seek w k = Some w1" "wrapper_at cmp w1 L (fpos ?P L)"
    using wrapper_moves(3) [OF assms(1,2)] by (auto simp: fpos_lower_bound)
  show ?thesis
  proof (cases "length (takeWhile ?P L) < length L")
    case True
    then have p: "fpos ?P L = Some (length (takeWhile ?P L))" by (simp add: fpos_def index_in_def)
    show ?thesis using wrapper_moves(5) [OF w1(2) p] w1 wrapper_reads(1) [OF w1(2)] p by (auto simp: Merging_before_def bpos_def)
  next
    case False
    then have p: "fpos ?P L = None" "length (takeWhile ?P L) = length L"
      using length_takeWhile_le [of ?P L] by (simp_all add: fpos_def index_in_def)
    show ?thesis using wrapper_moves(2) [OF w1(2)] w1 wrapper_reads(1) [OF w1(2)] p by (auto simp: Merging_before_def bpos_def)
  qed
qed

lemma children_at_cong: "children_at cmp cs Ls q \<Longrightarrow> (\<And>i. i < length Ls \<Longrightarrow> q i = r i) \<Longrightarrow> children_at cmp cs Ls r"
  unfolding children_at_def by metis

lemma children_at_update:
  assumes "children_at cmp cs Ls q" and "c < length Ls" and "wrapper_at cmp w (Ls ! c) p"
  shows "children_at cmp (cs[c := w]) Ls (q(c := p))"
  using assms by (auto simp: children_at_def nth_list_update)

lemma Merging_status_OK: "children_at cmp cs Ls q \<Longrightarrow> Merging_status_loop Status_OK cs = Status_OK"
proof -
  assume "children_at cmp cs Ls q"
  then have "\<forall>w \<in> set cs. IteratorWrapper_status w = Status_OK"
    using wrapper_reads(2) by (fastforce simp: children_at_def in_set_conv_nth)
  then show ?thesis by (induction cs) (simp_all add: Let_def)
qed

text \<open>A current iterator and the position of its current child.\<close>

lemma current_atE:
  assumes m: "merge_of cmp es Ls" and at: "children_at cmp (mi_children mi) Ls q" and cur: "current_at cmp mi Ls q e"
  obtains c j where "mi_current mi = Some c" and "c < length Ls" and "q c = Some j" and "j < length (Ls ! c)" and "Ls ! c ! j = e"
    and "wrapper_at cmp (mi_children mi ! c) (Ls ! c) (Some j)" and "key_fits (fst e)"
    and "e = (IteratorWrapper_key (mi_children mi ! c), IteratorWrapper_value (mi_children mi ! c))"
proof -
  from cur obtain c j where c: "mi_current mi = Some c" "c < length Ls" "q c = Some j" "Ls ! c ! j = e"
    unfolding current_at_def by blast
  then have w: "wrapper_at cmp (mi_children mi ! c) (Ls ! c) (Some j)" using at by (auto simp: children_at_def)
  from wrapper_reads(3) [OF w refl] have j: "j < length (Ls ! c)" and "e = (IteratorWrapper_key (mi_children mi ! c), IteratorWrapper_value (mi_children mi ! c))"
    using c(4) by auto
  moreover have "key_fits (fst (Ls ! c ! j))" using wrapper_reads(5) [OF w] nth_mem [OF j] by (simp add: entries_sorted_def)
  ultimately show thesis using that [OF c(1,2,3) j c(4) w] c(4) by simp
qed

lemma Merging_Next_at:
  assumes m: "merge_of cmp es Ls" and at: "children_at cmp (mi_children mi) Ls q" and k: "k < length es"
    and cur: "current_at cmp mi Ls q (es ! k)"
  shows "\<exists>mi'. Merging_Next cmp mi = Some mi' \<and> merge_at cmp mi' es (index_in es (Suc k))"
proof -
  obtain c j where c: "mi_current mi = Some c" "c < length Ls" "q c = Some j" "j < length (Ls ! c)" "Ls ! c ! j = es ! k"
      and w: "wrapper_at cmp (mi_children mi ! c) (Ls ! c) (Some j)" and fits: "key_fits (fst (es ! k))"
      and e: "es ! k = (IteratorWrapper_key (mi_children mi ! c), IteratorWrapper_value (mi_children mi ! c))"
    by (rule current_atE [OF m at cur])
  let ?K = "fst (es ! k)" and ?q = "\<lambda>i. if i = c then q c else fpos (key_before cmp (fst (es ! k))) (Ls ! i)"
  have key: "IteratorWrapper_key (mi_children mi ! c) = ?K" using e by simp
  note cmp = merge_of_sorted(1) [OF m]
  have "\<exists>cs. (if mi_direction mi \<noteq> kForward
      then Merging_each (\<lambda>i child. if i \<noteq> c then Merging_after cmp ?K child else Some child) 0 (mi_children mi)
      else Some (mi_children mi)) = Some cs \<and> children_at cmp cs Ls ?q"
  proof (cases "mi_direction mi = kForward")
    case True
    then have "q i = ?q i" if "i < length Ls" for i using cur that by (simp add: current_at_def direction_pos_def)
    from children_at_cong [OF at this] have "children_at cmp (mi_children mi) Ls ?q" .
    then show ?thesis using True by simp
  next
    case False
    have "\<exists>cs. Merging_each (\<lambda>i child. if i \<noteq> c then Merging_after cmp ?K child else Some child) 0 (mi_children mi) = Some cs
        \<and> children_at cmp cs Ls ?q"
    proof (rule Merging_each_children [OF at])
      fix i assume i: "i < length (mi_children mi)" and wi: "wrapper_at cmp (mi_children mi ! i) (Ls ! i) (q i)"
      then have il: "i < length Ls" using at by (simp add: children_at_def)
      show "\<exists>w. (if i \<noteq> c then Merging_after cmp ?K (mi_children mi ! i) else Some (mi_children mi ! i)) = Some w
          \<and> wrapper_at cmp w (Ls ! i) (?q i)"
        using Merging_after_at [OF wi fits] merge_of_other [OF m c(2,4) il] c(5) wi by auto
    qed
    then show ?thesis using False by simp
  qed
  then obtain cs where cs: "(if mi_direction mi \<noteq> kForward
      then Merging_each (\<lambda>i child. if i \<noteq> c then Merging_after cmp ?K child else Some child) 0 (mi_children mi)
      else Some (mi_children mi)) = Some cs" "children_at cmp cs Ls ?q" by blast
  have "wrapper_at cmp (cs ! c) (Ls ! c) (Some j)" using cs(2) c(2,3) by (auto simp: children_at_def)
  from wrapper_moves(4) [OF this refl] obtain w' where
    w': "IteratorWrapper_Next (cs ! c) = Some w'" "wrapper_at cmp w' (Ls ! c) (index_in (Ls ! c) (Suc j))" by blast
  let ?P = "key_upto cmp ?K"
  have "(?q(c := index_in (Ls ! c) (Suc j))) i = fpos ?P (Ls ! i)" if i: "i < length Ls" for i
    using merge_of_pos [OF m c(2,4) i] comparator.takeWhile_before(2) [OF cmp merge_of_sorted(3) [OF m c(2)] c(4)] c(5)
    by (auto simp: fpos_def)
  from merging_forward_at [OF m children_at_update [OF cs(2) c(2) w'(2)] this comparator.downward_key(2) [OF cmp]]
  have "merge_at cmp (merging_forward cmp (cs[c := w'])) es (fpos ?P es)" .
  moreover have "fpos ?P es = index_in es (Suc k)"
    using comparator.takeWhile_before(2) [OF cmp merge_of_sorted(2) [OF m] k] by (simp add: fpos_def)
  moreover have "Merging_Next cmp mi = Some (merging_forward cmp (cs[c := w']))"
    by (simp only: Merging_Next_def c(1) Option.bind.bind_lunit Let_def key cs(1) w'(1) option.map)
  ultimately show ?thesis by simp
qed

lemma Merging_Prev_at:
  assumes m: "merge_of cmp es Ls" and at: "children_at cmp (mi_children mi) Ls q" and k: "k < length es"
    and cur: "current_at cmp mi Ls q (es ! k)"
  shows "\<exists>mi'. Merging_Prev cmp mi = Some mi' \<and> merge_at cmp mi' es (index_before k)"
proof -
  obtain c j where c: "mi_current mi = Some c" "c < length Ls" "q c = Some j" "j < length (Ls ! c)" "Ls ! c ! j = es ! k"
      and w: "wrapper_at cmp (mi_children mi ! c) (Ls ! c) (Some j)" and fits: "key_fits (fst (es ! k))"
      and e: "es ! k = (IteratorWrapper_key (mi_children mi ! c), IteratorWrapper_value (mi_children mi ! c))"
    by (rule current_atE [OF m at cur])
  let ?K = "fst (es ! k)" and ?q = "\<lambda>i. if i = c then q c else bpos (key_before cmp (fst (es ! k))) (Ls ! i)"
  have key: "IteratorWrapper_key (mi_children mi ! c) = ?K" using e by simp
  note cmp = merge_of_sorted(1) [OF m]
  have "\<exists>cs. (if mi_direction mi \<noteq> kReverse
      then Merging_each (\<lambda>i child. if i \<noteq> c then Merging_before ?K child else Some child) 0 (mi_children mi)
      else Some (mi_children mi)) = Some cs \<and> children_at cmp cs Ls ?q"
  proof (cases "mi_direction mi = kReverse")
    case True
    then have "q i = ?q i" if i: "i < length Ls" for i
      using cur i merge_of_pos [OF m c(2,4) i] c(5) by (simp add: current_at_def direction_pos_def bpos_def)
    from children_at_cong [OF at this] have "children_at cmp (mi_children mi) Ls ?q" .
    then show ?thesis using True by simp
  next
    case False
    have "\<exists>cs. Merging_each (\<lambda>i child. if i \<noteq> c then Merging_before ?K child else Some child) 0 (mi_children mi) = Some cs
        \<and> children_at cmp cs Ls ?q"
    proof (rule Merging_each_children [OF at])
      fix i assume i: "i < length (mi_children mi)" and wi: "wrapper_at cmp (mi_children mi ! i) (Ls ! i) (q i)"
      then have il: "i < length Ls" using at by (simp add: children_at_def)
      show "\<exists>w. (if i \<noteq> c then Merging_before ?K (mi_children mi ! i) else Some (mi_children mi ! i)) = Some w
          \<and> wrapper_at cmp w (Ls ! i) (?q i)"
        using Merging_before_at [OF wi fits] wi by auto
    qed
    then show ?thesis using False by simp
  qed
  then obtain cs where cs: "(if mi_direction mi \<noteq> kReverse
      then Merging_each (\<lambda>i child. if i \<noteq> c then Merging_before ?K child else Some child) 0 (mi_children mi)
      else Some (mi_children mi)) = Some cs" "children_at cmp cs Ls ?q" by blast
  have "wrapper_at cmp (cs ! c) (Ls ! c) (Some j)" using cs(2) c(2,3) by (auto simp: children_at_def)
  from wrapper_moves(5) [OF this refl] obtain w' where
    w': "IteratorWrapper_Prev (cs ! c) = Some w'" "wrapper_at cmp w' (Ls ! c) (index_before j)" by blast
  let ?P = "key_before cmp ?K"
  have "(?q(c := index_before j)) i = bpos ?P (Ls ! i)" if i: "i < length Ls" for i
    using comparator.takeWhile_before(1) [OF cmp merge_of_sorted(3) [OF m c(2)] c(4)] c(5)
    by (auto simp: bpos_def)
  from merging_reverse_at [OF m children_at_update [OF cs(2) c(2) w'(2)] this comparator.downward_key(1) [OF cmp]]
  have "merge_at cmp (merging_reverse cmp (cs[c := w'])) es (bpos ?P es)" .
  moreover have "bpos ?P es = index_before k"
    using comparator.takeWhile_before(1) [OF cmp merge_of_sorted(2) [OF m] k] by (simp add: bpos_def)
  moreover have "Merging_Prev cmp mi = Some (merging_reverse cmp (cs[c := w']))"
    by (simp only: Merging_Prev_def c(1) Option.bind.bind_lunit Let_def key cs(1) w'(1) option.map)
  ultimately show ?thesis by simp
qed

lemma MergingIterator_make_at:
  assumes "merge_of cmp es Ls" and "list_all2 (\<lambda>ob L. \<exists>p. obj_at cmp ob L p) obs Ls"
  shows "merge_at cmp (MergingIterator_make obs) es None"
proof -
  have len: "length obs = length Ls" using assms(2) by (rule list_all2_lengthD)
  have "\<forall>i < length obs. \<exists>p. obj_at cmp (obs ! i) (Ls ! i) p" using assms(2) by (simp add: list_all2_conv_all_nth)
  then obtain q where "\<forall>i < length obs. obj_at cmp (obs ! i) (Ls ! i) (q i)" by metis
  then have "children_at cmp (mi_children (MergingIterator_make obs)) Ls q"
    using len by (simp add: children_at_def MergingIterator_make_def IteratorWrapper_Set_at)
  then show ?thesis using assms(1) by (auto simp: merge_at_def MergingIterator_make_def)
qed

interpretation merging: iterator cmp "Merging_Iterator cmp :: ('s, 'c) MergingIterator Iterator" "merge_at cmp" for cmp
proof
  fix mi :: "('s, 'c) MergingIterator" and es p
  assume "merge_at cmp mi es p"
  then obtain Ls q where m: "merge_of cmp es Ls" and at: "children_at cmp (mi_children mi) Ls q"
    and cur: "case p of None \<Rightarrow> mi_current mi = None | Some k \<Rightarrow> k < length es \<and> current_at cmp mi Ls q (es ! k)"
    unfolding merge_at_def by blast
  note cmp = merge_of_sorted(1) [OF m]
  show "comparator cmp \<and> entries_sorted cmp es" using m by (simp add: merge_of_def)
  show "it_Valid (Merging_Iterator cmp) mi = (p \<noteq> None)"
    using cur by (cases p) (auto simp: Merging_Iterator_def Merging_Valid_def current_at_def)
  show "it_status (Merging_Iterator cmp) mi = Status_OK"
    using Merging_status_OK [OF at] by (simp add: Merging_Iterator_def Merging_status_def)
  obtain cs where cs: "Merging_each (\<lambda>_. IteratorWrapper_SeekToFirst) 0 (mi_children mi) = Some cs"
    "children_at cmp cs Ls (\<lambda>i. index_in (Ls ! i) 0)"
    using Merging_each_children [OF at, where f = "\<lambda>_. IteratorWrapper_SeekToFirst", OF wrapper_moves(1)] by blast
  have "downward cmp (\<lambda>_ :: Slice \<times> Slice. False)" "downward cmp (\<lambda>_ :: Slice \<times> Slice. True)" by (simp_all add: downward_def)
  note down = this
  from merging_forward_at [OF m cs(2) fpos_False [symmetric] down(1)] cs(1)
  show "\<exists>s'. it_SeekToFirst (Merging_Iterator cmp) mi = Some s' \<and> merge_at cmp s' es (index_in es 0)"
    by (simp add: Merging_Iterator_def Merging_SeekToFirst_def fpos_False)
  obtain cs where cs: "Merging_each (\<lambda>_. IteratorWrapper_SeekToLast) 0 (mi_children mi) = Some cs"
    "children_at cmp cs Ls (\<lambda>i. index_before (length (Ls ! i)))"
    using Merging_each_children [OF at, where f = "\<lambda>_. IteratorWrapper_SeekToLast", OF wrapper_moves(2)] by blast
  from merging_reverse_at [OF m cs(2) bpos_True [symmetric] down(2)] cs(1)
  show "\<exists>s'. it_SeekToLast (Merging_Iterator cmp) mi = Some s' \<and> merge_at cmp s' es (index_before (length es))"
    by (simp add: Merging_Iterator_def Merging_SeekToLast_def bpos_True)
  show "\<exists>s'. it_Seek (Merging_Iterator cmp) mi k = Some s' \<and> merge_at cmp s' es (index_in es (lower_bound cmp es k))"
    if k: "key_fits k" for k
  proof -
    obtain cs where cs: "Merging_each (\<lambda>_ child. IteratorWrapper_Seek child k) 0 (mi_children mi) = Some cs"
      "children_at cmp cs Ls (\<lambda>i. index_in (Ls ! i) (lower_bound cmp (Ls ! i) k))"
      using Merging_each_children [OF at, where f = "\<lambda>_ child. IteratorWrapper_Seek child k", OF wrapper_moves(3) [OF _ k]] by blast
    from merging_forward_at [OF m cs(2) fpos_lower_bound comparator.downward_key(1) [OF cmp]] cs(1)
    show ?thesis by (simp add: Merging_Iterator_def Merging_Seek_def fpos_lower_bound)
  qed
next
  fix mi :: "('s, 'c) MergingIterator" and es k
  assume "merge_at cmp mi es (Some k)"
  then obtain Ls q where m: "merge_of cmp es Ls" and at: "children_at cmp (mi_children mi) Ls q"
    and k: "k < length es" and cur: "current_at cmp mi Ls q (es ! k)"
    unfolding merge_at_def by auto
  show "k < length es \<and> es ! k = (it_key (Merging_Iterator cmp) mi, it_value (Merging_Iterator cmp) mi)"
    by (rule current_atE [OF m at cur]) (simp add: k Merging_Iterator_def Merging_key_def Merging_value_def)
  show "\<exists>s'. it_Next (Merging_Iterator cmp) mi = Some s' \<and> merge_at cmp s' es (index_in es (Suc k))"
    using Merging_Next_at [OF m at k cur] by (simp add: Merging_Iterator_def)
  show "\<exists>s'. it_Prev (Merging_Iterator cmp) mi = Some s' \<and> merge_at cmp s' es (index_before k)"
    using Merging_Prev_at [OF m at k cur] by (simp add: Merging_Iterator_def)
qed

context comparator
begin

lemma sorted_mset_unique:
  assumes "sorted_wrt (\<lambda>a b. cmp (fst a) (fst b) < 0) L" and "sorted_wrt (\<lambda>a b. cmp (fst a) (fst b) < 0) M"
    and "mset L = mset M"
  shows "L = M"
  using assms
proof (induction L arbitrary: M)
  case (Cons x L)
  then obtain y N where M: "M = y # N" by (cases M) auto
  have "x \<in> set (y # N)" "y \<in> set (x # L)" using Cons.prems(3) M by (metis list.set_intros(1) set_mset_mset)+
  moreover have "x \<in> set N \<Longrightarrow> y \<in> set L \<Longrightarrow> False" using Cons.prems(1,2) M cmp_swap [of "fst x" "fst y"] by fastforce
  ultimately have "x = y" by auto
  with Cons M show ?case by simp
qed simp

end

lemma merged_iterator: "iterator cmp (Merged_Iterator cmp) (case_sum (empty_at cmp) (case_sum (obj_at cmp) (merge_at cmp)))"
  unfolding Merged_Iterator_def
  by (intro sum_iterator empty.iterator_axioms obj.iterator_axioms merging.iterator_axioms)

lemma NewMergingIterator_at:
  assumes m: "merge_of cmp es Ls" and obs: "list_all2 (\<lambda>ob L. obj_at cmp ob L None) obs Ls"
  shows "case_sum (empty_at cmp) (case_sum (obj_at cmp) (merge_at cmp)) (NewMergingIterator obs) es None"
proof -
  have len: "length obs = length Ls" using obs by (rule list_all2_lengthD)
  consider "Ls = []" | L where "Ls = [L]" | "2 \<le> length Ls" by (cases Ls; cases "tl Ls") auto
  then show ?thesis
  proof cases
    case 1
    then show ?thesis using m len by (simp add: NewMergingIterator_def empty_at_def merge_of_def)
  next
    case 2
    then have "es = L" using m comparator.sorted_mset_unique [of cmp es L] by (simp add: merge_of_def entries_sorted_def)
    with 2 obs show ?thesis by (auto simp: NewMergingIterator_def list_all2_Cons2)
  next
    case 3
    have "list_all2 (\<lambda>ob L. \<exists>p. obj_at cmp ob L p) obs Ls" using obs by (rule list_all2_mono) blast
    from MergingIterator_make_at [OF m this] 3 len show ?thesis by (auto simp: NewMergingIterator_def)
  qed
qed

text \<open>
  C20.  A merging iterator over children that satisfy the iterator contract on lists without common keys behaves, for
  every sequence of moves and changes of direction, like a cursor on the sorted merge of these lists: the same
  entries, in the same order, with an OK status.
\<close>

theorem merging_iterator_trace:
  assumes "merge_of cmp es Ls" and "list_all2 (\<lambda>ob L. obj_at cmp ob L None) obs Ls" and "\<forall>m \<in> set ms. move_fits m"
  shows "Iterator_trace (Merged_Iterator cmp) ms (NewMergingIterator obs) = Iterator_trace (cursor cmp es) ms None"
  by (rule iterator.iterator_trace [OF merged_iterator NewMergingIterator_at [OF assms(1,2)] assms(3)])

theorem merging_iterator_trace_witness:
  "Iterator_trace (Merged_Iterator Slice_compare) [MSeek [2], MPrev, MNext, MNext, MPrev, MNext, MNext]
     (NewMergingIterator [Iterator_make (cursor Slice_compare [([1], [10]), ([3], [30])]) None :: (nat option, unit) IterObj,
        Iterator_make (cursor Slice_compare [([2], [20])]) None])
   = Some [(Some ([2], [20]), Status_OK), (Some ([1], [10]), Status_OK), (Some ([2], [20]), Status_OK),
       (Some ([3], [30]), Status_OK), (Some ([2], [20]), Status_OK), (Some ([3], [30]), Status_OK), (None, Status_OK)]"
proof -
  let ?A = "[([1], [10]), ([3], [30])] :: entries" and ?B = "[([2], [20])] :: entries"
    and ?es = "[([1], [10]), ([2], [20]), ([3], [30])] :: entries"
    and ?ms = "[MSeek [2], MPrev, MNext, MNext, MPrev, MNext, MNext]"
  have c: "comparator Slice_compare" by (rule slice.comparator_axioms)
  have s: "entries_sorted Slice_compare ?A" "entries_sorted Slice_compare ?B" "entries_sorted Slice_compare ?es"
    by (simp_all add: entries_sorted_def key_fits_def Slice_compare_def)
  have m: "merge_of Slice_compare ?es [?A, ?B]" using c s by (simp add: merge_of_def)
  have a: "obj_at Slice_compare (Iterator_make (cursor Slice_compare L) None :: (nat option, unit) IterObj) L None"
    if "entries_sorted Slice_compare L" for L
    by (rule obj_at_make [OF cursor.iterator_axioms]) (simp add: cursor_at_def c that)
  have "list_all2 (\<lambda>ob L. obj_at Slice_compare ob L None)
      [Iterator_make (cursor Slice_compare ?A) None :: (nat option, unit) IterObj, Iterator_make (cursor Slice_compare ?B) None] [?A, ?B]"
    using a [OF s(1)] a [OF s(2)] by simp
  from merging_iterator_trace [OF m this, of ?ms]
  show ?thesis
    by (simp add: key_fits_def Iterator_move_def Iterator_see_def cursor_def index_in_def index_before_def lower_bound_def
        Slice_compare_def)
qed

end
