(* ===== verification/Options.thy ===== *)
theory Options
  imports Format Bloom
begin

text \<open>
  The options (\<^verbatim>\<open>include/leveldb/options.h\<close>, \<^verbatim>\<open>util/options.cc\<close>).  The environment and the logger are not part of the
  record: the functions that use them take them as arguments.  For the block cache the record says whether there is
  one; its state is passed along.
\<close>

record Options =
  opt_comparator :: Comparator
  opt_create_if_missing :: bool
  opt_error_if_exists :: bool
  opt_paranoid_checks :: bool
  opt_write_buffer_size :: nat
  opt_max_open_files :: int
  opt_block_cache :: bool
  opt_block_size :: nat
  opt_block_restart_interval :: nat
  opt_compression :: CompressionType
  opt_filter_policy :: "FilterPolicy option"

definition Options_make :: Options where
  "Options_make =
     \<lparr>opt_comparator = BytewiseComparator, opt_create_if_missing = False, opt_error_if_exists = False,
      opt_paranoid_checks = False, opt_write_buffer_size = 4 * 2 ^ 20, opt_max_open_files = 1000,
      opt_block_cache = False, opt_block_size = 4096, opt_block_restart_interval = 16,
      opt_compression = kSnappyCompression, opt_filter_policy = None\<rparr>"

record ReadOptions =
  ro_verify_checksums :: bool
  ro_fill_cache :: bool
  ro_snapshot :: "u64 option"

definition ReadOptions_make :: ReadOptions where
  "ReadOptions_make = \<lparr>ro_verify_checksums = False, ro_fill_cache = True, ro_snapshot = None\<rparr>"

text \<open>The functions of the Snappy library (\<^verbatim>\<open>port::Snappy_...\<close>), which is not part of the sources.\<close>

record Snappy =
  sn_compress :: "bytes \<Rightarrow> bytes option"
  sn_length :: "bytes \<Rightarrow> nat option"
  sn_uncompress :: "bytes \<Rightarrow> bytes option"

text \<open>
  What the code relies on: what was compressed can be decompressed, and the length a compressed block announces is a
  32-bit number.
\<close>

definition snappy_ok :: "Snappy \<Rightarrow> bool" where
  "snappy_ok S \<longleftrightarrow> (\<forall>raw data. sn_compress S raw = Some data \<longrightarrow>
       sn_length S data = Some (length raw) \<and> sn_uncompress S data = Some raw)
     \<and> (\<forall>data n. sn_length S data = Some n \<longrightarrow> n < 2 ^ 32)"

text \<open>A port without Snappy: compression is not supported, and nothing compressed can be read.\<close>

definition no_snappy :: Snappy where
  "no_snappy = \<lparr>sn_compress = (\<lambda>_. None), sn_length = (\<lambda>_. None), sn_uncompress = (\<lambda>_. None)\<rparr>"

lemma no_snappy_ok [simp]: "snappy_ok no_snappy"
  by (simp add: snappy_ok_def no_snappy_def)

end
