(* ===== verification/TableBuilder.thy ===== *)
theory TableBuilder
  imports Options Block FilterBlock
begin

text \<open>
  The table builder of \<^verbatim>\<open>table/table_builder.cc\<close>.  The file is the state \<open>'f\<close> of a writable file with its \<open>fappend\<close> and
  \<open>fflush\<close>, which may fail.  \<^verbatim>\<open>compressed_output\<close> is empty between the calls and a local of \<^verbatim>\<open>WriteBlock\<close> here.
\<close>

record 'f TableBuilder =
  tb_options :: Options
  tb_index_block_options :: Options
  tb_file :: 'f
  tb_offset :: u64
  tb_status :: Status
  tb_data_block :: BlockBuilder
  tb_index_block :: BlockBuilder
  tb_last_key :: bytes
  tb_num_entries :: u64
  tb_closed :: bool
  tb_filter_block :: "(FilterPolicy \<times> FilterBlockBuilder) option"
  tb_pending_index_entry :: bool
  tb_pending_handle :: BlockHandle

type_synonym 'f fappend = "'f \<Rightarrow> bytes \<Rightarrow> Status \<times> 'f"
type_synonym 'f fflush = "'f \<Rightarrow> Status \<times> 'f"

definition TableBuilder_make :: "Options \<Rightarrow> 'f \<Rightarrow> 'f TableBuilder" where
  "TableBuilder_make options file =
     \<lparr>tb_options = options, tb_index_block_options = options\<lparr>opt_block_restart_interval := 1\<rparr>, tb_file = file,
      tb_offset = 0, tb_status = Status_OK, tb_data_block = BlockBuilder_make, tb_index_block = BlockBuilder_make,
      tb_last_key = [], tb_num_entries = 0, tb_closed = False,
      tb_filter_block = map_option (\<lambda>P. (P, StartBlock P FilterBlockBuilder_make 0)) (opt_filter_policy options),
      tb_pending_index_entry = False, tb_pending_handle = BlockHandle_make\<rparr>"

definition TableBuilder_ok :: "'f TableBuilder \<Rightarrow> bool" where
  "TableBuilder_ok r = Status_ok (tb_status r)"

text \<open>Two comparators are the same object if they have the same name.\<close>

definition ChangeOptions :: "'f TableBuilder \<Rightarrow> Options \<Rightarrow> Status \<times> 'f TableBuilder" where
  "ChangeOptions r options =
     (if Comparator_Name (opt_comparator options) \<noteq> Comparator_Name (opt_comparator (tb_options r))
      then (InvalidArgument (str ''changing comparator while building table'') [], r)
      else (Status_OK, r\<lparr>tb_options := options, tb_index_block_options := options\<lparr>opt_block_restart_interval := 1\<rparr>\<rparr>))"

definition WriteRawBlock :: "'f fappend \<Rightarrow> 'f TableBuilder \<Rightarrow> Slice \<Rightarrow> CompressionType \<Rightarrow> BlockHandle \<times> 'f TableBuilder" where
  "WriteRawBlock fappend r block_contents type =
     (let handle = \<lparr>bh_offset = tb_offset r, bh_size = of_nat (length block_contents)\<rparr>;
          (s, f) = fappend (tb_file r) block_contents;
          r = r\<lparr>tb_status := s, tb_file := f\<rparr>
      in if Status_ok s then
           let crc = Value block_contents;
               crc = Extend crc [CompressionType_num type];
               trailer = [CompressionType_num type] @ EncodeFixed32 (Mask crc);
               (s, f) = fappend (tb_file r) trailer;
               r = r\<lparr>tb_status := s, tb_file := f\<rparr>
           in (handle, if Status_ok s then r\<lparr>tb_offset := tb_offset r + of_nat (length block_contents + kBlockTrailerSize)\<rparr> else r)
         else (handle, r))"

text \<open>The contents and the type a block is stored with.\<close>

definition compress_block :: "Snappy \<Rightarrow> CompressionType \<Rightarrow> Slice \<Rightarrow> Slice \<times> CompressionType" where
  "compress_block S type raw =
     (case type of
        kNoCompression \<Rightarrow> (raw, kNoCompression)
      | kSnappyCompression \<Rightarrow>
          (case sn_compress S raw of
             None \<Rightarrow> (raw, kNoCompression)
           | Some compressed \<Rightarrow>
               if length compressed < length raw - length raw div 8 then (compressed, kSnappyCompression)
               else (raw, kNoCompression)))"

definition WriteBlock :: "'f fappend \<Rightarrow> Snappy \<Rightarrow> 'f TableBuilder \<Rightarrow> BlockBuilder \<Rightarrow> BlockHandle \<times> BlockBuilder \<times> 'f TableBuilder" where
  "WriteBlock fappend S r block =
     (let (raw, block) = BlockBuilder_Finish block;
          (block_contents, type) = compress_block S (opt_compression (tb_options r)) raw;
          (handle, r) = WriteRawBlock fappend r block_contents type
      in (handle, BlockBuilder_Reset block, r))"

definition filter_StartBlock :: "'f TableBuilder \<Rightarrow> 'f TableBuilder" where
  "filter_StartBlock r =
     r\<lparr>tb_filter_block := map_option (\<lambda>(P, fb). (P, StartBlock P fb (tb_offset r))) (tb_filter_block r)\<rparr>"

definition TableBuilder_Flush :: "'f fappend \<Rightarrow> 'f fflush \<Rightarrow> Snappy \<Rightarrow> 'f TableBuilder \<Rightarrow> 'f TableBuilder" where
  "TableBuilder_Flush fappend fflush S r =
     (if \<not> TableBuilder_ok r then r
      else if BlockBuilder_empty (tb_data_block r) then r
      else let (handle, block, r) = WriteBlock fappend S r (tb_data_block r);
               r = r\<lparr>tb_pending_handle := handle, tb_data_block := block\<rparr>;
               r = (if TableBuilder_ok r then
                      let (s, f) = fflush (tb_file r)
                      in r\<lparr>tb_pending_index_entry := True, tb_status := s, tb_file := f\<rparr>
                    else r)
           in filter_StartBlock r)"

text \<open>The index entry of the block before, with the given key.\<close>

definition add_index_entry :: "'f TableBuilder \<Rightarrow> bytes \<Rightarrow> 'f TableBuilder" where
  "add_index_entry r last_key =
     r\<lparr>tb_last_key := last_key,
       tb_index_block := BlockBuilder_Add (opt_block_restart_interval (tb_index_block_options r)) (tb_index_block r) last_key
         (BlockHandle_EncodeTo (tb_pending_handle r) []),
       tb_pending_index_entry := False\<rparr>"

definition TableBuilder_Add ::
  "'f fappend \<Rightarrow> 'f fflush \<Rightarrow> Snappy \<Rightarrow> 'f TableBuilder \<Rightarrow> Slice \<Rightarrow> Slice \<Rightarrow> 'f TableBuilder" where
  "TableBuilder_Add fappend fflush S r key value =
     (if \<not> TableBuilder_ok r then r
      else let r = (if tb_pending_index_entry r
                    then add_index_entry r (FindShortestSeparator (opt_comparator (tb_options r)) (tb_last_key r) key) else r);
               r = r\<lparr>tb_filter_block := map_option (\<lambda>(P, fb). (P, AddKey fb key)) (tb_filter_block r)\<rparr>;
               r = r\<lparr>tb_last_key := key, tb_num_entries := tb_num_entries r + 1,
                     tb_data_block := BlockBuilder_Add (opt_block_restart_interval (tb_options r)) (tb_data_block r) key value\<rparr>
           in if opt_block_size (tb_options r) \<le> CurrentSizeEstimate (tb_data_block r)
              then TableBuilder_Flush fappend fflush S r else r)"

text \<open>
  The key of the filter in the metaindex block, with the name of the policy of the options (which a change of options
  during the building must not take away).
\<close>

definition filter_meta_key :: "FilterPolicy \<Rightarrow> bytes" where
  "filter_meta_key P = str ''filter.'' @ FilterPolicy_Name P"

text \<open>The parts of \<^verbatim>\<open>Finish\<close>: the filter block, the metaindex block, the index block and the footer.\<close>

definition Finish_filter :: "'f fappend \<Rightarrow> 'f TableBuilder \<Rightarrow> BlockHandle \<times> 'f TableBuilder" where
  "Finish_filter fappend r =
     (case tb_filter_block r of
        Some (P, fb) \<Rightarrow>
          if TableBuilder_ok r then
            let (contents, fb) = FilterBlock_Finish P fb
            in WriteRawBlock fappend (r\<lparr>tb_filter_block := Some (P, fb)\<rparr>) contents kNoCompression
          else (BlockHandle_make, r)
      | None \<Rightarrow> (BlockHandle_make, r))"

definition Finish_metaindex :: "'f fappend \<Rightarrow> Snappy \<Rightarrow> BlockHandle \<Rightarrow> 'f TableBuilder \<Rightarrow> BlockHandle \<times> 'f TableBuilder" where
  "Finish_metaindex fappend S filter_block_handle r =
     (if TableBuilder_ok r then
        let meta_index_block =
              (case (tb_filter_block r, opt_filter_policy (tb_options r)) of
                 (Some _, Some P) \<Rightarrow>
                   BlockBuilder_Add (opt_block_restart_interval (tb_options r)) BlockBuilder_make (filter_meta_key P)
                     (BlockHandle_EncodeTo filter_block_handle [])
               | _ \<Rightarrow> BlockBuilder_make);
            (handle, _, r) = WriteBlock fappend S r meta_index_block
        in (handle, r)
      else (BlockHandle_make, r))"

definition Finish_index :: "'f fappend \<Rightarrow> Snappy \<Rightarrow> 'f TableBuilder \<Rightarrow> BlockHandle \<times> 'f TableBuilder" where
  "Finish_index fappend S r =
     (if TableBuilder_ok r then
        let r = (if tb_pending_index_entry r
                 then add_index_entry r (FindShortSuccessor (opt_comparator (tb_options r)) (tb_last_key r)) else r);
            (handle, block, r) = WriteBlock fappend S r (tb_index_block r)
        in (handle, r\<lparr>tb_index_block := block\<rparr>)
      else (BlockHandle_make, r))"

definition Finish_footer :: "'f fappend \<Rightarrow> BlockHandle \<Rightarrow> BlockHandle \<Rightarrow> 'f TableBuilder \<Rightarrow> 'f TableBuilder" where
  "Finish_footer fappend metaindex_block_handle index_block_handle r =
     (if TableBuilder_ok r then
        let footer_encoding = Footer_EncodeTo \<lparr>ft_metaindex_handle = metaindex_block_handle, ft_index_handle = index_block_handle\<rparr> [];
            (s, f) = fappend (tb_file r) footer_encoding;
            r = r\<lparr>tb_status := s, tb_file := f\<rparr>
        in if Status_ok s then r\<lparr>tb_offset := tb_offset r + of_nat (length footer_encoding)\<rparr> else r
      else r)"

definition TableBuilder_Finish ::
  "'f fappend \<Rightarrow> 'f fflush \<Rightarrow> Snappy \<Rightarrow> 'f TableBuilder \<Rightarrow> Status \<times> 'f TableBuilder" where
  "TableBuilder_Finish fappend fflush S r =
     (let r = TableBuilder_Flush fappend fflush S r;
          r = r\<lparr>tb_closed := True\<rparr>;
          (filter_block_handle, r) = Finish_filter fappend r;
          (metaindex_block_handle, r) = Finish_metaindex fappend S filter_block_handle r;
          (index_block_handle, r) = Finish_index fappend S r;
          r = Finish_footer fappend metaindex_block_handle index_block_handle r
      in (tb_status r, r))"

definition Abandon :: "'f TableBuilder \<Rightarrow> 'f TableBuilder" where
  "Abandon r = r\<lparr>tb_closed := True\<rparr>"

definition NumEntries :: "'f TableBuilder \<Rightarrow> u64" where
  "NumEntries r = tb_num_entries r"

definition FileSize :: "'f TableBuilder \<Rightarrow> u64" where
  "FileSize r = tb_offset r"

text \<open>Building a table: all the entries, then \<^verbatim>\<open>Finish\<close>.\<close>

definition TableBuilder_Adds :: "'f fappend \<Rightarrow> 'f fflush \<Rightarrow> Snappy \<Rightarrow> 'f TableBuilder \<Rightarrow> entries \<Rightarrow> 'f TableBuilder" where
  "TableBuilder_Adds fappend fflush S r es = foldl (\<lambda>r (k, v). TableBuilder_Add fappend fflush S r k v) r es"

definition build_table :: "'f fappend \<Rightarrow> 'f fflush \<Rightarrow> Snappy \<Rightarrow> Options \<Rightarrow> 'f \<Rightarrow> entries \<Rightarrow> Status \<times> 'f TableBuilder" where
  "build_table fappend fflush S opt f es = TableBuilder_Finish fappend fflush S (TableBuilder_Adds fappend fflush S (TableBuilder_make opt f) es)"

text \<open>After an error the calls do nothing.\<close>

lemma Adds_skip: "\<not> TableBuilder_ok r \<Longrightarrow> TableBuilder_Adds fappend fflush S r es = r"
  by (induction es) (auto simp: TableBuilder_Adds_def TableBuilder_Add_def)

subsection \<open>Files that may fail\<close>

locale fallible_file =
  fixes fappend :: "'f fappend"
    and fflush :: "'f fflush"
    and content :: "'f \<Rightarrow> bytes"
    and invar :: "'f \<Rightarrow> bool"
  assumes fappend_spec: "invar f \<Longrightarrow> fappend f d = (s, f') \<Longrightarrow> invar f' \<and> (Status_ok s \<longrightarrow> content f' = content f @ d)"
    and fflush_spec: "invar f \<Longrightarrow> fflush f = (s, f') \<Longrightarrow> invar f' \<and> (Status_ok s \<longrightarrow> content f' = content f)"

sublocale writable_file \<subseteq> fallible: fallible_file append flush content invar
proof
  show "invar f' \<and> (Status_ok s \<longrightarrow> content f' = content f @ d)" if "invar f" "append f d = (s, f')" for f d s f'
    using append_invar [OF that(1), of d] append_content [OF that(1), of d] that(2) by simp
  show "invar f' \<and> (Status_ok s \<longrightarrow> content f' = content f)" if "invar f" "flush f = (s, f')" for f s f'
    using flush_invar [OF that(1)] flush_content [OF that(1)] that(2) by simp
qed

subsection \<open>What a file holds\<close>

text \<open>A block written at \<open>pos\<close> with \<open>sz\<close> bytes, which reads back as \<open>raw\<close>.\<close>

definition handle_of :: "nat \<Rightarrow> nat \<Rightarrow> BlockHandle" where
  "handle_of pos sz = \<lparr>bh_offset = of_nat pos, bh_size = of_nat sz\<rparr>"

definition holds_block :: "Snappy \<Rightarrow> bytes \<Rightarrow> nat \<Rightarrow> nat \<Rightarrow> bytes \<Rightarrow> bool" where
  "holds_block S F pos sz raw \<longleftrightarrow> (\<exists>pre data t post. F = pre @ stored_block data t @ post \<and> pos = length pre \<and> sz = length data
     \<and> (t = kSnappyCompression \<longrightarrow> sn_length S data = Some (length raw) \<and> sn_uncompress S data = Some raw)
     \<and> (t = kNoCompression \<longrightarrow> raw = data))"

lemma holds_block_append: "holds_block S F pos sz raw \<Longrightarrow> holds_block S (F @ G) pos sz raw"
  unfolding holds_block_def by (metis append.assoc)

lemma holds_block_bound: "holds_block S F pos sz raw \<Longrightarrow> pos + sz + kBlockTrailerSize \<le> length F"
  by (auto simp: holds_block_def length_stored_block)

lemma holds_block_new:
  assumes "snappy_ok S" and "compress_block S type raw = (data, t)"
  shows "holds_block S (F @ stored_block data t) (length F) (length data) raw"
  unfolding holds_block_def
  by (rule exI [of _ F], rule exI [of _ data], rule exI [of _ t], rule exI [of _ "[]"])
    (use assms in \<open>auto simp: compress_block_def snappy_ok_def split: CompressionType.splits option.splits if_splits\<close>)

lemma compress_block_None [simp]: "compress_block S kNoCompression raw = (raw, kNoCompression)"
  by (simp add: compress_block_def)

definition block_builder :: "nat \<Rightarrow> entries \<Rightarrow> BlockBuilder" where
  "block_builder n es = foldl (\<lambda>b (k, v). BlockBuilder_Add n b k v) BlockBuilder_make es"

lemma block_builder_Nil [simp]: "block_builder n [] = BlockBuilder_make"
  by (simp add: block_builder_def)

lemma block_builder_snoc: "BlockBuilder_Add n (block_builder n es) k v = block_builder n (es @ [(k, v)])"
  by (simp add: block_builder_def)

lemma block_builder_Finish: "BlockBuilder_Finish (block_builder n es) = (block_of n es, snd (BlockBuilder_Finish (block_builder n es)))"
  by (simp add: block_of_def block_builder_def)

lemma BlockBuilder_Reset_make [simp]: "BlockBuilder_Reset b = BlockBuilder_make"
  by (cases b) (simp add: BlockBuilder_Reset_def BlockBuilder_make_def)

lemma block_builder_empty [simp]: "0 < n \<Longrightarrow> BlockBuilder_empty (block_builder n es) \<longleftrightarrow> es = []"
proof -
  assume "0 < n"
  then obtain ls rs where h: "builder_holds n (block_builder n es) ls rs" "map snd ls = es"
    using builder_run [OF BlockBuilder_make_holds, of n es] by (auto simp: block_builder_def)
  show ?thesis
  proof (cases es)
    case Nil
    then show ?thesis by (simp add: BlockBuilder_empty_def BlockBuilder_make_def)
  next
    case (Cons e es')
    then have "ls \<noteq> []" using h(2) by auto
    then have "layout ls \<noteq> []" using length_layout_ge [of ls] by (cases "layout ls") auto
    then show ?thesis using h(1) Cons by (simp add: BlockBuilder_empty_def builder_holds_def)
  qed
qed

subsection \<open>Writing blocks\<close>

context fallible_file
begin

lemma WriteRawBlock_spec:
  assumes "invar (tb_file r)" and "tb_offset r = of_nat (length (content (tb_file r)))"
    and "WriteRawBlock fappend r data t = (h, r')" and "TableBuilder_ok r'"
  shows "\<exists>f' s'. r' = r\<lparr>tb_status := s', tb_file := f', tb_offset := of_nat (length (content f'))\<rparr> \<and> Status_ok s' \<and> invar f'
    \<and> content f' = content (tb_file r) @ stored_block data t \<and> h = handle_of (length (content (tb_file r))) (length data)"
proof -
  obtain s1 f1 where 1: "fappend (tb_file r) data = (s1, f1)" by fastforce
  note a1 = fappend_spec [OF assms(1) 1]
  obtain s2 f2 where 2: "fappend f1 ([CompressionType_num t] @ EncodeFixed32 (Mask (Extend (Value data) [CompressionType_num t]))) = (s2, f2)"
    by fastforce
  have crc: "Extend (Value data) [CompressionType_num t] = Value (data @ [CompressionType_num t])" by (simp add: Value_append)
  have ok1: "Status_ok s1" using assms(3,4) 1 by (auto simp: WriteRawBlock_def TableBuilder_ok_def Let_def split: if_splits)
  have ok2: "Status_ok s2" using assms(3,4) 1 2 ok1 by (auto simp: WriteRawBlock_def TableBuilder_ok_def Let_def split: if_splits)
  note a2 = fappend_spec [OF _ 2]
  have c: "content f2 = content (tb_file r) @ stored_block data t"
    using a1 a2 ok1 ok2 by (simp add: stored_block_def crc)
  have "r' = r\<lparr>tb_status := s2, tb_file := f2, tb_offset := tb_offset r + of_nat (length data + kBlockTrailerSize)\<rparr>"
    "h = handle_of (length (content (tb_file r))) (length data)"
    using assms(2,3) 1 2 ok1 ok2 by (auto simp: WriteRawBlock_def Let_def handle_of_def)
  moreover have "tb_offset r + of_nat (length data + kBlockTrailerSize) = of_nat (length (content f2))"
    by (simp add: assms(2) c length_stored_block)
  ultimately show ?thesis using a1 a2 ok1 ok2 c by (intro exI [of _ f2] exI [of _ s2]) auto
qed

lemma WriteBlock_spec:
  assumes "invar (tb_file r)" and "tb_offset r = of_nat (length (content (tb_file r)))" and "snappy_ok S"
    and "WriteBlock fappend S r (block_builder n es) = (h, bb, r')" and "TableBuilder_ok r'"
  shows "\<exists>f' s' sz. r' = r\<lparr>tb_status := s', tb_file := f', tb_offset := of_nat (length (content f'))\<rparr> \<and> Status_ok s' \<and> invar f'
    \<and> (\<exists>G. content f' = content (tb_file r) @ G \<and> G \<noteq> [])
    \<and> holds_block S (content f') (length (content (tb_file r))) sz (block_of n es)
    \<and> h = handle_of (length (content (tb_file r))) sz \<and> bb = BlockBuilder_make"
proof -
  obtain data t where d: "compress_block S (opt_compression (tb_options r)) (block_of n es) = (data, t)" by fastforce
  have w: "WriteRawBlock fappend r data t = (h, r')" and bb: "bb = BlockBuilder_make"
    using assms(4) d block_builder_Finish [of n es] by (auto simp: WriteBlock_def Let_def split: prod.splits)
  obtain f' s' where r': "r' = r\<lparr>tb_status := s', tb_file := f', tb_offset := of_nat (length (content f'))\<rparr>" "Status_ok s'" "invar f'"
    "content f' = content (tb_file r) @ stored_block data t" "h = handle_of (length (content (tb_file r))) (length data)"
    using WriteRawBlock_spec [OF assms(1,2) w assms(5)] by blast
  have "stored_block data t \<noteq> []" by (simp add: stored_block_def)
  then show ?thesis using r' bb holds_block_new [OF assms(3) d, of "content (tb_file r)"]
    by (intro exI [of _ f'] exI [of _ s'] exI [of _ "length data"]) auto
qed

end

subsection \<open>The state of a builder\<close>

text \<open>
  The blocks written so far, each with its entries, its position and its stored size; the keys of the index entries; and
  the entries of the block that is being built.
\<close>

type_synonym written = "(entries \<times> nat \<times> nat) list"

fun block_handle :: "entries \<times> nat \<times> nat \<Rightarrow> BlockHandle" where
  "block_handle (L, pos, sz) = handle_of pos sz"

definition handle_bytes :: "entries \<times> nat \<times> nat \<Rightarrow> bytes" where
  "handle_bytes b = BlockHandle_EncodeTo (block_handle b) []"

definition index_entries :: "Slice list \<Rightarrow> written \<Rightarrow> entries" where
  "index_entries ks bs = zip ks (map handle_bytes bs)"

definition filter_blocks :: "written \<Rightarrow> (u64 \<times> Slice list) list" where
  "filter_blocks bs = map (\<lambda>(L, pos, _). (of_nat pos, map fst L)) bs"

definition separated :: "(Slice \<Rightarrow> Slice \<Rightarrow> int) \<Rightarrow> Slice list \<Rightarrow> entries list \<Rightarrow> entries \<Rightarrow> bool" where
  "separated cmp ks Ls cur \<longleftrightarrow> (\<forall>i < length ks. (\<forall>x \<in> set (Ls ! i). cmp (fst x) (ks ! i) \<le> 0)
     \<and> (\<forall>x \<in> set (concat (drop (Suc i) Ls) @ cur). cmp (ks ! i) (fst x) < 0))"

text \<open>The index key of a block that is followed by an entry is their separator.\<close>

definition index_keys :: "Comparator \<Rightarrow> Slice list \<Rightarrow> entries list \<Rightarrow> entries \<Rightarrow> bool" where
  "index_keys C ks Ls cur \<longleftrightarrow> (\<forall>i < length ks. concat (drop (Suc i) Ls) @ cur \<noteq> [] \<longrightarrow>
     ks ! i = FindShortestSeparator C (fst (last (Ls ! i))) (fst (hd (concat (drop (Suc i) Ls) @ cur))))"

definition blocks_ok :: "Snappy \<Rightarrow> nat \<Rightarrow> bytes \<Rightarrow> written \<Rightarrow> bool" where
  "blocks_ok S n F bs \<longleftrightarrow> (\<forall>(L, pos, sz) \<in> set bs. L \<noteq> [] \<and> holds_block S F pos sz (block_of n L))
     \<and> sorted_wrt (\<lambda>(_, p, _) (_, q, _). p < q) bs"

definition tb_entries :: "written \<Rightarrow> entries \<Rightarrow> entries" where
  "tb_entries bs cur = concat (map fst bs) @ cur"

definition tb_inv :: "Snappy \<Rightarrow> Options \<Rightarrow> 'f TableBuilder \<Rightarrow> bytes \<Rightarrow> written \<Rightarrow> Slice list \<Rightarrow> entries \<Rightarrow> bool" where
  "tb_inv S opt r F bs ks cur \<longleftrightarrow>
     tb_options r = opt \<and> tb_index_block_options r = opt\<lparr>opt_block_restart_interval := 1\<rparr> \<and> TableBuilder_ok r
     \<and> tb_offset r = of_nat (length F) \<and> tb_data_block r = block_builder (opt_block_restart_interval opt) cur
     \<and> tb_index_block r = block_builder 1 (index_entries ks bs) \<and> blocks_ok S (opt_block_restart_interval opt) F bs
     \<and> (if tb_pending_index_entry r
        then bs \<noteq> [] \<and> cur = [] \<and> length bs = Suc (length ks) \<and> tb_pending_handle r = block_handle (last bs)
        else length bs = length ks \<and> (bs \<noteq> [] \<longrightarrow> cur \<noteq> []))
     \<and> (tb_entries bs cur \<noteq> [] \<longrightarrow> tb_last_key r = fst (last (tb_entries bs cur)))
     \<and> tb_filter_block r = map_option (\<lambda>P. (P, fb_run P FilterBlockBuilder_make (filter_blocks (bs @ [(cur, length F, 0)])))) (opt_filter_policy opt)
     \<and> separated (Compare (opt_comparator opt)) ks (map fst bs) cur \<and> index_keys (opt_comparator opt) ks (map fst bs) cur
     \<and> entries_sorted (Compare (opt_comparator opt)) (tb_entries bs cur)"

lemma TableBuilder_make_inv: "tb_inv S opt (TableBuilder_make opt f) [] [] [] []"
  by (simp add: tb_inv_def TableBuilder_make_def TableBuilder_ok_def index_entries_def blocks_ok_def tb_entries_def
      filter_blocks_def fb_run_def separated_def index_keys_def entries_sorted_def)

lemma tb_inv_closed [simp]: "tb_inv S opt (r\<lparr>tb_closed := c\<rparr>) F bs ks cur \<longleftrightarrow> tb_inv S opt r F bs ks cur"
  by (simp add: tb_inv_def TableBuilder_ok_def)

lemma blocks_ok_append: "blocks_ok S n F bs \<Longrightarrow> blocks_ok S n (F @ G) bs"
  unfolding blocks_ok_def by (fast intro: holds_block_append)

lemma blocks_ok_snoc:
  assumes "blocks_ok S n F bs" and "holds_block S (F @ G) (length F) sz (block_of n L)" and "L \<noteq> []"
  shows "blocks_ok S n (F @ G) (bs @ [(L, length F, sz)])"
proof -
  have "p < length F" if "(M, p, z) \<in> set bs" for M p z
    using assms(1) that holds_block_bound [of S F p z] by (fastforce simp: blocks_ok_def kBlockTrailerSize_def)
  then show ?thesis using blocks_ok_append [OF assms(1), of G] assms(2,3) by (auto simp: blocks_ok_def sorted_wrt_append)
qed

lemma index_entries_snoc: "length ks \<le> length bs \<Longrightarrow> index_entries ks (bs @ [b]) = index_entries ks bs"
  unfolding index_entries_def by (rule nth_equalityI) (auto simp: nth_append)

lemma index_entries_key: "length bs = Suc (length ks) \<Longrightarrow>
    index_entries (ks @ [k]) bs = index_entries ks bs @ [(k, handle_bytes (last bs))]"
  using index_entries_snoc [of ks "butlast bs" "last bs"]
  by (cases bs rule: rev_cases) (simp_all add: index_entries_def)

lemma filter_blocks_simps: "filter_blocks [] = []" "filter_blocks (b # bs) = (of_nat (fst (snd b)), map fst (fst b)) # filter_blocks bs"
  "filter_blocks (bs @ cs) = filter_blocks bs @ filter_blocks cs"
  by (simp_all add: filter_blocks_def split: prod.splits)

lemma fb_run_AddKey: "AddKey (fb_run P b (blocks @ [(p, ks)])) k = fb_run P b (blocks @ [(p, ks @ [k])])"
  by (simp add: fb_run_def)

lemma fb_run_StartBlock: "StartBlock P (fb_run P b blocks) p = fb_run P b (blocks @ [(p, [])])"
  by (simp add: fb_run_def)

lemma separated_flush: "separated cmp ks Ls cur \<Longrightarrow> length ks = length Ls \<Longrightarrow> separated cmp ks (Ls @ [cur]) []"
  by (simp add: separated_def nth_append)

lemma index_keys_flush: "index_keys C ks Ls cur \<Longrightarrow> length ks = length Ls \<Longrightarrow> index_keys C ks (Ls @ [cur]) []"
  by (simp add: index_keys_def nth_append)

lemma index_keys_more: "index_keys C ks Ls cur \<Longrightarrow> ks = [] \<or> cur \<noteq> [] \<Longrightarrow> index_keys C ks Ls (cur @ [x])"
  by (auto simp: index_keys_def hd_append split: if_splits)

lemma index_keys_key:
  assumes ks: "index_keys C ks Ls []" and len: "length Ls = Suc (length ks)" and ne: "\<forall>L \<in> set Ls. L \<noteq> []"
    and s: "E \<noteq> [] \<Longrightarrow> s = FindShortestSeparator C (fst (last (concat Ls))) (fst (hd E))"
  shows "index_keys C (ks @ [s]) Ls E"
  unfolding index_keys_def
proof (intro allI impI)
  fix i assume i: "i < length (ks @ [s])" and r: "concat (drop (Suc i) Ls) @ E \<noteq> []"
  show "(ks @ [s]) ! i = FindShortestSeparator C (fst (last (Ls ! i))) (fst (hd (concat (drop (Suc i) Ls) @ E)))"
  proof (cases "i < length ks")
    case True
    then have "drop (Suc i) Ls \<noteq> []" using len by simp
    then have "hd (drop (Suc i) Ls) \<in> set (drop (Suc i) Ls)" by (rule hd_in_set)
    moreover from this have "hd (drop (Suc i) Ls) \<noteq> []" using ne set_drop_subset [of "Suc i" Ls] by auto
    ultimately have "concat (drop (Suc i) Ls) \<noteq> []" by auto
    then show ?thesis using ks True by (simp add: index_keys_def nth_append)
  next
    case False
    then have il: "i = length ks" using i by simp
    have Ls: "Ls = butlast Ls @ [Ls ! i]" using len il by (cases Ls rule: rev_cases) (auto simp: nth_append)
    have "Ls ! i \<noteq> []" using ne len il by simp
    then have "last (concat Ls) = last (Ls ! i)" by (subst Ls) simp
    then show ?thesis using s r len il by (simp add: nth_append)
  qed
qed

context key_comparator
begin

lemma separated_more:
  assumes "separated (Compare C) ks Ls cur" and "ks = [] \<or> cur \<noteq> []" and "entries_sorted (Compare C) (concat Ls @ cur @ [(k, v)])"
  shows "separated (Compare C) ks Ls (cur @ [(k, v)])"
proof (cases "ks = []")
  case False
  then obtain x where x: "x \<in> set cur" using assms(2) by (cases cur) auto
  then have "Compare C (fst x) k < 0" using assms(3) by (auto simp: entries_sorted_def sorted_wrt_append)
  then have "Compare C (ks ! i) k < 0" if "i < length ks" for i
    using assms(1) x that user.cmp_less_trans by (fastforce simp: separated_def)
  then show ?thesis using assms(1) by (auto simp: separated_def)
qed (simp add: separated_def)

lemma separated_key:
  assumes sep: "separated (Compare C) ks Ls []" and len: "length Ls = Suc (length ks)" and ne: "\<forall>L \<in> set Ls. L \<noteq> []"
    and sorted: "entries_sorted (Compare C) (concat Ls @ E)"
    and s: "Compare C (fst (last (concat Ls))) s \<le> 0" "\<forall>x \<in> set E. Compare C s (fst x) < 0"
  shows "separated (Compare C) (ks @ [s]) Ls E"
  unfolding separated_def
proof (intro allI impI)
  fix i assume i: "i < length (ks @ [s])"
  let ?M = "last Ls"
  have Ls: "Ls \<noteq> []" "concat Ls = concat (butlast Ls) @ ?M" using len by (cases Ls rule: rev_cases; simp)+
  have M: "?M \<noteq> []" "?M = Ls ! length ks" using ne len Ls(1) by (simp_all add: last_conv_nth)
  show "(\<forall>x \<in> set (Ls ! i). Compare C (fst x) ((ks @ [s]) ! i) \<le> 0)
      \<and> (\<forall>x \<in> set (concat (drop (Suc i) Ls) @ E). Compare C ((ks @ [s]) ! i) (fst x) < 0)"
  proof (cases "i < length ks")
    case True
    have "?M \<in> set (drop (Suc i) Ls)" using True len last_in_set [of "drop (Suc i) Ls"] by (simp add: last_drop)
    then have "last ?M \<in> set (concat (drop (Suc i) Ls))" using last_in_set [OF M(1)] unfolding set_concat by blast
    then have "Compare C (ks ! i) (fst (last ?M)) < 0" using sep True by (auto simp: separated_def)
    moreover have "Compare C (fst (last ?M)) (fst x) < 0" if "x \<in> set E" for x
      using sorted that last_in_set [OF M(1)] unfolding Ls(2) by (auto simp: entries_sorted_def sorted_wrt_append)
    ultimately have "\<forall>x \<in> set E. Compare C (ks ! i) (fst x) < 0" using user.cmp_less_trans by blast
    then show ?thesis using sep True by (fastforce simp: separated_def nth_append)
  next
    case False
    then have il: "i = length ks" using i by simp
    have "Compare C (fst x) s \<le> 0" if x: "x \<in> set ?M" for x
    proof -
      obtain j where j: "j < length ?M" "x = ?M ! j" using x by (auto simp: in_set_conv_nth)
      have sM: "sorted_wrt (\<lambda>a b. Compare C (fst a) (fst b) < 0) ?M"
        using sorted unfolding Ls(2) by (auto simp: entries_sorted_def sorted_wrt_append)
      have "j \<le> length ?M - 1" "length ?M - 1 < length ?M" using j(1) M(1) by simp_all
      then have "Compare C (fst x) (fst (last ?M)) \<le> 0"
        using sorted_wrt_nth_less [OF sM, of j "length ?M - 1"] j(2) M(1) by (cases "j = length ?M - 1") (auto simp: last_conv_nth)
      moreover have "last (concat Ls) = last ?M" using M(1) Ls(2) by simp
      ultimately show ?thesis using s(1) user.cmp_le_trans by metis
    qed
    then show ?thesis using s(2) M(2) len by (simp add: il)
  qed
qed

end

context fallible_file
begin

lemma Flush_inv:
  assumes inv: "tb_inv S opt r (content (tb_file r)) bs ks cur" and f: "invar (tb_file r)" and S: "snappy_ok S"
    and n: "0 < opt_block_restart_interval opt" and ok: "TableBuilder_ok (TableBuilder_Flush fappend fflush S r)"
  shows "let r' = TableBuilder_Flush fappend fflush S r in invar (tb_file r') \<and> (\<exists>G. content (tb_file r') = content (tb_file r) @ G)
    \<and> (\<exists>bs'. tb_inv S opt r' (content (tb_file r')) bs' ks [] \<and> tb_entries bs' [] = tb_entries bs cur)"
proof (cases "cur = []")
  case True
  then have "TableBuilder_Flush fappend fflush S r = r"
    using inv n by (simp add: TableBuilder_Flush_def tb_inv_def BlockBuilder_empty_def BlockBuilder_make_def)
  then show ?thesis using inv f True by (auto simp: Let_def)
next
  case False
  let ?n = "opt_block_restart_interval opt" and ?F = "content (tb_file r)"
  obtain h bb r1 where w: "WriteBlock fappend S r (tb_data_block r) = (h, bb, r1)" by (cases "WriteBlock fappend S r (tb_data_block r)") auto
  define r2 where "r2 = r1\<lparr>tb_pending_handle := h, tb_data_block := bb\<rparr>"
  obtain s3 f3 where fl: "fflush (tb_file r2) = (s3, f3)" by fastforce
  have ok0: "TableBuilder_ok r" "\<not> BlockBuilder_empty (tb_data_block r)" using inv n False by (auto simp: tb_inv_def)
  then have eq: "TableBuilder_Flush fappend fflush S r = filter_StartBlock (if TableBuilder_ok r2
      then r2\<lparr>tb_pending_index_entry := True, tb_status := s3, tb_file := f3\<rparr> else r2)"
    using w fl [unfolded r2_def] by (cases "TableBuilder_ok r2") (simp_all add: TableBuilder_Flush_def r2_def)
  have ok2: "TableBuilder_ok r1" using ok eq by (auto simp: filter_StartBlock_def TableBuilder_ok_def r2_def split: if_splits)
  have w': "WriteBlock fappend S r (block_builder ?n cur) = (h, bb, r1)" "tb_offset r = of_nat (length ?F)"
    using w inv by (simp_all add: tb_inv_def)
  obtain f1 s1 sz G where 1: "r1 = r\<lparr>tb_status := s1, tb_file := f1, tb_offset := of_nat (length (content f1))\<rparr>" "Status_ok s1" "invar f1"
      "content f1 = ?F @ G" "holds_block S (content f1) (length ?F) sz (block_of ?n cur)"
      "h = handle_of (length ?F) sz" "bb = BlockBuilder_make"
    using WriteBlock_spec [OF f w'(2) S w'(1) ok2] by blast
  have fl1: "fflush f1 = (s3, f3)" using fl 1(1) by (simp add: r2_def)
  let ?r = "filter_StartBlock (r2\<lparr>tb_pending_index_entry := True, tb_status := s3, tb_file := f3\<rparr>)"
  have eq': "TableBuilder_Flush fappend fflush S r = ?r" using eq 1(1,2) by (simp add: r2_def TableBuilder_ok_def)
  have s3: "Status_ok s3" using ok eq' by (simp add: filter_StartBlock_def TableBuilder_ok_def)
  have f3: "invar f3" "content f3 = ?F @ G" using fflush_spec [OF 1(3) fl1] s3 1(4) by auto
  let ?bs = "bs @ [(cur, length ?F, sz)]"
  have np: "\<not> tb_pending_index_entry r" "length bs = length ks" using inv False by (auto simp: tb_inv_def split: if_splits)
  have B: "blocks_ok S ?n (?F @ G) ?bs"
    using blocks_ok_snoc [of S ?n ?F bs G sz cur] inv 1(4,5) False by (simp add: tb_inv_def)
  have E: "tb_entries ?bs [] = tb_entries bs cur" by (simp add: tb_entries_def)
  have "tb_inv S opt ?r (?F @ G) ?bs ks []"
    unfolding tb_inv_def E
    using inv 1 f3 s3 np False B separated_flush [of _ ks "map fst bs" cur] index_keys_flush [of _ ks "map fst bs" cur]
    by (simp add: tb_inv_def filter_StartBlock_def r2_def TableBuilder_ok_def index_entries_snoc filter_blocks_simps fb_run_StartBlock
        option.map_comp comp_def)
  moreover have "tb_file ?r = f3" by (simp add: filter_StartBlock_def)
  ultimately show ?thesis unfolding eq' Let_def using f3 E by auto
qed

lemma Add_key_inv:
  assumes inv: "tb_inv S opt r F bs ks cur" and C: "key_comparator (opt_comparator opt)"
    and sorted: "entries_sorted (Compare (opt_comparator opt)) (tb_entries bs cur @ [(k, v)])"
  defines "r1 \<equiv> if tb_pending_index_entry r
      then add_index_entry r (FindShortestSeparator (opt_comparator opt) (tb_last_key r) k) else r"
  defines "r2 \<equiv> r1\<lparr>tb_filter_block := map_option (\<lambda>(P, fb). (P, AddKey fb k)) (tb_filter_block r1), tb_last_key := k,
      tb_num_entries := tb_num_entries r1 + 1,
      tb_data_block := BlockBuilder_Add (opt_block_restart_interval opt) (tb_data_block r1) k v\<rparr>"
  shows "\<exists>ks' cur'. tb_inv S opt r2 F bs ks' cur' \<and> tb_entries bs cur' = tb_entries bs cur @ [(k, v)]"
proof (cases "tb_pending_index_entry r")
  case True
  let ?C = "opt_comparator opt" and ?s = "FindShortestSeparator (opt_comparator opt) (tb_last_key r) k"
  have p: "bs \<noteq> []" "cur = []" "length bs = Suc (length ks)" "tb_pending_handle r = block_handle (last bs)"
    using inv True by (simp_all add: tb_inv_def)
  have ne: "\<forall>L \<in> set (map fst bs). L \<noteq> []" using inv by (auto simp: tb_inv_def blocks_ok_def)
  then have E: "tb_entries bs [] \<noteq> []" using p(1) by (cases bs) (auto simp: tb_entries_def)
  then have last: "tb_last_key r = fst (last (tb_entries bs []))" using inv p(2) by (simp add: tb_inv_def)
  have lt: "Compare ?C (tb_last_key r) k < 0"
    using sorted last_in_set [OF E] p(2) unfolding last by (auto simp: entries_sorted_def sorted_wrt_append)
  have sep: "separated (Compare ?C) (ks @ [?s]) (map fst bs) [(k, v)]"
  proof (rule key_comparator.separated_key [OF C _ _ ne])
    show "separated (Compare ?C) ks (map fst bs) []" using inv p(2) by (simp add: tb_inv_def)
    show "length (map fst bs) = Suc (length ks)" using p(3) by simp
    show "entries_sorted (Compare ?C) (concat (map fst bs) @ [(k, v)])" using sorted p(2) by (simp add: tb_entries_def)
    show "Compare ?C (fst (last (concat (map fst bs)))) ?s \<le> 0"
      using key_comparator.separator_ge [OF C lt] last by (simp add: tb_entries_def)
    show "\<forall>x \<in> set [(k, v)]. Compare ?C ?s (fst x) < 0" using key_comparator.separator_less [OF C lt] by simp
  qed
  have idx: "index_keys ?C (ks @ [?s]) (map fst bs) [(k, v)]"
    by (rule index_keys_key [OF _ _ ne]) (use inv p last in \<open>simp_all add: tb_inv_def tb_entries_def\<close>)
  have "tb_inv S opt r2 F bs (ks @ [?s]) [(k, v)]"
    unfolding tb_inv_def
    using inv p sep idx sorted True E
    by (simp add: tb_inv_def r2_def r1_def add_index_entry_def TableBuilder_ok_def index_entries_key [OF p(3)] filter_blocks_simps
        handle_bytes_def [symmetric] block_builder_snoc [symmetric] option.map_comp comp_def fb_run_AddKey tb_entries_def)
      (simp add: block_builder_def)
  then show ?thesis using p(2) by (auto simp: tb_entries_def)
next
  case False
  let ?C = "opt_comparator opt"
  have p: "length bs = length ks" "bs \<noteq> [] \<longrightarrow> cur \<noteq> []" using inv False by (simp_all add: tb_inv_def)
  have sep: "separated (Compare ?C) ks (map fst bs) (cur @ [(k, v)])"
    by (rule key_comparator.separated_more [OF C]) (use inv p sorted in \<open>auto simp: tb_inv_def tb_entries_def\<close>)
  have idx: "index_keys ?C ks (map fst bs) (cur @ [(k, v)])"
    by (rule index_keys_more) (use inv p in \<open>auto simp: tb_inv_def\<close>)
  have "tb_inv S opt r2 F bs ks (cur @ [(k, v)])"
    unfolding tb_inv_def
    using inv p sep idx sorted False
    by (simp add: tb_inv_def r2_def r1_def TableBuilder_ok_def filter_blocks_simps
        block_builder_snoc [symmetric] option.map_comp comp_def fb_run_AddKey tb_entries_def)
  then show ?thesis by (auto simp: tb_entries_def)
qed

lemma Add_inv:
  assumes inv: "tb_inv S opt r (content (tb_file r)) bs ks cur" and f: "invar (tb_file r)" and S: "snappy_ok S"
    and C: "key_comparator (opt_comparator opt)" and n: "0 < opt_block_restart_interval opt"
    and sorted: "entries_sorted (Compare (opt_comparator opt)) (tb_entries bs cur @ [(k, v)])"
    and ok: "TableBuilder_ok (TableBuilder_Add fappend fflush S r k v)"
  shows "let r' = TableBuilder_Add fappend fflush S r k v in invar (tb_file r')
    \<and> (\<exists>bs' ks' cur'. tb_inv S opt r' (content (tb_file r')) bs' ks' cur' \<and> tb_entries bs' cur' = tb_entries bs cur @ [(k, v)])"
proof -
  define r1 where "r1 = (if tb_pending_index_entry r
      then add_index_entry r (FindShortestSeparator (opt_comparator opt) (tb_last_key r) k) else r)"
  define r2 where "r2 = r1\<lparr>tb_filter_block := map_option (\<lambda>(P, fb). (P, AddKey fb k)) (tb_filter_block r1), tb_last_key := k,
      tb_num_entries := tb_num_entries r1 + 1,
      tb_data_block := BlockBuilder_Add (opt_block_restart_interval opt) (tb_data_block r1) k v\<rparr>"
  have o: "tb_options r1 = opt" "tb_options r = opt" "TableBuilder_ok r"
    using inv by (auto simp: tb_inv_def r1_def add_index_entry_def)
  have eq: "TableBuilder_Add fappend fflush S r k v = (if opt_block_size opt \<le> CurrentSizeEstimate (tb_data_block r2)
      then TableBuilder_Flush fappend fflush S r2 else r2)"
    using o by (simp add: TableBuilder_Add_def Let_def r2_def r1_def add_index_entry_def)
  obtain ks' cur' where 2: "tb_inv S opt r2 (content (tb_file r)) bs ks' cur'" "tb_entries bs cur' = tb_entries bs cur @ [(k, v)]"
    using Add_key_inv [OF inv C sorted] unfolding r2_def r1_def by blast
  have f2: "tb_file r2 = tb_file r" by (simp add: r2_def r1_def add_index_entry_def)
  show ?thesis
  proof (cases "opt_block_size opt \<le> CurrentSizeEstimate (tb_data_block r2)")
    case True
    then have "TableBuilder_ok (TableBuilder_Flush fappend fflush S r2)" using ok eq by simp
    from Flush_inv [OF _ _ S n this, of bs ks' cur'] 2 f f2 True eq show ?thesis by (auto simp: Let_def)
  next
    case False
    then show ?thesis using 2 f f2 eq by (auto simp: Let_def)
  qed
qed

end

subsection \<open>A finished table\<close>

definition filter_contents :: "FilterPolicy \<Rightarrow> written \<Rightarrow> nat \<Rightarrow> bytes" where
  "filter_contents P bs n = fst (FilterBlock_Finish P (fb_run P FilterBlockBuilder_make (filter_blocks (bs @ [([], n, 0)]))))"

definition meta_ok :: "Snappy \<Rightarrow> Options \<Rightarrow> bytes \<Rightarrow> written \<Rightarrow> entries \<Rightarrow> bool" where
  "meta_ok S opt F bs meta \<longleftrightarrow> (case opt_filter_policy opt of
       None \<Rightarrow> meta = []
     | Some P \<Rightarrow> \<exists>n pos sz. holds_block S F pos sz (filter_contents P bs n) \<and> (\<forall>(L, p, z) \<in> set bs. p \<le> n) \<and> n \<le> length F
         \<and> meta = [(filter_meta_key P, BlockHandle_EncodeTo (handle_of pos sz) [])])"

text \<open>What a reader finds in the file of a table with the given blocks and index keys.\<close>

definition table_file :: "Snappy \<Rightarrow> Options \<Rightarrow> bytes \<Rightarrow> written \<Rightarrow> Slice list \<Rightarrow> bool" where
  "table_file S opt F bs ks \<longleftrightarrow> blocks_ok S (opt_block_restart_interval opt) F bs \<and> length ks = length bs
     \<and> separated (Compare (opt_comparator opt)) ks (map fst bs) [] \<and> index_keys (opt_comparator opt) ks (map fst bs) []
     \<and> entries_sorted (Compare (opt_comparator opt)) (concat (map fst bs))
     \<and> (\<exists>G meta mpos msz ipos isz. meta_ok S opt F bs meta
         \<and> holds_block S F mpos msz (block_of (opt_block_restart_interval opt) meta)
         \<and> holds_block S F ipos isz (block_of 1 (index_entries ks bs))
         \<and> F = G @ Footer_EncodeTo \<lparr>ft_metaindex_handle = handle_of mpos msz, ft_index_handle = handle_of ipos isz\<rparr> [])"

lemma meta_ok_append: "meta_ok S opt F bs meta \<Longrightarrow> meta_ok S opt (F @ G) bs meta"
  unfolding meta_ok_def by (cases "opt_filter_policy opt") (force intro: holds_block_append)+

context fallible_file
begin

text \<open>A part of \<^verbatim>\<open>Finish\<close> writes at the end of the file, and leaves the fields the later parts use.\<close>

definition extends :: "'f TableBuilder \<Rightarrow> 'f TableBuilder \<Rightarrow> bool" where
  "extends r r' \<longleftrightarrow> invar (tb_file r') \<and> (\<exists>G. content (tb_file r') = content (tb_file r) @ G)
     \<and> tb_offset r' = of_nat (length (content (tb_file r'))) \<and> tb_options r' = tb_options r
     \<and> tb_index_block_options r' = tb_index_block_options r \<and> tb_index_block r' = tb_index_block r
     \<and> tb_pending_index_entry r' = tb_pending_index_entry r \<and> tb_pending_handle r' = tb_pending_handle r
     \<and> tb_last_key r' = tb_last_key r \<and> (tb_filter_block r' = None \<longleftrightarrow> tb_filter_block r = None)"

lemma Finish_filter_spec:
  assumes "invar (tb_file r)" and "tb_offset r = of_nat (length (content (tb_file r)))" and "TableBuilder_ok r"
    and "Finish_filter fappend r = (h, r')" and "TableBuilder_ok r'"
  shows "extends r r' \<and> (case tb_filter_block r of None \<Rightarrow> True | Some (P, fb) \<Rightarrow> \<exists>sz. h = handle_of (length (content (tb_file r))) sz
      \<and> holds_block S (content (tb_file r')) (length (content (tb_file r))) sz (fst (FilterBlock_Finish P fb)))"
proof (cases "tb_filter_block r")
  case None
  then show ?thesis using assms by (auto simp: Finish_filter_def extends_def)
next
  case (Some x)
  obtain P fb where x: "x = (P, fb)" by (cases x)
  obtain c fb' where c: "FilterBlock_Finish P fb = (c, fb')" by fastforce
  let ?r = "r\<lparr>tb_filter_block := Some (P, fb')\<rparr>"
  have w: "WriteRawBlock fappend ?r c kNoCompression = (h, r')" using assms(3,4) Some x c by (simp add: Finish_filter_def)
  from WriteRawBlock_spec [OF _ _ w assms(5)] assms(1,2) obtain f' s' where
    r': "r' = ?r\<lparr>tb_status := s', tb_file := f', tb_offset := of_nat (length (content f'))\<rparr>" "invar f'"
      "content f' = content (tb_file r) @ stored_block c kNoCompression" "h = handle_of (length (content (tb_file r))) (length c)" by auto
  have "holds_block S (content f') (length (content (tb_file r))) (length c) c"
    unfolding r'(3) holds_block_def
    by (rule exI [of _ "content (tb_file r)"], rule exI [of _ c], rule exI [of _ kNoCompression], rule exI [of _ "[]"]) simp
  then show ?thesis using r' Some x c by (auto simp: extends_def)
qed

lemma Finish_metaindex_spec:
  assumes "invar (tb_file r)" and "tb_offset r = of_nat (length (content (tb_file r)))" and "TableBuilder_ok r" and "snappy_ok S"
    and "Finish_metaindex fappend S fh r = (h, r')" and "TableBuilder_ok r'"
  shows "extends r r' \<and> (\<exists>sz. h = handle_of (length (content (tb_file r))) sz
      \<and> holds_block S (content (tb_file r')) (length (content (tb_file r))) sz (block_of (opt_block_restart_interval (tb_options r))
          (case (tb_filter_block r, opt_filter_policy (tb_options r)) of
             (Some _, Some P) \<Rightarrow> [(filter_meta_key P, BlockHandle_EncodeTo fh [])] | _ \<Rightarrow> [])))"
proof -
  let ?n = "opt_block_restart_interval (tb_options r)"
  let ?m = "case (tb_filter_block r, opt_filter_policy (tb_options r)) of
             (Some _, Some P) \<Rightarrow> [(filter_meta_key P, BlockHandle_EncodeTo fh [])] | _ \<Rightarrow> []"
  have m: "(case (tb_filter_block r, opt_filter_policy (tb_options r)) of
                 (Some _, Some P) \<Rightarrow> BlockBuilder_Add ?n BlockBuilder_make (filter_meta_key P) (BlockHandle_EncodeTo fh [])
               | _ \<Rightarrow> BlockBuilder_make) = block_builder ?n ?m"
    by (auto simp: block_builder_def split: option.splits)
  obtain bb r1 where w: "WriteBlock fappend S r (block_builder ?n ?m) = (h, bb, r1)" "r' = r1"
    using assms(3,5) unfolding Finish_metaindex_def m by (auto simp: Let_def split: prod.splits)
  from WriteBlock_spec [OF assms(1,2,4) w(1)] assms(6) w(2) show ?thesis by (auto simp: extends_def)
qed

lemma Finish_index_spec:
  assumes "invar (tb_file r)" and "tb_offset r = of_nat (length (content (tb_file r)))" and "TableBuilder_ok r" and "snappy_ok S"
    and "Finish_index fappend S r = (h, r')" and "TableBuilder_ok r'"
    and "tb_index_block r = block_builder 1 (index_entries ks bs)" and "opt_block_restart_interval (tb_index_block_options r) = 1"
    and "tb_pending_index_entry r \<Longrightarrow> length bs = Suc (length ks) \<and> tb_pending_handle r = block_handle (last bs)"
  shows "invar (tb_file r') \<and> (\<exists>G. content (tb_file r') = content (tb_file r) @ G)
    \<and> tb_offset r' = of_nat (length (content (tb_file r'))) \<and> (\<exists>sz. h = handle_of (length (content (tb_file r))) sz
      \<and> holds_block S (content (tb_file r')) (length (content (tb_file r))) sz (block_of 1 (index_entries
          (if tb_pending_index_entry r then ks @ [FindShortSuccessor (opt_comparator (tb_options r)) (tb_last_key r)] else ks) bs)))"
proof -
  let ?k = "FindShortSuccessor (opt_comparator (tb_options r)) (tb_last_key r)"
  let ?ks = "if tb_pending_index_entry r then ks @ [?k] else ks"
  define r1 where "r1 = (if tb_pending_index_entry r then add_index_entry r ?k else r)"
  have ib: "tb_index_block r1 = block_builder 1 (index_entries ?ks bs)"
  proof (cases "tb_pending_index_entry r")
    case True
    then have p: "length bs = Suc (length ks)" "tb_pending_handle r = block_handle (last bs)" using assms(9) by auto
    then show ?thesis using True assms(7,8)
      by (simp add: r1_def add_index_entry_def index_entries_key [OF p(1)] handle_bytes_def block_builder_def)
  qed (simp add: r1_def assms(7))
  have f1: "tb_file r1 = tb_file r" "tb_offset r1 = tb_offset r" by (simp_all add: r1_def add_index_entry_def)
  obtain bb r2 where w: "WriteBlock fappend S r1 (block_builder 1 (index_entries ?ks bs)) = (h, bb, r2)" "r' = r2\<lparr>tb_index_block := bb\<rparr>"
    using assms(3,5) unfolding Finish_index_def Let_def r1_def [symmetric] ib by (auto split: prod.splits)
  have "TableBuilder_ok r2" using assms(6) w(2) by (simp add: TableBuilder_ok_def)
  from WriteBlock_spec [OF _ _ assms(4) w(1) this] assms(1,2) f1 w(2) show ?thesis by auto
qed

lemma Finish_footer_spec:
  assumes "invar (tb_file r)" and "TableBuilder_ok r" and "TableBuilder_ok (Finish_footer fappend mh ih r)"
  shows "content (tb_file (Finish_footer fappend mh ih r)) =
    content (tb_file r) @ Footer_EncodeTo \<lparr>ft_metaindex_handle = mh, ft_index_handle = ih\<rparr> [] \<and> invar (tb_file (Finish_footer fappend mh ih r))
    \<and> (tb_offset r = of_nat (length (content (tb_file r))) \<longrightarrow>
         tb_offset (Finish_footer fappend mh ih r) = of_nat (length (content (tb_file (Finish_footer fappend mh ih r)))))"
proof -
  obtain s f where a: "fappend (tb_file r) (Footer_EncodeTo \<lparr>ft_metaindex_handle = mh, ft_index_handle = ih\<rparr> []) = (s, f)" by fastforce
  then have "Status_ok s" using assms(2,3) by (auto simp: Finish_footer_def TableBuilder_ok_def Let_def split: if_splits)
  then show ?thesis using a assms(2) fappend_spec [OF assms(1) a] by (simp add: Finish_footer_def Let_def)
qed

lemma Finish_skips:
  assumes "\<not> TableBuilder_ok r"
  shows "TableBuilder_Flush fappend fflush S r = r" and "snd (Finish_filter fappend r) = r" and "snd (Finish_metaindex fappend S fh r) = r"
    and "snd (Finish_index fappend S r) = r" and "Finish_footer fappend mh ih r = r"
  using assms by (simp_all add: TableBuilder_Flush_def Finish_filter_def Finish_metaindex_def Finish_index_def Finish_footer_def split: option.splits)

text \<open>If all the calls succeeded, the file holds a table of the entries.\<close>

lemma Finish_spec:
  assumes inv: "tb_inv S opt r (content (tb_file r)) bs ks cur" and f: "invar (tb_file r)" and S: "snappy_ok S"
    and C: "key_comparator (opt_comparator opt)" and n: "0 < opt_block_restart_interval opt"
    and fin: "TableBuilder_Finish fappend fflush S r = (s, r')" and ok: "Status_ok s"
  shows "invar (tb_file r') \<and> (\<exists>bs' ks'. table_file S opt (content (tb_file r')) bs' ks' \<and> concat (map fst bs') = tb_entries bs cur)
    \<and> tb_offset r' = of_nat (length (content (tb_file r')))"
proof -
  let ?n = "opt_block_restart_interval opt"
  define r0 where "r0 = (TableBuilder_Flush fappend fflush S r)\<lparr>tb_closed := True\<rparr>"
  obtain fh r1 where r1: "Finish_filter fappend r0 = (fh, r1)" by fastforce
  obtain mh r2 where r2: "Finish_metaindex fappend S fh r1 = (mh, r2)" by fastforce
  obtain ih r3 where r3: "Finish_index fappend S r2 = (ih, r3)" by fastforce
  have r': "r' = Finish_footer fappend mh ih r3" "s = tb_status r'"
    using fin r1 r2 r3 by (auto simp: TableBuilder_Finish_def r0_def Let_def)
  have ok': "TableBuilder_ok (Finish_footer fappend mh ih r3)" using ok r' by (simp add: TableBuilder_ok_def)
  then have ok3: "TableBuilder_ok r3" using Finish_skips(5) [of r3 mh ih] by (cases "TableBuilder_ok r3") auto
  then have ok2: "TableBuilder_ok r2" using Finish_skips(4) [of r2 S] r3 by (cases "TableBuilder_ok r2") auto
  then have ok1: "TableBuilder_ok r1" using Finish_skips(3) [of r1 S fh] r2 by (cases "TableBuilder_ok r1") auto
  then have ok0: "TableBuilder_ok r0" using Finish_skips(2) [of r0] r1 by (cases "TableBuilder_ok r0") auto
  let ?F = "\<lambda>r. content (tb_file r)"
  have "TableBuilder_ok (TableBuilder_Flush fappend fflush S r)" using ok0 by (simp add: r0_def TableBuilder_ok_def)
  from Flush_inv [OF inv f S n this] obtain bs' where
    i0: "invar (tb_file r0)" "tb_inv S opt r0 (?F r0) bs' ks []" "tb_entries bs' [] = tb_entries bs cur"
    by (auto simp: Let_def r0_def)
  note i = i0(2) [unfolded tb_inv_def]
  have o0: "tb_offset r0 = of_nat (length (?F r0))" using i by simp
  have s1: "extends r0 r1" and fs: "case tb_filter_block r0 of None \<Rightarrow> True | Some (P, fb) \<Rightarrow> \<exists>sz. fh = handle_of (length (?F r0)) sz
      \<and> holds_block S (?F r1) (length (?F r0)) sz (fst (FilterBlock_Finish P fb))"
    using Finish_filter_spec [OF i0(1) o0 ok0 r1 ok1, of S] by auto
  have e1: "invar (tb_file r1)" "tb_offset r1 = of_nat (length (?F r1))" "tb_options r1 = opt" using s1 i by (auto simp: extends_def)
  obtain msz where s2: "extends r1 r2" and ms: "mh = handle_of (length (?F r1)) msz"
      "holds_block S (?F r2) (length (?F r1)) msz (block_of ?n (case (tb_filter_block r1, opt_filter_policy opt) of
             (Some _, Some P) \<Rightarrow> [(filter_meta_key P, BlockHandle_EncodeTo fh [])] | _ \<Rightarrow> []))"
    using Finish_metaindex_spec [OF e1(1,2) ok1 S r2 ok2] e1(3) by auto
  have e2: "invar (tb_file r2)" "tb_offset r2 = of_nat (length (?F r2))" "tb_options r2 = opt"
    "tb_index_block r2 = block_builder 1 (index_entries ks bs')" "opt_block_restart_interval (tb_index_block_options r2) = 1"
    "tb_pending_index_entry r2 = tb_pending_index_entry r0" "tb_pending_handle r2 = tb_pending_handle r0" "tb_last_key r2 = tb_last_key r0"
    using s1 s2 i e1 by (auto simp: extends_def)
  have pend: "tb_pending_index_entry r2 \<Longrightarrow> length bs' = Suc (length ks) \<and> tb_pending_handle r2 = block_handle (last bs')"
    using i e2(6,7) by auto
  define ks' where "ks' = (if tb_pending_index_entry r2 then ks @ [FindShortSuccessor (opt_comparator opt) (tb_last_key r2)] else ks)"
  obtain isz G3 where s3: "invar (tb_file r3)" "?F r3 = ?F r2 @ G3" "ih = handle_of (length (?F r2)) isz"
      "holds_block S (?F r3) (length (?F r2)) isz (block_of 1 (index_entries ks' bs'))" "tb_offset r3 = of_nat (length (?F r3))"
    using Finish_index_spec [OF e2(1,2) ok2 S r3 ok3 e2(4,5) pend] e2(3) unfolding ks'_def by auto
  let ?ft = "Footer_EncodeTo \<lparr>ft_metaindex_handle = mh, ft_index_handle = ih\<rparr> []"
  have F': "?F r' = ?F r3 @ ?ft" "invar (tb_file r')" "tb_offset r' = of_nat (length (?F r'))"
    using Finish_footer_spec [OF s3(1) ok3 ok'] r'(1) s3(5) by auto
  obtain G1 G2 where G: "?F r1 = ?F r0 @ G1" "?F r2 = ?F r1 @ G2" using s1 s2 by (auto simp: extends_def)
  have pre: "?F r' = ?F r0 @ G1 @ G2 @ G3 @ ?ft" "?F r' = ?F r1 @ G2 @ G3 @ ?ft" "?F r' = ?F r2 @ G3 @ ?ft"
    using F'(1) G s3(2) by simp_all
  have b: "blocks_ok S ?n (?F r') bs'" unfolding pre(1) by (rule blocks_ok_append) (use i in simp)
  have ne: "\<forall>L \<in> set (map fst bs'). L \<noteq> []" using i by (auto simp: blocks_ok_def)
  have sorted: "entries_sorted (Compare (opt_comparator opt)) (concat (map fst bs'))" using i by (simp add: tb_entries_def)
  have sep: "length ks' = length bs' \<and> separated (Compare (opt_comparator opt)) ks' (map fst bs') [] \<and> index_keys (opt_comparator opt) ks' (map fst bs') []"
  proof (cases "tb_pending_index_entry r2")
    case True
    have "tb_entries bs' [] \<noteq> []" using ne pend [OF True] by (cases bs') (auto simp: tb_entries_def)
    then have last: "tb_last_key r2 = fst (last (concat (map fst bs')))" using i e2(8) by (simp add: tb_entries_def)
    have "separated (Compare (opt_comparator opt)) ks' (map fst bs') []"
      unfolding ks'_def if_P [OF True]
      by (rule key_comparator.separated_key [OF C _ _ ne])
        (use i pend [OF True] sorted key_comparator.successor_ge [OF C] last in \<open>auto\<close>)
    moreover have "index_keys (opt_comparator opt) ks' (map fst bs') []"
      unfolding ks'_def if_P [OF True] by (rule index_keys_key [OF _ _ ne]) (use i pend [OF True] in auto)
    ultimately show ?thesis using pend [OF True] True by (simp add: ks'_def)
  qed (use i e2(6) in \<open>auto simp: ks'_def\<close>)
  define meta where "meta = (case (tb_filter_block r1, opt_filter_policy opt) of
             (Some _, Some P) \<Rightarrow> [(filter_meta_key P, BlockHandle_EncodeTo fh [])] | _ \<Rightarrow> [])"
  have "meta_ok S opt (?F r1) bs' meta"
  proof (cases "opt_filter_policy opt")
    case None
    then show ?thesis by (simp add: meta_ok_def meta_def split: option.splits)
  next
    case (Some P)
    have fb: "tb_filter_block r0 = Some (P, fb_run P FilterBlockBuilder_make (filter_blocks (bs' @ [([], length (?F r0), 0)])))"
      using i Some by simp
    then obtain sz where z: "fh = handle_of (length (?F r0)) sz"
        "holds_block S (?F r1) (length (?F r0)) sz (filter_contents P bs' (length (?F r0)))"
      using fs by (auto simp: filter_contents_def)
    have "tb_filter_block r1 \<noteq> None" using s1 fb by (simp add: extends_def)
    moreover have "p \<le> length (?F r0)" if "(L, p, z) \<in> set bs'" for L p z
      using i that holds_block_bound [of S "?F r0" p z] by (fastforce simp: blocks_ok_def)
    ultimately show ?thesis unfolding meta_ok_def meta_def Some option.case
      by (intro exI [of _ "length (?F r0)"] exI [of _ sz]) (use z G(1) in auto)
  qed
  then have "meta_ok S opt (?F r') bs' meta" unfolding pre(2) by (rule meta_ok_append)
  moreover have "holds_block S (?F r') (length (?F r1)) msz (block_of ?n meta)"
    unfolding pre(3) meta_def by (rule holds_block_append [OF ms(2)])
  moreover have "holds_block S (?F r') (length (?F r2)) isz (block_of 1 (index_entries ks' bs'))"
    unfolding F'(1) by (rule holds_block_append [OF s3(4)])
  ultimately have "table_file S opt (?F r') bs' ks'"
    unfolding table_file_def using b sep sorted F'(1) ms(1) s3(3) by blast
  then show ?thesis using F'(2,3) i0(3) by (auto simp: tb_entries_def)
qed

lemma Finish_not_ok:
  assumes "\<not> TableBuilder_ok r" and "TableBuilder_Finish fappend fflush S r = (s, r')"
  shows "\<not> Status_ok s"
proof -
  have c: "\<not> TableBuilder_ok (r\<lparr>tb_closed := True\<rparr>)" using assms(1) by (simp add: TableBuilder_ok_def)
  have "r' = r\<lparr>tb_closed := True\<rparr>" "s = tb_status r'"
    using assms(2) Finish_skips(1) [OF assms(1)] Finish_skips(2-5) [OF c]
    by (auto simp: TableBuilder_Finish_def Let_def split: prod.splits) (metis snd_conv)+
  then show ?thesis using c by (simp add: TableBuilder_ok_def)
qed

lemma Adds_inv:
  assumes "tb_inv S opt r (content (tb_file r)) bs ks cur" and "invar (tb_file r)" and S: "snappy_ok S"
    and C: "key_comparator (opt_comparator opt)" and n: "0 < opt_block_restart_interval opt"
    and "entries_sorted (Compare (opt_comparator opt)) (tb_entries bs cur @ es)"
    and "TableBuilder_ok (TableBuilder_Adds fappend fflush S r es)"
  shows "let r' = TableBuilder_Adds fappend fflush S r es in invar (tb_file r')
    \<and> (\<exists>bs' ks' cur'. tb_inv S opt r' (content (tb_file r')) bs' ks' cur' \<and> tb_entries bs' cur' = tb_entries bs cur @ es)"
  using assms(1,2,6,7)
proof (induction es arbitrary: r bs ks cur)
  case Nil
  then show ?case by (auto simp: TableBuilder_Adds_def Let_def)
next
  case (Cons e es)
  obtain k v where e: "e = (k, v)" by (cases e)
  let ?r = "TableBuilder_Add fappend fflush S r k v"
  have adds: "TableBuilder_Adds fappend fflush S r (e # es) = TableBuilder_Adds fappend fflush S ?r es"
    by (simp add: TableBuilder_Adds_def e)
  have ok: "TableBuilder_ok ?r" using Cons.prems(4) Adds_skip [of ?r] unfolding adds by (cases "TableBuilder_ok ?r") auto
  have "entries_sorted (Compare (opt_comparator opt)) (tb_entries bs cur @ [(k, v)])"
    using Cons.prems(3) by (auto simp: e entries_sorted_def sorted_wrt_append)
  from Add_inv [OF Cons.prems(1,2) S C n this ok] obtain bs1 ks1 cur1 where
    1: "invar (tb_file ?r)" "tb_inv S opt ?r (content (tb_file ?r)) bs1 ks1 cur1" "tb_entries bs1 cur1 = tb_entries bs cur @ [(k, v)]"
    by (auto simp: Let_def)
  from Cons.IH [OF 1(2,1)] 1(3) Cons.prems(3,4) show ?case unfolding adds by (simp add: e)
qed

lemma build_table_size:
  assumes "invar f" and "content f = []" and "snappy_ok S" and "key_comparator (opt_comparator opt)"
    and "0 < opt_block_restart_interval opt" and "entries_sorted (Compare (opt_comparator opt)) es"
    and "build_table fappend fflush S opt f es = (s, r)" and "Status_ok s"
  shows "invar (tb_file r) \<and> (\<exists>bs ks. table_file S opt (content (tb_file r)) bs ks \<and> concat (map fst bs) = es)
    \<and> tb_offset r = of_nat (length (content (tb_file r)))"
proof -
  let ?m = "TableBuilder_make opt f"
  let ?a = "TableBuilder_Adds fappend fflush S ?m es"
  have m: "tb_inv S opt ?m (content (tb_file ?m)) [] [] []" "invar (tb_file ?m)"
    using TableBuilder_make_inv [of S opt f] assms(1,2) by (simp_all add: TableBuilder_make_def)
  have fin: "TableBuilder_Finish fappend fflush S ?a = (s, r)" using assms(7) by (simp add: build_table_def)
  have ok: "TableBuilder_ok ?a" using Finish_not_ok [OF _ fin] assms(8) by blast
  have "entries_sorted (Compare (opt_comparator opt)) (tb_entries [] [] @ es)" using assms(6) by (simp add: tb_entries_def)
  from Adds_inv [OF m assms(3-5) this ok] obtain bs ks cur where
    a: "invar (tb_file ?a)" "tb_inv S opt ?a (content (tb_file ?a)) bs ks cur" "tb_entries bs cur = es"
    by (auto simp: Let_def tb_entries_def)
  from Finish_spec [OF a(2,1) assms(3-5) fin assms(8)] a(3) show ?thesis by simp
qed

lemma build_table_spec:
  assumes "invar f" and "content f = []" and "snappy_ok S" and "key_comparator (opt_comparator opt)"
    and "0 < opt_block_restart_interval opt" and "entries_sorted (Compare (opt_comparator opt)) es"
    and "build_table fappend fflush S opt f es = (s, r)" and "Status_ok s"
  shows "invar (tb_file r) \<and> (\<exists>bs ks. table_file S opt (content (tb_file r)) bs ks \<and> concat (map fst bs) = es)"
  using build_table_size [OF assms] by blast

end

end
