(* ===== verification/TwoLevel.thy ===== *)
theory TwoLevel
  imports Iterator "HOL-Library.Multiset"
begin

text \<open>
  The two-level iterator of \<^verbatim>\<open>table/two_level_iterator.cc\<close>: an index iterator whose values name blocks, and a data
  iterator over the block the index iterator points at.  The block function \<open>bf\<close> gets the argument \<^verbatim>\<open>arg_\<close> (the table and
  its cache, say) and may change it, and so do the cleanups of a deleted iterator, run by \<open>run\<close>; the read options are
  part of \<open>bf\<close>.  If the block function serves the blocks of a map, and the index separates the blocks, the iterator
  satisfies the contract on the concatenation of the blocks.
\<close>

record ('a, 's, 'd, 'c) TwoLevelIterator =
  tl_arg :: 'a
  tl_status :: Status
  tl_index_iter :: "('s, 'c) IteratorWrapper"
  tl_data_iter :: "('d, 'c) IteratorWrapper"
  tl_data_block_handle :: bytes

type_synonym ('a, 'd, 'c) BlockFunction = "'a \<Rightarrow> Slice \<Rightarrow> ('d, 'c) IterObj \<times> 'a"

definition NewTwoLevelIterator :: "('s, 'c) IterObj \<Rightarrow> 'a \<Rightarrow> ('a, 's, 'd, 'c) TwoLevelIterator" where
  "NewTwoLevelIterator index_iter arg =
     \<lparr>tl_arg = arg, tl_status = Status_OK,
      tl_index_iter = fst (IteratorWrapper_Set (\<lambda>_ a. a) IteratorWrapper_make (Some index_iter) ()),
      tl_data_iter = IteratorWrapper_make, tl_data_block_handle = []\<rparr>"

definition TwoLevel_delete :: "('c \<Rightarrow> 'a \<Rightarrow> 'a) \<Rightarrow> ('a, 's, 'd, 'c) TwoLevelIterator \<Rightarrow> 'a" where
  "TwoLevel_delete run it = IteratorWrapper_delete run (tl_index_iter it) (IteratorWrapper_delete run (tl_data_iter it) (tl_arg it))"

definition SaveError :: "('a, 's, 'd, 'c) TwoLevelIterator \<Rightarrow> Status \<Rightarrow> ('a, 's, 'd, 'c) TwoLevelIterator" where
  "SaveError it s = (if Status_ok (tl_status it) \<and> \<not> Status_ok s then it\<lparr>tl_status := s\<rparr> else it)"

definition SetDataIterator ::
  "('c \<Rightarrow> 'a \<Rightarrow> 'a) \<Rightarrow> ('a, 's, 'd, 'c) TwoLevelIterator \<Rightarrow> ('d, 'c) IterObj option \<Rightarrow> ('a, 's, 'd, 'c) TwoLevelIterator" where
  "SetDataIterator run it data_iter =
     (let it = (if iw_iter (tl_data_iter it) \<noteq> None then SaveError it (IteratorWrapper_status (tl_data_iter it)) else it);
          (w, arg) = IteratorWrapper_Set run (tl_data_iter it) data_iter (tl_arg it)
      in it\<lparr>tl_data_iter := w, tl_arg := arg\<rparr>)"

definition InitDataBlock ::
  "('a, 'd, 'c) BlockFunction \<Rightarrow> ('c \<Rightarrow> 'a \<Rightarrow> 'a) \<Rightarrow> ('a, 's, 'd, 'c) TwoLevelIterator \<Rightarrow> ('a, 's, 'd, 'c) TwoLevelIterator" where
  "InitDataBlock bf run it =
     (if \<not> IteratorWrapper_Valid (tl_index_iter it) then SetDataIterator run it None
      else let handle = IteratorWrapper_value (tl_index_iter it) in
        if iw_iter (tl_data_iter it) \<noteq> None \<and> Slice_compare handle (tl_data_block_handle it) = 0 then it
        else let (iter, arg) = bf (tl_arg it) handle
             in SetDataIterator run (it\<lparr>tl_arg := arg, tl_data_block_handle := handle\<rparr>) (Some iter))"

text \<open>A move of the index iterator, and a move of the data iterator if there is one.\<close>

definition with_index ::
  "(('s, 'c) IteratorWrapper \<Rightarrow> ('s, 'c) IteratorWrapper option) \<Rightarrow> ('a, 's, 'd, 'c) TwoLevelIterator \<Rightarrow> ('a, 's, 'd, 'c) TwoLevelIterator option" where
  "with_index f it = map_option (\<lambda>w. it\<lparr>tl_index_iter := w\<rparr>) (f (tl_index_iter it))"

definition with_data ::
  "(('d, 'c) IteratorWrapper \<Rightarrow> ('d, 'c) IteratorWrapper option) \<Rightarrow> ('a, 's, 'd, 'c) TwoLevelIterator \<Rightarrow> ('a, 's, 'd, 'c) TwoLevelIterator option" where
  "with_data f it = (if iw_iter (tl_data_iter it) \<noteq> None then map_option (\<lambda>w. it\<lparr>tl_data_iter := w\<rparr>) (f (tl_data_iter it)) else Some it)"

partial_function (option) SkipEmptyDataBlocksForward ::
  "('a, 'd, 'c) BlockFunction \<Rightarrow> ('c \<Rightarrow> 'a \<Rightarrow> 'a) \<Rightarrow> ('a, 's, 'd, 'c) TwoLevelIterator \<Rightarrow> ('a, 's, 'd, 'c) TwoLevelIterator option" where
  "SkipEmptyDataBlocksForward bf run it =
     (if iw_iter (tl_data_iter it) = None \<or> \<not> IteratorWrapper_Valid (tl_data_iter it) then
        if \<not> IteratorWrapper_Valid (tl_index_iter it) then Some (SetDataIterator run it None)
        else Option.bind (with_index IteratorWrapper_Next it) (\<lambda>it.
             Option.bind (with_data IteratorWrapper_SeekToFirst (InitDataBlock bf run it))
               (SkipEmptyDataBlocksForward bf run))
      else Some it)"

partial_function (option) SkipEmptyDataBlocksBackward ::
  "('a, 'd, 'c) BlockFunction \<Rightarrow> ('c \<Rightarrow> 'a \<Rightarrow> 'a) \<Rightarrow> ('a, 's, 'd, 'c) TwoLevelIterator \<Rightarrow> ('a, 's, 'd, 'c) TwoLevelIterator option" where
  "SkipEmptyDataBlocksBackward bf run it =
     (if iw_iter (tl_data_iter it) = None \<or> \<not> IteratorWrapper_Valid (tl_data_iter it) then
        if \<not> IteratorWrapper_Valid (tl_index_iter it) then Some (SetDataIterator run it None)
        else Option.bind (with_index IteratorWrapper_Prev it) (\<lambda>it.
             Option.bind (with_data IteratorWrapper_SeekToLast (InitDataBlock bf run it))
               (SkipEmptyDataBlocksBackward bf run))
      else Some it)"

definition TwoLevel_Seek ::
  "('a, 'd, 'c) BlockFunction \<Rightarrow> ('c \<Rightarrow> 'a \<Rightarrow> 'a) \<Rightarrow> ('a, 's, 'd, 'c) TwoLevelIterator \<Rightarrow> Slice \<Rightarrow> ('a, 's, 'd, 'c) TwoLevelIterator option" where
  "TwoLevel_Seek bf run it target =
     Option.bind (with_index (\<lambda>w. IteratorWrapper_Seek w target) it) (\<lambda>it.
     Option.bind (with_data (\<lambda>w. IteratorWrapper_Seek w target) (InitDataBlock bf run it))
       (SkipEmptyDataBlocksForward bf run))"

definition TwoLevel_SeekToFirst ::
  "('a, 'd, 'c) BlockFunction \<Rightarrow> ('c \<Rightarrow> 'a \<Rightarrow> 'a) \<Rightarrow> ('a, 's, 'd, 'c) TwoLevelIterator \<Rightarrow> ('a, 's, 'd, 'c) TwoLevelIterator option" where
  "TwoLevel_SeekToFirst bf run it =
     Option.bind (with_index IteratorWrapper_SeekToFirst it) (\<lambda>it.
     Option.bind (with_data IteratorWrapper_SeekToFirst (InitDataBlock bf run it))
       (SkipEmptyDataBlocksForward bf run))"

definition TwoLevel_SeekToLast ::
  "('a, 'd, 'c) BlockFunction \<Rightarrow> ('c \<Rightarrow> 'a \<Rightarrow> 'a) \<Rightarrow> ('a, 's, 'd, 'c) TwoLevelIterator \<Rightarrow> ('a, 's, 'd, 'c) TwoLevelIterator option" where
  "TwoLevel_SeekToLast bf run it =
     Option.bind (with_index IteratorWrapper_SeekToLast it) (\<lambda>it.
     Option.bind (with_data IteratorWrapper_SeekToLast (InitDataBlock bf run it))
       (SkipEmptyDataBlocksBackward bf run))"

definition TwoLevel_Next ::
  "('a, 'd, 'c) BlockFunction \<Rightarrow> ('c \<Rightarrow> 'a \<Rightarrow> 'a) \<Rightarrow> ('a, 's, 'd, 'c) TwoLevelIterator \<Rightarrow> ('a, 's, 'd, 'c) TwoLevelIterator option" where
  "TwoLevel_Next bf run it = Option.bind (with_data IteratorWrapper_Next it) (SkipEmptyDataBlocksForward bf run)"

definition TwoLevel_Prev ::
  "('a, 'd, 'c) BlockFunction \<Rightarrow> ('c \<Rightarrow> 'a \<Rightarrow> 'a) \<Rightarrow> ('a, 's, 'd, 'c) TwoLevelIterator \<Rightarrow> ('a, 's, 'd, 'c) TwoLevelIterator option" where
  "TwoLevel_Prev bf run it = Option.bind (with_data IteratorWrapper_Prev it) (SkipEmptyDataBlocksBackward bf run)"

definition TwoLevel_status :: "('a, 's, 'd, 'c) TwoLevelIterator \<Rightarrow> Status" where
  "TwoLevel_status it =
     (if \<not> Status_ok (IteratorWrapper_status (tl_index_iter it)) then IteratorWrapper_status (tl_index_iter it)
      else if iw_iter (tl_data_iter it) \<noteq> None \<and> \<not> Status_ok (IteratorWrapper_status (tl_data_iter it))
      then IteratorWrapper_status (tl_data_iter it)
      else tl_status it)"

definition TwoLevel_Iterator :: "('a, 'd, 'c) BlockFunction \<Rightarrow> ('c \<Rightarrow> 'a \<Rightarrow> 'a) \<Rightarrow> ('a, 's, 'd, 'c) TwoLevelIterator Iterator" where
  "TwoLevel_Iterator bf run =
     \<lparr>it_Valid = (\<lambda>it. IteratorWrapper_Valid (tl_data_iter it)), it_SeekToFirst = TwoLevel_SeekToFirst bf run,
      it_SeekToLast = TwoLevel_SeekToLast bf run, it_Seek = TwoLevel_Seek bf run,
      it_Next = TwoLevel_Next bf run, it_Prev = TwoLevel_Prev bf run,
      it_key = (\<lambda>it. IteratorWrapper_key (tl_data_iter it)), it_value = (\<lambda>it. IteratorWrapper_value (tl_data_iter it)),
      it_status = TwoLevel_status\<rparr>"

subsection \<open>What the iterator relies on\<close>

text \<open>
  \<open>src a M B\<close>: the argument \<open>a\<close>, with the cleanups \<open>M\<close> still to be run, serves the blocks of the map \<open>B\<close>.
\<close>

locale block_source =
  fixes cmp :: "Slice \<Rightarrow> Slice \<Rightarrow> int"
    and bf :: "('a, 'd, 'c) BlockFunction"
    and run :: "'c \<Rightarrow> 'a \<Rightarrow> 'a"
    and src :: "'a \<Rightarrow> 'c multiset \<Rightarrow> (Slice \<rightharpoonup> entries) \<Rightarrow> bool"
  assumes src_read: "src a M B \<Longrightarrow> B h = Some L \<Longrightarrow> bf a h = (ob, a') \<Longrightarrow>
      obj_at cmp ob L None \<and> src a' (M + mset (io_cleanup ob)) B"
    and src_release: "src a (add_mset c M) B \<Longrightarrow> src (run c a) M B"

text \<open>The index separates the blocks: no key of a block is after its index key, none of a later block is before it.\<close>

definition block_entries :: "(Slice \<rightharpoonup> entries) \<Rightarrow> entries \<Rightarrow> nat \<Rightarrow> entries" where
  "block_entries B ix i = the (B (snd (ix ! i)))"

definition two_layout :: "(Slice \<Rightarrow> Slice \<Rightarrow> int) \<Rightarrow> entries \<Rightarrow> (Slice \<rightharpoonup> entries) \<Rightarrow> entries \<Rightarrow> bool" where
  "two_layout cmp ix B es \<longleftrightarrow> comparator cmp \<and> entries_sorted cmp es \<and> (\<forall>e \<in> set ix. B (snd e) \<noteq> None)
     \<and> es = concat (map (\<lambda>e. the (B (snd e))) ix)
     \<and> (\<forall>i < length ix. \<forall>x \<in> set (block_entries B ix i). cmp (fst x) (fst (ix ! i)) \<le> 0)
     \<and> (\<forall>j < length ix. \<forall>i < j. \<forall>x \<in> set (block_entries B ix j). cmp (fst (ix ! i)) (fst x) < 0)"

definition block_start :: "(Slice \<rightharpoonup> entries) \<Rightarrow> entries \<Rightarrow> nat \<Rightarrow> nat" where
  "block_start B ix i = length (concat (map (\<lambda>e. the (B (snd e))) (take i ix)))"

definition wrapper_cleanup :: "('s, 'c) IteratorWrapper \<Rightarrow> 'c list" where
  "wrapper_cleanup w = (case iw_iter w of None \<Rightarrow> [] | Some ob \<Rightarrow> io_cleanup ob)"

lemma block_start_Suc: "i < length ix \<Longrightarrow> block_start B ix (Suc i) = block_start B ix i + length (block_entries B ix i)"
  by (simp add: block_start_def block_entries_def take_Suc_conv_app_nth)

lemma block_start_0 [simp]: "block_start B ix 0 = 0"
  by (simp add: block_start_def)

lemma two_layout_split:
  assumes "two_layout cmp ix B es" and "i < length ix"
  obtains A D where "es = A @ block_entries B ix i @ D" and "length A = block_start B ix i"
    and "\<forall>x \<in> set A. \<exists>j < i. cmp (fst x) (fst (ix ! j)) \<le> 0" and "\<forall>x \<in> set D. cmp (fst (ix ! i)) (fst x) < 0"
proof -
  let ?f = "\<lambda>e. the (B (snd e))"
  let ?A = "concat (map ?f (take i ix))" and ?D = "concat (map ?f (drop (Suc i) ix))"
  have "es = concat (map ?f (take i ix @ ix ! i # drop (Suc i) ix))"
    using assms by (simp add: two_layout_def id_take_nth_drop [symmetric])
  then have "es = ?A @ block_entries B ix i @ ?D" by (simp add: block_entries_def)
  moreover have "\<exists>j < i. cmp (fst x) (fst (ix ! j)) \<le> 0" if x: "x \<in> set ?A" for x
  proof -
    obtain e where e: "e \<in> set (take i ix)" "x \<in> set (?f e)" using x by auto
    then obtain j where j: "j < i" "j < length ix" "x \<in> set (?f (ix ! j))" by (auto simp: in_set_conv_nth [of e])
    then show ?thesis using assms(1) by (auto simp: two_layout_def block_entries_def)
  qed
  moreover have "cmp (fst (ix ! i)) (fst x) < 0" if x: "x \<in> set ?D" for x
  proof -
    obtain e where e: "e \<in> set (drop (Suc i) ix)" "x \<in> set (?f e)" using x by auto
    obtain k where "k < length (drop (Suc i) ix)" "e = drop (Suc i) ix ! k" using e(1) by (metis in_set_conv_nth)
    then have "Suc i + k < length ix" "e = ix ! (Suc i + k)" by simp_all
    then obtain j where "j < length ix" "i < j" "e = ix ! j" by (metis add_Suc less_add_Suc1)
    then show ?thesis using e(2) assms(1) by (auto simp: two_layout_def block_entries_def)
  qed
  ultimately show thesis using that [of ?A ?D] by (auto simp: block_start_def)
qed

lemma two_layout_empty: "two_layout cmp [] B es \<Longrightarrow> es = []"
  by (simp add: two_layout_def)

lemma block_start_all: "two_layout cmp ix B es \<Longrightarrow> block_start B ix (length ix) = length es"
  by (simp add: two_layout_def block_start_def)

text \<open>A key looked for is in the block the index finds for it, or starts the next block.\<close>

lemma two_layout_seek:
  assumes l: "two_layout cmp ix B es" and s: "entries_sorted cmp ix"
  shows "lower_bound cmp ix k < length ix \<Longrightarrow>
      lower_bound cmp es k = block_start B ix (lower_bound cmp ix k) + lower_bound cmp (block_entries B ix (lower_bound cmp ix k)) k"
    and "\<not> lower_bound cmp ix k < length ix \<Longrightarrow> lower_bound cmp es k = length es"
proof -
  have c: "comparator cmp" using l by (simp add: two_layout_def)
  let ?i = "lower_bound cmp ix k" and ?P = "\<lambda>e. cmp (fst e) k < 0"
  have before: "cmp (fst (ix ! j)) k < 0" if "j < ?i" for j
    using that nth_mem [of j "takeWhile ?P ix"] set_takeWhileD [of "takeWhile ?P ix ! j" ?P ix]
    by (simp add: lower_bound_def List.takeWhile_nth)
  show "lower_bound cmp es k = block_start B ix ?i + lower_bound cmp (block_entries B ix ?i) k" if i: "?i < length ix"
  proof -
    obtain A D where AD: "es = A @ block_entries B ix ?i @ D" "length A = block_start B ix ?i"
      "\<forall>x \<in> set A. \<exists>j < ?i. cmp (fst x) (fst (ix ! j)) \<le> 0" "\<forall>x \<in> set D. cmp (fst (ix ! ?i)) (fst x) < 0"
      by (rule two_layout_split [OF l i])
    have A: "\<forall>x \<in> set A. ?P x" using AD(3) before comparator.cmp_le_less_trans [OF c] by blast
    have "\<not> ?P (ix ! ?i)" using i unfolding lower_bound_def by (rule nth_length_takeWhile)
    then have "\<forall>x \<in> set D. \<not> ?P x" using AD(4) comparator.cmp_less_trans [OF c] by blast
    then have "takeWhile ?P (block_entries B ix ?i @ D) = takeWhile ?P (block_entries B ix ?i)"
      using takeWhile_eq_all_conv [of ?P "block_entries B ix ?i"] by (cases D) (auto simp: takeWhile_append intro: sym)
    then show ?thesis using A AD(1,2) by (simp add: lower_bound_def takeWhile_append)
  qed
  show "lower_bound cmp es k = length es" if "\<not> ?i < length ix"
  proof -
    have "?P x" if "x \<in> set es" for x
    proof -
      obtain e where e: "e \<in> set ix" "x \<in> set (the (B (snd e)))" using \<open>x \<in> set es\<close> l by (auto simp: two_layout_def)
      then obtain j where "j < length ix" "x \<in> set (block_entries B ix j)" by (auto simp: in_set_conv_nth block_entries_def)
      then show ?thesis
        using l before [of j] \<open>\<not> ?i < length ix\<close> comparator.cmp_le_less_trans [OF c] by (fastforce simp: two_layout_def)
    qed
    then show ?thesis by (simp add: lower_bound_def takeWhile_eq_all_conv [THEN iffD2])
  qed
qed

lemma obj_step_cleanup: "obj_step f ob = Some ob' \<Longrightarrow> io_cleanup ob' = io_cleanup ob"
  by (auto simp: obj_step_def)

lemma iw_iter_Update [simp]: "iw_iter (IteratorWrapper_Update ob w) = Some ob"
  by (simp add: IteratorWrapper_Update_def Let_def)

lemma wrapper_step_cleanup: "wrapper_step (obj_step f) w = Some w' \<Longrightarrow> wrapper_cleanup w' = wrapper_cleanup w"
  by (auto simp: wrapper_step_def wrapper_cleanup_def bind_eq_Some_conv dest: obj_step_cleanup)

lemma wrapper_moves_cleanup:
  "IteratorWrapper_Next w = Some w' \<Longrightarrow> wrapper_cleanup w' = wrapper_cleanup w"
  "IteratorWrapper_Prev w = Some w' \<Longrightarrow> wrapper_cleanup w' = wrapper_cleanup w"
  "IteratorWrapper_Seek w k = Some w' \<Longrightarrow> wrapper_cleanup w' = wrapper_cleanup w"
  "IteratorWrapper_SeekToFirst w = Some w' \<Longrightarrow> wrapper_cleanup w' = wrapper_cleanup w"
  "IteratorWrapper_SeekToLast w = Some w' \<Longrightarrow> wrapper_cleanup w' = wrapper_cleanup w"
  by (simp_all add: IteratorWrapper_Next_def IteratorWrapper_Prev_def IteratorWrapper_Seek_def IteratorWrapper_SeekToFirst_def
      IteratorWrapper_SeekToLast_def obj_Iterator_def wrapper_step_cleanup)

context block_source
begin

lemma src_delete: "src a (M + mset (wrapper_cleanup w)) B \<Longrightarrow> src (IteratorWrapper_delete run w a) M B"
proof -
  have "src a (M + mset cs) B \<Longrightarrow> src (foldl (\<lambda>a c. run c a) a cs) M B" for cs
    by (induction cs arbitrary: a) (simp_all add: src_release)
  then show "src a (M + mset (wrapper_cleanup w)) B \<Longrightarrow> src (IteratorWrapper_delete run w a) M B"
    by (simp add: wrapper_cleanup_def IteratorWrapper_delete_def Iterator_delete_def split: option.splits)
qed

text \<open>The index at \<open>iq\<close> and the data iterator null, or at position \<open>dq\<close> of the block of its handle.\<close>

definition two_data :: "('a, 's, 'd, 'c) TwoLevelIterator \<Rightarrow> (Slice \<rightharpoonup> entries) \<Rightarrow> bool" where
  "two_data it B \<longleftrightarrow> (case iw_iter (tl_data_iter it) of
       None \<Rightarrow> \<not> iw_valid (tl_data_iter it)
     | Some _ \<Rightarrow> \<exists>L dq. B (tl_data_block_handle it) = Some L \<and> wrapper_at cmp (tl_data_iter it) L dq)"

definition two_state :: "('a, 's, 'd, 'c) TwoLevelIterator \<Rightarrow> entries \<Rightarrow> (Slice \<rightharpoonup> entries) \<Rightarrow> 'c multiset \<Rightarrow> nat option \<Rightarrow> bool" where
  "two_state it ix B M iq \<longleftrightarrow> wrapper_at cmp (tl_index_iter it) ix iq \<and> tl_status it = Status_OK
     \<and> src (tl_arg it) (M + mset (wrapper_cleanup (tl_data_iter it))) B \<and> two_data it B"

definition two_in :: "('a, 's, 'd, 'c) TwoLevelIterator \<Rightarrow> entries \<Rightarrow> (Slice \<rightharpoonup> entries) \<Rightarrow> 'c multiset \<Rightarrow> nat \<Rightarrow> nat option \<Rightarrow> bool" where
  "two_in it ix B M i dq \<longleftrightarrow> two_state it ix B M (Some i) \<and> tl_data_block_handle it = snd (ix ! i)
     \<and> wrapper_at cmp (tl_data_iter it) (block_entries B ix i) dq"

definition two_at :: "('a, 's, 'd, 'c) TwoLevelIterator \<Rightarrow> entries \<Rightarrow> nat option \<Rightarrow> bool" where
  "two_at it es p \<longleftrightarrow> (\<exists>ix B M. two_layout cmp ix B es \<and> (case p of
       None \<Rightarrow> (\<exists>iq. two_state it ix B M iq) \<and> iw_iter (tl_data_iter it) = None
     | Some m \<Rightarrow> \<exists>i j. two_in it ix B M i (Some j) \<and> m = block_start B ix i + j))"

lemma SetDataIterator_null:
  assumes "two_state it ix B M iq"
  shows "two_state (SetDataIterator run it None) ix B M iq \<and> iw_iter (tl_data_iter (SetDataIterator run it None)) = None"
proof -
  have "SaveError it s = it" if "Status_ok s" for s using that by (simp add: SaveError_def)
  moreover have "iw_iter (tl_data_iter it) \<noteq> None \<Longrightarrow> Status_ok (IteratorWrapper_status (tl_data_iter it))"
    using assms wrapper_reads(2) [of cmp "tl_data_iter it"] by (auto simp: two_state_def two_data_def)
  ultimately have "SetDataIterator run it None =
      it\<lparr>tl_data_iter := (tl_data_iter it)\<lparr>iw_iter := None, iw_valid := False\<rparr>,
         tl_arg := IteratorWrapper_delete run (tl_data_iter it) (tl_arg it)\<rparr>"
    by (auto simp: SetDataIterator_def IteratorWrapper_Set_def Let_def)
  then show ?thesis using assms src_delete [of "tl_arg it" M "tl_data_iter it" B]
    by (simp add: two_state_def two_data_def wrapper_cleanup_def)
qed

lemma SetDataIterator_block:
  assumes it: "two_state it ix B M iq" and L: "B h = Some L" and bf: "bf (tl_arg it) h = (ob, a')"
  shows "two_state (SetDataIterator run (it\<lparr>tl_arg := a', tl_data_block_handle := h\<rparr>) (Some ob)) ix B M iq
    \<and> tl_data_block_handle (SetDataIterator run (it\<lparr>tl_arg := a', tl_data_block_handle := h\<rparr>) (Some ob)) = h
    \<and> wrapper_at cmp (tl_data_iter (SetDataIterator run (it\<lparr>tl_arg := a', tl_data_block_handle := h\<rparr>) (Some ob))) L None"
proof -
  let ?it = "it\<lparr>tl_arg := a', tl_data_block_handle := h\<rparr>"
  have "SaveError ?it s = ?it" if "Status_ok s" for s using that by (simp add: SaveError_def)
  moreover have "iw_iter (tl_data_iter it) \<noteq> None \<Longrightarrow> Status_ok (IteratorWrapper_status (tl_data_iter it))"
    using it wrapper_reads(2) [of cmp "tl_data_iter it"] by (auto simp: two_state_def two_data_def)
  ultimately have eq: "SetDataIterator run ?it (Some ob) =
      ?it\<lparr>tl_data_iter := IteratorWrapper_Update ob (tl_data_iter it), tl_arg := IteratorWrapper_delete run (tl_data_iter it) a'\<rparr>"
    by (auto simp: SetDataIterator_def IteratorWrapper_Set_def Let_def)
  have r: "obj_at cmp ob L None" "src a' (M + mset (wrapper_cleanup (tl_data_iter it)) + mset (io_cleanup ob)) B"
    using src_read [where B = B, OF _ L bf] it by (auto simp: two_state_def)
  then have "src (IteratorWrapper_delete run (tl_data_iter it) a') (M + mset (io_cleanup ob)) B"
    using src_delete [of a' "M + mset (io_cleanup ob)" "tl_data_iter it" B] by (simp add: ac_simps)
  then show ?thesis unfolding eq using it L IteratorWrapper_Update_at [OF r(1), of "tl_data_iter it"]
    by (auto simp: two_state_def two_data_def wrapper_cleanup_def)
qed

lemma InitDataBlock_at:
  assumes l: "two_layout cmp ix B es" and it: "two_state it ix B M iq"
  shows "case iq of
      None \<Rightarrow> two_state (InitDataBlock bf run it) ix B M None \<and> iw_iter (tl_data_iter (InitDataBlock bf run it)) = None
    | Some i \<Rightarrow> \<exists>dq. two_in (InitDataBlock bf run it) ix B M i dq"
proof (cases iq)
  case None
  then have "\<not> IteratorWrapper_Valid (tl_index_iter it)" using it wrapper_reads(1) by (auto simp: two_state_def)
  then show ?thesis using SetDataIterator_null [OF it] None by (simp add: InitDataBlock_def)
next
  case (Some i)
  have w: "wrapper_at cmp (tl_index_iter it) ix (Some i)" using it Some by (simp add: two_state_def)
  from wrapper_reads(1) [OF w] wrapper_reads(3) [OF w refl]
  have v: "IteratorWrapper_Valid (tl_index_iter it)" "i < length ix" "IteratorWrapper_value (tl_index_iter it) = snd (ix ! i)" by auto
  let ?h = "snd (ix ! i)"
  have L: "B ?h = Some (block_entries B ix i)" using l v(2) by (auto simp: two_layout_def block_entries_def)
  show ?thesis
  proof (cases "iw_iter (tl_data_iter it) \<noteq> None \<and> Slice_compare ?h (tl_data_block_handle it) = 0")
    case True
    then have h: "tl_data_block_handle it = ?h" by (simp add: Slice_compare_lex)
    then have "\<exists>dq. two_in it ix B M i dq" using it True L Some by (auto simp: two_state_def two_in_def two_data_def)
    then show ?thesis using True v Some by (simp add: InitDataBlock_def Let_def)
  next
    case False
    obtain ob a' where b: "bf (tl_arg it) ?h = (ob, a')" by (cases "bf (tl_arg it) ?h")
    from SetDataIterator_block [OF it L b] False b v Some show ?thesis
      by (auto simp: InitDataBlock_def two_in_def Let_def)
  qed
qed

lemma wrapper_at_iter: "wrapper_at c w es p \<Longrightarrow> \<exists>ob. iw_iter w = Some ob"
  by (auto simp: wrapper_at_def)

lemma with_index_at:
  assumes "two_state it ix B M iq" and "\<exists>w'. f (tl_index_iter it) = Some w' \<and> wrapper_at cmp w' ix iq'"
  shows "\<exists>it'. with_index f it = Some it' \<and> two_state it' ix B M iq'"
proof -
  have "two_data (it\<lparr>tl_index_iter := w'\<rparr>) B \<longleftrightarrow> two_data it B" for w' by (auto simp: two_data_def split: option.splits)
  with assms show ?thesis by (auto simp: with_index_def two_state_def)
qed

lemma with_data_at:
  assumes it: "two_in it ix B M i dq" and l: "two_layout cmp ix B es"
    and f: "\<exists>w'. f (tl_data_iter it) = Some w' \<and> wrapper_at cmp w' (block_entries B ix i) dq'"
    and clean: "\<And>w'. f (tl_data_iter it) = Some w' \<Longrightarrow> wrapper_cleanup w' = wrapper_cleanup (tl_data_iter it)"
  shows "\<exists>it'. with_data f it = Some it' \<and> two_in it' ix B M i dq'"
proof -
  obtain w' where w': "f (tl_data_iter it) = Some w'" "wrapper_at cmp w' (block_entries B ix i) dq'" using f by blast
  have w: "wrapper_at cmp (tl_index_iter it) ix (Some i)" "wrapper_at cmp (tl_data_iter it) (block_entries B ix i) dq"
    using it by (auto simp: two_in_def two_state_def)
  have "i < length ix" using wrapper_reads(3) [OF w(1) refl] by simp
  then have "B (snd (ix ! i)) = Some (block_entries B ix i)" using l by (auto simp: two_layout_def block_entries_def)
  then have "two_in (it\<lparr>tl_data_iter := w'\<rparr>) ix B M i dq'"
    using it w'(2) clean [OF w'(1)] wrapper_at_iter [OF w'(2)]
    by (auto simp: two_in_def two_state_def two_data_def split: option.splits)
  moreover have "iw_iter (tl_data_iter it) \<noteq> None" using w(2) by (auto simp: wrapper_at_def)
  ultimately show ?thesis using w'(1) by (auto simp: with_data_def)
qed

lemma two_at_null: "two_layout cmp ix B es \<Longrightarrow> two_state it ix B M iq \<Longrightarrow> iw_iter (tl_data_iter it) = None \<Longrightarrow> two_at it es None"
  by (auto simp: two_at_def)

lemma two_at_in: "two_layout cmp ix B es \<Longrightarrow> two_in it ix B M i (Some j) \<Longrightarrow> two_at it es (Some (block_start B ix i + j))"
  unfolding two_at_def option.case by blast

lemma two_in_reads:
  assumes "two_in it ix B M i dq"
  shows "i < length ix" and "two_state it ix B M (Some i)"
    and "iw_iter (tl_data_iter it) \<noteq> None" and "IteratorWrapper_Valid (tl_data_iter it) \<longleftrightarrow> dq \<noteq> None"
    and "IteratorWrapper_Valid (tl_index_iter it)"
    and "dq = Some j \<Longrightarrow> j < length (block_entries B ix i)"
proof -
  have w: "wrapper_at cmp (tl_index_iter it) ix (Some i)" "wrapper_at cmp (tl_data_iter it) (block_entries B ix i) dq"
    using assms by (auto simp: two_in_def two_state_def)
  show "i < length ix" using wrapper_reads(3) [OF w(1) refl] by simp
  show "two_state it ix B M (Some i)" using assms by (simp add: two_in_def)
  show "iw_iter (tl_data_iter it) \<noteq> None" using w(2) by (auto simp: wrapper_at_def)
  show "IteratorWrapper_Valid (tl_data_iter it) \<longleftrightarrow> dq \<noteq> None" by (rule wrapper_reads(1) [OF w(2)])
  show "IteratorWrapper_Valid (tl_index_iter it)" using wrapper_reads(1) [OF w(1)] by simp
  show "dq = Some j \<Longrightarrow> j < length (block_entries B ix i)" using wrapper_reads(3) [OF w(2)] by auto
qed

lemma Skip_null:
  assumes "two_state it ix B M None" and "iw_iter (tl_data_iter it) = None" and "two_layout cmp ix B es"
  shows "\<exists>it'. SkipEmptyDataBlocksForward bf run it = Some it' \<and> two_at it' es None"
    and "\<exists>it'. SkipEmptyDataBlocksBackward bf run it = Some it' \<and> two_at it' es None"
proof -
  have "\<not> IteratorWrapper_Valid (tl_index_iter it)" using assms(1) wrapper_reads(1) by (auto simp: two_state_def)
  moreover have "two_at (SetDataIterator run it None) es None"
    using SetDataIterator_null [OF assms(1)] two_at_null [OF assms(3)] by blast
  ultimately show "\<exists>it'. SkipEmptyDataBlocksForward bf run it = Some it' \<and> two_at it' es None"
    "\<exists>it'. SkipEmptyDataBlocksBackward bf run it = Some it' \<and> two_at it' es None"
    using assms(2) by (simp_all add: SkipEmptyDataBlocksForward.simps SkipEmptyDataBlocksBackward.simps)
qed

text \<open>From any position in a block, the loops stop at the next or the previous entry, past empty blocks.\<close>

lemma SkipForward_at:
  assumes l: "two_layout cmp ix B es" and it: "two_in it ix B M i dq"
  shows "\<exists>it'. SkipEmptyDataBlocksForward bf run it = Some it'
    \<and> two_at it' es (case dq of Some j \<Rightarrow> Some (block_start B ix i + j) | None \<Rightarrow> index_in es (block_start B ix (Suc i)))"
  using it
proof (induction "length ix - i" arbitrary: it i dq rule: less_induct)
  case less
  note r = two_in_reads [OF less.prems]
  show ?case
  proof (cases dq)
    case (Some j)
    then have "SkipEmptyDataBlocksForward bf run it = Some it" using r(3,4) by (subst SkipEmptyDataBlocksForward.simps) auto
    moreover have "two_at it es (Some (block_start B ix i + j))" using two_at_in [OF l] less.prems Some by blast
    ultimately show ?thesis by (simp add: Some)
  next
    case None
    have w: "wrapper_at cmp (tl_index_iter it) ix (Some i)" using r(2) by (simp add: two_state_def)
    obtain it1 where it1: "with_index IteratorWrapper_Next it = Some it1" "two_state it1 ix B M (index_in ix (Suc i))"
      using with_index_at [where f = IteratorWrapper_Next, OF r(2) wrapper_moves(4) [OF w refl]] by blast
    let ?it = "InitDataBlock bf run it1"
    note init = InitDataBlock_at [OF l it1(2)]
    have step: "SkipEmptyDataBlocksForward bf run it =
        Option.bind (with_data IteratorWrapper_SeekToFirst ?it) (SkipEmptyDataBlocksForward bf run)"
      using r None it1(1) by (subst SkipEmptyDataBlocksForward.simps) simp
    show ?thesis
    proof (cases "Suc i < length ix")
      case True
      then obtain dq1 where in1: "two_in ?it ix B M (Suc i) dq1" using init by (auto simp: index_in_def)
      have w1: "wrapper_at cmp (tl_data_iter ?it) (block_entries B ix (Suc i)) dq1" using in1 by (simp add: two_in_def)
      obtain it2 where it2: "with_data IteratorWrapper_SeekToFirst ?it = Some it2"
        "two_in it2 ix B M (Suc i) (index_in (block_entries B ix (Suc i)) 0)"
        using with_data_at [where f = IteratorWrapper_SeekToFirst, OF in1 l wrapper_moves(1) [OF w1] wrapper_moves_cleanup(4)] by blast
      have "length ix - Suc i < length ix - i" using True by simp
      from less.hyps [OF this it2(2)] obtain it3 where it3: "SkipEmptyDataBlocksForward bf run it2 = Some it3"
        "two_at it3 es (case index_in (block_entries B ix (Suc i)) 0 of
            Some j \<Rightarrow> Some (block_start B ix (Suc i) + j) | None \<Rightarrow> index_in es (block_start B ix (Suc (Suc i))))" by blast
      have s: "block_start B ix (Suc (Suc i)) = block_start B ix (Suc i) + length (block_entries B ix (Suc i))"
        by (rule block_start_Suc [OF True])
      obtain A D where "es = A @ block_entries B ix (Suc i) @ D" "length A = block_start B ix (Suc i)"
        by (rule two_layout_split [OF l True])
      then have "block_start B ix (Suc i) + length (block_entries B ix (Suc i)) \<le> length es" by simp
      then have "(case index_in (block_entries B ix (Suc i)) 0 of
            Some j \<Rightarrow> Some (block_start B ix (Suc i) + j) | None \<Rightarrow> index_in es (block_start B ix (Suc (Suc i))))
          = index_in es (block_start B ix (Suc i))"
        using s by (cases "block_entries B ix (Suc i)") (auto simp: index_in_def)
      then show ?thesis using it3 it2(1) by (simp add: step None)
    next
      case False
      then have n: "two_state ?it ix B M None" "iw_iter (tl_data_iter ?it) = None" using init by (auto simp: index_in_def)
      then have "with_data IteratorWrapper_SeekToFirst ?it = Some ?it" by (simp add: with_data_def)
      moreover have "block_start B ix (Suc i) = length es"
        using block_start_all [OF l] False r(1) by (metis Suc_lessI)
      ultimately show ?thesis using Skip_null(1) [OF n l] by (simp add: step None index_in_def)
    qed
  qed
qed

lemma SkipBackward_at:
  assumes l: "two_layout cmp ix B es" and it: "two_in it ix B M i dq"
  shows "\<exists>it'. SkipEmptyDataBlocksBackward bf run it = Some it'
    \<and> two_at it' es (case dq of Some j \<Rightarrow> Some (block_start B ix i + j) | None \<Rightarrow> index_before (block_start B ix i))"
  using it
proof (induction i arbitrary: it dq rule: less_induct)
  case (less i)
  note r = two_in_reads [OF less.prems]
  show ?case
  proof (cases dq)
    case (Some j)
    then have "SkipEmptyDataBlocksBackward bf run it = Some it" using r(3,4) by (subst SkipEmptyDataBlocksBackward.simps) auto
    moreover have "two_at it es (Some (block_start B ix i + j))" using two_at_in [OF l] less.prems Some by blast
    ultimately show ?thesis by (simp add: Some)
  next
    case None
    have w: "wrapper_at cmp (tl_index_iter it) ix (Some i)" using r(2) by (simp add: two_state_def)
    obtain it1 where it1: "with_index IteratorWrapper_Prev it = Some it1" "two_state it1 ix B M (index_before i)"
      using with_index_at [where f = IteratorWrapper_Prev, OF r(2) wrapper_moves(5) [OF w refl]] by blast
    let ?it = "InitDataBlock bf run it1"
    note init = InitDataBlock_at [OF l it1(2)]
    have step: "SkipEmptyDataBlocksBackward bf run it =
        Option.bind (with_data IteratorWrapper_SeekToLast ?it) (SkipEmptyDataBlocksBackward bf run)"
      using r None it1(1) by (subst SkipEmptyDataBlocksBackward.simps) simp
    show ?thesis
    proof (cases i)
      case (Suc k)
      then obtain dq1 where in1: "two_in ?it ix B M k dq1" using init by (auto simp: index_before_def)
      have w1: "wrapper_at cmp (tl_data_iter ?it) (block_entries B ix k) dq1" using in1 by (simp add: two_in_def)
      obtain it2 where it2: "with_data IteratorWrapper_SeekToLast ?it = Some it2"
        "two_in it2 ix B M k (index_before (length (block_entries B ix k)))"
        using with_data_at [where f = IteratorWrapper_SeekToLast, OF in1 l wrapper_moves(2) [OF w1] wrapper_moves_cleanup(5)] by blast
      have "k < i" using Suc by simp
      from less.IH [OF this it2(2)] obtain it3 where it3: "SkipEmptyDataBlocksBackward bf run it2 = Some it3"
        "two_at it3 es (case index_before (length (block_entries B ix k)) of
            Some j \<Rightarrow> Some (block_start B ix k + j) | None \<Rightarrow> index_before (block_start B ix k))" by blast
      have "k < length ix" using Suc r(1) by simp
      then have "(case index_before (length (block_entries B ix k)) of
            Some j \<Rightarrow> Some (block_start B ix k + j) | None \<Rightarrow> index_before (block_start B ix k))
          = index_before (block_start B ix i)"
        by (cases "block_entries B ix k") (auto simp: Suc block_start_Suc index_before_def)
      then show ?thesis using it3 it2(1) by (simp add: step None)
    next
      case 0
      then have n: "two_state ?it ix B M None" "iw_iter (tl_data_iter ?it) = None" using init by (auto simp: index_before_def)
      then have "with_data IteratorWrapper_SeekToLast ?it = Some ?it" by (simp add: with_data_def)
      then show ?thesis using Skip_null(2) [OF n l] by (simp add: step None 0 index_before_def)
    qed
  qed
qed

text \<open>A seek: the index moves, the data iterator of the block found moves, and the loop skips.\<close>

lemma two_seek:
  assumes l: "two_layout cmp ix B es" and it: "two_state it ix B M iq"
    and f: "\<exists>w'. f (tl_index_iter it) = Some w' \<and> wrapper_at cmp w' ix iq'"
    and g: "\<forall>w L p. wrapper_at cmp w L p \<longrightarrow>
      (\<exists>w'. g w = Some w' \<and> wrapper_at cmp w' L (pos L) \<and> wrapper_cleanup w' = wrapper_cleanup w)"
  shows "\<exists>it1 it2. with_index f it = Some it1 \<and> with_data g (InitDataBlock bf run it1) = Some it2
    \<and> (case iq' of None \<Rightarrow> two_state it2 ix B M None \<and> iw_iter (tl_data_iter it2) = None
        | Some i \<Rightarrow> two_in it2 ix B M i (pos (block_entries B ix i)))"
proof -
  obtain it1 where it1: "with_index f it = Some it1" "two_state it1 ix B M iq'"
    using with_index_at [where f = f, OF it f] by blast
  let ?it = "InitDataBlock bf run it1"
  note init = InitDataBlock_at [OF l it1(2)]
  show ?thesis
  proof (cases iq')
    case None
    then show ?thesis using init it1(1) by (simp add: with_data_def)
  next
    case (Some i)
    then obtain dq where in1: "two_in ?it ix B M i dq" using init by auto
    then have "wrapper_at cmp (tl_data_iter ?it) (block_entries B ix i) dq" by (simp add: two_in_def)
    with g obtain w' where w': "g (tl_data_iter ?it) = Some w'" "wrapper_at cmp w' (block_entries B ix i) (pos (block_entries B ix i))"
      "wrapper_cleanup w' = wrapper_cleanup (tl_data_iter ?it)" by blast
    have "\<exists>it'. with_data g ?it = Some it' \<and> two_in it' ix B M i (pos (block_entries B ix i))"
      by (rule with_data_at [OF in1 l]) (use w' in auto)
    then show ?thesis using it1(1) Some by auto
  qed
qed

lemma two_reads:
  assumes "two_at it es p"
  obtains ix B M iq where "two_layout cmp ix B es" and "two_state it ix B M iq" and "entries_sorted cmp ix"
    and "wrapper_at cmp (tl_index_iter it) ix iq"
proof -
  obtain ix B M iq where s: "two_layout cmp ix B es" "two_state it ix B M iq"
    using assms by (fastforce simp: two_at_def two_in_def split: option.splits)
  then show thesis using that [OF s] wrapper_reads(5) by (auto simp: two_state_def)
qed

lemma block_start_last: "two_layout cmp ix B es \<Longrightarrow> ix \<noteq> [] \<Longrightarrow>
    length es = block_start B ix (length ix - 1) + length (block_entries B ix (length ix - 1))"
  using block_start_all [of cmp ix B es] block_start_Suc [of "length ix - 1" ix B] by (cases ix) auto

lemma two_index_before:
  assumes "two_layout cmp ix B es" and "i < length ix"
  shows "block_start B ix i + length (block_entries B ix i) \<le> length es"
    and "j < length (block_entries B ix i) \<Longrightarrow> es ! (block_start B ix i + j) = block_entries B ix i ! j"
  by (rule two_layout_split [OF assms]; auto simp: nth_append)+

lemma two_SeekToFirst_at: "two_at it es p \<Longrightarrow> \<exists>it'. TwoLevel_SeekToFirst bf run it = Some it' \<and> two_at it' es (index_in es 0)"
proof -
  assume "two_at it es p"
  then obtain ix B M iq where l: "two_layout cmp ix B es" and st: "two_state it ix B M iq"
    and w: "wrapper_at cmp (tl_index_iter it) ix iq" by (rule two_reads)
  have data: "\<forall>(w :: ('d, 'c) IteratorWrapper) L p. wrapper_at cmp w L p \<longrightarrow> (\<exists>w'. IteratorWrapper_SeekToFirst w = Some w' \<and> wrapper_at cmp w' L (index_in L 0)
      \<and> wrapper_cleanup w' = wrapper_cleanup w)"
    using wrapper_moves(1) wrapper_moves_cleanup(4) by blast
  obtain it1 it2 where s: "with_index IteratorWrapper_SeekToFirst it = Some it1"
    "with_data IteratorWrapper_SeekToFirst (InitDataBlock bf run it1) = Some it2"
    "case index_in ix 0 of None \<Rightarrow> two_state it2 ix B M None \<and> iw_iter (tl_data_iter it2) = None
        | Some i \<Rightarrow> two_in it2 ix B M i (index_in (block_entries B ix i) 0)"
    using two_seek [where f = IteratorWrapper_SeekToFirst and g = IteratorWrapper_SeekToFirst, OF l st wrapper_moves(1) [OF w] data] by blast
  show ?thesis
  proof (cases "ix = []")
    case True
    then have "es = []" using two_layout_empty l by blast
    then show ?thesis using s Skip_null(1) [OF _ _ l, of it2 M] True by (simp add: TwoLevel_SeekToFirst_def index_in_def)
  next
    case False
    then have i: "two_in it2 ix B M 0 (index_in (block_entries B ix 0) 0)" and n: "0 < length ix" using s(3) by (auto simp: index_in_def)
    have "(case index_in (block_entries B ix 0) 0 of Some j \<Rightarrow> Some (block_start B ix 0 + j) | None \<Rightarrow> index_in es (block_start B ix (Suc 0)))
        = index_in es 0"
      using two_index_before(1) [OF l n] block_start_Suc [OF n, of B] by (cases "block_entries B ix 0") (auto simp: index_in_def)
    then show ?thesis using SkipForward_at [OF l i] s(1,2) by (simp add: TwoLevel_SeekToFirst_def)
  qed
qed

lemma two_SeekToLast_at:
  "two_at it es p \<Longrightarrow> \<exists>it'. TwoLevel_SeekToLast bf run it = Some it' \<and> two_at it' es (index_before (length es))"
proof -
  assume "two_at it es p"
  then obtain ix B M iq where l: "two_layout cmp ix B es" and st: "two_state it ix B M iq"
    and w: "wrapper_at cmp (tl_index_iter it) ix iq" by (rule two_reads)
  have data: "\<forall>(w :: ('d, 'c) IteratorWrapper) L p. wrapper_at cmp w L p \<longrightarrow> (\<exists>w'. IteratorWrapper_SeekToLast w = Some w' \<and> wrapper_at cmp w' L (index_before (length L))
      \<and> wrapper_cleanup w' = wrapper_cleanup w)"
    using wrapper_moves(2) wrapper_moves_cleanup(5) by blast
  obtain it1 it2 where s: "with_index IteratorWrapper_SeekToLast it = Some it1"
    "with_data IteratorWrapper_SeekToLast (InitDataBlock bf run it1) = Some it2"
    "case index_before (length ix) of None \<Rightarrow> two_state it2 ix B M None \<and> iw_iter (tl_data_iter it2) = None
        | Some i \<Rightarrow> two_in it2 ix B M i (index_before (length (block_entries B ix i)))"
    using two_seek [where f = IteratorWrapper_SeekToLast and g = IteratorWrapper_SeekToLast, OF l st wrapper_moves(2) [OF w] data] by blast
  show ?thesis
  proof (cases "ix = []")
    case True
    then have "es = []" using two_layout_empty l by blast
    then show ?thesis using s Skip_null(2) [OF _ _ l, of it2 M] True by (simp add: TwoLevel_SeekToLast_def index_before_def)
  next
    case False
    let ?i = "length ix - 1"
    have i: "two_in it2 ix B M ?i (index_before (length (block_entries B ix ?i)))" using s(3) False by (auto simp: index_before_def)
    have "(case index_before (length (block_entries B ix ?i)) of Some j \<Rightarrow> Some (block_start B ix ?i + j) | None \<Rightarrow> index_before (block_start B ix ?i))
        = index_before (length es)"
      using block_start_last [OF l False] by (cases "block_entries B ix ?i") (auto simp: index_before_def)
    then show ?thesis using SkipBackward_at [OF l i] s(1,2) by (simp add: TwoLevel_SeekToLast_def)
  qed
qed

lemma two_Seek_at:
  assumes "two_at it es p" and k: "key_fits k"
  shows "\<exists>it'. TwoLevel_Seek bf run it k = Some it' \<and> two_at it' es (index_in es (lower_bound cmp es k))"
proof -
  obtain ix B M iq where l: "two_layout cmp ix B es" and st: "two_state it ix B M iq" and sorted: "entries_sorted cmp ix"
    and w: "wrapper_at cmp (tl_index_iter it) ix iq" by (rule two_reads [OF assms(1)])
  let ?i = "lower_bound cmp ix k" and ?b = "\<lambda>i. lower_bound cmp (block_entries B ix i) k"
  have data: "\<forall>(w :: ('d, 'c) IteratorWrapper) L p. wrapper_at cmp w L p \<longrightarrow> (\<exists>w'. IteratorWrapper_Seek w k = Some w'
      \<and> wrapper_at cmp w' L (index_in L (lower_bound cmp L k)) \<and> wrapper_cleanup w' = wrapper_cleanup w)"
   
    using wrapper_moves(3) [OF _ k] wrapper_moves_cleanup(3) by blast
  obtain it1 it2 where s: "with_index (\<lambda>w. IteratorWrapper_Seek w k) it = Some it1"
    "with_data (\<lambda>w. IteratorWrapper_Seek w k) (InitDataBlock bf run it1) = Some it2"
    "case index_in ix ?i of None \<Rightarrow> two_state it2 ix B M None \<and> iw_iter (tl_data_iter it2) = None
        | Some i \<Rightarrow> two_in it2 ix B M i (index_in (block_entries B ix i) (?b i))"
    using two_seek [where f = "\<lambda>w. IteratorWrapper_Seek w k" and g = "\<lambda>w. IteratorWrapper_Seek w k", OF l st wrapper_moves(3) [OF w k] data]
    by blast
  note sk = two_layout_seek [OF l sorted, of k]
  show ?thesis
  proof (cases "?i < length ix")
    case True
    have i: "two_in it2 ix B M ?i (index_in (block_entries B ix ?i) (?b ?i))" using s(3) True by (auto simp: index_in_def)
    have "?b ?i \<le> length (block_entries B ix ?i)" by (simp add: lower_bound_def length_takeWhile_le)
    then have "(case index_in (block_entries B ix ?i) (?b ?i) of
          Some j \<Rightarrow> Some (block_start B ix ?i + j) | None \<Rightarrow> index_in es (block_start B ix (Suc ?i)))
        = index_in es (lower_bound cmp es k)"
      using two_index_before(1) [OF l True] block_start_Suc [OF True, of B] sk(1) [OF True] by (auto simp: index_in_def)
    then show ?thesis using SkipForward_at [OF l i] s(1,2) by (simp add: TwoLevel_Seek_def)
  next
    case False
    then show ?thesis using s Skip_null(1) [OF _ _ l, of it2 M] sk(2) by (simp add: TwoLevel_Seek_def index_in_def)
  qed
qed

lemma two_steps_at:
  assumes l: "two_layout cmp ix B es" and it: "two_in it ix B M i (Some j)"
  shows "\<exists>it'. TwoLevel_Next bf run it = Some it' \<and> two_at it' es (index_in es (Suc (block_start B ix i + j)))"
    and "\<exists>it'. TwoLevel_Prev bf run it = Some it' \<and> two_at it' es (index_before (block_start B ix i + j))"
proof -
  note r = two_in_reads [OF it]
  have j: "j < length (block_entries B ix i)" using r(6) by simp
  have w: "wrapper_at cmp (tl_data_iter it) (block_entries B ix i) (Some j)" using it by (simp add: two_in_def)
  obtain it1 where it1: "with_data IteratorWrapper_Next it = Some it1" "two_in it1 ix B M i (index_in (block_entries B ix i) (Suc j))"
    using with_data_at [where f = IteratorWrapper_Next, OF it l wrapper_moves(4) [OF w refl] wrapper_moves_cleanup(1)] by blast
  have "(case index_in (block_entries B ix i) (Suc j) of
        Some j \<Rightarrow> Some (block_start B ix i + j) | None \<Rightarrow> index_in es (block_start B ix (Suc i)))
      = index_in es (Suc (block_start B ix i + j))"
    using two_index_before(1) [OF l r(1)] block_start_Suc [OF r(1), of B] j by (auto simp: index_in_def)
  then show "\<exists>it'. TwoLevel_Next bf run it = Some it' \<and> two_at it' es (index_in es (Suc (block_start B ix i + j)))"
    using SkipForward_at [OF l it1(2)] it1(1) by (simp add: TwoLevel_Next_def)
  obtain it2 where it2: "with_data IteratorWrapper_Prev it = Some it2" "two_in it2 ix B M i (index_before j)"
    using with_data_at [where f = IteratorWrapper_Prev, OF it l wrapper_moves(5) [OF w refl] wrapper_moves_cleanup(2)] by blast
  have "(case index_before j of Some j \<Rightarrow> Some (block_start B ix i + j) | None \<Rightarrow> index_before (block_start B ix i))
      = index_before (block_start B ix i + j)" by (cases j) (auto simp: index_before_def)
  then show "\<exists>it'. TwoLevel_Prev bf run it = Some it' \<and> two_at it' es (index_before (block_start B ix i + j))"
    using SkipBackward_at [OF l it2(2)] it2(1) by (simp add: TwoLevel_Prev_def)
qed

lemma two_level_iterator: "iterator cmp (TwoLevel_Iterator bf run) two_at"
proof
  fix it :: "('a, 's, 'd, 'c) TwoLevelIterator" and es p
  assume at: "two_at it es p"
  obtain ix B M iq where l: "two_layout cmp ix B es" and st: "two_state it ix B M iq"
    and w: "wrapper_at cmp (tl_index_iter it) ix iq" by (rule two_reads [OF at])
  show "comparator cmp \<and> entries_sorted cmp es" using l unfolding two_layout_def by blast
  show "it_Valid (TwoLevel_Iterator bf run) it = (p \<noteq> None)"
  proof (cases p)
    case None
    then show ?thesis using at by (auto simp: two_at_def two_state_def two_data_def TwoLevel_Iterator_def IteratorWrapper_Valid_def)
  next
    case (Some m)
    then show ?thesis using at two_in_reads(4) by (fastforce simp: two_at_def TwoLevel_Iterator_def)
  qed
  have "IteratorWrapper_status (tl_data_iter it) = Status_OK" if "iw_iter (tl_data_iter it) \<noteq> None"
    using st that wrapper_reads(2) by (fastforce simp: two_state_def two_data_def)
  then show "it_status (TwoLevel_Iterator bf run) it = Status_OK"
    using st wrapper_reads(2) [OF w] by (simp add: TwoLevel_Iterator_def TwoLevel_status_def two_state_def)
  show "\<exists>s'. it_SeekToFirst (TwoLevel_Iterator bf run) it = Some s' \<and> two_at s' es (index_in es 0)"
    using two_SeekToFirst_at [OF at] by (simp add: TwoLevel_Iterator_def)
  show "\<exists>s'. it_SeekToLast (TwoLevel_Iterator bf run) it = Some s' \<and> two_at s' es (index_before (length es))"
    using two_SeekToLast_at [OF at] by (simp add: TwoLevel_Iterator_def)
  show "\<exists>s'. it_Seek (TwoLevel_Iterator bf run) it k = Some s' \<and> two_at s' es (index_in es (lower_bound cmp es k))"
    if "key_fits k" for k
    using two_Seek_at [OF at that] by (simp add: TwoLevel_Iterator_def)
next
  fix it :: "('a, 's, 'd, 'c) TwoLevelIterator" and es m
  assume at: "two_at it es (Some m)"
  then obtain ix B M i j where l: "two_layout cmp ix B es" and it: "two_in it ix B M i (Some j)" and m: "m = block_start B ix i + j"
    by (auto simp: two_at_def)
  note r = two_in_reads [OF it]
  have j: "j < length (block_entries B ix i)" using r(6) by simp
  have w: "wrapper_at cmp (tl_data_iter it) (block_entries B ix i) (Some j)" using it by (simp add: two_in_def)
  show "m < length es \<and> es ! m = (it_key (TwoLevel_Iterator bf run) it, it_value (TwoLevel_Iterator bf run) it)"
    using two_index_before [OF l r(1)] j wrapper_reads(3) [OF w refl] by (simp add: m TwoLevel_Iterator_def)
  show "\<exists>s'. it_Next (TwoLevel_Iterator bf run) it = Some s' \<and> two_at s' es (index_in es (Suc m))"
    using two_steps_at(1) [OF l it] by (simp add: TwoLevel_Iterator_def m)
  show "\<exists>s'. it_Prev (TwoLevel_Iterator bf run) it = Some s' \<and> two_at s' es (index_before m)"
    using two_steps_at(2) [OF l it] by (simp add: TwoLevel_Iterator_def m)
qed

lemma NewTwoLevelIterator_at:
  assumes "two_layout cmp ix B es" and "obj_at cmp index_iter ix iq" and "src arg M B"
  shows "two_at (NewTwoLevelIterator index_iter arg) es None"
proof -
  have "two_state (NewTwoLevelIterator index_iter arg) ix B M iq"
    using assms IteratorWrapper_Set_at [OF assms(2)]
    by (simp add: NewTwoLevelIterator_def two_state_def two_data_def IteratorWrapper_make_def wrapper_cleanup_def)
  then show ?thesis by (rule two_at_null [OF assms(1)]) (simp add: NewTwoLevelIterator_def IteratorWrapper_make_def)
qed

end

end
