(* ===== verification/Table.thy ===== *)
theory Table
  imports TableBuilder TwoLevel Cache
begin

text \<open>
  Tables (\<^verbatim>\<open>table/table.cc\<close>): opening the file of a table, iterating over it and looking up a key, through the block cache
  when there is one.  The file is its \<^verbatim>\<open>Read\<close>, which may fail; the cache is passed along, \<open>None\<close> when the options have
  none.  A move of an iterator that does not return makes the whole call not return (\<open>None\<close>).
\<close>

record RandomAccessFile =
  ra_Read :: "nat \<Rightarrow> nat \<Rightarrow> Status \<times> Slice"
  ra_mapped :: bool

record Table =
  tbl_options :: Options
  tbl_file :: RandomAccessFile
  tbl_cache_id :: u64
  tbl_filter :: "FilterBlockReader option"
  tbl_metaindex_handle :: BlockHandle
  tbl_index_block :: Block

type_synonym BlockCache = "Block ShardedLRUCache option"

definition read_block :: "Snappy \<Rightarrow> RandomAccessFile \<Rightarrow> bool \<Rightarrow> BlockHandle \<Rightarrow> Status \<times> BlockContents" where
  "read_block S file verify_checksums handle =
     ReadBlock (ra_Read file) (ra_mapped file) (sn_length S) (sn_uncompress S) verify_checksums handle"

subsection \<open>Opening\<close>

definition ReadFilter :: "Snappy \<Rightarrow> Table \<Rightarrow> Slice \<Rightarrow> Table" where
  "ReadFilter S t filter_handle_value =
     (let (s, filter_handle, _) = BlockHandle_DecodeFrom BlockHandle_make filter_handle_value in
      if \<not> Status_ok s then t
      else let (s, block) = read_block S (tbl_file t) (opt_paranoid_checks (tbl_options t)) filter_handle in
           if \<not> Status_ok s then t else t\<lparr>tbl_filter := Some (FilterBlockReader_make (bc_data block))\<rparr>)"

definition ReadMeta :: "Snappy \<Rightarrow> Table \<Rightarrow> Footer \<Rightarrow> Table option" where
  "ReadMeta S t footer =
     (case opt_filter_policy (tbl_options t) of
        None \<Rightarrow> Some t
      | Some P \<Rightarrow>
          let (s, contents) = read_block S (tbl_file t) (opt_paranoid_checks (tbl_options t)) (ft_metaindex_handle footer) in
          if \<not> Status_ok s then Some t
          else let I = Block_Iterator (Compare BytewiseComparator);
                   iter = Block_NewIterator (Block_make (bc_data contents));
                   key = filter_meta_key P
               in map_option (\<lambda>iter. if it_Valid I iter \<and> Slice_equal (it_key I iter) key then ReadFilter S t (it_value I iter) else t)
                    (it_Seek I iter key))"

definition Table_Open ::
  "Snappy \<Rightarrow> Options \<Rightarrow> RandomAccessFile \<Rightarrow> nat \<Rightarrow> BlockCache \<Rightarrow> (Status \<times> Table option \<times> BlockCache) option" where
  "Table_Open S options file file_size cache =
     (if file_size < ft_kEncodedLength then Some (Corruption (str ''file is too short to be an sstable'') [], None, cache)
      else let (s, footer_input) = ra_Read file (file_size - ft_kEncodedLength) ft_kEncodedLength in
        if \<not> Status_ok s then Some (s, None, cache)
        else let (s, footer, _) = Footer_DecodeFrom Footer_make footer_input in
          if \<not> Status_ok s then Some (s, None, cache)
          else let (s, contents) = read_block S file (opt_paranoid_checks options) (ft_index_handle footer) in
            if Status_ok s then
              let (id, cache) = (case cache of None \<Rightarrow> (0, None) | Some c \<Rightarrow> let (id, c) = NewId c in (id, Some c))
              in map_option (\<lambda>t. (s, Some t, cache))
                   (ReadMeta S \<lparr>tbl_options = options, tbl_file = file, tbl_cache_id = id, tbl_filter = None,
                      tbl_metaindex_handle = ft_metaindex_handle footer, tbl_index_block = Block_make (bc_data contents)\<rparr> footer)
            else Some (s, None, cache))"

subsection \<open>Reading blocks\<close>

datatype BlockCleanup = DeleteBlock Block | ReleaseBlock "nat \<times> nat"

primrec run_cleanup :: "BlockCleanup \<Rightarrow> BlockCache \<Rightarrow> BlockCache" where
  "run_cleanup (DeleteBlock b) cache = cache"
| "run_cleanup (ReleaseBlock h) cache = map_option (\<lambda>c. Cache_Release c h) cache"

definition cache_key :: "Table \<Rightarrow> BlockHandle \<Rightarrow> bytes" where
  "cache_key t handle = EncodeFixed64 (tbl_cache_id t) @ EncodeFixed64 (bh_offset handle)"

text \<open>The block of a handle, with the handle in the cache if the cache refers to it.\<close>

definition find_block ::
  "Snappy \<Rightarrow> Table \<Rightarrow> ReadOptions \<Rightarrow> BlockHandle \<Rightarrow> BlockCache \<Rightarrow> Status \<times> Block option \<times> (nat \<times> nat) option \<times> BlockCache" where
  "find_block S t options handle block_cache =
     (case block_cache of
        Some c \<Rightarrow>
          let key = cache_key t handle;
              (cache_handle, c) = Cache_Lookup c key
          in (case cache_handle of
                Some h \<Rightarrow> (Status_OK, Cache_Value c h, Some h, Some c)
              | None \<Rightarrow>
                  let (s, contents) = read_block S (tbl_file t) (ro_verify_checksums options) handle in
                  if Status_ok s then
                    let block = Block_make (bc_data contents) in
                    if bc_cachable contents \<and> ro_fill_cache options then
                      let (h, c) = Cache_Insert c key block (bl_size block) in (s, Some block, Some h, Some c)
                    else (s, Some block, None, Some c)
                  else (s, None, None, Some c))
      | None \<Rightarrow>
          let (s, contents) = read_block S (tbl_file t) (ro_verify_checksums options) handle in
          if Status_ok s then (s, Some (Block_make (bc_data contents)), None, None) else (s, None, None, None))"

definition BlockReader ::
  "Snappy \<Rightarrow> Table \<Rightarrow> ReadOptions \<Rightarrow> (BlockCache, Status + BlockIter, BlockCleanup) BlockFunction" where
  "BlockReader S t options block_cache index_value =
     (let (s, handle, _) = BlockHandle_DecodeFrom BlockHandle_make index_value;
          (s, block, cache_handle, block_cache) =
            (if Status_ok s then find_block S t options handle block_cache else (s, None, None, block_cache));
          I = Block_Iterator (Compare (opt_comparator (tbl_options t)))
      in (case block of
            Some b \<Rightarrow>
              (RegisterCleanup (Iterator_make I (Block_NewIterator b))
                 (case cache_handle of None \<Rightarrow> DeleteBlock b | Some h \<Rightarrow> ReleaseBlock h), block_cache)
          | None \<Rightarrow> (Iterator_make I (Inl s), block_cache)))"

definition Table_index_iter :: "Table \<Rightarrow> (Status + BlockIter, 'c) IterObj" where
  "Table_index_iter t = Iterator_make (Block_Iterator (Compare (opt_comparator (tbl_options t)))) (Block_NewIterator (tbl_index_block t))"

definition Table_Iterator ::
  "Snappy \<Rightarrow> Table \<Rightarrow> ReadOptions \<Rightarrow> (BlockCache, Status + BlockIter, Status + BlockIter, BlockCleanup) TwoLevelIterator Iterator" where
  "Table_Iterator S t options = TwoLevel_Iterator (BlockReader S t options) run_cleanup"

definition Table_NewIterator ::
  "Table \<Rightarrow> BlockCache \<Rightarrow> (BlockCache, Status + BlockIter, Status + BlockIter, BlockCleanup) TwoLevelIterator" where
  "Table_NewIterator t cache = NewTwoLevelIterator (Table_index_iter t) cache"

text \<open>The lookup hands the entry it finds to \<open>saver\<close>, on the state \<open>arg\<close>.\<close>

definition InternalGet ::
  "Snappy \<Rightarrow> Table \<Rightarrow> ReadOptions \<Rightarrow> Slice \<Rightarrow> ('g \<Rightarrow> Slice \<Rightarrow> Slice \<Rightarrow> 'g) \<Rightarrow> 'g \<Rightarrow> BlockCache \<Rightarrow> (Status \<times> 'g \<times> BlockCache) option" where
  "InternalGet S t options k saver arg cache =
     Option.bind (it_Seek obj_Iterator (Table_index_iter t :: (Status + BlockIter, BlockCleanup) IterObj) k) (\<lambda>iiter.
       map_option (\<lambda>(s, arg, cache). (if Status_ok s then it_status obj_Iterator iiter else s, arg, cache))
         (if it_Valid obj_Iterator iiter then
            let handle_value = it_value obj_Iterator iiter;
                (d, handle, _) = BlockHandle_DecodeFrom BlockHandle_make handle_value
            in if (case (tbl_filter t, opt_filter_policy (tbl_options t)) of
                     (Some r, Some P) \<Rightarrow> Status_ok d \<and> \<not> FilterBlock_KeyMayMatch P r (bh_offset handle) k
                   | _ \<Rightarrow> False)
               then Some (Status_OK, arg, cache)
               else let (block_iter, cache) = BlockReader S t options cache handle_value in
                 map_option (\<lambda>block_iter.
                     let arg = (if it_Valid obj_Iterator block_iter
                                then saver arg (it_key obj_Iterator block_iter) (it_value obj_Iterator block_iter) else arg)
                     in (it_status obj_Iterator block_iter, arg, Iterator_delete run_cleanup block_iter cache))
                   (it_Seek obj_Iterator block_iter k)
          else Some (Status_OK, arg, cache)))"

definition ApproximateOffsetOf :: "Table \<Rightarrow> Slice \<Rightarrow> u64 option" where
  "ApproximateOffsetOf t key =
     map_option (\<lambda>index_iter.
         if it_Valid obj_Iterator index_iter then
           let (s, handle, _) = BlockHandle_DecodeFrom BlockHandle_make (it_value obj_Iterator index_iter)
           in if Status_ok s then bh_offset handle else bh_offset (tbl_metaindex_handle t)
         else bh_offset (tbl_metaindex_handle t))
       (it_Seek obj_Iterator (Table_index_iter t :: (Status + BlockIter, BlockCleanup) IterObj) key)"

subsection \<open>The block source of a table\<close>

text \<open>The value \<open>v\<close> of an index entry leads to a block with the entries \<open>L\<close>, with and without checksum verification.\<close>

definition leads_to :: "Snappy \<Rightarrow> Table \<Rightarrow> Slice \<Rightarrow> BlockHandle \<Rightarrow> nat \<Rightarrow> entries \<Rightarrow> bool" where
  "leads_to S t v h n L \<longleftrightarrow> BlockHandle_DecodeFrom BlockHandle_make v = (Status_OK, h, [])
     \<and> (\<forall>verify. \<exists>c. read_block S (tbl_file t) verify h = (Status_OK, c) \<and> bc_data c = block_of n L)
     \<and> 0 < n \<and> length (block_of n L) < 2 ^ 32
     \<and> comparator (Compare (opt_comparator (tbl_options t))) \<and> entries_sorted (Compare (opt_comparator (tbl_options t))) L"

definition cleanup_handles :: "BlockCleanup multiset \<Rightarrow> (nat \<times> nat) multiset" where
  "cleanup_handles M = image_mset (\<lambda>c. case c of ReleaseBlock h \<Rightarrow> h | DeleteBlock _ \<Rightarrow> (0, 0)) (filter_mset (\<lambda>c. \<exists>h. c = ReleaseBlock h) M)"

text \<open>
  A cache all of whose entries satisfy \<open>R\<close>, and whose last identifier is \<open>N\<close>.  \<open>R\<close> allows under a key of this table only the
  block at the offset in the key; what it says of other keys, those of other tables, is kept.
\<close>

definition cache_state :: "(bytes \<Rightarrow> Block \<Rightarrow> bool) \<Rightarrow> u64 \<Rightarrow> BlockCache \<Rightarrow> BlockCleanup multiset \<Rightarrow> bool" where
  "cache_state R N cache M \<longleftrightarrow> (case cache of
       None \<Rightarrow> cleanup_handles M = {#}
     | Some c \<Rightarrow> sc_last_id c = N \<and> (\<exists>H. sc_holds c (H + cleanup_handles M) R))"

definition table_src ::
  "Snappy \<Rightarrow> Table \<Rightarrow> (bytes \<Rightarrow> Block \<Rightarrow> bool) \<Rightarrow> u64 \<Rightarrow> BlockCache \<Rightarrow> BlockCleanup multiset \<Rightarrow> (Slice \<rightharpoonup> entries) \<Rightarrow> bool" where
  "table_src S t R N cache M B \<longleftrightarrow> (\<forall>v L. B v = Some L \<longrightarrow> (\<exists>h n. leads_to S t v h n L))
     \<and> (\<forall>v L h n b. B v = Some L \<longrightarrow> leads_to S t v h n L \<longrightarrow> R (cache_key t h) b = (b = Block_make (block_of n L)))
     \<and> cache_state R N cache M"

lemma cleanup_handles_add [simp]:
  "cleanup_handles (add_mset (ReleaseBlock h) M) = add_mset h (cleanup_handles M)"
  "cleanup_handles (add_mset (DeleteBlock b) M) = cleanup_handles M"
  by (simp_all add: cleanup_handles_def)

lemma Cache_last_id:
  "Cache_Lookup c k = (r, c') \<Longrightarrow> sc_last_id c' = sc_last_id c" "Cache_Insert c k v z = (h, c') \<Longrightarrow> sc_last_id c' = sc_last_id c"
  "sc_last_id (Cache_Release c h) = sc_last_id c"
  by (auto simp: Cache_Lookup_def Cache_Insert_def Cache_Release_def Let_def split: prod.splits option.splits)

text \<open>The block found is the block of the handle, read from the file or taken from the cache.\<close>

lemma find_block_spec:
  assumes src: "table_src S t R N cache M B" and v: "B v = Some L" and l: "leads_to S t v h n L"
    and f: "find_block S t ro h cache = (s, b, ch, cache')"
  shows "Status_ok s \<and> b = Some (Block_make (block_of n L))
    \<and> (\<forall>X. cleanup_handles X = (case ch of None \<Rightarrow> cleanup_handles M | Some r \<Rightarrow> add_mset r (cleanup_handles M)) \<longrightarrow> cache_state R N cache' X)"
proof -
  obtain c where c: "read_block S (tbl_file t) (ro_verify_checksums ro) h = (Status_OK, c)" "bc_data c = block_of n L"
    using l by (auto simp: leads_to_def)
  let ?b = "Block_make (block_of n L)" and ?k = "cache_key t h"
  have R: "R ?k b = (b = ?b)" for b using src v l unfolding table_src_def by blast
  show ?thesis
  proof (cases cache)
    case None
    then show ?thesis using f c src by (auto simp: find_block_def table_src_def cache_state_def)
  next
    case (Some d)
    then obtain H where H: "sc_holds d (H + cleanup_handles M) R" and N: "sc_last_id d = N" using src by (auto simp: table_src_def cache_state_def)
    obtain r d1 where look: "Cache_Lookup d ?k = (r, d1)" by fastforce
    show ?thesis
    proof (cases r)
      case (Some q)
      from lru.lookup_hit [OF H look [unfolded Some]] obtain x where
        x: "sc_holds d1 (add_mset q (H + cleanup_handles M)) R" "Cache_Value d1 q = Some x" "R ?k x" by blast
      have "x = ?b" using x(3) R by simp
      then show ?thesis using f \<open>cache = Some d\<close> look Some x(1,2) N Cache_last_id(1) [OF look] by (auto simp: find_block_def cache_state_def)
    next
      case None
      note miss = lru.lookup_miss [OF H look [unfolded None]]
      show ?thesis
      proof (cases "bc_cachable c \<and> ro_fill_cache ro")
        case False
        then show ?thesis using f \<open>cache = Some d\<close> look None c miss N Cache_last_id(1) [OF look]
          by (auto simp: find_block_def cache_state_def Let_def intro!: exI [of _ H])
      next
        case True
        obtain q d2 where ins: "Cache_Insert d1 ?k ?b (bl_size ?b) = (q, d2)" by fastforce
        from lru.insert_new [OF miss _ ins] R show ?thesis
          using f \<open>cache = Some d\<close> look None c True ins N Cache_last_id(1) [OF look] Cache_last_id(2) [OF ins] by (auto simp: find_block_def cache_state_def Let_def)
      qed
    qed
  qed
qed

lemma leads_to_iter:
  assumes "leads_to S t v h n L"
  shows "obj_at (Compare (opt_comparator (tbl_options t)))
    (Iterator_make (Block_Iterator (Compare (opt_comparator (tbl_options t)))) (Block_NewIterator (Block_make (block_of n L)))) L None"
proof -
  have l: "comparator (Compare (opt_comparator (tbl_options t)))" "0 < n" "length (block_of n L) < 2 ^ 32"
    "entries_sorted (Compare (opt_comparator (tbl_options t))) L" using assms by (auto simp: leads_to_def)
  obtain it where "Block_NewIterator (Block_make (block_of n L)) = Inr it" "block_at (Compare (opt_comparator (tbl_options t))) it L None"
    using block_opened_at [OF l] .
  then show ?thesis by (intro obj_at_make [OF block_iterator]) simp
qed

interpretation table: block_source "Compare (opt_comparator (tbl_options t))" "BlockReader S t ro" run_cleanup "table_src S t R N" for S t R N ro
proof
  fix cache M B v L ob cache'
  assume src: "table_src S t R N cache M B" and v: "B v = Some L" and b: "BlockReader S t ro cache v = (ob, cache')"
  from src v obtain h n where l: "leads_to S t v h n L" unfolding table_src_def by blast
  obtain s blk ch d where f: "find_block S t ro h cache = (s, blk, ch, d)" by (cases "find_block S t ro h cache") auto
  note F = find_block_spec [OF src v l f]
  let ?I = "Iterator_make (Block_Iterator (Compare (opt_comparator (tbl_options t)))) (Block_NewIterator (Block_make (block_of n L)))"
  let ?c = "case ch of None \<Rightarrow> DeleteBlock (Block_make (block_of n L)) | Some h \<Rightarrow> ReleaseBlock h"
  have d: "BlockHandle_DecodeFrom BlockHandle_make v = (Status_OK, h, [])" using l by (simp add: leads_to_def)
  have ob: "ob = RegisterCleanup ?I ?c" "cache' = d" using b F d f by (auto simp: BlockReader_def Let_def)
  have m: "M + mset (io_cleanup ob) = M + {#?c#}" by (simp add: ob RegisterCleanup_def Iterator_make_def)
  have "cleanup_handles (M + {#?c#}) = (case ch of None \<Rightarrow> cleanup_handles M | Some r \<Rightarrow> add_mset r (cleanup_handles M))"
    by (cases ch) simp_all
  then have "cache_state R N d (M + {#?c#})" using F by blast
  then have "table_src S t R N cache' (M + mset (io_cleanup ob)) B" using src unfolding table_src_def ob(2) m by blast
  then show "obj_at (Compare (opt_comparator (tbl_options t))) ob L None \<and> table_src S t R N cache' (M + mset (io_cleanup ob)) B"
    using leads_to_iter [OF l] unfolding ob(1) obj_at_cleanup by blast
next
  fix cache c M B
  assume src: "table_src S t R N cache (add_mset c M) B"
  have "cache_state R N (run_cleanup c cache) M"
  proof (cases c)
    case (DeleteBlock b)
    then show ?thesis using src by (auto simp: table_src_def cache_state_def split: option.splits)
  next
    case (ReleaseBlock h)
    then obtain d H where d: "cache = Some d" "sc_last_id d = N" "sc_holds d (add_mset h (H + cleanup_handles M)) R"
      using src by (auto simp: table_src_def cache_state_def split: option.splits)
    from lru.release_held [OF d(3)] show ?thesis using ReleaseBlock d(1,2) Cache_last_id(3) [of d h] by (auto simp: cache_state_def)
  qed
  then show "table_src S t R N (run_cleanup c cache) M B" using src unfolding table_src_def by blast
qed

end
