(* ===== verification/Table_Correct.thy ===== *)
theory Table_Correct
  imports Table
begin

text \<open>
  What was built can be read: a file written by the table builder (\<open>table_file\<close>) opens, its iterator walks the entries
  that were added, and a lookup finds the entry of a key, whatever the filter policy and the block cache.
\<close>

subsection \<open>Reading the file\<close>

text \<open>A file that returns what it holds.\<close>

definition readable :: "RandomAccessFile \<Rightarrow> bytes \<Rightarrow> bool" where
  "readable file F \<longleftrightarrow> (\<forall>off n. off \<le> length F \<longrightarrow> ra_Read file off n = (Status_OK, take n (drop off F)))"

lemma handle_of_unat:
  assumes "pos < 2 ^ 64" and "sz < 2 ^ 64"
  shows "unat (bh_offset (handle_of pos sz)) = pos" and "unat (bh_size (handle_of pos sz)) = sz"
  using assms by (simp_all add: handle_of_def unat_of_nat)

lemma read_block_holds:
  assumes "readable file F" and "length F < 2 ^ 64" and "holds_block S F pos sz raw"
  obtains c where "read_block S file verify (handle_of pos sz) = (Status_OK, c)" and "bc_data c = raw"
proof -
  obtain pre data t post where F: "F = pre @ stored_block data t @ post" "pos = length pre" "sz = length data"
    "t = kSnappyCompression \<longrightarrow> sn_length S data = Some (length raw) \<and> sn_uncompress S data = Some raw"
    "t = kNoCompression \<longrightarrow> raw = data"
    using assms(3) by (auto simp: holds_block_def)
  have u: "unat (bh_offset (handle_of pos sz)) = length pre" "unat (bh_size (handle_of pos sz)) = length data"
    using handle_of_unat [of pos sz] holds_block_bound [OF assms(3)] assms(2) F(2,3) by simp_all
  have "ra_Read file (length pre) (length data + kBlockTrailerSize) = (Status_OK, stored_block data t)"
    using assms(1) by (simp add: readable_def F(1) length_stored_block [symmetric, of data t])
  then have "\<exists>c. read_block S file verify (handle_of pos sz) = (Status_OK, c) \<and> bc_data c = raw"
    unfolding read_block_def by (intro ReadBlock_contents [where data = data and t = t]) (use u F(4,5) in auto)
  then show thesis using that by blast
qed

text \<open>In a file of less than four gigabytes, all blocks have 32-bit lengths.\<close>

lemma holds_block_small:
  assumes "snappy_ok S" and "length F < 2 ^ 32" and "holds_block S F pos sz raw"
  shows "length raw < 2 ^ 32"
proof -
  obtain data t where d: "sz = length data" "t = kSnappyCompression \<longrightarrow> sn_length S data = Some (length raw)"
    "t = kNoCompression \<longrightarrow> raw = data"
    using assms(3) by (auto simp: holds_block_def)
  show ?thesis
    using assms(1,2) d holds_block_bound [OF assms(3)] by (cases t) (auto simp: snappy_ok_def)
qed

lemma key_le_off:
  assumes "chained ls" and "i < length ls"
  shows "length (key_of ls i) \<le> off ls (Suc i)"
  using assms(2)
proof (induction i)
  case 0
  then have "sh_of ls 0 = 0" using assms(1) by (auto simp: chained_def prev_key_def)
  then show ?case using 0 by (simp add: off_Suc length_entry_enc)
next
  case (Suc i)
  then have "sh_of ls (Suc i) \<le> length (key_of ls i)" "sh_of ls (Suc i) \<le> length (key_of ls (Suc i))"
    using assms(1) by (auto simp: chained_def prev_key_def)
  then show ?case using Suc by (simp add: off_Suc [of "Suc i"] length_entry_enc)
qed

lemma block_keys_fit:
  assumes "0 < n" and "length (block_of n es) < 2 ^ 32" and "e \<in> set es"
  shows "key_fits (fst e)"
proof -
  obtain ls rs where h: "builder_holds n (block_builder n es) ls rs" "map snd ls = es"
    using builder_run [OF BlockBuilder_make_holds assms(1), of es] by (auto simp: block_builder_def)
  have len: "length (layout ls) \<le> length (block_of n es)"
    using BlockBuilder_Finish_holds [OF h(1)] by (simp add: block_of_def block_builder_def block_bytes_def)
  obtain i where i: "i < length ls" "es ! i = e" using assms(3) h(2) by (metis in_set_conv_nth length_map)
  then have k: "key_of ls i = fst e" using h(2) by (metis nth_map)
  have "length (key_of ls i) \<le> off ls (Suc i)" using key_le_off [OF _ i(1)] h(1) by (simp add: builder_holds_def)
  also have "off ls (Suc i) \<le> off ls (length ls)" using i(1) by (subst off_le_iff) auto
  finally show ?thesis using k len assms(2) by (simp add: key_fits_def)
qed

subsection \<open>The blocks of the file\<close>

definition table_blocks :: "written \<Rightarrow> (Slice \<rightharpoonup> entries)" where
  "table_blocks bs = map_of (map (\<lambda>b. (handle_bytes b, fst b)) bs)"

lemma handle_bytes_decode: "BlockHandle_DecodeFrom h (handle_bytes b) = (Status_OK, block_handle b, [])"
  using BlockHandle_Decode_Encode [of h "block_handle b" "[]"] by (simp add: handle_bytes_def)

lemma blocks_positions:
  assumes "blocks_ok S n F bs"
  shows "distinct (map (\<lambda>b. fst (snd b)) bs)"
proof -
  have "sorted_wrt (<) (map (\<lambda>b. fst (snd b)) bs)"
    unfolding sorted_wrt_map using assms unfolding blocks_ok_def by (auto elim: sorted_wrt_mono_rel [rotated])
  then show ?thesis by (simp add: strict_sorted_iff)
qed

lemma blocks_same:
  assumes "blocks_ok S n F bs" and "length F < 2 ^ 64" and "b \<in> set bs" and "c \<in> set bs"
    and "bh_offset (block_handle b) = bh_offset (block_handle c)"
  shows "b = c"
proof -
  obtain L p z K q y where bc: "b = (L, p, z)" "c = (K, q, y)" by (cases b; cases c)
  have "p < 2 ^ 64" "q < 2 ^ 64"
    using assms(1,2,3,4) bc holds_block_bound [of S F p z] holds_block_bound [of S F q y] by (fastforce simp: blocks_ok_def)+
  moreover have "unat (of_nat p :: u64) = unat (of_nat q :: u64)" using assms(5) by (simp add: bc handle_of_def)
  ultimately have "p = q" by (simp add: unat_of_nat)
  then show ?thesis using blocks_positions [OF assms(1)] assms(3,4) inj_onD [of "\<lambda>b. fst (snd b)" "set bs" b c]
    by (simp add: distinct_map bc)
qed

lemma blocks_distinct:
  assumes "blocks_ok S n F bs" and "length F < 2 ^ 64"
  shows "distinct (map handle_bytes bs)"
proof -
  have "distinct bs" using blocks_positions [OF assms(1)] by (simp add: distinct_map)
  moreover have "inj_on handle_bytes (set bs)"
  proof (rule inj_onI)
    fix b c assume bc: "b \<in> set bs" "c \<in> set bs" "handle_bytes b = handle_bytes c"
    then have "block_handle b = block_handle c"
      using handle_bytes_decode [of BlockHandle_make b] handle_bytes_decode [of BlockHandle_make c] by simp
    then show "b = c" using blocks_same [OF assms bc(1,2)] by simp
  qed
  ultimately show ?thesis by (simp add: distinct_map)
qed

lemma table_blocks_Some:
  assumes "blocks_ok S n F bs" and "length F < 2 ^ 64"
  shows "table_blocks bs v = Some L \<longleftrightarrow> (\<exists>b \<in> set bs. v = handle_bytes b \<and> L = fst b)"
proof -
  have "distinct (map fst (map (\<lambda>b. (handle_bytes b, fst b)) bs))" using blocks_distinct [OF assms] by (simp add: comp_def)
  from map_of_eq_Some_iff [OF this, of v L] show ?thesis by (auto simp: table_blocks_def)
qed

text \<open>The index separates the blocks.\<close>

lemma index_entries_nth:
  assumes "length ks = length bs" and "i < length bs"
  shows "index_entries ks bs ! i = (ks ! i, handle_bytes (bs ! i))" and "length (index_entries ks bs) = length bs"
  using assms by (simp_all add: index_entries_def)

lemma later_block:
  assumes "i < j" and "j < length bs" and "x \<in> set (fst (bs ! j))"
  shows "x \<in> set (concat (drop (Suc i) (map fst bs)))"
proof -
  have "fst (bs ! j) = drop (Suc i) (map fst bs) ! (j - Suc i)" "j - Suc i < length (drop (Suc i) (map fst bs))"
    using assms by simp_all
  then have "fst (bs ! j) \<in> set (drop (Suc i) (map fst bs))" using nth_mem by metis
  then show ?thesis using assms(3) unfolding set_concat by blast
qed

lemma table_file_layout:
  assumes "table_file S opt F bs ks" and "comparator (Compare (opt_comparator opt))" and "length F < 2 ^ 64"
  shows "two_layout (Compare (opt_comparator opt)) (index_entries ks bs) (table_blocks bs) (concat (map fst bs))"
proof -
  let ?ix = "index_entries ks bs" and ?B = "table_blocks bs"
  have ok: "blocks_ok S (opt_block_restart_interval opt) F bs" and len: "length ks = length bs"
    and sep: "separated (Compare (opt_comparator opt)) ks (map fst bs) []"
    using assms(1) by (auto simp: table_file_def)
  note B = table_blocks_Some [OF ok assms(3)] and ix = index_entries_nth [OF len]
  have b: "?B (handle_bytes b) = Some (fst b)" if "b \<in> set bs" for b using B that by blast
  have e: "block_entries ?B ?ix i = fst (bs ! i)" if "i < length bs" for i using that b by (simp add: block_entries_def ix)
  have "map (\<lambda>e. the (?B (snd e))) ?ix = map fst bs"
    by (rule nth_equalityI) (use len b in \<open>auto simp: index_entries_def\<close>)
  moreover have "\<forall>e \<in> set ?ix. ?B (snd e) \<noteq> None" using len b [OF nth_mem] by (auto simp: index_entries_def set_zip)
  moreover have "Compare (opt_comparator opt) (ks ! i) (fst x) < 0" if "i < j" "j < length bs" "x \<in> set (fst (bs ! j))" for i j x
    using sep later_block [OF that] that(1,2) len by (auto simp: separated_def)
  moreover have "Compare (opt_comparator opt) (fst x) (ks ! i) \<le> 0" if "i < length bs" "x \<in> set (fst (bs ! i))" for i x
    using sep that len by (auto simp: separated_def)
  moreover have "entries_sorted (Compare (opt_comparator opt)) (concat (map fst bs))" using assms(1) by (simp add: table_file_def)
  moreover have "length ?ix = length bs" using len by (simp add: index_entries_def)
  ultimately show ?thesis using assms(2) by (simp add: two_layout_def e ix(1))
qed

lemma index_entries_sorted:
  assumes "table_file S opt F bs ks" and "comparator (Compare (opt_comparator opt))" and "length (block_of 1 (index_entries ks bs)) < 2 ^ 32"
  shows "entries_sorted (Compare (opt_comparator opt)) (index_entries ks bs)"
proof -
  let ?C = "Compare (opt_comparator opt)"
  have len: "length ks = length bs" and ne: "\<forall>b \<in> set bs. fst b \<noteq> []"
    and sep: "separated ?C ks (map fst bs) []" using assms(1) by (auto simp: table_file_def blocks_ok_def)
  have "?C (ks ! i) (ks ! j) < 0" if ij: "i < j" "j < length ks" for i j
  proof -
    have j: "j < length bs" using ij len by simp
    then have "fst (bs ! j) \<noteq> []" using ne by simp
    then obtain x where x: "x \<in> set (fst (bs ! j))" by (cases "fst (bs ! j)") auto
    have "?C (ks ! i) (fst x) < 0" "?C (fst x) (ks ! j) \<le> 0" using sep ij x j later_block [OF ij(1) j x] by (auto simp: separated_def)
    then show ?thesis by (rule comparator.cmp_less_le_trans [OF assms(2)])
  qed
  then have "sorted_wrt (\<lambda>a b. ?C (fst a) (fst b) < 0) (index_entries ks bs)"
    using len by (auto simp: sorted_wrt_iff_nth_less index_entries_def)
  moreover have "\<forall>e \<in> set (index_entries ks bs). key_fits (fst e)" using block_keys_fit [OF _ assms(3)] by simp
  ultimately show ?thesis by (simp add: entries_sorted_def)
qed

subsection \<open>An open table\<close>

definition filter_ok :: "FilterPolicy option \<Rightarrow> FilterBlockReader option \<Rightarrow> written \<Rightarrow> nat \<Rightarrow> bool" where
  "filter_ok policy r bs N \<longleftrightarrow> (case policy of
       None \<Rightarrow> r = None
     | Some P \<Rightarrow> \<exists>n \<le> N. (\<forall>(L, p, z) \<in> set bs. p \<le> n) \<and> length (filter_contents P bs n) < 2 ^ 32
         \<and> r = Some (FilterBlockReader_make (filter_contents P bs n)))"

definition table_open :: "Snappy \<Rightarrow> Table \<Rightarrow> bytes \<Rightarrow> written \<Rightarrow> Slice list \<Rightarrow> bool" where
  "table_open S t F bs ks \<longleftrightarrow> table_file S (tbl_options t) F bs ks \<and> readable (tbl_file t) F \<and> length F < 2 ^ 32 \<and> snappy_ok S
     \<and> comparator (Compare (opt_comparator (tbl_options t))) \<and> 0 < opt_block_restart_interval (tbl_options t)
     \<and> tbl_index_block t = Block_make (block_of 1 (index_entries ks bs))
     \<and> filter_ok (opt_filter_policy (tbl_options t)) (tbl_filter t) bs (length F)"

lemma sc_holds_mono: "sc_holds c H P \<Longrightarrow> (\<And>k v. P k v \<Longrightarrow> Q k v) \<Longrightarrow> sc_holds c H Q"
  unfolding sc_holds_def heap_all_def by blast

text \<open>A cache that has no entries yet under the next identifier it hands out.\<close>

definition cache_fresh :: "BlockCache \<Rightarrow> bool" where
  "cache_fresh cache \<longleftrightarrow> (case cache of None \<Rightarrow> True
     | Some c \<Rightarrow> \<exists>H. sc_holds c H (\<lambda>k v. take 8 k \<noteq> EncodeFixed64 (sc_last_id c + 1)))"

lemma table_leads_to:
  assumes "table_open S t F bs ks" and "b \<in> set bs"
  shows "leads_to S t (handle_bytes b) (block_handle b) (opt_block_restart_interval (tbl_options t)) (fst b)"
proof -
  let ?n = "opt_block_restart_interval (tbl_options t)" and ?C = "Compare (opt_comparator (tbl_options t))"
  obtain L p z where b: "b = (L, p, z)" by (cases b)
  have t: "table_file S (tbl_options t) F bs ks" "readable (tbl_file t) F" "length F < 2 ^ 32" "snappy_ok S" "comparator ?C" "0 < ?n"
    using assms(1) by (auto simp: table_open_def)
  have h: "holds_block S F p z (block_of ?n L)" using t(1) assms(2) by (auto simp: table_file_def blocks_ok_def b)
  have len: "length F < 2 ^ 64" using t(3) by simp
  have "\<exists>c. read_block S (tbl_file t) verify (handle_of p z) = (Status_OK, c) \<and> bc_data c = block_of ?n L" for verify
    by (rule read_block_holds [OF t(2) len h, of verify]) blast
  moreover have "entries_sorted ?C L"
  proof -
    have "entries_sorted ?C (concat (map fst bs))" using t(1) by (simp add: table_file_def)
    moreover obtain as cs where "bs = as @ b # cs" using assms(2) by (metis split_list)
    ultimately show ?thesis by (auto simp: entries_sorted_def sorted_wrt_append b)
  qed
  ultimately show ?thesis using holds_block_small [OF t(4,3) h] t(5,6) handle_bytes_decode [of BlockHandle_make b]
    by (simp add: leads_to_def b)
qed

text \<open>The entry under a key of the table is the block at the offset in the key.\<close>

definition cached_ok :: "Snappy \<Rightarrow> Table \<Rightarrow> (Slice \<rightharpoonup> entries) \<Rightarrow> bytes \<Rightarrow> Block \<Rightarrow> bool" where
  "cached_ok S t B key b \<longleftrightarrow> (\<forall>v h n L. B v = Some L \<longrightarrow> leads_to S t v h n L \<longrightarrow> key = cache_key t h \<longrightarrow> b = Block_make (block_of n L))"

lemma cache_key_offset: "cache_key t h = cache_key t g \<Longrightarrow> bh_offset h = bh_offset g"
  using DecodeFixed64_Encode [of _ "[]"] unfolding cache_key_def by (metis append_Nil2 same_append_eq)

lemma cached_ok_block:
  assumes t: "table_open S t F bs ks" and v: "table_blocks bs v = Some L" "leads_to S t v h n L"
  shows "cached_ok S t (table_blocks bs) (cache_key t h) b \<longleftrightarrow> b = Block_make (block_of n L)"
proof -
  let ?n = "opt_block_restart_interval (tbl_options t)"
  have ok: "blocks_ok S ?n F bs" and len: "length F < 2 ^ 64" using t by (auto simp: table_open_def table_file_def)
  note B = table_blocks_Some [OF ok len]
  have "block_of n L = block_of m K" if w: "table_blocks bs w = Some K" "leads_to S t w g m K" and o: "cache_key t h = cache_key t g" for w K g m
  proof -
    obtain b c where b: "b \<in> set bs" "v = handle_bytes b" "L = fst b" and c: "c \<in> set bs" "w = handle_bytes c" "K = fst c"
      using v(1) w(1) unfolding B by blast
    have hg: "h = block_handle b" "g = block_handle c"
      using v(2) w(2) handle_bytes_decode [of BlockHandle_make] b(2) c(2) by (auto simp: leads_to_def)
    then have "b = c" using blocks_same [OF ok len b(1) c(1)] cache_key_offset [OF o] by simp
    then have "h = g" using hg by simp
    then show ?thesis using v(2) w(2) unfolding leads_to_def by (metis prod.inject)
  qed
  then show ?thesis using v unfolding cached_ok_def by metis
qed

lemma table_src_open:
  assumes t: "table_open S t F bs ks" and c: "cache_state R N cache {#}"
    and R: "\<And>v L h n b. table_blocks bs v = Some L \<Longrightarrow> leads_to S t v h n L \<Longrightarrow> R (cache_key t h) b = cached_ok S t (table_blocks bs) (cache_key t h) b"
  shows "table_src S t R N cache {#} (table_blocks bs)"
proof -
  have "blocks_ok S (opt_block_restart_interval (tbl_options t)) F bs" "length F < 2 ^ 64" using t by (auto simp: table_open_def table_file_def)
  note B = table_blocks_Some [OF this]
  have "\<exists>h n. leads_to S t v h n L" if "table_blocks bs v = Some L" for v L
    using that table_leads_to [OF t] unfolding B by blast
  then show ?thesis using c R cached_ok_block [OF t] unfolding table_src_def by simp
qed

text \<open>Opening the file of a table.\<close>

lemma ReadFilter_holds:
  assumes "readable (tbl_file t) F" and "length F < 2 ^ 64" and "holds_block S F pos sz raw"
  shows "ReadFilter S t (BlockHandle_EncodeTo (handle_of pos sz) []) = t\<lparr>tbl_filter := Some (FilterBlockReader_make raw)\<rparr>"
proof -
  obtain c where c: "read_block S (tbl_file t) (opt_paranoid_checks (tbl_options t)) (handle_of pos sz) = (Status_OK, c)" "bc_data c = raw"
    by (rule read_block_holds [OF assms])
  have "BlockHandle_DecodeFrom BlockHandle_make (BlockHandle_EncodeTo (handle_of pos sz) []) = (Status_OK, handle_of pos sz, [])"
    using BlockHandle_Decode_Encode [of BlockHandle_make "handle_of pos sz" "[]"] by simp
  then show ?thesis using c by (simp add: ReadFilter_def)
qed

lemma ReadMeta_holds:
  assumes r: "readable (tbl_file t) F" and len: "length F < 2 ^ 32" and S: "snappy_ok S"
    and n: "0 < opt_block_restart_interval (tbl_options t)" and m: "meta_ok S (tbl_options t) F bs meta"
    and h: "holds_block S F mpos msz (block_of (opt_block_restart_interval (tbl_options t)) meta)"
    and ft: "ft_metaindex_handle footer = handle_of mpos msz" and none: "tbl_filter t = None"
  shows "\<exists>r. ReadMeta S t footer = Some (t\<lparr>tbl_filter := r\<rparr>) \<and> filter_ok (opt_filter_policy (tbl_options t)) r bs (length F)"
proof (cases "opt_filter_policy (tbl_options t)")
  case None
  then show ?thesis using none by (intro exI [of _ None]) (simp add: ReadMeta_def filter_ok_def)
next
  case (Some P)
  have len64: "length F < 2 ^ 64" using len by simp
  obtain k pos sz where k: "holds_block S F pos sz (filter_contents P bs k)" "\<forall>(L, p, z) \<in> set bs. p \<le> k" "k \<le> length F"
    "meta = [(filter_meta_key P, BlockHandle_EncodeTo (handle_of pos sz) [])]"
    using m Some by (auto simp: meta_ok_def)
  let ?n = "opt_block_restart_interval (tbl_options t)" and ?I = "Block_Iterator (Compare BytewiseComparator)" and ?e = "hd meta"
  obtain c where c: "read_block S (tbl_file t) (opt_paranoid_checks (tbl_options t)) (handle_of mpos msz) = (Status_OK, c)"
    "bc_data c = block_of ?n meta" by (rule read_block_holds [OF r len64 h])
  have fit: "key_fits (filter_meta_key P)" using block_keys_fit [OF n holds_block_small [OF S len h], of ?e] k(4) by simp
  then have "entries_sorted (Compare BytewiseComparator) meta" by (simp add: entries_sorted_def k(4))
  then obtain it where it: "Block_NewIterator (Block_make (block_of ?n meta)) = Inr it" "block_at (Compare BytewiseComparator) it meta None"
    using block_opened_at [OF bytewise.user.comparator_axioms n holds_block_small [OF S len h]] by blast
  have "lower_bound (Compare BytewiseComparator) meta (filter_meta_key P) = 0"
    using bytewise.user.cmp_refl by (simp add: lower_bound_def k(4))
  then obtain s where s: "it_Seek ?I (Inr it) (filter_meta_key P) = Some s"
      "case_sum (empty_at (Compare BytewiseComparator)) (block_at (Compare BytewiseComparator)) s meta (Some 0)"
    using iterator.at_seek [OF block_iterator, of "Compare BytewiseComparator" "Inr it" meta None, OF _ fit] it(2)
    by (auto simp: index_in_def k(4))
  have "it_Valid ?I s" "it_key ?I s = filter_meta_key P" "it_value ?I s = BlockHandle_EncodeTo (handle_of pos sz) []"
    using iterator.at_valid [OF block_iterator s(2)] iterator.at_entry [OF block_iterator s(2)] k(4) by simp_all
  then have "ReadMeta S t footer = Some (t\<lparr>tbl_filter := Some (FilterBlockReader_make (filter_contents P bs k))\<rparr>)"
    using Some c ft it(1) s(1) ReadFilter_holds [OF r len64 k(1)] by (simp add: ReadMeta_def Let_def Slice_equal_iff)
  then show ?thesis using k(2,3) Some holds_block_small [OF S len k(1)] by (intro exI conjI) (auto simp: filter_ok_def)
qed

lemma Table_Open_holds:
  assumes tf: "table_file S opt F bs ks" and r: "readable file F" and len: "length F < 2 ^ 32" and S: "snappy_ok S"
    and C: "comparator (Compare (opt_comparator opt))" and n: "0 < opt_block_restart_interval opt"
  obtains t cache' where "Table_Open S opt file (length F) cache = Some (Status_OK, Some t, cache')"
    and "table_open S t F bs ks" and "tbl_options t = opt"
    and "case cache of None \<Rightarrow> cache' = None | Some c \<Rightarrow> cache' = Some (snd (NewId c)) \<and> tbl_cache_id t = fst (NewId c)"
proof -
  have len64: "length F < 2 ^ 64" using len by simp
  obtain G meta mpos msz ipos isz where m: "meta_ok S opt F bs meta" "holds_block S F mpos msz (block_of (opt_block_restart_interval opt) meta)"
    and i: "holds_block S F ipos isz (block_of 1 (index_entries ks bs))"
    and F: "F = G @ Footer_EncodeTo \<lparr>ft_metaindex_handle = handle_of mpos msz, ft_index_handle = handle_of ipos isz\<rparr> []"
    using tf by (auto simp: table_file_def)
  let ?ft = "\<lparr>ft_metaindex_handle = handle_of mpos msz, ft_index_handle = handle_of ipos isz\<rparr>"
  have size: "length F = length G + ft_kEncodedLength" using F length_Footer_Encode [of ?ft] by simp
  have read: "ra_Read file (length F - ft_kEncodedLength) ft_kEncodedLength = (Status_OK, Footer_EncodeTo ?ft [])"
    using r size F length_Footer_Encode [of ?ft] by (simp add: readable_def)
  have dec: "Footer_DecodeFrom Footer_make (Footer_EncodeTo ?ft []) = (Status_OK, ?ft, [])"
    using Footer_Decode_Encode [of Footer_make ?ft "[]"] by simp
  obtain c where c: "read_block S file (opt_paranoid_checks opt) (handle_of ipos isz) = (Status_OK, c)" "bc_data c = block_of 1 (index_entries ks bs)"
    by (rule read_block_holds [OF r len64 i])
  obtain cid cache' where cid: "(case cache of None \<Rightarrow> (0, None) | Some c \<Rightarrow> let (id, c) = NewId c in (id, Some c)) = (cid, cache')"
    by (metis surj_pair)
  define t where "t = \<lparr>tbl_options = opt, tbl_file = file, tbl_cache_id = cid, tbl_filter = None,
      tbl_metaindex_handle = handle_of mpos msz, tbl_index_block = Block_make (block_of 1 (index_entries ks bs))\<rparr>"
  have t: "tbl_options t = opt" "tbl_file t = file" "tbl_filter t = None" "tbl_cache_id t = cid" by (simp_all add: t_def)
  obtain q where q: "ReadMeta S t ?ft = Some (t\<lparr>tbl_filter := q\<rparr>)" "filter_ok (opt_filter_policy opt) q bs (length F)"
    using ReadMeta_holds [of t F S bs meta mpos msz ?ft] r len S n m t by auto
  have "Table_Open S opt file (length F) cache = Some (Status_OK, Some (t\<lparr>tbl_filter := q\<rparr>), cache')"
    using read dec c cid q(1) size by (simp add: Table_Open_def t_def Let_def)
  moreover have "table_open S (t\<lparr>tbl_filter := q\<rparr>) F bs ks"
    using tf r len S C n q(2) by (simp add: table_open_def t_def)
  moreover have "case cache of None \<Rightarrow> cache' = None | Some c \<Rightarrow> cache' = Some (snd (NewId c)) \<and> tbl_cache_id (t\<lparr>tbl_filter := q\<rparr>) = fst (NewId c)"
    using cid by (auto simp: t_def Let_def split: option.splits prod.splits)
  ultimately show thesis using that t(1) by simp
qed

text \<open>In a cache without entries under its next identifier, a table that is opened with it has no stale blocks.\<close>

lemma cache_fresh_open:
  assumes "cache_fresh cache" and t: "table_open S t F bs ks"
    and "case cache of None \<Rightarrow> cache' = None | Some c \<Rightarrow> cache' = Some (snd (NewId c)) \<and> tbl_cache_id t = fst (NewId c)"
  shows "\<exists>N. table_src S t (cached_ok S t (table_blocks bs)) N cache' {#} (table_blocks bs)"
proof (cases cache)
  case None
  then show ?thesis using assms(3) by (auto intro!: table_src_open [OF t] simp: cache_state_def cleanup_handles_def)
next
  case (Some c)
  obtain H where H: "sc_holds c H (\<lambda>k v. take 8 k \<noteq> EncodeFixed64 (sc_last_id c + 1))" using assms(1) Some by (auto simp: cache_fresh_def)
  have "cached_ok S t (table_blocks bs) k v" if "take 8 k \<noteq> EncodeFixed64 (sc_last_id c + 1)" for k v
    using that assms(3) Some by (auto simp: cached_ok_def cache_key_def NewId_def Let_def)
  from sc_holds_mono [OF H this] have "sc_holds (snd (NewId c)) H (cached_ok S t (table_blocks bs))" by (simp add: sc_holds_NewId)
  then have "cache_state (cached_ok S t (table_blocks bs)) (sc_last_id (snd (NewId c))) cache' {#}"
    using assms(3) Some by (auto simp: cache_state_def cleanup_handles_def)
  from table_src_open [OF t this] show ?thesis by blast
qed

subsection \<open>Iterating over a table\<close>

lemma table_index_at:
  assumes "table_open S t F bs ks"
  shows "obj_at (Compare (opt_comparator (tbl_options t))) (Table_index_iter t) (index_entries ks bs) None"
proof -
  have t: "table_file S (tbl_options t) F bs ks" "length F < 2 ^ 32" "snappy_ok S" "comparator (Compare (opt_comparator (tbl_options t)))"
    "tbl_index_block t = Block_make (block_of 1 (index_entries ks bs))" using assms by (auto simp: table_open_def)
  then obtain ipos isz where "holds_block S F ipos isz (block_of 1 (index_entries ks bs))" by (auto simp: table_file_def)
  note small = holds_block_small [OF t(3,2) this]
  obtain it where "Block_NewIterator (tbl_index_block t) = Inr it" "block_at (Compare (opt_comparator (tbl_options t))) it (index_entries ks bs) None"
    using block_opened_at [OF t(4) zero_less_one small index_entries_sorted [OF t(1,4) small]] unfolding t(5) by blast
  then show ?thesis unfolding Table_index_iter_def by (intro obj_at_make [OF block_iterator]) simp
qed

lemma table_open_layout:
  assumes "table_open S t F bs ks"
  shows "two_layout (Compare (opt_comparator (tbl_options t))) (index_entries ks bs) (table_blocks bs) (concat (map fst bs))"
  using assms by (intro table_file_layout) (auto simp: table_open_def)

subsection \<open>A table of one entry\<close>

lemma BlockBuilder_Add_first:
  "0 < n \<Longrightarrow> BlockBuilder_Add n BlockBuilder_make k v = BlockBuilder_make\<lparr>bb_buffer := entry_enc 0 k v, bb_last_key := k, bb_counter := 1\<rparr>"
  by (simp add: BlockBuilder_Add_def BlockBuilder_make_def shared_prefix.simps entry_enc_def PutVarint32_def Let_def)

lemma BlockBuilder_Finish_one:
  "BlockBuilder_Finish (BlockBuilder_make\<lparr>bb_buffer := e, bb_last_key := k, bb_counter := c\<rparr>) =
     (e @ EncodeFixed32 0 @ EncodeFixed32 1,
      BlockBuilder_make\<lparr>bb_buffer := e @ EncodeFixed32 0 @ EncodeFixed32 1, bb_last_key := k, bb_counter := c, bb_finished := True\<rparr>)"
  "BlockBuilder_Finish BlockBuilder_make =
     (EncodeFixed32 0 @ EncodeFixed32 1, BlockBuilder_make\<lparr>bb_buffer := EncodeFixed32 0 @ EncodeFixed32 1, bb_finished := True\<rparr>)"
  by (simp_all add: BlockBuilder_Finish_def BlockBuilder_make_def PutFixed32_def Let_def)

lemma bb_restarts_make: "bb_restarts BlockBuilder_make = [0]"
  by (simp add: BlockBuilder_make_def)

lemma length_entry_first: "length (entry_enc 0 k v) \<le> 15 + length k + length v"
  using length_EncodeVarint32 [of 0] length_EncodeVarint32 [of "of_nat (length k)"] length_EncodeVarint32 [of "of_nat (length v)"]
  by (simp add: entry_enc_def)

lemma entry_enc_not_Nil: "entry_enc 0 k v \<noteq> []"
  using length_entry_enc [of 0 k v] entry_header_ge [of 0 k v] by (cases "entry_enc 0 k v") auto

text \<open>A file that is the list of its bytes and never fails.\<close>

abbreviation list_build_for :: "Comparator \<Rightarrow> entries \<Rightarrow> Status \<times> bytes TableBuilder" where
  "list_build_for C \<equiv> build_table (\<lambda>f d. (Status_OK, f @ d)) (\<lambda>f. (Status_OK, f)) no_snappy (Options_make\<lparr>opt_comparator := C\<rparr>) []"

abbreviation list_build :: "entries \<Rightarrow> Status \<times> bytes TableBuilder" where
  "list_build \<equiv> build_table (\<lambda>f d. (Status_OK, f @ d)) (\<lambda>f. (Status_OK, f)) no_snappy Options_make []"

lemma build_one_for:
  assumes "length k + length v < 1000" and "length (FindShortSuccessor C k) < 1000"
  obtains r where "list_build_for C [(k, v)] = (Status_OK, r)" and "length (tb_file r) < 2 ^ 32"
proof -
  let ?app = "\<lambda>f d. (Status_OK, f @ d)" and ?fl = "\<lambda>f. (Status_OK, f)"
  let ?a = "TableBuilder_Adds ?app ?fl no_snappy (TableBuilder_make (Options_make\<lparr>opt_comparator := C\<rparr>) []) [(k, v)]"
  have a: "?a = (TableBuilder_make (Options_make\<lparr>opt_comparator := C\<rparr>) [])\<lparr>tb_last_key := k, tb_num_entries := 1,
     tb_data_block := BlockBuilder_make\<lparr>bb_buffer := entry_enc 0 k v, bb_last_key := k, bb_counter := 1\<rparr>\<rparr>"
    using length_entry_first [of k v] assms bb_restarts_make
    by (simp add: TableBuilder_Adds_def TableBuilder_Add_def TableBuilder_make_def TableBuilder_ok_def Options_make_def
        CurrentSizeEstimate_def BlockBuilder_Add_first Let_def)
  have "\<exists>r h. TableBuilder_Finish ?app ?fl no_snappy ?a = (Status_OK, r) \<and> length (tb_file r)
      = 87 + length (entry_enc 0 k v) + length (entry_enc 0 (FindShortSuccessor C k) (BlockHandle_EncodeTo h []))"
    unfolding a
    by (simp add: TableBuilder_Finish_def TableBuilder_Flush_def TableBuilder_ok_def BlockBuilder_empty_def WriteBlock_def Let_def
        compress_block_def no_snappy_def WriteRawBlock_def filter_StartBlock_def Finish_filter_def Finish_metaindex_def Finish_index_def
        Finish_footer_def length_Footer_Encode add_index_entry_def TableBuilder_make_def Options_make_def entry_enc_not_Nil
        BlockBuilder_Finish_one BlockBuilder_Add_first ft_kEncodedLength_def bh_kMaxEncodedLength_def) blast
  then obtain r h where r: "list_build_for C [(k, v)] = (Status_OK, r)"
    "length (tb_file r) = 87 + length (entry_enc 0 k v) + length (entry_enc 0 (FindShortSuccessor C k) (BlockHandle_EncodeTo h []))"
    by (auto simp: build_table_def)
  have "length (tb_file r) < 2 ^ 32"
    using r(2) length_entry_first [of k v] length_entry_first [of "FindShortSuccessor C k" "BlockHandle_EncodeTo h []"]
      length_BlockHandle_Encode [of h] assms by (simp add: bh_kMaxEncodedLength_def)
  then show thesis using that r(1) by blast
qed

lemma build_one:
  assumes "length k + length v < 1000" and "length (Bytewise_FindShortSuccessor k) < 1000"
  obtains r where "list_build [(k, v)] = (Status_OK, r)" and "length (tb_file r) < 2 ^ 32"
proof -
  have "Options_make\<lparr>opt_comparator := BytewiseComparator\<rparr> = Options_make" by (simp add: Options_make_def)
  then show thesis using build_one_for [of k v BytewiseComparator] assms that by simp blast
qed

lemma list_fallible: "fallible_file (\<lambda>f d. (Status_OK, f @ d)) (\<lambda>f. (Status_OK, f)) (\<lambda>f. f) (\<lambda>_. True)"
  by unfold_locales auto

lemma readable_list: "readable \<lparr>ra_Read = (\<lambda>off n. (Status_OK, take n (drop off F))), ra_mapped = False\<rparr> F"
  by (simp add: readable_def)

subsection \<open>What was built can be read\<close>

text \<open>
  C14.  Tables.  Entries added in order to a table builder whose calls all succeed, on a file that may fail, can be read
  back: the file opens, with or without a block cache, filter policy and compression, and the iterator of the open table
  moves, for every sequence of moves, like a cursor on the entries, with an OK status.
\<close>

theorem table_roundtrip:
  assumes "fallible_file fappend fflush content invar" and "invar f" and "content f = []" and "snappy_ok S"
    and C: "key_comparator (opt_comparator opt)" and n: "0 < opt_block_restart_interval opt"
    and "entries_sorted (Compare (opt_comparator opt)) es" and "build_table fappend fflush S opt f es = (s, r)" and "Status_ok s"
    and "readable file (content (tb_file r))" and "length (content (tb_file r)) < 2 ^ 32" and "cache_fresh cache"
    and ms: "\<forall>m \<in> set ms. move_fits m"
  shows "\<exists>t cache'. Table_Open S opt file (length (content (tb_file r))) cache = Some (Status_OK, Some t, cache')
    \<and> Iterator_trace (Table_Iterator S t ro) ms (Table_NewIterator t cache') = Iterator_trace (cursor (Compare (opt_comparator opt)) es) ms None"
proof -
  obtain bs ks where tf: "table_file S opt (content (tb_file r)) bs ks" and es: "concat (map fst bs) = es"
    using fallible_file.build_table_spec [OF assms(1-9)] by blast
  obtain t cache' N where t: "Table_Open S opt file (length (content (tb_file r))) cache = Some (Status_OK, Some t, cache')"
      "table_open S t (content (tb_file r)) bs ks" "tbl_options t = opt"
      "table_src S t (cached_ok S t (table_blocks bs)) N cache' {#} (table_blocks bs)"
    by (rule Table_Open_holds [OF tf assms(10,11,4) key_comparator.user_order [OF C] n, of cache]) (use cache_fresh_open [OF assms(12)] in blast)
  have "Iterator_trace (Table_Iterator S t ro) ms (Table_NewIterator t cache') = Iterator_trace (cursor (Compare (opt_comparator opt)) es) ms None"
    unfolding Table_Iterator_def Table_NewIterator_def es [symmetric] t(3) [symmetric]
    by (rule iterator.iterator_trace [OF table.two_level_iterator
          table.NewTwoLevelIterator_at [OF table_open_layout [OF t(2)] table_index_at [OF t(2)] t(4)] ms])
  then show ?thesis using t(1) by blast
qed

text \<open>One entry in a table file, with a block cache of 100 bytes.\<close>

theorem table_roundtrip_witness:
  "\<exists>r t cache'. list_build [([1], [10])] = (Status_OK, r)
    \<and> Table_Open no_snappy Options_make \<lparr>ra_Read = (\<lambda>off n. (Status_OK, take n (drop off (tb_file r)))), ra_mapped = False\<rparr>
         (length (tb_file r)) (Some (NewLRUCache 100)) = Some (Status_OK, Some t, cache')
    \<and> Iterator_trace (Table_Iterator no_snappy t ReadOptions_make) [MSeek [0], MNext] (Table_NewIterator t cache')
        = Some [(Some ([1], [10]), Status_OK), (None, Status_OK)]"
proof -
  have "length (Bytewise_FindShortSuccessor [1]) < 1000" by code_simp
  from build_one [OF _ this, of "[10]"] obtain r where r: "list_build [([1], [10])] = (Status_OK, r)" "length (tb_file r) < 2 ^ 32"
    by auto
  have c: "cache_fresh (Some (NewLRUCache 100))" using sc_holds_New by (auto simp: cache_fresh_def)
  have "Iterator_trace (cursor (Compare (opt_comparator Options_make)) [([1], [10])]) [MSeek [0], MNext] None
      = Some [(Some ([1], [10]), Status_OK), (None, Status_OK)]"
    by (simp add: Options_make_def Iterator_move_def Iterator_see_def cursor_def lower_bound_def index_in_def Slice_compare_def)
  moreover have "entries_sorted (Compare (opt_comparator Options_make)) [([1], [10])]" by (simp add: entries_sorted_def key_fits_def)
  ultimately show ?thesis
    using table_roundtrip [OF list_fallible, of "[]" no_snappy Options_make "[([1], [10])]" Status_OK r,
        OF _ _ no_snappy_ok _ _ _ r(1) _ readable_list r(2) c, of "[MSeek [0], MNext]" ReadOptions_make]
      bytewise.key_comparator_axioms r(1)
    by (fastforce simp: Options_make_def key_fits_def)
qed

subsection \<open>Looking up a key\<close>

lemma lower_bound_nth:
  assumes "comparator cmp" and "entries_sorted cmp es" and "m < length es"
  shows "lower_bound cmp es (fst (es ! m)) = m"
proof -
  let ?P = "\<lambda>e. cmp (fst e) (fst (es ! m)) < 0"
  have s: "sorted_wrt (\<lambda>a b. cmp (fst a) (fst b) < 0) es" using assms(2) by (simp add: entries_sorted_def)
  have "\<forall>e \<in> set (take m es). ?P e"
    using sorted_wrt_nth_less [OF s] assms(3) by (fastforce simp: in_set_conv_nth)
  then have "takeWhile ?P (take m es @ es ! m # drop (Suc m) es) = take m es"
    using comparator.cmp_refl [OF assms(1)] by (simp add: takeWhile_append)
  then show ?thesis using assms(3) by (simp add: lower_bound_def id_take_nth_drop [symmetric])
qed

lemma two_layout_exact:
  assumes l: "two_layout cmp ix B es" and s: "entries_sorted cmp ix" and x: "x \<in> set es"
  shows "lower_bound cmp ix (fst x) < length ix" and "x \<in> set (block_entries B ix (lower_bound cmp ix (fst x)))"
proof -
  let ?i = "lower_bound cmp ix (fst x)" and ?P = "\<lambda>e. cmp (fst e) (fst x) < 0"
  have c: "comparator cmp" and es: "entries_sorted cmp es" using l by (auto simp: two_layout_def)
  obtain m where m: "m < length es" "es ! m = x" using x by (metis in_set_conv_nth)
  have "lower_bound cmp es (fst x) = m" using lower_bound_nth [OF c es m(1)] m(2) by simp
  then show i: "?i < length ix" using two_layout_seek(2) [OF l s, of "fst x"] m(1) by linarith
  obtain A D where AD: "es = A @ block_entries B ix ?i @ D"
    "\<forall>x \<in> set A. \<exists>j < ?i. cmp (fst x) (fst (ix ! j)) \<le> 0" "\<forall>x \<in> set D. cmp (fst (ix ! ?i)) (fst x) < 0"
    by (rule two_layout_split [OF l i])
  have "cmp (fst (ix ! j)) (fst x) < 0" if "j < ?i" for j
    using that nth_mem [of j "takeWhile ?P ix"] set_takeWhileD [of "takeWhile ?P ix ! j" ?P ix]
    by (simp add: lower_bound_def List.takeWhile_nth)
  then have "x \<notin> set A" using AD(2) comparator.cmp_le_less_trans [OF c] comparator.cmp_refl [OF c] by (metis less_irrefl)
  moreover have "\<not> ?P (ix ! ?i)" using i unfolding lower_bound_def by (rule nth_length_takeWhile)
  then have "x \<notin> set D" using AD(3) by blast
  ultimately show "x \<in> set (block_entries B ix ?i)" using x unfolding AD(1) by simp
qed

text \<open>The filter lets every key of a block pass.\<close>

lemma filter_ok_matches:
  assumes f: "filter_ok (Some P) (Some r) bs (length F)" and P: "filter_policy P" and ok: "blocks_ok S n F bs" and len: "length F < 2 ^ 64"
    and b: "b \<in> set bs" and k: "k \<in> set (map fst (fst b))"
  shows "FilterBlock_KeyMayMatch P r (bh_offset (block_handle b)) k"
proof -
  obtain N where N: "N \<le> length F" "\<forall>(L, p, z) \<in> set bs. p \<le> N" "length (filter_contents P bs N) < 2 ^ 32"
    "r = FilterBlockReader_make (filter_contents P bs N)" using f by (auto simp: filter_ok_def)
  let ?bs = "bs @ [([], N, 0)]"
  have u: "map (\<lambda>(off, _). unat off) (filter_blocks ?bs) = map (\<lambda>b. fst (snd b)) ?bs"
    using N(1,2) len by (auto simp: filter_blocks_def unat_of_nat split: prod.splits)
  have "sorted_wrt (<) (map (\<lambda>b. fst (snd b)) bs)"
    unfolding sorted_wrt_map using ok unfolding blocks_ok_def by (auto elim: sorted_wrt_mono_rel [rotated])
  then have 1: "sorted (map (\<lambda>(off, _). unat off) (filter_blocks ?bs))"
    unfolding u using N(2) by (auto simp: sorted_append strict_sorted_iff)
  have 2: "(bh_offset (block_handle b), map fst (fst b)) \<in> set (filter_blocks ?bs)"
    unfolding filter_blocks_def set_map
    by (rule image_eqI [where x = b]) (use b in \<open>auto simp: handle_of_def split: prod.splits\<close>)
  show ?thesis unfolding N(4) by (rule filter_block_matches [OF P 1 filter_contents_def N(3) 2 k])
qed

text \<open>The entry a lookup hands to its callback: the first of the block the index finds that is not below the key, unless the
  filter excludes the key.\<close>

definition filtered :: "Table \<Rightarrow> BlockHandle \<Rightarrow> Slice \<Rightarrow> bool" where
  "filtered t h k \<longleftrightarrow> (case (tbl_filter t, opt_filter_policy (tbl_options t)) of
     (Some r, Some P) \<Rightarrow> \<not> FilterBlock_KeyMayMatch P r (bh_offset h) k | _ \<Rightarrow> False)"

definition table_hit :: "Table \<Rightarrow> written \<Rightarrow> Slice list \<Rightarrow> Slice \<Rightarrow> (Slice \<times> Slice) option" where
  "table_hit t bs ks k =
     (let cmp = Compare (opt_comparator (tbl_options t)); i = lower_bound cmp (index_entries ks bs) k in
      if i < length bs \<and> \<not> filtered t (block_handle (bs ! i)) k then
        let L = fst (bs ! i); j = lower_bound cmp L k in if j < length L then Some (L ! j) else None
      else None)"

lemma obj_Seek_at:
  assumes "obj_at cmp ob L p" and "key_fits k"
  obtains ob' where "it_Seek obj_Iterator ob k = Some ob'" and "it_status obj_Iterator ob' = Status_OK" and "io_cleanup ob' = io_cleanup ob"
    and "it_Valid obj_Iterator ob' \<longleftrightarrow> lower_bound cmp L k < length L"
    and "lower_bound cmp L k < length L \<Longrightarrow> L ! lower_bound cmp L k = (it_key obj_Iterator ob', it_value obj_Iterator ob')"
proof -
  obtain ob' where ob': "it_Seek obj_Iterator ob k = Some ob'" "obj_at cmp ob' L (index_in L (lower_bound cmp L k))"
    using obj.at_seek [OF assms] by blast
  moreover have "io_cleanup ob' = io_cleanup ob" using ob'(1) by (auto simp: obj_Iterator_def dest: obj_step_cleanup)
  ultimately show thesis
    using that obj.at_status [OF ob'(2)] obj.at_valid [OF ob'(2)] obj.at_entry [of cmp ob' L "lower_bound cmp L k"]
    by (cases "lower_bound cmp L k < length L") (auto simp: index_in_def)
qed

lemma BlockReader_open:
  assumes src: "table_src S t R N cache {#} (table_blocks bs)" and t: "table_open S t F bs ks" and b: "b \<in> set bs" and k: "key_fits k"
    and r: "BlockReader S t ro cache (handle_bytes b) = (ob, cache')"
  obtains ob' where "it_Seek obj_Iterator ob k = Some ob'" and "it_status obj_Iterator ob' = Status_OK"
    and "it_Valid obj_Iterator ob' \<longleftrightarrow> lower_bound (Compare (opt_comparator (tbl_options t))) (fst b) k < length (fst b)"
    and "lower_bound (Compare (opt_comparator (tbl_options t))) (fst b) k < length (fst b) \<Longrightarrow>
      fst b ! lower_bound (Compare (opt_comparator (tbl_options t))) (fst b) k = (it_key obj_Iterator ob', it_value obj_Iterator ob')"
    and "table_src S t R N (Iterator_delete run_cleanup ob' cache') {#} (table_blocks bs)"
proof -
  have "blocks_ok S (opt_block_restart_interval (tbl_options t)) F bs" "length F < 2 ^ 64"
    using t by (auto simp: table_open_def table_file_def)
  from table_blocks_Some [OF this, of "handle_bytes b" "fst b"] have B: "table_blocks bs (handle_bytes b) = Some (fst b)" using b by blast
  note o = table.src_read [OF src B r]
  obtain ob' where ob': "it_Seek obj_Iterator ob k = Some ob'" "it_status obj_Iterator ob' = Status_OK" "io_cleanup ob' = io_cleanup ob"
    "it_Valid obj_Iterator ob' \<longleftrightarrow> lower_bound (Compare (opt_comparator (tbl_options t))) (fst b) k < length (fst b)"
    "lower_bound (Compare (opt_comparator (tbl_options t))) (fst b) k < length (fst b) \<Longrightarrow>
      fst b ! lower_bound (Compare (opt_comparator (tbl_options t))) (fst b) k = (it_key obj_Iterator ob', it_value obj_Iterator ob')"
    using obj_Seek_at [OF conjunct1 [OF o] k] by blast
  have "table_src S t R N (Iterator_delete run_cleanup ob' cache') {#} (table_blocks bs)"
    using table.src_delete [of S t R N cache' "{#}" "IteratorWrapper_make\<lparr>iw_iter := Some ob'\<rparr>" "table_blocks bs"] conjunct2 [OF o] ob'(3)
    by (simp add: wrapper_cleanup_def IteratorWrapper_delete_def)
  with ob' show thesis using that by blast
qed

lemma InternalGet_open:
  assumes t: "table_open S t F bs ks" and src: "table_src S t R N cache {#} (table_blocks bs)" and k: "key_fits k"
  shows "\<exists>cache'. InternalGet S t ro k saver arg cache
      = Some (Status_OK, case table_hit t bs ks k of None \<Rightarrow> arg | Some (k', v) \<Rightarrow> saver arg k' v, cache')
    \<and> table_src S t R N cache' {#} (table_blocks bs)"
proof -
  let ?cmp = "Compare (opt_comparator (tbl_options t))" and ?ix = "index_entries ks bs"
  let ?i = "lower_bound ?cmp ?ix k"
  have len: "length ks = length bs" "length ?ix = length bs" using t by (auto simp: table_open_def table_file_def index_entries_def)
  obtain q where q: "it_Seek obj_Iterator (Table_index_iter t :: (Status + BlockIter, BlockCleanup) IterObj) k = Some q"
    "it_status obj_Iterator q = Status_OK" "it_Valid obj_Iterator q \<longleftrightarrow> ?i < length bs"
    "?i < length bs \<Longrightarrow> ?ix ! ?i = (it_key obj_Iterator q, it_value obj_Iterator q)"
    by (rule obj_Seek_at [OF table_index_at [OF t] k]) (use len in auto)
  show ?thesis
  proof (cases "?i < length bs")
    case False
    then show ?thesis using q src by (intro exI [of _ cache]) (simp add: InternalGet_def table_hit_def Let_def)
  next
    case True
    let ?b = "bs ! ?i"
    have v: "it_value obj_Iterator q = handle_bytes ?b" using q(4) [OF True] index_entries_nth [OF len(1) True] by simp
    have f: "(case (tbl_filter t, opt_filter_policy (tbl_options t)) of
         (Some r, Some P) \<Rightarrow> Status_ok Status_OK \<and> \<not> FilterBlock_KeyMayMatch P r (bh_offset (block_handle ?b)) k | _ \<Rightarrow> False)
       \<longleftrightarrow> filtered t (block_handle ?b) k" by (auto simp: filtered_def split: option.splits)
    obtain ob cache' where r: "BlockReader S t ro cache (handle_bytes ?b) = (ob, cache')" by fastforce
    obtain ob' where o: "it_Seek obj_Iterator ob k = Some ob'" "it_status obj_Iterator ob' = Status_OK"
      "it_Valid obj_Iterator ob' \<longleftrightarrow> lower_bound ?cmp (fst ?b) k < length (fst ?b)"
      "lower_bound ?cmp (fst ?b) k < length (fst ?b) \<Longrightarrow>
        fst ?b ! lower_bound ?cmp (fst ?b) k = (it_key obj_Iterator ob', it_value obj_Iterator ob')"
      "table_src S t R N (Iterator_delete run_cleanup ob' cache') {#} (table_blocks bs)"
      using BlockReader_open [OF src t nth_mem [OF True] k r] by blast
    show ?thesis
    proof (cases "filtered t (block_handle ?b) k")
      case f1: True
      then show ?thesis using q(1-3) v True src f
        by (intro exI [of _ cache]) (simp add: InternalGet_def table_hit_def handle_bytes_decode del: block_handle.simps)
    next
      case f0: False
      then show ?thesis using q(1-3) v True f r o
        by (intro exI [of _ "Iterator_delete run_cleanup ob' cache'"])
          (simp add: InternalGet_def table_hit_def handle_bytes_decode Let_def del: block_handle.simps)
    qed
  qed
qed

lemma index_hit:
  assumes t: "table_open S t F bs ks"
  defines "cmp \<equiv> Compare (opt_comparator (tbl_options t))" and "es \<equiv> concat (map fst bs)" and "i k \<equiv> lower_bound (Compare (opt_comparator (tbl_options t))) (index_entries ks bs) k"
  shows "i k < length bs \<Longrightarrow> lower_bound cmp es k = length (concat (map fst (take (i k) bs))) + lower_bound cmp (fst (bs ! i k)) k"
    and "\<not> i k < length bs \<Longrightarrow> lower_bound cmp es k = length es"
proof -
  let ?ix = "index_entries ks bs" and ?B = "table_blocks bs"
  have tf: "table_file S (tbl_options t) F bs ks" "length F < 2 ^ 64" "length ks = length bs" using t by (auto simp: table_open_def table_file_def)
  then have ok: "blocks_ok S (opt_block_restart_interval (tbl_options t)) F bs" by (simp add: table_file_def)
  have ixl: "length ?ix = length bs" using tf(3) by (simp add: index_entries_def)
  have e: "the (?B (snd (?ix ! j))) = fst (bs ! j)" if "j < length bs" for j
    using that table_blocks_Some [OF ok tf(2), of "handle_bytes (bs ! j)" "fst (bs ! j)"] index_entries_nth(1) [OF tf(3) that]
    by simp (metis nth_mem option.sel)
  note l = table_open_layout [OF t, folded cmp_def es_def]
  have s: "entries_sorted cmp ?ix" using obj.at_order [OF table_index_at [OF t]] by (simp add: cmp_def)
  have "block_start ?B ?ix j = length (concat (map fst (take j bs)))" if "j \<le> length bs" for j
  proof -
    have "map (\<lambda>e. the (?B (snd e))) (take j ?ix) = map fst (take j bs)" by (rule nth_equalityI) (use that ixl e in auto)
    then show ?thesis by (simp add: block_start_def)
  qed
  then show "i k < length bs \<Longrightarrow> lower_bound cmp es k = length (concat (map fst (take (i k) bs))) + lower_bound cmp (fst (bs ! i k)) k"
    and "\<not> i k < length bs \<Longrightarrow> lower_bound cmp es k = length es"
    using two_layout_seek [OF l s, of k, unfolded block_entries_def] ixl e by (simp_all add: i_def cmp_def)
qed

lemma concat_take_nth:
  assumes "i < length xs"
  shows "j < length (xs ! i) \<Longrightarrow> length (concat (take i xs)) + j < length (concat xs) \<and> concat xs ! (length (concat (take i xs)) + j) = xs ! i ! j"
    and "length (concat (take i xs)) + length (xs ! i) = length (concat (take (Suc i) xs))"
    and "drop (length (concat (take (Suc i) xs))) (concat xs) = concat (drop (Suc i) xs)"
proof -
  have c: "concat xs = concat (take i xs) @ xs ! i @ concat (drop (Suc i) xs)"
    using id_take_nth_drop [OF assms] by (metis concat.simps(2) concat_append)
  then show "j < length (xs ! i) \<Longrightarrow> length (concat (take i xs)) + j < length (concat xs) \<and> concat xs ! (length (concat (take i xs)) + j) = xs ! i ! j"
    by (simp add: nth_append)
  show l: "length (concat (take i xs)) + length (xs ! i) = length (concat (take (Suc i) xs))" using assms by (simp add: take_Suc_conv_app_nth)
  show "drop (length (concat (take (Suc i) xs))) (concat xs) = concat (drop (Suc i) xs)" unfolding l [symmetric] by (subst c) simp
qed

lemma table_hit_sound:
  assumes t: "table_open S t F bs ks" and h: "table_hit t bs ks k = Some e"
  defines "cmp \<equiv> Compare (opt_comparator (tbl_options t))" and "es \<equiv> concat (map fst bs)"
  shows "lower_bound cmp es k < length es \<and> es ! lower_bound cmp es k = e"
proof -
  let ?i = "lower_bound cmp (index_entries ks bs) k" and ?j = "\<lambda>i. lower_bound cmp (fst (bs ! i)) k"
  have i: "?i < length bs" "?j ?i < length (fst (bs ! ?i))" "fst (bs ! ?i) ! ?j ?i = e"
    using h by (auto simp: table_hit_def Let_def cmp_def split: if_splits)
  show ?thesis
    using index_hit(1) [OF t, of k, folded cmp_def es_def, OF i(1)] concat_take_nth(1) [of ?i "map fst bs" "?j ?i"] i
    by (simp add: es_def take_map)
qed

lemma not_filtered:
  assumes t: "table_open S t F bs ks" and P: "\<And>P. opt_filter_policy (tbl_options t) = Some P \<Longrightarrow> filter_policy P"
    and b: "b \<in> set bs" and k: "k \<in> set (map fst (fst b))"
  shows "\<not> filtered t (block_handle b) k"
proof (cases "opt_filter_policy (tbl_options t)")
  case (Some Q)
  have ok: "blocks_ok S (opt_block_restart_interval (tbl_options t)) F bs" "length F < 2 ^ 64" using t by (auto simp: table_open_def table_file_def)
  obtain r where r: "tbl_filter t = Some r" "filter_ok (Some Q) (Some r) bs (length F)"
    using t Some by (auto simp: table_open_def filter_ok_def)
  from filter_ok_matches [OF r(2) P [OF Some] ok b k] show ?thesis by (simp add: filtered_def r(1) Some)
qed (simp add: filtered_def split: option.splits)

lemma table_hit_exact:
  assumes t: "table_open S t F bs ks" and P: "\<And>P. opt_filter_policy (tbl_options t) = Some P \<Longrightarrow> filter_policy P"
    and x: "(k, v) \<in> set (concat (map fst bs))"
  shows "table_hit t bs ks k = Some (k, v)"
proof -
  let ?cmp = "Compare (opt_comparator (tbl_options t))" and ?ix = "index_entries ks bs" and ?B = "table_blocks bs"
  let ?i = "lower_bound ?cmp ?ix k"
  have tf: "length F < 2 ^ 64" "length ks = length bs" and c: "comparator ?cmp"
    and ok: "blocks_ok S (opt_block_restart_interval (tbl_options t)) F bs" using t by (auto simp: table_open_def table_file_def)
  have s: "entries_sorted ?cmp ?ix" using obj.at_order [OF table_index_at [OF t]] by simp
  have ixl: "length ?ix = length bs" using tf(2) by (simp add: index_entries_def)
  note l = table_open_layout [OF t]
  have i: "?i < length bs" using two_layout_exact(1) [OF l s x] ixl by simp
  have "block_entries ?B ?ix ?i = fst (bs ! ?i)"
    using i table_blocks_Some [OF ok tf(1), of "handle_bytes (bs ! ?i)" "fst (bs ! ?i)"] index_entries_nth(1) [OF tf(2) i]
    by (simp add: block_entries_def) (metis nth_mem option.sel)
  then have kv: "(k, v) \<in> set (fst (bs ! ?i))" using two_layout_exact(2) [OF l s x] by simp
  then obtain j where j: "j < length (fst (bs ! ?i))" "fst (bs ! ?i) ! j = (k, v)" by (metis in_set_conv_nth)
  have "entries_sorted ?cmp (fst (bs ! ?i))" using table_leads_to [OF t nth_mem [OF i]] by (simp add: leads_to_def)
  then have "lower_bound ?cmp (fst (bs ! ?i)) k = j" using lower_bound_nth [OF c _ j(1)] j(2) by simp
  moreover have "k \<in> set (map fst (fst (bs ! ?i)))" using kv by force
  note not_filtered [OF t P nth_mem [OF i] this]
  ultimately show ?thesis using i j by (simp add: table_hit_def Let_def)
qed

text \<open>
  C15.  Lookups in a table.  In a table that was built from sorted entries and opened, a lookup succeeds and calls the
  callback at most once, with the first entry not below the key; if the key was added, with its value: neither the index
  nor a filter policy without false negatives nor the block cache loses an entry.
\<close>

theorem table_get:
  assumes "fallible_file fappend fflush content invar" and "invar f" and "content f = []" and "snappy_ok S"
    and C: "key_comparator (opt_comparator opt)" and n: "0 < opt_block_restart_interval opt"
    and "entries_sorted (Compare (opt_comparator opt)) es" and "build_table fappend fflush S opt f es = (s, r)" and "Status_ok s"
    and "readable file (content (tb_file r))" and "length (content (tb_file r)) < 2 ^ 32" and "cache_fresh cache"
    and P: "\<And>P. opt_filter_policy opt = Some P \<Longrightarrow> filter_policy P" and k: "key_fits k"
  shows "\<exists>t cache' arg' cache''. Table_Open S opt file (length (content (tb_file r))) cache = Some (Status_OK, Some t, cache')
    \<and> InternalGet S t ro k saver arg cache' = Some (Status_OK, arg', cache'')
    \<and> ((k, v) \<in> set es \<longrightarrow> arg' = saver arg k v)
    \<and> (arg' = arg \<or> (\<exists>k' v'. arg' = saver arg k' v' \<and> lower_bound (Compare (opt_comparator opt)) es k < length es
        \<and> es ! lower_bound (Compare (opt_comparator opt)) es k = (k', v')))"
proof -
  obtain bs ks where tf: "table_file S opt (content (tb_file r)) bs ks" and es: "concat (map fst bs) = es"
    using fallible_file.build_table_spec [OF assms(1-9)] by blast
  obtain t cache' N where t: "Table_Open S opt file (length (content (tb_file r))) cache = Some (Status_OK, Some t, cache')"
      "table_open S t (content (tb_file r)) bs ks" "tbl_options t = opt"
      "table_src S t (cached_ok S t (table_blocks bs)) N cache' {#} (table_blocks bs)"
    by (rule Table_Open_holds [OF tf assms(10,11,4) key_comparator.user_order [OF C] n, of cache]) (use cache_fresh_open [OF assms(12)] in blast)
  obtain cache'' where g: "InternalGet S t ro k saver arg cache'
      = Some (Status_OK, case table_hit t bs ks k of None \<Rightarrow> arg | Some (k', v) \<Rightarrow> saver arg k' v, cache'')"
    using InternalGet_open [OF t(2,4) k, of ro saver arg] by blast
  have "table_hit t bs ks k = Some (k, v)" if "(k, v) \<in> set es" using table_hit_exact [OF t(2)] P that t(3) es by simp
  moreover have "lower_bound (Compare (opt_comparator opt)) es k < length es \<and> es ! lower_bound (Compare (opt_comparator opt)) es k = e"
    if "table_hit t bs ks k = Some e" for e
    using table_hit_sound [OF t(2) that] t(3) es by simp
  ultimately show ?thesis using t(1) g by (intro exI conjI) (auto split: option.splits prod.splits)
qed

theorem table_get_witness:
  "\<exists>r t cache' cache''. list_build [([1], [10])] = (Status_OK, r)
    \<and> Table_Open no_snappy Options_make \<lparr>ra_Read = (\<lambda>off n. (Status_OK, take n (drop off (tb_file r)))), ra_mapped = False\<rparr>
         (length (tb_file r)) None = Some (Status_OK, Some t, cache')
    \<and> InternalGet no_snappy t ReadOptions_make [1] (\<lambda>_ k v. Some (k, v)) None cache' = Some (Status_OK, Some ([1], [10]), cache'')"
proof -
  have "length (Bytewise_FindShortSuccessor [1]) < 1000" by code_simp
  from build_one [OF _ this, of "[10]"] obtain r where r: "list_build [([1], [10])] = (Status_OK, r)" "length (tb_file r) < 2 ^ 32"
    by auto
  have "entries_sorted (Compare (opt_comparator Options_make)) [([1], [10])]" by (simp add: entries_sorted_def key_fits_def)
  then show ?thesis
    using table_get [OF list_fallible, of "[]" no_snappy Options_make "[([1], [10])]" Status_OK r,
        OF _ _ no_snappy_ok _ _ _ r(1) _ readable_list r(2), of None "[1]" ReadOptions_make "\<lambda>_ k v. Some (k, v)" None "[10]"]
      bytewise.key_comparator_axioms r(1)
    by (fastforce simp: Options_make_def key_fits_def cache_fresh_def)
qed

end
