(* ===== verification/DBIter.thy ===== *)
theory DBIter
  imports Iterator Dbformat SkipList
begin

text \<open>
  The iterator of the database (\<^verbatim>\<open>db/db_iter.cc\<close>): it turns an iterator over internal keys into one over user keys, which
  shows for every user key the newest entry visible at the sequence number of the iterator, and nothing if that is a
  deletion.  The database it reports samples to is the state \<open>'d\<close> with its \<open>sample\<close> (\<^verbatim>\<open>DBImpl::RecordReadSample\<close>).
  The capacity of \<^verbatim>\<open>saved_value_\<close> is not modelled: the code only uses it to give memory back.
\<close>

subsection \<open>The class\<close>

datatype DBDirection = kForward | kReverse

record ('d, 's, 'c) DBIter =
  di_db :: 'd
  di_user_comparator :: Comparator
  di_iter :: "('s, 'c) IterObj"
  di_sequence :: SequenceNumber
  di_status :: Status
  di_saved_key :: bytes
  di_saved_value :: bytes
  di_direction :: DBDirection
  di_valid :: bool
  di_rnd :: u32
  di_bytes_counter :: int

definition RandomPeriod :: "u32 \<Rightarrow> int \<times> u32" where
  "RandomPeriod rnd = (let (v, rnd) = Random_Uniform rnd (of_nat (2 * kReadBytesPeriod)) in (int (unat v), rnd))"

definition NewDBIterator :: "'d \<Rightarrow> Comparator \<Rightarrow> ('s, 'c) IterObj \<Rightarrow> SequenceNumber \<Rightarrow> u32 \<Rightarrow> ('d, 's, 'c) DBIter" where
  "NewDBIterator db user_key_comparator internal_iter sequence seed =
     (let (period, rnd) = RandomPeriod (Random_make seed)
      in \<lparr>di_db = db, di_user_comparator = user_key_comparator, di_iter = internal_iter, di_sequence = sequence,
          di_status = Status_OK, di_saved_key = [], di_saved_value = [], di_direction = kForward, di_valid = False,
          di_rnd = rnd, di_bytes_counter = period\<rparr>)"

definition DBIter_delete :: "('c \<Rightarrow> 'a \<Rightarrow> 'a) \<Rightarrow> ('d, 's, 'c) DBIter \<Rightarrow> 'a \<Rightarrow> 'a" where
  "DBIter_delete run it a = Iterator_delete run (di_iter it) a"

abbreviation iter_Valid :: "('d, 's, 'c) DBIter \<Rightarrow> bool" where
  "iter_Valid it \<equiv> it_Valid obj_Iterator (di_iter it)"

abbreviation iter_key :: "('d, 's, 'c) DBIter \<Rightarrow> Slice" where
  "iter_key it \<equiv> it_key obj_Iterator (di_iter it)"

abbreviation iter_value :: "('d, 's, 'c) DBIter \<Rightarrow> Slice" where
  "iter_value it \<equiv> it_value obj_Iterator (di_iter it)"

definition with_iter :: "(('s, 'c) IterObj \<Rightarrow> ('s, 'c) IterObj option) \<Rightarrow> ('d, 's, 'c) DBIter \<Rightarrow> ('d, 's, 'c) DBIter option" where
  "with_iter f it = map_option (\<lambda>ob. it\<lparr>di_iter := ob\<rparr>) (f (di_iter it))"

definition DBIter_key :: "('d, 's, 'c) DBIter \<Rightarrow> Slice" where
  "DBIter_key it = (if di_direction it = kForward then ExtractUserKey (iter_key it) else di_saved_key it)"

definition DBIter_value :: "('d, 's, 'c) DBIter \<Rightarrow> Slice" where
  "DBIter_value it = (if di_direction it = kForward then iter_value it else di_saved_value it)"

definition DBIter_status :: "('d, 's, 'c) DBIter \<Rightarrow> Status" where
  "DBIter_status it = (if Status_ok (di_status it) then it_status obj_Iterator (di_iter it) else di_status it)"

text \<open>\<^verbatim>\<open>ParseKey\<close>, with its loop that reports samples.\<close>

partial_function (option) ParseKey_sample ::
  "('d \<Rightarrow> Slice \<Rightarrow> 'd) \<Rightarrow> Slice \<Rightarrow> ('d, 's, 'c) DBIter \<Rightarrow> ('d, 's, 'c) DBIter option" where
  "ParseKey_sample sample k it =
     (if di_bytes_counter it < 0 then
        let (period, rnd) = RandomPeriod (di_rnd it)
        in ParseKey_sample sample k (it\<lparr>di_rnd := rnd, di_bytes_counter := di_bytes_counter it + period, di_db := sample (di_db it) k\<rparr>)
      else Some it)"

definition ParseKey ::
  "('d \<Rightarrow> Slice \<Rightarrow> 'd) \<Rightarrow> ('d, 's, 'c) DBIter \<Rightarrow> (ParsedInternalKey option \<times> ('d, 's, 'c) DBIter) option" where
  "ParseKey sample it =
     (let k = iter_key it; n = int (length k + length (iter_value it)) in
      map_option (\<lambda>it. case ParseInternalKey k of
            None \<Rightarrow> (None, it\<lparr>di_status := Corruption (str ''corrupted internal key in DBIter'') []\<rparr>)
          | Some ikey \<Rightarrow> (Some ikey, it))
        (ParseKey_sample sample k (it\<lparr>di_bytes_counter := di_bytes_counter it - n\<rparr>)))"

subsection \<open>Moving forward\<close>

text \<open>
  The body of the loop of \<^verbatim>\<open>FindNextUserEntry\<close> for a parsed key: whether it returns, \<^verbatim>\<open>skipping\<close>, and the iterator.  The string
  \<^verbatim>\<open>skip\<close> is \<^verbatim>\<open>saved_key_\<close> in all calls.
\<close>

definition FindNext_body :: "ParsedInternalKey option \<Rightarrow> bool \<Rightarrow> ('d, 's, 'c) DBIter \<Rightarrow> bool \<times> bool \<times> ('d, 's, 'c) DBIter" where
  "FindNext_body ikey skipping it =
     (case ikey of
        None \<Rightarrow> (False, skipping, it)
      | Some ikey \<Rightarrow>
          if pik_sequence ikey \<le> di_sequence it then
            (case pik_type ikey of
               kTypeDeletion \<Rightarrow> (False, True, it\<lparr>di_saved_key := pik_user_key ikey\<rparr>)
             | kTypeValue \<Rightarrow>
                 if skipping \<and> Compare (di_user_comparator it) (pik_user_key ikey) (di_saved_key it) \<le> 0
                 then (False, skipping, it)
                 else (True, skipping, it\<lparr>di_valid := True, di_saved_key := []\<rparr>))
          else (False, skipping, it))"

partial_function (option) FindNextUserEntry ::
  "('d \<Rightarrow> Slice \<Rightarrow> 'd) \<Rightarrow> bool \<Rightarrow> ('d, 's, 'c) DBIter \<Rightarrow> ('d, 's, 'c) DBIter option" where
  "FindNextUserEntry sample skipping it =
     Option.bind (ParseKey sample it) (\<lambda>(ikey, it).
       case FindNext_body ikey skipping it of (return, skipping, it) \<Rightarrow>
         if return then Some it
         else Option.bind (with_iter (it_Next obj_Iterator) it) (\<lambda>it.
                if iter_Valid it then FindNextUserEntry sample skipping it
                else Some (it\<lparr>di_saved_key := [], di_valid := False\<rparr>)))"

definition DBIter_Next :: "('d \<Rightarrow> Slice \<Rightarrow> 'd) \<Rightarrow> ('d, 's, 'c) DBIter \<Rightarrow> ('d, 's, 'c) DBIter option" where
  "DBIter_Next sample it =
     (if di_direction it = kReverse then
        Option.bind (with_iter (if iter_Valid it then it_Next obj_Iterator else it_SeekToFirst obj_Iterator) (it\<lparr>di_direction := kForward\<rparr>))
          (\<lambda>it. if \<not> iter_Valid it then Some (it\<lparr>di_valid := False, di_saved_key := []\<rparr>)
                else FindNextUserEntry sample True it)
      else FindNextUserEntry sample True (it\<lparr>di_saved_key := ExtractUserKey (iter_key it)\<rparr>))"

definition DBIter_Seek :: "('d \<Rightarrow> Slice \<Rightarrow> 'd) \<Rightarrow> ('d, 's, 'c) DBIter \<Rightarrow> Slice \<Rightarrow> ('d, 's, 'c) DBIter option" where
  "DBIter_Seek sample it target =
     (let it = it\<lparr>di_direction := kForward, di_saved_value := [],
                di_saved_key := AppendInternalKey [] \<lparr>pik_user_key = target, pik_sequence = di_sequence it, pik_type = kValueTypeForSeek\<rparr>\<rparr>
      in Option.bind (with_iter (\<lambda>ob. it_Seek obj_Iterator ob (di_saved_key it)) it)
           (\<lambda>it. if iter_Valid it then FindNextUserEntry sample False it else Some (it\<lparr>di_valid := False\<rparr>)))"

definition DBIter_SeekToFirst :: "('d \<Rightarrow> Slice \<Rightarrow> 'd) \<Rightarrow> ('d, 's, 'c) DBIter \<Rightarrow> ('d, 's, 'c) DBIter option" where
  "DBIter_SeekToFirst sample it =
     Option.bind (with_iter (it_SeekToFirst obj_Iterator) (it\<lparr>di_direction := kForward, di_saved_value := []\<rparr>))
       (\<lambda>it. if iter_Valid it then FindNextUserEntry sample False it else Some (it\<lparr>di_valid := False\<rparr>))"

subsection \<open>Moving backward\<close>

text \<open>The body of the loop of \<^verbatim>\<open>FindPrevUserEntry\<close>: whether it breaks, \<^verbatim>\<open>value_type\<close>, and the iterator.\<close>

definition FindPrev_body :: "ParsedInternalKey option \<Rightarrow> ValueType \<Rightarrow> ('d, 's, 'c) DBIter \<Rightarrow> bool \<times> ValueType \<times> ('d, 's, 'c) DBIter" where
  "FindPrev_body ikey value_type it =
     (case ikey of
        None \<Rightarrow> (False, value_type, it)
      | Some ikey \<Rightarrow>
          if pik_sequence ikey \<le> di_sequence it then
            if value_type \<noteq> kTypeDeletion \<and> Compare (di_user_comparator it) (pik_user_key ikey) (di_saved_key it) < 0
            then (True, value_type, it)
            else if pik_type ikey = kTypeDeletion
            then (False, pik_type ikey, it\<lparr>di_saved_key := [], di_saved_value := []\<rparr>)
            else (False, pik_type ikey, it\<lparr>di_saved_key := ExtractUserKey (iter_key it), di_saved_value := iter_value it\<rparr>)
          else (False, value_type, it))"

partial_function (option) FindPrev_loop ::
  "('d \<Rightarrow> Slice \<Rightarrow> 'd) \<Rightarrow> ValueType \<Rightarrow> ('d, 's, 'c) DBIter \<Rightarrow> (ValueType \<times> ('d, 's, 'c) DBIter) option" where
  "FindPrev_loop sample value_type it =
     Option.bind (ParseKey sample it) (\<lambda>(ikey, it).
       case FindPrev_body ikey value_type it of (break, value_type, it) \<Rightarrow>
         if break then Some (value_type, it)
         else Option.bind (with_iter (it_Prev obj_Iterator) it) (\<lambda>it.
                if iter_Valid it then FindPrev_loop sample value_type it else Some (value_type, it)))"

definition FindPrevUserEntry :: "('d \<Rightarrow> Slice \<Rightarrow> 'd) \<Rightarrow> ('d, 's, 'c) DBIter \<Rightarrow> ('d, 's, 'c) DBIter option" where
  "FindPrevUserEntry sample it =
     map_option (\<lambda>(value_type, it).
         if value_type = kTypeDeletion
         then it\<lparr>di_valid := False, di_saved_key := [], di_saved_value := [], di_direction := kForward\<rparr>
         else it\<lparr>di_valid := True\<rparr>)
       (if iter_Valid it then FindPrev_loop sample kTypeDeletion it else Some (kTypeDeletion, it))"

text \<open>The scan of \<^verbatim>\<open>Prev\<close> to an entry with a smaller user key; \<open>False\<close> if there is none.\<close>

partial_function (option) Prev_scan :: "('d, 's, 'c) DBIter \<Rightarrow> (bool \<times> ('d, 's, 'c) DBIter) option" where
  "Prev_scan it =
     Option.bind (with_iter (it_Prev obj_Iterator) it) (\<lambda>it.
       if \<not> iter_Valid it then Some (False, it)
       else if Compare (di_user_comparator it) (ExtractUserKey (iter_key it)) (di_saved_key it) < 0 then Some (True, it)
       else Prev_scan it)"

definition DBIter_Prev :: "('d \<Rightarrow> Slice \<Rightarrow> 'd) \<Rightarrow> ('d, 's, 'c) DBIter \<Rightarrow> ('d, 's, 'c) DBIter option" where
  "DBIter_Prev sample it =
     (if di_direction it = kForward then
        Option.bind (Prev_scan (it\<lparr>di_saved_key := ExtractUserKey (iter_key it)\<rparr>)) (\<lambda>(found, it).
          if found then FindPrevUserEntry sample (it\<lparr>di_direction := kReverse\<rparr>)
          else Some (it\<lparr>di_valid := False, di_saved_key := [], di_saved_value := []\<rparr>))
      else FindPrevUserEntry sample it)"

definition DBIter_SeekToLast :: "('d \<Rightarrow> Slice \<Rightarrow> 'd) \<Rightarrow> ('d, 's, 'c) DBIter \<Rightarrow> ('d, 's, 'c) DBIter option" where
  "DBIter_SeekToLast sample it =
     Option.bind (with_iter (it_SeekToLast obj_Iterator) (it\<lparr>di_direction := kReverse, di_saved_value := []\<rparr>)) (FindPrevUserEntry sample)"

definition DBIter_Iterator :: "('d \<Rightarrow> Slice \<Rightarrow> 'd) \<Rightarrow> ('d, 's, 'c) DBIter Iterator" where
  "DBIter_Iterator sample =
     \<lparr>it_Valid = di_valid, it_SeekToFirst = DBIter_SeekToFirst sample, it_SeekToLast = DBIter_SeekToLast sample,
      it_Seek = DBIter_Seek sample, it_Next = DBIter_Next sample, it_Prev = DBIter_Prev sample,
      it_key = DBIter_key, it_value = DBIter_value, it_status = DBIter_status\<rparr>"

subsection \<open>Sampling\<close>

text \<open>
  The loop of \<open>ParseKey\<close> adds random periods, which may be zero; it ends because the generator never gives zero
  modulo \<open>2 ^ 21\<close> twice in a row.
\<close>

definition rnd_ok :: "u32 \<Rightarrow> bool" where
  "rnd_ok r \<longleftrightarrow> 0 < r \<and> r < 2147483647"

lemma RandomPeriod_eq: "RandomPeriod r = (int (unat (Random_Next r) mod 2097152), Random_Next r)"
proof -
  have "unat (Random_Next r mod 2097152) = unat (Random_Next r) mod 2097152" by (simp add: unat_mod_distrib)
  then have "int (unat (Random_Next r mod 2097152)) = int (unat (Random_Next r) mod 2097152)" by (rule arg_cong)
  then show ?thesis by (simp add: RandomPeriod_def Random_Uniform_def Let_def kReadBytesPeriod_def)
qed

lemma rnd_ok_Next: "rnd_ok r \<Longrightarrow> rnd_ok (Random_Next r)"
  using Random_Next_mod(2) [of r] by (simp add: rnd_ok_def)

lemma Random_make_ok: "rnd_ok (Random_make s)"
proof -
  have "unat (s AND 0x7fffffff) < 2 ^ 31"
  proof -
    have "s AND 0x7fffffff = take_bit 31 s" by (simp add: take_bit_eq_mask mask_eq_exp_minus_1)
    then have "unat (s AND 0x7fffffff) = take_bit 31 (unat s)" by (simp add: unsigned_take_bit_eq)
    then show ?thesis by (simp add: take_bit_eq_mod)
  qed
  then show ?thesis
    by (auto simp: Random_make_def rnd_ok_def Let_def word_less_nat_alt word_unat_eq_iff)
qed

lemma period_twice:
  assumes "rnd_ok r" and z: "unat (Random_Next r) mod 2097152 = 0"
  shows "unat (Random_Next (Random_Next r)) mod 2097152 \<noteq> 0"
proof -
  let ?y = "unat (Random_Next r)"
  have y: "0 < ?y" "?y < 2147483647" using rnd_ok_Next [OF assms(1)] by (simp_all add: rnd_ok_def word_less_nat_alt)
  obtain m where m: "?y = 2097152 * m" using z by (auto simp: mod_eq_0_iff_dvd)
  have mb: "0 < m" "m < 1024" using y m by auto
  define a where "a = 16807 * m"
  define h l where "h = a div 1024" and "l = a mod 1024"
  have a: "16807 \<le> a" "a < 16807 * 1024" using mb by (auto simp: a_def)
  have h: "0 < h" "h < 16807" and l: "l < 1024" using a by (auto simp: h_def l_def div_greater_zero_iff)
  have "?y * 16807 = (1024 * h + l) * 2097152" by (simp add: m a_def h_def l_def)
  also have "\<dots> = h * 2147483647 + (h + 2097152 * l)" by simp
  finally have e: "?y * 16807 = h * 2147483647 + (h + 2097152 * l)" .
  have "(?y * 16807) mod 2147483647 = h + 2097152 * l" unfolding e mod_mult_self3 using h l by simp
  then have "unat (Random_Next (Random_Next r)) = h + 2097152 * l"
    using Random_Next_mod(1) [of "Random_Next r"] rnd_ok_Next [OF assms(1)] by (simp add: rnd_ok_def)
  then show ?thesis using h by simp
qed

definition sampled :: "('d, 's, 'c) DBIter \<Rightarrow> ('d, 's, 'c) DBIter \<Rightarrow> bool" where
  "sampled it it' \<longleftrightarrow> (\<exists>r b d. it' = it\<lparr>di_rnd := r, di_bytes_counter := b, di_db := d\<rparr> \<and> rnd_ok r)"

lemma ParseKey_sample_returns:
  assumes "rnd_ok (di_rnd it)"
  shows "\<exists>it'. ParseKey_sample sample k it = Some it' \<and> sampled it it' \<and> 0 \<le> di_bytes_counter it'"
  using assms
proof (induction "2 * nat (- di_bytes_counter it) + (if unat (Random_Next (di_rnd it)) mod 2097152 = 0 then 1 else 0)"
    arbitrary: it rule: less_induct)
  case less
  show ?case
  proof (cases "di_bytes_counter it < 0")
    case False
    then show ?thesis using less.prems
      by (intro exI [of _ it] conjI)
        (simp add: ParseKey_sample.simps, auto simp: sampled_def intro!: exI [of _ "di_rnd it"] exI [of _ "di_bytes_counter it"] exI [of _ "di_db it"])
  next
    case True
    let ?p = "unat (Random_Next (di_rnd it)) mod 2097152"
    let ?it = "it\<lparr>di_rnd := Random_Next (di_rnd it), di_bytes_counter := di_bytes_counter it + int ?p, di_db := sample (di_db it) k\<rparr>"
    have eq: "ParseKey_sample sample k it = ParseKey_sample sample k ?it"
      using True by (subst ParseKey_sample.simps) (simp add: RandomPeriod_eq)
    have "\<exists>it'. ParseKey_sample sample k ?it = Some it' \<and> sampled ?it it' \<and> 0 \<le> di_bytes_counter it'"
    proof (rule less.hyps)
      show "rnd_ok (di_rnd ?it)" using rnd_ok_Next less.prems by simp
      show "2 * nat (- di_bytes_counter ?it) + (if unat (Random_Next (di_rnd ?it)) mod 2097152 = 0 then 1 else 0)
          < 2 * nat (- di_bytes_counter it) + (if ?p = 0 then 1 else 0)"
        using True period_twice [OF less.prems] by (cases "?p = 0") (simp, auto)
    qed
    then show ?thesis unfolding eq by (auto simp: sampled_def)
  qed
qed

lemma ParseKey_returns:
  assumes "rnd_ok (di_rnd it)" and "ParseInternalKey (iter_key it) = Some ikey"
  obtains it' where "ParseKey sample it = Some (Some ikey, it')" and "sampled it it'"
proof -
  let ?it = "it\<lparr>di_bytes_counter := di_bytes_counter it - int (length (iter_key it) + length (iter_value it))\<rparr>"
  obtain it' where "ParseKey_sample sample (iter_key it) ?it = Some it'" "sampled ?it it'"
    using ParseKey_sample_returns [of ?it] assms(1) by auto
  then show thesis using that [of it'] assms(2) by (auto simp: ParseKey_def Let_def sampled_def)
qed

subsection \<open>What a reader sees\<close>

text \<open>
  Entry \<open>i\<close> is visible at a sequence number that is not below its own; it is shown if it is the newest visible entry of its
  user key and a value.
\<close>

definition ikey :: "entries \<Rightarrow> nat \<Rightarrow> ParsedInternalKey" where
  "ikey es i = the (ParseInternalKey (fst (es ! i)))"

definition ukey :: "entries \<Rightarrow> nat \<Rightarrow> Slice" where
  "ukey es i = ExtractUserKey (fst (es ! i))"

definition visible :: "SequenceNumber \<Rightarrow> entries \<Rightarrow> nat \<Rightarrow> bool" where
  "visible s es i \<longleftrightarrow> pik_sequence (ikey es i) \<le> s"

definition shown :: "Comparator \<Rightarrow> SequenceNumber \<Rightarrow> entries \<Rightarrow> nat \<Rightarrow> bool" where
  "shown C s es i \<longleftrightarrow> visible s es i \<and> pik_type (ikey es i) = kTypeValue
     \<and> (\<forall>j < i. visible s es j \<longrightarrow> Compare C (ukey es j) (ukey es i) \<noteq> 0)"

definition user_view :: "Comparator \<Rightarrow> SequenceNumber \<Rightarrow> entries \<Rightarrow> entries" where
  "user_view C s es = map (\<lambda>i. (ukey es i, snd (es ! i))) (filter (shown C s es) [0..<length es])"

definition db_entries :: "Comparator \<Rightarrow> entries \<Rightarrow> bool" where
  "db_entries C es \<longleftrightarrow> comparator (Compare C) \<and> entries_sorted (InternalKey_Compare C) es \<and> (\<forall>e \<in> set es. ParseInternalKey (fst e) \<noteq> None)"

lemma ikey_parse:
  assumes "db_entries C es" and "i < length es"
  shows "ParseInternalKey (fst (es ! i)) = Some (ikey es i)" and "pik_user_key (ikey es i) = ukey es i"
proof -
  show p: "ParseInternalKey (fst (es ! i)) = Some (ikey es i)" using assms by (force simp: db_entries_def ikey_def)
  have "fst (es ! i) = pik_user_key (ikey es i) @ EncodeFixed64 (PackSequenceAndType (pik_sequence (ikey es i)) (pik_type (ikey es i)))"
    using ParseInternalKey_Some [OF p] by (simp add: AppendInternalKey_eq)
  then show "pik_user_key (ikey es i) = ukey es i" unfolding ukey_def by (metis ExtractUserKey_append length_EncodeFixed64)
qed

lemma ikey_less:
  assumes "db_entries C es" and "i < j" and "j < length es"
  shows "InternalKey_Compare C (fst (es ! i)) (fst (es ! j)) < 0"
  using assms sorted_wrt_nth_less [of _ es i j] by (auto simp: db_entries_def entries_sorted_def)

lemma ukey_le:
  assumes "db_entries C es" and "i \<le> j" and "j < length es"
  shows "Compare C (ukey es i) (ukey es j) \<le> 0"
proof (cases "i = j")
  case True
  then show ?thesis using assms(1) comparator.cmp_refl [of "Compare C"] by (simp add: db_entries_def)
next
  case False
  then show ?thesis using ikey_less [OF assms(1), of i j] assms(2,3) by (auto simp: InternalKey_Compare_less ukey_def)
qed

text \<open>Entries between two of the same user key have it too.\<close>

lemma ukey_between:
  assumes e: "db_entries C es" and "i \<le> j" "j \<le> k" "k < length es" and "Compare C (ukey es i) (ukey es k) = 0"
  shows "Compare C (ukey es j) (ukey es k) = 0" and "Compare C (ukey es i) (ukey es j) = 0"
proof -
  have c: "comparator (Compare C)" using e by (simp add: db_entries_def)
  have le: "Compare C (ukey es i) (ukey es j) \<le> 0" "Compare C (ukey es j) (ukey es k) \<le> 0" using ukey_le [OF e] assms(2-4) by auto
  show "Compare C (ukey es j) (ukey es k) = 0"
    using le(2) comparator.cmp_le_less_trans [OF c le(1), of "ukey es k"] assms(5) by linarith
  show "Compare C (ukey es i) (ukey es j) = 0"
    using le(1) comparator.cmp_less_le_trans [OF c, of "ukey es i", OF _ le(2)] assms(5) by linarith
qed

text \<open>The position of an entry in the view.\<close>

definition rank :: "Comparator \<Rightarrow> SequenceNumber \<Rightarrow> entries \<Rightarrow> nat \<Rightarrow> nat" where
  "rank C s es c = length (filter (shown C s es) [0..<c])"

lemma rank_skip:
  assumes "c \<le> d" and "\<And>m. c \<le> m \<Longrightarrow> m < d \<Longrightarrow> \<not> shown C s es m"
  shows "rank C s es c = rank C s es d"
proof -
  have "[0..<d] = [0..<c] @ [c..<d]" using assms(1) by (metis le0 upt_add_eq_append le_add_diff_inverse)
  moreover have "filter (shown C s es) [c..<d] = []" using assms(2) by (simp add: filter_empty_conv)
  ultimately show ?thesis by (simp add: rank_def)
qed

lemma rank_Suc: "rank C s es (Suc i) = (if shown C s es i then Suc (rank C s es i) else rank C s es i)"
  by (simp add: rank_def)

lemma length_user_view: "length (user_view C s es) = rank C s es (length es)"
  by (simp add: user_view_def rank_def)

lemma user_view_nth:
  assumes "i < length es" and "shown C s es i"
  shows "rank C s es i < length (user_view C s es)" and "user_view C s es ! rank C s es i = (ukey es i, snd (es ! i))"
proof -
  have "[0..<length es] = [0..<i] @ i # [Suc i..<length es]" using assms(1)
    by (metis le0 less_imp_le upt_add_eq_append le_add_diff_inverse upt_conv_Cons)
  then have v: "user_view C s es = map (\<lambda>i. (ukey es i, snd (es ! i))) (filter (shown C s es) [0..<i])
      @ (ukey es i, snd (es ! i)) # map (\<lambda>i. (ukey es i, snd (es ! i))) (filter (shown C s es) [Suc i..<length es])"
    using assms(2) by (simp add: user_view_def)
  show "rank C s es i < length (user_view C s es)" by (simp add: v rank_def)
  show "user_view C s es ! rank C s es i = (ukey es i, snd (es ! i))" by (simp add: v rank_def nth_append)
qed

subsection \<open>The forward loop\<close>

definition db_core :: "Comparator \<Rightarrow> SequenceNumber \<Rightarrow> entries \<Rightarrow> ('d, 's, 'c) DBIter \<Rightarrow> nat option \<Rightarrow> bool" where
  "db_core C s es it p \<longleftrightarrow> di_user_comparator it = C \<and> di_sequence it = s \<and> di_status it = Status_OK \<and> rnd_ok (di_rnd it)
     \<and> obj_at (InternalKey_Compare C) (di_iter it) es p"

lemma db_core_simps [simp]:
  "db_core C s es (it\<lparr>di_saved_key := k\<rparr>) p = db_core C s es it p"
  "db_core C s es (it\<lparr>di_saved_value := v\<rparr>) p = db_core C s es it p"
  "db_core C s es (it\<lparr>di_direction := d\<rparr>) p = db_core C s es it p"
  "db_core C s es (it\<lparr>di_valid := b\<rparr>) p = db_core C s es it p"
  by (simp_all add: db_core_def)

lemma db_core_sampled: "sampled it it' \<Longrightarrow> db_core C s es it p \<Longrightarrow> db_core C s es it' p"
  by (auto simp: sampled_def db_core_def)

lemma sampled_fields:
  assumes "sampled it it'"
  shows "di_iter it' = di_iter it" "di_saved_key it' = di_saved_key it" "di_saved_value it' = di_saved_value it"
    "di_direction it' = di_direction it" "di_valid it' = di_valid it" "di_sequence it' = di_sequence it"
    "di_user_comparator it' = di_user_comparator it"
  using assms by (auto simp: sampled_def)

lemma db_core_at:
  assumes "db_core C s es it (Some i)"
  shows "iter_Valid it" "i < length es" "iter_key it = fst (es ! i)" "iter_value it = snd (es ! i)"
  using obj.at_valid [of "InternalKey_Compare C" "di_iter it" es "Some i"] obj.at_entry [of "InternalKey_Compare C" "di_iter it" es i] assms
  by (auto simp: db_core_def)

lemma db_core_valid: "db_core C s es it p \<Longrightarrow> iter_Valid it \<longleftrightarrow> p \<noteq> None"
  using obj.at_valid [of "InternalKey_Compare C" "di_iter it" es p] by (simp add: db_core_def)

lemma with_iter_at:
  assumes "db_core C s es it p" and "\<exists>ob. f (di_iter it) = Some ob \<and> obj_at (InternalKey_Compare C) ob es q"
  obtains it' where "with_iter f it = Some it'" and "db_core C s es it' q" and "di_saved_key it' = di_saved_key it"
    and "di_saved_value it' = di_saved_value it" and "di_direction it' = di_direction it" and "di_valid it' = di_valid it"
  using assms by (auto simp: with_iter_def db_core_def)

lemma db_core_parse:
  assumes "db_core C s es it (Some i)" and "db_entries C es"
  obtains it' where "ParseKey sample it = Some (Some (ikey es i), it')" and "sampled it it'"
  using ParseKey_returns [of it "ikey es i" sample] db_core_at [OF assms(1)] ikey_parse(1) [OF assms(2)] assms(1)
  by (auto simp: db_core_def)

text \<open>The forward state at position \<open>q\<close> of the view.\<close>

definition db_forward :: "Comparator \<Rightarrow> SequenceNumber \<Rightarrow> entries \<Rightarrow> ('d, 's, 'c) DBIter \<Rightarrow> nat \<Rightarrow> bool" where
  "db_forward C s es it q \<longleftrightarrow> di_direction it = kForward \<and>
     (if q < length (user_view C s es) then di_valid it \<and> (\<exists>i. shown C s es i \<and> rank C s es i = q \<and> db_core C s es it (Some i))
      else \<not> di_valid it \<and> (\<exists>p. db_core C s es it p))"

definition hidden_inv :: "Comparator \<Rightarrow> SequenceNumber \<Rightarrow> entries \<Rightarrow> nat \<Rightarrow> bool \<Rightarrow> bytes \<Rightarrow> bool" where
  "hidden_inv C s es c skipping skip \<longleftrightarrow> (\<forall>m. c \<le> m \<longrightarrow> m < length es \<longrightarrow> visible s es m \<longrightarrow>
     (skipping \<and> Compare C (ukey es m) skip \<le> 0) = (\<exists>j < c. visible s es j \<and> Compare C (ukey es j) (ukey es m) = 0))"

lemma hidden_inv_new:
  assumes e: "db_entries C es" and v: "visible s es c"
  shows "hidden_inv C s es (Suc c) True (ukey es c)"
  unfolding hidden_inv_def
proof (intro allI impI)
  have cmp: "comparator (Compare C)" using e by (simp add: db_entries_def)
  fix m assume m: "Suc c \<le> m" "m < length es" "visible s es m"
  have le: "Compare C (ukey es c) (ukey es m) \<le> 0" using ukey_le [OF e] m by simp
  then have "Compare C (ukey es m) (ukey es c) \<le> 0 \<longleftrightarrow> Compare C (ukey es c) (ukey es m) = 0"
    using comparator.cmp_ge_swap [OF cmp, of "ukey es c" "ukey es m"] by auto
  moreover have "Compare C (ukey es c) (ukey es m) = 0" if "j < Suc c" "Compare C (ukey es j) (ukey es m) = 0" for j
    using ukey_between(1) [OF e, of j c m] that m by simp
  ultimately show "(True \<and> Compare C (ukey es m) (ukey es c) \<le> 0)
      = (\<exists>j < Suc c. visible s es j \<and> Compare C (ukey es j) (ukey es m) = 0)" using v by auto
qed

lemma hidden_inv_step:
  assumes e: "db_entries C es" and c: "c < length es" and inv: "hidden_inv C s es c skipping skip"
  shows "\<not> visible s es c \<Longrightarrow> hidden_inv C s es (Suc c) skipping skip"
    and "visible s es c \<Longrightarrow> skipping \<Longrightarrow> Compare C (ukey es c) skip \<le> 0 \<Longrightarrow> hidden_inv C s es (Suc c) skipping skip"
proof -
  have cmp: "comparator (Compare C)" using e by (simp add: db_entries_def)
  show "hidden_inv C s es (Suc c) skipping skip" if "\<not> visible s es c"
    using inv that by (auto simp: hidden_inv_def less_Suc_eq)
  show "hidden_inv C s es (Suc c) skipping skip" if v: "visible s es c" "skipping" "Compare C (ukey es c) skip \<le> 0"
    unfolding hidden_inv_def
  proof (intro allI impI)
    fix m assume m: "Suc c \<le> m" "m < length es" "visible s es m"
    have "Compare C (ukey es m) skip \<le> 0" if "Compare C (ukey es c) (ukey es m) = 0"
      using that v(3) comparator.cmp_zero_swap [OF cmp, of "ukey es c" "ukey es m"]
        comparator.cmp_le_trans [OF cmp, of "ukey es m" "ukey es c" skip] by simp
    then show "(skipping \<and> Compare C (ukey es m) skip \<le> 0) = (\<exists>j < Suc c. visible s es j \<and> Compare C (ukey es j) (ukey es m) = 0)"
      using inv m v(2) by (auto simp: hidden_inv_def less_Suc_eq)
  qed
qed

text \<open>The loop goes on from an entry that is not accepted.\<close>

lemma FindNext_advance:
  fixes it :: "('d, 's, 'c) DBIter"
  assumes it: "db_core C s es it (Some c)" and e: "db_entries C es" and d: "di_direction it = kForward"
    and body: "\<And>it'. sampled it it' \<Longrightarrow> \<exists>it''. FindNext_body (Some (ikey es c)) skipping it' = (False, skipping', it'')
      \<and> db_core C s es it'' (Some c) \<and> di_direction it'' = kForward \<and> di_saved_key it'' = skip"
    and rest: "\<And>it' :: ('d, 's, 'c) DBIter. Suc c < length es \<Longrightarrow> db_core C s es it' (Some (Suc c)) \<Longrightarrow> di_direction it' = kForward \<Longrightarrow> di_saved_key it' = skip \<Longrightarrow>
      \<exists>it''. FindNextUserEntry sample skipping' it' = Some it'' \<and> db_forward C s es it'' q"
    and last: "Suc c = length es \<Longrightarrow> q = length (user_view C s es)"
  shows "\<exists>it'. FindNextUserEntry sample skipping it = Some it' \<and> db_forward C s es it' q"
proof -
  obtain it1 where 1: "ParseKey sample it = Some (Some (ikey es c), it1)" "sampled it it1" by (rule db_core_parse [OF it e])
  obtain it2 where 2: "FindNext_body (Some (ikey es c)) skipping it1 = (False, skipping', it2)" "db_core C s es it2 (Some c)"
    "di_direction it2 = kForward" "di_saved_key it2 = skip" using body [OF 1(2)] by blast
  have "\<exists>ob. it_Next obj_Iterator (di_iter it2) = Some ob \<and> obj_at (InternalKey_Compare C) ob es (index_in es (Suc c))"
    using obj.at_next 2(2) by (auto simp: db_core_def)
  then obtain it3 where 3: "with_iter (it_Next obj_Iterator) it2 = Some it3" "db_core C s es it3 (index_in es (Suc c))"
    "di_saved_key it3 = skip" "di_direction it3 = kForward"
    using with_iter_at [OF 2(2)] 2(3,4) by metis
  have eq: "FindNextUserEntry sample skipping it = (if iter_Valid it3 then FindNextUserEntry sample skipping' it3
      else Some (it3\<lparr>di_saved_key := [], di_valid := False\<rparr>))"
    by (subst FindNextUserEntry.simps) (simp add: 1(1) 2(1) 3(1))
  show ?thesis
  proof (cases "Suc c < length es")
    case True
    then have "db_core C s es it3 (Some (Suc c))" using 3(2) by (simp add: index_in_def)
    then show ?thesis unfolding eq using rest [OF True _ 3(4,3)] db_core_at(1) by fastforce
  next
    case False
    then have "Suc c = length es" "db_core C s es it3 None" using 3(2) db_core_at(2) [OF it] by (auto simp: index_in_def)
    then show ?thesis unfolding eq using 3(4) db_core_valid [of C s es it3 None] last
      by (auto simp: db_forward_def intro!: exI [of _ None])
  qed
qed

lemma FindNext_at:
  assumes "db_core C s es it (Some c)" and e: "db_entries C es" and "di_direction it = kForward"
    and "hidden_inv C s es c skipping (di_saved_key it)"
  shows "\<exists>it'. FindNextUserEntry sample skipping it = Some it' \<and> db_forward C s es it' (rank C s es c)"
  using assms(1,3,4)
proof (induction "length es - c" arbitrary: c it skipping)
  case 0
  then show ?case using db_core_at(2) by fastforce
next
  case (Suc n)
  note it = Suc.prems(1) and inv = Suc.prems(3)
  have c: "c < length es" by (rule db_core_at(2) [OF it])
  note key = ikey_parse(2) [OF e c]
  have core: "db_core C s es it' (Some c)" "di_sequence it' = s" "di_user_comparator it' = C"
    "di_saved_key it' = di_saved_key it" "di_direction it' = kForward" if "sampled it it'" for it'
    using db_core_sampled [OF that it] it sampled_fields [OF that] Suc.prems(2) by (auto simp: db_core_def)
  have go: "\<exists>it'. FindNextUserEntry sample skipping it = Some it' \<and> db_forward C s es it' (rank C s es c)"
    if ns: "\<not> shown C s es c" and inv': "hidden_inv C s es (Suc c) skipping' skip"
      and body: "\<And>it'. sampled it it' \<Longrightarrow> \<exists>it''. FindNext_body (Some (ikey es c)) skipping it' = (False, skipping', it'')
        \<and> db_core C s es it'' (Some c) \<and> di_direction it'' = kForward \<and> di_saved_key it'' = skip" for skipping' skip
  proof -
    have "\<exists>it'. FindNextUserEntry sample skipping it = Some it' \<and> db_forward C s es it' (rank C s es (Suc c))"
    proof (rule FindNext_advance [OF it e Suc.prems(2) body])
      fix it' :: "('a, 'b, 'c) DBIter"
      assume "db_core C s es it' (Some (Suc c))" "di_direction it' = kForward" "di_saved_key it' = skip"
      then show "\<exists>it''. FindNextUserEntry sample skipping' it' = Some it'' \<and> db_forward C s es it'' (rank C s es (Suc c))"
        using Suc.hyps inv' by (intro Suc.hyps(1)) auto
    qed (assumption, metis length_user_view)
    then show ?thesis using ns by (simp add: rank_Suc)
  qed
  show ?case
  proof (cases "visible s es c")
    case False
    show ?thesis
      by (rule go [of skipping "di_saved_key it"])
        (use False core key hidden_inv_step(1) [OF e c inv] in \<open>auto simp: shown_def FindNext_body_def visible_def\<close>)
  next
    case v: True
    show ?thesis
    proof (cases "pik_type (ikey es c)")
      case kTypeDeletion
      show ?thesis
        by (rule go [of True "ukey es c"])
          (use v core key kTypeDeletion hidden_inv_new [OF e v] in \<open>auto simp: shown_def FindNext_body_def visible_def\<close>)
    next
      case kTypeValue
      have sh: "shown C s es c \<longleftrightarrow> \<not> (skipping \<and> Compare C (ukey es c) (di_saved_key it) \<le> 0)"
        using inv c v kTypeValue by (auto simp: hidden_inv_def shown_def)
      show ?thesis
      proof (cases "shown C s es c")
        case False
        show ?thesis
          by (rule go [of skipping "di_saved_key it"])
            (use False v sh core key kTypeValue hidden_inv_step(2) [OF e c inv] in \<open>auto simp: FindNext_body_def visible_def\<close>)
      next
        case True
        obtain it1 where 1: "ParseKey sample it = Some (Some (ikey es c), it1)" "sampled it it1" by (rule db_core_parse [OF it e])
        have "FindNextUserEntry sample skipping it = Some (it1\<lparr>di_valid := True, di_saved_key := []\<rparr>)"
          using True sh v kTypeValue core [OF 1(2)] key
          by (subst FindNextUserEntry.simps) (auto simp: 1(1) FindNext_body_def visible_def)
        then show ?thesis using core [OF 1(2)] True user_view_nth(1) [OF c True] by (auto simp: db_forward_def)
      qed
    qed
  qed
qed

subsection \<open>Forward moves\<close>

text \<open>Past an entry that is shown.\<close>

lemma FindNext_past:
  assumes "db_core C s es it (Some c)" and e: "db_entries C es" and "di_direction it = kForward" and "di_saved_key it = ukey es i"
    and "c \<le> i" and i: "i < length es" and inv: "\<And>m. c \<le> m \<Longrightarrow> m < i \<Longrightarrow> \<not> visible s es m" and sh: "shown C s es i"
  shows "\<exists>it'. FindNextUserEntry sample True it = Some it' \<and> db_forward C s es it' (Suc (rank C s es i))"
  using assms(1,3,4,5) inv
proof (induction "i - c" arbitrary: c it)
  case (Suc n)
  note it = Suc.prems(1)
  have c: "c < i" using Suc.hyps(2) by simp
  then have nv: "\<not> visible s es c" using Suc.prems(5) by simp
  show ?case
  proof (rule FindNext_advance [OF it e Suc.prems(2)])
    fix it' assume "sampled it it'"
    then show "\<exists>it''. FindNext_body (Some (ikey es c)) True it' = (False, True, it'')
        \<and> db_core C s es it'' (Some c) \<and> di_direction it'' = kForward \<and> di_saved_key it'' = ukey es i"
      using nv db_core_sampled [OF _ it] sampled_fields [of it it'] Suc.prems(2,3) it
      by (auto simp: FindNext_body_def visible_def db_core_def)
  next
    fix it' :: "('a, 'b, 'c) DBIter"
    assume "db_core C s es it' (Some (Suc c))" "di_direction it' = kForward" "di_saved_key it' = ukey es i"
    then show "\<exists>it''. FindNextUserEntry sample True it' = Some it'' \<and> db_forward C s es it'' (Suc (rank C s es i))"
      using Suc.hyps Suc.prems(4,5) c by (intro Suc.hyps(1)) auto
  qed (use c i in simp)
next
  case 0
  note it = 0(2)
  have ci: "c = i" using 0 by simp
  have v: "visible s es i" "pik_type (ikey es i) = kTypeValue" using sh by (auto simp: shown_def)
  have r: "Compare C (ukey es i) (ukey es i) = 0" using e comparator.cmp_refl by (auto simp: db_entries_def)
  show ?case
  proof (rule FindNext_advance [OF it e 0(3)])
    fix it' assume "sampled it it'"
    then show "\<exists>it''. FindNext_body (Some (ikey es c)) True it' = (False, True, it'')
        \<and> db_core C s es it'' (Some c) \<and> di_direction it'' = kForward \<and> di_saved_key it'' = ukey es i"
      using v r ci db_core_sampled [OF _ it] sampled_fields [of it it'] 0(3,4) it ikey_parse(2) [OF e i]
      by (auto simp: FindNext_body_def visible_def db_core_def)
  next
    fix it' :: "('a, 'b, 'c) DBIter"
    assume "db_core C s es it' (Some (Suc c))" "di_direction it' = kForward" "di_saved_key it' = ukey es i"
    then show "\<exists>it''. FindNextUserEntry sample True it' = Some it'' \<and> db_forward C s es it'' (Suc (rank C s es i))"
      using FindNext_at [of C s es it' "Suc i" True sample] e hidden_inv_new [OF e v(1)] sh ci by (simp add: rank_Suc)
  qed (metis ci sh length_user_view rank_Suc)
qed

subsection \<open>The backward loop\<close>

text \<open>Moving backward, the internal iterator stands at the last visible entry before the one that is shown.\<close>

definition before_visible :: "SequenceNumber \<Rightarrow> entries \<Rightarrow> nat \<Rightarrow> nat option \<Rightarrow> bool" where
  "before_visible s es i p \<longleftrightarrow> (case p of
       None \<Rightarrow> \<forall>j < i. \<not> visible s es j
     | Some j \<Rightarrow> j < i \<and> visible s es j \<and> (\<forall>m. j < m \<longrightarrow> m < i \<longrightarrow> \<not> visible s es m))"

definition saved_entry :: "entries \<Rightarrow> ('d, 's, 'c) DBIter \<Rightarrow> nat \<Rightarrow> bool" where
  "saved_entry es it m \<longleftrightarrow> m < length es \<and> di_saved_key it = ukey es m \<and> di_saved_value it = snd (es ! m)"

text \<open>Before entry \<open>n - 1\<close> is looked at, when \<open>Q\<close> entries at or before the start of the loop are shown.\<close>

definition prev_inv :: "Comparator \<Rightarrow> SequenceNumber \<Rightarrow> entries \<Rightarrow> nat \<Rightarrow> ValueType \<Rightarrow> ('d, 's, 'c) DBIter \<Rightarrow> nat \<Rightarrow> bool" where
  "prev_inv C s es n t it Q \<longleftrightarrow> (case t of
       kTypeDeletion \<Rightarrow> Q = rank C s es n
     | kTypeValue \<Rightarrow> \<exists>m \<ge> n. saved_entry es it m \<and> visible s es m \<and> pik_type (ikey es m) = kTypeValue
         \<and> (\<forall>k. n \<le> k \<longrightarrow> k < m \<longrightarrow> \<not> visible s es k) \<and> Q = rank C s es (Suc m))"

definition prev_done :: "Comparator \<Rightarrow> SequenceNumber \<Rightarrow> entries \<Rightarrow> ValueType \<Rightarrow> ('d, 's, 'c) DBIter \<Rightarrow> nat \<Rightarrow> bool" where
  "prev_done C s es t it Q \<longleftrightarrow> (case t of
       kTypeDeletion \<Rightarrow> Q = 0 \<and> (\<exists>p. db_core C s es it p)
     | kTypeValue \<Rightarrow> \<exists>m p. saved_entry es it m \<and> shown C s es m \<and> Q = Suc (rank C s es m) \<and> before_visible s es m p \<and> db_core C s es it p)"

lemma saved_entry_simps: "saved_entry es it m \<Longrightarrow> di_saved_key it' = di_saved_key it \<Longrightarrow> di_saved_value it' = di_saved_value it \<Longrightarrow> saved_entry es it' m"
  by (simp add: saved_entry_def)

lemma prev_inv_cong:
  "prev_inv C s es n t it Q \<Longrightarrow> di_saved_key it' = di_saved_key it \<Longrightarrow> di_saved_value it' = di_saved_value it \<Longrightarrow> prev_inv C s es n t it' Q"
  by (cases t) (auto simp: prev_inv_def intro: saved_entry_simps)

lemma prev_inv_0: "prev_inv C s es 0 t it Q \<Longrightarrow> db_core C s es it p \<Longrightarrow> p = None \<Longrightarrow> prev_done C s es t it Q"
proof (cases t)
  case kTypeValue
  assume i: "prev_inv C s es 0 t it Q" and c: "db_core C s es it p" "p = None"
  obtain m where m: "saved_entry es it m" "visible s es m" "pik_type (ikey es m) = kTypeValue" "\<forall>k < m. \<not> visible s es k" "Q = rank C s es (Suc m)"
    using i kTypeValue by (auto simp: prev_inv_def)
  then have "shown C s es m" by (simp add: shown_def)
  then show ?thesis using m c kTypeValue
    by (auto simp: prev_done_def rank_Suc before_visible_def intro!: exI [of _ m] exI [of _ "None :: nat option"])
qed (auto simp: prev_inv_def prev_done_def rank_def)

lemma prev_inv_invisible:
  assumes "prev_inv C s es (Suc c) t it Q" and "\<not> visible s es c"
  shows "prev_inv C s es c t it Q"
proof (cases t)
  case kTypeDeletion
  then show ?thesis using assms by (simp add: prev_inv_def rank_Suc shown_def)
next
  case kTypeValue
  then obtain m where m: "Suc c \<le> m" "saved_entry es it m" "visible s es m" "pik_type (ikey es m) = kTypeValue"
    "\<forall>k. Suc c \<le> k \<longrightarrow> k < m \<longrightarrow> \<not> visible s es k" "Q = rank C s es (Suc m)" using assms(1) by (auto simp: prev_inv_def)
  have "\<forall>k. c \<le> k \<longrightarrow> k < m \<longrightarrow> \<not> visible s es k" using m(5) assms(2) by (metis Suc_leI le_neq_implies_less)
  then show ?thesis using m kTypeValue by (auto simp: prev_inv_def intro!: exI [of _ m])
qed

lemma prev_inv_break:
  assumes e: "db_entries C es" and "prev_inv C s es (Suc c) kTypeValue it Q" and v: "visible s es c" and it: "db_core C s es it (Some c)"
    and less: "Compare C (ukey es c) (di_saved_key it) < 0"
  shows "prev_done C s es kTypeValue it Q"
proof -
  have cmp: "comparator (Compare C)" using e by (simp add: db_entries_def)
  obtain m where m: "Suc c \<le> m" "saved_entry es it m" "visible s es m" "pik_type (ikey es m) = kTypeValue"
    "\<forall>k. Suc c \<le> k \<longrightarrow> k < m \<longrightarrow> \<not> visible s es k" "Q = rank C s es (Suc m)" using assms(2) by (auto simp: prev_inv_def)
  have ml: "m < length es" and lt: "Compare C (ukey es c) (ukey es m) < 0" using m(2) less by (auto simp: saved_entry_def)
  have "Compare C (ukey es j) (ukey es m) \<noteq> 0" if j: "j < m" "visible s es j" for j
  proof -
    have "j \<le> c" using j m(5) by (metis not_less_eq_eq)
    then have "Compare C (ukey es j) (ukey es c) \<le> 0" using ukey_le [OF e] m(1) ml by simp
    from comparator.cmp_le_less_trans [OF cmp this lt] show ?thesis by simp
  qed
  then have "shown C s es m" using m by (simp add: shown_def)
  moreover have "before_visible s es m (Some c)" using m v by (simp add: before_visible_def)
  ultimately show ?thesis using m it by (auto simp: prev_done_def rank_Suc)
qed

text \<open>A visible entry that does not end the loop: nothing after it and up to the start is shown.\<close>

lemma prev_inv_rank:
  assumes e: "db_entries C es" and inv: "prev_inv C s es (Suc c) t it Q" and v: "visible s es c"
    and go: "t = kTypeValue \<Longrightarrow> \<not> Compare C (ukey es c) (di_saved_key it) < 0"
  shows "Q = rank C s es (Suc c)"
proof (cases t)
  case kTypeDeletion
  then show ?thesis using inv by (simp add: prev_inv_def)
next
  case kTypeValue
  then obtain m where m: "Suc c \<le> m" "saved_entry es it m" "\<forall>k. Suc c \<le> k \<longrightarrow> k < m \<longrightarrow> \<not> visible s es k" "Q = rank C s es (Suc m)"
    using inv by (auto simp: prev_inv_def)
  have "Compare C (ukey es c) (ukey es m) = 0"
    using go [OF kTypeValue] ukey_le [OF e, of c m] m(1,2) by (auto simp: saved_entry_def)
  then have "\<not> shown C s es m" using v m(1) by (auto simp: shown_def Suc_le_eq)
  then have "\<not> shown C s es k" if "Suc c \<le> k" "k < Suc m" for k using that m(3) by (auto simp: shown_def less_Suc_eq)
  from rank_skip [OF _ this] show ?thesis using m(1,4) by (metis le_SucI)
qed

lemma FindPrev_step:
  assumes it: "db_core C s es it (Some c)" and e: "db_entries C es" and inv: "prev_inv C s es (Suc c) t it Q"
  shows "(\<exists>it'. FindPrev_loop sample t it = Some (kTypeValue, it') \<and> prev_done C s es kTypeValue it' Q \<and> di_direction it' = di_direction it)
    \<or> (\<exists>t' it'. FindPrev_loop sample t it = Option.bind (with_iter (it_Prev obj_Iterator) it')
          (\<lambda>it. if iter_Valid it then FindPrev_loop sample t' it else Some (t', it))
        \<and> prev_inv C s es c t' it' Q \<and> db_core C s es it' (Some c) \<and> di_direction it' = di_direction it)"
proof -
  obtain it1 where 1: "ParseKey sample it = Some (Some (ikey es c), it1)" "sampled it it1" by (rule db_core_parse [OF it e])
  have core: "db_core C s es it1 (Some c)" by (rule db_core_sampled [OF 1(2) it])
  have f: "di_sequence it1 = s" "di_user_comparator it1 = C" using core by (auto simp: db_core_def)
  note at = db_core_at [OF core] and key = ikey_parse(2) [OF e db_core_at(2) [OF it]]
  have inv1: "prev_inv C s es (Suc c) t it1 Q" by (rule prev_inv_cong [OF inv]) (use sampled_fields [OF 1(2)] in simp_all)
  have d: "di_direction it1 = di_direction it" using sampled_fields [OF 1(2)] by simp
  have go: "FindPrev_loop sample t it = Option.bind (with_iter (it_Prev obj_Iterator) it2)
      (\<lambda>it. if iter_Valid it then FindPrev_loop sample t' it else Some (t', it))"
    if "FindPrev_body (Some (ikey es c)) t it1 = (False, t', it2)" for t' it2
    using that by (subst FindPrev_loop.simps) (simp add: 1(1))
  show ?thesis
  proof (cases "visible s es c")
    case False
    then have "FindPrev_body (Some (ikey es c)) t it1 = (False, t, it1)" by (simp add: FindPrev_body_def f visible_def)
    then show ?thesis using go prev_inv_invisible [OF inv1 False] core d by blast
  next
    case v: True
    show ?thesis
    proof (cases "t \<noteq> kTypeDeletion \<and> Compare C (ukey es c) (di_saved_key it1) < 0")
      case True
      then have t: "t = kTypeValue" by (cases t) auto
      have "FindPrev_body (Some (ikey es c)) t it1 = (True, t, it1)" using True v by (simp add: FindPrev_body_def f visible_def key)
      then have "FindPrev_loop sample t it = Some (kTypeValue, it1)" by (subst FindPrev_loop.simps) (simp add: 1(1) t)
      then show ?thesis using prev_inv_break [OF e inv1 [unfolded t] v core] True d by blast
    next
      case False
      have Q: "Q = rank C s es (Suc c)" by (rule prev_inv_rank [OF e inv1 v]) (use False in auto)
      show ?thesis
      proof (cases "pik_type (ikey es c)")
        case kTypeDeletion
        let ?it = "it1\<lparr>di_saved_key := [], di_saved_value := []\<rparr>"
        have "FindPrev_body (Some (ikey es c)) t it1 = (False, kTypeDeletion, ?it)"
          using False v kTypeDeletion by (auto simp: FindPrev_body_def f visible_def key)
        moreover have "prev_inv C s es c kTypeDeletion ?it Q" using Q kTypeDeletion by (simp add: prev_inv_def rank_Suc shown_def)
        moreover have "db_core C s es ?it (Some c)" "di_direction ?it = di_direction it" using core d by simp_all
        ultimately show ?thesis using go by blast
      next
        case kTypeValue
        let ?it = "it1\<lparr>di_saved_key := ExtractUserKey (iter_key it1), di_saved_value := iter_value it1\<rparr>"
        have "FindPrev_body (Some (ikey es c)) t it1 = (False, kTypeValue, ?it)"
          using False v kTypeValue by (auto simp: FindPrev_body_def f visible_def key)
        moreover have "prev_inv C s es c kTypeValue ?it Q"
          using Q kTypeValue v at by (auto simp: prev_inv_def saved_entry_def ukey_def intro!: exI [of _ c])
        moreover have "db_core C s es ?it (Some c)" "di_direction ?it = di_direction it" using core d by simp_all
        ultimately show ?thesis using go by blast
      qed
    qed
  qed
qed

lemma FindPrev_loop_at:
  assumes "db_core C s es it (Some c)" and e: "db_entries C es" and "prev_inv C s es (Suc c) t it Q"
  shows "\<exists>t' it'. FindPrev_loop sample t it = Some (t', it') \<and> prev_done C s es t' it' Q \<and> di_direction it' = di_direction it"
  using assms(1,3)
proof (induction c arbitrary: it t rule: less_induct)
  case (less c)
  note it = less.prems(1)
  from FindPrev_step [OF it e less.prems(2), of sample] show ?case
  proof (elim disjE exE conjE)
    fix t' it1
    assume eq: "FindPrev_loop sample t it = Option.bind (with_iter (it_Prev obj_Iterator) it1)
          (\<lambda>it. if iter_Valid it then FindPrev_loop sample t' it else Some (t', it))"
      and inv: "prev_inv C s es c t' it1 Q" and core: "db_core C s es it1 (Some c)" and d: "di_direction it1 = di_direction it"
    have "\<exists>ob. it_Prev obj_Iterator (di_iter it1) = Some ob \<and> obj_at (InternalKey_Compare C) ob es (index_before c)"
      using obj.at_prev core by (auto simp: db_core_def)
    then obtain it2 where 2: "with_iter (it_Prev obj_Iterator) it1 = Some it2" "db_core C s es it2 (index_before c)"
      "di_saved_key it2 = di_saved_key it1" "di_saved_value it2 = di_saved_value it1" "di_direction it2 = di_direction it1"
      using with_iter_at [OF core] by metis
    note inv2 = prev_inv_cong [OF inv 2(3,4)]
    show ?thesis
    proof (cases c)
      case 0
      then show ?thesis using eq 2 inv2 db_core_valid [OF 2(2)] prev_inv_0 [of C s es t' it2 Q] d by (auto simp: index_before_def)
    next
      case (Suc b)
      then have b: "db_core C s es it2 (Some b)" using 2(2) by (simp add: index_before_def)
      from less.IH [of b, OF _ b] inv2 show ?thesis using eq 2(1,5) db_core_at(1) [OF b] Suc d by simp
    qed
  qed blast
qed

text \<open>The backward state at position \<open>q\<close> of the view, and the states a client meets.\<close>

definition db_reverse :: "Comparator \<Rightarrow> SequenceNumber \<Rightarrow> entries \<Rightarrow> ('d, 's, 'c) DBIter \<Rightarrow> nat \<Rightarrow> bool" where
  "db_reverse C s es it q \<longleftrightarrow> di_direction it = kReverse \<and> di_valid it
     \<and> (\<exists>i p. saved_entry es it i \<and> shown C s es i \<and> rank C s es i = q \<and> before_visible s es i p \<and> db_core C s es it p)"

definition db_state :: "Comparator \<Rightarrow> SequenceNumber \<Rightarrow> entries \<Rightarrow> ('d, 's, 'c) DBIter \<Rightarrow> nat option \<Rightarrow> bool" where
  "db_state C s es it p \<longleftrightarrow> db_entries C es \<and> (case p of
       None \<Rightarrow> \<not> di_valid it \<and> (\<exists>p. db_core C s es it p)
     | Some q \<Rightarrow> q < length (user_view C s es) \<and> (db_forward C s es it q \<or> db_reverse C s es it q))"

lemma db_state_forward: "db_entries C es \<Longrightarrow> db_forward C s es it q \<Longrightarrow> db_state C s es it (index_in (user_view C s es) q)"
  by (auto simp: db_state_def db_forward_def index_in_def)

lemma FindPrevUserEntry_at:
  assumes it: "db_core C s es it p" and e: "db_entries C es" and d: "di_direction it = kReverse"
    and Q: "Q = (case p of None \<Rightarrow> 0 | Some c \<Rightarrow> rank C s es (Suc c))"
  shows "\<exists>it'. FindPrevUserEntry sample it = Some it' \<and> db_state C s es it' (index_before Q)"
proof -
  have "\<exists>t it'. (if iter_Valid it then FindPrev_loop sample kTypeDeletion it else Some (kTypeDeletion, it)) = Some (t, it')
      \<and> prev_done C s es t it' Q \<and> di_direction it' = kReverse"
  proof (cases p)
    case None
    then show ?thesis using it db_core_valid [OF it] Q d by (auto simp: prev_done_def)
  next
    case (Some c)
    then have c: "db_core C s es it (Some c)" using it by simp
    show ?thesis using FindPrev_loop_at [OF c e, of kTypeDeletion Q sample] db_core_at(1) [OF c] Q Some d by (auto simp: prev_inv_def)
  qed
  then obtain t it' where l: "(if iter_Valid it then FindPrev_loop sample kTypeDeletion it else Some (kTypeDeletion, it)) = Some (t, it')"
    and dn: "prev_done C s es t it' Q" "di_direction it' = kReverse" by blast
  show ?thesis
  proof (cases t)
    case kTypeDeletion
    then show ?thesis using l dn e by (auto simp: FindPrevUserEntry_def db_state_def prev_done_def index_before_def)
  next
    case kTypeValue
    obtain m p where m: "saved_entry es it' m" "shown C s es m" "Q = Suc (rank C s es m)" "before_visible s es m p" "db_core C s es it' p"
      using dn(1) kTypeValue by (auto simp: prev_done_def)
    have "FindPrevUserEntry sample it = Some (it'\<lparr>di_valid := True\<rparr>)" using l kTypeValue by (simp add: FindPrevUserEntry_def)
    moreover have "saved_entry es (it'\<lparr>di_valid := True\<rparr>) m" using m(1) by (simp add: saved_entry_def)
    moreover have "m < length es" using m(1) by (simp add: saved_entry_def)
    ultimately show ?thesis using m dn(2) e user_view_nth(1) [of m es C s]
      by (auto simp: db_state_def index_before_def db_reverse_def)
  qed
qed

subsection \<open>The moves\<close>

lemma db_core_of_state: "db_state C s es it p \<Longrightarrow> \<exists>p. db_core C s es it p"
  by (auto simp: db_state_def db_forward_def db_reverse_def split: option.splits if_splits)

lemma hidden_inv_start: "(\<And>j m. j < c \<Longrightarrow> c \<le> m \<Longrightarrow> m < length es \<Longrightarrow> visible s es j \<Longrightarrow> Compare C (ukey es j) (ukey es m) \<noteq> 0) \<Longrightarrow>
    hidden_inv C s es c False skip"
  by (auto simp: hidden_inv_def)

text \<open>What \<^verbatim>\<open>Seek\<close> and \<^verbatim>\<open>SeekToFirst\<close> do after the internal iterator was placed at \<open>c\<close>.\<close>

lemma forward_from:
  assumes it: "db_core C s es it (index_in es c)" and e: "db_entries C es" and d: "di_direction it = kForward" and c: "c \<le> length es"
    and start: "\<And>j m. j < c \<Longrightarrow> c \<le> m \<Longrightarrow> m < length es \<Longrightarrow> visible s es j \<Longrightarrow> Compare C (ukey es j) (ukey es m) \<noteq> 0"
  shows "\<exists>it'. (if iter_Valid it then FindNextUserEntry sample False it else Some (it\<lparr>di_valid := False\<rparr>)) = Some it'
    \<and> db_state C s es it' (index_in (user_view C s es) (rank C s es c))"
proof (cases "c < length es")
  case True
  then have it: "db_core C s es it (Some c)" using it by (simp add: index_in_def)
  from FindNext_at [OF it e d hidden_inv_start [OF start]] show ?thesis using db_state_forward [OF e] db_core_at(1) [OF it] by fastforce
next
  case False
  then have "c = length es" "db_core C s es it None" using it c by (auto simp: index_in_def)
  then show ?thesis using db_core_valid [of C s es it None] e by (auto simp: db_state_def index_in_def length_user_view)
qed

lemma DBIter_SeekToFirst_at:
  assumes "db_state C s es it p"
  shows "\<exists>it'. DBIter_SeekToFirst sample it = Some it' \<and> db_state C s es it' (index_in (user_view C s es) 0)"
proof -
  have e: "db_entries C es" using assms by (simp add: db_state_def)
  obtain p where "db_core C s es it p" using db_core_of_state [OF assms] by blast
  then have core: "db_core C s es (it\<lparr>di_direction := kForward, di_saved_value := []\<rparr>) p" by simp
  have "\<exists>ob. it_SeekToFirst obj_Iterator (di_iter (it\<lparr>di_direction := kForward, di_saved_value := []\<rparr>)) = Some ob
      \<and> obj_at (InternalKey_Compare C) ob es (index_in es 0)" using obj.at_first core by (auto simp: db_core_def)
  from with_iter_at [where f = "it_SeekToFirst obj_Iterator", OF core this] obtain it1 where
    1: "with_iter (it_SeekToFirst obj_Iterator) (it\<lparr>di_direction := kForward, di_saved_value := []\<rparr>) = Some it1"
    "db_core C s es it1 (index_in es 0)" "di_direction it1 = kForward" by auto
  from forward_from [OF 1(2) e 1(3), of sample] show ?thesis by (simp add: DBIter_SeekToFirst_def 1(1) rank_def)
qed

text \<open>Seeking the user key at the sequence number finds the place between the hidden and the visible entries.\<close>

lemma ikey_tag:
  assumes "db_entries C es" and "i < length es"
  shows "ExtractTag (fst (es ! i)) = PackSequenceAndType (pik_sequence (ikey es i)) (pik_type (ikey es i))"
    and "pik_sequence (ikey es i) \<le> kMaxSequenceNumber"
  using parsed_key [OF ikey_parse(1) [OF assms]] by simp_all

abbreviation seek_key :: "Slice \<Rightarrow> SequenceNumber \<Rightarrow> bytes" where
  "seek_key k s \<equiv> AppendInternalKey [] \<lparr>pik_user_key = k, pik_sequence = s, pik_type = kValueTypeForSeek\<rparr>"

lemma visible_below_seek:
  assumes e: "db_entries C es" and i: "i < length es" and s: "s \<le> kMaxSequenceNumber" and v: "visible s es i"
  shows "InternalKey_Compare C (fst (es ! i)) (seek_key k s) < 0 \<longleftrightarrow> Compare C (ukey es i) k < 0"
proof -
  have "unat (ExtractTag (fst (es ! i))) \<le> unat (PackSequenceAndType s kTypeValue)"
    using ikey_tag [OF e i] v s unat_Pack by (cases "pik_type (ikey es i)") (auto simp: visible_def word_le_nat_alt)
  then have "\<not> PackSequenceAndType s kTypeValue < ExtractTag (fst (es ! i))" by (simp add: word_less_nat_alt)
  then show ?thesis by (simp add: InternalKey_Compare_less AppendInternalKey_eq ukey_def kValueTypeForSeek_def)
qed

lemma below_seek: "Compare C (ukey es i) k < 0 \<Longrightarrow> InternalKey_Compare C (fst (es ! i)) (seek_key k s) < 0"
  by (simp add: InternalKey_Compare_less AppendInternalKey_eq ukey_def)

lemma seek_rank:
  fixes k :: Slice
  assumes e: "db_entries C es" and ic: "comparator (InternalKey_Compare C)" and s: "s \<le> kMaxSequenceNumber"
  defines "c \<equiv> lower_bound (InternalKey_Compare C) es (seek_key k s)"
  shows "rank C s es c = lower_bound (Compare C) (user_view C s es) k"
    and "j < c \<Longrightarrow> c \<le> m \<Longrightarrow> m < length es \<Longrightarrow> visible s es j \<Longrightarrow> Compare C (ukey es j) (ukey es m) \<noteq> 0"
proof -
  have cmp: "comparator (Compare C)" and so: "entries_sorted (InternalKey_Compare C) es" using e by (auto simp: db_entries_def)
  have cl: "c \<le> length es" by (simp add: c_def lower_bound_def length_takeWhile_le)
  note lb = lower_bound_split [OF so ic, where k = "seek_key k s", folded c_def]
  have lt: "Compare C (ukey es j) k < 0" if "j < c" "visible s es j" for j
    using visible_below_seek [OF e _ s that(2)] lb(1) that(1) cl by fastforce
  have ge: "\<not> Compare C (ukey es m) k < 0" if "c \<le> m" "m < length es" for m
    using lb(2) [OF that] below_seek [of C es m k s] by blast
  let ?f = "\<lambda>i. (ukey es i, snd (es ! i))" and ?P = "\<lambda>x. Compare C (fst x) k < 0"
  have "[0..<length es] = [0..<c] @ [c..<length es]" using cl by (metis le0 upt_add_eq_append le_add_diff_inverse)
  then have "user_view C s es = map ?f (filter (shown C s es) [0..<c]) @ map ?f (filter (shown C s es) [c..<length es])"
    by (simp add: user_view_def)
  moreover have "takeWhile ?P (map ?f (filter (shown C s es) [c..<length es])) = []"
    unfolding takeWhile_eq_Nil_iff using ge hd_in_set [of "filter (shown C s es) [c..<length es]"] by (auto simp: hd_map)
  moreover have "takeWhile ?P (map ?f (filter (shown C s es) [0..<c]) @ ys) = map ?f (filter (shown C s es) [0..<c]) @ takeWhile ?P ys" for ys
    using lt by (intro takeWhile_append2) (auto simp: shown_def)
  ultimately show "rank C s es c = lower_bound (Compare C) (user_view C s es) k" by (simp add: lower_bound_def rank_def)
  show "Compare C (ukey es j) (ukey es m) \<noteq> 0" if "j < c" "c \<le> m" "m < length es" "visible s es j"
    using lt [OF that(1,4)] ge [OF that(2,3)] comparator.cmp_zero_left [OF cmp] by blast
qed

lemma DBIter_Seek_at:
  assumes st: "db_state C s es it p" and s: "s \<le> kMaxSequenceNumber" and ic: "comparator (InternalKey_Compare C)" and k: "key_fits (seek_key k s)"
  shows "\<exists>it'. DBIter_Seek sample it k = Some it' \<and> db_state C s es it' (index_in (user_view C s es) (lower_bound (Compare C) (user_view C s es) k))"
proof -
  have e: "db_entries C es" using st by (simp add: db_state_def)
  obtain p where p: "db_core C s es it p" using db_core_of_state [OF st] by blast
  let ?it = "it\<lparr>di_direction := kForward, di_saved_value := [], di_saved_key := seek_key k s\<rparr>"
  let ?c = "lower_bound (InternalKey_Compare C) es (seek_key k s)"
  have core: "db_core C s es ?it p" and sq: "di_sequence it = s" using p by (auto simp: db_core_def)
  have "\<exists>ob. (\<lambda>ob. it_Seek obj_Iterator ob (di_saved_key ?it)) (di_iter ?it) = Some ob \<and> obj_at (InternalKey_Compare C) ob es (index_in es ?c)"
    using obj.at_seek [OF _ k] core by (auto simp: db_core_def)
  from with_iter_at [where f = "\<lambda>ob. it_Seek obj_Iterator ob (di_saved_key ?it)", OF core this] obtain it1 where
    1: "with_iter (\<lambda>ob. it_Seek obj_Iterator ob (di_saved_key ?it)) ?it = Some it1" "db_core C s es it1 (index_in es ?c)" "di_direction it1 = kForward"
    by auto
  have "?c \<le> length es" by (simp add: lower_bound_def length_takeWhile_le)
  from forward_from [OF 1(2) e 1(3) this seek_rank(2) [OF e ic s], where sample = sample] show ?thesis
    using 1(1) by (simp add: DBIter_Seek_def Let_def sq seek_rank(1) [OF e ic s])
qed

lemma DBIter_Next_at:
  assumes st: "db_state C s es it (Some q)"
  shows "\<exists>it'. DBIter_Next sample it = Some it' \<and> db_state C s es it' (index_in (user_view C s es) (Suc q))"
proof -
  have e: "db_entries C es" and q: "q < length (user_view C s es)" using st by (auto simp: db_state_def)
  have finish: ?thesis
    if eq: "DBIter_Next sample it = FindNextUserEntry sample True it1" and "db_core C s es it1 (Some c)" "di_direction it1 = kForward"
      "di_saved_key it1 = ukey es i" "c \<le> i" "i < length es" "\<And>m. c \<le> m \<Longrightarrow> m < i \<Longrightarrow> \<not> visible s es m"
      "shown C s es i" "rank C s es i = q" for it1 c i
    using FindNext_past [OF that(2) e that(3-8), of sample] that(9) db_state_forward [OF e] eq by fastforce
  from st consider (fwd) "db_forward C s es it q" | (rev) "db_reverse C s es it q" by (auto simp: db_state_def)
  then show ?thesis
  proof cases
    case fwd
    then obtain i where i: "shown C s es i" "rank C s es i = q" "db_core C s es it (Some i)" "di_direction it = kForward"
      using q by (auto simp: db_forward_def)
    let ?it = "it\<lparr>di_saved_key := ExtractUserKey (iter_key it)\<rparr>"
    show ?thesis by (rule finish [of ?it i i]) (use i db_core_at [OF i(3)] in \<open>auto simp: DBIter_Next_def ukey_def\<close>)
  next
    case rev
    then obtain i p where i: "saved_entry es it i" "shown C s es i" "rank C s es i = q" "before_visible s es i p" "db_core C s es it p"
      and d: "di_direction it = kReverse" by (auto simp: db_reverse_def)
    define c where "c = (case p of None \<Rightarrow> 0 | Some j \<Rightarrow> Suc j)"
    have c: "c \<le> i" "i < length es" "\<And>m. c \<le> m \<Longrightarrow> m < i \<Longrightarrow> \<not> visible s es m"
      using i(1,4) by (auto simp: c_def before_visible_def saved_entry_def split: option.splits)
    let ?f = "if iter_Valid it then it_Next obj_Iterator else it_SeekToFirst obj_Iterator" and ?it = "it\<lparr>di_direction := kForward\<rparr>"
    have core: "db_core C s es ?it p" using i(5) by simp
    have "\<exists>ob. ?f (di_iter ?it) = Some ob \<and> obj_at (InternalKey_Compare C) ob es (index_in es c)"
      using i(5) obj.at_next obj.at_first db_core_valid [OF i(5)] by (cases p) (auto simp: db_core_def c_def)
    from with_iter_at [where f = ?f, OF core this] obtain it1 where 1: "with_iter ?f ?it = Some it1" "db_core C s es it1 (index_in es c)"
      "di_saved_key it1 = di_saved_key it" "di_direction it1 = kForward" by auto
    have core1: "db_core C s es it1 (Some c)" using 1(2) c by (simp add: index_in_def)
    show ?thesis
      by (rule finish [of it1 c i])
        (use 1 d c i(1-3) core1 db_core_at(1) [OF core1] in \<open>auto simp: DBIter_Next_def saved_entry_def\<close>)
  qed
qed

lemma Prev_scan_at:
  assumes "db_core C s es it (Some a)"
  shows "\<exists>found it'. Prev_scan it = Some (found, it') \<and> di_direction it' = di_direction it \<and> (if found
      then \<exists>b < a. db_core C s es it' (Some b) \<and> (\<forall>m. b < m \<longrightarrow> m < a \<longrightarrow> \<not> Compare C (ukey es m) (di_saved_key it) < 0)
      else (\<exists>p. db_core C s es it' p) \<and> (\<forall>m < a. \<not> Compare C (ukey es m) (di_saved_key it) < 0))"
  using assms
proof (induction a arbitrary: it rule: less_induct)
  case (less a)
  note it = less.prems
  have "\<exists>ob. it_Prev obj_Iterator (di_iter it) = Some ob \<and> obj_at (InternalKey_Compare C) ob es (index_before a)"
    using obj.at_prev it by (auto simp: db_core_def)
  from with_iter_at [where f = "it_Prev obj_Iterator", OF it this] obtain it1 where 1: "with_iter (it_Prev obj_Iterator) it = Some it1"
    "db_core C s es it1 (index_before a)" "di_saved_key it1 = di_saved_key it" "di_direction it1 = di_direction it" by auto
  have eq: "Prev_scan it = (if \<not> iter_Valid it1 then Some (False, it1)
       else if Compare (di_user_comparator it1) (ExtractUserKey (iter_key it1)) (di_saved_key it1) < 0 then Some (True, it1)
       else Prev_scan it1)" by (subst Prev_scan.simps) (simp add: 1(1))
  show ?case
  proof (cases a)
    case 0
    then show ?thesis using 1 db_core_valid [OF 1(2)] eq by (auto simp: index_before_def)
  next
    case (Suc b)
    then have b: "db_core C s es it1 (Some b)" using 1(2) by (simp add: index_before_def)
    have cmp: "Compare (di_user_comparator it1) (ExtractUserKey (iter_key it1)) (di_saved_key it1) = Compare C (ukey es b) (di_saved_key it)"
      using b db_core_at(3) [OF b] 1(3) by (simp add: db_core_def ukey_def)
    show ?thesis
    proof (cases "Compare C (ukey es b) (di_saved_key it) < 0")
      case True
      then have "Prev_scan it = Some (True, it1)" using eq cmp db_core_at(1) [OF b] by simp
      then show ?thesis using b Suc 1(4) by (intro exI [of _ True] exI [of _ it1]) (auto intro!: exI [of _ b])
    next
      case False
      have *: "Prev_scan it = Prev_scan it1" using eq cmp False db_core_at(1) [OF b] by simp
      obtain found it' where r: "Prev_scan it1 = Some (found, it')" "di_direction it' = di_direction it1" "if found
          then \<exists>c < b. db_core C s es it' (Some c) \<and> (\<forall>m. c < m \<longrightarrow> m < b \<longrightarrow> \<not> Compare C (ukey es m) (di_saved_key it1) < 0)
          else (\<exists>p. db_core C s es it' p) \<and> (\<forall>m < b. \<not> Compare C (ukey es m) (di_saved_key it1) < 0)"
        using less.IH [OF lessI [of b, folded Suc] b] by (elim exE conjE) (rule that)
      have more: "\<not> Compare C (ukey es m) (di_saved_key it) < 0" if "m < a" "m < b \<Longrightarrow> \<not> Compare C (ukey es m) (di_saved_key it) < 0" for m
        using that False Suc by (cases "m = b") auto
      show ?thesis
      proof (cases found)
        case True
        then show ?thesis unfolding * using r more Suc 1(3,4) by (intro exI [of _ found] exI [of _ it']) (simp, metis less_SucI)
      next
        case no: False
        then show ?thesis unfolding * using r more 1(3,4) by (intro exI [of _ found] exI [of _ it']) simp
      qed
    qed
  qed
qed

lemma DBIter_Prev_at:
  assumes st: "db_state C s es it (Some q)"
  shows "\<exists>it'. DBIter_Prev sample it = Some it' \<and> db_state C s es it' (index_before q)"
proof -
  have e: "db_entries C es" and q: "q < length (user_view C s es)" using st by (auto simp: db_state_def)
  from st consider (fwd) "db_forward C s es it q" | (rev) "db_reverse C s es it q" by (auto simp: db_state_def)
  then show ?thesis
  proof cases
    case fwd
    then obtain i where i: "shown C s es i" "rank C s es i = q" "db_core C s es it (Some i)" "di_direction it = kForward"
      using q by (auto simp: db_forward_def)
    let ?it = "it\<lparr>di_saved_key := ExtractUserKey (iter_key it)\<rparr>"
    have key: "di_saved_key ?it = ukey es i" and core: "db_core C s es ?it (Some i)" using i(3) db_core_at(3) [OF i(3)] by (auto simp: ukey_def)
    have ns: "\<not> shown C s es m" if "m < i" "\<not> Compare C (ukey es m) (ukey es i) < 0" for m
      using i(1) that ukey_le [OF e, of m i] db_core_at(2) [OF i(3)] by (auto simp: shown_def)
    obtain found it' where r: "Prev_scan ?it = Some (found, it')" "if found
        then \<exists>b < i. db_core C s es it' (Some b) \<and> (\<forall>m. b < m \<longrightarrow> m < i \<longrightarrow> \<not> Compare C (ukey es m) (ukey es i) < 0)
        else (\<exists>p. db_core C s es it' p) \<and> (\<forall>m < i. \<not> Compare C (ukey es m) (ukey es i) < 0)"
      using Prev_scan_at [OF core] unfolding key by blast
    show ?thesis
    proof (cases found)
      case True
      then obtain b where b: "b < i" "db_core C s es it' (Some b)" "\<And>m. b < m \<Longrightarrow> m < i \<Longrightarrow> \<not> Compare C (ukey es m) (ukey es i) < 0"
        using r(2) by auto
      have "rank C s es (Suc b) = q" using rank_skip [of "Suc b" i C s es] b ns i(2) by (simp add: Suc_le_eq)
      then show ?thesis
        using FindPrevUserEntry_at [of C s es "it'\<lparr>di_direction := kReverse\<rparr>" "Some b" q sample] b(2) e i(4) r(1) True
        by (simp add: DBIter_Prev_def)
    next
      case False
      then have "rank C s es 0 = q" using rank_skip [of 0 i C s es] ns i(2) r(2) by simp
      then have "q = 0" by (simp add: rank_def)
      then show ?thesis using r False i(4) e by (auto simp: DBIter_Prev_def db_state_def index_before_def)
    qed
  next
    case rev
    then obtain i p where i: "shown C s es i" "rank C s es i = q" "before_visible s es i p" "db_core C s es it p" "di_direction it = kReverse"
      by (auto simp: db_reverse_def)
    have "q = (case p of None \<Rightarrow> 0 | Some c \<Rightarrow> rank C s es (Suc c))"
    proof (cases p)
      case None
      then show ?thesis using i(2,3) rank_skip [of 0 i C s es] by (simp add: before_visible_def shown_def rank_def)
    next
      case (Some j)
      then show ?thesis using i(2,3) rank_skip [of "Suc j" i C s es] by (simp add: before_visible_def shown_def Suc_le_eq)
    qed
    from FindPrevUserEntry_at [OF i(4) e i(5) this, of sample] show ?thesis using i(5) by (simp add: DBIter_Prev_def)
  qed
qed

lemma DBIter_SeekToLast_at:
  assumes "db_state C s es it p"
  shows "\<exists>it'. DBIter_SeekToLast sample it = Some it' \<and> db_state C s es it' (index_before (length (user_view C s es)))"
proof -
  have e: "db_entries C es" using assms by (simp add: db_state_def)
  let ?it = "it\<lparr>di_direction := kReverse, di_saved_value := []\<rparr>"
  obtain p where "db_core C s es it p" using db_core_of_state [OF assms] by blast
  then have core: "db_core C s es ?it p" by simp
  have "\<exists>ob. it_SeekToLast obj_Iterator (di_iter ?it) = Some ob \<and> obj_at (InternalKey_Compare C) ob es (index_before (length es))"
    using obj.at_last core by (auto simp: db_core_def)
  from with_iter_at [where f = "it_SeekToLast obj_Iterator", OF core this] obtain it1 where
    1: "with_iter (it_SeekToLast obj_Iterator) ?it = Some it1" "db_core C s es it1 (index_before (length es))" "di_direction it1 = kReverse" by auto
  have "length (user_view C s es) = (case index_before (length es) of None \<Rightarrow> 0 | Some c \<Rightarrow> rank C s es (Suc c))"
    by (cases "length es") (auto simp: length_user_view index_before_def rank_def)
  from FindPrevUserEntry_at [OF 1(2) e 1(3) this, of sample] show ?thesis by (simp add: DBIter_SeekToLast_def 1(1))
qed

subsection \<open>The contract\<close>

text \<open>An iterator over the view of the entries \<open>es\<close> at its sequence number.\<close>

definition db_at :: "Comparator \<Rightarrow> SequenceNumber \<Rightarrow> ('d, 's, 'c) DBIter \<Rightarrow> entries \<Rightarrow> nat option \<Rightarrow> bool" where
  "db_at C s it us p \<longleftrightarrow> s \<le> kMaxSequenceNumber \<and> comparator (InternalKey_Compare C) \<and> (\<exists>es. us = user_view C s es \<and> db_state C s es it p)"

lemma db_state_reads:
  assumes "db_state C s es it (Some q)"
  shows "user_view C s es ! q = (DBIter_key it, DBIter_value it)"
proof -
  from assms consider (fwd) "db_forward C s es it q" "q < length (user_view C s es)" | (rev) "db_reverse C s es it q" by (auto simp: db_state_def)
  then show ?thesis
  proof cases
    case fwd
    then obtain i where i: "shown C s es i" "rank C s es i = q" "db_core C s es it (Some i)" "di_direction it = kForward"
      by (auto simp: db_forward_def)
    then show ?thesis using user_view_nth(2) [OF db_core_at(2) [OF i(3)] i(1)] db_core_at [OF i(3)]
      by (simp add: DBIter_key_def DBIter_value_def ukey_def)
  next
    case rev
    then show ?thesis using user_view_nth(2) by (fastforce simp: db_reverse_def saved_entry_def DBIter_key_def DBIter_value_def)
  qed
qed

interpretation db: bounded_iterator "\<lambda>k. key_fits (seek_key k s)" "Compare C" "DBIter_Iterator sample :: ('d, 's, 'c) DBIter Iterator" "db_at C s"
  for C s sample
proof
  fix it :: "('d, 's, 'c) DBIter" and us p assume "db_at C s it us p"
  then obtain es where s: "s \<le> kMaxSequenceNumber" and ic: "comparator (InternalKey_Compare C)" and us: "us = user_view C s es"
    and st: "db_state C s es it p" by (auto simp: db_at_def)
  note I = s ic us
  show "it_Valid (DBIter_Iterator sample) it = (p \<noteq> None)"
    using st by (auto simp: DBIter_Iterator_def db_state_def db_forward_def db_reverse_def split: option.splits)
  obtain q where "db_core C s es it q" using db_core_of_state [OF st] by blast
  then show "it_status (DBIter_Iterator sample) it = Status_OK"
    using obj.at_status by (auto simp: DBIter_Iterator_def DBIter_status_def db_core_def)
  show "\<exists>it'. it_SeekToFirst (DBIter_Iterator sample) it = Some it' \<and> db_at C s it' us (index_in us 0)"
    using DBIter_SeekToFirst_at [OF st, of sample] I by (auto simp: DBIter_Iterator_def db_at_def)
  show "\<exists>it'. it_SeekToLast (DBIter_Iterator sample) it = Some it' \<and> db_at C s it' us (index_before (length us))"
    using DBIter_SeekToLast_at [OF st, of sample] I by (auto simp: DBIter_Iterator_def db_at_def)
  show "\<exists>it'. it_Seek (DBIter_Iterator sample) it k = Some it' \<and> db_at C s it' us (index_in us (lower_bound (Compare C) us k))"
    if "key_fits (seek_key k s)" for k
    using DBIter_Seek_at [OF st s ic that, of sample] I by (auto simp: DBIter_Iterator_def db_at_def)
next
  fix it :: "('d, 's, 'c) DBIter" and us q assume "db_at C s it us (Some q)"
  then obtain es where s: "s \<le> kMaxSequenceNumber" "comparator (InternalKey_Compare C)" and us: "us = user_view C s es"
    and st: "db_state C s es it (Some q)" by (auto simp: db_at_def)
  show "q < length us \<and> us ! q = (it_key (DBIter_Iterator sample) it, it_value (DBIter_Iterator sample) it)"
    using db_state_reads [OF st] st us by (simp add: DBIter_Iterator_def db_state_def)
  show "\<exists>it'. it_Next (DBIter_Iterator sample) it = Some it' \<and> db_at C s it' us (index_in us (Suc q))"
    using DBIter_Next_at [OF st, of sample] s us by (auto simp: DBIter_Iterator_def db_at_def)
  show "\<exists>it'. it_Prev (DBIter_Iterator sample) it = Some it' \<and> db_at C s it' us (index_before q)"
    using DBIter_Prev_at [OF st, of sample] s us by (auto simp: DBIter_Iterator_def db_at_def)
qed

lemma NewDBIterator_at:
  assumes "obj_at (InternalKey_Compare C) ob es p" and "db_entries C es" and "s \<le> kMaxSequenceNumber" and "comparator (InternalKey_Compare C)"
  shows "db_at C s (NewDBIterator d C ob s seed) (user_view C s es) None"
  using assms rnd_ok_Next [OF Random_make_ok, of seed]
  by (auto simp: db_at_def db_state_def db_core_def NewDBIterator_def RandomPeriod_eq Let_def intro!: exI [of _ es] exI [of _ p])

text \<open>
  C13.  The database iterator.  On an internal iterator that satisfies the contract on entries with well-formed internal
  keys, it moves, for every sequence of moves and changes of direction, like a cursor on the view of these entries at its
  sequence number: for every user key the newest entry not above the number, if that is a value, and an OK status.
\<close>

theorem db_iterator_trace:
  assumes "key_comparator C" and ob: "obj_at (InternalKey_Compare C) ob es p" and "\<forall>e \<in> set es. ParseInternalKey (fst e) \<noteq> None"
    and "s \<le> kMaxSequenceNumber" and ms: "\<forall>m \<in> set ms. move_within (\<lambda>k. length k + 8 < 2 ^ 32) m"
  shows "Iterator_trace (DBIter_Iterator sample) ms (NewDBIterator d C ob s seed)
    = Iterator_trace (cursor (Compare C) (user_view C s es)) ms None"
proof -
  have o: "comparator (InternalKey_Compare C)" "entries_sorted (InternalKey_Compare C) es" using obj.at_order [OF ob] by auto
  then have "db_entries C es" using key_comparator.user_order [OF assms(1)] assms(3) by (simp add: db_entries_def)
  note at = NewDBIterator_at [OF ob this assms(4) o(1)]
  have "move_within (\<lambda>k. key_fits (seek_key k s)) m" if "m \<in> set ms" for m
    using ms that by (cases m) (auto simp: key_fits_def AppendInternalKey_eq)
  then show ?thesis by (intro db.trace [OF at]) blast
qed

theorem db_iterator_trace_witness:
  "Iterator_trace (DBIter_Iterator (\<lambda>n _. n + 1)) [MLast, MPrev, MNext, MSeek [0], MNext, MNext]
     (NewDBIterator (0 :: nat) BytewiseComparator (Iterator_make (cursor (InternalKey_Compare BytewiseComparator)
        [(InternalKey_make [1] 3 kTypeDeletion, []), (InternalKey_make [1] 2 kTypeValue, [10]), (InternalKey_make [2] 1 kTypeValue, [20])])
        None :: (nat option, unit) IterObj) 2 7)
   = Some [(Some ([2], [20]), Status_OK), (Some ([1], [10]), Status_OK), (Some ([2], [20]), Status_OK), (Some ([1], [10]), Status_OK),
       (Some ([2], [20]), Status_OK), (None, Status_OK)]"
proof -
  let ?es = "[(InternalKey_make [1] 3 kTypeDeletion, []), (InternalKey_make [1] 2 kTypeValue, [10]), (InternalKey_make [2] 1 kTypeValue, [20])]"
  let ?ms = "[MLast, MPrev, MNext, MSeek [0], MNext, MNext]" and ?cmp = "InternalKey_Compare BytewiseComparator"
  have "sorted_wrt (\<lambda>a b. ?cmp (fst a) (fst b) < 0) ?es" by code_simp
  then have "entries_sorted ?cmp ?es" by (simp add: entries_sorted_def key_fits_def InternalKey_make_def AppendInternalKey_eq)
  then have "obj_at ?cmp (Iterator_make (cursor ?cmp ?es) None :: (nat option, unit) IterObj) ?es None"
    using bytewise.ikey.comparator_axioms
    by (intro obj_at_make [OF cursor.iterator_axioms]) (simp add: cursor_at_def)
  moreover have "\<forall>e \<in> set ?es. ParseInternalKey (fst e) \<noteq> None" by code_simp
  moreover have "(2 :: u64) \<le> kMaxSequenceNumber" by code_simp
  moreover have "Iterator_trace (cursor (Compare BytewiseComparator) (user_view BytewiseComparator 2 ?es)) ?ms None
      = Some [(Some ([2], [20]), Status_OK), (Some ([1], [10]), Status_OK), (Some ([2], [20]), Status_OK), (Some ([1], [10]), Status_OK),
         (Some ([2], [20]), Status_OK), (None, Status_OK)]"
    by code_simp
  ultimately show ?thesis
    using db_iterator_trace [OF bytewise.key_comparator_axioms, of _ ?es None 2 ?ms "\<lambda>n _. n + 1" "0 :: nat" 7] by simp
qed

text \<open>
  C36.  The sampling loop of the iterator ends.  It adds random periods to a negative byte count until the count is not
  negative; a period may be zero, but for every state of the generator and every count the loop returns, and it changes
  nothing but the count, the generator and what was reported.
\<close>

theorem sampling_ends:
  assumes "0 < di_rnd it" and "di_rnd it < 2147483647"
  shows "\<exists>r b d. ParseKey_sample sample k it = Some (it\<lparr>di_rnd := r, di_bytes_counter := b, di_db := d\<rparr>) \<and> 0 \<le> b"
proof -
  obtain it' where "ParseKey_sample sample k it = Some it'" "sampled it it'" "0 \<le> di_bytes_counter it'"
    using ParseKey_sample_returns [of it sample k] assms by (auto simp: rnd_ok_def)
  then show ?thesis by (auto simp: sampled_def simp del: option.inject) (metis DBIter.simps(11))
qed

theorem sampling_ends_witness:
  "\<exists>r b d. ParseKey_sample (\<lambda>n _. n + 1) [7] (NewDBIterator (0 :: nat) BytewiseComparator (Iterator_make EmptyIterator Status_OK :: (Status, unit) IterObj) 2 7)
     = Some ((NewDBIterator 0 BytewiseComparator (Iterator_make EmptyIterator Status_OK) 2 7)\<lparr>di_rnd := r, di_bytes_counter := b, di_db := d\<rparr>) \<and> 0 \<le> b"
proof (rule sampling_ends)
  have "rnd_ok (Random_Next (Random_make 7))" by (rule rnd_ok_Next [OF Random_make_ok])
  then show "0 < di_rnd (NewDBIterator (0 :: nat) BytewiseComparator (Iterator_make EmptyIterator Status_OK :: (Status, unit) IterObj) 2 7)"
    and "di_rnd (NewDBIterator (0 :: nat) BytewiseComparator (Iterator_make EmptyIterator Status_OK :: (Status, unit) IterObj) 2 7) < 2147483647"
    by (simp_all add: NewDBIterator_def RandomPeriod_eq Let_def rnd_ok_def)
qed

end
