(* ===== verification/Version.thy ===== *)
theory Version
  imports Complex_Main VersionEdit Iterator Options
begin

text \<open>
  Versions (\<^verbatim>\<open>Version\<close> of \<^verbatim>\<open>db/version_set.{h,cc}\<close>): the table files of a database, level by level, and the searches in them.
  A file is reached through a pointer of any type \<open>'p\<close>; the functions that return pointers take the dereference
  function \<open>F\<close>, the others the list of the files.  Lists of files are shorter than \<open>2 ^ 31\<close>, so that the 32-bit indices
  do not wrap and are natural numbers.  Sums of file sizes are 64-bit words, compared as signed numbers as in the code.
\<close>

subsection \<open>Sizes\<close>

definition kTargetFileSize :: int where
  "kTargetFileSize = 2 * 1048576"

definition kMaxGrandParentOverlapBytes :: int where
  "kMaxGrandParentOverlapBytes = 10 * kTargetFileSize"

definition kExpandedCompactionByteSizeLimit :: int where
  "kExpandedCompactionByteSizeLimit = 25 * kTargetFileSize"

definition MaxFileSizeForLevel :: "nat \<Rightarrow> u64" where
  "MaxFileSizeForLevel lev = of_int kTargetFileSize"

definition TotalFileSize :: "FileMetaData list \<Rightarrow> 64 word" where
  "TotalFileSize files = foldl (\<lambda>sum f. sum + fm_file_size f) 0 files"

subsection \<open>Searching a list of files\<close>

abbreviation smallest_user :: "FileMetaData \<Rightarrow> Slice" where
  "smallest_user f \<equiv> ExtractUserKey (fm_smallest f)"

abbreviation largest_user :: "FileMetaData \<Rightarrow> Slice" where
  "largest_user f \<equiv> ExtractUserKey (fm_largest f)"

function FindFile_loop :: "Comparator \<Rightarrow> FileMetaData list \<Rightarrow> Slice \<Rightarrow> nat \<Rightarrow> nat \<Rightarrow> nat" where
  "FindFile_loop C files key left right =
     (if left < right then
        let mid = (left + right) div 2 in
        if InternalKey_Compare C (fm_largest (files ! mid)) key < 0 then FindFile_loop C files key (mid + 1) right
        else FindFile_loop C files key left mid
      else right)"
  by pat_completeness auto
termination by (relation "measure (\<lambda>(_, _, _, left, right). right - left)") auto

declare FindFile_loop.simps [simp del]

definition FindFile :: "Comparator \<Rightarrow> FileMetaData list \<Rightarrow> Slice \<Rightarrow> nat" where
  "FindFile C files key = FindFile_loop C files key 0 (length files)"

definition AfterFile :: "Comparator \<Rightarrow> Slice option \<Rightarrow> FileMetaData \<Rightarrow> bool" where
  "AfterFile C user_key f \<longleftrightarrow> (case user_key of None \<Rightarrow> False | Some k \<Rightarrow> Compare C k (largest_user f) > 0)"

definition BeforeFile :: "Comparator \<Rightarrow> Slice option \<Rightarrow> FileMetaData \<Rightarrow> bool" where
  "BeforeFile C user_key f \<longleftrightarrow> (case user_key of None \<Rightarrow> False | Some k \<Rightarrow> Compare C k (smallest_user f) < 0)"

fun Overlaps_scan :: "Comparator \<Rightarrow> FileMetaData list \<Rightarrow> Slice option \<Rightarrow> Slice option \<Rightarrow> bool" where
  "Overlaps_scan C [] smallest_user_key largest_user_key = False"
| "Overlaps_scan C (f # files) smallest_user_key largest_user_key =
     (if AfterFile C smallest_user_key f \<or> BeforeFile C largest_user_key f
      then Overlaps_scan C files smallest_user_key largest_user_key else True)"

definition SomeFileOverlapsRange ::
  "Comparator \<Rightarrow> bool \<Rightarrow> FileMetaData list \<Rightarrow> Slice option \<Rightarrow> Slice option \<Rightarrow> bool" where
  "SomeFileOverlapsRange C disjoint_sorted_files files smallest_user_key largest_user_key =
     (if \<not> disjoint_sorted_files then Overlaps_scan C files smallest_user_key largest_user_key
      else let index = (case smallest_user_key of
                          None \<Rightarrow> 0
                        | Some k \<Rightarrow> FindFile C files (InternalKey_make k kMaxSequenceNumber kValueTypeForSeek))
           in if index \<ge> length files then False else \<not> BeforeFile C largest_user_key (files ! index))"

text \<open>
  Files that are sorted and disjoint, as in every level but the first: a file ends before the next begins.  The keys of
  files are well-formed internal keys whose length fits 32 bits.
\<close>

definition file_wf :: "Comparator \<Rightarrow> FileMetaData \<Rightarrow> bool" where
  "file_wf C f \<longleftrightarrow> ParseInternalKey (fm_smallest f) \<noteq> None \<and> ParseInternalKey (fm_largest f) \<noteq> None
     \<and> key_fits (fm_smallest f) \<and> key_fits (fm_largest f) \<and> InternalKey_Compare C (fm_smallest f) (fm_largest f) \<le> 0"

definition disjoint_sorted :: "Comparator \<Rightarrow> FileMetaData list \<Rightarrow> bool" where
  "disjoint_sorted C files \<longleftrightarrow> sorted_wrt (\<lambda>f g. InternalKey_Compare C (fm_largest f) (fm_smallest g) < 0) files
     \<and> (\<forall>f \<in> set files. file_wf C f)"

definition overlaps :: "Comparator \<Rightarrow> Slice option \<Rightarrow> Slice option \<Rightarrow> FileMetaData \<Rightarrow> bool" where
  "overlaps C smallest_user_key largest_user_key f \<longleftrightarrow> \<not> AfterFile C smallest_user_key f \<and> \<not> BeforeFile C largest_user_key f"

lemma Overlaps_scan_iff: "Overlaps_scan C files s l \<longleftrightarrow> (\<exists>f \<in> set files. overlaps C s l f)"
  by (induction files) (auto simp: overlaps_def)

lemma length_takeWhile_at:
  assumes "n \<le> length xs" and "\<And>i. i < n \<Longrightarrow> P (xs ! i)" and "n < length xs \<Longrightarrow> \<not> P (xs ! n)"
  shows "length (takeWhile P xs) = n"
  using assms takeWhile_eq_take_P_nth [of n xs P] by simp

text \<open>A binary search for the first index where a monotone predicate turns false.\<close>

lemma FindFile_loop_spec:
  fixes C :: Comparator and key :: Slice and P :: "FileMetaData \<Rightarrow> bool"
  defines "P \<equiv> \<lambda>f. InternalKey_Compare C (fm_largest f) key < 0"
  assumes "left \<le> right" and "right \<le> length files" and "\<And>i. i < left \<Longrightarrow> P (files ! i)"
    and "\<And>i. right \<le> i \<Longrightarrow> i < length files \<Longrightarrow> \<not> P (files ! i)"
    and "\<And>i j. i \<le> j \<Longrightarrow> j < length files \<Longrightarrow> P (files ! j) \<Longrightarrow> P (files ! i)"
  shows "FindFile_loop C files key left right = length (takeWhile P files)"
  using assms(2-6)
proof (induction "right - left" arbitrary: left right rule: less_induct)
  case less
  show ?case
  proof (cases "left < right")
    case False
    then have "left = right" using less.prems(1) by simp
    moreover have "length (takeWhile P files) = right"
      by (rule length_takeWhile_at) (use less.prems \<open>left = right\<close> P_def in auto)
    ultimately show ?thesis by (simp add: FindFile_loop.simps)
  next
    case True
    let ?mid = "(left + right) div 2"
    have m: "left \<le> ?mid" "?mid < right" using True by auto
    then have ml: "?mid < length files" using less.prems(2) by simp
    show ?thesis
    proof (cases "P (files ! ?mid)")
      case c: True
      have "FindFile_loop C files key (?mid + 1) right = length (takeWhile P files)"
        using less.prems m c ml by (intro less.hyps) (auto intro: less.prems(5) [of _ ?mid])
      then show ?thesis using True c by (subst FindFile_loop.simps) (simp add: P_def)
    next
      case c: False
      have "FindFile_loop C files key left ?mid = length (takeWhile P files)"
        using less.prems m c ml by (intro less.hyps) (auto dest: less.prems(5) [of ?mid])
      then show ?thesis using True c by (subst FindFile_loop.simps) (simp add: P_def)
    qed
  qed
qed

lemma below_user_start:
  assumes "ParseInternalKey k \<noteq> None"
  shows "InternalKey_Compare C k (InternalKey_make u kMaxSequenceNumber kValueTypeForSeek) < 0 \<longleftrightarrow> Compare C (ExtractUserKey k) u < 0"
proof -
  obtain p where p: "ParseInternalKey k = Some p" using assms by auto
  have "unat (ExtractTag k) \<le> unat (PackSequenceAndType kMaxSequenceNumber kTypeValue)"
    using parsed_key [OF p] unat_Pack by (cases "pik_type p") (auto simp: word_le_nat_alt)
  then have "\<not> PackSequenceAndType kMaxSequenceNumber kTypeValue < ExtractTag k" by (simp add: word_less_nat_alt)
  then show ?thesis by (simp add: InternalKey_Compare_less InternalKey_make_def AppendInternalKey_eq kValueTypeForSeek_def)
qed

context key_comparator
begin

lemma disjoint_sorted_largest:
  assumes "disjoint_sorted C files" and "i < j" and "j < length files"
  shows "InternalKey_Compare C (fm_largest (files ! i)) (fm_smallest (files ! j)) < 0"
    and "InternalKey_Compare C (fm_largest (files ! i)) (fm_largest (files ! j)) < 0"
    and "InternalKey_Compare C (fm_smallest (files ! i)) (fm_smallest (files ! j)) < 0"
proof -
  show 1: "InternalKey_Compare C (fm_largest (files ! i)) (fm_smallest (files ! j)) < 0"
    using assms by (auto simp: disjoint_sorted_def sorted_wrt_iff_nth_less)
  have "file_wf C (files ! i)" "file_wf C (files ! j)" using assms by (auto simp: disjoint_sorted_def)
  then show "InternalKey_Compare C (fm_largest (files ! i)) (fm_largest (files ! j)) < 0"
    and "InternalKey_Compare C (fm_smallest (files ! i)) (fm_smallest (files ! j)) < 0"
    using 1 ikey.cmp_less_le_trans ikey.cmp_le_less_trans by (auto simp: file_wf_def)
qed

lemma FindFile_spec:
  assumes "disjoint_sorted C files"
  shows "FindFile C files key = length (takeWhile (\<lambda>f. InternalKey_Compare C (fm_largest f) key < 0) files)"
  unfolding FindFile_def
proof (rule FindFile_loop_spec)
  fix i j assume "i \<le> j" "j < length files" "InternalKey_Compare C (fm_largest (files ! j)) key < 0"
  then show "InternalKey_Compare C (fm_largest (files ! i)) key < 0"
    using disjoint_sorted_largest(2) [OF assms, of i j] ikey.cmp_less_trans by (cases "i = j") auto
qed auto

lemma user_key_mono: "InternalKey_Compare C a b \<le> 0 \<Longrightarrow> Compare C (ExtractUserKey a) (ExtractUserKey b) \<le> 0"
  by (auto simp: InternalKey_Compare_le)

lemma SomeFileOverlapsRange_iff:
  assumes "d \<Longrightarrow> disjoint_sorted C files"
  shows "SomeFileOverlapsRange C d files s l \<longleftrightarrow> (\<exists>f \<in> set files. overlaps C s l f)"
proof (cases d)
  case False
  then show ?thesis by (simp add: SomeFileOverlapsRange_def Overlaps_scan_iff)
next
  case True
  then have so: "disjoint_sorted C files" by (rule assms)
  define i where "i = length (takeWhile (AfterFile C s) files)"
  have "InternalKey_Compare C (fm_largest f) (InternalKey_make k kMaxSequenceNumber kValueTypeForSeek) < 0 \<longleftrightarrow> AfterFile C (Some k) f"
    if "f \<in> set files" for f k
    using that so below_user_start [of "fm_largest f" C k] Compare_swap by (simp add: AfterFile_def disjoint_sorted_def file_wf_def)
  then have ix: "(case s of None \<Rightarrow> 0 | Some k \<Rightarrow> FindFile C files (InternalKey_make k kMaxSequenceNumber kValueTypeForSeek)) = i"
    unfolding i_def using FindFile_spec [OF so] by (cases s) (auto simp: AfterFile_def cong: takeWhile_cong, cases files, auto)
  have "(\<exists>f \<in> set files. overlaps C s l f) \<longleftrightarrow> i < length files \<and> \<not> BeforeFile C l (files ! i)"
  proof
    assume "\<exists>f \<in> set files. overlaps C s l f"
    then obtain j where j: "j < length files" "\<not> AfterFile C s (files ! j)" "\<not> BeforeFile C l (files ! j)"
      by (auto simp: in_set_conv_nth overlaps_def)
    have "i \<le> j" using j(1,2) takeWhile_nth [of j "AfterFile C s" files] set_takeWhileD [OF nth_mem, of j "AfterFile C s" files]
      by (metis i_def not_less)
    moreover have "\<not> BeforeFile C l (files ! i)"
    proof (cases "i = j")
      case False
      then have "InternalKey_Compare C (fm_smallest (files ! i)) (fm_smallest (files ! j)) \<le> 0"
        using disjoint_sorted_largest(3) [OF so, of i j] j(1) \<open>i \<le> j\<close> by simp
      then show ?thesis using j(3) user.cmp_less_le_trans user_key_mono by (auto simp: BeforeFile_def split: option.splits)
    qed (use j in simp)
    ultimately show "i < length files \<and> \<not> BeforeFile C l (files ! i)" using j(1) by simp
  next
    assume "i < length files \<and> \<not> BeforeFile C l (files ! i)"
    then show "\<exists>f \<in> set files. overlaps C s l f"
      using nth_length_takeWhile [of "AfterFile C s" files] by (auto simp: overlaps_def i_def)
  qed
  then show ?thesis using True by (simp add: SomeFileOverlapsRange_def Let_def ix not_less [symmetric])
qed

end

subsection \<open>The iterator over the files of a level\<close>

record LevelFileNumIterator =
  lfn_flist :: "FileMetaData list"
  lfn_index :: nat

definition LevelFileNumIterator_make :: "FileMetaData list \<Rightarrow> LevelFileNumIterator" where
  "LevelFileNumIterator_make flist = \<lparr>lfn_flist = flist, lfn_index = length flist\<rparr>"

definition LevelFileNum_Valid :: "LevelFileNumIterator \<Rightarrow> bool" where
  "LevelFileNum_Valid it \<longleftrightarrow> lfn_index it < length (lfn_flist it)"

definition LevelFileNum_Seek :: "Comparator \<Rightarrow> LevelFileNumIterator \<Rightarrow> Slice \<Rightarrow> LevelFileNumIterator" where
  "LevelFileNum_Seek C it target = it\<lparr>lfn_index := FindFile C (lfn_flist it) target\<rparr>"

definition LevelFileNum_SeekToFirst :: "LevelFileNumIterator \<Rightarrow> LevelFileNumIterator" where
  "LevelFileNum_SeekToFirst it = it\<lparr>lfn_index := 0\<rparr>"

definition LevelFileNum_SeekToLast :: "LevelFileNumIterator \<Rightarrow> LevelFileNumIterator" where
  "LevelFileNum_SeekToLast it = it\<lparr>lfn_index := (if lfn_flist it = [] then 0 else length (lfn_flist it) - 1)\<rparr>"

definition LevelFileNum_Next :: "LevelFileNumIterator \<Rightarrow> LevelFileNumIterator" where
  "LevelFileNum_Next it = it\<lparr>lfn_index := lfn_index it + 1\<rparr>"

definition LevelFileNum_Prev :: "LevelFileNumIterator \<Rightarrow> LevelFileNumIterator" where
  "LevelFileNum_Prev it = it\<lparr>lfn_index := (if lfn_index it = 0 then length (lfn_flist it) else lfn_index it - 1)\<rparr>"

definition LevelFileNum_key :: "LevelFileNumIterator \<Rightarrow> Slice" where
  "LevelFileNum_key it = fm_largest (lfn_flist it ! lfn_index it)"

definition file_value :: "FileMetaData \<Rightarrow> Slice" where
  "file_value f = EncodeFixed64 (fm_number f) @ EncodeFixed64 (fm_file_size f)"

definition LevelFileNum_value :: "LevelFileNumIterator \<Rightarrow> Slice" where
  "LevelFileNum_value it = file_value (lfn_flist it ! lfn_index it)"

definition LevelFileNum_Iterator :: "Comparator \<Rightarrow> LevelFileNumIterator Iterator" where
  "LevelFileNum_Iterator C =
     \<lparr>it_Valid = LevelFileNum_Valid, it_SeekToFirst = Some \<circ> LevelFileNum_SeekToFirst, it_SeekToLast = Some \<circ> LevelFileNum_SeekToLast,
      it_Seek = (\<lambda>it target. Some (LevelFileNum_Seek C it target)), it_Next = Some \<circ> LevelFileNum_Next, it_Prev = Some \<circ> LevelFileNum_Prev,
      it_key = LevelFileNum_key, it_value = LevelFileNum_value, it_status = (\<lambda>_. Status_OK)\<rparr>"

text \<open>The iterator stands at a file, whose entry is the pair of its largest key and its number and size.\<close>

definition file_entries :: "FileMetaData list \<Rightarrow> entries" where
  "file_entries files = map (\<lambda>f. (fm_largest f, file_value f)) files"

definition level_at :: "Comparator \<Rightarrow> LevelFileNumIterator \<Rightarrow> entries \<Rightarrow> nat option \<Rightarrow> bool" where
  "level_at C it es p \<longleftrightarrow> key_comparator C \<and> disjoint_sorted C (lfn_flist it) \<and> es = file_entries (lfn_flist it)
     \<and> p = index_in es (lfn_index it)"

lemma file_entries_sorted:
  assumes "key_comparator C" and "disjoint_sorted C files"
  shows "entries_sorted (InternalKey_Compare C) (file_entries files)"
  using key_comparator.disjoint_sorted_largest(2) [OF assms]
    assms(2) by (auto simp: entries_sorted_def file_entries_def sorted_wrt_iff_nth_less disjoint_sorted_def file_wf_def)

lemma FindFile_lower_bound:
  assumes "key_comparator C" and "disjoint_sorted C files"
  shows "FindFile C files k = lower_bound (InternalKey_Compare C) (file_entries files) k"
  using key_comparator.FindFile_spec [OF assms] by (simp add: lower_bound_def file_entries_def takeWhile_map comp_def)

interpretation level: iterator "InternalKey_Compare C" "LevelFileNum_Iterator C" "level_at C" for C
proof
  fix s es p i k
  show "comparator (InternalKey_Compare C) \<and> entries_sorted (InternalKey_Compare C) es" if "level_at C s es p"
    using that file_entries_sorted key_comparator.internal_key_comparator [THEN key_comparator.user_order] by (auto simp: level_at_def)
  show "it_Valid (LevelFileNum_Iterator C) s = (p \<noteq> None)" if "level_at C s es p"
    using that by (auto simp: level_at_def LevelFileNum_Iterator_def LevelFileNum_Valid_def index_in_def file_entries_def)
  show "i < length es \<and> es ! i = (it_key (LevelFileNum_Iterator C) s, it_value (LevelFileNum_Iterator C) s)" if "level_at C s es (Some i)"
    using that by (auto simp: level_at_def LevelFileNum_Iterator_def LevelFileNum_key_def LevelFileNum_value_def index_in_def file_entries_def
        split: if_splits)
  show "it_status (LevelFileNum_Iterator C) s = Status_OK" if "level_at C s es p" by (simp add: LevelFileNum_Iterator_def)
  show "\<exists>s'. it_SeekToFirst (LevelFileNum_Iterator C) s = Some s' \<and> level_at C s' es (index_in es 0)" if "level_at C s es p"
    using that by (auto simp: level_at_def LevelFileNum_Iterator_def LevelFileNum_SeekToFirst_def)
  show "\<exists>s'. it_SeekToLast (LevelFileNum_Iterator C) s = Some s' \<and> level_at C s' es (index_before (length es))" if "level_at C s es p"
    using that by (auto simp: level_at_def LevelFileNum_Iterator_def LevelFileNum_SeekToLast_def index_before_def index_in_def file_entries_def)
  show "\<exists>s'. it_Seek (LevelFileNum_Iterator C) s k = Some s' \<and> level_at C s' es (index_in es (lower_bound (InternalKey_Compare C) es k))"
    if "level_at C s es p" "key_fits k"
    using that by (auto simp: level_at_def LevelFileNum_Iterator_def LevelFileNum_Seek_def FindFile_lower_bound)
  show "\<exists>s'. it_Next (LevelFileNum_Iterator C) s = Some s' \<and> level_at C s' es (index_in es (Suc i))" if "level_at C s es (Some i)"
    using that by (auto simp: level_at_def LevelFileNum_Iterator_def LevelFileNum_Next_def index_in_def split: if_splits)
  show "\<exists>s'. it_Prev (LevelFileNum_Iterator C) s = Some s' \<and> level_at C s' es (index_before i)" if "level_at C s es (Some i)"
    using that by (auto simp: level_at_def LevelFileNum_Iterator_def LevelFileNum_Prev_def index_in_def index_before_def file_entries_def split: if_splits)
qed

subsection \<open>Versions\<close>

text \<open>The files of a version are pointers into a store \<open>H\<close> of file objects.\<close>

type_synonym 'p file_store = "'p \<rightharpoonup> FileMetaData"

abbreviation deref :: "'p file_store \<Rightarrow> 'p \<Rightarrow> FileMetaData" where
  "deref H p \<equiv> the (H p)"

record 'p Version =
  v_refs :: int
  v_files :: "'p list list"
  v_file_to_compact :: "'p option"
  v_file_to_compact_level :: int
  v_compaction_score :: rat
  v_compaction_level :: int

definition Version_make :: "'p Version" where
  "Version_make = \<lparr>v_refs = 0, v_files = replicate kNumLevels [], v_file_to_compact = None, v_file_to_compact_level = -1,
     v_compaction_score = -1, v_compaction_level = -1\<rparr>"

record 'p GetStats =
  gs_seek_file :: "'p option"
  gs_seek_file_level :: int

definition NumFiles :: "'p Version \<Rightarrow> nat \<Rightarrow> nat" where
  "NumFiles v lev = length (v_files v ! lev)"

subsubsection \<open>Looking up a key\<close>

datatype SaverState = Saver_kNotFound | Saver_kFound | Saver_kDeleted | Saver_kCorrupt

record Saver =
  sv_state :: SaverState
  sv_ucmp :: Comparator
  sv_user_key :: Slice
  sv_value :: bytes

definition SaveValue :: "Saver \<Rightarrow> Slice \<Rightarrow> Slice \<Rightarrow> Saver" where
  "SaveValue s ikey v =
     (case ParseInternalKey ikey of
        None \<Rightarrow> s\<lparr>sv_state := Saver_kCorrupt\<rparr>
      | Some parsed_key \<Rightarrow>
          if Compare (sv_ucmp s) (pik_user_key parsed_key) (sv_user_key s) = 0 then
            let s = s\<lparr>sv_state := (if pik_type parsed_key = kTypeValue then Saver_kFound else Saver_kDeleted)\<rparr>
            in if sv_state s = Saver_kFound then s\<lparr>sv_value := v\<rparr> else s
          else s)"

text \<open>
  \<^verbatim>\<open>NewestFirst\<close> sorts by descending number; the numbers of the files of a version differ, so that the order of
  equal elements, which \<^verbatim>\<open>std::sort\<close> leaves open, does not matter.
\<close>

definition sort_newest_first :: "('p \<Rightarrow> FileMetaData) \<Rightarrow> 'p list \<Rightarrow> 'p list" where
  "sort_newest_first F ps = rev (sort_key (\<lambda>p. fm_number (F p)) ps)"

text \<open>The files of a level that may hold a key, in the order of the search.\<close>

definition level_candidates :: "Comparator \<Rightarrow> ('p \<Rightarrow> FileMetaData) \<Rightarrow> 'p list \<Rightarrow> nat \<Rightarrow> Slice \<Rightarrow> Slice \<Rightarrow> 'p list" where
  "level_candidates C F files lev user_key ikey =
     (if lev = 0 then
        sort_newest_first F (filter (\<lambda>p. Compare C user_key (smallest_user (F p)) \<ge> 0 \<and> Compare C user_key (largest_user (F p)) \<le> 0) files)
      else let index = FindFile C (map F files) ikey in
        if index \<ge> length files then []
        else if Compare C user_key (smallest_user (F (files ! index))) < 0 then []
        else [files ! index])"

text \<open>\<^verbatim>\<open>ForEachOverlapping\<close> stops when \<open>func\<close> returns false.\<close>

primrec ForEach_files :: "('a \<Rightarrow> nat \<Rightarrow> 'p \<Rightarrow> bool \<times> 'a) \<Rightarrow> nat \<Rightarrow> 'p list \<Rightarrow> 'a \<Rightarrow> bool \<times> 'a" where
  "ForEach_files func lev [] arg = (True, arg)"
| "ForEach_files func lev (f # fs) arg =
     (let (continue, arg) = func arg lev f in if continue then ForEach_files func lev fs arg else (False, arg))"

primrec ForEach_levels ::
  "Comparator \<Rightarrow> ('p \<Rightarrow> FileMetaData) \<Rightarrow> 'p Version \<Rightarrow> Slice \<Rightarrow> Slice \<Rightarrow> ('a \<Rightarrow> nat \<Rightarrow> 'p \<Rightarrow> bool \<times> 'a) \<Rightarrow> nat list \<Rightarrow> 'a \<Rightarrow> 'a" where
  "ForEach_levels C F v user_key internal_key func [] arg = arg"
| "ForEach_levels C F v user_key internal_key func (lev # levs) arg =
     (let (continue, arg) = ForEach_files func lev (level_candidates C F (v_files v ! lev) lev user_key internal_key) arg
      in if continue then ForEach_levels C F v user_key internal_key func levs arg else arg)"

definition ForEachOverlapping ::
  "Comparator \<Rightarrow> ('p \<Rightarrow> FileMetaData) \<Rightarrow> 'p Version \<Rightarrow> Slice \<Rightarrow> Slice \<Rightarrow> 'a \<Rightarrow> ('a \<Rightarrow> nat \<Rightarrow> 'p \<Rightarrow> bool \<times> 'a) \<Rightarrow> 'a" where
  "ForEachOverlapping C F v user_key internal_key arg func =
     ForEach_levels C F v user_key internal_key func [0..<kNumLevels] arg"

text \<open>
  \<^verbatim>\<open>Get\<close> reads the files through the table cache, of type \<open>'tc\<close>, whose lookup is the argument \<open>tget\<close>; \<open>None\<close> when a
  lookup does not return.
\<close>

type_synonym ('g, 'tc) TableGet =
  "ReadOptions \<Rightarrow> u64 \<Rightarrow> u64 \<Rightarrow> Slice \<Rightarrow> 'g \<Rightarrow> ('g \<Rightarrow> Slice \<Rightarrow> Slice \<Rightarrow> 'g) \<Rightarrow> 'tc \<Rightarrow> (Status \<times> 'g \<times> 'tc) option"

record ('p, 'tc) GetState =
  ge_stats :: "'p GetStats"
  ge_last_file_read :: "'p option"
  ge_last_file_read_level :: int
  ge_value :: bytes
  ge_table_cache :: 'tc

text \<open>A read of a second file charges a seek to the first.\<close>

definition Get_charge :: "'p \<Rightarrow> nat \<Rightarrow> ('p, 'tc) GetState \<Rightarrow> ('p, 'tc) GetState" where
  "Get_charge f lev g =
     (let g = (if ge_last_file_read g \<noteq> None \<and> gs_seek_file (ge_stats g) = None
               then g\<lparr>ge_stats := \<lparr>gs_seek_file = ge_last_file_read g, gs_seek_file_level = ge_last_file_read_level g\<rparr>\<rparr> else g)
      in g\<lparr>ge_last_file_read := Some f, ge_last_file_read_level := int lev\<rparr>)"

primrec Get_files ::
  "(Saver, 'tc) TableGet \<Rightarrow> ReadOptions \<Rightarrow> Comparator \<Rightarrow> ('p \<Rightarrow> FileMetaData) \<Rightarrow> LookupKey \<Rightarrow> nat \<Rightarrow> 'p list \<Rightarrow> ('p, 'tc) GetState
   \<Rightarrow> (Status option \<times> ('p, 'tc) GetState) option" where
  "Get_files tget options C F k lev [] g = Some (None, g)"
| "Get_files tget options C F k lev (f # files) g =
     (let g = Get_charge f lev g;
          saver = \<lparr>sv_state = Saver_kNotFound, sv_ucmp = C, sv_user_key = LookupKey_user_key k, sv_value = ge_value g\<rparr>
      in case tget options (fm_number (F f)) (fm_file_size (F f)) (LookupKey_internal_key k) saver SaveValue (ge_table_cache g) of
           None \<Rightarrow> None
         | Some (s, saver, tc) \<Rightarrow>
             let g = g\<lparr>ge_value := sv_value saver, ge_table_cache := tc\<rparr> in
             if \<not> Status_ok s then Some (Some s, g)
             else (case sv_state saver of
                     Saver_kNotFound \<Rightarrow> Get_files tget options C F k lev files g
                   | Saver_kFound \<Rightarrow> Some (Some s, g)
                   | Saver_kDeleted \<Rightarrow> Some (Some (NotFound [] []), g)
                   | Saver_kCorrupt \<Rightarrow> Some (Some (Corruption (str ''corrupted key for '') (LookupKey_user_key k)), g)))"

primrec Get_levels ::
  "(Saver, 'tc) TableGet \<Rightarrow> ReadOptions \<Rightarrow> Comparator \<Rightarrow> ('p \<Rightarrow> FileMetaData) \<Rightarrow> LookupKey \<Rightarrow> 'p Version \<Rightarrow> nat list \<Rightarrow> ('p, 'tc) GetState
   \<Rightarrow> (Status \<times> ('p, 'tc) GetState) option" where
  "Get_levels tget options C F k v [] g = Some (NotFound [] [], g)"
| "Get_levels tget options C F k v (lev # levs) g =
     (case Get_files tget options C F k lev
             (level_candidates C F (v_files v ! lev) lev (LookupKey_user_key k) (LookupKey_internal_key k)) g of
        None \<Rightarrow> None
      | Some (Some s, g) \<Rightarrow> Some (s, g)
      | Some (None, g) \<Rightarrow> Get_levels tget options C F k v levs g)"

definition Version_Get ::
  "(Saver, 'tc) TableGet \<Rightarrow> Comparator \<Rightarrow> ('p \<Rightarrow> FileMetaData) \<Rightarrow> 'p Version \<Rightarrow> ReadOptions \<Rightarrow> LookupKey \<Rightarrow> bytes \<Rightarrow> 'tc
   \<Rightarrow> (Status \<times> bytes \<times> 'p GetStats \<times> 'tc) option" where
  "Version_Get tget C F v options k value tc =
     map_option (\<lambda>(s, g). (s, ge_value g, ge_stats g, ge_table_cache g))
       (Get_levels tget options C F k v [0..<kNumLevels]
          \<lparr>ge_stats = \<lparr>gs_seek_file = None, gs_seek_file_level = -1\<rparr>, ge_last_file_read = None, ge_last_file_read_level = -1,
           ge_value = value, ge_table_cache = tc\<rparr>)"

subsubsection \<open>Statistics of seeks\<close>

definition UpdateStats :: "'p file_store \<Rightarrow> 'p Version \<Rightarrow> 'p GetStats \<Rightarrow> bool \<times> 'p file_store \<times> 'p Version" where
  "UpdateStats H v stats =
     (case gs_seek_file stats of
        None \<Rightarrow> (False, H, v)
      | Some f \<Rightarrow>
          let m = (deref H f)\<lparr>fm_allowed_seeks := fm_allowed_seeks (deref H f) - 1\<rparr>;
              H = H(f \<mapsto> m)
          in if fm_allowed_seeks m \<le> 0 \<and> v_file_to_compact v = None
             then (True, H, v\<lparr>v_file_to_compact := Some f, v_file_to_compact_level := gs_seek_file_level stats\<rparr>)
             else (False, H, v))"

definition Sample_Match :: "'p GetStats \<times> int \<Rightarrow> nat \<Rightarrow> 'p \<Rightarrow> bool \<times> ('p GetStats \<times> int)" where
  "Sample_Match = (\<lambda>(stats, matches) lev f.
     let matches = matches + 1;
         stats = (if matches = 1 then \<lparr>gs_seek_file = Some f, gs_seek_file_level = int lev\<rparr> else stats)
     in (matches < 2, (stats, matches)))"

text \<open>The statistics are not initialised before the first match, and not read without one.\<close>

definition RecordReadSample :: "Comparator \<Rightarrow> 'p file_store \<Rightarrow> 'p Version \<Rightarrow> Slice \<Rightarrow> bool \<times> 'p file_store \<times> 'p Version" where
  "RecordReadSample C H v internal_key =
     (case ParseInternalKey internal_key of
        None \<Rightarrow> (False, H, v)
      | Some ikey \<Rightarrow>
          let (stats, matches) = ForEachOverlapping C (deref H) v (pik_user_key ikey) internal_key
                 (\<lparr>gs_seek_file = None, gs_seek_file_level = 0\<rparr>, 0) Sample_Match
          in if matches \<ge> 2 then UpdateStats H v stats else (False, H, v))"

subsubsection \<open>Overlaps\<close>

definition OverlapInLevel :: "Comparator \<Rightarrow> ('p \<Rightarrow> FileMetaData) \<Rightarrow> 'p Version \<Rightarrow> nat \<Rightarrow> Slice option \<Rightarrow> Slice option \<Rightarrow> bool" where
  "OverlapInLevel C F v lev smallest_user_key largest_user_key =
     SomeFileOverlapsRange C (lev > 0) (map F (v_files v ! lev)) smallest_user_key largest_user_key"

text \<open>
  The loop of \<^verbatim>\<open>GetOverlappingInputs\<close>; \<open>user_begin\<close> and \<open>user_end\<close> are \<open>None\<close> if \<^verbatim>\<open>begin\<close> and \<^verbatim>\<open>end\<close> are null.  It restarts
  whenever a file of the first level extends the range.
\<close>

partial_function (option) Overlapping_loop ::
  "Comparator \<Rightarrow> ('p \<Rightarrow> FileMetaData) \<Rightarrow> nat \<Rightarrow> 'p list \<Rightarrow> Slice option \<Rightarrow> Slice option \<Rightarrow> nat \<Rightarrow> 'p list \<Rightarrow> 'p list option" where
  "Overlapping_loop C F lev files user_begin user_end i inputs =
     (if i < length files then
        let f = files ! i;
            i = i + 1;
            file_start = smallest_user (F f);
            file_limit = largest_user (F f)
        in if user_begin \<noteq> None \<and> Compare C file_limit (the user_begin) < 0
           then Overlapping_loop C F lev files user_begin user_end i inputs
           else if user_end \<noteq> None \<and> Compare C file_start (the user_end) > 0
           then Overlapping_loop C F lev files user_begin user_end i inputs
           else if lev = 0 \<and> user_begin \<noteq> None \<and> Compare C file_start (the user_begin) < 0
           then Overlapping_loop C F lev files (Some file_start) user_end 0 []
           else if lev = 0 \<and> user_end \<noteq> None \<and> Compare C file_limit (the user_end) > 0
           then Overlapping_loop C F lev files user_begin (Some file_limit) 0 []
           else Overlapping_loop C F lev files user_begin user_end i (inputs @ [f])
      else Some inputs)"

definition GetOverlappingInputs ::
  "Comparator \<Rightarrow> ('p \<Rightarrow> FileMetaData) \<Rightarrow> 'p Version \<Rightarrow> nat \<Rightarrow> InternalKey option \<Rightarrow> InternalKey option \<Rightarrow> 'p list option" where
  "GetOverlappingInputs C F v lev beg en =
     Overlapping_loop C F lev (v_files v ! lev) (map_option ExtractUserKey beg) (map_option ExtractUserKey en) 0 []"

function PickLevel_loop :: "Comparator \<Rightarrow> ('p \<Rightarrow> FileMetaData) \<Rightarrow> 'p Version \<Rightarrow> Slice \<Rightarrow> Slice \<Rightarrow> nat \<Rightarrow> nat option" where
  "PickLevel_loop C F v smallest_user_key largest_user_key lev =
     (if lev < kMaxMemCompactLevel then
        if OverlapInLevel C F v (lev + 1) (Some smallest_user_key) (Some largest_user_key) then Some lev
        else if lev + 2 < kNumLevels then
          (case GetOverlappingInputs C F v (lev + 2) (Some (InternalKey_make smallest_user_key kMaxSequenceNumber kValueTypeForSeek))
                  (Some (InternalKey_make largest_user_key 0 kTypeDeletion)) of
             None \<Rightarrow> None
           | Some files \<Rightarrow>
               if sint (TotalFileSize (map F files)) > kMaxGrandParentOverlapBytes then Some lev
               else PickLevel_loop C F v smallest_user_key largest_user_key (lev + 1))
        else PickLevel_loop C F v smallest_user_key largest_user_key (lev + 1)
      else Some lev)"
  by pat_completeness auto
termination by (relation "measure (\<lambda>(_, _, _, _, _, lev). kMaxMemCompactLevel - lev)") auto

declare PickLevel_loop.simps [simp del]

definition PickLevelForMemTableOutput :: "Comparator \<Rightarrow> ('p \<Rightarrow> FileMetaData) \<Rightarrow> 'p Version \<Rightarrow> Slice \<Rightarrow> Slice \<Rightarrow> nat option" where
  "PickLevelForMemTableOutput C F v smallest_user_key largest_user_key =
     (if \<not> OverlapInLevel C F v 0 (Some smallest_user_key) (Some largest_user_key)
      then PickLevel_loop C F v smallest_user_key largest_user_key 0 else Some 0)"

subsubsection \<open>Printing\<close>

definition file_DebugString :: "bytes \<Rightarrow> FileMetaData \<Rightarrow> bytes" where
  "file_DebugString r f =
     AppendNumberTo (AppendNumberTo (r @ str '' '') (fm_number f) @ str '':'') (fm_file_size f)
       @ str ''['' @ InternalKey_DebugString (fm_smallest f) @ str '' .. '' @ InternalKey_DebugString (fm_largest f) @ str ('']'' @ [CHR 0x0A])"

definition Version_DebugString :: "('p \<Rightarrow> FileMetaData) \<Rightarrow> 'p Version \<Rightarrow> bytes" where
  "Version_DebugString F v =
     foldl (\<lambda>r lev. foldl file_DebugString (AppendNumberTo (r @ str ''--- level '') (of_nat lev) @ str ('' ---'' @ [CHR 0x0A])) (map F (v_files v ! lev)))
       [] [0..<kNumLevels]"

subsection \<open>The overlapping inputs\<close>

text \<open>The files that overlap a range, or a file that was reached.\<close>

abbreviation file_overlaps :: "Comparator \<Rightarrow> FileMetaData \<Rightarrow> FileMetaData \<Rightarrow> bool" where
  "file_overlaps C f g \<equiv> overlaps C (Some (smallest_user f)) (Some (largest_user f)) g"

inductive reached :: "Comparator \<Rightarrow> ('p \<Rightarrow> FileMetaData) \<Rightarrow> 'p list \<Rightarrow> Slice option \<Rightarrow> Slice option \<Rightarrow> 'p \<Rightarrow> bool" for C F files b e where
  base: "p \<in> set files \<Longrightarrow> overlaps C b e (F p) \<Longrightarrow> reached C F files b e p"
| step: "reached C F files b e q \<Longrightarrow> p \<in> set files \<Longrightarrow> file_overlaps C (F q) (F p) \<Longrightarrow> reached C F files b e p"

definition in_range :: "Comparator \<Rightarrow> Slice option \<Rightarrow> Slice option \<Rightarrow> FileMetaData \<Rightarrow> bool" where
  "in_range C b e f \<longleftrightarrow> (case b of None \<Rightarrow> True | Some b \<Rightarrow> \<not> Compare C (smallest_user f) b < 0)
     \<and> (case e of None \<Rightarrow> True | Some e \<Rightarrow> \<not> Compare C (largest_user f) e > 0)"

definition range_weight :: "Comparator \<Rightarrow> FileMetaData list \<Rightarrow> Slice option \<Rightarrow> Slice option \<Rightarrow> nat" where
  "range_weight C fs b e = (case b of None \<Rightarrow> 0 | Some b \<Rightarrow> length (filter (\<lambda>f. Compare C (smallest_user f) b < 0) fs))
     + (case e of None \<Rightarrow> 0 | Some e \<Rightarrow> length (filter (\<lambda>f. Compare C (largest_user f) e > 0) fs))"

lemma length_filter_strict:
  assumes "\<And>x. x \<in> set xs \<Longrightarrow> P x \<Longrightarrow> Q x" and "y \<in> set xs" and "Q y" and "\<not> P y"
  shows "length (filter P xs) < length (filter Q xs)"
  using assms
proof (induction xs)
  case (Cons x xs)
  have "length (filter P ys) \<le> length (filter Q ys)" if "set ys \<subseteq> set xs" for ys
    using that Cons.prems(1) by (induction ys) auto
  then show ?case using Cons by (cases "y \<in> set xs") (auto simp: less_Suc_eq_le)
qed simp

context key_comparator
begin

lemma range_weight_less:
  assumes "f \<in> set fs"
  shows "Compare C (smallest_user f) b < 0 \<Longrightarrow> range_weight C fs (Some (smallest_user f)) e < range_weight C fs (Some b) e"
    and "Compare C (largest_user f) e' > 0 \<Longrightarrow> range_weight C fs b' (Some (largest_user f)) < range_weight C fs b' (Some e')"
proof -
  assume lt: "Compare C (smallest_user f) b < 0"
  have "length (filter (\<lambda>g. Compare C (smallest_user g) (smallest_user f) < 0) fs) < length (filter (\<lambda>g. Compare C (smallest_user g) b < 0) fs)"
    by (rule length_filter_strict [of fs _ _ f]) (use assms lt user.cmp_less_trans in auto)
  then show "range_weight C fs (Some (smallest_user f)) e < range_weight C fs (Some b) e" by (simp add: range_weight_def)
next
  assume lt: "Compare C (largest_user f) e' > 0"
  have "length (filter (\<lambda>g. Compare C (largest_user g) (largest_user f) > 0) fs) < length (filter (\<lambda>g. Compare C (largest_user g) e' > 0) fs)"
  proof (rule length_filter_strict [of fs _ _ f])
    show "0 < Compare C (largest_user g) e'" if "0 < Compare C (largest_user g) (largest_user f)" for g
      using user.cmp_less_trans [of e' "largest_user f" "largest_user g"] that lt Compare_swap by blast
  qed (use assms lt in auto)
  then show "range_weight C fs b' (Some (largest_user f)) < range_weight C fs b' (Some e')" by (simp add: range_weight_def)
qed

lemma overlaps_alt:
  "overlaps C b e f \<longleftrightarrow> \<not> (b \<noteq> None \<and> Compare C (largest_user f) (the b) < 0) \<and> \<not> (e \<noteq> None \<and> Compare C (smallest_user f) (the e) > 0)"
  using Compare_swap by (auto simp: overlaps_def AfterFile_def BeforeFile_def split: option.splits)

lemma overlaps_within:
  assumes "in_range C b e f" and "file_overlaps C f g"
  shows "overlaps C b e g"
proof -
  have "Compare C (smallest_user f) (largest_user g) \<le> 0" "Compare C (smallest_user g) (largest_user f) \<le> 0"
    using assms(2) Compare_swap by (auto simp: overlaps_def AfterFile_def BeforeFile_def)
  then show ?thesis using assms(1) user.cmp_less_le_trans user.cmp_le_less_trans Compare_swap
    unfolding overlaps_alt in_range_def by (auto split: option.splits)
qed

text \<open>The files in a level are not empty: the smallest key is not after the largest.\<close>

lemma reached_extend:
  assumes "\<And>p. p \<in> set files \<Longrightarrow> overlaps C b e (F p) \<Longrightarrow> reached C F files b0 e0 p"
    and "\<And>p. p \<in> set files \<Longrightarrow> Compare C (smallest_user (F p)) (largest_user (F p)) \<le> 0"
    and q: "q \<in> set files" "overlaps C b e (F q)" and p: "p \<in> set files"
  shows "overlaps C (Some (smallest_user (F q))) e (F p) \<Longrightarrow> reached C F files b0 e0 p"
    and "overlaps C b (Some (largest_user (F q))) (F p) \<Longrightarrow> reached C F files b0 e0 p"
proof -
  note rq = assms(1) [OF q]
  have "overlaps C b e (F p) \<or> file_overlaps C (F q) (F p)" if "overlaps C (Some (smallest_user (F q))) e (F p)"
  proof (cases "b \<noteq> None \<and> Compare C (largest_user (F p)) (the b) < 0")
    case True
    then have "Compare C (largest_user (F p)) (largest_user (F q)) < 0"
      using q(2) user.cmp_less_le_trans [of "largest_user (F p)" "the b" "largest_user (F q)"] Compare_swap by (auto simp: overlaps_alt)
    then have "Compare C (smallest_user (F p)) (largest_user (F q)) < 0" using assms(2) [OF p] user.cmp_le_less_trans by blast
    then show ?thesis using that by (simp add: overlaps_alt)
  qed (use that in \<open>auto simp: overlaps_alt\<close>)
  then show "overlaps C (Some (smallest_user (F q))) e (F p) \<Longrightarrow> reached C F files b0 e0 p"
    using assms(1) [OF p] reached.step [OF rq p] by blast
  have "overlaps C b e (F p) \<or> file_overlaps C (F q) (F p)" if "overlaps C b (Some (largest_user (F q))) (F p)"
  proof (cases "e \<noteq> None \<and> Compare C (smallest_user (F p)) (the e) > 0")
    case True
    then have "Compare C (smallest_user (F q)) (smallest_user (F p)) < 0"
      using q(2) user.cmp_le_less_trans [of "smallest_user (F q)" "the e" "smallest_user (F p)"] Compare_swap by (auto simp: overlaps_alt)
    then have "Compare C (smallest_user (F q)) (largest_user (F p)) < 0" using assms(2) [OF p] user.cmp_less_le_trans by blast
    then have "\<not> Compare C (largest_user (F p)) (smallest_user (F q)) < 0" using Compare_swap [of "largest_user (F p)"] by simp
    then show ?thesis using that by (simp add: overlaps_alt)
  qed (use that in \<open>auto simp: overlaps_alt\<close>)
  then show "overlaps C b (Some (largest_user (F q))) (F p) \<Longrightarrow> reached C F files b0 e0 p"
    using assms(1) [OF p] reached.step [OF rq p] by blast
qed

lemma overlaps_wider:
  "Compare C k b < 0 \<Longrightarrow> overlaps C (Some b) e f \<Longrightarrow> overlaps C (Some k) e f"
  "Compare C k e' > 0 \<Longrightarrow> overlaps C b' (Some e') f \<Longrightarrow> overlaps C b' (Some k) f"
proof -
  show "overlaps C (Some k) e f" if "Compare C k b < 0" "overlaps C (Some b) e f"
    using that user.cmp_less_trans [of "largest_user f" k b] by (auto simp: overlaps_alt)
  have "0 < Compare C (smallest_user f) e'" if "Compare C k e' > 0" "0 < Compare C (smallest_user f) k"
    using that user.cmp_less_trans [of e' k "smallest_user f"] Compare_swap by blast
  then show "overlaps C b' (Some k) f" if "Compare C k e' > 0" "overlaps C b' (Some e') f"
    using that by (auto simp: overlaps_alt)
qed

lemma Overlapping_loop_step:
  assumes "i < length files"
  shows "Overlapping_loop C F lev files b e i inputs =
    (if \<not> overlaps C b e (F (files ! i)) then Overlapping_loop C F lev files b e (Suc i) inputs
     else if lev = 0 \<and> b \<noteq> None \<and> Compare C (smallest_user (F (files ! i))) (the b) < 0
     then Overlapping_loop C F lev files (Some (smallest_user (F (files ! i)))) e 0 []
     else if lev = 0 \<and> e \<noteq> None \<and> Compare C (largest_user (F (files ! i))) (the e) > 0
     then Overlapping_loop C F lev files b (Some (largest_user (F (files ! i)))) 0 []
     else Overlapping_loop C F lev files b e (Suc i) (inputs @ [files ! i]))"
proof (cases "overlaps C b e (F (files ! i))")
  case True
  then have "\<not> (b \<noteq> None \<and> Compare C (largest_user (F (files ! i))) (the b) < 0)" "\<not> (e \<noteq> None \<and> Compare C (smallest_user (F (files ! i))) (the e) > 0)"
    by (simp_all only: overlaps_alt) auto
  then show ?thesis using assms True by (subst Overlapping_loop.simps) (simp only: Let_def if_True if_False not_True_eq_False Suc_eq_plus1 simp_thms)
next
  case False
  then have "b \<noteq> None \<and> Compare C (largest_user (F (files ! i))) (the b) < 0 \<or> e \<noteq> None \<and> Compare C (smallest_user (F (files ! i))) (the e) > 0"
    by (simp only: overlaps_alt) blast
  then show ?thesis using assms False
    by (subst Overlapping_loop.simps) (elim disjE, simp_all only: Let_def if_True if_False not_False_eq_True Suc_eq_plus1 simp_thms if_cancel)
qed

lemma Overlapping_loop_reached:
  assumes lim: "\<And>p. p \<in> set files \<Longrightarrow> Compare C (smallest_user (F p)) (largest_user (F p)) \<le> 0"
    and "i \<le> length files" and "inputs = filter (\<lambda>p. overlaps C b e (F p)) (take i files)"
    and "\<And>p. p \<in> set inputs \<Longrightarrow> in_range C b e (F p)"
    and "\<And>p. p \<in> set files \<Longrightarrow> overlaps C b e (F p) \<Longrightarrow> reached C F files b0 e0 p"
    and "\<And>p. overlaps C b0 e0 (F p) \<Longrightarrow> overlaps C b e (F p)"
  shows "Overlapping_loop C F 0 files b e i inputs = Some (filter (reached C F files b0 e0) files)"
  using assms(2-6)
proof (induction "range_weight C (map F files) b e * Suc (length files) + (length files - i)" arbitrary: b e i inputs rule: less_induct)
  case less
  show ?case
  proof (cases "i < length files")
    case False
    then have inp: "inputs = filter (\<lambda>p. overlaps C b e (F p)) files" using less.prems by simp
    have "overlaps C b e (F p)" if "reached C F files b0 e0 p" for p
      using that
    proof (induction rule: reached.induct)
      case (step q p)
      then have "q \<in> set inputs" using inp by (auto elim: reached.cases)
      then show ?case using less.prems(3) overlaps_within step by blast
    qed (use less.prems in blast)
    then have "filter (reached C F files b0 e0) files = inputs" unfolding inp using less.prems(4) by (intro filter_cong) auto
    then show ?thesis using False by (simp add: Overlapping_loop.simps)
  next
    case True
    let ?f = "files ! i"
    have f: "?f \<in> set files" using True by simp
    note unf = Overlapping_loop_step [OF True, of F 0 b e inputs]
    have tk: "take (Suc i) files = take i files @ [?f]" using True by (simp add: take_Suc_conv_app_nth)
    have w: "w' * Suc n + n < w * Suc n + m" if "w' < w" for w' w n m :: nat
    proof -
      have "Suc w' * Suc n \<le> w * Suc n" using that by (intro mult_le_mono1) simp
      then show ?thesis by simp
    qed
    show ?thesis
    proof (cases "overlaps C b e (F ?f)")
      case ov: False
      have "Overlapping_loop C F 0 files b e (Suc i) inputs = Some (filter (reached C F files b0 e0) files)"
        using less.prems True ov by (intro less.hyps) (auto simp: tk)
      then show ?thesis unfolding unf using ov by auto
    next
      case ov: True
      consider (b) b1 where "b = Some b1" "Compare C (smallest_user (F ?f)) b1 < 0"
        | (e) e1 where "e = Some e1" "Compare C (largest_user (F ?f)) e1 > 0" "\<not> (b \<noteq> None \<and> Compare C (smallest_user (F ?f)) (the b) < 0)"
        | (in_range) "in_range C b e (F ?f)" "\<not> (b \<noteq> None \<and> Compare C (smallest_user (F ?f)) (the b) < 0)" "\<not> (e \<noteq> None \<and> Compare C (largest_user (F ?f)) (the e) > 0)"
        by (cases b; cases e) (auto simp: in_range_def)
      then show ?thesis
      proof cases
        case b
        have "Overlapping_loop C F 0 files (Some (smallest_user (F ?f))) e 0 [] = Some (filter (reached C F files b0 e0) files)"
        proof (rule less.hyps)
          show "range_weight C (map F files) (Some (smallest_user (F ?f))) e * Suc (length files) + (length files - 0)
              < range_weight C (map F files) b e * Suc (length files) + (length files - i)"
            unfolding b(1) minus_nat.diff_0 by (intro w range_weight_less) (use f b in auto)
        qed (use b ov f less.prems reached_extend(1) [OF less.prems(4) lim f ov] overlaps_wider(1) in auto)
        then show ?thesis unfolding unf using ov b by auto
      next
        case e
        have "Overlapping_loop C F 0 files b (Some (largest_user (F ?f))) 0 [] = Some (filter (reached C F files b0 e0) files)"
        proof (rule less.hyps)
          show "range_weight C (map F files) b (Some (largest_user (F ?f))) * Suc (length files) + (length files - 0)
              < range_weight C (map F files) b e * Suc (length files) + (length files - i)"
            unfolding e(1) minus_nat.diff_0 by (intro w range_weight_less) (use f e in auto)
        qed (use e ov f less.prems reached_extend(2) [OF less.prems(4) lim f ov] overlaps_wider(2) in auto)
        then show ?thesis unfolding unf using ov e by auto
      next
        case in_range
        have "Overlapping_loop C F 0 files b e (Suc i) (inputs @ [?f]) = Some (filter (reached C F files b0 e0) files)"
          using less.prems True ov in_range(1) by (intro less.hyps) (auto simp: tk)
        then show ?thesis unfolding unf using ov in_range(2,3) by auto
      qed
    qed
  qed
qed

lemma Overlapping_loop_filter:
  assumes "0 < lev" and "i \<le> length files"
  shows "Overlapping_loop C F lev files b e i inputs = Some (inputs @ filter (\<lambda>p. overlaps C b e (F p)) (drop i files))"
  using assms(2)
proof (induction "length files - i" arbitrary: i inputs)
  case 0
  then show ?case by (simp add: Overlapping_loop.simps)
next
  case (Suc n)
  then have i: "i < length files" by simp
  have "drop i files = files ! i # drop (Suc i) files" using i by (simp add: Cons_nth_drop_Suc)
  then show ?case using Suc.hyps(1) [of "Suc i"] Suc.hyps(2) i assms(1) by (simp add: Overlapping_loop_step [OF i])
qed

lemma GetOverlappingInputs_above:
  assumes "0 < lev"
  shows "GetOverlappingInputs C F v lev b e
    = Some (filter (\<lambda>p. overlaps C (map_option ExtractUserKey b) (map_option ExtractUserKey e) (F p)) (v_files v ! lev))"
  unfolding GetOverlappingInputs_def by (simp add: Overlapping_loop_filter [OF assms])

lemma GetOverlappingInputs_zero:
  assumes "\<And>p. p \<in> set (v_files v ! 0) \<Longrightarrow> Compare C (smallest_user (F p)) (largest_user (F p)) \<le> 0"
  shows "GetOverlappingInputs C F v 0 b e
    = Some (filter (reached C F (v_files v ! 0) (map_option ExtractUserKey b) (map_option ExtractUserKey e)) (v_files v ! 0))"
  unfolding GetOverlappingInputs_def by (rule Overlapping_loop_reached) (use assms reached.base in auto)

lemma OverlapInLevel_iff:
  assumes "0 < lev \<Longrightarrow> disjoint_sorted C (map F (v_files v ! lev))"
  shows "OverlapInLevel C F v lev s l \<longleftrightarrow> (\<exists>p \<in> set (v_files v ! lev). overlaps C s l (F p))"
  unfolding OverlapInLevel_def using SomeFileOverlapsRange_iff [of "0 < lev"] assms by simp

lemma PickLevel_loop_spec:
  assumes "\<And>j. 0 < j \<Longrightarrow> j < kNumLevels \<Longrightarrow> disjoint_sorted C (map F (v_files v ! j))" and "lev \<le> kMaxMemCompactLevel"
  shows "\<exists>r. PickLevel_loop C F v s l lev = Some r \<and> lev \<le> r \<and> r \<le> kMaxMemCompactLevel
    \<and> (\<forall>j. lev < j \<longrightarrow> j \<le> r \<longrightarrow> (\<forall>p \<in> set (v_files v ! j). \<not> overlaps C (Some s) (Some l) (F p)))"
  using assms(2)
proof (induction "kMaxMemCompactLevel - lev" arbitrary: lev)
  case 0
  then show ?case by (subst PickLevel_loop.simps) simp
next
  case (Suc n)
  then have lt: "lev < kMaxMemCompactLevel" and n: "lev + 2 < kNumLevels" by (simp_all add: kMaxMemCompactLevel_def kNumLevels_def)
  note ov = OverlapInLevel_iff [OF assms(1), of "lev + 1" "Some s" "Some l"]
  show ?case
  proof (cases "OverlapInLevel C F v (lev + 1) (Some s) (Some l)")
    case True
    then show ?thesis using lt by (subst PickLevel_loop.simps) simp
  next
    case False
    then have free: "\<forall>p \<in> set (v_files v ! Suc lev). \<not> overlaps C (Some s) (Some l) (F p)" using ov n by auto
    obtain r where r: "PickLevel_loop C F v s l (lev + 1) = Some r" "Suc lev \<le> r" "r \<le> kMaxMemCompactLevel"
      "\<forall>j. Suc lev < j \<longrightarrow> j \<le> r \<longrightarrow> (\<forall>p \<in> set (v_files v ! j). \<not> overlaps C (Some s) (Some l) (F p))"
      using Suc.hyps(1) [of "Suc lev"] Suc.hyps(2) lt by fastforce
    then have "\<forall>j. lev < j \<longrightarrow> j \<le> r \<longrightarrow> (\<forall>p \<in> set (v_files v ! j). \<not> overlaps C (Some s) (Some l) (F p))"
      using free by (metis Suc_lessI)
    with r lt False show ?thesis
      by (subst PickLevel_loop.simps) (auto simp: GetOverlappingInputs_above)
  qed
qed

end

subsection \<open>Properties\<close>

text \<open>
  C12.  Overlap queries.  For sorted disjoint files the binary search of \<^verbatim>\<open>SomeFileOverlapsRange\<close> gives the same answer as
  its linear scan: whether some file meets the user key range, either end of which may be open.
\<close>

theorem some_file_overlaps_range:
  assumes "key_comparator C" and "disjoint_sorted C files"
  shows "SomeFileOverlapsRange C True files s l = SomeFileOverlapsRange C False files s l
    \<and> (SomeFileOverlapsRange C True files s l \<longleftrightarrow>
        (\<exists>f \<in> set files. (s = None \<or> Compare C (the s) (largest_user f) \<le> 0) \<and> (l = None \<or> Compare C (smallest_user f) (the l) \<le> 0)))"
proof -
  have "overlaps C s l f \<longleftrightarrow> (s = None \<or> Compare C (the s) (largest_user f) \<le> 0) \<and> (l = None \<or> Compare C (smallest_user f) (the l) \<le> 0)" for f
    using comparator.cmp_ge_swap [OF key_comparator.user_order [OF assms(1)], of _ "smallest_user f"]
    by (auto simp: overlaps_def AfterFile_def BeforeFile_def not_less split: option.splits)
  then show ?thesis using key_comparator.SomeFileOverlapsRange_iff [OF assms(1)] assms(2) by simp
qed

definition sample_file :: "u64 \<Rightarrow> byte \<Rightarrow> byte \<Rightarrow> FileMetaData" where
  "sample_file n a b = FileMetaData_make\<lparr>fm_number := n, fm_file_size := 1000,
     fm_smallest := InternalKey_make [a] 9 kTypeValue, fm_largest := InternalKey_make [b] 3 kTypeValue\<rparr>"

lemma sample_file_keys [simp]:
  "fm_smallest (sample_file n a b) = InternalKey_make [a] 9 kTypeValue" "fm_largest (sample_file n a b) = InternalKey_make [b] 3 kTypeValue"
  by (simp_all add: sample_file_def)

lemma sample_user_keys [simp]: "ExtractUserKey (InternalKey_make u s t) = u"
  by (simp add: InternalKey_make_def AppendInternalKey_eq)

lemma sample_order:
  "a < b \<Longrightarrow> InternalKey_Compare BytewiseComparator (InternalKey_make [a] s t) (InternalKey_make [b] s' t') < 0"
  by (simp add: InternalKey_Compare_less Slice_compare_def)

lemma sample_key: "s \<le> kMaxSequenceNumber \<Longrightarrow> ParseInternalKey (InternalKey_make [a] s t) \<noteq> None \<and> key_fits (InternalKey_make [a] s t)"
  using ParseInternalKey_Append [of "\<lparr>pik_user_key = [a], pik_sequence = s, pik_type = t\<rparr>"]
  by (simp add: InternalKey_make_def) (simp add: AppendInternalKey_eq key_fits_def)

lemma sample_file_wf: "a < b \<Longrightarrow> file_wf BytewiseComparator (sample_file n a b)"
  using sample_order [of a b 9 kTypeValue 3 kTypeValue]
    sample_key [of 9 a kTypeValue] sample_key [of 3 b kTypeValue] by (simp add: file_wf_def kMaxSequenceNumber_def)

theorem some_file_overlaps_range_witness:
  "SomeFileOverlapsRange BytewiseComparator True [sample_file 1 10 20, sample_file 2 30 40] (Some [25]) (Some [29])
     = SomeFileOverlapsRange BytewiseComparator False [sample_file 1 10 20, sample_file 2 30 40] (Some [25]) (Some [29])"
proof -
  have "disjoint_sorted BytewiseComparator [sample_file 1 10 20, sample_file 2 30 40]"
    by (simp add: disjoint_sorted_def sample_file_wf sample_order)
  from some_file_overlaps_range [OF bytewise.key_comparator_axioms this] show ?thesis by blast
qed

text \<open>
  C10.  Inputs of a compaction.  \<^verbatim>\<open>GetOverlappingInputs\<close> returns; above the first level with the files that overlap the
  range; in the first level, whose files may overlap each other, with the least set that holds these files and
  every file that overlaps one of the set, so that no older file of a key is left behind.
\<close>

theorem overlapping_inputs:
  assumes "key_comparator C" and "\<forall>p \<in> set (v_files v ! lev). Compare C (smallest_user (F p)) (largest_user (F p)) \<le> 0"
  shows "GetOverlappingInputs C F v lev beg en =
    Some (filter (if lev = 0 then reached C F (v_files v ! lev) (map_option ExtractUserKey beg) (map_option ExtractUserKey en)
                  else (\<lambda>p. overlaps C (map_option ExtractUserKey beg) (map_option ExtractUserKey en) (F p))) (v_files v ! lev))"
proof (cases "lev = 0")
  case True
  then show ?thesis using key_comparator.GetOverlappingInputs_zero [OF assms(1), of v F beg en] assms(2) by simp
qed (simp add: key_comparator.GetOverlappingInputs_above [OF assms(1)])

definition sample_version :: "nat Version" where
  "sample_version = Version_make\<lparr>v_files := [[0, 1, 2], [3], [], [], [], [], []]\<rparr>"

definition sample_deref :: "nat \<Rightarrow> FileMetaData" where
  "sample_deref p = ([sample_file 1 10 30, sample_file 2 20 50, sample_file 3 60 70, sample_file 4 80 90] ! p)"

theorem overlapping_inputs_witness:
  "GetOverlappingInputs BytewiseComparator sample_deref sample_version 0 (Some (InternalKey_make [15] 9 kTypeValue)) (Some (InternalKey_make [15] 0 kTypeValue))
     = Some (filter (reached BytewiseComparator sample_deref [0, 1, 2] (Some [15]) (Some [15])) [0, 1, 2])
   \<and> reached BytewiseComparator sample_deref [0, 1, 2] (Some [15]) (Some [15]) 1"
proof
  have lim: "\<forall>p \<in> set (v_files sample_version ! 0). Compare BytewiseComparator (smallest_user (sample_deref p)) (largest_user (sample_deref p)) \<le> 0"
    by (simp add: sample_version_def sample_deref_def Slice_compare_Cons)
  show "GetOverlappingInputs BytewiseComparator sample_deref sample_version 0 (Some (InternalKey_make [15] 9 kTypeValue)) (Some (InternalKey_make [15] 0 kTypeValue))
     = Some (filter (reached BytewiseComparator sample_deref [0, 1, 2] (Some [15]) (Some [15])) [0, 1, 2])"
    unfolding overlapping_inputs [OF bytewise.key_comparator_axioms lim] by (simp add: sample_version_def)
  have "reached BytewiseComparator sample_deref [0, 1, 2] (Some [15]) (Some [15]) 0"
    by (rule reached.base) (simp_all add: sample_deref_def overlaps_def AfterFile_def BeforeFile_def Slice_compare_Cons)
  then show "reached BytewiseComparator sample_deref [0, 1, 2] (Some [15]) (Some [15]) 1"
    by (rule reached.step) (simp_all add: sample_deref_def overlaps_def AfterFile_def BeforeFile_def Slice_compare_Cons)
qed

text \<open>
  C11.  The level of a new file.  \<^verbatim>\<open>PickLevelForMemTableOutput\<close> returns a level, at most 2, and puts a table below the first
  level only if no file of that level or of a level above it overlaps its range.
\<close>

theorem memtable_output_level:
  assumes "key_comparator C" and "\<forall>j \<in> {1..<kNumLevels}. disjoint_sorted C (map F (v_files v ! j))"
  shows "\<exists>lev. PickLevelForMemTableOutput C F v s l = Some lev \<and> lev \<le> kMaxMemCompactLevel
    \<and> (lev \<noteq> 0 \<longrightarrow> (\<forall>j \<le> lev. \<forall>p \<in> set (v_files v ! j). \<not> overlaps C (Some s) (Some l) (F p)))"
proof -
  have d: "disjoint_sorted C (map F (v_files v ! j))" if "0 < j" "j < kNumLevels" for j using assms(2) that by auto
  obtain r where r: "PickLevel_loop C F v s l 0 = Some r" "r \<le> kMaxMemCompactLevel"
    "\<forall>j. 0 < j \<longrightarrow> j \<le> r \<longrightarrow> (\<forall>p \<in> set (v_files v ! j). \<not> overlaps C (Some s) (Some l) (F p))"
    using key_comparator.PickLevel_loop_spec [OF assms(1), of F v 0 s l] d by auto
  moreover have "OverlapInLevel C F v 0 (Some s) (Some l) \<longleftrightarrow> (\<exists>p \<in> set (v_files v ! 0). overlaps C (Some s) (Some l) (F p))"
    by (rule key_comparator.OverlapInLevel_iff [OF assms(1)]) simp
  ultimately show ?thesis unfolding PickLevelForMemTableOutput_def by (metis gr0I kMaxMemCompactLevel_def le0)
qed

theorem memtable_output_level_witness:
  "\<exists>lev. PickLevelForMemTableOutput BytewiseComparator sample_deref sample_version [75] [78] = Some lev \<and> lev \<le> kMaxMemCompactLevel"
proof -
  have "disjoint_sorted BytewiseComparator (map sample_deref (v_files sample_version ! j))" if "j \<in> {1..<kNumLevels}" for j
  proof -
    have "j \<in> {1, 2, 3, 4, 5, 6}" using that by (auto simp: kNumLevels_def)
    then show ?thesis by (auto simp: sample_version_def sample_deref_def disjoint_sorted_def sample_file_wf)
  qed
  then show ?thesis using memtable_output_level [OF bytewise.key_comparator_axioms, of sample_deref sample_version "[75]" "[78]"] by blast
qed

end
