(* ===== verification/VersionBuilder.thy ===== *)
theory VersionBuilder
  imports Version "HOL-Library.Multiset"
begin

text \<open>
  The helper class \<^verbatim>\<open>VersionSet::Builder\<close> of \<^verbatim>\<open>db/version_set.cc\<close>, which applies a sequence of edits to the files of a version.
  The records of files are shared between versions and counted; they live in a store of their own, \<open>FileHeap\<close>, and a
  pointer is an address in it.
\<close>

subsection \<open>Files and their reference counts\<close>

record FileHeap =
  fh_files :: "nat file_store"
  fh_next :: nat

abbreviation fh_deref :: "FileHeap \<Rightarrow> nat \<Rightarrow> FileMetaData" where
  "fh_deref H \<equiv> deref (fh_files H)"

definition FileHeap_empty :: FileHeap where
  "FileHeap_empty = \<lparr>fh_files = Map.empty, fh_next = 0\<rparr>"

definition file_new :: "FileHeap \<Rightarrow> FileMetaData \<Rightarrow> nat \<times> FileHeap" where
  "file_new H m = (fh_next H, H\<lparr>fh_files := (fh_files H)(fh_next H \<mapsto> m), fh_next := fh_next H + 1\<rparr>)"

definition file_ref :: "FileHeap \<Rightarrow> nat \<Rightarrow> FileHeap" where
  "file_ref H f = H\<lparr>fh_files := (fh_files H)(f \<mapsto> (fh_deref H f)\<lparr>fm_refs := fm_refs (fh_deref H f) + 1\<rparr>)\<rparr>"

definition file_unref :: "FileHeap \<Rightarrow> nat \<Rightarrow> FileHeap" where
  "file_unref H f =
     (let m = (fh_deref H f)\<lparr>fm_refs := fm_refs (fh_deref H f) - 1\<rparr>
      in H\<lparr>fh_files := (fh_files H)(f := (if fm_refs m \<le> 0 then None else Some m))\<rparr>)"

subsection \<open>The builder\<close>

definition BySmallestKey :: "Comparator \<Rightarrow> FileMetaData \<Rightarrow> FileMetaData \<Rightarrow> bool" where
  "BySmallestKey C f1 f2 =
     (let r = InternalKey_Compare C (fm_smallest f1) (fm_smallest f2)
      in if r \<noteq> 0 then r < 0 else fm_number f1 < fm_number f2)"

text \<open>The set \<^verbatim>\<open>added_files\<close> is the list of its elements in the order of the comparison.\<close>

record LevelState =
  ls_deleted_files :: "u64 set"
  ls_added_files :: "nat list"

primrec FileSet_insert :: "Comparator \<Rightarrow> (nat \<Rightarrow> FileMetaData) \<Rightarrow> nat \<Rightarrow> nat list \<Rightarrow> nat list" where
  "FileSet_insert C F f [] = [f]"
| "FileSet_insert C F f (g # gs) =
     (if BySmallestKey C (F f) (F g) then f # g # gs
      else if BySmallestKey C (F g) (F f) then g # FileSet_insert C F f gs
      else g # gs)"

definition Builder_make :: "LevelState list" where
  "Builder_make = replicate kNumLevels \<lparr>ls_deleted_files = {}, ls_added_files = []\<rparr>"

text \<open>The conversion of the quotient to \<^verbatim>\<open>int\<close> keeps 32 bits.\<close>

definition allowed_seeks :: "u64 \<Rightarrow> int" where
  "allowed_seeks file_size = (let n = sint (ucast (file_size div 16384) :: 32 word) in if n < 100 then 100 else n)"

definition Apply_delete :: "LevelState list \<Rightarrow> nat \<times> u64 \<Rightarrow> LevelState list" where
  "Apply_delete levels = (\<lambda>(lev, number).
     levels[lev := (levels ! lev)\<lparr>ls_deleted_files := insert number (ls_deleted_files (levels ! lev))\<rparr>])"

definition Apply_add :: "Comparator \<Rightarrow> FileHeap \<times> LevelState list \<Rightarrow> nat \<times> FileMetaData \<Rightarrow> FileHeap \<times> LevelState list" where
  "Apply_add C = (\<lambda>(H, levels) (lev, m).
     let (f, H) = file_new H (m\<lparr>fm_refs := 1, fm_allowed_seeks := allowed_seeks (fm_file_size m)\<rparr>);
         l = levels ! lev
     in (H, levels[lev := l\<lparr>ls_deleted_files := ls_deleted_files l - {fm_number m},
                             ls_added_files := FileSet_insert C (fh_deref H) f (ls_added_files l)\<rparr>]))"

definition Apply_pointers :: "bytes list \<Rightarrow> VersionEdit \<Rightarrow> bytes list" where
  "Apply_pointers compact_pointer edit = foldl (\<lambda>cp (lev, key). cp[lev := key]) compact_pointer (ve_compact_pointers edit)"

definition Builder_Apply :: "Comparator \<Rightarrow> FileHeap \<times> LevelState list \<Rightarrow> VersionEdit \<Rightarrow> FileHeap \<times> LevelState list" where
  "Builder_Apply C = (\<lambda>(H, levels) edit.
     let levels = foldl Apply_delete levels (ve_deleted_files edit)
     in foldl (Apply_add C) (H, levels) (ve_new_files edit))"

text \<open>\<^verbatim>\<open>std::upper_bound\<close> on a sorted range.\<close>

definition upper_bound :: "('a \<Rightarrow> 'a \<Rightarrow> bool) \<Rightarrow> 'a list \<Rightarrow> 'a \<Rightarrow> nat" where
  "upper_bound cmp xs x = length (takeWhile (\<lambda>y. \<not> cmp x y) xs)"

definition MaybeAddFile :: "u64 set \<Rightarrow> FileHeap \<times> nat list \<Rightarrow> nat \<Rightarrow> FileHeap \<times> nat list" where
  "MaybeAddFile deleted_files = (\<lambda>(H, files) f.
     if fm_number (fh_deref H f) \<in> deleted_files then (H, files) else (file_ref H f, files @ [f]))"

primrec SaveTo_level :: "Comparator \<Rightarrow> u64 set \<Rightarrow> nat list \<Rightarrow> nat list \<Rightarrow> FileHeap \<times> nat list \<Rightarrow> FileHeap \<times> nat list" where
  "SaveTo_level C deleted_files [] base acc = foldl (MaybeAddFile deleted_files) acc base"
| "SaveTo_level C deleted_files (a # added) base acc =
     (let n = upper_bound (\<lambda>f g. BySmallestKey C (fh_deref (fst acc) f) (fh_deref (fst acc) g)) base a;
          acc = foldl (MaybeAddFile deleted_files) acc (take n base);
          acc = MaybeAddFile deleted_files acc a
      in SaveTo_level C deleted_files added (drop n base) acc)"

primrec SaveTo_levels :: "Comparator \<Rightarrow> LevelState list \<Rightarrow> nat list list \<Rightarrow> nat list \<Rightarrow> FileHeap \<Rightarrow> FileHeap \<times> nat list list" where
  "SaveTo_levels C levels base [] H = (H, [])"
| "SaveTo_levels C levels base (lev # levs) H =
     (let l = levels ! lev;
          (H, files) = SaveTo_level C (ls_deleted_files l) (ls_added_files l) (base ! lev) (H, []);
          (H, rest) = SaveTo_levels C levels base levs H
      in (H, files # rest))"

definition Builder_SaveTo :: "Comparator \<Rightarrow> LevelState list \<Rightarrow> nat Version \<Rightarrow> FileHeap \<Rightarrow> FileHeap \<times> nat Version" where
  "Builder_SaveTo C levels base H =
     (let (H, files) = SaveTo_levels C levels (v_files base) [0..<kNumLevels] H
      in (H, Version_make\<lparr>v_files := files\<rparr>))"

text \<open>The part of the destructor that drops the references to the added files.\<close>

definition Builder_delete :: "LevelState list \<Rightarrow> FileHeap \<Rightarrow> FileHeap" where
  "Builder_delete levels H = foldl file_unref H (concat (map ls_added_files levels))"

subsection \<open>Reference counts are exact\<close>

text \<open>\<open>R\<close> is the multiset of the references to files.\<close>

definition heap_ok :: "FileHeap \<Rightarrow> nat multiset \<Rightarrow> bool" where
  "heap_ok H R \<longleftrightarrow> dom (fh_files H) = set_mset R \<and> (\<forall>f m. fh_files H f = Some m \<longrightarrow> fm_refs m = int (count R f))
     \<and> (\<forall>f \<in># R. f < fh_next H)"

text \<open>What the operations keep of a file.\<close>

definition file_key :: "FileMetaData \<Rightarrow> u64 \<times> u64 \<times> Slice \<times> Slice" where
  "file_key m = (fm_number m, fm_file_size m, fm_smallest m, fm_largest m)"

definition heap_keeps :: "nat multiset \<Rightarrow> FileHeap \<Rightarrow> FileHeap \<Rightarrow> bool" where
  "heap_keeps R H H' \<longleftrightarrow> (\<forall>f \<in># R. file_key (fh_deref H' f) = file_key (fh_deref H f))"

lemma heap_ok_live: "heap_ok H R \<Longrightarrow> f \<in># R \<Longrightarrow> \<exists>m. fh_files H f = Some m \<and> fm_refs m = int (count R f)"
  unfolding heap_ok_def by (metis domD)

lemma heap_ok_empty: "heap_ok FileHeap_empty {#}"
  by (simp add: heap_ok_def FileHeap_empty_def)

lemma heap_ok_new:
  assumes "heap_ok H R" and "fm_refs m = 1" and "file_new H m = (f, H')"
  shows "heap_ok H' (add_mset f R)" and "f \<notin># R" and "fh_deref H' f = m" and "heap_keeps R H H'"
proof -
  have f: "f = fh_next H" "H' = H\<lparr>fh_files := (fh_files H)(f \<mapsto> m), fh_next := f + 1\<rparr>" using assms(3) by (auto simp: file_new_def)
  then show nf: "f \<notin># R" using assms(1) by (auto simp: heap_ok_def)
  then have "count R f = 0" by (simp add: not_in_iff)
  then show "heap_ok H' (add_mset f R)" using assms(1,2) f unfolding heap_ok_def by (auto simp: less_Suc_eq)
  show "fh_deref H' f = m" "heap_keeps R H H'" using f(2) nf by (auto simp: heap_keeps_def)
qed

lemma heap_ok_ref:
  assumes "heap_ok H R" and "f \<in># R"
  shows "heap_ok (file_ref H f) (add_mset f R)" and "file_key (fh_deref (file_ref H f) g) = file_key (fh_deref H g)"
proof -
  obtain m where m: "fh_files H f = Some m" "fm_refs m = int (count R f)" using heap_ok_live [OF assms] by blast
  then show "heap_ok (file_ref H f) (add_mset f R)" using assms unfolding heap_ok_def by (auto simp: file_ref_def)
  show "file_key (fh_deref (file_ref H f) g) = file_key (fh_deref H g)" by (simp add: file_ref_def file_key_def)
qed

lemma heap_ok_unref:
  assumes "heap_ok H (add_mset f R)"
  shows "heap_ok (file_unref H f) R" and "heap_keeps R H (file_unref H f)"
proof -
  obtain m where m: "fh_files H f = Some m" "fm_refs m = int (count R f) + 1" using heap_ok_live [OF assms, of f] by auto
  show "heap_ok (file_unref H f) R"
  proof (cases "f \<in># R")
    case True
    then show ?thesis using assms m unfolding heap_ok_def by (auto simp: file_unref_def Let_def insert_absorb count_eq_zero_iff)
  next
    case False
    then have "count R f = 0" by (simp add: not_in_iff)
    then show ?thesis using assms m False unfolding heap_ok_def by (auto simp: file_unref_def Let_def)
  qed
  show "heap_keeps R H (file_unref H f)"
    using m by (auto simp: heap_keeps_def file_unref_def file_key_def Let_def count_eq_zero_iff)
qed

lemma heap_keeps_refl: "heap_keeps R H H"
  by (simp add: heap_keeps_def)

lemma heap_keeps_trans: "heap_keeps R H H' \<Longrightarrow> heap_keeps R' H' H'' \<Longrightarrow> R \<subseteq># R' \<Longrightarrow> heap_keeps R H H''"
  unfolding heap_keeps_def by (metis mset_subset_eqD)

lemma heap_ok_unrefs:
  "heap_ok H (mset fs + R) \<Longrightarrow> heap_ok (foldl file_unref H fs) R \<and> heap_keeps R H (foldl file_unref H fs)"
proof (induction fs arbitrary: H)
  case (Cons f fs)
  from Cons.prems have ok: "heap_ok H (add_mset f (mset fs + R))" by simp
  note u = heap_ok_unref [OF ok]
  have "heap_keeps R H (file_unref H f)" using u(2) by (simp add: heap_keeps_def)
  moreover have ih: "heap_ok (foldl file_unref (file_unref H f) fs) R" "heap_keeps R (file_unref H f) (foldl file_unref (file_unref H f) fs)"
    using Cons.IH [OF u(1)] by blast+
  ultimately show ?case using heap_keeps_trans [of R H "file_unref H f" R] by simp
qed (simp add: heap_keeps_refl)

subsection \<open>What the builder saves\<close>

lemma BySmallestKey_key:
  "file_key a = file_key a' \<Longrightarrow> file_key b = file_key b' \<Longrightarrow> BySmallestKey C a b = BySmallestKey C a' b'"
  by (simp add: file_key_def BySmallestKey_def Let_def)

primrec merge_files :: "Comparator \<Rightarrow> (nat \<Rightarrow> FileMetaData) \<Rightarrow> nat list \<Rightarrow> nat list \<Rightarrow> nat list" where
  "merge_files C F [] base = base"
| "merge_files C F (a # added) base =
     (let n = upper_bound (\<lambda>f g. BySmallestKey C (F f) (F g)) base a in take n base @ a # merge_files C F added (drop n base))"

lemma merge_files_key: "(\<And>f. file_key (F f) = file_key (G f)) \<Longrightarrow> merge_files C F added base = merge_files C G added base"
  using BySmallestKey_key [of "F _" "G _" "F _" "G _" C] by (induction added arbitrary: base) (simp_all add: upper_bound_def)

lemma mset_merge_files: "mset (merge_files C F added base) = mset added + mset base"
proof (induction added arbitrary: base)
  case (Cons a added)
  let ?n = "upper_bound (\<lambda>f g. BySmallestKey C (F f) (F g)) base a"
  have "mset base = mset (take ?n base) + mset (drop ?n base)" by (metis append_take_drop_id mset_append)
  then show ?case using Cons.IH [of "drop ?n base"] by (simp add: Let_def)
qed simp

lemma MaybeAddFile_fold:
  fixes del :: "u64 set"
  assumes "heap_ok H R" and "set fs \<subseteq> set_mset R"
  defines "keep \<equiv> filter (\<lambda>f. fm_number (fh_deref H f) \<notin> del) fs"
  shows "\<exists>H'. foldl (MaybeAddFile del) (H, acc) fs = (H', acc @ keep) \<and> heap_ok H' (mset keep + R)
    \<and> (\<forall>f. file_key (fh_deref H' f) = file_key (fh_deref H f))"
  using assms(1,2) unfolding keep_def
proof (induction fs arbitrary: H R acc)
  case (Cons f fs)
  show ?case
  proof (cases "fm_number (fh_deref H f) \<in> del")
    case True
    then show ?thesis using Cons.IH [OF Cons.prems(1), of acc] Cons.prems(2) by (simp add: MaybeAddFile_def)
  next
    case False
    note r = heap_ok_ref [OF Cons.prems(1), of f]
    have num: "fm_number (fh_deref (file_ref H f) g) = fm_number (fh_deref H g)" for g
      using r(2) [of g] Cons.prems(2) by (simp add: file_key_def)
    obtain H' where "foldl (MaybeAddFile del) (file_ref H f, acc @ [f]) fs
        = (H', (acc @ [f]) @ filter (\<lambda>f. fm_number (fh_deref H f) \<notin> del) fs)"
      "heap_ok H' (mset (filter (\<lambda>f. fm_number (fh_deref H f) \<notin> del) fs) + add_mset f R)"
      "\<forall>g. file_key (fh_deref H' g) = file_key (fh_deref H g)"
      using Cons.IH [OF r(1), of "acc @ [f]"] Cons.prems(2) r(2) unfolding num by auto
    then show ?thesis using False by (auto simp: MaybeAddFile_def)
  qed
qed auto

lemma SaveTo_level_files:
  fixes del :: "u64 set" and C :: Comparator
  assumes "heap_ok H R" and "set added \<subseteq> set_mset R" and "set base \<subseteq> set_mset R"
  defines "keep \<equiv> filter (\<lambda>f. fm_number (fh_deref H f) \<notin> del) (merge_files C (fh_deref H) added base)"
  shows "\<exists>H'. SaveTo_level C del added base (H, acc) = (H', acc @ keep) \<and> heap_ok H' (mset keep + R)
    \<and> (\<forall>f. file_key (fh_deref H' f) = file_key (fh_deref H f))"
  using assms(1-3) unfolding keep_def
proof (induction added arbitrary: base H R acc)
  case Nil
  then show ?case using MaybeAddFile_fold [OF Nil(1), of base] by simp
next
  case (Cons a added)
  let ?n = "upper_bound (\<lambda>f g. BySmallestKey C (fh_deref H f) (fh_deref H g)) base a" and ?ok = "\<lambda>f. fm_number (fh_deref H f) \<notin> del"
  have "set (take ?n base @ [a]) \<subseteq> set_mset R" using Cons.prems set_take_subset [of ?n base] by auto
  from MaybeAddFile_fold [OF Cons.prems(1) this, of del acc] obtain H1 where
    h1: "foldl (MaybeAddFile del) (H, acc) (take ?n base @ [a]) = (H1, acc @ filter ?ok (take ?n base @ [a]))"
      "heap_ok H1 (mset (filter ?ok (take ?n base @ [a])) + R)" "\<forall>f. file_key (fh_deref H1 f) = file_key (fh_deref H f)" by blast
  have num: "fm_number (fh_deref H1 f) = fm_number (fh_deref H f)" for f using h1(3) by (auto simp: file_key_def)
  have mrg: "merge_files C (fh_deref H1) added (drop ?n base) = merge_files C (fh_deref H) added (drop ?n base)"
    by (rule merge_files_key) (use h1(3) in simp)
  have sub: "set added \<subseteq> set_mset (mset (filter ?ok (take ?n base @ [a])) + R)" "set (drop ?n base) \<subseteq> set_mset (mset (filter ?ok (take ?n base @ [a])) + R)"
    using Cons.prems set_drop_subset [of ?n base] by auto
  obtain H2 where h2: "SaveTo_level C del added (drop ?n base) (H1, acc @ filter ?ok (take ?n base @ [a]))
      = (H2, (acc @ filter ?ok (take ?n base @ [a])) @ filter ?ok (merge_files C (fh_deref H) added (drop ?n base)))"
    "heap_ok H2 (mset (filter ?ok (merge_files C (fh_deref H) added (drop ?n base))) + (mset (filter ?ok (take ?n base @ [a])) + R))"
    "\<forall>f. file_key (fh_deref H2 f) = file_key (fh_deref H1 f)"
    using Cons.IH [OF h1(2) sub, of "acc @ filter ?ok (take ?n base @ [a])"] unfolding num mrg by blast
  have "SaveTo_level C del (a # added) base (H, acc)
      = SaveTo_level C del added (drop ?n base) (foldl (MaybeAddFile del) (H, acc) (take ?n base @ [a]))" by (simp add: Let_def)
  then show ?case using h1(1,3) h2 by (auto simp: Let_def ac_simps)
qed

text \<open>The order of the files of a level.\<close>

definition files_ordered :: "Comparator \<Rightarrow> (nat \<Rightarrow> FileMetaData) \<Rightarrow> nat list \<Rightarrow> bool" where
  "files_ordered C F fs \<longleftrightarrow> sorted_wrt (\<lambda>f g. BySmallestKey C (F f) (F g)) fs"

lemma files_ordered_key: "(\<And>f. f \<in> set fs \<Longrightarrow> file_key (F f) = file_key (G f)) \<Longrightarrow> files_ordered C F fs \<longleftrightarrow> files_ordered C G fs"
proof (induction fs)
  case (Cons f fs)
  have "BySmallestKey C (F f) (F g) = BySmallestKey C (G f) (G g)" if "g \<in> set fs" for g
    using Cons.prems that by (intro BySmallestKey_key) auto
  then show ?case using Cons by (auto simp: files_ordered_def)
qed (simp add: files_ordered_def)

context key_comparator
begin

lemma BySmallestKey_trans: "BySmallestKey C a b \<Longrightarrow> BySmallestKey C b c \<Longrightarrow> BySmallestKey C a c"
  unfolding BySmallestKey_def Let_def
  by (smt (verit, best) ikey.cmp_less_trans ikey.cmp_zero_left ikey.cmp_zero_right ikey.cmp_zero_swap ikey.cmp_swap order_less_trans)

lemma BySmallestKey_total: "fm_number a \<noteq> fm_number b \<Longrightarrow> \<not> BySmallestKey C a b \<Longrightarrow> BySmallestKey C b a"
  unfolding BySmallestKey_def Let_def using ikey.cmp_swap [of "fm_smallest b" "fm_smallest a"] ikey.cmp_zero_swap [of "fm_smallest a" "fm_smallest b"]
  by (auto split: if_splits)

lemma BySmallestKey_irrefl: "\<not> BySmallestKey C a a"
  by (simp add: BySmallestKey_def)

lemma FileSet_insert_ordered:
  assumes "files_ordered C F fs" and "\<forall>g \<in> set fs. fm_number (F g) \<noteq> fm_number (F f)"
  shows "files_ordered C F (FileSet_insert C F f fs) \<and> mset (FileSet_insert C F f fs) = add_mset f (mset fs)"
  using assms
proof (induction fs)
  case (Cons g fs)
  have ih: "files_ordered C F (FileSet_insert C F f fs)" "mset (FileSet_insert C F f fs) = add_mset f (mset fs)"
    using Cons by (auto simp: files_ordered_def)
  then have st: "set (FileSet_insert C F f fs) = insert f (set fs)" by (metis set_mset_add_mset_insert set_mset_mset)
  show ?case
  proof (cases "BySmallestKey C (F f) (F g)")
    case True
    then show ?thesis using Cons.prems BySmallestKey_trans by (fastforce simp: files_ordered_def)
  next
    case False
    then have "BySmallestKey C (F g) (F f)" using BySmallestKey_total Cons.prems(2) by fastforce
    then show ?thesis using False ih st Cons.prems(1) by (auto simp: files_ordered_def)
  qed
qed (simp add: files_ordered_def)

lemma merge_files_ordered:
  assumes "files_ordered C F added" and "files_ordered C F base" and "\<forall>a \<in> set added. \<forall>b \<in> set base. fm_number (F a) \<noteq> fm_number (F b)"
  shows "files_ordered C F (merge_files C F added base)"
  using assms
proof (induction added arbitrary: base)
  case (Cons a added)
  let ?P = "\<lambda>y. \<not> BySmallestKey C (F a) (F y)"
  define n where "n = upper_bound (\<lambda>f g. BySmallestKey C (F f) (F g)) base a"
  have n: "take n base = takeWhile ?P base" "drop n base = dropWhile ?P base"
    unfolding n_def upper_bound_def by (simp_all add: takeWhile_eq_take [symmetric] dropWhile_eq_drop [symmetric])
  have before: "BySmallestKey C (F y) (F a)" if "y \<in> set (take n base)" for y
  proof -
    have "y \<in> set base" "\<not> BySmallestKey C (F a) (F y)" using that unfolding n by (auto dest: set_takeWhileD)
    then show ?thesis using BySmallestKey_total Cons.prems(3) by auto
  qed
  have after: "BySmallestKey C (F a) (F y)" if y: "y \<in> set (drop n base)" for y
  proof (cases "dropWhile ?P base")
    case (Cons h t)
    then have "BySmallestKey C (F a) (F h)" using hd_dropWhile [of ?P base] by simp
    moreover have "y = h \<or> BySmallestKey C (F h) (F y)" using y Cons n(2) Cons.prems(2)
      by (metis files_ordered_def set_ConsD sorted_wrt.simps(2) sorted_wrt_drop)
    ultimately show ?thesis using BySmallestKey_trans by blast
  next
    case Nil
    then show ?thesis using y unfolding n(2) by (metis list.set(1) empty_iff)
  qed
  have ord: "files_ordered C F (take n base)" "files_ordered C F (drop n base)" "files_ordered C F added"
    using Cons.prems(1,2) by (simp_all add: files_ordered_def sorted_wrt_take sorted_wrt_drop)
  have ih: "files_ordered C F (merge_files C F added (drop n base))" using Cons.IH [OF ord(3,2)] Cons.prems(3) set_drop_subset by fastforce
  have st: "set (merge_files C F added (drop n base)) = set added \<union> set (drop n base)"
    by (metis mset_merge_files set_mset_mset set_mset_union)
  have a: "BySmallestKey C (F a) (F y)" if "y \<in> set added" for y using that Cons.prems(1) by (simp add: files_ordered_def)
  show ?case unfolding merge_files.simps Let_def n_def [symmetric] using ord(1) ih st before after a BySmallestKey_trans
    by (auto simp: files_ordered_def sorted_wrt_append sorted_wrt_take) (metis BySmallestKey_trans)+
qed simp

end

subsection \<open>Edits\<close>

text \<open>The specification: an edit removes the files it deletes and then adds its new files, level by level.\<close>

type_synonym file_keys = "(u64 \<times> u64 \<times> Slice \<times> Slice) set"

definition level_keys :: "(nat \<Rightarrow> FileMetaData) \<Rightarrow> nat list \<Rightarrow> file_keys" where
  "level_keys F fs = (\<lambda>f. file_key (F f)) ` set fs"

definition apply_edit :: "(nat \<Rightarrow> file_keys) \<Rightarrow> VersionEdit \<Rightarrow> nat \<Rightarrow> file_keys" where
  "apply_edit K e lev = {k \<in> K lev. (lev, fst k) \<notin> set (ve_deleted_files e)} \<union> (\<lambda>(l, m). file_key m) ` {x \<in> set (ve_new_files e). fst x = lev}"

text \<open>The files of an edit have numbers that were not used in their level before.\<close>

definition new_numbers :: "VersionEdit \<Rightarrow> (nat \<times> u64) list" where
  "new_numbers e = map (\<lambda>(l, m). (l, fm_number m)) (ve_new_files e)"

definition edit_fresh :: "(nat \<times> u64) set \<Rightarrow> VersionEdit \<Rightarrow> bool" where
  "edit_fresh U e \<longleftrightarrow> distinct (new_numbers e) \<and> set (new_numbers e) \<inter> U = {}
     \<and> (\<forall>x \<in> set (ve_new_files e). fst x < kNumLevels) \<and> (\<forall>x \<in> set (ve_deleted_files e). fst x < kNumLevels)"

abbreviation builder_refs :: "LevelState list \<Rightarrow> nat multiset" where
  "builder_refs levels \<equiv> mset (concat (map ls_added_files levels))"

definition saved_keys :: "(nat \<Rightarrow> FileMetaData) \<Rightarrow> LevelState \<Rightarrow> nat list \<Rightarrow> file_keys" where
  "saved_keys F l base = {k \<in> level_keys F base \<union> level_keys F (ls_added_files l). fst k \<notin> ls_deleted_files l}"

definition level_ok :: "Comparator \<Rightarrow> (nat \<Rightarrow> FileMetaData) \<Rightarrow> LevelState \<Rightarrow> nat list \<Rightarrow> u64 set \<Rightarrow> file_keys \<Rightarrow> bool" where
  "level_ok C F l base U K \<longleftrightarrow> files_ordered C F (ls_added_files l) \<and> fst ` (level_keys F base \<union> level_keys F (ls_added_files l)) \<subseteq> U
     \<and> fst ` level_keys F base \<inter> fst ` level_keys F (ls_added_files l) = {} \<and> saved_keys F l base = K"

definition builder_inv ::
  "Comparator \<Rightarrow> FileHeap \<Rightarrow> LevelState list \<Rightarrow> nat multiset \<Rightarrow> nat list list \<Rightarrow> (nat \<times> u64) set \<Rightarrow> (nat \<Rightarrow> file_keys) \<Rightarrow> bool" where
  "builder_inv C H levels R base U K \<longleftrightarrow> heap_ok H (builder_refs levels + R) \<and> length levels = kNumLevels \<and> length base = kNumLevels
     \<and> set (concat base) \<subseteq> set_mset R
     \<and> (\<forall>lev < kNumLevels. level_ok C (fh_deref H) (levels ! lev) (base ! lev) {n. (lev, n) \<in> U} (K lev))"

lemma set_nth_concat: "i < length xss \<Longrightarrow> set (xss ! i) \<subseteq> set (concat xss)"
  using nth_mem by fastforce

lemma level_keys_numbers [simp]: "fst (file_key m) = fm_number m" "fst ` level_keys F fs = (\<lambda>f. fm_number (F f)) ` set fs"
  by (force simp: level_keys_def file_key_def)+

lemma level_keys_cong: "(\<And>f. f \<in> set fs \<Longrightarrow> file_key (F f) = file_key (G f)) \<Longrightarrow> level_keys F fs = level_keys G fs"
  by (force simp: level_keys_def)

lemma level_ok_cong:
  assumes "\<And>f. f \<in> set (ls_added_files l) \<union> set base \<Longrightarrow> file_key (F f) = file_key (G f)"
  shows "level_ok C F l base U K \<longleftrightarrow> level_ok C G l base U K"
  using assms level_keys_cong [of base F G] level_keys_cong [of "ls_added_files l" F G] files_ordered_key [of "ls_added_files l" F G C]
  by (simp add: level_ok_def saved_keys_def)

lemma builder_refs_update:
  assumes "lev < length levels"
  shows "builder_refs (levels[lev := l]) = builder_refs levels - mset (ls_added_files (levels ! lev)) + mset (ls_added_files l)"
    and "mset (ls_added_files (levels ! lev)) \<subseteq># builder_refs levels"
proof -
  have e: "levels = take lev levels @ levels ! lev # drop (Suc lev) levels" using id_take_nth_drop [OF assms] .
  have "builder_refs levels = builder_refs (take lev levels) + mset (ls_added_files (levels ! lev)) + builder_refs (drop (Suc lev) levels)"
    by (subst e) simp
  moreover have "builder_refs (levels[lev := l]) = builder_refs (take lev levels) + mset (ls_added_files l) + builder_refs (drop (Suc lev) levels)"
    using assms by (simp add: upd_conv_take_nth_drop)
  ultimately show "builder_refs (levels[lev := l]) = builder_refs levels - mset (ls_added_files (levels ! lev)) + mset (ls_added_files l)"
    "mset (ls_added_files (levels ! lev)) \<subseteq># builder_refs levels" by simp_all
qed

lemma added_referenced: "lev < length levels \<Longrightarrow> f \<in> set (ls_added_files (levels ! lev)) \<Longrightarrow> f \<in># builder_refs levels"
  using nth_mem by fastforce

lemma builder_inv_delete:
  assumes "builder_inv C H levels R base U K" and "lev < kNumLevels"
  shows "builder_inv C H (Apply_delete levels (lev, n)) R base U (K(lev := {k \<in> K lev. fst k \<noteq> n}))"
proof -
  let ?l = "(levels ! lev)\<lparr>ls_deleted_files := insert n (ls_deleted_files (levels ! lev))\<rparr>"
  have len: "lev < length levels" using assms by (simp add: builder_inv_def)
  have "builder_refs (levels[lev := ?l]) = builder_refs levels"
    using builder_refs_update(1) [OF len, of ?l] builder_refs_update(2) [OF len] by simp
  then show ?thesis using assms len unfolding builder_inv_def
    by (auto simp: Apply_delete_def nth_list_update level_ok_def saved_keys_def)
qed

context key_comparator
begin

lemma builder_inv_add:
  assumes inv: "builder_inv C H levels R base U K" and lev: "lev < kNumLevels" and new: "(lev, fm_number m) \<notin> U"
    and ap: "Apply_add C (H, levels) (lev, m) = (H', levels')"
  shows "builder_inv C H' levels' R base (insert (lev, fm_number m) U) (K(lev := insert (file_key m) (K lev)))" and "heap_keeps R H H'"
proof -
  let ?l = "levels ! lev" and ?m = "m\<lparr>fm_refs := 1, fm_allowed_seeks := allowed_seeks (fm_file_size m)\<rparr>"
  have len: "lev < length levels" using inv lev by (simp add: builder_inv_def)
  have h: "heap_ok H (builder_refs levels + R)" and bR: "set (concat base) \<subseteq> set_mset R"
    and lv: "\<And>j. j < kNumLevels \<Longrightarrow> level_ok C (fh_deref H) (levels ! j) (base ! j) {n. (j, n) \<in> U} (K j)"
    and lens: "length levels = kNumLevels" "length base = kNumLevels" using inv by (auto simp: builder_inv_def)
  obtain f where fn: "file_new H ?m = (f, H')"
    and levels': "levels' = levels[lev := ?l\<lparr>ls_deleted_files := ls_deleted_files ?l - {fm_number m},
        ls_added_files := FileSet_insert C (fh_deref H') f (ls_added_files ?l)\<rparr>]"
    using ap by (auto simp: Apply_add_def Let_def split: prod.splits)
  note n = heap_ok_new [OF h _ fn, simplified]
  have keep: "file_key (fh_deref H g) = file_key (fh_deref H' g)" if "g \<in># builder_refs levels + R" for g
    using n(4) that by (auto simp: heap_keeps_def)
  have basein: "g \<in># builder_refs levels + R" if "j < kNumLevels" "g \<in> set (base ! j)" for j g
  proof -
    have "g \<in> set (concat base)" using that lens set_nth_concat [of j base] by (metis subsetD)
    then show ?thesis using bR by (simp add: subset_iff)
  qed
  have lv': "level_ok C (fh_deref H') (levels ! j) (base ! j) {n. (j, n) \<in> U} (K j)" if j: "j < kNumLevels" for j
  proof -
    have "file_key (fh_deref H g) = file_key (fh_deref H' g)" if "g \<in> set (ls_added_files (levels ! j)) \<union> set (base ! j)" for g
      using that keep basein [OF j] added_referenced [of j levels g] j lens by (metis UnE union_iff)
    then show ?thesis using level_ok_cong [of "levels ! j" "base ! j" "fh_deref H" "fh_deref H'"] lv [OF j] by blast
  qed
  have k: "file_key (fh_deref H' f) = file_key m" using n(3) by (simp add: file_key_def)
  note L = lv' [OF lev, unfolded level_ok_def]
  have fresh: "fst k \<noteq> fm_number m" if "k \<in> level_keys (fh_deref H') (base ! lev) \<union> level_keys (fh_deref H') (ls_added_files ?l)" for k
    using L new that by auto
  have "fm_number (fh_deref H' f) = fm_number m" using arg_cong [OF k, of fst] by simp
  then have "\<forall>g \<in> set (ls_added_files ?l). fm_number (fh_deref H' g) \<noteq> fm_number (fh_deref H' f)"
    using L new by (auto simp: image_Un)
  note ins = FileSet_insert_ordered [OF _ this]
  have add: "files_ordered C (fh_deref H') (FileSet_insert C (fh_deref H') f (ls_added_files ?l))"
    "mset (FileSet_insert C (fh_deref H') f (ls_added_files ?l)) = add_mset f (mset (ls_added_files ?l))" using ins L by blast+
  then have st: "set (FileSet_insert C (fh_deref H') f (ls_added_files ?l)) = insert f (set (ls_added_files ?l))"
    by (metis set_mset_add_mset_insert set_mset_mset)
  have "level_ok C (fh_deref H') (levels' ! lev) (base ! lev) {n. (lev, n) \<in> insert (lev, fm_number m) U} (insert (file_key m) (K lev))"
  proof -
    let ?n = "levels' ! lev"
    have n: "ls_added_files ?n = FileSet_insert C (fh_deref H') f (ls_added_files ?l)" "ls_deleted_files ?n = ls_deleted_files ?l - {fm_number m}"
      using len by (simp_all add: levels')
    have lk: "level_keys (fh_deref H') (ls_added_files ?n) = insert (file_key m) (level_keys (fh_deref H') (ls_added_files ?l))"
      unfolding n by (simp add: level_keys_def st k)
    have "saved_keys (fh_deref H') ?n (base ! lev) = insert (file_key m) (saved_keys (fh_deref H') ?l (base ! lev))"
      unfolding saved_keys_def lk n(2) using fresh by auto
    then show ?thesis using L add(1) lk new unfolding level_ok_def by (auto simp: image_Un n)
  qed
  moreover have "builder_refs levels' = add_mset f (builder_refs levels)"
    unfolding levels' builder_refs_update(1) [OF len] using builder_refs_update(2) [OF len] add(2) by simp
  moreover have "levels' ! j = levels ! j" if "j \<noteq> lev" for j using that by (simp add: levels')
  ultimately show "builder_inv C H' levels' R base (insert (lev, fm_number m) U) (K(lev := insert (file_key m) (K lev)))"
    using n(1) lv' lens bR unfolding builder_inv_def by (auto simp: levels')
  show "heap_keeps R H H'" using n(4) by (auto simp: heap_keeps_def)
qed

lemma builder_inv_adds:
  assumes "builder_inv C H levels R base U K" and "distinct (map (\<lambda>(l, m). (l, fm_number m)) ns)"
    and "set (map (\<lambda>(l, m). (l, fm_number m)) ns) \<inter> U = {}" and "\<forall>x \<in> set ns. fst x < kNumLevels"
    and "foldl (Apply_add C) (H, levels) ns = (H', levels')"
  shows "builder_inv C H' levels' R base (U \<union> set (map (\<lambda>(l, m). (l, fm_number m)) ns))
      (\<lambda>lev. K lev \<union> (\<lambda>(l, m). file_key m) ` {x \<in> set ns. fst x = lev}) \<and> heap_keeps R H H'"
  using assms
proof (induction ns arbitrary: H levels U K)
  case (Cons x ns)
  obtain lev m where x: "x = (lev, m)" by (cases x)
  obtain H1 levels1 where 1: "Apply_add C (H, levels) (lev, m) = (H1, levels1)" by (cases "Apply_add C (H, levels) (lev, m)")
  note a = builder_inv_add [OF Cons.prems(1) _ _ 1]
  define K1 where "K1 = K(lev := insert (file_key m) (K lev))"
  have 2: "builder_inv C H1 levels1 R base (insert (lev, fm_number m) U) K1" "heap_keeps R H H1"
    using a Cons.prems(3,4) x by (auto simp: K1_def)
  moreover have "foldl (Apply_add C) (H1, levels1) ns = (H', levels')" using Cons.prems(5) x 1 by simp
  ultimately have ih: "builder_inv C H' levels' R base (insert (lev, fm_number m) U \<union> set (map (\<lambda>(l, m). (l, fm_number m)) ns))
      (\<lambda>l. K1 l \<union> (\<lambda>(l, m). file_key m) ` {x \<in> set ns. fst x = l})" "heap_keeps R H1 H'"
    using Cons.IH [of H1 levels1 "insert (lev, fm_number m) U" K1] Cons.prems(2-4) x by auto
  have "(\<lambda>l. K1 l \<union> (\<lambda>(l, m). file_key m) ` {x \<in> set ns. fst x = l}) = (\<lambda>l. K l \<union> (\<lambda>(l, m). file_key m) ` {y \<in> set (x # ns). fst y = l})"
  proof
    fix l
    have "{y \<in> set (x # ns). fst y = l} = (if l = lev then {x} else {}) \<union> {y \<in> set ns. fst y = l}" by (auto simp: x)
    then show "K1 l \<union> (\<lambda>(l, m). file_key m) ` {x \<in> set ns. fst x = l} = K l \<union> (\<lambda>(l, m). file_key m) ` {y \<in> set (x # ns). fst y = l}"
      by (simp add: K1_def x image_Un)
  qed
  then show ?case using ih heap_keeps_trans [OF 2(2) ih(2)] by (simp add: x)
qed (simp add: heap_keeps_refl)

lemma builder_inv_deletes:
  assumes "builder_inv C H levels R base U K" and "\<forall>x \<in> set ds. fst x < kNumLevels"
  shows "builder_inv C H (foldl Apply_delete levels ds) R base U (\<lambda>lev. {k \<in> K lev. (lev, fst k) \<notin> set ds})"
  using assms
proof (induction ds arbitrary: levels K)
  case (Cons x ds)
  obtain lev n where x: "x = (lev, n)" by (cases x)
  have "(\<lambda>l. {k \<in> (K(lev := {k \<in> K lev. fst k \<noteq> n})) l. (l, fst k) \<notin> set ds}) = (\<lambda>l. {k \<in> K l. (l, fst k) \<notin> set (x # ds)})"
    by (auto simp: fun_eq_iff x)
  moreover have "builder_inv C H (foldl Apply_delete (Apply_delete levels (lev, n)) ds) R base U
      (\<lambda>l. {k \<in> (K(lev := {k \<in> K lev. fst k \<noteq> n})) l. (l, fst k) \<notin> set ds})"
    using Cons.IH [OF builder_inv_delete [OF Cons.prems(1), of lev n]] Cons.prems(2) x by simp
  ultimately show ?case by (simp add: x)
qed simp

lemma builder_inv_apply:
  assumes inv: "builder_inv C H levels R base U K" and e: "edit_fresh U e" and ap: "Builder_Apply C (H, levels) e = (H', levels')"
  shows "builder_inv C H' levels' R base (U \<union> set (new_numbers e)) (apply_edit K e)" and "heap_keeps R H H'"
proof -
  have "builder_inv C H (foldl Apply_delete levels (ve_deleted_files e)) R base U (\<lambda>lev. {k \<in> K lev. (lev, fst k) \<notin> set (ve_deleted_files e)})"
    using builder_inv_deletes [OF inv] e by (simp add: edit_fresh_def)
  from builder_inv_adds [OF this, of "ve_new_files e" H' levels'] e ap
  show "builder_inv C H' levels' R base (U \<union> set (new_numbers e)) (apply_edit K e)" "heap_keeps R H H'"
    by (auto simp: edit_fresh_def new_numbers_def Builder_Apply_def apply_edit_def [abs_def] Let_def)
qed

end

definition saved_files :: "Comparator \<Rightarrow> (nat \<Rightarrow> FileMetaData) \<Rightarrow> LevelState list \<Rightarrow> nat list list \<Rightarrow> nat \<Rightarrow> nat list" where
  "saved_files C F levels base lev = filter (\<lambda>f. fm_number (F f) \<notin> ls_deleted_files (levels ! lev))
     (merge_files C F (ls_added_files (levels ! lev)) (base ! lev))"

lemma saved_files_key:
  assumes "\<And>f. file_key (F f) = file_key (G f)"
  shows "saved_files C F levels base lev = saved_files C G levels base lev"
proof -
  have "fm_number (F f) = fm_number (G f)" for f using assms by (auto simp: file_key_def)
  then show ?thesis using merge_files_key [OF assms] by (simp add: saved_files_def)
qed

lemma SaveTo_levels_files:
  assumes "heap_ok H R" and "\<forall>lev \<in> set levs. set (ls_added_files (levels ! lev)) \<subseteq> set_mset R \<and> set (base ! lev) \<subseteq> set_mset R"
  shows "\<exists>H'. SaveTo_levels C levels base levs H = (H', map (saved_files C (fh_deref H) levels base) levs)
    \<and> heap_ok H' (mset (concat (map (saved_files C (fh_deref H) levels base) levs)) + R) \<and> (\<forall>f. file_key (fh_deref H' f) = file_key (fh_deref H f))"
  using assms
proof (induction levs arbitrary: H R)
  case (Cons lev levs)
  let ?s = "saved_files C (fh_deref H) levels base"
  obtain H1 where 1: "SaveTo_level C (ls_deleted_files (levels ! lev)) (ls_added_files (levels ! lev)) (base ! lev) (H, []) = (H1, ?s lev)"
    "heap_ok H1 (mset (?s lev) + R)" "\<forall>f. file_key (fh_deref H1 f) = file_key (fh_deref H f)"
    using SaveTo_level_files [OF Cons.prems(1), of "ls_added_files (levels ! lev)" "base ! lev" C "ls_deleted_files (levels ! lev)" "[]"] Cons.prems(2)
    by (auto simp: saved_files_def)
  have s: "saved_files C (fh_deref H1) levels base = ?s" using saved_files_key [of "fh_deref H1" "fh_deref H"] 1(3) by blast
  have "\<forall>lev \<in> set levs. set (ls_added_files (levels ! lev)) \<subseteq> set_mset (mset (?s lev) + R) \<and> set (base ! lev) \<subseteq> set_mset (mset (?s lev) + R)"
    using Cons.prems(2) by auto
  then obtain H2 where "SaveTo_levels C levels base levs H1 = (H2, map ?s levs)"
    "heap_ok H2 (mset (concat (map ?s levs)) + (mset (?s lev) + R))" "\<forall>f. file_key (fh_deref H2 f) = file_key (fh_deref H1 f)"
    using Cons.IH [OF 1(2)] Cons.prems(2) unfolding s by fastforce
  then show ?case using 1 by (simp add: Let_def ac_simps)
qed simp

lemma level_keys_filter: "level_keys F (filter (\<lambda>f. fm_number (F f) \<notin> del) fs) = {k \<in> level_keys F fs. fst k \<notin> del}"
  by (auto simp: level_keys_def file_key_def)

context key_comparator
begin

lemma builder_save:
  assumes inv: "builder_inv C H levels R (v_files v) U K" and ord: "\<forall>lev < kNumLevels. files_ordered C (fh_deref H) (v_files v ! lev)"
    and sv: "Builder_SaveTo C levels v H = (H1, v')" and del: "H2 = Builder_delete levels H1"
  shows "heap_ok H2 (mset (concat (v_files v')) + R)" and "heap_keeps R H H2" and "length (v_files v') = kNumLevels" and "v_refs v' = 0"
    and "\<And>lev. lev < kNumLevels \<Longrightarrow> files_ordered C (fh_deref H2) (v_files v' ! lev) \<and> level_keys (fh_deref H2) (v_files v' ! lev) = K lev"
proof -
  let ?F = "fh_deref H" and ?R = "builder_refs levels + R"
  let ?s = "saved_files C ?F levels (v_files v)"
  have h: "heap_ok H ?R" and len: "length levels = kNumLevels" "length (v_files v) = kNumLevels" and bR: "set (concat (v_files v)) \<subseteq> set_mset R"
    and lv: "\<And>lev. lev < kNumLevels \<Longrightarrow> level_ok C ?F (levels ! lev) (v_files v ! lev) {n. (lev, n) \<in> U} (K lev)"
    using inv by (auto simp: builder_inv_def)
  have "set (ls_added_files (levels ! lev)) \<subseteq> set_mset ?R \<and> set (v_files v ! lev) \<subseteq> set_mset ?R" if "lev \<in> set [0..<kNumLevels]" for lev
  proof -
    have "set (v_files v ! lev) \<subseteq> set (concat (v_files v))" using that len by (intro set_nth_concat) simp
    then show ?thesis using bR that len added_referenced [of lev levels] by auto
  qed
  then obtain Hs where s: "SaveTo_levels C levels (v_files v) [0..<kNumLevels] H = (Hs, map ?s [0..<kNumLevels])"
      "heap_ok Hs (mset (concat (map ?s [0..<kNumLevels])) + ?R)" "\<forall>f. file_key (fh_deref Hs f) = file_key (?F f)"
    using SaveTo_levels_files [OF h, of "[0..<kNumLevels]" levels "v_files v" C] by blast
  then have v': "H1 = Hs" "v_files v' = map ?s [0..<kNumLevels]" and refs: "v_refs v' = 0"
    using sv by (auto simp: Builder_SaveTo_def Version_make_def)
  have "heap_ok H1 (mset (concat (map ls_added_files levels)) + (mset (concat (v_files v')) + R))" using s(2) v' by (simp add: ac_simps)
  note u = heap_ok_unrefs [OF this, folded Builder_delete_def del]
  show "heap_ok H2 (mset (concat (v_files v')) + R)" using u by blast
  have k2: "file_key (fh_deref H2 f) = file_key (?F f)" if "f \<in># mset (concat (v_files v')) + R" for f
    using u that s(3) v'(1) by (simp add: heap_keeps_def)
  then show "heap_keeps R H H2" by (simp add: heap_keeps_def)
  show "length (v_files v') = kNumLevels" by (simp add: v')
  show "v_refs v' = 0" by (rule refs)
  fix lev assume lev: "lev < kNumLevels"
  let ?a = "ls_added_files (levels ! lev)" and ?b = "v_files v ! lev"
  note L = lv [OF lev, unfolded level_ok_def]
  have vl: "v_files v' ! lev = ?s lev" using lev by (simp add: v')
  have same: "file_key (fh_deref H2 f) = file_key (?F f)" if "f \<in> set (?s lev)" for f
    using that lev by (intro k2) (auto simp: v')
  have "files_ordered C ?F (merge_files C ?F ?a ?b)"
    using L ord lev by (intro merge_files_ordered) (auto simp: image_iff disjoint_iff)
  then have "files_ordered C ?F (?s lev)" by (simp add: saved_files_def files_ordered_def sorted_wrt_filter)
  moreover have "level_keys ?F (?s lev) = K lev"
  proof -
    have "set (merge_files C ?F ?a ?b) = set ?a \<union> set ?b" using mset_merge_files [of C ?F ?a ?b] by (metis set_mset_mset set_mset_union)
    then have "level_keys ?F (merge_files C ?F ?a ?b) = level_keys ?F ?b \<union> level_keys ?F ?a" by (simp add: level_keys_def image_Un Un_commute)
    then show ?thesis using L by (simp add: saved_files_def level_keys_filter saved_keys_def)
  qed
  ultimately show "files_ordered C (fh_deref H2) (v_files v' ! lev) \<and> level_keys (fh_deref H2) (v_files v' ! lev) = K lev"
    using files_ordered_key [of "?s lev" "fh_deref H2" ?F C] level_keys_cong [of "?s lev" "fh_deref H2" ?F] same vl by simp
qed

end

subsection \<open>Properties\<close>

fun edits_fresh :: "(nat \<times> u64) set \<Rightarrow> VersionEdit list \<Rightarrow> bool" where
  "edits_fresh U [] \<longleftrightarrow> True"
| "edits_fresh U (e # es) \<longleftrightarrow> edit_fresh U e \<and> edits_fresh (U \<union> set (new_numbers e)) es"

definition used_numbers :: "(nat \<Rightarrow> FileMetaData) \<Rightarrow> nat list list \<Rightarrow> (nat \<times> u64) set" where
  "used_numbers F files = {(lev, fm_number (F f)) | lev f. lev < length files \<and> f \<in> set (files ! lev)}"

lemma builder_refs_make [simp]: "builder_refs Builder_make = {#}"
  by (simp add: Builder_make_def)

lemma builder_inv_make:
  assumes "heap_ok H R" and "length base = kNumLevels" and "set (concat base) \<subseteq> set_mset R" and "used_numbers (fh_deref H) base \<subseteq> U"
  shows "builder_inv C H Builder_make R base U (\<lambda>lev. level_keys (fh_deref H) (base ! lev))"
proof -
  have "level_ok C (fh_deref H) (Builder_make ! lev) (base ! lev) {n. (lev, n) \<in> U} (level_keys (fh_deref H) (base ! lev))"
    if lev: "lev < kNumLevels" for lev
  proof -
    have "(lev, fm_number (fh_deref H f)) \<in> U" if "f \<in> set (base ! lev)" for f
      using that assms(2,4) lev by (auto simp: used_numbers_def)
    then show ?thesis using lev by (auto simp: level_ok_def Builder_make_def saved_keys_def level_keys_def files_ordered_def)
  qed
  then show ?thesis using assms(1-3) unfolding builder_inv_def by (simp add: Builder_make_def)
qed

context key_comparator
begin

lemma builder_inv_run:
  assumes "builder_inv C H levels R base U K" and "edits_fresh U es" and "foldl (Builder_Apply C) (H, levels) es = (H', levels')"
  shows "\<exists>U'. builder_inv C H' levels' R base U' (foldl apply_edit K es) \<and> heap_keeps R H H'"
  using assms
proof (induction es arbitrary: H levels U K)
  case (Cons e es)
  obtain H1 levels1 where 1: "Builder_Apply C (H, levels) e = (H1, levels1)" by (cases "Builder_Apply C (H, levels) e")
  have e: "edit_fresh U e" "edits_fresh (U \<union> set (new_numbers e)) es" using Cons.prems(2) by auto
  note a = builder_inv_apply [OF Cons.prems(1) e(1) 1]
  from Cons.IH [OF a(1) e(2)] Cons.prems(3) 1 obtain U' where
    "builder_inv C H' levels' R base U' (foldl apply_edit (apply_edit K e) es)" "heap_keeps R H1 H'" by auto
  then show ?case using heap_keeps_trans [OF a(2)] by auto
qed (auto simp: heap_keeps_refl)

end

text \<open>
  C4.  The version builder.  However many edits a builder applies to a base version before it saves, each level of the new
  version has exactly the files that the edits leave when they are applied one after the other, sorted by their smallest
  keys, and the reference counts of all files are exact again when the builder is deleted: files that were added and
  deleted on the way are freed, none is lost or freed early.
\<close>

theorem builder_applies_edits:
  assumes C: "key_comparator C" and h: "heap_ok H R" and base: "length (v_files v) = kNumLevels" "set (concat (v_files v)) \<subseteq> set_mset R"
    and ord: "\<forall>lev < kNumLevels. files_ordered C (fh_deref H) (v_files v ! lev)"
    and fresh: "edits_fresh (used_numbers (fh_deref H) (v_files v)) es"
    and run: "foldl (Builder_Apply C) (H, Builder_make) es = (H1, levels)" and save: "Builder_SaveTo C levels v H1 = (H2, v')"
  shows "heap_ok (Builder_delete levels H2) (mset (concat (v_files v')) + R)
    \<and> (\<forall>lev < kNumLevels. files_ordered C (fh_deref (Builder_delete levels H2)) (v_files v' ! lev)
        \<and> level_keys (fh_deref (Builder_delete levels H2)) (v_files v' ! lev)
            = foldl apply_edit (\<lambda>lev. level_keys (fh_deref H) (v_files v ! lev)) es lev)"
proof -
  obtain U where U: "builder_inv C H1 levels R (v_files v) U (foldl apply_edit (\<lambda>lev. level_keys (fh_deref H) (v_files v ! lev)) es)" "heap_keeps R H H1"
    using key_comparator.builder_inv_run [OF C builder_inv_make [OF h base order_refl] fresh run] by blast
  have "files_ordered C (fh_deref H1) (v_files v ! lev)" if lev: "lev < kNumLevels" for lev
  proof -
    have "file_key (fh_deref H1 f) = file_key (fh_deref H f)" if "f \<in> set (v_files v ! lev)" for f
    proof -
      have "f \<in># R" using that lev base set_nth_concat [of lev "v_files v"] by auto
      then show ?thesis using U(2) by (simp add: heap_keeps_def)
    qed
    then show ?thesis using files_ordered_key [of "v_files v ! lev" "fh_deref H1" "fh_deref H"] ord lev by blast
  qed
  then show ?thesis using key_comparator.builder_save [OF C U(1) _ save refl] by blast
qed

theorem builder_applies_edits_witness:
  "\<exists>H1 levels H2 v'. foldl (Builder_Apply BytewiseComparator) (FileHeap_empty, Builder_make)
        [VersionEdit_make\<lparr>ve_new_files := [(0, sample_file 1 10 30), (1, sample_file 2 20 50)]\<rparr>,
         VersionEdit_make\<lparr>ve_deleted_files := [(0, 1)], ve_new_files := [(1, sample_file 3 60 70)]\<rparr>] = (H1, levels)
    \<and> Builder_SaveTo BytewiseComparator levels Version_make H1 = (H2, v')
    \<and> level_keys (fh_deref (Builder_delete levels H2)) (v_files v' ! 1) = {file_key (sample_file 2 20 50), file_key (sample_file 3 60 70)}"
proof -
  let ?es = "[VersionEdit_make\<lparr>ve_new_files := [(0, sample_file 1 10 30), (1, sample_file 2 20 50)]\<rparr>,
     VersionEdit_make\<lparr>ve_deleted_files := [(0, 1)], ve_new_files := [(1, sample_file 3 60 70)]\<rparr>]"
  obtain H1 levels where run: "foldl (Builder_Apply BytewiseComparator) (FileHeap_empty, Builder_make) ?es = (H1, levels)" by fastforce
  obtain H2 v' where save: "Builder_SaveTo BytewiseComparator levels Version_make H1 = (H2, v')" by fastforce
  have emp: "length (v_files (Version_make :: nat Version)) = kNumLevels" "set (concat (v_files (Version_make :: nat Version))) \<subseteq> set_mset {#}"
    "\<forall>lev < kNumLevels. files_ordered BytewiseComparator (fh_deref FileHeap_empty) (v_files (Version_make :: nat Version) ! lev)"
    by (auto simp: Version_make_def files_ordered_def)
  have "edits_fresh (used_numbers (fh_deref FileHeap_empty) (v_files (Version_make :: nat Version))) ?es"
    by (simp add: used_numbers_def Version_make_def edit_fresh_def new_numbers_def sample_file_def FileMetaData_make_def kNumLevels_def
        VersionEdit_make_def VersionEdit_Clear_def)
  from builder_applies_edits [OF bytewise.key_comparator_axioms heap_ok_empty emp this run save]
  have "level_keys (fh_deref (Builder_delete levels H2)) (v_files v' ! 1)
      = foldl apply_edit (\<lambda>lev. level_keys (fh_deref FileHeap_empty) (v_files (Version_make :: nat Version) ! lev)) ?es 1"
    by (simp add: kNumLevels_def)
  also have "\<dots> = {file_key (sample_file 2 20 50), file_key (sample_file 3 60 70)}"
    by (auto simp: apply_edit_def level_keys_def Version_make_def kNumLevels_def VersionEdit_make_def VersionEdit_Clear_def
        conj_disj_distribR Collect_disj_eq Collect_conv_if)
  finally show ?thesis using run save by blast
qed

end
