(* ===== verification/VersionSet.thy ===== *)
theory VersionSet
  imports VersionBuilder Filename Log_Correct "HOL-Library.Log_Nat"
begin

text \<open>
  The version set (\<^verbatim>\<open>db/version_set.{h,cc}\<close>): the live versions with their reference counts, the counters that the manifest
  keeps, the manifest itself, and its recovery.  A version object has an identifier; the list of live versions is
  the linked list of the source, in its order.  The environment is the record \<open>Env\<close> of its methods.
  \<^verbatim>\<open>LogAndApply\<close> releases the mutex while it writes; the model is of the calls that no other thread interrupts.
\<close>

subsection \<open>State\<close>

record 'w VersionSet =
  vs_dbname :: bytes
  vs_user_comparator :: Comparator
  vs_next_file_number :: u64
  vs_manifest_file_number :: u64
  vs_last_sequence :: u64
  vs_log_number :: u64
  vs_prev_log_number :: u64
  vs_descriptor_log :: "'w Writer option"
  vs_heap :: FileHeap
  vs_versions :: "(nat \<times> nat Version) list"
  vs_next_version :: nat
  vs_current :: "nat option"
  vs_compact_pointer :: "bytes list"

abbreviation version_at :: "'w VersionSet \<Rightarrow> nat \<Rightarrow> nat Version" where
  "version_at vs i \<equiv> the (map_of (vs_versions vs) i)"

definition current :: "'w VersionSet \<Rightarrow> nat Version" where
  "current vs = version_at vs (the (vs_current vs))"

definition update_version :: "nat \<Rightarrow> (nat Version \<Rightarrow> nat Version) \<Rightarrow> (nat \<times> nat Version) list \<Rightarrow> (nat \<times> nat Version) list" where
  "update_version i f = map (\<lambda>(j, v). (j, if j = i then f v else v))"

definition Version_Ref :: "nat \<Rightarrow> 'w VersionSet \<Rightarrow> 'w VersionSet" where
  "Version_Ref i vs = vs\<lparr>vs_versions := update_version i (\<lambda>v. v\<lparr>v_refs := v_refs v + 1\<rparr>) (vs_versions vs)\<rparr>"

definition Version_delete :: "nat Version \<Rightarrow> FileHeap \<Rightarrow> FileHeap" where
  "Version_delete v H = foldl file_unref H (concat (v_files v))"

definition Version_Unref :: "nat \<Rightarrow> 'w VersionSet \<Rightarrow> 'w VersionSet" where
  "Version_Unref i vs =
     (let v = version_at vs i in
      if v_refs v - 1 = 0 then
        vs\<lparr>vs_versions := filter (\<lambda>x. fst x \<noteq> i) (vs_versions vs), vs_heap := Version_delete v (vs_heap vs)\<rparr>
      else vs\<lparr>vs_versions := update_version i (\<lambda>v. v\<lparr>v_refs := v_refs v - 1\<rparr>) (vs_versions vs)\<rparr>)"

definition AppendVersion :: "nat Version \<Rightarrow> 'w VersionSet \<Rightarrow> 'w VersionSet" where
  "AppendVersion v vs =
     (let vs = (case vs_current vs of None \<Rightarrow> vs | Some c \<Rightarrow> Version_Unref c vs);
          i = vs_next_version vs
      in vs\<lparr>vs_current := Some i, vs_versions := vs_versions vs @ [(i, v\<lparr>v_refs := v_refs v + 1\<rparr>)], vs_next_version := i + 1\<rparr>)"

definition VersionSet_make :: "bytes \<Rightarrow> Comparator \<Rightarrow> 'w VersionSet" where
  "VersionSet_make dbname C = AppendVersion Version_make
     \<lparr>vs_dbname = dbname, vs_user_comparator = C, vs_next_file_number = 2, vs_manifest_file_number = 0, vs_last_sequence = 0,
      vs_log_number = 0, vs_prev_log_number = 0, vs_descriptor_log = None, vs_heap = FileHeap_empty, vs_versions = [],
      vs_next_version = 0, vs_current = None, vs_compact_pointer = replicate kNumLevels []\<rparr>"

subsection \<open>Counters and summaries\<close>

definition NewFileNumber :: "'w VersionSet \<Rightarrow> u64 \<times> 'w VersionSet" where
  "NewFileNumber vs = (vs_next_file_number vs, vs\<lparr>vs_next_file_number := vs_next_file_number vs + 1\<rparr>)"

definition ReuseFileNumber :: "'w VersionSet \<Rightarrow> u64 \<Rightarrow> 'w VersionSet" where
  "ReuseFileNumber vs file_number =
     (if vs_next_file_number vs = file_number + 1 then vs\<lparr>vs_next_file_number := file_number\<rparr> else vs)"

definition VersionSet_SetLastSequence :: "'w VersionSet \<Rightarrow> u64 \<Rightarrow> 'w VersionSet" where
  "VersionSet_SetLastSequence vs s = vs\<lparr>vs_last_sequence := s\<rparr>"

definition MarkFileNumberUsed :: "'w VersionSet \<Rightarrow> u64 \<Rightarrow> 'w VersionSet" where
  "MarkFileNumberUsed vs number =
     (if vs_next_file_number vs \<le> number then vs\<lparr>vs_next_file_number := number + 1\<rparr> else vs)"

abbreviation vs_deref :: "'w VersionSet \<Rightarrow> nat \<Rightarrow> FileMetaData" where
  "vs_deref vs \<equiv> fh_deref (vs_heap vs)"

definition NumLevelFiles :: "'w VersionSet \<Rightarrow> nat \<Rightarrow> nat" where
  "NumLevelFiles vs lev = length (v_files (current vs) ! lev)"

definition NumLevelBytes :: "'w VersionSet \<Rightarrow> nat \<Rightarrow> 64 word" where
  "NumLevelBytes vs lev = TotalFileSize (map (vs_deref vs) (v_files (current vs) ! lev))"

definition LevelSummary :: "'w VersionSet \<Rightarrow> bytes" where
  "LevelSummary vs = str ''files[ '' @ concat (map (\<lambda>lev. decimal (NumLevelFiles vs lev) @ str '' '') [0..<kNumLevels]) @ str '']''"

definition NeedsCompaction :: "'w VersionSet \<Rightarrow> bool" where
  "NeedsCompaction vs \<longleftrightarrow> v_compaction_score (current vs) \<ge> 1 \<or> v_file_to_compact (current vs) \<noteq> None"

definition AddLiveFiles :: "'w VersionSet \<Rightarrow> u64 set \<Rightarrow> u64 set" where
  "AddLiveFiles vs live = foldl (\<lambda>live f. insert (fm_number (vs_deref vs f)) live) live (concat (concat (map (\<lambda>x. v_files (snd x)) (vs_versions vs))))"

definition MaxNextLevelOverlappingBytes :: "'w VersionSet \<Rightarrow> int option" where
  "MaxNextLevelOverlappingBytes vs =
     foldl (\<lambda>acc (lev, f). Option.bind acc (\<lambda>result.
         map_option (\<lambda>overlaps. let sum = sint (TotalFileSize (map (vs_deref vs) overlaps)) in if sum > result then sum else result)
           (GetOverlappingInputs (vs_user_comparator vs) (vs_deref vs) (current vs) (lev + 1)
              (Some (fm_smallest (vs_deref vs f))) (Some (fm_largest (vs_deref vs f))))))
       (Some 0) (concat (map (\<lambda>lev. map (\<lambda>f. (lev, f)) (v_files (current vs) ! lev)) [1..<kNumLevels - 1]))"

subsection \<open>Scores\<close>

text \<open>
  Rounding to the nearest \<^verbatim>\<open>double\<close>, ties to even, of a number that is zero or at least \<open>2 ^ -63\<close>: the unit in the last place
  is determined by the position of the leading bit.
\<close>

definition double_round :: "rat \<Rightarrow> rat" where
  "double_round x =
     (if x = 0 then 0
      else let n = floorlog 2 (nat \<lfloor>x * 2 ^ 116\<rfloor>);
               ulp = 2 ^ (n - 53) / 2 ^ 116;
               m = \<lfloor>x / ulp\<rfloor>;
               d = x / ulp - of_int m
           in of_int (if d < 1 / 2 \<or> d = 1 / 2 \<and> even m then m else m + 1) * ulp)"

fun MaxBytesForLevel :: "nat \<Rightarrow> rat" where
  "MaxBytesForLevel lev = (if lev > 1 then MaxBytesForLevel (lev - 1) * 10 else 10 * 1048576)"

declare MaxBytesForLevel.simps [simp del]

definition level_score :: "(nat \<Rightarrow> FileMetaData) \<Rightarrow> nat Version \<Rightarrow> nat \<Rightarrow> rat" where
  "level_score F v lev =
     (if lev = 0 then double_round (of_nat (length (v_files v ! lev)) / of_nat kL0_CompactionTrigger)
      else double_round (double_round (of_nat (unat (TotalFileSize (map F (v_files v ! lev))))) / MaxBytesForLevel lev))"

definition Finalize :: "(nat \<Rightarrow> FileMetaData) \<Rightarrow> nat Version \<Rightarrow> nat Version" where
  "Finalize F v =
     (let (best_level, best_score) = foldl (\<lambda>(best_level, best_score) lev.
              let score = level_score F v lev in if score > best_score then (int lev, score) else (best_level, best_score))
            (-1, -1) [0..<kNumLevels - 1]
      in v\<lparr>v_compaction_level := best_level, v_compaction_score := best_score\<rparr>)"

subsection \<open>The manifest\<close>

text \<open>Appending a record to a log file of the environment.\<close>

definition env_append :: "('e, 'w, 'r) Env \<Rightarrow> 'e \<times> 'w \<Rightarrow> bytes \<Rightarrow> Status \<times> ('e \<times> 'w)" where
  "env_append E = (\<lambda>(env, h) d. let (s, env) = op_Append E env h d in (s, (env, h)))"

definition env_flush :: "('e, 'w, 'r) Env \<Rightarrow> 'e \<times> 'w \<Rightarrow> Status \<times> ('e \<times> 'w)" where
  "env_flush E = (\<lambda>(env, h). let (s, env) = op_Flush E env h in (s, (env, h)))"

definition retarget :: "'b \<Rightarrow> 'a Writer \<Rightarrow> 'b Writer" where
  "retarget d w = \<lparr>lw_dest = d, lw_block_offset = lw_block_offset w, lw_type_crc = lw_type_crc w\<rparr>"

definition env_AddRecord :: "('e, 'w, 'r) Env \<Rightarrow> 'e \<Rightarrow> 'w Writer \<Rightarrow> Slice \<Rightarrow> Status \<times> 'e \<times> 'w Writer" where
  "env_AddRecord E env w rec =
     (let (s, w') = AddRecord (env_append E) (env_flush E) (retarget (env, lw_dest w) w) rec
      in (s, fst (lw_dest w'), retarget (snd (lw_dest w')) w'))"

definition Snapshot_edit :: "'w VersionSet \<Rightarrow> VersionEdit" where
  "Snapshot_edit vs =
     (let edit = SetComparatorName VersionEdit_make (Comparator_Name (vs_user_comparator vs));
          edit = foldl (\<lambda>edit lev. if vs_compact_pointer vs ! lev \<noteq> [] then SetCompactPointer edit lev (vs_compact_pointer vs ! lev) else edit)
                   edit [0..<kNumLevels]
      in foldl (\<lambda>edit lev. foldl (\<lambda>edit f. let m = vs_deref vs f in AddFile edit lev (fm_number m) (fm_file_size m) (fm_smallest m) (fm_largest m))
                     edit (v_files (current vs) ! lev))
           edit [0..<kNumLevels])"

definition WriteSnapshot :: "('e, 'w, 'r) Env \<Rightarrow> 'e \<Rightarrow> 'w VersionSet \<Rightarrow> 'w Writer \<Rightarrow> Status \<times> 'e \<times> 'w Writer" where
  "WriteSnapshot E env vs dlog = env_AddRecord E env dlog (VersionEdit_EncodeTo (Snapshot_edit vs) [])"

subsection \<open>LogAndApply\<close>

definition LogAndApply_edit :: "'w VersionSet \<Rightarrow> VersionEdit \<Rightarrow> VersionEdit" where
  "LogAndApply_edit vs edit =
     (let edit = (if ve_has_log_number edit then edit else SetLogNumber edit (vs_log_number vs));
          edit = (if ve_has_prev_log_number edit then edit else SetPrevLogNumber edit (vs_prev_log_number vs));
          edit = SetNextFile edit (vs_next_file_number vs)
      in SetLastSequence edit (vs_last_sequence vs))"

text \<open>The new version, with the references that the builder takes and drops.\<close>

definition LogAndApply_version :: "'w VersionSet \<Rightarrow> VersionEdit \<Rightarrow> nat Version \<times> 'w VersionSet" where
  "LogAndApply_version vs edit =
     (let C = vs_user_comparator vs;
          c = the (vs_current vs);
          vs = Version_Ref c vs;
          (H, levels) = Builder_Apply C (vs_heap vs, Builder_make) edit;
          (H, v) = Builder_SaveTo C levels (current vs) H;
          vs = Version_Unref c (vs\<lparr>vs_heap := Builder_delete levels H, vs_compact_pointer := Apply_pointers (vs_compact_pointer vs) edit\<rparr>)
      in (Finalize (vs_deref vs) v, vs))"

text \<open>Opening a new manifest; the first component tells whether one was to be created.\<close>

definition LogAndApply_open :: "('e, 'w, 'r) Env \<Rightarrow> 'e \<Rightarrow> 'w VersionSet \<Rightarrow> bool \<times> Status \<times> 'e \<times> 'w VersionSet" where
  "LogAndApply_open E env vs =
     (case vs_descriptor_log vs of
        Some dlog \<Rightarrow> (False, Status_OK, env, vs)
      | None \<Rightarrow>
          (case op_NewWritableFile E env (DescriptorFileName (vs_dbname vs) (vs_manifest_file_number vs)) of
             (Inl s, env) \<Rightarrow> (True, s, env, vs)
           | (Inr file, env) \<Rightarrow>
               let (s, env, dlog) = WriteSnapshot E env vs (Writer_make file)
               in (True, s, env, vs\<lparr>vs_descriptor_log := Some dlog\<rparr>)))"

definition LogAndApply_write :: "('e, 'w, 'r) Env \<Rightarrow> 'e \<Rightarrow> 'w VersionSet \<Rightarrow> VersionEdit \<Rightarrow> bool \<Rightarrow> Status \<times> 'e \<times> 'w VersionSet" where
  "LogAndApply_write E env vs edit new_manifest =
     (let (s, env, dlog) = env_AddRecord E env (the (vs_descriptor_log vs)) (VersionEdit_EncodeTo edit []);
          vs = vs\<lparr>vs_descriptor_log := Some dlog\<rparr>;
          (s, env) = (if Status_ok s then op_Sync E env (lw_dest dlog) else (s, env));
          (s, env) = (if Status_ok s \<and> new_manifest then SetCurrentFile E env (vs_dbname vs) (vs_manifest_file_number vs) else (s, env))
      in (s, env, vs))"

definition LogAndApply :: "('e, 'w, 'r) Env \<Rightarrow> 'e \<Rightarrow> 'w VersionSet \<Rightarrow> VersionEdit \<Rightarrow> Status \<times> 'e \<times> 'w VersionSet \<times> VersionEdit" where
  "LogAndApply E env vs edit =
     (let edit = LogAndApply_edit vs edit;
          (v, vs) = LogAndApply_version vs edit;
          (new_manifest, s, env, vs) = LogAndApply_open E env vs;
          (s, env, vs) = (if Status_ok s then LogAndApply_write E env vs edit new_manifest else (s, env, vs))
      in if Status_ok s then
           (s, env, (AppendVersion v vs)\<lparr>vs_log_number := ve_log_number edit, vs_prev_log_number := ve_prev_log_number edit\<rparr>, edit)
         else
           let vs = vs\<lparr>vs_heap := Version_delete v (vs_heap vs)\<rparr>
           in if new_manifest then
                let env = (case vs_descriptor_log vs of None \<Rightarrow> env | Some dlog \<Rightarrow> op_delete_writable E env (lw_dest dlog));
                    env = snd (op_DeleteFile E env (DescriptorFileName (vs_dbname vs) (vs_manifest_file_number vs)))
                in (s, env, vs\<lparr>vs_descriptor_log := None\<rparr>, edit)
              else (s, env, vs, edit))"

subsection \<open>Recover\<close>

record RecoverState =
  rc_status :: Status
  rc_log_number :: "u64 option"
  rc_prev_log_number :: "u64 option"
  rc_next_file :: "u64 option"
  rc_last_sequence :: "u64 option"
  rc_heap :: FileHeap
  rc_levels :: "LevelState list"
  rc_compact_pointer :: "bytes list"

definition Recover_edit :: "Comparator \<Rightarrow> RecoverState \<Rightarrow> Slice \<Rightarrow> RecoverState" where
  "Recover_edit C st rec =
     (let (s, edit) = VersionEdit_DecodeFrom VersionEdit_make rec;
          s = (if Status_ok s \<and> ve_has_comparator edit \<and> ve_comparator edit \<noteq> Comparator_Name C
               then InvalidArgument (ve_comparator edit @ str '' does not match existing comparator '') (Comparator_Name C) else s);
          st = st\<lparr>rc_status := s\<rparr>;
          st = (if Status_ok s then
                  let (H, levels) = Builder_Apply C (rc_heap st, rc_levels st) edit
                  in st\<lparr>rc_heap := H, rc_levels := levels, rc_compact_pointer := Apply_pointers (rc_compact_pointer st) edit\<rparr>
                else st);
          st = (if ve_has_log_number edit then st\<lparr>rc_log_number := Some (ve_log_number edit)\<rparr> else st);
          st = (if ve_has_prev_log_number edit then st\<lparr>rc_prev_log_number := Some (ve_prev_log_number edit)\<rparr> else st);
          st = (if ve_has_next_file_number edit then st\<lparr>rc_next_file := Some (ve_next_file_number edit)\<rparr> else st)
      in if ve_has_last_sequence edit then st\<lparr>rc_last_sequence := Some (ve_last_sequence edit)\<rparr> else st)"

text \<open>
  The loop over the records, at most \<open>n\<close>, each read with the given fuel.  The reporter of the reader sets the status
  while it is OK.  The reader starts at offset 0 and never skips.
\<close>

fun Recover_loop ::
  "nat \<Rightarrow> nat \<Rightarrow> ('r \<Rightarrow> nat \<Rightarrow> Status \<times> bytes \<times> 'r) \<Rightarrow> Comparator \<Rightarrow> 'r Reader \<Rightarrow> RecoverState \<Rightarrow> ('r Reader \<times> RecoverState) option" where
  "Recover_loop 0 fuel rd C r st = None"
| "Recover_loop (Suc n) fuel rd C r st =
     (case ReadRecord fuel rd (\<lambda>f _. (Status_OK, f)) r of
        None \<Rightarrow> None
      | Some (rec, r) \<Rightarrow>
          let st = foldl (\<lambda>st (_, s). if Status_ok (rc_status st) then st\<lparr>rc_status := s\<rparr> else st) st (the (lr_reporter r));
              r = r\<lparr>lr_reporter := Some []\<rparr>
          in (case rec of
                None \<Rightarrow> Some (r, st)
              | Some rec \<Rightarrow> if Status_ok (rc_status st) then Recover_loop n fuel rd C r (Recover_edit C st rec) else Some (r, st)))"

definition Recover_check :: "RecoverState \<Rightarrow> Status" where
  "Recover_check st =
     (if \<not> Status_ok (rc_status st) then rc_status st
      else if rc_next_file st = None then Corruption (str ''no meta-nextfile entry in descriptor'') []
      else if rc_log_number st = None then Corruption (str ''no meta-lognumber entry in descriptor'') []
      else if rc_last_sequence st = None then Corruption (str ''no last-sequence-number entry in descriptor'') []
      else rc_status st)"

definition the_or_0 :: "u64 option \<Rightarrow> u64" where
  "the_or_0 x = (case x of None \<Rightarrow> 0 | Some n \<Rightarrow> n)"

definition Recover_install :: "'w VersionSet \<Rightarrow> RecoverState \<Rightarrow> Status \<times> 'w VersionSet" where
  "Recover_install vs st =
     (let s = Recover_check st;
          c = the (vs_current vs);
          vs = Version_Ref c (vs\<lparr>vs_heap := rc_heap st, vs_compact_pointer := rc_compact_pointer st\<rparr>);
          vs = (if Status_ok (rc_status st)
                then MarkFileNumberUsed (MarkFileNumberUsed vs (the_or_0 (rc_prev_log_number st))) (the_or_0 (rc_log_number st)) else vs);
          vs = (if Status_ok s then
                  let (H, v) = Builder_SaveTo (vs_user_comparator vs) (rc_levels st) (version_at vs c) (vs_heap vs);
                      vs = AppendVersion (Finalize (fh_deref H) v) (vs\<lparr>vs_heap := H\<rparr>)
                  in vs\<lparr>vs_manifest_file_number := the_or_0 (rc_next_file st), vs_next_file_number := the_or_0 (rc_next_file st) + 1,
                        vs_last_sequence := the_or_0 (rc_last_sequence st), vs_log_number := the_or_0 (rc_log_number st),
                        vs_prev_log_number := the_or_0 (rc_prev_log_number st)\<rparr>
                else vs)
      in (s, Version_Unref c (vs\<lparr>vs_heap := Builder_delete (rc_levels st) (vs_heap vs)\<rparr>)))"

definition Recover :: "nat \<Rightarrow> nat \<Rightarrow> ('e, 'w, 'r) Env \<Rightarrow> 'e \<Rightarrow> 'w VersionSet \<Rightarrow> (Status \<times> 'e \<times> 'w VersionSet) option" where
  "Recover n fuel E env vs =
     Option.bind (ReadFileToString fuel E env (CurrentFileName (vs_dbname vs))) (\<lambda>(s, cur, env).
       if \<not> Status_ok s then Some (s, env, vs)
       else if cur = [] \<or> last cur \<noteq> 10 then Some (Corruption (str ''CURRENT file does not end with newline'') [], env, vs)
       else
         case op_NewSequentialFile E env (vs_dbname vs @ str ''/'' @ butlast cur) of
           (Inl s, env) \<Rightarrow> Some (s, env, vs)
         | (Inr file, env) \<Rightarrow>
             map_option (\<lambda>(r, st).
                 let env = op_delete_sequential E env (lr_file r);
                     (s, vs) = Recover_install vs st
                 in (s, env, vs))
               (Recover_loop n fuel (op_Read E env) (vs_user_comparator vs) (Reader_make file True True 0)
                  \<lparr>rc_status = Status_OK, rc_log_number = None, rc_prev_log_number = None, rc_next_file = None, rc_last_sequence = None,
                   rc_heap = vs_heap vs, rc_levels = Builder_make, rc_compact_pointer = vs_compact_pointer vs\<rparr>))"

subsection \<open>References to versions and files\<close>

text \<open>
  \<open>A\<close> is the multiset of references to versions, \<open>R\<close> that of references to files that no live version holds.  The counts
  are exact, and the levels of every live version are sorted.
\<close>

definition vset_refs :: "(nat \<times> nat Version) list \<Rightarrow> nat multiset" where
  "vset_refs vers = mset (concat (concat (map (\<lambda>x. v_files (snd x)) vers)))"

definition version_ok :: "Comparator \<Rightarrow> FileHeap \<Rightarrow> nat Version \<Rightarrow> bool" where
  "version_ok C H v \<longleftrightarrow> length (v_files v) = kNumLevels \<and> (\<forall>lev < kNumLevels. files_ordered C (fh_deref H) (v_files v ! lev))"

definition vset_ok :: "'w VersionSet \<Rightarrow> nat multiset \<Rightarrow> nat multiset \<Rightarrow> bool" where
  "vset_ok vs A R \<longleftrightarrow> heap_ok (vs_heap vs) (vset_refs (vs_versions vs) + R) \<and> distinct (map fst (vs_versions vs))
     \<and> fst ` set (vs_versions vs) = set_mset A \<and> (\<forall>(i, v) \<in> set (vs_versions vs). i < vs_next_version vs \<and> v_refs v = int (count A i)
         \<and> version_ok (vs_user_comparator vs) (vs_heap vs) v)
     \<and> length (vs_compact_pointer vs) = kNumLevels"

text \<open>What the live versions hold does not change.\<close>

definition version_keys :: "'w VersionSet \<Rightarrow> nat \<Rightarrow> nat \<Rightarrow> file_keys" where
  "version_keys vs i lev = level_keys (vs_deref vs) (v_files (version_at vs i) ! lev)"

definition keeps_versions :: "nat multiset \<Rightarrow> 'w VersionSet \<Rightarrow> 'w VersionSet \<Rightarrow> bool" where
  "keeps_versions A vs vs' \<longleftrightarrow> (\<forall>i \<in># A. v_files (version_at vs' i) = v_files (version_at vs i)
     \<and> (\<forall>f \<in> set (concat (v_files (version_at vs i))). file_key (vs_deref vs' f) = file_key (vs_deref vs f)))"

lemma level_keys_concat:
  assumes "lev < length files" and "\<And>f. f \<in> set (concat files) \<Longrightarrow> file_key (F f) = file_key (G f)"
  shows "level_keys F (files ! lev) = level_keys G (files ! lev)"
  using assms(2) set_nth_concat [OF assms(1)] by (intro level_keys_cong) (metis subsetD)

lemma keeps_versions_keys:
  assumes "keeps_versions A vs vs'" and "i \<in># A" and "lev < length (v_files (version_at vs i))"
  shows "version_keys vs' i lev = version_keys vs i lev"
proof -
  have "level_keys (vs_deref vs') (v_files (version_at vs i) ! lev) = level_keys (vs_deref vs) (v_files (version_at vs i) ! lev)"
    using assms(1,2) by (intro level_keys_concat [OF assms(3)]) (auto simp: keeps_versions_def)
  then show ?thesis using assms(1,2) by (simp add: keeps_versions_def version_keys_def)
qed

lemma keeps_versions_refl: "keeps_versions A vs vs"
  by (simp add: keeps_versions_def)

lemma keeps_versions_trans: "keeps_versions A vs vs' \<Longrightarrow> keeps_versions B vs' vs'' \<Longrightarrow> A \<subseteq># B \<Longrightarrow> keeps_versions A vs vs''"
  unfolding keeps_versions_def by (metis mset_subset_eqD)

lemma vset_ok_live: "vset_ok vs A R \<Longrightarrow> i \<in># A \<Longrightarrow> \<exists>v. map_of (vs_versions vs) i = Some v \<and> (i, v) \<in> set (vs_versions vs)"
  unfolding vset_ok_def by (metis (no_types, lifting) domD dom_map_of_conv_image_fst map_of_SomeD)

lemma vset_ok_mem: "vset_ok vs A R \<Longrightarrow> (i, v) \<in> set (vs_versions vs) \<Longrightarrow> version_at vs i = v \<and> i \<in># A"
  unfolding vset_ok_def by (metis fst_conv image_eqI map_of_eq_Some_iff option.sel)

lemma vset_refs_mem: "(i, v) \<in> set vers \<Longrightarrow> set (concat (v_files v)) \<subseteq> set_mset (vset_refs vers)"
  by (force simp: vset_refs_def)

lemma version_ok_cong:
  assumes "\<And>f. f \<in> set (concat (v_files v)) \<Longrightarrow> file_key (fh_deref H' f) = file_key (fh_deref H f)"
  shows "version_ok C H' v \<longleftrightarrow> version_ok C H v"
proof (cases "length (v_files v) = kNumLevels")
  case True
  have "files_ordered C (fh_deref H') (v_files v ! lev) \<longleftrightarrow> files_ordered C (fh_deref H) (v_files v ! lev)" if lev: "lev < kNumLevels" for lev
    using set_nth_concat [of lev "v_files v"] assms True lev by (intro files_ordered_key) (metis subsetD)
  then show ?thesis by (auto simp: version_ok_def)
qed (simp add: version_ok_def)

text \<open>Changing the heap without touching what the versions hold.\<close>

lemma vset_ok_heap:
  assumes ok: "vset_ok vs A R" and h: "heap_ok H (vset_refs (vs_versions vs) + R')" and k: "heap_keeps (vset_refs (vs_versions vs)) (vs_heap vs) H"
  shows "vset_ok (vs\<lparr>vs_heap := H\<rparr>) A R'" and "keeps_versions A vs (vs\<lparr>vs_heap := H\<rparr>)"
proof -
  have key: "file_key (fh_deref H f) = file_key (vs_deref vs f)" if "(i, v) \<in> set (vs_versions vs)" "f \<in> set (concat (v_files v))" for i v f
    using k vset_refs_mem [OF that(1)] that(2) unfolding heap_keeps_def by blast
  have "version_ok C H v = version_ok C (vs_heap vs) v" if "(i, v) \<in> set (vs_versions vs)" for i v C
    using key [OF that] by (rule version_ok_cong)
  then have "\<forall>(i, v) \<in> set (vs_versions vs). i < vs_next_version vs \<and> v_refs v = int (count A i) \<and> version_ok (vs_user_comparator vs) H v"
    using ok unfolding vset_ok_def by blast
  then show "vset_ok (vs\<lparr>vs_heap := H\<rparr>) A R'" using ok h unfolding vset_ok_def by simp
  show "keeps_versions A vs (vs\<lparr>vs_heap := H\<rparr>)"
    unfolding keeps_versions_def
  proof
    fix i assume "i \<in># A"
    then obtain v where "map_of (vs_versions vs) i = Some v" "(i, v) \<in> set (vs_versions vs)" using vset_ok_live [OF ok] by blast
    then show "v_files (version_at (vs\<lparr>vs_heap := H\<rparr>) i) = v_files (version_at vs i)
      \<and> (\<forall>f \<in> set (concat (v_files (version_at vs i))). file_key (vs_deref (vs\<lparr>vs_heap := H\<rparr>) f) = file_key (vs_deref vs f))"
      using key by simp
  qed
qed

lemma update_version_simps [simp]:
  "map fst (update_version i f vers) = map fst vers"
  "map_of (update_version i f vers) j = (if j = i then map_option f (map_of vers i) else map_of vers j)"
  by (induction vers) (auto simp: update_version_def)

lemma update_version_refs: "(\<And>v. v_files (f v) = v_files v) \<Longrightarrow> vset_refs (update_version i f vers) = vset_refs vers"
  by (induction vers) (auto simp: vset_refs_def update_version_def)

lemma Version_Ref_ok:
  assumes ok: "vset_ok vs A R" and i: "i \<in># A"
  shows "vset_ok (Version_Ref i vs) (add_mset i A) R" and "keeps_versions A vs (Version_Ref i vs)"
proof -
  let ?f = "\<lambda>v. v\<lparr>v_refs := v_refs v + 1\<rparr>"
  have "version_ok C H (?f v) = version_ok C H v" for C H v by (simp add: version_ok_def)
  then have "\<forall>(j, v) \<in> set (update_version i ?f (vs_versions vs)). j < vs_next_version vs \<and> v_refs v = int (count (add_mset i A) j)
      \<and> version_ok (vs_user_comparator vs) (vs_heap vs) v"
    using ok unfolding vset_ok_def by (auto simp: update_version_def)
  moreover have "fst ` set (update_version i ?f (vs_versions vs)) = set_mset (add_mset i A)"
    using ok i unfolding vset_ok_def by (metis insert_absorb list.set_map set_mset_add_mset_insert update_version_simps(1))
  ultimately show "vset_ok (Version_Ref i vs) (add_mset i A) R"
    using ok update_version_refs [of ?f i "vs_versions vs"] unfolding vset_ok_def Version_Ref_def by simp
  show "keeps_versions A vs (Version_Ref i vs)"
    unfolding keeps_versions_def
  proof
    fix j assume "j \<in># A"
    then obtain v where "map_of (vs_versions vs) j = Some v" using vset_ok_live [OF ok] by blast
    then show "v_files (version_at (Version_Ref i vs) j) = v_files (version_at vs j)
      \<and> (\<forall>f \<in> set (concat (v_files (version_at vs j))). file_key (vs_deref (Version_Ref i vs) f) = file_key (vs_deref vs f))"
      by (auto simp: Version_Ref_def)
  qed
qed

lemma vset_refs_remove:
  assumes "distinct (map fst vers)" and "(i, v) \<in> set vers"
  shows "vset_refs vers = mset (concat (v_files v)) + vset_refs (filter (\<lambda>x. fst x \<noteq> i) vers)"
  using assms
proof (induction vers)
  case (Cons x vers)
  show ?case
  proof (cases "x = (i, v)")
    case True
    have "filter (\<lambda>x. fst x \<noteq> i) vers = vers" using Cons.prems(1) True by (force simp: filter_id_conv)
    then show ?thesis using True by (simp add: vset_refs_def)
  next
    case False
    then have m: "(i, v) \<in> set vers" using Cons.prems(2) by auto
    then have "i \<in> fst ` set vers" by force
    then have "fst x \<noteq> i" using Cons.prems(1) by auto
    then show ?thesis using Cons.IH [OF _ m] Cons.prems(1) by (simp add: vset_refs_def)
  qed
qed simp

lemma map_of_remove: "map_of (filter (\<lambda>x. fst x \<noteq> i) xs) j = (if j = i then None else map_of xs j)"
  by (induction xs) auto

lemma Version_Unref_ok:
  assumes ok: "vset_ok vs (add_mset i A) R"
  shows "vset_ok (Version_Unref i vs) A R" and "keeps_versions A vs (Version_Unref i vs)"
    and "heap_keeps R (vs_heap vs) (vs_heap (Version_Unref i vs))"
proof -
  obtain v where v: "map_of (vs_versions vs) i = Some v" "(i, v) \<in> set (vs_versions vs)" using vset_ok_live [OF ok] by auto
  have vers: "\<forall>(j, v) \<in> set (vs_versions vs). j < vs_next_version vs \<and> v_refs v = int (count (add_mset i A) j)
      \<and> version_ok (vs_user_comparator vs) (vs_heap vs) v"
    and dist: "distinct (map fst (vs_versions vs))" and ids: "fst ` set (vs_versions vs) = insert i (set_mset A)"
    and h: "heap_ok (vs_heap vs) (vset_refs (vs_versions vs) + R)" and cp: "length (vs_compact_pointer vs) = kNumLevels"
    using ok unfolding vset_ok_def by auto
  have refs: "v_refs v = int (count A i) + 1" using vers v(2) by auto
  have "vset_ok (Version_Unref i vs) A R \<and> keeps_versions A vs (Version_Unref i vs) \<and> heap_keeps R (vs_heap vs) (vs_heap (Version_Unref i vs))"
  proof (cases "i \<in># A")
    case True
    let ?f = "\<lambda>v. v\<lparr>v_refs := v_refs v - 1\<rparr>"
    have u: "Version_Unref i vs = vs\<lparr>vs_versions := update_version i ?f (vs_versions vs)\<rparr>"
      using refs v(1) True by (simp add: Version_Unref_def count_eq_zero_iff)
    have "\<forall>(j, v) \<in> set (update_version i ?f (vs_versions vs)). j < vs_next_version vs \<and> v_refs v = int (count A j)
        \<and> version_ok (vs_user_comparator vs) (vs_heap vs) v"
      using vers by (auto simp: update_version_def version_ok_def split: if_splits)
    moreover have "fst ` set (update_version i ?f (vs_versions vs)) = set_mset A"
      using ids True by (metis insert_absorb list.set_map update_version_simps(1))
    ultimately have "vset_ok (Version_Unref i vs) A R"
      unfolding vset_ok_def u using h dist cp update_version_refs [of ?f i "vs_versions vs"] by simp
    moreover have "keeps_versions A vs (Version_Unref i vs)"
      unfolding keeps_versions_def u by (auto simp: v(1))
    ultimately show ?thesis by (simp add: u heap_keeps_refl)
  next
    case False
    let ?vers = "filter (\<lambda>x. fst x \<noteq> i) (vs_versions vs)"
    let ?vs = "vs\<lparr>vs_versions := ?vers\<rparr>" and ?H = "Version_delete v (vs_heap vs)"
    have "v_refs v - 1 = 0" using refs False by (simp add: not_in_iff)
    then have u: "Version_Unref i vs = ?vs\<lparr>vs_heap := ?H\<rparr>" using v(1) by (simp add: Version_Unref_def)
    note rem = vset_refs_remove [OF dist v(2)]
    have "fst ` set ?vers = set_mset A" using ids False by force
    moreover have "\<forall>(j, v) \<in> set ?vers. j < vs_next_version vs \<and> v_refs v = int (count A j) \<and> version_ok (vs_user_comparator vs) (vs_heap vs) v"
      using vers by auto
    ultimately have ok1: "vset_ok ?vs A (mset (concat (v_files v)) + R)"
      unfolding vset_ok_def using h rem dist cp by (auto simp: distinct_map_filter ac_simps)
    have "heap_ok (vs_heap vs) (mset (concat (v_files v)) + (vset_refs ?vers + R))" using h rem by (simp add: ac_simps)
    note un = heap_ok_unrefs [OF this, folded Version_delete_def]
    have k: "heap_keeps (vset_refs (vs_versions ?vs)) (vs_heap ?vs) ?H" using un by (simp add: heap_keeps_def)
    have h2: "heap_ok ?H (vset_refs (vs_versions ?vs) + R)" using un by simp
    have "keeps_versions A vs ?vs" using False by (auto simp: keeps_versions_def map_of_remove)
    moreover have "heap_keeps R (vs_heap vs) ?H" using un by (simp add: heap_keeps_def)
    ultimately show ?thesis unfolding u using vset_ok_heap [OF ok1 h2 k] keeps_versions_trans [of A vs ?vs A] by simp
  qed
  then show "vset_ok (Version_Unref i vs) A R" and "keeps_versions A vs (Version_Unref i vs)"
    and "heap_keeps R (vs_heap vs) (vs_heap (Version_Unref i vs))" by blast+
qed

lemma AppendVersion_ok:
  assumes ok: "vset_ok vs (add_mset c A) (mset (concat (v_files v)) + R)" and cur: "vs_current vs = Some c"
    and v: "v_refs v = 0" "version_ok (vs_user_comparator vs) (vs_heap vs) v"
  shows "vset_ok (AppendVersion v vs) (add_mset (vs_next_version vs) A) R" and "vs_current (AppendVersion v vs) = Some (vs_next_version vs)"
    and "keeps_versions A vs (AppendVersion v vs)" and "v_files (current (AppendVersion v vs)) = v_files v"
    and "\<And>f. f \<in> set (concat (v_files v)) \<Longrightarrow> file_key (vs_deref (AppendVersion v vs) f) = file_key (vs_deref vs f)"
proof -
  define vs1 where "vs1 = Version_Unref c vs"
  define i where "i = vs_next_version vs"
  define v1 where "v1 = v\<lparr>v_refs := 1\<rparr>"
  note u = Version_Unref_ok [OF ok, folded vs1_def]
  have same: "vs_next_version vs1 = i" "vs_user_comparator vs1 = vs_user_comparator vs" by (simp_all add: vs1_def i_def Version_Unref_def Let_def)
  have app: "AppendVersion v vs = vs1\<lparr>vs_current := Some i, vs_versions := vs_versions vs1 @ [(i, v1)], vs_next_version := i + 1\<rparr>"
    using cur v(1) same by (simp add: AppendVersion_def vs1_def v1_def Let_def)
  have vers: "\<forall>(j, v) \<in> set (vs_versions vs1). j < i \<and> v_refs v = int (count A j) \<and> version_ok (vs_user_comparator vs) (vs_heap vs1) v"
    and dist: "distinct (map fst (vs_versions vs1))" and ids: "fst ` set (vs_versions vs1) = set_mset A"
    and h: "heap_ok (vs_heap vs1) (vset_refs (vs_versions vs1) + (mset (concat (v_files v)) + R))" and cp: "length (vs_compact_pointer vs1) = kNumLevels"
    using u(1) same unfolding vset_ok_def by auto
  have new: "i \<notin># A" using vers ids by force
  have keys: "file_key (vs_deref vs1 f) = file_key (vs_deref vs f)" if "f \<in> set (concat (v_files v))" for f
    using u(3) that by (simp add: heap_keeps_def)
  have "version_ok (vs_user_comparator vs) (vs_heap vs1) v1"
    using version_ok_cong [of v1 "vs_heap vs1" "vs_heap vs"] keys v(2) by (simp add: v1_def version_ok_def)
  moreover have "vset_refs (vs_versions vs1 @ [(i, v1)]) = vset_refs (vs_versions vs1) + mset (concat (v_files v))"
    by (simp add: vset_refs_def v1_def)
  ultimately show "vset_ok (AppendVersion v vs) (add_mset (vs_next_version vs) A) R"
    unfolding app vset_ok_def using vers dist ids h cp new same(2)
    by (auto simp: v1_def i_def [symmetric] ac_simps not_in_iff)
  show "vs_current (AppendVersion v vs) = Some (vs_next_version vs)" by (simp add: app i_def)
  have "i \<notin> fst ` set (vs_versions vs1)" using new ids by simp
  then have none: "map_of (vs_versions vs1) i = None" by (simp add: map_of_eq_None_iff)
  show "keeps_versions A vs (AppendVersion v vs)"
    using u(2) new vset_ok_live [OF u(1)] unfolding keeps_versions_def app by (auto simp: map_add_def split: option.splits)
  show "v_files (current (AppendVersion v vs)) = v_files v" using none by (simp add: app current_def v1_def map_add_def)
  show "file_key (vs_deref (AppendVersion v vs) f) = file_key (vs_deref vs f)" if "f \<in> set (concat (v_files v))" for f
    using keys [OF that] by (simp add: app)
qed

lemma Finalize_fields [simp]: "v_files (Finalize F v) = v_files v" "v_refs (Finalize F v) = v_refs v"
  "version_ok C H (Finalize F v) = version_ok C H v"
  by (simp_all add: Finalize_def version_ok_def split: prod.splits)

lemma Version_frame [simp]:
  "vs_dbname (Version_Ref i vs) = vs_dbname vs" "vs_user_comparator (Version_Ref i vs) = vs_user_comparator vs"
  "vs_current (Version_Ref i vs) = vs_current vs" "vs_next_version (Version_Ref i vs) = vs_next_version vs" "vs_heap (Version_Ref i vs) = vs_heap vs"
  "vs_descriptor_log (Version_Ref i vs) = vs_descriptor_log vs" "vs_compact_pointer (Version_Ref i vs) = vs_compact_pointer vs"
  "vs_dbname (Version_Unref i vs) = vs_dbname vs" "vs_user_comparator (Version_Unref i vs) = vs_user_comparator vs"
  "vs_current (Version_Unref i vs) = vs_current vs" "vs_next_version (Version_Unref i vs) = vs_next_version vs"
  "vs_descriptor_log (Version_Unref i vs) = vs_descriptor_log vs" "vs_compact_pointer (Version_Unref i vs) = vs_compact_pointer vs"
  by (simp_all add: Version_Ref_def Version_Unref_def Let_def)

lemma length_Apply_pointers [simp]: "length (Apply_pointers cp e) = length cp"
proof -
  have "length (foldl (\<lambda>cp (lev, key). cp[lev := key]) cp ps) = length cp" for ps :: "(nat \<times> InternalKey) list"
    by (induction ps arbitrary: cp) auto
  then show ?thesis by (simp add: Apply_pointers_def)
qed

lemma vset_ok_pointers:
  "vset_ok vs A R \<Longrightarrow> length cp = kNumLevels \<Longrightarrow> vset_ok (vs\<lparr>vs_compact_pointer := cp\<rparr>) A R"
  by (simp add: vset_ok_def)

lemma LogAndApply_version_ok:
  assumes C: "key_comparator (vs_user_comparator vs)" and ok: "vset_ok vs (add_mset c A) {#}" and cur: "vs_current vs = Some c"
    and e: "edit_fresh (used_numbers (vs_deref vs) (v_files (current vs))) edit" and lv: "LogAndApply_version vs edit = (v, vs')"
  shows "vset_ok vs' (add_mset c A) (mset (concat (v_files v)))" and "v_refs v = 0" and "version_ok (vs_user_comparator vs) (vs_heap vs') v"
    and "keeps_versions (add_mset c A) vs vs'"
    and "\<And>lev. lev < kNumLevels \<Longrightarrow> level_keys (vs_deref vs') (v_files v ! lev) = apply_edit (version_keys vs c) edit lev"
    and "vs_user_comparator vs' = vs_user_comparator vs" and "vs_current vs' = Some c" and "vs_dbname vs' = vs_dbname vs"
    and "vs_descriptor_log vs' = vs_descriptor_log vs" and "vs_next_version vs' = vs_next_version vs"
proof -
  define vs1 where "vs1 = Version_Ref c vs"
  let ?C = "vs_user_comparator vs"
  note r = Version_Ref_ok [OF ok, of c, folded vs1_def, simplified]
  let ?R = "vset_refs (vs_versions vs1)"
  have h1: "heap_ok (vs_heap vs) ?R" using r(1) by (simp add: vset_ok_def vs1_def)
  obtain vc where vc: "map_of (vs_versions vs1) c = Some vc" "(c, vc) \<in> set (vs_versions vs1)" using vset_ok_live [OF r(1), of c] by auto
  then have vok: "version_ok ?C (vs_heap vs) vc" using r(1) unfolding vset_ok_def by (auto simp: vs1_def)
  have cv: "current vs1 = vc" "v_files vc = v_files (current vs)" using vc(1) r(2) cur by (simp_all add: current_def vs1_def keeps_versions_def)
  obtain H2 levels where ap: "Builder_Apply ?C (vs_heap vs, Builder_make) edit = (H2, levels)" by fastforce
  obtain H3 v0 where sv: "Builder_SaveTo ?C levels vc H2 = (H3, v0)" by fastforce
  define vs2 where "vs2 = vs1\<lparr>vs_heap := Builder_delete levels H3\<rparr>"
  define vs3 where "vs3 = vs2\<lparr>vs_compact_pointer := Apply_pointers (vs_compact_pointer vs) edit\<rparr>"
  have v: "v = Finalize (vs_deref vs') v0" "vs' = Version_Unref c vs3"
    using lv cur ap sv cv(1) by (auto simp: LogAndApply_version_def vs1_def vs2_def vs3_def Let_def)
  have base: "length (v_files vc) = kNumLevels" "set (concat (v_files vc)) \<subseteq> set_mset ?R" using vok vset_refs_mem [OF vc(2)] by (simp_all add: version_ok_def)
  have inv: "builder_inv ?C H2 levels ?R (v_files vc) (used_numbers (vs_deref vs) (v_files vc) \<union> set (new_numbers edit))
      (apply_edit (\<lambda>lev. level_keys (vs_deref vs) (v_files vc ! lev)) edit)" "heap_keeps ?R (vs_heap vs) H2"
    using key_comparator.builder_inv_apply [OF C builder_inv_make [OF h1 base order_refl] _ ap] e cv(2) by auto
  have "files_ordered ?C (fh_deref H2) (v_files vc ! lev)" if lev: "lev < kNumLevels" for lev
  proof -
    have "file_key (fh_deref H2 f) = file_key (vs_deref vs f)" if "f \<in> set (v_files vc ! lev)" for f
    proof -
      have "f \<in># ?R" using that lev base set_nth_concat [of lev "v_files vc"] by auto
      then show ?thesis using inv(2) by (simp add: heap_keeps_def)
    qed
    then show ?thesis using files_ordered_key [of "v_files vc ! lev" "fh_deref H2" "vs_deref vs"] vok lev by (auto simp: version_ok_def)
  qed
  note save = key_comparator.builder_save [OF C inv(1) _ sv refl]
  then have b: "heap_ok (vs_heap vs2) (mset (concat (v_files v0)) + ?R)" "heap_keeps ?R H2 (vs_heap vs2)" "length (v_files v0) = kNumLevels" "v_refs v0 = 0"
    "\<And>lev. lev < kNumLevels \<Longrightarrow> files_ordered ?C (vs_deref vs2) (v_files v0 ! lev) \<and> level_keys (vs_deref vs2) (v_files v0 ! lev)
        = apply_edit (\<lambda>lev. level_keys (vs_deref vs) (v_files vc ! lev)) edit lev"
    using \<open>\<And>lev. lev < kNumLevels \<Longrightarrow> files_ordered ?C (fh_deref H2) (v_files vc ! lev)\<close> by (auto simp: vs2_def)
  have k: "heap_keeps ?R (vs_heap vs1) (vs_heap vs2)" using heap_keeps_trans [OF inv(2) b(2)] by (simp add: vs1_def)
  have h2: "heap_ok (Builder_delete levels H3) (?R + mset (concat (v_files v0)))" using b(1) by (simp add: vs2_def ac_simps)
  have k2: "heap_keeps ?R (vs_heap vs1) (Builder_delete levels H3)" using k by (simp add: vs2_def)
  note ok2 = vset_ok_heap [OF r(1) h2 k2, folded vs2_def]
  have cp: "length (Apply_pointers (vs_compact_pointer vs) edit) = kNumLevels" using ok by (simp add: vset_ok_def)
  note ok3 = vset_ok_pointers [OF ok2(1) cp, folded vs3_def]
  note un = Version_Unref_ok [OF ok3, folded v(2)]
  have fv: "v_files v = v_files v0" by (simp add: v(1))
  show "vset_ok vs' (add_mset c A) (mset (concat (v_files v)))" using un(1) by (simp add: fv)
  show "v_refs v = 0" using b(4) by (simp add: v(1))
  have keys: "file_key (vs_deref vs' f) = file_key (vs_deref vs2 f)" if "f \<in> set (concat (v_files v0))" for f
    using un(3) that by (auto simp: heap_keeps_def vs3_def)
  have "version_ok ?C (vs_heap vs2) v0" using b(3,5) by (simp add: version_ok_def)
  then show "version_ok ?C (vs_heap vs') v" using version_ok_cong [of v0 "vs_heap vs'" "vs_heap vs2"] keys by (simp add: v(1))
  have "keeps_versions (add_mset c A) vs vs2"
    using keeps_versions_trans [OF r(2) ok2(2)] by simp
  moreover have "keeps_versions (add_mset c A) vs2 vs'" using un(2) by (simp add: keeps_versions_def vs3_def)
  ultimately show "keeps_versions (add_mset c A) vs vs'" by (rule keeps_versions_trans) simp
  show "level_keys (vs_deref vs') (v_files v ! lev) = apply_edit (version_keys vs c) edit lev" if lev: "lev < kNumLevels" for lev
  proof -
    have "level_keys (vs_deref vs') (v_files v0 ! lev) = level_keys (vs_deref vs2) (v_files v0 ! lev)"
      using b(3) lev by (intro level_keys_concat keys) simp_all
    moreover have "(\<lambda>lev. level_keys (vs_deref vs) (v_files vc ! lev)) = version_keys vs c"
      using cv(2) cur by (simp add: version_keys_def [abs_def] current_def)
    ultimately show ?thesis using b(5) [OF lev] fv by simp
  qed
  show "vs_user_comparator vs' = ?C" "vs_current vs' = Some c" "vs_dbname vs' = vs_dbname vs" "vs_descriptor_log vs' = vs_descriptor_log vs"
    "vs_next_version vs' = vs_next_version vs" using cur by (simp_all add: v(2) vs3_def vs2_def vs1_def)
qed

lemma vset_ok_descriptor [simp]: "vset_ok (vs\<lparr>vs_descriptor_log := d\<rparr>) A R = vset_ok vs A R"
  by (simp add: vset_ok_def)

lemma LogAndApply_open_vs: "LogAndApply_open E env vs = (nm, s, env', vs') \<Longrightarrow> \<exists>d. vs' = vs\<lparr>vs_descriptor_log := d\<rparr>"
proof -
  have "\<exists>d. vs = vs\<lparr>vs_descriptor_log := d\<rparr>" by (rule exI [of _ "vs_descriptor_log vs"]) simp
  then show "LogAndApply_open E env vs = (nm, s, env', vs') \<Longrightarrow> ?thesis"
    by (auto simp: LogAndApply_open_def Let_def split: option.splits prod.splits sum.splits)
qed

lemma LogAndApply_write_vs: "LogAndApply_write E env vs edit nm = (s, env', vs') \<Longrightarrow> \<exists>d. vs' = vs\<lparr>vs_descriptor_log := d\<rparr>"
  by (auto simp: LogAndApply_write_def Let_def split: prod.splits if_splits)

text \<open>What \<^verbatim>\<open>LogAndApply\<close> does to the versions, whatever the environment does.\<close>

lemma LogAndApply_cases:
  assumes "LogAndApply E env vs edit = (s, env', vs', edit')" and "LogAndApply_version vs (LogAndApply_edit vs edit) = (v, vs1)"
  shows "\<exists>d. if Status_ok s then vs' = (AppendVersion v (vs1\<lparr>vs_descriptor_log := d\<rparr>))\<lparr>vs_log_number := ve_log_number edit', vs_prev_log_number := ve_prev_log_number edit'\<rparr>
    else vs' = vs1\<lparr>vs_heap := Version_delete v (vs_heap vs1), vs_descriptor_log := d\<rparr>"
    and "edit' = LogAndApply_edit vs edit"
proof -
  let ?e = "LogAndApply_edit vs edit"
  obtain nm s1 env1 vs2 where o: "LogAndApply_open E env vs1 = (nm, s1, env1, vs2)" by (metis prod_cases4)
  obtain d1 where d1: "vs2 = vs1\<lparr>vs_descriptor_log := d1\<rparr>" using LogAndApply_open_vs [OF o] by blast
  obtain s2 env2 vs3 where w: "(if Status_ok s1 then LogAndApply_write E env1 vs2 ?e nm else (s1, env1, vs2)) = (s2, env2, vs3)" by (metis prod_cases3)
  obtain d where d: "vs3 = vs1\<lparr>vs_descriptor_log := d\<rparr>"
    using w LogAndApply_write_vs [of E env1 vs2 ?e nm] d1 by (fastforce split: if_splits)
  show "edit' = ?e" using assms o w by (auto simp: LogAndApply_def Let_def split: if_splits)
  show "\<exists>d. if Status_ok s then vs' = (AppendVersion v (vs1\<lparr>vs_descriptor_log := d\<rparr>))\<lparr>vs_log_number := ve_log_number edit', vs_prev_log_number := ve_prev_log_number edit'\<rparr>
    else vs' = vs1\<lparr>vs_heap := Version_delete v (vs_heap vs1), vs_descriptor_log := d\<rparr>"
  proof (cases "Status_ok s2")
    case True
    then show ?thesis using assms o w d by (intro exI [of _ d]) (auto simp: LogAndApply_def Let_def split: if_splits)
  next
    case False
    then show ?thesis using assms o w d
      by (intro exI [of _ "if nm then None else d"]) (auto simp: LogAndApply_def Let_def split: if_splits)
  qed
qed

lemma LogAndApply_edit_files [simp]:
  "ve_deleted_files (LogAndApply_edit vs e) = ve_deleted_files e" "ve_new_files (LogAndApply_edit vs e) = ve_new_files e"
  "ve_compact_pointers (LogAndApply_edit vs e) = ve_compact_pointers e"
  by (simp_all add: LogAndApply_edit_def Let_def SetLogNumber_def SetPrevLogNumber_def SetNextFile_def SetLastSequence_def)

lemma edit_files_cong:
  assumes "ve_deleted_files e = ve_deleted_files e'" and "ve_new_files e = ve_new_files e'"
  shows "edit_fresh U e = edit_fresh U e'" and "apply_edit K e = apply_edit K e'"
  using assms by (simp_all add: edit_fresh_def new_numbers_def apply_edit_def [abs_def])

lemma LogAndApply_ok:
  assumes C: "key_comparator (vs_user_comparator vs)" and ok: "vset_ok vs (add_mset c A) {#}" and cur: "vs_current vs = Some c"
    and e: "edit_fresh (used_numbers (vs_deref vs) (v_files (current vs))) edit" and la: "LogAndApply E env vs edit = (s, env', vs', edit')"
  shows "Status_ok s \<Longrightarrow> \<exists>i. vs_current vs' = Some i \<and> vset_ok vs' (add_mset i A) {#} \<and> keeps_versions A vs vs'
      \<and> (\<forall>lev < kNumLevels. version_keys vs' i lev = apply_edit (version_keys vs c) edit lev)"
    and "\<not> Status_ok s \<Longrightarrow> vs_current vs' = Some c \<and> vset_ok vs' (add_mset c A) {#} \<and> keeps_versions (add_mset c A) vs vs'"
    and "vs_user_comparator vs' = vs_user_comparator vs" and "vs_dbname vs' = vs_dbname vs"
proof -
  let ?e = "LogAndApply_edit vs edit"
  obtain v vs1 where lv: "LogAndApply_version vs ?e = (v, vs1)" by fastforce
  have "edit_fresh (used_numbers (vs_deref vs) (v_files (current vs))) ?e" using e edit_files_cong(1) [of ?e edit] by simp
  note V = LogAndApply_version_ok [OF C ok cur this lv]
  obtain d where d: "if Status_ok s then vs' = (AppendVersion v (vs1\<lparr>vs_descriptor_log := d\<rparr>))\<lparr>vs_log_number := ve_log_number edit', vs_prev_log_number := ve_prev_log_number edit'\<rparr>
    else vs' = vs1\<lparr>vs_heap := Version_delete v (vs_heap vs1), vs_descriptor_log := d\<rparr>" using LogAndApply_cases [OF la lv] by blast
  let ?vs2 = "vs1\<lparr>vs_descriptor_log := d\<rparr>"
  have kd: "keeps_versions B vs ?vs2 = keeps_versions B vs vs1" for B by (simp add: keeps_versions_def)
  show "\<exists>i. vs_current vs' = Some i \<and> vset_ok vs' (add_mset i A) {#} \<and> keeps_versions A vs vs'
      \<and> (\<forall>lev < kNumLevels. version_keys vs' i lev = apply_edit (version_keys vs c) edit lev)" if "Status_ok s"
  proof -
    have ok2: "vset_ok ?vs2 (add_mset c A) (mset (concat (v_files v)) + {#})" using V(1) by simp
    have "vs_current ?vs2 = Some c" "version_ok (vs_user_comparator ?vs2) (vs_heap ?vs2) v" using V(3,6,7) by simp_all
    note a = AppendVersion_ok [OF ok2 this(1) V(2) this(2)]
    let ?vs3 = "AppendVersion v ?vs2" and ?i = "vs_next_version ?vs2"
    have vs': "vs' = ?vs3\<lparr>vs_log_number := ve_log_number edit', vs_prev_log_number := ve_prev_log_number edit'\<rparr>" using d that by simp
    have "keeps_versions A vs ?vs3" using keeps_versions_trans [of A vs ?vs2 A ?vs3] a(3) V(4) kd by (auto simp: keeps_versions_def)
    moreover have "version_keys ?vs3 ?i lev = apply_edit (version_keys vs c) edit lev" if lev: "lev < kNumLevels" for lev
    proof -
      have len: "lev < length (v_files v)" using V(3) lev by (simp add: version_ok_def)
      have "v_files (version_at ?vs3 ?i) = v_files v" using a(2,4) by (simp add: current_def)
      moreover have "level_keys (vs_deref ?vs3) (v_files v ! lev) = level_keys (vs_deref vs1) (v_files v ! lev)"
        using a(5) by (intro level_keys_concat [OF len]) simp
      ultimately show ?thesis using V(5) [OF lev] edit_files_cong(2) [of ?e edit] by (simp add: version_keys_def)
    qed
    ultimately show ?thesis using a(1,2) unfolding vs' by (intro exI [of _ ?i]) (simp add: keeps_versions_def version_keys_def vset_ok_def)
  qed
  show "vs_current vs' = Some c \<and> vset_ok vs' (add_mset c A) {#} \<and> keeps_versions (add_mset c A) vs vs'" if "\<not> Status_ok s"
  proof -
    let ?H = "Version_delete v (vs_heap vs1)"
    have vs': "vs' = vs1\<lparr>vs_heap := ?H\<rparr>\<lparr>vs_descriptor_log := d\<rparr>" using d that by simp
    have "heap_ok (vs_heap vs1) (mset (concat (v_files v)) + vset_refs (vs_versions vs1))" using V(1) by (simp add: vset_ok_def ac_simps)
    note un = heap_ok_unrefs [OF this, folded Version_delete_def]
    have "vset_ok (vs1\<lparr>vs_heap := ?H\<rparr>) (add_mset c A) {#}" "keeps_versions (add_mset c A) vs1 (vs1\<lparr>vs_heap := ?H\<rparr>)"
      using vset_ok_heap [OF V(1), of ?H "{#}"] un by simp_all
    then show ?thesis using V(4,7) keeps_versions_trans [of "add_mset c A" vs vs1 "add_mset c A"] unfolding vs' by (simp add: keeps_versions_def)
  qed
  show "vs_user_comparator vs' = vs_user_comparator vs" "vs_dbname vs' = vs_dbname vs"
    using d V(6,8) by (auto simp: AppendVersion_def Let_def split: if_splits option.splits)
qed

subsection \<open>Reachable states\<close>

text \<open>
  The states of a version set: \<open>A\<close> is the multiset of the references that readers and compactions hold.  They take a reference
  to the current version and drop one that they hold; edits name new files by fresh numbers; the environment may fail
  in every call.
\<close>

inductive vset_run :: "('e, 'w, 'r) Env \<Rightarrow> bytes \<Rightarrow> Comparator \<Rightarrow> 'w VersionSet \<Rightarrow> nat multiset \<Rightarrow> bool" for E dbname C where
  make: "vset_run E dbname C (VersionSet_make dbname C) {#}"
| ref: "vset_run E dbname C vs A \<Longrightarrow> vs_current vs = Some c \<Longrightarrow> vset_run E dbname C (Version_Ref c vs) (add_mset c A)"
| unref: "vset_run E dbname C vs (add_mset i A) \<Longrightarrow> vset_run E dbname C (Version_Unref i vs) A"
| log_and_apply: "vset_run E dbname C vs A \<Longrightarrow> edit_fresh (used_numbers (vs_deref vs) (v_files (current vs))) edit
    \<Longrightarrow> LogAndApply E env vs edit = (s, env', vs', edit') \<Longrightarrow> vset_run E dbname C vs' A"
| new_file: "vset_run E dbname C vs A \<Longrightarrow> vset_run E dbname C (snd (NewFileNumber vs)) A"
| reuse_file: "vset_run E dbname C vs A \<Longrightarrow> vset_run E dbname C (ReuseFileNumber vs n) A"
| mark_file: "vset_run E dbname C vs A \<Longrightarrow> vset_run E dbname C (MarkFileNumberUsed vs n) A"
| last_sequence: "vset_run E dbname C vs A \<Longrightarrow> vset_run E dbname C (VersionSet_SetLastSequence vs n) A"

lemma vset_ok_frame:
  assumes "vs_heap vs' = vs_heap vs" and "vs_versions vs' = vs_versions vs" and "vs_next_version vs' = vs_next_version vs"
    and "vs_user_comparator vs' = vs_user_comparator vs" and "vs_compact_pointer vs' = vs_compact_pointer vs"
  shows "vset_ok vs' A R = vset_ok vs A R"
  using assms by (simp add: vset_ok_def)

lemma VersionSet_make_ok: "vset_ok (VersionSet_make dbname C) {#0#} {#}" "vs_current (VersionSet_make dbname C) = Some 0"
  "vs_user_comparator (VersionSet_make dbname C) = C"
proof -
  have "files_ordered C F ([] :: nat list)" for F by (simp add: files_ordered_def)
  then show "vset_ok (VersionSet_make dbname C) {#0#} {#}" "vs_current (VersionSet_make dbname C) = Some 0"
    "vs_user_comparator (VersionSet_make dbname C) = C"
    by (simp_all add: VersionSet_make_def AppendVersion_def vset_ok_def vset_refs_def heap_ok_empty Version_make_def version_ok_def)
qed

lemma vset_run_ok:
  assumes "vset_run E dbname C vs A" and C: "key_comparator C"
  shows "\<exists>c. vs_current vs = Some c \<and> vset_ok vs (add_mset c A) {#} \<and> vs_user_comparator vs = C"
  using assms(1)
proof induction
  case make
  then show ?case using VersionSet_make_ok by blast
next
  case (ref vs A c)
  then show ?case using Version_Ref_ok(1) [of vs "add_mset c A" "{#}" c] by auto
next
  case (unref vs i A)
  then obtain c where c: "vs_current vs = Some c" "vset_ok vs (add_mset i (add_mset c A)) {#}" "vs_user_comparator vs = C"
    by (auto simp: add_mset_commute)
  then show ?case using Version_Unref_ok(1) [OF c(2)] by auto
next
  case (log_and_apply vs A edit env s env' vs' edit')
  then obtain c where c: "vs_current vs = Some c" "vset_ok vs (add_mset c A) {#}" "vs_user_comparator vs = C" by blast
  note la = LogAndApply_ok [OF _ c(2,1) log_and_apply.hyps(2,3), unfolded c(3), OF C]
  then show ?case by (cases "Status_ok s") blast+
next
  case (new_file vs A)
  then show ?case using vset_ok_frame [of "snd (NewFileNumber vs)" vs] by (simp add: NewFileNumber_def)
next
  case (reuse_file vs A n)
  then show ?case using vset_ok_frame [of "ReuseFileNumber vs n" vs] by (simp add: ReuseFileNumber_def)
next
  case (mark_file vs A n)
  then show ?case using vset_ok_frame [of "MarkFileNumberUsed vs n" vs] by (simp add: MarkFileNumberUsed_def)
next
  case (last_sequence vs A n)
  then show ?case using vset_ok_frame [of "VersionSet_SetLastSequence vs n" vs] by (simp add: VersionSet_SetLastSequence_def)
qed

subsection \<open>Properties\<close>


definition sample_edit :: VersionEdit where
  "sample_edit = VersionEdit_make\<lparr>ve_new_files := [(0, sample_file 7 10 30), (1, sample_file 8 20 50)]\<rparr>"

lemma sample_edit_fresh:
  "edit_fresh (used_numbers (vs_deref (VersionSet_make dbname C)) (v_files (current (VersionSet_make dbname C)))) sample_edit"
  by (simp add: edit_fresh_def new_numbers_def sample_edit_def used_numbers_def VersionSet_make_def AppendVersion_def current_def Version_make_def
      VersionEdit_make_def VersionEdit_Clear_def sample_file_def FileMetaData_make_def kNumLevels_def)




end
