(* ===== verification/Compaction.thy ===== *)
theory Compaction
  imports VersionSet
begin

text \<open>
  The choice of the inputs of a compaction (\<^verbatim>\<open>PickCompaction\<close>, \<^verbatim>\<open>CompactRange\<close>, \<^verbatim>\<open>SetupOtherInputs\<close> in \<^verbatim>\<open>db/version_set.cc\<close>) and the
  class \<^verbatim>\<open>Compaction\<close>, which decides while a compaction runs where its outputs end and which deletions may be dropped.
\<close>

subsection \<open>The class\<close>

record Compaction =
  cn_level :: nat
  cn_max_output_file_size :: u64
  cn_input_version :: "nat option"
  cn_edit :: VersionEdit
  cn_inputs0 :: "nat list"
  cn_inputs1 :: "nat list"
  cn_grandparents :: "nat list"
  cn_grandparent_index :: nat
  cn_seen_key :: bool
  cn_overlapped_bytes :: u64
  cn_level_ptrs :: "nat list"

definition Compaction_make :: "nat \<Rightarrow> Compaction" where
  "Compaction_make lev =
     \<lparr>cn_level = lev, cn_max_output_file_size = MaxFileSizeForLevel lev, cn_input_version = None, cn_edit = VersionEdit_make,
      cn_inputs0 = [], cn_inputs1 = [], cn_grandparents = [], cn_grandparent_index = 0, cn_seen_key = False,
      cn_overlapped_bytes = 0, cn_level_ptrs = replicate kNumLevels 0\<rparr>"

definition IsTrivialMove :: "(nat \<Rightarrow> FileMetaData) \<Rightarrow> Compaction \<Rightarrow> bool" where
  "IsTrivialMove F c \<longleftrightarrow> length (cn_inputs0 c) = 1 \<and> length (cn_inputs1 c) = 0
     \<and> sint (TotalFileSize (map F (cn_grandparents c))) \<le> kMaxGrandParentOverlapBytes"

definition AddInputDeletions :: "(nat \<Rightarrow> FileMetaData) \<Rightarrow> Compaction \<Rightarrow> VersionEdit \<Rightarrow> VersionEdit" where
  "AddInputDeletions F c edit =
     (let edit = foldl (\<lambda>edit f. Edit_DeleteFile edit (cn_level c) (fm_number (F f))) edit (cn_inputs0 c)
      in foldl (\<lambda>edit f. Edit_DeleteFile edit (cn_level c + 1) (fm_number (F f))) edit (cn_inputs1 c))"

text \<open>The scan of the files of one level: whether the key is in the range of a file, and where the scan stops.\<close>

function BaseLevel_scan :: "Comparator \<Rightarrow> FileMetaData list \<Rightarrow> Slice \<Rightarrow> nat \<Rightarrow> bool \<times> nat" where
  "BaseLevel_scan C files user_key i =
     (if i < length files then
        if Compare C user_key (largest_user (files ! i)) \<le> 0 then (Compare C user_key (smallest_user (files ! i)) \<ge> 0, i)
        else BaseLevel_scan C files user_key (i + 1)
      else (False, i))"
  by pat_completeness auto
termination by (relation "measure (\<lambda>(_, files, _, i). length files - i)") auto

declare BaseLevel_scan.simps [simp del]

primrec BaseLevel_levels :: "Comparator \<Rightarrow> (nat \<Rightarrow> FileMetaData) \<Rightarrow> nat Version \<Rightarrow> Slice \<Rightarrow> nat list \<Rightarrow> nat list \<Rightarrow> bool \<times> nat list" where
  "BaseLevel_levels C F v user_key [] ptrs = (True, ptrs)"
| "BaseLevel_levels C F v user_key (lvl # lvls) ptrs =
     (let (found, i) = BaseLevel_scan C (map F (v_files v ! lvl)) user_key (ptrs ! lvl);
          ptrs = ptrs[lvl := i]
      in if found then (False, ptrs) else BaseLevel_levels C F v user_key lvls ptrs)"

definition IsBaseLevelForKey :: "Comparator \<Rightarrow> (nat \<Rightarrow> FileMetaData) \<Rightarrow> nat Version \<Rightarrow> Compaction \<Rightarrow> Slice \<Rightarrow> bool \<times> Compaction" where
  "IsBaseLevelForKey C F v c user_key =
     (let (r, ptrs) = BaseLevel_levels C F v user_key [cn_level c + 2..<kNumLevels] (cn_level_ptrs c)
      in (r, c\<lparr>cn_level_ptrs := ptrs\<rparr>))"

function StopBefore_scan :: "Comparator \<Rightarrow> FileMetaData list \<Rightarrow> Slice \<Rightarrow> bool \<Rightarrow> nat \<Rightarrow> u64 \<Rightarrow> nat \<times> u64" where
  "StopBefore_scan C grandparents internal_key seen_key i overlapped =
     (if i < length grandparents \<and> InternalKey_Compare C internal_key (fm_largest (grandparents ! i)) > 0 then
        StopBefore_scan C grandparents internal_key seen_key (i + 1)
          (if seen_key then overlapped + fm_file_size (grandparents ! i) else overlapped)
      else (i, overlapped))"
  by pat_completeness auto
termination by (relation "measure (\<lambda>(_, gs, _, _, i, _). length gs - i)") auto

declare StopBefore_scan.simps [simp del]

definition ShouldStopBefore :: "Comparator \<Rightarrow> (nat \<Rightarrow> FileMetaData) \<Rightarrow> Compaction \<Rightarrow> Slice \<Rightarrow> bool \<times> Compaction" where
  "ShouldStopBefore C F c internal_key =
     (let (i, overlapped) = StopBefore_scan C (map F (cn_grandparents c)) internal_key (cn_seen_key c) (cn_grandparent_index c) (cn_overlapped_bytes c);
          c = c\<lparr>cn_grandparent_index := i, cn_seen_key := True\<rparr>
      in if sint overlapped > kMaxGrandParentOverlapBytes then (True, c\<lparr>cn_overlapped_bytes := 0\<rparr>)
         else (False, c\<lparr>cn_overlapped_bytes := overlapped\<rparr>))"

definition ReleaseInputs :: "Compaction \<Rightarrow> 'w VersionSet \<Rightarrow> Compaction \<times> 'w VersionSet" where
  "ReleaseInputs c vs =
     (case cn_input_version c of None \<Rightarrow> (c, vs) | Some i \<Rightarrow> (c\<lparr>cn_input_version := None\<rparr>, Version_Unref i vs))"

definition Compaction_delete :: "Compaction \<Rightarrow> 'w VersionSet \<Rightarrow> 'w VersionSet" where
  "Compaction_delete c vs = (case cn_input_version c of None \<Rightarrow> vs | Some i \<Rightarrow> Version_Unref i vs)"

subsection \<open>Choosing the inputs\<close>

definition GetRange :: "Comparator \<Rightarrow> (nat \<Rightarrow> FileMetaData) \<Rightarrow> nat list \<Rightarrow> InternalKey \<times> InternalKey" where
  "GetRange C F inputs =
     (case inputs of [] \<Rightarrow> ([], [])
      | f # fs \<Rightarrow> foldl (\<lambda>(smallest, largest) f.
            (if InternalKey_Compare C (fm_smallest (F f)) smallest < 0 then fm_smallest (F f) else smallest,
             if InternalKey_Compare C (fm_largest (F f)) largest > 0 then fm_largest (F f) else largest))
          (fm_smallest (F f), fm_largest (F f)) fs)"

definition GetRange2 :: "Comparator \<Rightarrow> (nat \<Rightarrow> FileMetaData) \<Rightarrow> nat list \<Rightarrow> nat list \<Rightarrow> InternalKey \<times> InternalKey" where
  "GetRange2 C F inputs1 inputs2 = GetRange C F (inputs1 @ inputs2)"

text \<open>The attempt to take more files of the level without taking more of the next: the two inputs and the range of the first.\<close>

definition Setup_expand ::
  "Comparator \<Rightarrow> (nat \<Rightarrow> FileMetaData) \<Rightarrow> nat Version \<Rightarrow> nat \<Rightarrow> nat list \<Rightarrow> nat list \<Rightarrow> (nat list \<times> nat list) option" where
  "Setup_expand C F v lev inputs0 inputs1 =
     (let (all_start, all_limit) = GetRange2 C F inputs0 inputs1 in
      if inputs1 = [] then Some (inputs0, inputs1)
      else Option.bind (GetOverlappingInputs C F v lev (Some all_start) (Some all_limit)) (\<lambda>expanded0.
        let inputs1_size = sint (TotalFileSize (map F inputs1));
            expanded0_size = sint (TotalFileSize (map F expanded0))
        in if length expanded0 > length inputs0 \<and> inputs1_size + expanded0_size < kExpandedCompactionByteSizeLimit then
             let (new_start, new_limit) = GetRange C F expanded0
             in map_option (\<lambda>expanded1. if length expanded1 = length inputs1 then (expanded0, expanded1) else (inputs0, inputs1))
                  (GetOverlappingInputs C F v (lev + 1) (Some new_start) (Some new_limit))
           else Some (inputs0, inputs1)))"

definition SetupOtherInputs :: "'w VersionSet \<Rightarrow> Compaction \<Rightarrow> ('w VersionSet \<times> Compaction) option" where
  "SetupOtherInputs vs c =
     (let C = vs_user_comparator vs;
          F = vs_deref vs;
          v = current vs;
          lev = cn_level c;
          (smallest, largest) = GetRange C F (cn_inputs0 c)
      in Option.bind (GetOverlappingInputs C F v (lev + 1) (Some smallest) (Some largest)) (\<lambda>inputs1.
         Option.bind (Setup_expand C F v lev (cn_inputs0 c) inputs1) (\<lambda>(inputs0, inputs1).
           let largest = snd (GetRange C F inputs0);
               (all_start, all_limit) = GetRange2 C F inputs0 inputs1
           in map_option (\<lambda>grandparents.
                  (vs\<lparr>vs_compact_pointer := (vs_compact_pointer vs)[lev := largest]\<rparr>,
                   c\<lparr>cn_inputs0 := inputs0, cn_inputs1 := inputs1, cn_grandparents := grandparents,
                     cn_edit := SetCompactPointer (cn_edit c) lev largest\<rparr>))
                (if lev + 2 < kNumLevels then GetOverlappingInputs C F v (lev + 2) (Some all_start) (Some all_limit)
                 else Some (cn_grandparents c)))))"

text \<open>The level and the file a compaction starts from.\<close>

definition Pick_start :: "'w VersionSet \<Rightarrow> (nat \<times> nat) option" where
  "Pick_start vs =
     (let v = current vs; C = vs_user_comparator vs in
      if v_compaction_score v \<ge> 1 then
        let lev = nat (v_compaction_level v);
            files = v_files v ! lev;
            ptr = vs_compact_pointer vs ! lev
        in Some (lev, case find (\<lambda>f. ptr = [] \<or> InternalKey_Compare C (fm_largest (vs_deref vs f)) ptr > 0) files of
                        Some f \<Rightarrow> f | None \<Rightarrow> files ! 0)
      else case v_file_to_compact v of
             Some f \<Rightarrow> Some (nat (v_file_to_compact_level v), f)
           | None \<Rightarrow> None)"

definition PickCompaction :: "'w VersionSet \<Rightarrow> ('w VersionSet \<times> Compaction option) option" where
  "PickCompaction vs =
     (case Pick_start vs of
        None \<Rightarrow> Some (vs, None)
      | Some (lev, f) \<Rightarrow>
          let c = (Compaction_make lev)\<lparr>cn_inputs0 := [f], cn_input_version := vs_current vs\<rparr>;
              vs = Version_Ref (the (vs_current vs)) vs;
              (smallest, largest) = GetRange (vs_user_comparator vs) (vs_deref vs) (cn_inputs0 c)
          in Option.bind (if lev = 0 then GetOverlappingInputs (vs_user_comparator vs) (vs_deref vs) (current vs) 0 (Some smallest) (Some largest)
                          else Some [f])
               (\<lambda>inputs0. map_option (\<lambda>(vs, c). (vs, Some c)) (SetupOtherInputs vs (c\<lparr>cn_inputs0 := inputs0\<rparr>))))"

text \<open>As many files as reach the limit; the total wraps like the unsigned sum.\<close>

fun CompactRange_limit :: "u64 \<Rightarrow> (nat \<Rightarrow> FileMetaData) \<Rightarrow> u64 \<Rightarrow> nat list \<Rightarrow> nat list" where
  "CompactRange_limit limit F acc [] = []"
| "CompactRange_limit limit F acc (f # fs) =
     (let acc = acc + fm_file_size (F f) in if acc \<ge> limit then [f] else f # CompactRange_limit limit F acc fs)"

definition CompactRange :: "'w VersionSet \<Rightarrow> nat \<Rightarrow> InternalKey option \<Rightarrow> InternalKey option \<Rightarrow> ('w VersionSet \<times> Compaction option) option" where
  "CompactRange vs lev beg en =
     Option.bind (GetOverlappingInputs (vs_user_comparator vs) (vs_deref vs) (current vs) lev beg en) (\<lambda>inputs.
       if inputs = [] then Some (vs, None)
       else
         let inputs = (if lev > 0 then CompactRange_limit (MaxFileSizeForLevel lev) (vs_deref vs) 0 inputs else inputs);
             c = (Compaction_make lev)\<lparr>cn_input_version := vs_current vs, cn_inputs0 := inputs\<rparr>
         in map_option (\<lambda>(vs, c). (vs, Some c)) (SetupOtherInputs (Version_Ref (the (vs_current vs)) vs) c))"

subsection \<open>Base levels\<close>

text \<open>No file two or more levels below holds the key in its range.\<close>

definition base_level :: "Comparator \<Rightarrow> (nat \<Rightarrow> FileMetaData) \<Rightarrow> nat Version \<Rightarrow> nat \<Rightarrow> Slice \<Rightarrow> bool" where
  "base_level C F v lev user_key \<longleftrightarrow>
     (\<forall>lvl \<in> {lev + 2..<kNumLevels}. \<forall>p \<in> set (v_files v ! lvl). \<not> overlaps C (Some user_key) (Some user_key) (F p))"

text \<open>The answers to a sequence of queries.\<close>

primrec IsBaseLevel_queries :: "Comparator \<Rightarrow> (nat \<Rightarrow> FileMetaData) \<Rightarrow> nat Version \<Rightarrow> Compaction \<Rightarrow> Slice list \<Rightarrow> bool list" where
  "IsBaseLevel_queries C F v c [] = []"
| "IsBaseLevel_queries C F v c (u # us) = (let (r, c) = IsBaseLevelForKey C F v c u in r # IsBaseLevel_queries C F v c us)"

text \<open>The files that a cursor has passed end before the key.\<close>

definition passed :: "Comparator \<Rightarrow> FileMetaData list \<Rightarrow> Slice \<Rightarrow> nat \<Rightarrow> bool" where
  "passed C files user_key i \<longleftrightarrow> (\<forall>j < i. j < length files \<longrightarrow> Compare C (largest_user (files ! j)) user_key < 0)"

definition level_ptrs_ok :: "Comparator \<Rightarrow> (nat \<Rightarrow> FileMetaData) \<Rightarrow> nat Version \<Rightarrow> nat list \<Rightarrow> Slice \<Rightarrow> bool" where
  "level_ptrs_ok C F v ptrs user_key \<longleftrightarrow> length ptrs = kNumLevels \<and> (\<forall>lvl < kNumLevels. passed C (map F (v_files v ! lvl)) user_key (ptrs ! lvl))"

context key_comparator
begin

lemma passed_mono: "passed C files u i \<Longrightarrow> Compare C u w \<le> 0 \<Longrightarrow> passed C files w i"
  unfolding passed_def using user.cmp_less_le_trans by blast

lemma overlaps_one:
  "overlaps C (Some u) (Some u) f \<longleftrightarrow> Compare C u (largest_user f) \<le> 0 \<and> Compare C (smallest_user f) u \<le> 0"
  using Compare_swap by (auto simp: overlaps_def AfterFile_def BeforeFile_def not_less)

lemma not_overlaps_one:
  "Compare C (largest_user f) u < 0 \<Longrightarrow> \<not> overlaps C (Some u) (Some u) f"
  "Compare C u (smallest_user f) < 0 \<Longrightarrow> \<not> overlaps C (Some u) (Some u) f"
  by (simp_all add: overlaps_one Compare_swap not_le)

lemma BaseLevel_stop:
  assumes "disjoint_sorted C files" and "passed C files u i" and "i < length files" and "Compare C u (largest_user (files ! i)) \<le> 0"
  shows "(\<exists>f \<in> set files. overlaps C (Some u) (Some u) f) \<longleftrightarrow> Compare C u (smallest_user (files ! i)) \<ge> 0"
proof (cases "Compare C u (smallest_user (files ! i)) < 0")
  case True
  have "\<not> overlaps C (Some u) (Some u) (files ! j)" if "j < length files" for j
  proof (cases "j < i")
    case False
    then have "Compare C (smallest_user (files ! i)) (smallest_user (files ! j)) \<le> 0"
      using user_key_mono [of "fm_smallest (files ! i)" "fm_smallest (files ! j)"] disjoint_sorted_largest(3) [OF assms(1), of i j] that
      by (cases "i = j") simp_all
    then show ?thesis using True user.cmp_less_le_trans not_overlaps_one(2) by blast
  qed (use assms(2) that not_overlaps_one(1) in \<open>auto simp: passed_def\<close>)
  then show ?thesis using True by (auto simp: in_set_conv_nth)
next
  case False
  then have "overlaps C (Some u) (Some u) (files ! i)" using assms(4) by (simp add: overlaps_one user.cmp_ge_swap not_less)
  then show ?thesis using False assms(3) nth_mem by (auto simp: not_less)
qed

lemma BaseLevel_scan_spec:
  assumes "disjoint_sorted C files" and "passed C files u i"
  shows "(fst (BaseLevel_scan C files u i) \<longleftrightarrow> (\<exists>f \<in> set files. overlaps C (Some u) (Some u) f))
    \<and> passed C files u (snd (BaseLevel_scan C files u i))"
  using assms(2)
proof (induction "length files - i" arbitrary: i rule: less_induct)
  case less
  consider "length files \<le> i" | "i < length files" "Compare C u (largest_user (files ! i)) \<le> 0"
    | "i < length files" "\<not> Compare C u (largest_user (files ! i)) \<le> 0" by linarith
  then show ?case
  proof cases
    case 1
    then have "\<not> overlaps C (Some u) (Some u) f" if "f \<in> set files" for f
      using less.prems that not_overlaps_one(1) by (auto simp: in_set_conv_nth passed_def)
    then show ?thesis using 1 less.prems by (subst (1 2) BaseLevel_scan.simps) auto
  next
    case 2
    then show ?thesis using BaseLevel_stop [OF assms(1) less.prems 2] less.prems by (subst (1 2) BaseLevel_scan.simps) simp
  next
    case 3
    then have "passed C files u (i + 1)" using less.prems by (auto simp: passed_def less_Suc_eq not_le Compare_swap)
    then show ?thesis using less.hyps [of "i + 1"] 3 by (subst (1 2) BaseLevel_scan.simps) simp
  qed
qed

lemma BaseLevel_levels_spec:
  assumes "\<forall>lvl \<in> set lvls. lvl < kNumLevels \<and> disjoint_sorted C (map F (v_files v ! lvl))" and "level_ptrs_ok C F v ptrs u"
  shows "(fst (BaseLevel_levels C F v u lvls ptrs) \<longleftrightarrow> (\<forall>lvl \<in> set lvls. \<forall>p \<in> set (v_files v ! lvl). \<not> overlaps C (Some u) (Some u) (F p)))
    \<and> level_ptrs_ok C F v (snd (BaseLevel_levels C F v u lvls ptrs)) u"
  using assms
proof (induction lvls arbitrary: ptrs)
  case (Cons lvl lvls)
  let ?files = "map F (v_files v ! lvl)"
  obtain found i where s: "BaseLevel_scan C ?files u (ptrs ! lvl) = (found, i)" by fastforce
  have "passed C ?files u (ptrs ! lvl)" using Cons.prems by (simp add: level_ptrs_ok_def)
  then have f: "found \<longleftrightarrow> (\<exists>p \<in> set (v_files v ! lvl). overlaps C (Some u) (Some u) (F p))" "passed C ?files u i"
    using BaseLevel_scan_spec [of ?files u "ptrs ! lvl"] Cons.prems(1) s by auto
  have ok: "level_ptrs_ok C F v (ptrs[lvl := i]) u" using Cons.prems f(2) by (auto simp: level_ptrs_ok_def nth_list_update)
  show ?case
  proof (cases found)
    case True
    then show ?thesis using s ok f(1) by auto
  next
    case False
    then show ?thesis using s f(1) Cons.IH [OF _ ok] Cons.prems(1) by simp
  qed
qed simp

lemma IsBaseLevel_queries_spec:
  assumes "\<forall>lvl \<in> {cn_level c + 2..<kNumLevels}. disjoint_sorted C (map F (v_files v ! lvl))"
    and "sorted_wrt (\<lambda>u w. Compare C u w \<le> 0) us" and "us \<noteq> [] \<Longrightarrow> level_ptrs_ok C F v (cn_level_ptrs c) (hd us)"
  shows "IsBaseLevel_queries C F v c us = map (base_level C F v (cn_level c)) us"
  using assms
proof (induction us arbitrary: c)
  case (Cons u us)
  obtain r ptrs where b: "BaseLevel_levels C F v u [cn_level c + 2..<kNumLevels] (cn_level_ptrs c) = (r, ptrs)" by fastforce
  have r: "r \<longleftrightarrow> base_level C F v (cn_level c) u" "level_ptrs_ok C F v ptrs u"
    using BaseLevel_levels_spec [of "[cn_level c + 2..<kNumLevels]" F v "cn_level_ptrs c" u] Cons.prems b
    by (simp_all add: base_level_def)
  have "level_ptrs_ok C F v ptrs (hd us)" if "us \<noteq> []"
    using r(2) passed_mono Cons.prems(2) that by (cases us) (auto simp: level_ptrs_ok_def)
  then show ?case using Cons.IH [of "c\<lparr>cn_level_ptrs := ptrs\<rparr>"] Cons.prems r(1) b by (simp add: IsBaseLevelForKey_def)
qed simp

end

text \<open>
  C8.  Base level queries.  While a compaction runs, its keys are asked for in order, and \<^verbatim>\<open>IsBaseLevelForKey\<close> answers with one
  cursor per level that never moves back.  From a new compaction, for keys in order, the answers are those of a
  search of every level at and below \<open>level + 2\<close>: the key is at its base level exactly if it is in the range of
  none of their files.
\<close>

theorem base_level_queries:
  assumes "key_comparator C" and "\<forall>lvl \<in> {lev + 2..<kNumLevels}. disjoint_sorted C (map F (v_files v ! lvl))"
    and "sorted_wrt (\<lambda>u w. Compare C u w \<le> 0) us"
  shows "IsBaseLevel_queries C F v (Compaction_make lev) us = map (base_level C F v lev) us"
  using key_comparator.IsBaseLevel_queries_spec [OF assms(1), of "Compaction_make lev" F v us] assms(2,3)
  by (simp add: Compaction_make_def level_ptrs_ok_def passed_def)

definition base_sample :: "nat Version" where
  "base_sample = Version_make\<lparr>v_files := [[], [], [0, 1], [2], [], [], []]\<rparr>"

definition base_deref :: "nat \<Rightarrow> FileMetaData" where
  "base_deref p = ([sample_file 1 10 20, sample_file 2 30 40, sample_file 3 15 50] ! p)"

theorem base_level_queries_witness:
  "IsBaseLevel_queries BytewiseComparator base_deref base_sample (Compaction_make 0) [[5], [15], [25], [35], [60]]
     = map (base_level BytewiseComparator base_deref base_sample 0) [[5], [15], [25], [35], [60]]"
proof (rule base_level_queries [OF bytewise.key_comparator_axioms])
  show "\<forall>lvl \<in> {0 + 2..<kNumLevels}. disjoint_sorted BytewiseComparator (map base_deref (v_files base_sample ! lvl))"
  proof
    fix lvl assume "lvl \<in> {0 + 2..<kNumLevels}"
    then consider "lvl = 2" | "lvl = 3" | "lvl \<in> {4, 5, 6}" by (force simp: kNumLevels_def)
    then show "disjoint_sorted BytewiseComparator (map base_deref (v_files base_sample ! lvl))"
    proof cases
      case 3
      then show ?thesis by (auto simp: base_sample_def disjoint_sorted_def)
    qed (simp_all add: base_sample_def base_deref_def disjoint_sorted_def sample_file_wf sample_order)
  qed
  show "sorted_wrt (\<lambda>u w. Compare BytewiseComparator u w \<le> 0) [[5], [15], [25], [35], [60 :: byte]]"
    by (simp add: Slice_compare_def)
qed

subsection \<open>The inputs\<close>

definition version_wf :: "Comparator \<Rightarrow> (nat \<Rightarrow> FileMetaData) \<Rightarrow> nat Version \<Rightarrow> bool" where
  "version_wf C F v \<longleftrightarrow> (\<forall>lvl < kNumLevels. \<forall>p \<in> set (v_files v ! lvl). InternalKey_Compare C (fm_smallest (F p)) (fm_largest (F p)) \<le> 0)"

text \<open>
  What the inputs of a compaction of level \<open>lev\<close> have to be: files of the level and of the next, every file of the
  next level that overlaps an input, in the first level every file of it that overlaps an input, and as
  grandparents every file two levels below that overlaps an input.
\<close>

definition takes_overlapping :: "Comparator \<Rightarrow> (nat \<Rightarrow> FileMetaData) \<Rightarrow> nat list \<Rightarrow> nat list \<Rightarrow> nat list \<Rightarrow> bool" where
  "takes_overlapping C F inputs files out \<longleftrightarrow> (\<forall>q \<in> set inputs. \<forall>p \<in> set files. file_overlaps C (F q) (F p) \<longrightarrow> p \<in> set out)"

definition compaction_ok :: "Comparator \<Rightarrow> (nat \<Rightarrow> FileMetaData) \<Rightarrow> nat Version \<Rightarrow> Compaction \<Rightarrow> bool" where
  "compaction_ok C F v c \<longleftrightarrow>
     cn_level c + 1 < kNumLevels \<and> cn_inputs0 c \<noteq> [] \<and> set (cn_inputs0 c) \<subseteq> set (v_files v ! cn_level c)
     \<and> set (cn_inputs1 c) \<subseteq> set (v_files v ! (cn_level c + 1))
     \<and> takes_overlapping C F (cn_inputs0 c) (v_files v ! (cn_level c + 1)) (cn_inputs1 c)
     \<and> (cn_level c = 0 \<longrightarrow> takes_overlapping C F (cn_inputs0 c) (v_files v ! 0) (cn_inputs0 c))
     \<and> (cn_level c + 2 < kNumLevels \<longrightarrow> takes_overlapping C F (cn_inputs0 c @ cn_inputs1 c) (v_files v ! (cn_level c + 2)) (cn_grandparents c))"

definition inputs_ok :: "Comparator \<Rightarrow> (nat \<Rightarrow> FileMetaData) \<Rightarrow> nat Version \<Rightarrow> nat \<Rightarrow> nat list \<Rightarrow> bool" where
  "inputs_ok C F v lev inputs \<longleftrightarrow> inputs \<noteq> [] \<and> set inputs \<subseteq> set (v_files v ! lev) \<and> (lev = 0 \<longrightarrow> takes_overlapping C F inputs (v_files v ! 0) inputs)"

definition parents_ok :: "Comparator \<Rightarrow> (nat \<Rightarrow> FileMetaData) \<Rightarrow> nat Version \<Rightarrow> nat \<Rightarrow> nat list \<Rightarrow> nat list \<Rightarrow> bool" where
  "parents_ok C F v lev inputs0 inputs1 \<longleftrightarrow> set inputs1 \<subseteq> set (v_files v ! (lev + 1)) \<and> takes_overlapping C F inputs0 (v_files v ! (lev + 1)) inputs1"

text \<open>What \<^verbatim>\<open>SetupOtherInputs\<close> makes of the files it is given.\<close>

definition setup_done :: "Comparator \<Rightarrow> 'w VersionSet \<Rightarrow> Compaction \<Rightarrow> ('w VersionSet \<times> Compaction) option \<Rightarrow> bool" where
  "setup_done C vs c r \<longleftrightarrow> (\<exists>c' k. r = Some (vs\<lparr>vs_compact_pointer := (vs_compact_pointer vs)[cn_level c := k]\<rparr>, c')
     \<and> compaction_ok C (vs_deref vs) (current vs) c' \<and> cn_level c' = cn_level c \<and> set (cn_inputs0 c) \<subseteq> set (cn_inputs0 c')
     \<and> cn_input_version c' = cn_input_version c \<and> cn_edit c' = SetCompactPointer (cn_edit c) (cn_level c) k)"

context key_comparator
begin

lemma GetRange_covers:
  assumes "GetRange C F inputs = (s, l)" and "p \<in> set inputs"
  shows "InternalKey_Compare C s (fm_smallest (F p)) \<le> 0" and "InternalKey_Compare C (fm_largest (F p)) l \<le> 0"
proof -
  let ?g = "\<lambda>(s, l) f. (if InternalKey_Compare C (fm_smallest (F f)) s < 0 then fm_smallest (F f) else s,
             if InternalKey_Compare C (fm_largest (F f)) l > 0 then fm_largest (F f) else l)"
  have *: "InternalKey_Compare C s s0 \<le> 0 \<and> InternalKey_Compare C l0 l \<le> 0
      \<and> (\<forall>p \<in> set fs. InternalKey_Compare C s (fm_smallest (F p)) \<le> 0 \<and> InternalKey_Compare C (fm_largest (F p)) l \<le> 0)"
    if "foldl ?g (s0, l0) fs = (s, l)" for s0 l0 fs
    using that
  proof (induction fs arbitrary: s0 l0)
    case (Cons f fs)
    obtain s1 l1 where g: "?g (s0, l0) f = (s1, l1)" by fastforce
    then have "InternalKey_Compare C s1 s0 \<le> 0" "InternalKey_Compare C s1 (fm_smallest (F f)) \<le> 0"
      "InternalKey_Compare C l0 l1 \<le> 0" "InternalKey_Compare C (fm_largest (F f)) l1 \<le> 0"
      using ikey.cmp_ge_swap [of l0 "fm_largest (F f)"] ikey_swap [of l0 "fm_largest (F f)"] ikey.cmp_ge_swap [of "fm_smallest (F f)" s0]
      by (auto simp: not_less less_imp_le split: if_splits)
    then show ?case using Cons.IH [of s1 l1] Cons.prems g ikey_le_trans by (simp del: split_paired_All) blast
  qed simp
  obtain f fs where inp: "inputs = f # fs" using assms(2) by (cases inputs) auto
  then have "foldl ?g (fm_smallest (F f), fm_largest (F f)) fs = (s, l)" using assms(1) by (simp add: GetRange_def)
  from * [OF this] show "InternalKey_Compare C s (fm_smallest (F p)) \<le> 0" "InternalKey_Compare C (fm_largest (F p)) l \<le> 0"
    using assms(2) inp by auto
qed

lemma GetRange_in_range:
  assumes "GetRange C F inputs = (s, l)" and "p \<in> set inputs"
  shows "in_range C (Some (ExtractUserKey s)) (Some (ExtractUserKey l)) (F p)"
  using user_key_mono [OF GetRange_covers(1) [OF assms]] user_key_mono [OF GetRange_covers(2) [OF assms]] Compare_swap
  by (simp add: in_range_def not_less user.cmp_ge_swap)

lemma file_overlaps_self: "InternalKey_Compare C (fm_smallest f) (fm_largest f) \<le> 0 \<Longrightarrow> file_overlaps C f f"
  using user_key_mono [of "fm_smallest f" "fm_largest f"] Compare_swap by (simp add: overlaps_def AfterFile_def BeforeFile_def not_less)

lemma GetOverlappingInputs_closed:
  assumes "version_wf C F v" and "lvl < kNumLevels"
  shows "\<exists>out. GetOverlappingInputs C F v lvl b e = Some out \<and> set out \<subseteq> set (v_files v ! lvl)
    \<and> (\<forall>p \<in> set (v_files v ! lvl). overlaps C (map_option ExtractUserKey b) (map_option ExtractUserKey e) (F p) \<longrightarrow> p \<in> set out)
    \<and> (lvl = 0 \<longrightarrow> takes_overlapping C F out (v_files v ! 0) out)"
proof -
  define P where "P = (if lvl = 0 then reached C F (v_files v ! lvl) (map_option ExtractUserKey b) (map_option ExtractUserKey e)
    else (\<lambda>p. overlaps C (map_option ExtractUserKey b) (map_option ExtractUserKey e) (F p)))"
  have "Compare C (smallest_user (F p)) (largest_user (F p)) \<le> 0" if "p \<in> set (v_files v ! lvl)" for p
    using that assms(1,2) user_key_mono by (simp add: version_wf_def)
  then have out: "GetOverlappingInputs C F v lvl b e = Some (filter P (v_files v ! lvl))"
    using GetOverlappingInputs_above [of lvl F v b e] GetOverlappingInputs_zero [of v F b e] by (cases "lvl = 0") (simp_all add: P_def)
  moreover have "lvl = 0 \<longrightarrow> takes_overlapping C F (filter P (v_files v ! 0)) (v_files v ! 0) (filter P (v_files v ! 0))"
    by (auto simp: P_def takes_overlapping_def intro: reached.step)
  ultimately show ?thesis by (auto simp: P_def intro: reached.base)
qed

text \<open>The files that \<^verbatim>\<open>GetOverlappingInputs\<close> gives for the range of some files.\<close>

lemma GetOverlappingInputs_range:
  assumes "version_wf C F v" and "lvl < kNumLevels" and "GetRange C F inputs = (s, l)"
  shows "\<exists>out. GetOverlappingInputs C F v lvl (Some s) (Some l) = Some out \<and> set out \<subseteq> set (v_files v ! lvl)
    \<and> takes_overlapping C F inputs (v_files v ! lvl) out \<and> (lvl = 0 \<longrightarrow> takes_overlapping C F out (v_files v ! 0) out)"
  using GetOverlappingInputs_closed [OF assms(1,2), of "Some s" "Some l"] overlaps_within [OF GetRange_in_range [OF assms(3)]]
  by (fastforce simp: takes_overlapping_def)

lemma Setup_expand_ok:
  assumes wf: "version_wf C F v" and lev: "lev + 1 < kNumLevels" and "inputs_ok C F v lev inputs0" and "parents_ok C F v lev inputs0 inputs1"
  shows "\<exists>i0 i1. Setup_expand C F v lev inputs0 inputs1 = Some (i0, i1) \<and> set inputs0 \<subseteq> set i0 \<and> inputs_ok C F v lev i0 \<and> parents_ok C F v lev i0 i1"
proof -
  obtain s l where r: "GetRange C F (inputs0 @ inputs1) = (s, l)" by fastforce
  from lev have lev': "lev < kNumLevels" by simp
  obtain e0 where e0: "GetOverlappingInputs C F v lev (Some s) (Some l) = Some e0" "set e0 \<subseteq> set (v_files v ! lev)"
    "takes_overlapping C F (inputs0 @ inputs1) (v_files v ! lev) e0" "lev = 0 \<longrightarrow> takes_overlapping C F e0 (v_files v ! 0) e0"
    using GetOverlappingInputs_range [OF wf lev' r] by auto
  have sub: "set inputs0 \<subseteq> set e0"
  proof
    fix p assume p: "p \<in> set inputs0"
    then have "p \<in> set (v_files v ! lev)" using assms(3) by (auto simp: inputs_ok_def)
    moreover from this have "file_overlaps C (F p) (F p)" using wf lev' by (intro file_overlaps_self) (simp add: version_wf_def)
    ultimately show "p \<in> set e0" using e0(3) p by (auto simp: takes_overlapping_def)
  qed
  obtain s1 l1 where r1: "GetRange C F e0 = (s1, l1)" by fastforce
  obtain e1 where e1: "GetOverlappingInputs C F v (lev + 1) (Some s1) (Some l1) = Some e1" "parents_ok C F v lev e0 e1"
    using GetOverlappingInputs_range [OF wf lev r1] by (auto simp: parents_ok_def)
  have "Setup_expand C F v lev inputs0 inputs1 \<in> {Some (inputs0, inputs1), Some (e0, e1)}"
    using r r1 e0(1) e1(1) by (simp add: Setup_expand_def GetRange2_def Let_def)
  moreover have "inputs_ok C F v lev e0" using e0(2,4) sub assms(3) by (auto simp: inputs_ok_def)
  ultimately show ?thesis using assms(3,4) e1(2) sub by blast
qed

lemma SetupOtherInputs_ok:
  fixes vs :: "'w VersionSet"
  assumes C: "C = vs_user_comparator vs" and wf: "version_wf C (vs_deref vs) (current vs)" and lev: "cn_level c + 1 < kNumLevels"
    and i0: "inputs_ok C (vs_deref vs) (current vs) (cn_level c) (cn_inputs0 c)"
  shows "setup_done C vs c (SetupOtherInputs vs c)"
proof -
  let ?F = "vs_deref vs" and ?v = "current vs" and ?lev = "cn_level c"
  obtain s l where r: "GetRange C ?F (cn_inputs0 c) = (s, l)" by fastforce
  obtain i1 where i1: "GetOverlappingInputs C ?F ?v (?lev + 1) (Some s) (Some l) = Some i1" "parents_ok C ?F ?v ?lev (cn_inputs0 c) i1"
    using GetOverlappingInputs_range [OF wf lev r] by (auto simp: parents_ok_def)
  obtain j0 j1 where j: "Setup_expand C ?F ?v ?lev (cn_inputs0 c) i1 = Some (j0, j1)" "set (cn_inputs0 c) \<subseteq> set j0"
    "inputs_ok C ?F ?v ?lev j0" "parents_ok C ?F ?v ?lev j0 j1"
    using Setup_expand_ok [OF wf lev i0 i1(2)] by blast
  obtain s2 l2 where r2: "GetRange C ?F (j0 @ j1) = (s2, l2)" by fastforce
  define gs where "gs = (if ?lev + 2 < kNumLevels then GetOverlappingInputs C ?F ?v (?lev + 2) (Some s2) (Some l2) else Some (cn_grandparents c))"
  have "\<exists>g. gs = Some g \<and> (?lev + 2 < kNumLevels \<longrightarrow> takes_overlapping C ?F (j0 @ j1) (v_files ?v ! (?lev + 2)) g)"
    using GetOverlappingInputs_range [OF wf _ r2, of "?lev + 2"] by (auto simp: gs_def)
  then obtain g where g: "gs = Some g" "?lev + 2 < kNumLevels \<longrightarrow> takes_overlapping C ?F (j0 @ j1) (v_files ?v ! (?lev + 2)) g" by blast
  define k where "k = snd (GetRange C ?F j0)"
  define c' where "c' = c\<lparr>cn_inputs0 := j0, cn_inputs1 := j1, cn_grandparents := g, cn_edit := SetCompactPointer (cn_edit c) ?lev k\<rparr>"
  have "SetupOtherInputs vs c = Some (vs\<lparr>vs_compact_pointer := (vs_compact_pointer vs)[?lev := k]\<rparr>, c')"
    unfolding SetupOtherInputs_def Let_def C [symmetric]
    using i1(1) j(1) g(1) by (simp add: r r2 GetRange2_def gs_def k_def c'_def)
  moreover have "compaction_ok C ?F ?v c'"
    using lev j(3,4) g(2) by (simp add: compaction_ok_def c'_def inputs_ok_def parents_ok_def)
  ultimately show ?thesis unfolding setup_done_def by (intro exI [of _ c'] exI [of _ k]) (simp add: c'_def j(2))
qed

end

text \<open>What a version has to know for a compaction to be picked; \<^verbatim>\<open>Finalize\<close> provides the first conjunct.\<close>

definition pickable :: "nat Version \<Rightarrow> bool" where
  "pickable v \<longleftrightarrow>
     (v_compaction_score v \<ge> 1 \<longrightarrow> (\<exists>lev. v_compaction_level v = int lev \<and> lev + 1 < kNumLevels \<and> v_files v ! lev \<noteq> []))
     \<and> (\<forall>f. v_file_to_compact v = Some f \<longrightarrow>
          (\<exists>lev. v_file_to_compact_level v = int lev \<and> lev + 1 < kNumLevels \<and> f \<in> set (v_files v ! lev)))"

lemma level_score_empty: "v_files v ! lev = [] \<Longrightarrow> level_score F v lev = 0"
  by (cases "lev = 0") (simp_all add: level_score_def double_round_def TotalFileSize_def)

lemma Finalize_pickable:
  assumes "v_compaction_score (Finalize F v) \<ge> 1"
  shows "\<exists>lev. v_compaction_level (Finalize F v) = int lev \<and> lev + 1 < kNumLevels \<and> v_files v ! lev \<noteq> []"
proof -
  let ?g = "\<lambda>(b, s) lev. let score = level_score F v lev in if score > s then (int lev, score) else (b, s)"
  have *: "(b', s') = (b, s) \<or> (\<exists>lev \<in> set levs. b' = int lev \<and> s' = level_score F v lev)"
    if "foldl ?g (b, s) levs = (b', s')" for b :: int and s levs b' s'
    using that
  proof (induction levs arbitrary: b s)
    case (Cons lev levs)
    then show ?case using Cons.IH [of "fst (?g (b, s) lev)" "snd (?g (b, s) lev)"] by (auto simp: Let_def split: if_splits)
  qed simp
  obtain b s where f: "foldl ?g (-1, -1) [0..<kNumLevels - 1] = (b, s)" by fastforce
  then have "v_compaction_level (Finalize F v) = b" "v_compaction_score (Finalize F v) = s" by (simp_all add: Finalize_def)
  then show ?thesis using * [OF f] assms level_score_empty [of v _ F] by force
qed

lemma current_Ref:
  assumes "vs_current vs = Some i" and "vset_ok vs (add_mset i A) R"
  shows "current (Version_Ref i vs) = (current vs)\<lparr>v_refs := v_refs (current vs) + 1\<rparr>"
  using vset_ok_live [OF assms(2), of i] assms(1) by (auto simp: current_def Version_Ref_def)

lemma Pick_start_ok:
  assumes "pickable (current vs)"
  shows "Pick_start vs = None \<longleftrightarrow> \<not> NeedsCompaction vs"
    and "Pick_start vs = Some (lev, f) \<Longrightarrow> lev + 1 < kNumLevels \<and> f \<in> set (v_files (current vs) ! lev)"
proof -
  show "Pick_start vs = None \<longleftrightarrow> \<not> NeedsCompaction vs"
    by (auto simp: Pick_start_def NeedsCompaction_def Let_def split: option.splits)
  show "lev + 1 < kNumLevels \<and> f \<in> set (v_files (current vs) ! lev)" if p: "Pick_start vs = Some (lev, f)"
  proof (cases "v_compaction_score (current vs) \<ge> 1")
    case True
    then obtain l where l: "v_compaction_level (current vs) = int l" "l + 1 < kNumLevels" "v_files (current vs) ! l \<noteq> []"
      using assms by (auto simp: pickable_def)
    have "(case find P xs of Some f \<Rightarrow> f | None \<Rightarrow> xs ! 0) \<in> set xs" if "xs \<noteq> []" for P and xs :: "nat list"
      using that by (auto simp: find_Some_iff split: option.splits)
    from this [OF l(3)] show ?thesis using True p l(1,2) by (auto simp: Pick_start_def Let_def)
  next
    case False
    then show ?thesis using p assms by (auto simp: Pick_start_def pickable_def Let_def split: option.splits)
  qed
qed

text \<open>
  A compaction that holds a reference to the current version, with inputs as required.
\<close>

definition picked :: "'w VersionSet \<Rightarrow> nat multiset \<Rightarrow> 'w VersionSet \<Rightarrow> Compaction \<Rightarrow> bool" where
  "picked vs A vs' c \<longleftrightarrow> compaction_ok (vs_user_comparator vs) (vs_deref vs) (current vs) c
     \<and> cn_input_version c = vs_current vs \<and> vs_current vs' = vs_current vs \<and> vs_heap vs' = vs_heap vs
     \<and> vset_ok vs' (add_mset (the (vs_current vs)) A) {#}"

lemma compaction_ok_refs [simp]: "compaction_ok C F (v\<lparr>v_refs := n\<rparr>) c = compaction_ok C F v c"
  by (simp add: compaction_ok_def)

lemma Setup_picked:
  assumes C: "key_comparator (vs_user_comparator vs)" and cur: "vs_current vs = Some i" and ok: "vset_ok vs (add_mset i A) {#}"
    and wf: "version_wf (vs_user_comparator vs) (vs_deref vs) (current vs)" and lev: "cn_level c + 1 < kNumLevels"
    and i0: "inputs_ok (vs_user_comparator vs) (vs_deref vs) (current vs) (cn_level c) (cn_inputs0 c)" and iv: "cn_input_version c = vs_current vs"
  shows "\<exists>vs' c'. SetupOtherInputs (Version_Ref i vs) c = Some (vs', c') \<and> picked vs (add_mset i A) vs' c' \<and> cn_level c' = cn_level c
    \<and> set (cn_inputs0 c) \<subseteq> set (cn_inputs0 c')"
proof -
  note ref = current_Ref [OF cur ok]
  have "setup_done (vs_user_comparator vs) (Version_Ref i vs) c (SetupOtherInputs (Version_Ref i vs) c)"
    using wf i0 lev by (intro key_comparator.SetupOtherInputs_ok [OF C]) (simp_all add: ref version_wf_def inputs_ok_def)
  then obtain c' k where s: "SetupOtherInputs (Version_Ref i vs) c
      = Some ((Version_Ref i vs)\<lparr>vs_compact_pointer := (vs_compact_pointer vs)[cn_level c := k]\<rparr>, c')"
    "compaction_ok (vs_user_comparator vs) (vs_deref vs) (current vs) c'" "cn_level c' = cn_level c"
    "set (cn_inputs0 c) \<subseteq> set (cn_inputs0 c')" "cn_input_version c' = cn_input_version c"
    unfolding setup_done_def by (auto simp: ref)
  have "vset_ok (Version_Ref i vs) (add_mset i (add_mset i A)) {#}" using Version_Ref_ok(1) [OF ok, of i] by simp
  then have "vset_ok ((Version_Ref i vs)\<lparr>vs_compact_pointer := (vs_compact_pointer vs)[cn_level c := k]\<rparr>) (add_mset i (add_mset i A)) {#}"
    using ok by (intro vset_ok_pointers) (simp_all add: vset_ok_def)
  then show ?thesis using s iv cur by (auto simp: picked_def)
qed

lemma PickCompaction_ok:
  assumes C: "key_comparator (vs_user_comparator vs)" and cur: "vs_current vs = Some i" and ok: "vset_ok vs (add_mset i A) {#}"
    and wf: "version_wf (vs_user_comparator vs) (vs_deref vs) (current vs)" and pick: "pickable (current vs)"
  shows "\<exists>vs' r. PickCompaction vs = Some (vs', r) \<and> (r = None \<longleftrightarrow> \<not> NeedsCompaction vs) \<and> (r = None \<longrightarrow> vs' = vs)
    \<and> (\<forall>c. r = Some c \<longrightarrow> picked vs (add_mset i A) vs' c)"
proof (cases "Pick_start vs")
  case None
  then show ?thesis using Pick_start_ok(1) [OF pick] by (simp add: PickCompaction_def)
next
  case (Some x)
  obtain lev f where x: "x = (lev, f)" by fastforce
  let ?C = "vs_user_comparator vs" and ?F = "vs_deref vs" and ?v = "current vs"
  have lev: "lev + 1 < kNumLevels" "f \<in> set (v_files ?v ! lev)" using Pick_start_ok(2) [OF pick] Some x by blast+
  obtain s l where r: "GetRange ?C ?F [f] = (s, l)" by fastforce
  define inp where "inp = (if lev = 0 then GetOverlappingInputs ?C ?F ?v 0 (Some s) (Some l) else Some [f])"
  have "\<exists>inputs0. inp = Some inputs0 \<and> inputs_ok ?C ?F ?v lev inputs0"
  proof (cases "lev = 0")
    case True
    have "file_overlaps ?C (?F f) (?F f)"
      using wf lev by (intro key_comparator.file_overlaps_self [OF C]) (auto simp: version_wf_def dest: Suc_lessD)
    then show ?thesis using key_comparator.GetOverlappingInputs_range [OF C wf, of 0 "[f]" s l] r lev True
      by (force simp: inp_def inputs_ok_def takes_overlapping_def)
  qed (use lev in \<open>simp add: inp_def inputs_ok_def\<close>)
  then obtain inputs0 where i0: "inp = Some inputs0" "inputs_ok ?C ?F ?v lev inputs0" by blast
  define c where "c = (Compaction_make lev)\<lparr>cn_input_version := vs_current vs, cn_inputs0 := inputs0\<rparr>"
  have c: "cn_level c = lev" "cn_inputs0 c = inputs0" "cn_input_version c = vs_current vs" by (simp_all add: c_def Compaction_make_def)
  obtain vs' c' where s: "SetupOtherInputs (Version_Ref i vs) c = Some (vs', c')" "picked vs (add_mset i A) vs' c'"
    using Setup_picked [OF C cur ok wf, of c] lev(1) i0(2) c by auto
  have "GetOverlappingInputs ?C ?F (current (Version_Ref i vs)) 0 = GetOverlappingInputs ?C ?F ?v 0"
    by (simp add: current_Ref [OF cur ok] GetOverlappingInputs_def fun_eq_iff)
  then have "PickCompaction vs = Some (vs', Some c')"
    using i0(1) s(1) r cur by (simp add: PickCompaction_def Some x Let_def inp_def c_def split: if_splits)
  then show ?thesis using s(2) Some Pick_start_ok(1) [OF pick] by auto
qed

lemma CompactRange_limit_subset: "set (CompactRange_limit limit F n fs) \<subseteq> set fs" "CompactRange_limit limit F n fs = [] \<longleftrightarrow> fs = []"
  by (induction fs arbitrary: n) (auto simp: Let_def)

lemma CompactRange_ok:
  assumes C: "key_comparator (vs_user_comparator vs)" and cur: "vs_current vs = Some i" and ok: "vset_ok vs (add_mset i A) {#}"
    and wf: "version_wf (vs_user_comparator vs) (vs_deref vs) (current vs)" and lev: "lev + 1 < kNumLevels"
  shows "\<exists>vs' r. CompactRange vs lev b e = Some (vs', r) \<and> (r = None \<longrightarrow> vs' = vs) \<and> (\<forall>c. r = Some c \<longrightarrow> picked vs (add_mset i A) vs' c)
    \<and> (r = None \<longrightarrow> (\<forall>p \<in> set (v_files (current vs) ! lev). \<not> overlaps (vs_user_comparator vs) (map_option ExtractUserKey b) (map_option ExtractUserKey e) (vs_deref vs p)))"
proof -
  let ?C = "vs_user_comparator vs" and ?F = "vs_deref vs" and ?v = "current vs"
  have lt: "lev < kNumLevels" using lev by simp
  obtain out where out: "GetOverlappingInputs ?C ?F ?v lev b e = Some out" "set out \<subseteq> set (v_files ?v ! lev)"
    "\<forall>p \<in> set (v_files ?v ! lev). overlaps ?C (map_option ExtractUserKey b) (map_option ExtractUserKey e) (?F p) \<longrightarrow> p \<in> set out"
    "lev = 0 \<longrightarrow> takes_overlapping ?C ?F out (v_files ?v ! 0) out"
    using key_comparator.GetOverlappingInputs_closed [OF C wf lt] by blast
  show ?thesis
  proof (cases "out = []")
    case True
    then show ?thesis using out by (auto simp: CompactRange_def)
  next
    case False
    define inputs where "inputs = (if lev > 0 then CompactRange_limit (MaxFileSizeForLevel lev) ?F 0 out else out)"
    define c where "c = (Compaction_make lev)\<lparr>cn_input_version := vs_current vs, cn_inputs0 := inputs\<rparr>"
    have c: "cn_level c = lev" "cn_inputs0 c = inputs" "cn_input_version c = vs_current vs" by (simp_all add: c_def Compaction_make_def)
    have "inputs_ok ?C ?F ?v lev inputs"
      using out(2,4) False CompactRange_limit_subset [of "MaxFileSizeForLevel lev" ?F 0 out] by (auto simp: inputs_def inputs_ok_def)
    then obtain vs' c' where s: "SetupOtherInputs (Version_Ref i vs) c = Some (vs', c')" "picked vs (add_mset i A) vs' c'"
      using Setup_picked [OF C cur ok wf, of c] lev c by auto
    then have "CompactRange vs lev b e = Some (vs', Some c')"
      using out(1) False cur unfolding CompactRange_def c_def inputs_def Let_def by simp
    then show ?thesis using s(2) by auto
  qed
qed

text \<open>
  C7.  Picking a compaction.  Unless neither a score nor a seek asks for one, \<^verbatim>\<open>PickCompaction\<close> returns a compaction that holds one more reference to the current version, with
  a nonempty set of files of its level; of the first level it takes every file that overlaps one it takes; it takes every file of the next
  level that overlaps an input, and its grandparents are the files of the level below that overlap an input.
  \<^verbatim>\<open>CompactRange\<close>, unless no file of the level overlaps the given range, does the same.
\<close>

theorem compaction_inputs:
  assumes "key_comparator (vs_user_comparator vs)" and "vs_current vs = Some i" and "vset_ok vs (add_mset i A) {#}"
    and "version_wf (vs_user_comparator vs) (vs_deref vs) (current vs)" and "pickable (current vs)" and "lev + 1 < kNumLevels"
  shows "(\<exists>vs' r. PickCompaction vs = Some (vs', r) \<and> (r = None \<longleftrightarrow> \<not> NeedsCompaction vs) \<and> (r = None \<longrightarrow> vs' = vs)
      \<and> (\<forall>c. r = Some c \<longrightarrow> picked vs (add_mset i A) vs' c))
    \<and> (\<exists>vs' r. CompactRange vs lev beg en = Some (vs', r) \<and> (r = None \<longrightarrow> vs' = vs) \<and> (\<forall>c. r = Some c \<longrightarrow> picked vs (add_mset i A) vs' c)
      \<and> (r = None \<longrightarrow> (\<forall>p \<in> set (v_files (current vs) ! lev).
           \<not> overlaps (vs_user_comparator vs) (map_option ExtractUserKey beg) (map_option ExtractUserKey en) (vs_deref vs p))))"
  using PickCompaction_ok [OF assms(1-5)] CompactRange_ok [OF assms(1-4,6)] by blast

text \<open>Two files of level 1, the first of which ends with newer entries of the user key with which the second starts.\<close>

definition split_file :: "u64 \<Rightarrow> byte \<Rightarrow> SequenceNumber \<Rightarrow> byte \<Rightarrow> SequenceNumber \<Rightarrow> FileMetaData" where
  "split_file n a s b t = FileMetaData_make\<lparr>fm_refs := 1, fm_number := n, fm_file_size := 1000,
     fm_smallest := InternalKey_make [a] s kTypeValue, fm_largest := InternalKey_make [b] t kTypeValue\<rparr>"

definition split_version :: "nat Version" where
  "split_version = Version_make\<lparr>v_refs := 1, v_files := [[], [0, 1], [], [], [], [], []], v_file_to_compact := Some 0, v_file_to_compact_level := 1\<rparr>"

definition split_set :: "unit VersionSet" where
  "split_set = (VersionSet_make [] BytewiseComparator)\<lparr>vs_heap := \<lparr>fh_files = [0 \<mapsto> split_file 7 1 9 5 7, 1 \<mapsto> split_file 6 5 3 9 1], fh_next = 2\<rparr>,
     vs_versions := [(0, split_version)]\<rparr>"

lemma split_set_fields [simp]:
  "vs_current split_set = Some 0" "vs_user_comparator split_set = BytewiseComparator" "current split_set = split_version"
  "vs_deref split_set 0 = split_file 7 1 9 5 7" "vs_deref split_set (Suc 0) = split_file 6 5 3 9 1" "vs_versions split_set = [(0, split_version)]"
  by (simp_all add: split_set_def VersionSet_make_def AppendVersion_def current_def)

lemma split_file_keys [simp]:
  "fm_smallest (split_file n a s b t) = InternalKey_make [a] s kTypeValue" "fm_largest (split_file n a s b t) = InternalKey_make [b] t kTypeValue"
  "fm_refs (split_file n a s b t) = 1" "fm_file_size (split_file n a s b t) = 1000" "fm_number (split_file n a s b t) = n"
  by (simp_all add: split_file_def)

lemma split_order:
  "InternalKey_Compare BytewiseComparator (InternalKey_make [5] 7 kTypeValue) (InternalKey_make [5] 3 kTypeValue) < 0"
  "InternalKey_Compare BytewiseComparator (InternalKey_make [1] 9 kTypeValue) (InternalKey_make [5] 7 kTypeValue) < 0"
  "InternalKey_Compare BytewiseComparator (InternalKey_make [5] 3 kTypeValue) (InternalKey_make [9] 1 kTypeValue) < 0"
  "InternalKey_Compare BytewiseComparator (InternalKey_make [1] 9 kTypeValue) (InternalKey_make [5] 3 kTypeValue) < 0"
proof -
  have "InternalKey_Compare BytewiseComparator (InternalKey_make u s t) (InternalKey_make u s' t') < 0
      \<longleftrightarrow> PackSequenceAndType s' t' < PackSequenceAndType s t" for u s t s' t'
    using bytewise.user.cmp_refl by (simp add: InternalKey_Compare_less InternalKey_make_def AppendInternalKey_eq)
  then show "InternalKey_Compare BytewiseComparator (InternalKey_make [5] 7 kTypeValue) (InternalKey_make [5] 3 kTypeValue) < 0"
    by (simp add: PackSequenceAndType_def)
qed (simp_all add: sample_order)

lemma split_version_files [simp]: "v_files split_version = [[], [0, 1], [], [], [], [], []]"
  by (simp add: split_version_def)

lemma split_deref [simp]: "fh_files (vs_heap split_set) f = (if f = 0 then Some (split_file 7 1 9 5 7) else if f = 1 then Some (split_file 6 5 3 9 1) else None)"
  by (simp add: split_set_def)

lemma level_cases: "lev < kNumLevels \<Longrightarrow> lev = 1 \<or> v_files split_version ! lev = []"
  by (auto simp: kNumLevels_def less_Suc_eq numeral_eq_Suc)

lemma split_set_ok: "vset_ok split_set {#0#} {#}"
proof -
  have "files_ordered BytewiseComparator (vs_deref split_set) [0, 1]"
    using split_order(4) by (simp add: files_ordered_def BySmallestKey_def)
  then have "version_ok BytewiseComparator (vs_heap split_set) split_version"
    using level_cases by (fastforce simp: version_ok_def files_ordered_def kNumLevels_def)
  moreover have "heap_ok (vs_heap split_set) {#0, 1#}"
    by (auto simp: heap_ok_def dom_def split_set_def split: if_splits)
  ultimately show ?thesis
    by (simp add: vset_ok_def vset_refs_def split_set_def VersionSet_make_def AppendVersion_def) (simp add: split_version_def)
qed

lemma split_wf: "version_wf BytewiseComparator (vs_deref split_set) split_version"
  unfolding version_wf_def
proof (intro allI impI ballI)
  fix lev p assume "lev < kNumLevels" "p \<in> set (v_files split_version ! lev)"
  then have "p = 0 \<or> p = 1" using level_cases [of lev] by auto
  then show "InternalKey_Compare BytewiseComparator (fm_smallest (vs_deref split_set p)) (fm_largest (vs_deref split_set p)) \<le> 0"
    using split_order by (auto simp: less_imp_le)
qed

lemma split_pickable: "pickable split_version"
  by (auto simp: pickable_def split_version_def Version_make_def kNumLevels_def)

theorem compaction_inputs_witness:
  "\<exists>vs' c. PickCompaction split_set = Some (vs', Some c) \<and> picked split_set {#0#} vs' c"
proof -
  have "NeedsCompaction split_set" by (simp add: NeedsCompaction_def split_version_def)
  then show ?thesis
    using compaction_inputs [of split_set 0 "{#}" 1] bytewise.key_comparator_axioms split_set_ok split_wf split_pickable
    by (fastforce simp: kNumLevels_def)
qed

lemma split_overlapping:
  assumes "0 < lev" and "lev < kNumLevels" and "lev \<noteq> 1"
  shows "GetOverlappingInputs BytewiseComparator F (split_version\<lparr>v_refs := n\<rparr>) lev b e = Some []"
  using bytewise.GetOverlappingInputs_above [OF assms(1), of F "split_version\<lparr>v_refs := n\<rparr>" b e] level_cases [OF assms(2)] assms(3) by simp

lemma split_pick:
  "PickCompaction split_set = Some ((Version_Ref 0 split_set)\<lparr>vs_compact_pointer := (vs_compact_pointer split_set)[1 := InternalKey_make [5] 7 kTypeValue]\<rparr>,
     Some ((Compaction_make 1)\<lparr>cn_inputs0 := [0], cn_input_version := Some 0,
       cn_edit := SetCompactPointer VersionEdit_make 1 (InternalKey_make [5] 7 kTypeValue)\<rparr>))"
proof -
  have start: "Pick_start split_set = Some (1, 0)" by (simp add: Pick_start_def split_version_def Version_make_def)
  have cur: "current (Version_Ref 0 split_set) = split_version\<lparr>v_refs := 2\<rparr>"
    by (simp add: current_def Version_Ref_def) (simp add: split_version_def)
  show ?thesis
    using split_overlapping [of 2] split_overlapping [of 3]
    by (simp add: PickCompaction_def start SetupOtherInputs_def Let_def cur GetRange_def GetRange2_def Setup_expand_def Compaction_make_def kNumLevels_def numeral_2_eq_2 numeral_3_eq_3)
qed


end
