(* ===== verification/Version_Correct.thy ===== *)
theory Version_Correct
  imports Version
begin

text \<open>
  Lookups in a version.  The table cache is used through its contract, the locale \<open>table_lookup\<close>: a lookup in a table it can
  open hands the first entry not below the key to the callback, or nothing if that entry has another user key.  Under it
  \<^verbatim>\<open>Version::Get\<close> gives the newest entry of the user key that is visible at the snapshot.
\<close>

subsection \<open>The contract of the table cache\<close>

text \<open>
  \<open>tables tc m T\<close>: the table cache can look up \<open>m\<close> times in the tables \<open>T\<close>, given by number and size, with their entries.  The
  number of lookups is bounded because an open table takes a 64-bit identifier of the block cache.
\<close>

locale table_lookup =
  fixes C :: Comparator
    and tget :: "(Saver, 'tc) TableGet"
    and tables :: "'tc \<Rightarrow> nat \<Rightarrow> (u64 \<times> u64 \<rightharpoonup> entries) \<Rightarrow> bool"
  assumes tables_order: "tables tc m T \<Longrightarrow> key_comparator C"
    and tables_sorted: "tables tc m T \<Longrightarrow> T x = Some es \<Longrightarrow> entries_sorted (InternalKey_Compare C) es"
    and tables_less: "tables tc m T \<Longrightarrow> l \<le> m \<Longrightarrow> tables tc l T"
    and tget_first: "tables tc (Suc m) T \<Longrightarrow> T (n, sz) = Some es \<Longrightarrow> key_fits k \<Longrightarrow>
      \<exists>a' tc'. tget options n sz k a saver tc = Some (Status_OK, a', tc') \<and> tables tc' m T
        \<and> (let i = lower_bound (InternalKey_Compare C) es k in
           if i < length es then a' = saver a (fst (es ! i)) (snd (es ! i)) \<or> a' = a \<and> Compare C (ExtractUserKey (fst (es ! i))) (ExtractUserKey k) \<noteq> 0
           else a' = a)"

subsection \<open>Visible entries\<close>

definition visible_for :: "Comparator \<Rightarrow> Slice \<Rightarrow> SequenceNumber \<Rightarrow> Slice \<times> Slice \<Rightarrow> bool" where
  "visible_for C u s e \<longleftrightarrow> (case ParseInternalKey (fst e) of None \<Rightarrow> False
     | Some k \<Rightarrow> Compare C (pik_user_key k) u = 0 \<and> pik_sequence k \<le> s)"

lemma below_lookup_key:
  assumes p: "ParseInternalKey k = Some p" and s: "s \<le> kMaxSequenceNumber"
  shows "InternalKey_Compare C k (LookupKey_internal_key (LookupKey_make u s)) < 0 \<longleftrightarrow>
    Compare C (pik_user_key p) u < 0 \<or> Compare C (pik_user_key p) u = 0 \<and> s < pik_sequence p"
proof -
  have "PackSequenceAndType s kTypeValue < PackSequenceAndType (pik_sequence p) (pik_type p) \<longleftrightarrow> s < pik_sequence p"
    unfolding word_less_nat_alt unat_Pack [OF s] unat_Pack [OF parsed_key(3) [OF p]] by (cases "pik_type p") auto
  then show ?thesis
    by (simp add: InternalKey_Compare_less parsed_key [OF p] LookupKey_keys InternalKey_make_def AppendInternalKey_eq kValueTypeForSeek_def)
qed

lemma find_at:
  assumes "i < length xs" and "\<And>j. j < i \<Longrightarrow> \<not> P (xs ! j)" and "P (xs ! i)"
  shows "find P xs = Some (xs ! i)"
  using assms by (subst find_Some_iff) auto

context key_comparator
begin

text \<open>The first entry not below a lookup key is the first visible entry of its user key, if there is one.\<close>

lemma find_visible:
  fixes u :: Slice
  assumes so: "entries_sorted (InternalKey_Compare C) es" and wf: "\<forall>e \<in> set es. ParseInternalKey (fst e) \<noteq> None"
    and s: "s \<le> kMaxSequenceNumber"
  defines "i \<equiv> lower_bound (InternalKey_Compare C) es (LookupKey_internal_key (LookupKey_make u s))"
  shows "find (visible_for C u s) es =
    (if i < length es \<and> Compare C (ExtractUserKey (fst (es ! i))) u = 0 then Some (es ! i) else None)"
proof -
  let ?k = "LookupKey_internal_key (LookupKey_make u s)"
  note lb = lower_bound_split [OF so ikey.comparator_axioms, where k = ?k, folded i_def]
  have parse: "\<exists>p. ParseInternalKey (fst (es ! j)) = Some p \<and> pik_user_key p = ExtractUserKey (fst (es ! j))" if jl: "j < length es" for j
  proof -
    obtain p where "ParseInternalKey (fst (es ! j)) = Some p" using wf nth_mem [OF jl] by auto
    then show ?thesis using parsed_key(1) [of _ p] by simp
  qed
  have vis: "visible_for C u s (es ! j) \<longleftrightarrow> Compare C (ExtractUserKey (fst (es ! j))) u = 0 \<and> \<not> InternalKey_Compare C (fst (es ! j)) ?k < 0"
    if "j < length es" for j
    using parse [OF that] below_lookup_key [OF _ s, of "fst (es ! j)" _ C u] by (auto simp: visible_for_def)
  have none: "\<not> visible_for C u s (es ! j)" if "j < length es" "i \<ge> length es \<or> Compare C (ExtractUserKey (fst (es ! i))) u \<noteq> 0" for j
  proof
    assume v: "visible_for C u s (es ! j)"
    then have ij: "i \<le> j" using vis [OF that(1)] lb(1) [of j] by (meson not_le)
    then have il: "i < length es" and neq: "Compare C (ExtractUserKey (fst (es ! i))) u \<noteq> 0" using that by auto
    have "\<not> Compare C (ExtractUserKey (fst (es ! i))) u < 0"
      using lb(2) [of i] il by (auto simp: InternalKey_Compare_less LookupKey_keys)
    then have "Compare C u (ExtractUserKey (fst (es ! i))) < 0" using neq Compare_swap by (metis linorder_neqE)
    moreover have "Compare C (ExtractUserKey (fst (es ! i))) (ExtractUserKey (fst (es ! j))) \<le> 0"
    proof (cases "i = j")
      case False
      then have "InternalKey_Compare C (fst (es ! i)) (fst (es ! j)) < 0"
        using so ij that(1) sorted_wrt_nth_less [of _ es i j] by (auto simp: entries_sorted_def)
      then show ?thesis by (intro user_key_mono) simp
    qed simp
    ultimately have "Compare C u (ExtractUserKey (fst (es ! j))) < 0" by (rule user.cmp_less_le_trans)
    then show False using v vis [OF that(1)] user.cmp_zero_swap by simp
  qed
  show ?thesis
  proof (cases "i < length es \<and> Compare C (ExtractUserKey (fst (es ! i))) u = 0")
    case True
    then have "find (visible_for C u s) es = Some (es ! i)"
      using vis lb by (intro find_at) auto
    then show ?thesis using True by simp
  next
    case False
    then have "\<not> visible_for C u s e" if "e \<in> set es" for e using none that by (auto simp: in_set_conv_nth)
    then show ?thesis using False by (auto simp: find_None_iff)
  qed
qed

end

subsection \<open>Files and their entries\<close>

text \<open>The file \<open>f\<close> is a table of \<open>T\<close> whose first and last keys it names.\<close>

definition file_entries_of :: "(u64 \<times> u64 \<rightharpoonup> entries) \<Rightarrow> FileMetaData \<Rightarrow> entries" where
  "file_entries_of T f = the (T (fm_number f, fm_file_size f))"

definition file_holds :: "(u64 \<times> u64 \<rightharpoonup> entries) \<Rightarrow> FileMetaData \<Rightarrow> bool" where
  "file_holds T f \<longleftrightarrow> (\<exists>es. T (fm_number f, fm_file_size f) = Some es \<and> es \<noteq> []
     \<and> fm_smallest f = fst (hd es) \<and> fm_largest f = fst (last es) \<and> (\<forall>e \<in> set es. ParseInternalKey (fst e) \<noteq> None))"

text \<open>What a lookup of \<open>u\<close> leaves in a \<open>Saver\<close>.\<close>

definition save_entry :: "(Slice \<times> Slice) option \<Rightarrow> Saver \<Rightarrow> Saver" where
  "save_entry r a = (case r of None \<Rightarrow> a | Some e \<Rightarrow> SaveValue a (fst e) (snd e))"

lemma SaveValue_other:
  assumes "ParseInternalKey k \<noteq> None" and "Compare (sv_ucmp a) (ExtractUserKey k) (sv_user_key a) \<noteq> 0"
  shows "SaveValue a k v = a"
  using assms parsed_key(1) [of k] by (auto simp: SaveValue_def)

context table_lookup
begin

lemma tget_visible:
  assumes tc: "tables tc (Suc m) T" and f: "file_holds T f" and fits: "key_fits (LookupKey_internal_key (LookupKey_make u s))"
    and s: "s \<le> kMaxSequenceNumber" and a: "sv_ucmp a = C" "sv_user_key a = u"
  shows "\<exists>tc'. tget options (fm_number f) (fm_file_size f) (LookupKey_internal_key (LookupKey_make u s)) a SaveValue tc
      = Some (Status_OK, save_entry (find (visible_for C u s) (file_entries_of T f)) a, tc') \<and> tables tc' m T"
proof -
  let ?k = "LookupKey_internal_key (LookupKey_make u s)"
  obtain es where es: "T (fm_number f, fm_file_size f) = Some es" "\<forall>e \<in> set es. ParseInternalKey (fst e) \<noteq> None"
    using f by (auto simp: file_holds_def)
  let ?i = "lower_bound (InternalKey_Compare C) es ?k"
  have uk: "ExtractUserKey ?k = u" by (simp add: LookupKey_keys)
  obtain a' tc' where t: "tget options (fm_number f) (fm_file_size f) ?k a SaveValue tc = Some (Status_OK, a', tc')" "tables tc' m T"
    "if ?i < length es then a' = SaveValue a (fst (es ! ?i)) (snd (es ! ?i)) \<or> a' = a \<and> Compare C (ExtractUserKey (fst (es ! ?i))) u \<noteq> 0
     else a' = a"
    using tget_first [OF tc es(1) fits, of options a SaveValue] unfolding uk Let_def by blast
  have "SaveValue a (fst (es ! ?i)) (snd (es ! ?i)) = a" if "?i < length es" "Compare C (ExtractUserKey (fst (es ! ?i))) u \<noteq> 0"
    using that es(2) a by (intro SaveValue_other) auto
  then have "a' = save_entry (find (visible_for C u s) es) a"
    using t(3) unfolding key_comparator.find_visible [OF tables_order [OF tc] tables_sorted [OF tc es(1)] es(2) s]
    by (auto simp: save_entry_def split: if_splits)
  then show ?thesis using t(1,2) es(1) by (auto simp: file_entries_of_def)
qed

end

lemma find_append: "find P (xs @ ys) = (case find P xs of None \<Rightarrow> find P ys | Some x \<Rightarrow> Some x)"
  by (induction xs) auto

lemma find_visible_parse:
  assumes "find (visible_for C u s) es = Some e"
  obtains k where "ParseInternalKey (fst e) = Some k" and "Compare C (pik_user_key k) u = 0" and "pik_sequence k \<le> s"
proof -
  have "visible_for C u s e" using assms by (auto simp: find_Some_iff)
  then show thesis using that by (auto simp: visible_for_def split: option.splits)
qed

text \<open>The status and the value that a search reports for the first visible entry, if any.\<close>

definition get_answer :: "(Slice \<times> Slice) option \<Rightarrow> bytes \<Rightarrow> Status option \<times> bytes" where
  "get_answer r value = (case r of None \<Rightarrow> (None, value)
     | Some e \<Rightarrow> (case map_option pik_type (ParseInternalKey (fst e)) of
          Some kTypeValue \<Rightarrow> (Some Status_OK, snd e)
        | _ \<Rightarrow> (Some (NotFound [] []), value)))"

abbreviation entries_of :: "(u64 \<times> u64 \<rightharpoonup> entries) \<Rightarrow> ('p \<Rightarrow> FileMetaData) \<Rightarrow> 'p list \<Rightarrow> entries" where
  "entries_of T F ps \<equiv> concat (map (\<lambda>p. file_entries_of T (F p)) ps)"

context table_lookup
begin

lemma Get_files_visible:
  assumes "key_fits (LookupKey_internal_key (LookupKey_make u s))" and "s \<le> kMaxSequenceNumber"
    and "\<forall>p \<in> set ps. file_holds T (F p)" and "tables (ge_table_cache g) (length ps + m) T"
  shows "\<exists>g'. Get_files tget options C F (LookupKey_make u s) lev ps g
        = Some (fst (get_answer (find (visible_for C u s) (entries_of T F ps)) (ge_value g)), g')
      \<and> ge_value g' = snd (get_answer (find (visible_for C u s) (entries_of T F ps)) (ge_value g)) \<and> tables (ge_table_cache g') m T"
  using assms(3,4)
proof (induction ps arbitrary: g)
  case Nil
  then show ?case by (simp add: get_answer_def)
next
  case (Cons p ps)
  let ?k = "LookupKey_make u s" and ?vis = "visible_for C u s"
  define g1 where "g1 = Get_charge p lev g"
  define a where "a = \<lparr>sv_state = Saver_kNotFound, sv_ucmp = C, sv_user_key = u, sv_value = ge_value g\<rparr>"
  have g1: "ge_value g1 = ge_value g" "ge_table_cache g1 = ge_table_cache g" by (simp_all add: g1_def Get_charge_def Let_def)
  obtain tc' where t: "tget options (fm_number (F p)) (fm_file_size (F p)) (LookupKey_internal_key ?k) a SaveValue (ge_table_cache g1)
      = Some (Status_OK, save_entry (find ?vis (file_entries_of T (F p))) a, tc')" "tables tc' (length ps + m) T"
    using tget_visible [OF _ _ assms(1,2), of "ge_table_cache g1" "length ps + m" T "F p" a options] Cons.prems g1 by (auto simp: a_def)
  define g2 where "g2 = g1\<lparr>ge_value := sv_value (save_entry (find ?vis (file_entries_of T (F p))) a), ge_table_cache := tc'\<rparr>"
  have unf: "Get_files tget options C F ?k lev (p # ps) g =
      (case sv_state (save_entry (find ?vis (file_entries_of T (F p))) a) of
         Saver_kNotFound \<Rightarrow> Get_files tget options C F ?k lev ps g2
       | Saver_kFound \<Rightarrow> Some (Some Status_OK, g2) | Saver_kDeleted \<Rightarrow> Some (Some (NotFound [] []), g2)
       | Saver_kCorrupt \<Rightarrow> Some (Some (Corruption (str ''corrupted key for '') u), g2))"
    using t(1) by (simp add: Let_def g2_def g1 g1_def [symmetric] a_def LookupKey_keys(2) cong: SaverState.case_cong)
  show ?case
  proof (cases "find ?vis (file_entries_of T (F p))")
    case None
    then have g2: "ge_value g2 = ge_value g" "ge_table_cache g2 = tc'" "sv_state (save_entry None a) = Saver_kNotFound"
      by (simp_all add: g2_def save_entry_def a_def)
    then show ?thesis using Cons.IH [of g2] Cons.prems(1) t(2) unf None by (simp add: find_append)
  next
    case (Some e)
    then obtain k where k: "ParseInternalKey (fst e) = Some k" "Compare C (pik_user_key k) u = 0" by (rule find_visible_parse)
    then show ?thesis using Some unf tables_less [OF t(2), of m]
      by (cases "pik_type k") (simp_all add: find_append save_entry_def SaveValue_def a_def get_answer_def g2_def)
  qed
qed

end

subsection \<open>The candidates of a level\<close>

definition level_order :: "('p \<Rightarrow> FileMetaData) \<Rightarrow> nat \<Rightarrow> 'p list \<Rightarrow> 'p list" where
  "level_order F lev files = (if lev = 0 then sort_newest_first F files else files)"

lemma find_concat_filter:
  assumes "\<And>p. p \<in> set ps \<Longrightarrow> \<not> Q p \<Longrightarrow> find P (E p) = None"
  shows "find P (concat (map E (filter Q ps))) = find P (concat (map E ps))"
  using assms by (induction ps) (auto simp: find_append split: option.splits)

lemma find_concat_None: "(\<And>p. p \<in> set ps \<Longrightarrow> find P (E p) = None) \<Longrightarrow> find P (concat (map E ps)) = None"
  by (induction ps) (auto simp: find_append)

lemma visible_for_iff:
  assumes "ParseInternalKey (fst e) \<noteq> None" and "s \<le> kMaxSequenceNumber"
  shows "visible_for C u s e \<longleftrightarrow> Compare C (ExtractUserKey (fst e)) u = 0 \<and> \<not> InternalKey_Compare C (fst e) (LookupKey_internal_key (LookupKey_make u s)) < 0"
  using assms parsed_key(1) [of "fst e"] below_lookup_key [OF _ assms(2), of "fst e" _ C u] by (auto simp: visible_for_def)

text \<open>A file of sorted entries.\<close>

definition file_sorted :: "Comparator \<Rightarrow> (u64 \<times> u64 \<rightharpoonup> entries) \<Rightarrow> FileMetaData \<Rightarrow> bool" where
  "file_sorted C T f \<longleftrightarrow> file_holds T f \<and> entries_sorted (InternalKey_Compare C) (file_entries_of T f)"

context key_comparator
begin

lemma file_range:
  assumes "file_sorted C T f" and "e \<in> set (file_entries_of T f)"
  shows "ParseInternalKey (fst e) \<noteq> None" and "InternalKey_Compare C (fm_smallest f) (fst e) \<le> 0" and "InternalKey_Compare C (fst e) (fm_largest f) \<le> 0"
proof -
  let ?es = "file_entries_of T f"
  have f: "?es \<noteq> []" "fm_smallest f = fst (hd ?es)" "fm_largest f = fst (last ?es)" "\<forall>e \<in> set ?es. ParseInternalKey (fst e) \<noteq> None"
    and so: "sorted_wrt (\<lambda>a b. InternalKey_Compare C (fst a) (fst b) < 0) ?es"
    using assms(1) by (auto simp: file_sorted_def file_holds_def file_entries_of_def entries_sorted_def)
  show "ParseInternalKey (fst e) \<noteq> None" using f(4) assms(2) by blast
  obtain j where j: "j < length ?es" "e = ?es ! j" using assms(2) by (auto simp: in_set_conv_nth)
  show "InternalKey_Compare C (fm_smallest f) (fst e) \<le> 0"
    using sorted_wrt_nth_less [OF so, of 0 j] j f(1,2) by (cases "j = 0") (auto simp: hd_conv_nth)
  show "InternalKey_Compare C (fst e) (fm_largest f) \<le> 0"
  proof (cases "j = length ?es - 1")
    case False
    then have "j < length ?es - 1" using j(1) by linarith
    then show ?thesis using sorted_wrt_nth_less [OF so, of j "length ?es - 1"] j f(1,3) by (simp add: last_conv_nth)
  qed (use j f in \<open>simp add: last_conv_nth\<close>)
qed

lemma no_visible_outside:
  assumes f: "file_sorted C T f" and s: "s \<le> kMaxSequenceNumber"
    and "Compare C u (smallest_user f) < 0 \<or> Compare C u (largest_user f) > 0
      \<or> InternalKey_Compare C (fm_largest f) (LookupKey_internal_key (LookupKey_make u s)) < 0"
  shows "find (visible_for C u s) (file_entries_of T f) = None"
proof -
  have "\<not> visible_for C u s e" if e: "e \<in> set (file_entries_of T f)" for e
  proof
    assume "visible_for C u s e"
    then have v: "Compare C (ExtractUserKey (fst e)) u = 0" "\<not> InternalKey_Compare C (fst e) (LookupKey_internal_key (LookupKey_make u s)) < 0"
      using visible_for_iff [OF file_range(1) [OF f e] s] by auto
    have r: "Compare C (smallest_user f) (ExtractUserKey (fst e)) \<le> 0" "Compare C (ExtractUserKey (fst e)) (largest_user f) \<le> 0"
      using file_range(2,3) [OF f e] user_key_mono by auto
    have "Compare C (smallest_user f) u \<le> 0" "Compare C u (largest_user f) \<le> 0"
      using r v(1) user.cmp_le_trans [of "smallest_user f" "ExtractUserKey (fst e)" u]
        user.cmp_le_trans [of u "ExtractUserKey (fst e)" "largest_user f"] user.cmp_zero_swap [of u "ExtractUserKey (fst e)"] by simp_all
    moreover have "\<not> InternalKey_Compare C (fm_largest f) (LookupKey_internal_key (LookupKey_make u s)) < 0"
      using v(2) file_range(3) [OF f e] ikey.cmp_le_less_trans by blast
    ultimately show False using assms(3) Compare_swap [of u "smallest_user f"] by auto
  qed
  then show ?thesis by (auto simp: find_None_iff)
qed

lemma candidates_zero:
  assumes "\<forall>p \<in> set files. file_sorted C T (F p)" and "s \<le> kMaxSequenceNumber"
  shows "find (visible_for C u s) (entries_of T F (level_candidates C F files 0 u (LookupKey_internal_key (LookupKey_make u s))))
    = find (visible_for C u s) (entries_of T F (sort_newest_first F files))"
proof -
  let ?Q = "\<lambda>p. Compare C u (smallest_user (F p)) \<ge> 0 \<and> Compare C u (largest_user (F p)) \<le> 0"
  have "level_candidates C F files 0 u (LookupKey_internal_key (LookupKey_make u s)) = filter ?Q (sort_newest_first F files)"
    by (simp add: level_candidates_def sort_newest_first_def filter_sort rev_filter [symmetric])
  moreover have "find (visible_for C u s) (file_entries_of T (F p)) = None" if "p \<in> set (sort_newest_first F files)" "\<not> ?Q p" for p
    by (rule no_visible_outside [OF _ assms(2)]) (use assms(1) that in \<open>auto simp: sort_newest_first_def\<close>)
  then have "find (visible_for C u s) (entries_of T F (filter ?Q (sort_newest_first F files)))
      = find (visible_for C u s) (entries_of T F (sort_newest_first F files))"
    by (rule find_concat_filter)
  ultimately show ?thesis by simp
qed

lemma candidates_above:
  assumes so: "\<forall>p \<in> set files. file_sorted C T (F p)" and s: "s \<le> kMaxSequenceNumber"
    and dj: "disjoint_sorted C (map F files)" and "0 < lev"
  shows "find (visible_for C u s) (entries_of T F (level_candidates C F files lev u (LookupKey_internal_key (LookupKey_make u s))))
    = find (visible_for C u s) (entries_of T F files)"
proof -
  let ?k = "LookupKey_internal_key (LookupKey_make u s)" and ?vis = "visible_for C u s"
  define i where "i = FindFile C (map F files) ?k"
  have i: "i = length (takeWhile (\<lambda>p. InternalKey_Compare C (fm_largest (F p)) ?k < 0) files)"
    unfolding i_def FindFile_spec [OF dj] by (simp add: takeWhile_map comp_def)
  have nv: "find ?vis (file_entries_of T (F p)) = None" if "p \<in> set files" "Compare C u (smallest_user (F p)) < 0 \<or> InternalKey_Compare C (fm_largest (F p)) ?k < 0" for p
    using no_visible_outside [OF _ s, of T "F p" u] so that by blast
  have "find ?vis (entries_of T F (takeWhile (\<lambda>p. InternalKey_Compare C (fm_largest (F p)) ?k < 0) files)) = None"
    by (rule find_concat_None, rule nv) (auto dest: set_takeWhileD)
  moreover have "files = takeWhile (\<lambda>p. InternalKey_Compare C (fm_largest (F p)) ?k < 0) files @ drop i files"
    unfolding i by (metis dropWhile_eq_drop takeWhile_dropWhile_id)
  ultimately have fd: "find ?vis (entries_of T F files) = find ?vis (entries_of T F (drop i files))"
    by (metis (no_types, lifting) concat_append find_append map_append option.simps(4))
  show ?thesis
  proof (cases "i < length files")
    case False
    then show ?thesis using fd assms(4) by (simp add: level_candidates_def i_def [symmetric])
  next
    case True
    let ?p = "files ! i"
    have p: "?p \<in> set files" "drop i files = ?p # drop (Suc i) files" using True by (simp_all add: Cons_nth_drop_Suc)
    have ge: "\<not> InternalKey_Compare C (fm_largest (F ?p)) ?k < 0" using True nth_length_takeWhile unfolding i by fastforce
    have later: "q \<in> set files \<and> InternalKey_Compare C (fm_largest (F ?p)) (fm_smallest (F q)) < 0" if qin: "q \<in> set (drop (Suc i) files)" for q
    proof -
      obtain m where "m < length files - Suc i" "q = files ! (Suc i + m)" using qin by (auto simp: in_set_conv_nth)
      then show ?thesis using disjoint_sorted_largest(1) [OF dj, of i "Suc i + m"] by simp
    qed
    show ?thesis
    proof (cases "Compare C u (smallest_user (F ?p)) < 0")
      case True
      have "Compare C u (smallest_user (F q)) < 0" if "q \<in> set (drop (Suc i) files)" for q
      proof -
        have "file_wf C (F ?p)" using dj p(1) by (auto simp: disjoint_sorted_def)
        then have "InternalKey_Compare C (fm_smallest (F ?p)) (fm_smallest (F q)) < 0"
          using later [OF that] ikey.cmp_le_less_trans by (auto simp: file_wf_def)
        then show ?thesis using True user.cmp_less_le_trans user_key_mono by (meson less_imp_le)
      qed
      then have "find ?vis (entries_of T F (drop i files)) = None"
        unfolding p(2) using True p(1) later by (intro find_concat_None nv) auto
      then show ?thesis using \<open>i < length files\<close> True fd assms(4) by (simp add: level_candidates_def i_def [symmetric] not_le)
    next
      case False
      have "find ?vis (entries_of T F (drop (Suc i) files)) = None" if none: "find ?vis (file_entries_of T (F ?p)) = None"
      proof (rule find_concat_None)
        fix q assume q: "q \<in> set (drop (Suc i) files)"
        have fp: "file_sorted C T (F ?p)" using so p(1) by blast
        let ?l = "last (file_entries_of T (F ?p))"
        have l: "?l \<in> set (file_entries_of T (F ?p))" "fst ?l = fm_largest (F ?p)"
          using fp by (auto simp: file_sorted_def file_holds_def file_entries_of_def)
        have nl: "Compare C (largest_user (F ?p)) u \<noteq> 0"
        proof -
          have "\<not> visible_for C u s ?l" using none l(1) by (metis find_None_iff)
          then show ?thesis using l ge visible_for_iff [OF file_range(1) [OF fp l(1)] s, of C u] by simp
        qed
        moreover have "\<not> Compare C (largest_user (F ?p)) u < 0" using ge by (auto simp: InternalKey_Compare_less LookupKey_keys)
        ultimately have "Compare C u (largest_user (F ?p)) < 0" using Compare_swap [of u "largest_user (F ?p)"] by linarith
        moreover have "Compare C (largest_user (F ?p)) (smallest_user (F q)) \<le> 0" using later [OF q] by (intro user_key_mono) simp
        ultimately have "Compare C u (smallest_user (F q)) < 0" by (rule user.cmp_less_le_trans)
        then show "find ?vis (file_entries_of T (F q)) = None" using later [OF q] nv by blast
      qed
      then show ?thesis using \<open>i < length files\<close> False fd assms(4) p(2)
        by (simp add: level_candidates_def i_def [symmetric] not_le find_append split: option.splits)
    qed
  qed
qed

end

subsection \<open>The whole search\<close>

text \<open>
  A version whose files are sorted tables of \<open>T\<close>, disjoint above the first level.  Its entries are listed in the order of
  the search, from the newest file to the oldest.
\<close>

definition version_holds :: "Comparator \<Rightarrow> (u64 \<times> u64 \<rightharpoonup> entries) \<Rightarrow> ('p \<Rightarrow> FileMetaData) \<Rightarrow> 'p Version \<Rightarrow> bool" where
  "version_holds C T F v \<longleftrightarrow> length (v_files v) = kNumLevels
     \<and> (\<forall>lev < kNumLevels. (\<forall>p \<in> set (v_files v ! lev). file_holds T (F p)) \<and> (0 < lev \<longrightarrow> disjoint_sorted C (map F (v_files v ! lev))))"

definition version_entries :: "(u64 \<times> u64 \<rightharpoonup> entries) \<Rightarrow> ('p \<Rightarrow> FileMetaData) \<Rightarrow> 'p Version \<Rightarrow> nat list \<Rightarrow> entries" where
  "version_entries T F v levs = concat (map (\<lambda>lev. entries_of T F (level_order F lev (v_files v ! lev))) levs)"

context table_lookup
begin

lemma Get_levels_visible:
  assumes fits: "key_fits (LookupKey_internal_key (LookupKey_make u s))" and s: "s \<le> kMaxSequenceNumber"
    and v: "version_holds C T F v" and "set levs \<subseteq> {..<kNumLevels}"
    and "tables (ge_table_cache g) (length (concat (map (\<lambda>lev. v_files v ! lev) levs)) + m) T"
  shows "\<exists>g'. Get_levels tget options C F (LookupKey_make u s) v levs g
        = Some (case fst (get_answer (find (visible_for C u s) (version_entries T F v levs)) (ge_value g)) of None \<Rightarrow> NotFound [] [] | Some st \<Rightarrow> st, g')
      \<and> ge_value g' = snd (get_answer (find (visible_for C u s) (version_entries T F v levs)) (ge_value g)) \<and> tables (ge_table_cache g') m T"
  using assms(4,5)
proof (induction levs arbitrary: g)
  case Nil
  then show ?case by (simp add: version_entries_def get_answer_def)
next
  case (Cons lev levs)
  let ?k = "LookupKey_internal_key (LookupKey_make u s)" and ?vis = "visible_for C u s"
  let ?cand = "level_candidates C F (v_files v ! lev) lev u ?k"
  have lev: "lev < kNumLevels" using Cons.prems(1) by simp
  note kc = tables_order [OF Cons.prems(2)]
  have fh: "\<forall>p \<in> set (v_files v ! lev). file_holds T (F p)" using v lev by (simp add: version_holds_def)
  then have fs: "\<forall>p \<in> set (v_files v ! lev). file_sorted C T (F p)"
    using tables_sorted [OF Cons.prems(2)] by (auto simp: file_sorted_def file_holds_def file_entries_of_def)
  have cand: "find ?vis (entries_of T F ?cand) = find ?vis (entries_of T F (level_order F lev (v_files v ! lev)))"
    using key_comparator.candidates_zero [OF kc fs s] key_comparator.candidates_above [OF kc fs s] v lev
    by (cases "lev = 0") (simp_all add: level_order_def version_holds_def)
  have "set ?cand \<subseteq> set (v_files v ! lev)"
    by (auto simp: level_candidates_def sort_newest_first_def Let_def split: if_splits)
  then have hold: "\<forall>p \<in> set ?cand. file_holds T (F p)" using fh by blast
  let ?m = "length (concat (map (\<lambda>lev. v_files v ! lev) levs)) + m"
  have "length ?cand \<le> length (v_files v ! lev)" by (simp add: level_candidates_def sort_newest_first_def Let_def)
  then have "tables (ge_table_cache g) (length ?cand + ?m) T" by (intro tables_less [OF Cons.prems(2)]) simp
  from Get_files_visible [OF fits s hold this, of options lev, unfolded cand] obtain g1 where
    g1: "Get_files tget options C F (LookupKey_make u s) lev ?cand g
        = Some (fst (get_answer (find ?vis (entries_of T F (level_order F lev (v_files v ! lev)))) (ge_value g)), g1)"
      "ge_value g1 = snd (get_answer (find ?vis (entries_of T F (level_order F lev (v_files v ! lev)))) (ge_value g))"
      "tables (ge_table_cache g1) ?m T" by blast
  have ve: "version_entries T F v (lev # levs) = entries_of T F (level_order F lev (v_files v ! lev)) @ version_entries T F v levs"
    by (simp add: version_entries_def)
  show ?case
  proof (cases "find ?vis (entries_of T F (level_order F lev (v_files v ! lev)))")
    case None
    then show ?thesis using g1 Cons.IH [of g1] Cons.prems(1) by (simp add: ve find_append LookupKey_keys(2) get_answer_def [of None])
  next
    case (Some e)
    then obtain k where "ParseInternalKey (fst e) = Some k" by (rule find_visible_parse)
    then show ?thesis using g1 Some tables_less [OF g1(3), of m] by (cases "pik_type k") (simp_all add: ve find_append LookupKey_keys(2) get_answer_def)
  qed
qed

lemma Version_Get_visible:
  fixes val :: bytes
  assumes "tables tc (length (concat (v_files v)) + m) T" and "version_holds C T F v" and "s \<le> kMaxSequenceNumber" and "length u + 8 < 2 ^ 32"
  defines "r \<equiv> get_answer (find (visible_for C u s) (version_entries T F v [0..<kNumLevels])) val"
  shows "\<exists>stats tc'. Version_Get tget C F v options (LookupKey_make u s) val tc
      = Some (case fst r of None \<Rightarrow> NotFound [] [] | Some st \<Rightarrow> st, snd r, stats, tc') \<and> tables tc' m T"
proof -
  have "key_fits (LookupKey_internal_key (LookupKey_make u s))" using assms(4) by (simp add: key_fits_def LookupKey_keys)
  moreover have "set [0..<kNumLevels] \<subseteq> {..<kNumLevels}" by auto
  moreover have "map (\<lambda>lev. v_files v ! lev) [0..<kNumLevels] = v_files v" using assms(2) by (metis map_nth version_holds_def)
  ultimately obtain g where "Get_levels tget options C F (LookupKey_make u s) v [0..<kNumLevels]
      \<lparr>ge_stats = \<lparr>gs_seek_file = None, gs_seek_file_level = -1\<rparr>, ge_last_file_read = None, ge_last_file_read_level = -1,
        ge_value = val, ge_table_cache = tc\<rparr> = Some (case fst r of None \<Rightarrow> NotFound [] [] | Some st \<Rightarrow> st, g)"
      "ge_value g = snd r" "tables (ge_table_cache g) m T"
    using Get_levels_visible [OF _ assms(3,2), of u "[0..<kNumLevels]"
      "\<lparr>ge_stats = \<lparr>gs_seek_file = None, gs_seek_file_level = -1\<rparr>, ge_last_file_read = None, ge_last_file_read_level = -1,
        ge_value = val, ge_table_cache = tc\<rparr>" m options] assms(1) by (auto simp: r_def)
  then show ?thesis by (simp add: Version_Get_def)
qed

end

end
