(* ===== verification/TableCache.thy ===== *)
theory TableCache
  imports Table_Correct Version_Correct Env Filename
begin

text \<open>
  The table cache (\<^verbatim>\<open>db/table_cache.{h,cc}\<close>): open tables by file number, in an LRU cache.  The environment is used through
  its \<^verbatim>\<open>NewRandomAccessFile\<close>, of type \<open>'e open_file\<close>; the block cache of the options is shared by all tables and is part of
  the state.  The contract \<open>table_lookup\<close> of the lookups of a version is proved for it.
\<close>

subsection \<open>The cache\<close>

type_synonym 'e open_file = "'e \<Rightarrow> bytes \<Rightarrow> (Status + RandomAccessFile) \<times> 'e"

record TableAndFile =
  tf_file :: RandomAccessFile
  tf_table :: Table

record 'e TableCache =
  tc_env :: 'e
  tc_dbname :: bytes
  tc_options :: Options
  tc_cache :: "TableAndFile ShardedLRUCache"
  tc_block_cache :: BlockCache

definition TableCache_make :: "bytes \<Rightarrow> 'e \<Rightarrow> Options \<Rightarrow> BlockCache \<Rightarrow> nat \<Rightarrow> 'e TableCache" where
  "TableCache_make dbname env options block_cache ents =
     \<lparr>tc_env = env, tc_dbname = dbname, tc_options = options, tc_cache = NewLRUCache ents, tc_block_cache = block_cache\<rparr>"

text \<open>The file of a table, under its name or, if that fails, under its old name.\<close>

definition open_table_file :: "'e open_file \<Rightarrow> 'e TableCache \<Rightarrow> u64 \<Rightarrow> (Status + RandomAccessFile) \<times> 'e" where
  "open_table_file newfile tc file_number =
     (let (r, env) = newfile (tc_env tc) (TableFileName (tc_dbname tc) file_number) in
      case r of
        Inr file \<Rightarrow> (r, env)
      | Inl s \<Rightarrow> let (old, env) = newfile env (SSTTableFileName (tc_dbname tc) file_number)
                 in (case old of Inr file \<Rightarrow> (Inr file, env) | Inl _ \<Rightarrow> (Inl s, env)))"

definition FindTable :: "Snappy \<Rightarrow> 'e open_file \<Rightarrow> 'e TableCache \<Rightarrow> u64 \<Rightarrow> u64 \<Rightarrow> (Status \<times> (nat \<times> nat) option \<times> 'e TableCache) option" where
  "FindTable S newfile tc file_number file_size =
     (let key = EncodeFixed64 file_number;
          (handle, cache) = Cache_Lookup (tc_cache tc) key;
          tc = tc\<lparr>tc_cache := cache\<rparr>
      in case handle of
           Some h \<Rightarrow> Some (Status_OK, Some h, tc)
         | None \<Rightarrow>
             let (r, env) = open_table_file newfile tc file_number;
                 tc = tc\<lparr>tc_env := env\<rparr>
             in (case r of
                   Inl s \<Rightarrow> Some (s, None, tc)
                 | Inr file \<Rightarrow>
                     map_option (\<lambda>(s, table, block_cache).
                         let tc = tc\<lparr>tc_block_cache := block_cache\<rparr> in
                         if \<not> Status_ok s then (s, None, tc)
                         else let (h, cache) = Cache_Insert (tc_cache tc) key \<lparr>tf_file = file, tf_table = the table\<rparr> 1
                              in (s, Some h, tc\<lparr>tc_cache := cache\<rparr>))
                       (Table_Open S (tc_options tc) file (unat file_size) (tc_block_cache tc))))"

definition TableCache_Get :: "Snappy \<Rightarrow> 'e open_file \<Rightarrow> ('g, 'e TableCache) TableGet" where
  "TableCache_Get S newfile options file_number file_size k arg saver tc =
     Option.bind (FindTable S newfile tc file_number file_size) (\<lambda>(s, handle, tc).
       if Status_ok s then
         let h = the handle;
             t = tf_table (the (Cache_Value (tc_cache tc) h))
         in map_option (\<lambda>(s, arg, block_cache).
                (s, arg, tc\<lparr>tc_block_cache := block_cache, tc_cache := Cache_Release (tc_cache tc) h\<rparr>))
              (InternalGet S t options k saver arg (tc_block_cache tc))
       else Some (s, arg, tc))"

definition TableCache_Evict :: "'e TableCache \<Rightarrow> u64 \<Rightarrow> 'e TableCache" where
  "TableCache_Evict tc file_number = tc\<lparr>tc_cache := Cache_Erase (tc_cache tc) (EncodeFixed64 file_number)\<rparr>"

subsection \<open>Looking up internal keys in a table\<close>

lemma filtered_user_key:
  assumes "opt_filter_policy (tbl_options t) = Some (InternalFilterPolicy P)" and "ExtractUserKey k = ExtractUserKey k'"
  shows "filtered t h k \<longleftrightarrow> filtered t h k'"
  using assms by (simp add: filtered_def FilterBlock_KeyMayMatch_def InternalFilterPolicy_def Let_def split: option.splits)

text \<open>
  In a table of internal keys the first entry not below a key is found if it has the user key: a separator that shortens
  the last key of a block is before the user key of the next block.
\<close>

context key_comparator
begin

lemma separator_user_key:
  assumes bk: "Compare C (ExtractUserKey b) (ExtractUserKey k) = 0" and ab: "InternalKey_Compare C a b < 0"
    and ak: "InternalKey_Compare C a k < 0"
  shows "InternalKey_Compare C (InternalKey_FindShortestSeparator C a b) k < 0"
proof -
  let ?tmp = "FindShortestSeparator C (ExtractUserKey a) (ExtractUserKey b)"
  show ?thesis
  proof (cases "length ?tmp < length (ExtractUserKey a) \<and> Compare C (ExtractUserKey a) ?tmp < 0")
    case True
    then have "Compare C (ExtractUserKey a) (ExtractUserKey b) \<noteq> 0" using separator_same [of "ExtractUserKey a" "ExtractUserKey b"] by auto
    then have "Compare C (ExtractUserKey a) (ExtractUserKey b) < 0" using ab by (auto simp: InternalKey_Compare_less)
    then have "Compare C ?tmp (ExtractUserKey b) < 0" by (rule separator_less)
    then have "Compare C ?tmp (ExtractUserKey k) < 0" using user.cmp_zero_right [OF bk] by blast
    then show ?thesis using True by (simp add: InternalKey_FindShortestSeparator_def InternalKey_Compare_less)
  qed (use ak in \<open>auto simp: InternalKey_FindShortestSeparator_def Let_def\<close>)
qed

end

text \<open>The filters of a database hold user keys, and its comparator tells different user keys apart if it has filters.\<close>

definition user_filter :: "Comparator \<Rightarrow> Options \<Rightarrow> bool" where
  "user_filter C opt \<longleftrightarrow> (case opt_filter_policy opt of None \<Rightarrow> True
     | Some Q \<Rightarrow> (\<exists>P. Q = InternalFilterPolicy P \<and> filter_policy P) \<and> (\<forall>a b. Compare C a b = 0 \<longrightarrow> a = b))"

lemma table_hit_user:
  assumes t: "table_open S t F bs ks" and C: "key_comparator C" and oc: "opt_comparator (tbl_options t) = InternalKeyComparator C"
    and filt: "user_filter C (tbl_options t)"
  defines "es \<equiv> concat (map fst bs)" and "i k \<equiv> lower_bound (InternalKey_Compare C) (concat (map fst bs)) k"
  assumes i: "i k < length es" and u: "Compare C (ExtractUserKey (fst (es ! i k))) (ExtractUserKey k) = 0"
  shows "table_hit t bs ks k = Some (es ! i k)"
proof -
  let ?cmp = "InternalKey_Compare C" and ?x = "lower_bound (InternalKey_Compare C) (index_entries ks bs) k"
  let ?L = "fst (bs ! ?x)"
  let ?j = "lower_bound ?cmp ?L k"
  note ix = index_hit [OF t, of k, unfolded oc InternalKeyComparator_simps, folded es_def]
  have ik: "i k = lower_bound ?cmp es k" by (simp add: i_def es_def)
  have x: "?x < length bs" using ix(2) i ik by fastforce
  have tf: "table_file S (tbl_options t) F bs ks" using t by (simp add: table_open_def)
  then have len: "length ks = length bs" and sorted: "entries_sorted ?cmp es" and keys: "index_keys (InternalKeyComparator C) ks (map fst bs) []"
    and ne: "\<forall>b \<in> set bs. fst b \<noteq> []" by (auto simp: table_file_def blocks_ok_def oc es_def)
  have icmp: "comparator ?cmp" using key_comparator.internal_key_comparator [OF C, THEN key_comparator.user_order] by simp
  have ixs: "entries_sorted ?cmp (index_entries ks bs)" using obj.at_order [OF table_index_at [OF t]] oc by simp
  have j: "?j < length ?L"
  proof (rule ccontr)
    assume "\<not> ?j < length ?L"
    then have j: "?j = length ?L" using length_takeWhile_le [of _ ?L] by (simp add: lower_bound_def) (metis le_antisym not_less)
    have below: "?cmp (fst y) k < 0" if "y \<in> set ?L" for y
    proof -
      have "entries_sorted ?cmp ?L" using table_leads_to [OF t nth_mem [OF x]] oc by (simp add: leads_to_def)
      then show ?thesis using lower_bound_split(1) [OF _ icmp, of ?L _ k] that j by (auto simp: in_set_conv_nth)
    qed
    let ?Ls = "map fst bs" and ?r = "concat (drop (Suc ?x) (map fst bs))"
    have xl: "?x < length ?Ls" using x by simp
    have "i k = length (concat (take (Suc ?x) ?Ls))"
      using ix(1) [OF x] ik j concat_take_nth(2) [OF xl] x by (simp add: take_map)
    then have r: "drop (i k) es = ?r" using concat_take_nth(3) [OF xl] by (simp add: es_def)
    have hd: "hd ?r = es ! i k" using hd_drop_conv_nth [OF i] unfolding r .
    have "drop (i k) es \<noteq> []" using i by simp
    then have rne: "?r \<noteq> []" unfolding r .
    let ?a = "fst (last ?L)" and ?b = "fst (hd ?r)"
    have ak: "?cmp ?a k < 0" using below last_in_set ne nth_mem [OF x] by blast
    have kb: "\<not> ?cmp ?b k < 0" using lower_bound_split(2) [OF sorted icmp, of k "i k"] i hd ik by simp
    have ab: "?cmp ?a ?b < 0" using ak kb comparator.cmp_less_le_trans [OF icmp ak] comparator.cmp_ge_swap [OF icmp] by (metis not_less)
    have "ks ! ?x = InternalKey_FindShortestSeparator C ?a ?b" using keys rne x len by (simp add: index_keys_def)
    then have "?cmp (ks ! ?x) k < 0" using key_comparator.separator_user_key [OF C _ ab ak] u hd by simp
    moreover have "\<not> ?cmp (ks ! ?x) k < 0"
      using lower_bound_split(2) [OF ixs icmp, of k ?x] x len index_entries_nth(1) [OF len x] by (simp add: index_entries_def)
    ultimately show False by blast
  qed
  have e: "es ! i k = ?L ! ?j" using ix(1) [OF x] ik concat_take_nth(1) [of ?x "map fst bs" ?j] x j by (simp add: take_map es_def)
  have "\<not> filtered t (block_handle (bs ! ?x)) k"
  proof (cases "opt_filter_policy (tbl_options t)")
    case (Some Q)
    then obtain P where P: "Q = InternalFilterPolicy P" "filter_policy P" and eq: "\<forall>a b. Compare C a b = 0 \<longrightarrow> a = b"
      using filt by (auto simp: user_filter_def)
    have uk: "ExtractUserKey k = ExtractUserKey (fst (es ! i k))" using eq u by metis
    have "filter_policy Q" using P filter_policy.internal_filter_policy by blast
    then have "\<not> filtered t (block_handle (bs ! ?x)) (fst (es ! i k))"
      using not_filtered [OF t _ nth_mem [OF x], of "fst (es ! i k)"] Some j e by auto
    then show ?thesis using filtered_user_key [of t P, OF _ uk] Some P(1) by simp
  qed (simp add: filtered_def split: option.splits)
  then show ?thesis using x j e by (simp add: table_hit_def oc Let_def)
qed

subsection \<open>The environment\<close>

text \<open>What the table cache relies on: a file that exists opens and can be read, and opening changes no file.\<close>

locale random_access_env =
  fixes newfile :: "'e open_file"
    and files :: "'e \<Rightarrow> bytes \<Rightarrow> bytes option"
    and einvar :: "'e \<Rightarrow> bool"
  assumes open_file: "einvar e \<Longrightarrow> files e f = Some c \<Longrightarrow>
      \<exists>file e'. newfile e f = (Inr file, e') \<and> readable file c \<and> einvar e' \<and> files e' = files e"
    and open_missing: "einvar e \<Longrightarrow> files e f = None \<Longrightarrow>
      \<exists>s e'. newfile e f = (Inl s, e') \<and> \<not> Status_ok s \<and> einvar e' \<and> files e' = files e"

definition table_contents :: "('e \<Rightarrow> bytes \<Rightarrow> bytes option) \<Rightarrow> 'e TableCache \<Rightarrow> u64 \<Rightarrow> bytes option" where
  "table_contents files tc n = (case files (tc_env tc) (TableFileName (tc_dbname tc) n) of
       None \<Rightarrow> files (tc_env tc) (SSTTableFileName (tc_dbname tc) n) | Some c \<Rightarrow> Some c)"

context random_access_env
begin

lemma open_table_file:
  assumes "einvar (tc_env tc)" and "table_contents files tc n = Some c"
  shows "\<exists>file e. open_table_file newfile tc n = (Inr file, e) \<and> readable file c \<and> einvar e \<and> files e = files (tc_env tc)"
proof (cases "files (tc_env tc) (TableFileName (tc_dbname tc) n)")
  case (Some d)
  then show ?thesis using open_file [OF assms(1) Some] assms(2) by (auto simp: open_table_file_def table_contents_def)
next
  case None
  then obtain s e where e: "newfile (tc_env tc) (TableFileName (tc_dbname tc) n) = (Inl s, e)" "einvar e" "files e = files (tc_env tc)"
    using open_missing [OF assms(1)] by blast
  moreover have "files e (SSTTableFileName (tc_dbname tc) n) = Some c" using assms(2) None e(3) by (simp add: table_contents_def)
  ultimately show ?thesis using open_file [OF e(2)] by (fastforce simp: open_table_file_def)
qed

end

text \<open>The in-memory environment.  A table file is not written after it was opened.\<close>

definition mem_open_file :: "InMemoryEnv open_file" where
  "mem_open_file env fname =
     (let (s, a, env) = NewRandomAccessFile env fname in
      case a of
        None \<Rightarrow> (Inl s, env)
      | Some a \<Rightarrow> (Inr \<lparr>ra_Read = FileState_Read (the (env_heap env a)), ra_mapped = False\<rparr>, env))"

interpretation mem_random: random_access_env mem_open_file mem_files mem_einvar
proof
  fix e f c assume e: "mem_einvar e" "mem_files e f = Some c"
  then obtain hs where hs: "mem_ok e hs" by (auto simp: mem_einvar_def)
  obtain a x where a: "map_of (env_map e) f = Some a" "env_heap e a = Some x" "c = fs_content x"
    using e(2) by (auto simp: mem_files_def split: bind_splits)
  let ?e = "env_ref a e"
  have ok: "mem_ok ?e (a # hs)" "mem_files ?e = mem_files e" using env_ref_ok [OF hs] a(2) by auto
  have h: "env_heap ?e a = Some (FileState_Ref x)" using a(2) by (simp add: env_ref_def)
  then have inv: "fs_invar (FileState_Ref x)" using ok(1) by (simp add: mem_ok_def)
  have "readable \<lparr>ra_Read = FileState_Read (FileState_Ref x), ra_mapped = False\<rparr> c"
    unfolding readable_def using FileState_Read_eq [OF inv] length_fs_content [OF inv] a(3) by (auto simp: FileState_Ref_def fs_content_def)
  then show "\<exists>file e'. mem_open_file e f = (Inr file, e') \<and> readable file c \<and> mem_einvar e' \<and> mem_files e' = mem_files e"
    using ok a(1) h mem_ok_tl by (auto simp: mem_open_file_def NewRandomAccessFile_def)
next
  fix e f assume e: "mem_einvar e" "mem_files e f = None"
  then obtain hs where hs: "mem_ok e hs" by (auto simp: mem_einvar_def)
  have "map_of (env_map e) f = None"
  proof (rule ccontr)
    assume "map_of (env_map e) f \<noteq> None"
    then obtain a where "map_of (env_map e) f = Some a" by auto
    then show False using e(2) mem_ok_live [OF hs, of f a] by (auto simp: mem_files_def)
  qed
  then show "\<exists>s e'. mem_open_file e f = (Inl s, e') \<and> \<not> Status_ok s \<and> mem_einvar e' \<and> mem_files e' = mem_files e"
    using e(1) by (simp add: mem_open_file_def NewRandomAccessFile_def IOError_def)
qed

subsection \<open>The state of the cache\<close>

text \<open>
  \<open>G\<close> is the set of the tables that were opened, with their blocks.  An entry of the table cache is a table of \<open>G\<close>; an entry of
  the block cache is right for all tables of \<open>G\<close>, whose identifiers differ.
\<close>

definition known_table :: "Snappy \<Rightarrow> Options \<Rightarrow> (u64 \<times> u64 \<rightharpoonup> entries) \<Rightarrow> (Table \<times> written) set \<Rightarrow> bytes \<Rightarrow> TableAndFile \<Rightarrow> bool" where
  "known_table S opt T G key tf \<longleftrightarrow> (\<exists>n bs F ks. key = EncodeFixed64 n \<and> (tf_table tf, bs) \<in> G \<and> table_open S (tf_table tf) F bs ks
     \<and> tbl_options (tf_table tf) = opt \<and> (\<forall>sz es. T (n, sz) = Some es \<longrightarrow> es = concat (map fst bs)))"

definition blocks_ok_for :: "Snappy \<Rightarrow> (Table \<times> written) set \<Rightarrow> u64 \<Rightarrow> bytes \<Rightarrow> Block \<Rightarrow> bool" where
  "blocks_ok_for S G N key b \<longleftrightarrow> (\<forall>(t, bs) \<in> G. cached_ok S t (table_blocks bs) key b) \<and> (\<exists>i \<le> N. take 8 key = EncodeFixed64 i)"

definition block_cache_ok :: "Snappy \<Rightarrow> (Table \<times> written) set \<Rightarrow> nat \<Rightarrow> BlockCache \<Rightarrow> bool" where
  "block_cache_ok S G m cache \<longleftrightarrow> (case cache of None \<Rightarrow> True
     | Some c \<Rightarrow> unat (sc_last_id c) + m < 2 ^ 64 \<and> (\<forall>x \<in> G. tbl_cache_id (fst x) \<le> sc_last_id c)
         \<and> inj_on (\<lambda>x. tbl_cache_id (fst x)) G \<and> cache_state (blocks_ok_for S G (sc_last_id c)) (sc_last_id c) cache {#})"

definition tables_stored ::
  "Snappy \<Rightarrow> ('e \<Rightarrow> bytes \<Rightarrow> bytes option) \<Rightarrow> Comparator \<Rightarrow> 'e TableCache \<Rightarrow> (u64 \<times> u64 \<rightharpoonup> entries) \<Rightarrow> bool" where
  "tables_stored S files C tc T \<longleftrightarrow> key_comparator C \<and> snappy_ok S \<and> opt_comparator (tc_options tc) = InternalKeyComparator C
     \<and> 0 < opt_block_restart_interval (tc_options tc) \<and> user_filter C (tc_options tc)
     \<and> (\<forall>n sz es. T (n, sz) = Some es \<longrightarrow> (\<exists>c bs ks. table_contents files tc n = Some c \<and> unat sz = length c \<and> length c < 2 ^ 32
         \<and> table_file S (tc_options tc) c bs ks \<and> concat (map fst bs) = es))"

definition tc_state ::
  "Snappy \<Rightarrow> ('e \<Rightarrow> bytes \<Rightarrow> bytes option) \<Rightarrow> ('e \<Rightarrow> bool) \<Rightarrow> Comparator \<Rightarrow> (Table \<times> written) set \<Rightarrow> (nat \<times> nat) multiset
   \<Rightarrow> 'e TableCache \<Rightarrow> nat \<Rightarrow> (u64 \<times> u64 \<rightharpoonup> entries) \<Rightarrow> bool" where
  "tc_state S files einvar C G H tc m T \<longleftrightarrow> tables_stored S files C tc T \<and> einvar (tc_env tc)
     \<and> sc_holds (tc_cache tc) H (known_table S (tc_options tc) T G) \<and> block_cache_ok S G m (tc_block_cache tc)"

definition tc_tables ::
  "Snappy \<Rightarrow> ('e \<Rightarrow> bytes \<Rightarrow> bytes option) \<Rightarrow> ('e \<Rightarrow> bool) \<Rightarrow> Comparator \<Rightarrow> 'e TableCache \<Rightarrow> nat \<Rightarrow> (u64 \<times> u64 \<rightharpoonup> entries) \<Rightarrow> bool" where
  "tc_tables S files einvar C tc m T \<longleftrightarrow> (\<exists>G H. tc_state S files einvar C G H tc m T)"

lemma EncodeFixed64_inject [simp]: "EncodeFixed64 a = EncodeFixed64 b \<longleftrightarrow> a = b"
  by (metis DecodeFixed64_EncodeFixed64)

lemma cached_ok_other: "take 8 key \<noteq> EncodeFixed64 (tbl_cache_id t) \<Longrightarrow> cached_ok S t B key b"
  by (auto simp: cached_ok_def cache_key_def)

lemma block_cache_ok_less: "block_cache_ok S G m cache \<Longrightarrow> l \<le> m \<Longrightarrow> block_cache_ok S G l cache"
  by (auto simp: block_cache_ok_def split: option.splits)

text \<open>A table that is opened takes a new identifier, under which there are no blocks.\<close>

lemma block_cache_ok_open:
  assumes ok: "block_cache_ok S G (Suc m) cache"
    and o: "case cache of None \<Rightarrow> cache' = None | Some c \<Rightarrow> cache' = Some (snd (NewId c)) \<and> tbl_cache_id t = fst (NewId c)"
  shows "block_cache_ok S (insert (t, bs) G) m cache'"
proof (cases cache)
  case (Some c)
  let ?N = "sc_last_id c"
  have N: "unat ?N + Suc m < 2 ^ 64" and G: "\<forall>x \<in> G. tbl_cache_id (fst x) \<le> ?N" "inj_on (\<lambda>x. tbl_cache_id (fst x)) G"
    and st: "cache_state (blocks_ok_for S G ?N) ?N (Some c) {#}" using ok Some by (auto simp: block_cache_ok_def)
  have u: "unat (?N + 1) = Suc (unat ?N)" using N by (simp add: unat_word_ariths)
  have c': "cache' = Some (snd (NewId c))" "tbl_cache_id t = ?N + 1" "sc_last_id (snd (NewId c)) = ?N + 1"
    using o Some by (simp_all add: NewId_def Let_def)
  have new: "i \<noteq> ?N + 1 \<and> i \<le> ?N + 1" if "i \<le> ?N" for i using that u by (auto simp: word_le_nat_alt)
  have "blocks_ok_for S (insert (t, bs) G) (?N + 1) key b" if b: "blocks_ok_for S G ?N key b" for key b
  proof -
    obtain i where i: "i \<le> ?N" "take 8 key = EncodeFixed64 i" using b by (auto simp: blocks_ok_for_def)
    then have "cached_ok S t (table_blocks bs) key b" using new c'(2) by (intro cached_ok_other) simp
    then show ?thesis using b i new by (auto simp: blocks_ok_for_def)
  qed
  moreover obtain H where H: "sc_holds c H (blocks_ok_for S G ?N)" using st by (auto simp: cache_state_def cleanup_handles_def)
  ultimately have "sc_holds (snd (NewId c)) H (blocks_ok_for S (insert (t, bs) G) (?N + 1))"
    using sc_holds_mono [OF H] by (simp add: sc_holds_NewId)
  then have "cache_state (blocks_ok_for S (insert (t, bs) G) (?N + 1)) (?N + 1) cache' {#}" by (auto simp: cache_state_def cleanup_handles_def c')
  moreover have "inj_on (\<lambda>x. tbl_cache_id (fst x)) (insert (t, bs) G)"
  proof -
    have "tbl_cache_id (fst x) \<noteq> tbl_cache_id t" if "x \<in> G" for x using that G(1) new c'(2) by metis
    then show ?thesis using G(2) by (force simp: inj_on_insert)
  qed
  moreover have "\<forall>x \<in> insert (t, bs) G. tbl_cache_id (fst x) \<le> ?N + 1" using G(1) new c'(2) by auto
  ultimately show ?thesis using N u c' by (simp add: block_cache_ok_def)
qed (use o in \<open>simp add: block_cache_ok_def\<close>)

text \<open>Without a block cache lookups do not create one.\<close>

lemma BlockReader_no_cache: "snd (BlockReader S t ro None v) = None"
  by (auto simp: BlockReader_def find_block_def Let_def split: prod.splits option.splits if_splits)

lemma Iterator_delete_no_cache: "Iterator_delete run_cleanup ob None = None"
proof -
  have "foldl (\<lambda>a c. run_cleanup c a) None cs = None" for cs
  proof (induction cs)
    case (Cons c cs)
    then show ?case by (cases c) simp_all
  qed simp
  then show ?thesis by (simp add: Iterator_delete_def)
qed

lemma InternalGet_no_cache:
  assumes "InternalGet S t ro k saver arg None = Some (s, arg', cache')"
  shows "cache' = None"
  using assms BlockReader_no_cache [of S t ro]
  by (auto simp: InternalGet_def Let_def Iterator_delete_no_cache bind_eq_Some_conv split: prod.splits if_splits option.splits) (metis snd_conv Iterator_delete_no_cache)+

lemma known_table_mono: "known_table S opt T G key tf \<Longrightarrow> G \<subseteq> G' \<Longrightarrow> known_table S opt T G' key tf"
  unfolding known_table_def by blast

lemma table_contents_cache [simp]: "table_contents files (tc\<lparr>tc_cache := c\<rparr>) n = table_contents files tc n"
  by (simp add: table_contents_def cong: option.case_cong)

lemma tables_stored_frame:
  assumes "tables_stored S files C tc T" and "tc_options tc' = tc_options tc" and "tc_dbname tc' = tc_dbname tc"
    and "files (tc_env tc') = files (tc_env tc)"
  shows "tables_stored S files C tc' T"
proof -
  have "table_contents files tc' n = table_contents files tc n" for n unfolding table_contents_def assms(3,4) ..
  then show ?thesis using assms(1) unfolding tables_stored_def assms(2) by simp
qed

context random_access_env
begin

lemma FindTable_ok:
  assumes st: "tc_state S files einvar C G H tc (Suc m) T" and T: "T (n, sz) = Some es"
  shows "\<exists>h tc' G' tf bs F ks. FindTable S newfile tc n sz = Some (Status_OK, Some h, tc') \<and> tc_state S files einvar C G' (add_mset h H) tc' m T
    \<and> Cache_Value (tc_cache tc') h = Some tf \<and> (tf_table tf, bs) \<in> G' \<and> table_open S (tf_table tf) F bs ks
    \<and> tbl_options (tf_table tf) = tc_options tc' \<and> concat (map fst bs) = es"
proof -
  let ?key = "EncodeFixed64 n" and ?opt = "tc_options tc"
  have st': "tables_stored S files C tc T" "einvar (tc_env tc)" "sc_holds (tc_cache tc) H (known_table S ?opt T G)"
    "block_cache_ok S G (Suc m) (tc_block_cache tc)" using st by (auto simp: tc_state_def)
  obtain r cache where look: "Cache_Lookup (tc_cache tc) ?key = (r, cache)" by fastforce
  show ?thesis
  proof (cases r)
    case (Some h)
    from lru.lookup_hit [OF st'(3) look [unfolded Some]] obtain tf where
      h: "sc_holds cache (add_mset h H) (known_table S ?opt T G)" "Cache_Value cache h = Some tf" "known_table S ?opt T G ?key tf" by blast
    obtain bs F ks where tf: "(tf_table tf, bs) \<in> G" "table_open S (tf_table tf) F bs ks" "tbl_options (tf_table tf) = ?opt"
      "concat (map fst bs) = es" using h(3) T unfolding known_table_def by auto
    let ?tc = "tc\<lparr>tc_cache := cache\<rparr>"
    have "FindTable S newfile tc n sz = Some (Status_OK, Some h, ?tc)" using look Some by (simp add: FindTable_def)
    moreover have "tc_state S files einvar C G (add_mset h H) ?tc m T"
      using st' h(1) block_cache_ok_less [OF st'(4), of m] by (simp add: tc_state_def tables_stored_frame)
    ultimately show ?thesis using h(2) tf by (intro exI [of _ h] exI [of _ ?tc] exI [of _ G] exI [of _ tf] exI [of _ bs] exI [of _ F] exI [of _ ks]) simp
  next
    case None
    note miss = lru.lookup_miss [OF st'(3) look [unfolded None]]
    obtain c bs ks where c: "table_contents files tc n = Some c" "unat sz = length c" "length c < 2 ^ 32" "table_file S ?opt c bs ks" "concat (map fst bs) = es"
      using st'(1) T unfolding tables_stored_def by blast
    have p: "key_comparator C" "snappy_ok S" "opt_comparator ?opt = InternalKeyComparator C" "0 < opt_block_restart_interval ?opt"
      using st'(1) by (auto simp: tables_stored_def)
    obtain fl e where op: "open_table_file newfile (tc\<lparr>tc_cache := cache\<rparr>) n = (Inr fl, e)" "readable fl c" "einvar e" "files e = files (tc_env tc)"
      using open_table_file [of "tc\<lparr>tc_cache := cache\<rparr>" n c] st'(2) c(1) by auto
    have "comparator (Compare (opt_comparator ?opt))"
      using key_comparator.internal_key_comparator [OF p(1), THEN key_comparator.user_order] p(3) by simp
    then obtain t bc where t: "Table_Open S ?opt fl (length c) (tc_block_cache tc) = Some (Status_OK, Some t, bc)" "table_open S t c bs ks" "tbl_options t = ?opt"
      "case tc_block_cache tc of None \<Rightarrow> bc = None | Some c \<Rightarrow> bc = Some (snd (NewId c)) \<and> tbl_cache_id t = fst (NewId c)"
      using Table_Open_holds [OF c(4) op(2) c(3) p(2) _ p(4), of "tc_block_cache tc"] by blast
    let ?tf = "\<lparr>tf_file = fl, tf_table = t\<rparr>" and ?G = "insert (t, bs) G"
    obtain h cache2 where ins: "Cache_Insert cache ?key ?tf 1 = (h, cache2)" by fastforce
    have same: "es' = concat (map fst bs)" if T': "T (n, sz') = Some es'" for sz' es'
    proof -
      obtain c' where "table_contents files tc n = Some c'" "unat sz' = length c'" using st'(1) T' unfolding tables_stored_def by blast
      then have "sz' = sz" using c(1,2) by (simp add: word_unat_eq_iff)
      then show ?thesis using T' T c(5) by simp
    qed
    have "known_table S ?opt T ?G ?key ?tf" unfolding known_table_def using t(2,3) same by auto
    moreover have "sc_holds cache H (known_table S ?opt T ?G)" by (rule sc_holds_mono [OF miss]) (erule known_table_mono, blast)
    ultimately have
      i: "sc_holds cache2 (add_mset h H) (known_table S ?opt T ?G)" "Cache_Value cache2 h = Some ?tf" using lru.insert_new [OF _ _ ins] by blast+
    let ?tc = "tc\<lparr>tc_cache := cache2, tc_env := e, tc_block_cache := bc\<rparr>"
    have "FindTable S newfile tc n sz = Some (Status_OK, Some h, ?tc)"
      using look None op(1) t(1) ins c(2) by (simp add: FindTable_def Let_def)
    moreover have "tc_state S files einvar C ?G (add_mset h H) ?tc m T"
      using tables_stored_frame [OF st'(1), of ?tc] op i(1) block_cache_ok_open [OF st'(4) t(4)] by (simp add: tc_state_def)
    ultimately show ?thesis using i(2) t(2,3) c(5)
      by (intro exI [of _ h] exI [of _ ?tc] exI [of _ ?G] exI [of _ ?tf] exI [of _ bs] exI [of _ c] exI [of _ ks]) simp
  qed
qed

lemma block_cache_ok_get:
  assumes ok: "block_cache_ok S G m cache" and t: "(t, bs) \<in> G" "table_open S t F bs ks" and k: "key_fits k"
  shows "\<exists>cache'. InternalGet S t ro k saver arg cache
      = Some (Status_OK, case table_hit t bs ks k of None \<Rightarrow> arg | Some (k', v) \<Rightarrow> saver arg k' v, cache') \<and> block_cache_ok S G m cache'"
proof (cases cache)
  case None
  have "table_src S t (cached_ok S t (table_blocks bs)) 0 cache {#} (table_blocks bs)"
    by (rule table_src_open [OF t(2)]) (simp_all add: None cache_state_def cleanup_handles_def)
  then show ?thesis using InternalGet_open [OF t(2) _ k, of _ _ cache ro saver arg] InternalGet_no_cache None
    by (fastforce simp: block_cache_ok_def)
next
  case (Some c)
  let ?N = "sc_last_id c"
  let ?R = "blocks_ok_for S G ?N"
  have st: "cache_state ?R ?N cache {#}" and G: "\<forall>x \<in> G. tbl_cache_id (fst x) \<le> ?N" "inj_on (\<lambda>x. tbl_cache_id (fst x)) G"
    using ok Some by (auto simp: block_cache_ok_def)
  have "?R (cache_key t h) b = cached_ok S t (table_blocks bs) (cache_key t h) b" for h b
  proof -
    have key: "take 8 (cache_key t h) = EncodeFixed64 (tbl_cache_id t)" by (simp add: cache_key_def)
    have "cached_ok S t' (table_blocks bs') (cache_key t h) b" if x: "(t', bs') \<in> G" "(t', bs') \<noteq> (t, bs)" for t' bs'
    proof -
      have "tbl_cache_id t' \<noteq> tbl_cache_id t" using inj_onD [OF G(2) _ x(1) t(1)] x(2) by auto
      then show ?thesis using key by (intro cached_ok_other) simp
    qed
    then show ?thesis using t(1) G(1) key by (force simp: blocks_ok_for_def)
  qed
  then have "table_src S t ?R ?N cache {#} (table_blocks bs)" by (intro table_src_open [OF t(2) st]) simp
  from InternalGet_open [OF t(2) this k, of ro saver arg] obtain cache' where
    g: "InternalGet S t ro k saver arg cache = Some (Status_OK, case table_hit t bs ks k of None \<Rightarrow> arg | Some (k', v) \<Rightarrow> saver arg k' v, cache')"
      "cache_state ?R ?N cache' {#}" by (auto simp: table_src_def)
  have "block_cache_ok S G m cache'" using g(2) ok Some by (auto simp: block_cache_ok_def cache_state_def split: option.splits)
  then show ?thesis using g(1) by blast
qed

lemma TableCache_Get_ok:
  assumes st: "tc_tables S files einvar C tc (Suc m) T" and T: "T (n, sz) = Some es" and k: "key_fits k"
  shows "\<exists>a' tc'. TableCache_Get S newfile ro n sz k a saver tc = Some (Status_OK, a', tc') \<and> tc_tables S files einvar C tc' m T
    \<and> (let i = lower_bound (InternalKey_Compare C) es k in
       if i < length es then a' = saver a (fst (es ! i)) (snd (es ! i)) \<or> a' = a \<and> Compare C (ExtractUserKey (fst (es ! i))) (ExtractUserKey k) \<noteq> 0
       else a' = a)"
proof -
  obtain G0 H where "tc_state S files einvar C G0 H tc (Suc m) T" using st by (auto simp: tc_tables_def)
  from FindTable_ok [OF this T] obtain h tc1 G tf bs F ks where
    f: "FindTable S newfile tc n sz = Some (Status_OK, Some h, tc1)" "tc_state S files einvar C G (add_mset h H) tc1 m T"
      "Cache_Value (tc_cache tc1) h = Some tf" "(tf_table tf, bs) \<in> G" "table_open S (tf_table tf) F bs ks"
      "tbl_options (tf_table tf) = tc_options tc1" "concat (map fst bs) = es" by blast
  let ?t = "tf_table tf"
  have s1: "tables_stored S files C tc1 T" "block_cache_ok S G m (tc_block_cache tc1)"
    "sc_holds (tc_cache tc1) (add_mset h H) (known_table S (tc_options tc1) T G)" "einvar (tc_env tc1)" using f(2) by (auto simp: tc_state_def)
  obtain bc where bc: "InternalGet S ?t ro k saver a (tc_block_cache tc1)
      = Some (Status_OK, case table_hit ?t bs ks k of None \<Rightarrow> a | Some (k', v) \<Rightarrow> saver a k' v, bc)" "block_cache_ok S G m bc"
    using block_cache_ok_get [OF s1(2) f(4,5) k, of ro saver a] by blast
  let ?tc = "tc1\<lparr>tc_block_cache := bc, tc_cache := Cache_Release (tc_cache tc1) h\<rparr>"
  have "tc_state S files einvar C G H ?tc m T"
    using s1 bc(2) lru.release_held [OF s1(3)] tables_stored_frame [OF s1(1), of ?tc] by (simp add: tc_state_def)
  moreover have oc: "opt_comparator (tbl_options ?t) = InternalKeyComparator C" "key_comparator C" "user_filter C (tbl_options ?t)"
    using s1(1) f(6) by (auto simp: tables_stored_def)
  have "let i = lower_bound (InternalKey_Compare C) es k in
     if i < length es then (case table_hit ?t bs ks k of None \<Rightarrow> a | Some (k', v) \<Rightarrow> saver a k' v) = saver a (fst (es ! i)) (snd (es ! i))
       \<or> table_hit ?t bs ks k = None \<and> Compare C (ExtractUserKey (fst (es ! i))) (ExtractUserKey k) \<noteq> 0
     else table_hit ?t bs ks k = None"
    using table_hit_sound [OF f(5), of k] table_hit_user [OF f(5) oc(2,1,3), of k] f(7) oc(1)
    by (cases "table_hit ?t bs ks k") (auto simp: Let_def split: prod.splits)
  ultimately show ?thesis using f(1,3) bc(1)
    by (intro exI [of _ "case table_hit ?t bs ks k of None \<Rightarrow> a | Some (k', v) \<Rightarrow> saver a k' v"] exI [of _ ?tc])
      (auto simp: TableCache_Get_def tc_tables_def Let_def split: if_splits)
qed

end

text \<open>The table cache keeps the contract of the lookups of a version.\<close>

sublocale random_access_env \<subseteq> get: table_lookup C "TableCache_Get S newfile" "tc_tables S files einvar C" for S C
proof (intro table_lookup.intro, goal_cases)
  case (1 tc m T)
  then show ?case by (auto simp: tc_tables_def tc_state_def tables_stored_def)
next
  case (2 tc m T x es)
  then show ?case by (cases x) (fastforce simp: tc_tables_def tc_state_def tables_stored_def table_file_def)
next
  case (3 tc m T l)
  then show ?case using block_cache_ok_less unfolding tc_tables_def tc_state_def by blast
qed (rule TableCache_Get_ok)

context random_access_env
begin

lemmas get_contract = get.table_lookup_axioms

end

subsection \<open>Properties\<close>

text \<open>The invariant of the levels of a version: of two entries of a user key the one that is searched first is newer.\<close>

definition newest_first :: "Comparator \<Rightarrow> entries \<Rightarrow> bool" where
  "newest_first C es \<longleftrightarrow> sorted_wrt (\<lambda>d e. \<forall>j k. ParseInternalKey (fst d) = Some j \<longrightarrow> ParseInternalKey (fst e) = Some k
     \<longrightarrow> Compare C (pik_user_key j) (pik_user_key k) = 0 \<longrightarrow> pik_sequence k \<le> pik_sequence j) es"

definition newest_visible :: "Comparator \<Rightarrow> Slice \<Rightarrow> SequenceNumber \<Rightarrow> entries \<Rightarrow> Slice \<times> Slice \<Rightarrow> ParsedInternalKey \<Rightarrow> bool" where
  "newest_visible C u s es e k \<longleftrightarrow> e \<in> set es \<and> ParseInternalKey (fst e) = Some k \<and> Compare C (pik_user_key k) u = 0 \<and> pik_sequence k \<le> s
     \<and> (\<forall>d \<in> set es. \<forall>j. ParseInternalKey (fst d) = Some j \<longrightarrow> Compare C (pik_user_key j) u = 0 \<longrightarrow> pik_sequence j \<le> s \<longrightarrow> pik_sequence j \<le> pik_sequence k)"

lemma find_newest:
  assumes C: "key_comparator C" and nf: "newest_first C es" and f: "find (visible_for C u s) es = Some e"
  shows "\<exists>k. newest_visible C u s es e k"
proof -
  note ord = key_comparator.user_order [OF C]
  obtain k where k: "ParseInternalKey (fst e) = Some k" "Compare C (pik_user_key k) u = 0" "pik_sequence k \<le> s" by (rule find_visible_parse [OF f])
  obtain i where i: "i < length es" "e = es ! i" "\<And>j. j < i \<Longrightarrow> \<not> visible_for C u s (es ! j)"
    using f by (auto simp: find_Some_iff)
  have "pik_sequence j \<le> pik_sequence k"
    if d: "d \<in> set es" "ParseInternalKey (fst d) = Some j" "Compare C (pik_user_key j) u = 0" "pik_sequence j \<le> s" for d j
  proof -
    obtain m where m: "m < length es" "d = es ! m" using d(1) by (auto simp: in_set_conv_nth)
    have "visible_for C u s d" using d by (simp add: visible_for_def)
    then have "i \<le> m" using i(3) m(2) not_le by blast
    moreover have "Compare C (pik_user_key k) (pik_user_key j) = 0"
      using comparator.cmp_le_trans [OF ord, of "pik_user_key k" u "pik_user_key j"] comparator.cmp_le_trans [OF ord, of "pik_user_key j" u "pik_user_key k"]
        k(2) d(3) comparator.cmp_zero_swap [OF ord, of u "pik_user_key k"] comparator.cmp_zero_swap [OF ord, of u "pik_user_key j"]
        comparator.cmp_ge_swap [OF ord, of "pik_user_key k" "pik_user_key j"] by simp
    ultimately show ?thesis
      using nf i(1,2) m k(1) d(2) sorted_wrt_nth_less [of _ es i m] unfolding newest_first_def by (cases "i = m") auto
  qed
  then show ?thesis using k i(1,2) by (auto simp: newest_visible_def)
qed

text \<open>
  C1.  Lookups in a version.  Over an environment whose files can be opened and read, \<^verbatim>\<open>Version::Get\<close> through the table cache
  returns; if the files of the version are tables of the environment, disjoint and sorted above the first level, and newer
  entries are searched first, then it reports the newest entry of the user key that is visible at the snapshot, a
  deletion as not found, and not found only if there is none.  Neither the search for the file, nor the index, the filters
  and the caches of tables and blocks lose an entry.
\<close>

theorem version_get:
  assumes env: "random_access_env newfile files einvar" and tc: "tc_tables S files einvar C tc (length (concat (v_files v)) + m) T"
    and v: "version_holds C T F v" and nf: "newest_first C (version_entries T F v [0..<kNumLevels])"
    and s: "s \<le> kMaxSequenceNumber" and u: "length u + 8 < 2 ^ 32"
  shows "\<exists>st val' stats tc'. Version_Get (TableCache_Get S newfile) C F v options (LookupKey_make u s) val tc = Some (st, val', stats, tc')
    \<and> tc_tables S files einvar C tc' m T
    \<and> ((\<exists>e k. newest_visible C u s (version_entries T F v [0..<kNumLevels]) e k
          \<and> (if pik_type k = kTypeValue then st = Status_OK \<and> val' = snd e else st = NotFound [] [] \<and> val' = val))
       \<or> (\<not> (\<exists>e k. newest_visible C u s (version_entries T F v [0..<kNumLevels]) e k) \<and> st = NotFound [] [] \<and> val' = val))"
proof -
  let ?es = "version_entries T F v [0..<kNumLevels]"
  let ?r = "get_answer (find (visible_for C u s) ?es) val"
  have C: "key_comparator C" using tc by (auto simp: tc_tables_def tc_state_def tables_stored_def)
  obtain stats tc' where g: "Version_Get (TableCache_Get S newfile) C F v options (LookupKey_make u s) val tc
      = Some (case fst ?r of None \<Rightarrow> NotFound [] [] | Some st \<Rightarrow> st, snd ?r, stats, tc')" "tc_tables S files einvar C tc' m T"
    using table_lookup.Version_Get_visible [OF random_access_env.get_contract [OF env] tc v s u, of options val] by blast
  show ?thesis
  proof (cases "find (visible_for C u s) ?es")
    case None
    then have "\<not> newest_visible C u s ?es e k" for e k
      by (cases e) (fastforce simp: find_None_iff newest_visible_def visible_for_def split: option.splits)
    then show ?thesis using g None by (simp add: get_answer_def)
  next
    case (Some e)
    then obtain k where k: "newest_visible C u s ?es e k" using find_newest [OF C nf] by blast
    then have "ParseInternalKey (fst e) = Some k" by (simp add: newest_visible_def)
    then have r: "?r = (if pik_type k = kTypeValue then (Some Status_OK, snd e) else (Some (NotFound [] []), val))"
      using Some by (cases "pik_type k") (simp_all add: get_answer_def)
    show ?thesis
      by (rule exI, rule exI [of _ "snd ?r"], rule exI [of _ stats], rule exI [of _ tc'], rule conjI [OF g(1) conjI [OF g(2) disjI1]], rule exI [of _ e],
        rule exI [of _ k]) (use k r in simp)
  qed
qed

text \<open>One table of one entry in the in-memory environment.\<close>

lemma version_get_setup:
  assumes "ik = InternalKey_make [1] 5 kTypeValue"
  obtains r env where "list_build_for (InternalKeyComparator BytewiseComparator) [(ik, [10])] = (Status_OK, r)"
    and "WriteStringToFile (mem_Env 0) mem_empty (tb_file r) (TableFileName [] 7) = (Status_OK, env)"
    and "tc_tables no_snappy mem_files mem_einvar BytewiseComparator
      (TableCache_make [] env (Options_make\<lparr>opt_comparator := InternalKeyComparator BytewiseComparator\<rparr>) None 100) n
      [(7, of_nat (length (tb_file r))) \<mapsto> [(ik, [10])]]"
proof -
  let ?C = "InternalKeyComparator BytewiseComparator"
  let ?opt = "Options_make\<lparr>opt_comparator := ?C\<rparr>"
  have "length (FindShortSuccessor ?C ik) < 1000" unfolding assms by code_simp
  moreover have "length ik + length [10::8 word] < 1000" by (simp add: assms InternalKey_make_def AppendInternalKey_eq)
  ultimately obtain r where r: "list_build_for ?C [(ik, [10])] = (Status_OK, r)" "length (tb_file r) < 2 ^ 32"
    using build_one_for by blast
  obtain env where w: "WriteStringToFile (mem_Env 0) mem_empty (tb_file r) (TableFileName [] 7) = (Status_OK, env)"
    using mem_WriteStringToFile_ok [of 0 mem_empty "tb_file r" "TableFileName [] 7" False] by (metis WriteStringToFile_def prod.collapse)
  note W = memenv.DoWriteStringToFile_spec [OF mem_empty_invar w [unfolded WriteStringToFile_def]]
  have C: "key_comparator ?C" using key_comparator.internal_key_comparator [OF bytewise.key_comparator_axioms] .
  have "entries_sorted (Compare (opt_comparator ?opt)) [(ik, [10])]"
    by (simp add: entries_sorted_def key_fits_def assms InternalKey_make_def AppendInternalKey_eq)
  from fallible_file.build_table_spec [OF list_fallible, of "[]" no_snappy ?opt, OF _ _ no_snappy_ok _ _ this r(1)] C obtain bs ks where
    t: "table_file no_snappy ?opt (tb_file r) bs ks" "concat (map fst bs) = [(ik, [10])]" by (auto simp: Options_make_def)
  let ?tc = "TableCache_make [] env ?opt None 100"
  have "table_contents mem_files ?tc 7 = Some (tb_file r)" using W by (simp add: table_contents_def TableCache_make_def)
  moreover have "unat (of_nat (length (tb_file r)) :: u64) = length (tb_file r)" using r(2) by (simp add: unat_of_nat)
  ultimately have "tc_state no_snappy mem_files mem_einvar BytewiseComparator {} {#} ?tc n [(7, of_nat (length (tb_file r))) \<mapsto> [(ik, [10])]]"
    using t r(2) W sc_holds_New bytewise.key_comparator_axioms no_snappy_ok
    by (auto simp: tc_state_def tables_stored_def TableCache_make_def user_filter_def block_cache_ok_def Options_make_def)
  then show thesis using that r(1) w unfolding tc_tables_def by blast
qed

theorem version_get_witness:
  "\<exists>r env stats tc'. list_build_for (InternalKeyComparator BytewiseComparator) [(InternalKey_make [1] 5 kTypeValue, [10])] = (Status_OK, r)
    \<and> WriteStringToFile (mem_Env 0) mem_empty (tb_file r) (TableFileName [] 7) = (Status_OK, env)
    \<and> Version_Get (TableCache_Get no_snappy mem_open_file) BytewiseComparator
        (\<lambda>_. FileMetaData_make\<lparr>fm_number := 7, fm_file_size := of_nat (length (tb_file r)), fm_smallest := InternalKey_make [1] 5 kTypeValue,
           fm_largest := InternalKey_make [1] 5 kTypeValue\<rparr>)
        (Version_make\<lparr>v_files := [[()], [], [], [], [], [], []]\<rparr>) ReadOptions_make (LookupKey_make [1] 9) []
        (TableCache_make [] env (Options_make\<lparr>opt_comparator := InternalKeyComparator BytewiseComparator\<rparr>) None 100)
      = Some (Status_OK, [10], stats, tc')"
proof -
  define ik where "ik = InternalKey_make [1] 5 kTypeValue"
  obtain r env where r: "list_build_for (InternalKeyComparator BytewiseComparator) [(ik, [10])] = (Status_OK, r)"
    "WriteStringToFile (mem_Env 0) mem_empty (tb_file r) (TableFileName [] 7) = (Status_OK, env)"
    "tc_tables no_snappy mem_files mem_einvar BytewiseComparator
      (TableCache_make [] env (Options_make\<lparr>opt_comparator := InternalKeyComparator BytewiseComparator\<rparr>) None 100) 1
      [(7, of_nat (length (tb_file r))) \<mapsto> [(ik, [10])]]" by (rule version_get_setup [OF ik_def])
  let ?T = "[(7 :: u64, of_nat (length (tb_file r)) :: u64) \<mapsto> [(ik, [10 :: 8 word])]]"
  let ?F = "\<lambda>_ :: unit. FileMetaData_make\<lparr>fm_number := 7, fm_file_size := of_nat (length (tb_file r)), fm_smallest := ik, fm_largest := ik\<rparr>"
  let ?v = "Version_make\<lparr>v_files := [[()], [], [], [], [], [], []]\<rparr>"
  have p: "ParseInternalKey ik = Some \<lparr>pik_user_key = [1], pik_sequence = 5, pik_type = kTypeValue\<rparr>" unfolding ik_def by code_simp
  have es: "version_entries ?T ?F ?v [0..<kNumLevels] = [(ik, [10])]"
    by (simp add: version_entries_def kNumLevels_def upt_rec level_order_def sort_newest_first_def file_entries_of_def)
  have vf: "v_files ?v ! lev = []" if "lev < kNumLevels" "0 < lev" for lev
  proof -
    have "lev \<in> {1, 2, 3, 4, 5, 6}" using that by (auto simp: kNumLevels_def)
    then show ?thesis by auto
  qed
  have "version_holds BytewiseComparator ?T ?F ?v"
    unfolding version_holds_def
  proof (intro conjI allI impI, goal_cases)
    case (2 lev)
    then show ?case using vf [of lev] by (cases "lev = 0") (simp_all add: file_holds_def p)
  next
    case (3 lev)
    then show ?case unfolding vf [OF 3] by (simp add: disjoint_sorted_def)
  qed (simp add: kNumLevels_def)
  moreover have "newest_first BytewiseComparator (version_entries ?T ?F ?v [0..<kNumLevels])" by (simp add: es newest_first_def)
  moreover have "(9 :: u64) \<le> kMaxSequenceNumber" by code_simp
  moreover have "newest_visible BytewiseComparator [1] 9 [(ik, [10])] (ik, [10]) \<lparr>pik_user_key = [1], pik_sequence = 5, pik_type = kTypeValue\<rparr>"
    by (simp add: newest_visible_def p)
  moreover have "k = \<lparr>pik_user_key = [1], pik_sequence = 5, pik_type = kTypeValue\<rparr> \<and> e = (ik, [10])"
    if "newest_visible BytewiseComparator [1] 9 [(ik, [10])] e k" for e k using that by (auto simp: newest_visible_def p)
  ultimately show ?thesis
    using version_get [OF mem_random.random_access_env_axioms, of no_snappy BytewiseComparator _ ?v 0 ?T ?F 9 "[1]" ReadOptions_make "[]"] r
    unfolding es ik_def [symmetric] by fastforce
qed

end
