(* ===== verification/Snapshot.thy ===== *)
theory Snapshot
  imports Dbformat
begin

text \<open>
  The list of snapshots (\<^verbatim>\<open>db/snapshot.h\<close>): the circular list without its dummy head, oldest first.  A snapshot object has an
  identifier.
\<close>

record SnapshotImpl =
  sn_id :: nat
  sn_number :: SequenceNumber

record SnapshotList =
  sl_list :: "SnapshotImpl list"
  sl_next_id :: nat

definition SnapshotList_make :: SnapshotList where
  "SnapshotList_make = \<lparr>sl_list = [], sl_next_id = 0\<rparr>"

definition SnapshotList_empty :: "SnapshotList \<Rightarrow> bool" where
  "SnapshotList_empty l \<longleftrightarrow> sl_list l = []"

definition oldest :: "SnapshotList \<Rightarrow> SnapshotImpl" where
  "oldest l = hd (sl_list l)"

definition newest :: "SnapshotList \<Rightarrow> SnapshotImpl" where
  "newest l = last (sl_list l)"

definition SnapshotList_New :: "SnapshotList \<Rightarrow> SequenceNumber \<Rightarrow> SnapshotImpl \<times> SnapshotList" where
  "SnapshotList_New l seq =
     (let s = \<lparr>sn_id = sl_next_id l, sn_number = seq\<rparr>
      in (s, l\<lparr>sl_list := sl_list l @ [s], sl_next_id := sl_next_id l + 1\<rparr>))"

definition SnapshotList_Delete :: "SnapshotList \<Rightarrow> SnapshotImpl \<Rightarrow> SnapshotList" where
  "SnapshotList_Delete l s = l\<lparr>sl_list := filter (\<lambda>t. sn_id t \<noteq> sn_id s) (sl_list l)\<rparr>"

text \<open>
  The invariant of a list that is given sequence numbers in order: \<open>H\<close> are the snapshots that clients hold, \<open>seq\<close> is a bound
  of the numbers so far.
\<close>

definition snapshots_ok :: "SnapshotList \<Rightarrow> SnapshotImpl set \<Rightarrow> SequenceNumber \<Rightarrow> bool" where
  "snapshots_ok l H seq \<longleftrightarrow> set (sl_list l) = H \<and> sorted (map sn_number (sl_list l)) \<and> distinct (map sn_id (sl_list l))
     \<and> (\<forall>s \<in> set (sl_list l). sn_id s < sl_next_id l \<and> sn_number s \<le> seq)"

lemma SnapshotList_make_ok: "snapshots_ok SnapshotList_make {} seq"
  by (simp add: snapshots_ok_def SnapshotList_make_def)

lemma SnapshotList_New_ok:
  assumes "snapshots_ok l H seq" and "seq \<le> seq'" and "SnapshotList_New l seq' = (s, l')"
  shows "snapshots_ok l' (insert s H) seq' \<and> sn_number s = seq' \<and> s \<notin> H"
  using assms by (fastforce simp: snapshots_ok_def SnapshotList_New_def Let_def sorted_append)

lemma SnapshotList_Delete_ok:
  assumes "snapshots_ok l H seq" and "s \<in> H"
  shows "snapshots_ok (SnapshotList_Delete l s) (H - {s}) seq"
proof -
  have "t = s" if "t \<in> set (sl_list l)" "sn_id t = sn_id s" for t
    using assms that by (auto simp: snapshots_ok_def distinct_map inj_on_def)
  then show ?thesis using assms
    by (auto simp: snapshots_ok_def SnapshotList_Delete_def sorted_filter distinct_map_filter)
qed

text \<open>The oldest snapshot has the least number.\<close>

lemma oldest_least:
  assumes "snapshots_ok l H seq" and "s \<in> H"
  shows "\<not> SnapshotList_empty l \<and> sn_number (oldest l) \<le> sn_number s"
  using assms by (cases "sl_list l") (auto simp: snapshots_ok_def SnapshotList_empty_def oldest_def)

end
