(* ===== verification/DoCompaction.thy ===== *)
theory DoCompaction
  imports Compaction TableCache Snapshot
begin

text \<open>
  The work of a compaction (\<^verbatim>\<open>DoCompactionWork\<close> and the functions around it in \<^verbatim>\<open>db/db_impl.cc\<close>): the entries of the input files are
  read in order, entries that no reader can see are dropped, the others go to new tables, and the tables are installed in the
  version set.  The input iterator is any object with the interface of iterators; \<open>shutting_down i\<close> is what the \<open>i\<close>-th load of the
  flag gives.  The model is of the runs in which no memtable becomes immutable meanwhile.
\<close>

subsection \<open>State\<close>

record Output =
  out_number :: u64
  out_file_size :: u64
  out_smallest :: InternalKey
  out_largest :: InternalKey

text \<open>The open output file is the file of the builder; its environment is put there for every call.\<close>

record ('e, 'w) CompactionState =
  cs_compaction :: Compaction
  cs_smallest_snapshot :: SequenceNumber
  cs_outputs :: "Output list"
  cs_builder :: "('e \<times> 'w) TableBuilder option"
  cs_total_bytes :: u64

definition CompactionState_make :: "Compaction \<Rightarrow> ('e, 'w) CompactionState" where
  "CompactionState_make c = \<lparr>cs_compaction = c, cs_smallest_snapshot = 0, cs_outputs = [], cs_builder = None, cs_total_bytes = 0\<rparr>"

text \<open>The part of the database that a compaction works on; its environment is the one of the table cache.\<close>

record ('e, 'w) DBCore =
  db_table_cache :: "'e TableCache"
  db_versions :: "'w VersionSet"
  db_pending_outputs :: "u64 set"
  db_snapshots :: SnapshotList
  db_bg_error :: Status

abbreviation db_env :: "('e, 'w, 'z) DBCore_scheme \<Rightarrow> 'e" where
  "db_env db \<equiv> tc_env (db_table_cache db)"

abbreviation db_dbname :: "('e, 'w, 'z) DBCore_scheme \<Rightarrow> bytes" where
  "db_dbname db \<equiv> tc_dbname (db_table_cache db)"

abbreviation db_options :: "('e, 'w, 'z) DBCore_scheme \<Rightarrow> Options" where
  "db_options db \<equiv> tc_options (db_table_cache db)"

definition set_env :: "'e \<Rightarrow> ('e, 'w, 'z) DBCore_scheme \<Rightarrow> ('e, 'w, 'z) DBCore_scheme" where
  "set_env env db = db\<lparr>db_table_cache := (db_table_cache db)\<lparr>tc_env := env\<rparr>\<rparr>"

definition RecordBackgroundError :: "Status \<Rightarrow> ('e, 'w, 'z) DBCore_scheme \<Rightarrow> ('e, 'w, 'z) DBCore_scheme" where
  "RecordBackgroundError s db = (if Status_ok (db_bg_error db) then db\<lparr>db_bg_error := s\<rparr> else db)"

subsection \<open>Dropping entries\<close>

record Dropper =
  dr_current_user_key :: bytes
  dr_has_current_user_key :: bool
  dr_last_sequence_for_key :: SequenceNumber

definition Dropper_make :: Dropper where
  "Dropper_make = \<lparr>dr_current_user_key = [], dr_has_current_user_key = False, dr_last_sequence_for_key = kMaxSequenceNumber\<rparr>"

text \<open>The first occurrence of a user key forgets the sequence number of the last one.\<close>

definition Dropper_enter :: "Comparator \<Rightarrow> Slice \<Rightarrow> Dropper \<Rightarrow> Dropper" where
  "Dropper_enter C user_key d =
     (if \<not> dr_has_current_user_key d \<or> Compare C user_key (dr_current_user_key d) \<noteq> 0
      then \<lparr>dr_current_user_key = user_key, dr_has_current_user_key = True, dr_last_sequence_for_key = kMaxSequenceNumber\<rparr>
      else d)"

definition Drop_key ::
  "Comparator \<Rightarrow> (nat \<Rightarrow> FileMetaData) \<Rightarrow> nat Version \<Rightarrow> SequenceNumber \<Rightarrow> Slice \<Rightarrow> Compaction \<times> Dropper \<Rightarrow> bool \<times> Compaction \<times> Dropper" where
  "Drop_key C F v smallest_snapshot key = (\<lambda>(c, d).
     case ParseInternalKey key of
       None \<Rightarrow> (False, c, \<lparr>dr_current_user_key = [], dr_has_current_user_key = False, dr_last_sequence_for_key = kMaxSequenceNumber\<rparr>)
     | Some ikey \<Rightarrow>
         let d = Dropper_enter C (pik_user_key ikey) d;
             (drp, c) =
               (if dr_last_sequence_for_key d \<le> smallest_snapshot then (True, c)
                else if pik_type ikey = kTypeDeletion \<and> pik_sequence ikey \<le> smallest_snapshot then IsBaseLevelForKey C F v c (pik_user_key ikey)
                else (False, c))
         in (drp, c, d\<lparr>dr_last_sequence_for_key := pik_sequence ikey\<rparr>))"

subsection \<open>Output files\<close>

definition OpenCompactionOutputFile ::
  "('e, 'w, 'r) Env \<Rightarrow> ('e, 'w) CompactionState \<Rightarrow> ('e, 'w, 'z) DBCore_scheme \<Rightarrow> Status \<times> ('e, 'w) CompactionState \<times> ('e, 'w, 'z) DBCore_scheme" where
  "OpenCompactionOutputFile E cs db =
     (let (file_number, vs) = NewFileNumber (db_versions db);
          db = db\<lparr>db_versions := vs, db_pending_outputs := insert file_number (db_pending_outputs db)\<rparr>;
          cs = cs\<lparr>cs_outputs := cs_outputs cs @ [\<lparr>out_number = file_number, out_file_size = 0, out_smallest = [], out_largest = []\<rparr>]\<rparr>;
          (r, env) = op_NewWritableFile E (db_env db) (TableFileName (db_dbname db) file_number);
          db = set_env env db
      in case r of
           Inl s \<Rightarrow> (s, cs, db)
         | Inr file \<Rightarrow> (Status_OK, cs\<lparr>cs_builder := Some (TableBuilder_make (db_options db) (env, file))\<rparr>, db))"

definition update_output :: "(Output \<Rightarrow> Output) \<Rightarrow> ('e, 'w) CompactionState \<Rightarrow> ('e, 'w) CompactionState" where
  "update_output f cs = cs\<lparr>cs_outputs := butlast (cs_outputs cs) @ [f (last (cs_outputs cs))]\<rparr>"

text \<open>The iterator that \<^verbatim>\<open>TableCache::NewIterator\<close> makes is asked for its status and deleted, which releases the table.\<close>

definition check_table :: "Snappy \<Rightarrow> 'e open_file \<Rightarrow> 'e TableCache \<Rightarrow> u64 \<Rightarrow> u64 \<Rightarrow> (Status \<times> 'e TableCache) option" where
  "check_table S newfile tc file_number file_size =
     map_option (\<lambda>(s, handle, tc).
         if \<not> Status_ok s then (s, tc)
         else let h = the handle;
                  t = tf_table (the (Cache_Value (tc_cache tc) h));
                  iter = Table_NewIterator t (tc_block_cache tc)
              in (TwoLevel_status iter, tc\<lparr>tc_cache := Cache_Release (tc_cache tc) h\<rparr>))
       (FindTable S newfile tc file_number file_size)"

text \<open>\<open>input_status\<close> is the status of the input iterator.\<close>

definition FinishCompactionOutputFile ::
  "('e, 'w, 'r) Env \<Rightarrow> Snappy \<Rightarrow> 'e open_file \<Rightarrow> Status \<Rightarrow> ('e, 'w) CompactionState \<Rightarrow> ('e, 'w, 'z) DBCore_scheme \<Rightarrow>
     (Status \<times> ('e, 'w) CompactionState \<times> ('e, 'w, 'z) DBCore_scheme) option" where
  "FinishCompactionOutputFile E S newfile input_status cs db =
     (let output_number = out_number (last (cs_outputs cs));
          builder = the (cs_builder cs);
          outfile = snd (tb_file builder);
          s = input_status;
          current_entries = NumEntries builder;
          (s, builder) = (if Status_ok s then TableBuilder_Finish (env_append E) (env_flush E) S (builder\<lparr>tb_file := (db_env db, outfile)\<rparr>)
                          else (s, (Abandon builder)\<lparr>tb_file := (db_env db, outfile)\<rparr>));
          current_bytes = FileSize builder;
          cs = (update_output (\<lambda>out. out\<lparr>out_file_size := current_bytes\<rparr>) cs)\<lparr>cs_total_bytes := cs_total_bytes cs + current_bytes, cs_builder := None\<rparr>;
          env = fst (tb_file builder);
          (s, env) = (if Status_ok s then op_Sync E env outfile else (s, env));
          (s, env) = (if Status_ok s then op_Close E env outfile else (s, env));
          db = set_env (op_delete_writable E env outfile) db
      in if Status_ok s \<and> current_entries > 0 then
           map_option (\<lambda>(s, tc). (s, cs, db\<lparr>db_table_cache := tc\<rparr>)) (check_table S newfile (db_table_cache db) output_number current_bytes)
         else Some (s, cs, db))"

definition InstallCompactionResults ::
  "('e, 'w, 'r) Env \<Rightarrow> ('e, 'w) CompactionState \<Rightarrow> ('e, 'w, 'z) DBCore_scheme \<Rightarrow> Status \<times> ('e, 'w) CompactionState \<times> ('e, 'w, 'z) DBCore_scheme" where
  "InstallCompactionResults E cs db =
     (let c = cs_compaction cs;
          edit = AddInputDeletions (vs_deref (db_versions db)) c (cn_edit c);
          edit = foldl (\<lambda>edit out. AddFile edit (cn_level c + 1) (out_number out) (out_file_size out) (out_smallest out) (out_largest out)) edit (cs_outputs cs);
          (s, env, vs, edit) = LogAndApply E (db_env db) (db_versions db) edit
      in (s, cs\<lparr>cs_compaction := c\<lparr>cn_edit := edit\<rparr>\<rparr>, (set_env env db)\<lparr>db_versions := vs\<rparr>))"

subsection \<open>The loop\<close>

abbreviation input_version :: "('e, 'w) CompactionState \<Rightarrow> ('e, 'w, 'z) DBCore_scheme \<Rightarrow> nat Version" where
  "input_version cs db \<equiv> version_at (db_versions db) (the (cn_input_version (cs_compaction cs)))"

text \<open>An entry that is kept goes to the open output, or to a new one.\<close>

definition Output_add ::
  "('e, 'w, 'r) Env \<Rightarrow> Snappy \<Rightarrow> Slice \<Rightarrow> Slice \<Rightarrow> ('e, 'w) CompactionState \<Rightarrow> ('e, 'w, 'z) DBCore_scheme \<Rightarrow>
     ('e, 'w) CompactionState \<times> ('e, 'w, 'z) DBCore_scheme" where
  "Output_add E S key value cs db =
     (let builder = the (cs_builder cs);
          cs = (if NumEntries builder = 0 then update_output (\<lambda>out. out\<lparr>out_smallest := key\<rparr>) cs else cs);
          cs = update_output (\<lambda>out. out\<lparr>out_largest := key\<rparr>) cs;
          builder = TableBuilder_Add (env_append E) (env_flush E) S (builder\<lparr>tb_file := (db_env db, snd (tb_file builder))\<rparr>) key value
      in (cs\<lparr>cs_builder := Some builder\<rparr>, set_env (fst (tb_file builder)) db))"

definition Compaction_keep ::
  "('e, 'w, 'r) Env \<Rightarrow> Snappy \<Rightarrow> 'e open_file \<Rightarrow> Status \<Rightarrow> Slice \<Rightarrow> Slice \<Rightarrow> ('e, 'w) CompactionState \<Rightarrow> ('e, 'w, 'z) DBCore_scheme \<Rightarrow>
     (Status \<times> ('e, 'w) CompactionState \<times> ('e, 'w, 'z) DBCore_scheme) option" where
  "Compaction_keep E S newfile input_status key value cs db =
     (let (s, cs, db) = (if cs_builder cs = None then OpenCompactionOutputFile E cs db else (Status_OK, cs, db)) in
      if \<not> Status_ok s then Some (s, cs, db)
      else let (cs, db) = Output_add E S key value cs db in
        if FileSize (the (cs_builder cs)) \<ge> cn_max_output_file_size (cs_compaction cs)
        then FinishCompactionOutputFile E S newfile input_status cs db
        else Some (Status_OK, cs, db))"

text \<open>The body of the loop up to the call of \<^verbatim>\<open>Next\<close>; a status that is not OK breaks the loop.\<close>

definition Compaction_step ::
  "('e, 'w, 'r) Env \<Rightarrow> Snappy \<Rightarrow> 'e open_file \<Rightarrow> Comparator \<Rightarrow> Status \<Rightarrow> Slice \<Rightarrow> Slice \<Rightarrow>
     ('e, 'w) CompactionState \<times> Dropper \<times> ('e, 'w, 'z) DBCore_scheme \<Rightarrow>
     (Status \<times> ('e, 'w) CompactionState \<times> Dropper \<times> ('e, 'w, 'z) DBCore_scheme) option" where
  "Compaction_step E S newfile C input_status key value = (\<lambda>(cs, d, db).
     let (stop, c) = ShouldStopBefore C (vs_deref (db_versions db)) (cs_compaction cs) key;
         cs = cs\<lparr>cs_compaction := c\<rparr>
     in Option.bind (if stop \<and> cs_builder cs \<noteq> None then FinishCompactionOutputFile E S newfile input_status cs db else Some (Status_OK, cs, db))
       (\<lambda>(s, cs, db).
         if \<not> Status_ok s then Some (s, cs, d, db)
         else
           let (drp, c, d) = Drop_key C (vs_deref (db_versions db)) (input_version cs db) (cs_smallest_snapshot cs) key (cs_compaction cs, d);
               cs = cs\<lparr>cs_compaction := c\<rparr>
           in if drp then Some (Status_OK, cs, d, db)
              else map_option (\<lambda>(s, cs, db). (s, cs, d, db)) (Compaction_keep E S newfile input_status key value cs db)))"

partial_function (option) Compaction_loop ::
  "('e, 'w, 'r) Env \<Rightarrow> Snappy \<Rightarrow> 'e open_file \<Rightarrow> Comparator \<Rightarrow> 's Iterator \<Rightarrow> (nat \<Rightarrow> bool) \<Rightarrow> nat \<Rightarrow> 's \<Rightarrow>
     ('e, 'w) CompactionState \<times> Dropper \<times> ('e, 'w, 'z) DBCore_scheme \<Rightarrow>
     (nat \<times> 's \<times> Status \<times> ('e, 'w) CompactionState \<times> ('e, 'w, 'z) DBCore_scheme) option" where
  "Compaction_loop E S newfile C I shutting_down n input st =
     (case st of (cs, d, db) \<Rightarrow>
        if \<not> it_Valid I input then Some (n, input, Status_OK, cs, db)
        else if shutting_down n then Some (n + 1, input, Status_OK, cs, db)
        else Option.bind (Compaction_step E S newfile C (it_status I input) (it_key I input) (it_value I input) (cs, d, db)) (\<lambda>(s, cs, d, db).
          if \<not> Status_ok s then Some (n + 1, input, s, cs, db)
          else Option.bind (it_Next I input) (\<lambda>input. Compaction_loop E S newfile C I shutting_down (n + 1) input (cs, d, db))))"

text \<open>The part that runs without the mutex.\<close>

definition CompactionRun ::
  "('e, 'w, 'r) Env \<Rightarrow> Snappy \<Rightarrow> 'e open_file \<Rightarrow> Comparator \<Rightarrow> 's Iterator \<Rightarrow> (nat \<Rightarrow> bool) \<Rightarrow> 's \<Rightarrow> ('e, 'w) CompactionState \<Rightarrow> ('e, 'w, 'z) DBCore_scheme \<Rightarrow>
     (Status \<times> ('e, 'w) CompactionState \<times> ('e, 'w, 'z) DBCore_scheme) option" where
  "CompactionRun E S newfile C I shutting_down input cs db =
     Option.bind (it_SeekToFirst I input) (\<lambda>input.
     Option.bind (Compaction_loop E S newfile C I shutting_down 0 input (cs, Dropper_make, db)) (\<lambda>(n, input, s, cs, db).
       let s = (if Status_ok s \<and> shutting_down n then IOError (str ''Deleting DB during compaction'') [] else s)
       in map_option (\<lambda>(s, cs, db). (if Status_ok s then it_status I input else s, cs, db))
            (if Status_ok s \<and> cs_builder cs \<noteq> None then FinishCompactionOutputFile E S newfile (it_status I input) cs db else Some (s, cs, db))))"

definition DoCompactionWork ::
  "('e, 'w, 'r) Env \<Rightarrow> Snappy \<Rightarrow> 'e open_file \<Rightarrow> Comparator \<Rightarrow> 's Iterator \<Rightarrow> (nat \<Rightarrow> bool) \<Rightarrow> 's \<Rightarrow> ('e, 'w) CompactionState \<Rightarrow> ('e, 'w, 'z) DBCore_scheme \<Rightarrow>
     (Status \<times> ('e, 'w) CompactionState \<times> ('e, 'w, 'z) DBCore_scheme) option" where
  "DoCompactionWork E S newfile C I shutting_down input cs db =
     (let cs = cs\<lparr>cs_smallest_snapshot :=
            (if SnapshotList_empty (db_snapshots db) then vs_last_sequence (db_versions db) else sn_number (oldest (db_snapshots db)))\<rparr>
      in map_option (\<lambda>(s, cs, db).
             let (s, cs, db) = (if Status_ok s then InstallCompactionResults E cs db else (s, cs, db));
                 db = (if \<not> Status_ok s then RecordBackgroundError s db else db)
             in (s, cs, db))
           (CompactionRun E S newfile C I shutting_down input cs db))"

definition CleanupCompaction :: "('e, 'w, 'r) Env \<Rightarrow> ('e, 'w) CompactionState \<Rightarrow> ('e, 'w, 'z) DBCore_scheme \<Rightarrow> ('e, 'w, 'z) DBCore_scheme" where
  "CleanupCompaction E cs db =
     (let db = (case cs_builder cs of None \<Rightarrow> db | Some builder \<Rightarrow> set_env (op_delete_writable E (db_env db) (snd (tb_file builder))) db)
      in db\<lparr>db_pending_outputs := db_pending_outputs db - out_number ` set (cs_outputs cs)\<rparr>)"

subsection \<open>What is dropped\<close>

text \<open>The entries that pass, from a state of the dropper.\<close>

primrec Drop_run ::
  "Comparator \<Rightarrow> (nat \<Rightarrow> FileMetaData) \<Rightarrow> nat Version \<Rightarrow> SequenceNumber \<Rightarrow> entries \<Rightarrow> Compaction \<times> Dropper \<Rightarrow> entries" where
  "Drop_run C F v snap [] cd = []"
| "Drop_run C F v snap (e # es) cd =
     (let (drp, cd) = Drop_key C F v snap (fst e) cd in (if drp then [] else [e]) @ Drop_run C F v snap es cd)"

text \<open>The same, without state: an entry is hidden by its predecessor, or a deletion at the base level of its key.\<close>

definition hidden :: "Comparator \<Rightarrow> SequenceNumber \<Rightarrow> ParsedInternalKey option \<Rightarrow> ParsedInternalKey \<Rightarrow> bool" where
  "hidden C snap prev k \<longleftrightarrow> (case prev of None \<Rightarrow> False | Some p \<Rightarrow> Compare C (pik_user_key k) (pik_user_key p) = 0 \<and> pik_sequence p \<le> snap)"

definition obsolete :: "Comparator \<Rightarrow> (nat \<Rightarrow> FileMetaData) \<Rightarrow> nat Version \<Rightarrow> nat \<Rightarrow> SequenceNumber \<Rightarrow> ParsedInternalKey \<Rightarrow> bool" where
  "obsolete C F v lev snap k \<longleftrightarrow> pik_type k = kTypeDeletion \<and> pik_sequence k \<le> snap \<and> base_level C F v lev (pik_user_key k)"

abbreviation entry_key :: "Slice \<times> Slice \<Rightarrow> ParsedInternalKey" where
  "entry_key e \<equiv> the (ParseInternalKey (fst e))"

primrec kept_entries :: "Comparator \<Rightarrow> SequenceNumber \<Rightarrow> (ParsedInternalKey \<Rightarrow> bool) \<Rightarrow> ParsedInternalKey option \<Rightarrow> entries \<Rightarrow> entries" where
  "kept_entries C snap obs prev [] = []"
| "kept_entries C snap obs prev (e # es) =
     (if hidden C snap prev (entry_key e) \<or> obs (entry_key e) then [] else [e]) @ kept_entries C snap obs (Some (entry_key e)) es"

definition parsed_entries :: "entries \<Rightarrow> bool" where
  "parsed_entries es \<longleftrightarrow> (\<forall>e \<in> set es. ParseInternalKey (fst e) \<noteq> None)"

lemma parsed_entries_Cons [simp]: "parsed_entries (e # es) \<longleftrightarrow> ParseInternalKey (fst e) \<noteq> None \<and> parsed_entries es"
  by (simp add: parsed_entries_def)

lemma kept_subset: "set (kept_entries C snap obs prev es) \<subseteq> set es"
  by (induction es arbitrary: prev) auto

text \<open>The dropper after the entry \<open>prev\<close>.\<close>

definition dropper_ok :: "Comparator \<Rightarrow> (nat \<Rightarrow> FileMetaData) \<Rightarrow> nat Version \<Rightarrow> nat \<Rightarrow> ParsedInternalKey option \<Rightarrow> Compaction \<times> Dropper \<Rightarrow> bool" where
  "dropper_ok C F v lev prev = (\<lambda>(c, d). cn_level c = lev \<and>
     (case prev of
        None \<Rightarrow> \<not> dr_has_current_user_key d \<and> (\<forall>u. level_ptrs_ok C F v (cn_level_ptrs c) u)
      | Some p \<Rightarrow> dr_has_current_user_key d \<and> Compare C (pik_user_key p) (dr_current_user_key d) = 0 \<and> dr_last_sequence_for_key d = pik_sequence p
          \<and> level_ptrs_ok C F v (cn_level_ptrs c) (pik_user_key p)))"

context key_comparator
begin

lemma parsed_order:
  assumes "InternalKey_Compare C a b < 0" and "ParseInternalKey a = Some j" and "ParseInternalKey b = Some k"
  shows "Compare C (pik_user_key j) (pik_user_key k) \<le> 0" and "Compare C (pik_user_key j) (pik_user_key k) = 0 \<Longrightarrow> pik_sequence k \<le> pik_sequence j"
proof -
  have "Compare C (pik_user_key j) (pik_user_key k) < 0 \<or> Compare C (pik_user_key j) (pik_user_key k) = 0
      \<and> PackSequenceAndType (pik_sequence k) (pik_type k) < PackSequenceAndType (pik_sequence j) (pik_type j)"
    using assms(1) parsed_key [OF assms(2)] parsed_key [OF assms(3)] by (simp add: InternalKey_Compare_less)
  then show "Compare C (pik_user_key j) (pik_user_key k) \<le> 0"
    and "Compare C (pik_user_key j) (pik_user_key k) = 0 \<Longrightarrow> pik_sequence k \<le> pik_sequence j"
    using unat_Pack [OF parsed_key(3) [OF assms(2)], of "pik_type j"] unat_Pack [OF parsed_key(3) [OF assms(3)], of "pik_type k"]
    by (auto simp: word_less_nat_alt word_le_nat_alt) (cases "pik_type j"; cases "pik_type k"; simp)
qed

lemma level_ptrs_ok_mono: "level_ptrs_ok C F v ptrs u \<Longrightarrow> Compare C u w \<le> 0 \<Longrightarrow> level_ptrs_ok C F v ptrs w"
  using passed_mono by (auto simp: level_ptrs_ok_def)

lemma IsBaseLevelForKey_ok:
  assumes "\<forall>lvl \<in> {cn_level c + 2..<kNumLevels}. disjoint_sorted C (map F (v_files v ! lvl))" and "level_ptrs_ok C F v (cn_level_ptrs c) u"
  shows "\<exists>ptrs. IsBaseLevelForKey C F v c u = (base_level C F v (cn_level c) u, c\<lparr>cn_level_ptrs := ptrs\<rparr>) \<and> level_ptrs_ok C F v ptrs u"
  using BaseLevel_levels_spec [of "[cn_level c + 2..<kNumLevels]" F v "cn_level_ptrs c" u] assms
  by (auto simp: IsBaseLevelForKey_def base_level_def split: prod.splits)

lemma same_key_trans: "Compare C a b = 0 \<Longrightarrow> Compare C b c = 0 \<Longrightarrow> Compare C a c = 0"
  using Compare_le_trans [of a b c] Compare_le_trans [of c b a] user.cmp_zero_swap [of a b] user.cmp_zero_swap [of b c] user.cmp_ge_swap [of a c] by simp

lemma Drop_key_ok:
  assumes "dropper_ok C F v lev prev (c, d)" and k: "ParseInternalKey key = Some k" and snap: "snap < kMaxSequenceNumber"
    and "\<forall>p. prev = Some p \<longrightarrow> Compare C (pik_user_key p) (pik_user_key k) \<le> 0"
    and dj: "\<forall>lvl \<in> {lev + 2..<kNumLevels}. disjoint_sorted C (map F (v_files v ! lvl))"
  shows "\<exists>ptrs d'. Drop_key C F v snap key (c, d) = (hidden C snap prev k \<or> obsolete C F v lev snap k, c\<lparr>cn_level_ptrs := ptrs\<rparr>, d')
    \<and> dropper_ok C F v lev (Some k) (c\<lparr>cn_level_ptrs := ptrs\<rparr>, d')"
proof -
  have lev: "cn_level c = lev" using assms(1) by (simp add: dropper_ok_def)
  have ptrs: "level_ptrs_ok C F v (cn_level_ptrs c) (pik_user_key k)"
    using assms(1,4) level_ptrs_ok_mono by (cases prev) (auto simp: dropper_ok_def)
  define d1 where "d1 = Dropper_enter C (pik_user_key k) d"
  have cur: "Compare C (pik_user_key k) (dr_current_user_key d1) = 0" "dr_has_current_user_key d1" by (auto simp: d1_def Dropper_enter_def)
  have hid: "dr_last_sequence_for_key d1 \<le> snap \<longleftrightarrow> hidden C snap prev k"
  proof (cases prev)
    case None
    then show ?thesis using assms(1) snap by (auto simp: dropper_ok_def d1_def Dropper_enter_def hidden_def)
  next
    case (Some p)
    then have p: "dr_has_current_user_key d" "Compare C (pik_user_key p) (dr_current_user_key d) = 0" "dr_last_sequence_for_key d = pik_sequence p"
      using assms(1) by (auto simp: dropper_ok_def)
    have "Compare C (pik_user_key k) (dr_current_user_key d) = 0 \<longleftrightarrow> Compare C (pik_user_key k) (pik_user_key p) = 0"
      using p(2) same_key_trans user.cmp_zero_swap by blast
    then show ?thesis using p Some snap by (auto simp: d1_def Dropper_enter_def hidden_def)
  qed
  obtain ptrs where b: "IsBaseLevelForKey C F v c (pik_user_key k) = (base_level C F v lev (pik_user_key k), c\<lparr>cn_level_ptrs := ptrs\<rparr>)"
    "level_ptrs_ok C F v ptrs (pik_user_key k)"
    using IsBaseLevelForKey_ok [OF _ ptrs] dj lev by auto
  have unf: "Drop_key C F v snap key (c, d) = (let (drp, c) =
      (if hidden C snap prev k then (True, c)
       else if pik_type k = kTypeDeletion \<and> pik_sequence k \<le> snap then (base_level C F v lev (pik_user_key k), c\<lparr>cn_level_ptrs := ptrs\<rparr>)
       else (False, c)) in (drp, c, d1\<lparr>dr_last_sequence_for_key := pik_sequence k\<rparr>))"
    unfolding hid [symmetric] b(1) [symmetric] by (simp add: Drop_key_def k d1_def Let_def)
  have c: "c\<lparr>cn_level_ptrs := cn_level_ptrs c\<rparr> = c" by simp
  let ?q = "\<not> hidden C snap prev k \<and> pik_type k = kTypeDeletion \<and> pik_sequence k \<le> snap"
  let ?ptrs = "if ?q then ptrs else cn_level_ptrs c"
  show ?thesis
    by (rule exI [of _ ?ptrs], rule exI [of _ "d1\<lparr>dr_last_sequence_for_key := pik_sequence k\<rparr>"])
      (use unf ptrs b(2) cur lev in \<open>auto simp: obsolete_def dropper_ok_def\<close>)
qed

lemma Drop_run_kept:
  assumes "dropper_ok C F v lev prev cd" and "entries_sorted (InternalKey_Compare C) es" and "parsed_entries es" and snap: "snap < kMaxSequenceNumber"
    and "\<forall>p e. prev = Some p \<longrightarrow> e \<in> set es \<longrightarrow> Compare C (pik_user_key p) (pik_user_key (entry_key e)) \<le> 0"
    and dj: "\<forall>lvl \<in> {lev + 2..<kNumLevels}. disjoint_sorted C (map F (v_files v ! lvl))"
  shows "Drop_run C F v snap es cd = kept_entries C snap (obsolete C F v lev snap) prev es"
  using assms(1-3,5)
proof (induction es arbitrary: prev cd)
  case (Cons e es)
  obtain c d where cd: "cd = (c, d)" by fastforce
  obtain k where k: "ParseInternalKey (fst e) = Some k" using Cons.prems(3) by auto
  have le: "\<forall>p. prev = Some p \<longrightarrow> Compare C (pik_user_key p) (pik_user_key k) \<le> 0"
    using Cons.prems(4) [rule_format, of _ e] k by simp
  obtain ptrs d' where dk: "Drop_key C F v snap (fst e) (c, d) = (hidden C snap prev k \<or> obsolete C F v lev snap k, c\<lparr>cn_level_ptrs := ptrs\<rparr>, d')"
    "dropper_ok C F v lev (Some k) (c\<lparr>cn_level_ptrs := ptrs\<rparr>, d')"
    using Drop_key_ok [OF Cons.prems(1) [unfolded cd] k snap le dj] by blast
  have "Compare C (pik_user_key k) (pik_user_key (entry_key x)) \<le> 0" if "x \<in> set es" for x
    using Cons.prems(2,3) k that parsed_order(1) [of "fst e" "fst x" k] by (auto simp: entries_sorted_def parsed_entries_def)
  then have "Drop_run C F v snap es (c\<lparr>cn_level_ptrs := ptrs\<rparr>, d') = kept_entries C snap (obsolete C F v lev snap) (Some k) es"
    using Cons.prems(2,3) by (intro Cons.IH [OF dk(2)]) (auto simp: entries_sorted_def)
  then show ?case using dk(1) k cd by simp
qed simp

text \<open>Below an entry that is old enough nothing of its user key is kept.\<close>

lemma kept_hides:
  assumes "sorted_wrt (\<lambda>a b. InternalKey_Compare C (fst a) (fst b) < 0) (p # es)" and "parsed_entries (p # es)"
    and "Compare C (pik_user_key (entry_key p)) u = 0" and "pik_sequence (entry_key p) \<le> snap"
  shows "find (visible_for C u s) (kept_entries C snap obs (Some (entry_key p)) es) = None"
  using assms
proof (induction es arbitrary: p)
  case (Cons e es)
  obtain j k where jk: "ParseInternalKey (fst p) = Some j" "ParseInternalKey (fst e) = Some k" using Cons.prems(2) by auto
  note o = parsed_order [of "fst p" "fst e", OF _ jk]
  show ?case
  proof (cases "Compare C (pik_user_key k) u = 0")
    case True
    then have same: "Compare C (pik_user_key j) (pik_user_key k) = 0"
      using same_key_trans [of "pik_user_key j" u "pik_user_key k"] user.cmp_zero_swap [of "pik_user_key k" u] Cons.prems(3) jk(1) by simp
    then have "pik_sequence k \<le> pik_sequence j" using o(2) Cons.prems(1) by simp
    then have "pik_sequence k \<le> snap" using Cons.prems(4) jk(1) by simp
    then have "find (visible_for C u s) (kept_entries C snap obs (Some (entry_key e)) es) = None"
      using Cons.prems(1,2) True jk by (intro Cons.IH) auto
    moreover have "hidden C snap (Some j) k" using same Cons.prems(4) jk user.cmp_zero_swap by (simp add: hidden_def)
    ultimately show ?thesis using jk by simp
  next
    case False
    have "Compare C u (pik_user_key k) \<le> 0"
      using o(1) Cons.prems(1,3) jk(1) Compare_le_trans [of u "pik_user_key j" "pik_user_key k"] user.cmp_zero_swap [of u "pik_user_key j"] by simp
    then have lt: "Compare C u (pik_user_key k) < 0" using False user.cmp_zero_swap by (metis less_le)
    have "\<not> visible_for C u s x" if x: "x \<in> set (e # es)" for x
    proof -
      obtain m where m: "ParseInternalKey (fst x) = Some m" using Cons.prems(2) x by (auto simp: parsed_entries_def)
      have "Compare C (pik_user_key k) (pik_user_key m) \<le> 0"
        using x m jk Cons.prems(1) parsed_order(1) [of "fst e" "fst x" k m] by auto
      then have "Compare C u (pik_user_key m) < 0" using lt user.cmp_less_le_trans by blast
      then show ?thesis using m user.cmp_zero_swap by (auto simp: visible_for_def)
    qed
    then show ?thesis using kept_subset [of C snap obs "Some (entry_key p)" "e # es"] by (auto simp: find_None_iff)
  qed
qed simp

text \<open>The first visible entry is kept, unless it is an obsolete deletion; then nothing of its user key is visible.\<close>

lemma kept_visible:
  assumes "sorted_wrt (\<lambda>a b. InternalKey_Compare C (fst a) (fst b) < 0) es" and "parsed_entries es" and "snap \<le> s"
    and obs: "\<And>k. obs k \<Longrightarrow> pik_sequence k \<le> snap"
    and "\<forall>p. prev = Some p \<longrightarrow> \<not> (Compare C (pik_user_key p) u = 0 \<and> pik_sequence p \<le> snap)"
  shows "find (visible_for C u s) (kept_entries C snap obs prev es)
    = (case find (visible_for C u s) es of None \<Rightarrow> None | Some e \<Rightarrow> if obs (entry_key e) then None else Some e)"
  using assms(1,2,5)
proof (induction es arbitrary: prev)
  case (Cons e es)
  obtain k where k: "ParseInternalKey (fst e) = Some k" using Cons.prems(2) by auto
  show ?case
  proof (cases "visible_for C u s e")
    case True
    then have vis: "Compare C (pik_user_key k) u = 0" "pik_sequence k \<le> s" using k by (auto simp: visible_for_def)
    have nh: "\<not> hidden C snap prev k"
    proof
      assume "hidden C snap prev k"
      then obtain p where p: "prev = Some p" "Compare C (pik_user_key k) (pik_user_key p) = 0" "pik_sequence p \<le> snap"
        by (auto simp: hidden_def split: option.splits)
      then have "Compare C (pik_user_key p) u = 0"
        using same_key_trans [of "pik_user_key p" "pik_user_key k" u] user.cmp_zero_swap [of "pik_user_key k"] vis(1) by simp
      then show False using Cons.prems(3) p by simp
    qed
    show ?thesis
    proof (cases "obs k")
      case o: True
      have "find (visible_for C u s) (kept_entries C snap obs (Some (entry_key e)) es) = None"
        using Cons.prems(1,2) vis k obs [OF o] by (intro kept_hides) auto
      then show ?thesis using o True k by simp
    next
      case o: False
      then show ?thesis using nh True k by simp
    qed
  next
    case False
    then have "\<not> (Compare C (pik_user_key k) u = 0 \<and> pik_sequence k \<le> snap)" using k assms(3) by (auto simp: visible_for_def)
    then have "find (visible_for C u s) (kept_entries C snap obs (Some k) es)
        = (case find (visible_for C u s) es of None \<Rightarrow> None | Some e \<Rightarrow> if obs (entry_key e) then None else Some e)"
      using Cons.prems(1,2) by (intro Cons.IH) auto
    then show ?thesis using False k by simp
  qed
qed simp

lemma base_level_invisible:
  assumes "base_level C F v lev u" and "s \<le> kMaxSequenceNumber"
    and f: "\<forall>lvl \<in> {lev + 2..<kNumLevels}. \<forall>p \<in> set (v_files v ! lvl). file_sorted C T (F p)"
  shows "find (visible_for C u s) (version_entries T F v [lev + 2..<kNumLevels]) = None"
proof -
  have "find (visible_for C u s) (entries_of T F (level_order F lvl (v_files v ! lvl))) = None" if "lvl \<in> {lev + 2..<kNumLevels}" for lvl
  proof (rule find_concat_None)
    fix p assume "p \<in> set (level_order F lvl (v_files v ! lvl))"
    then have p: "p \<in> set (v_files v ! lvl)" using that by (simp add: level_order_def)
    then have "\<not> overlaps C (Some u) (Some u) (F p)" using assms(1) that by (auto simp: base_level_def)
    then have "Compare C u (smallest_user (F p)) < 0 \<or> Compare C u (largest_user (F p)) > 0"
      using Compare_swap by (auto simp: overlaps_one not_le)
    then show "find (visible_for C u s) (file_entries_of T (F p)) = None" using no_visible_outside [OF _ assms(2)] f that p by blast
  qed
  then show ?thesis unfolding version_entries_def by (intro find_concat_None [where E = "\<lambda>lvl. entries_of T F (level_order F lvl (v_files v ! lvl))"]) simp
qed

end

text \<open>The value that a lookup of \<open>u\<close> at the sequence number \<open>s\<close> gives, if any.\<close>

definition lookup_value :: "Comparator \<Rightarrow> Slice \<Rightarrow> SequenceNumber \<Rightarrow> entries \<Rightarrow> Slice option" where
  "lookup_value C u s es = (case find (visible_for C u s) es of None \<Rightarrow> None
     | Some e \<Rightarrow> if pik_type (entry_key e) = kTypeValue then Some (snd e) else None)"

lemma Drop_start:
  assumes "key_comparator C" and "entries_sorted (InternalKey_Compare C) es" and "parsed_entries es" and "snap < kMaxSequenceNumber"
    and "\<forall>lvl \<in> {lev + 2..<kNumLevels}. disjoint_sorted C (map F (v_files v ! lvl))"
    and "cn_level c = lev" and "cn_level_ptrs c = replicate kNumLevels 0"
  shows "Drop_run C F v snap es (c, Dropper_make) = kept_entries C snap (obsolete C F v lev snap) None es"
  using assms by (intro key_comparator.Drop_run_kept) (auto simp: dropper_ok_def Dropper_make_def level_ptrs_ok_def passed_def)

text \<open>
  C2.  A compaction does not change what readers see.  Let \<open>es\<close> be the entries of the inputs of a compaction, in order, \<open>upper\<close> what is searched before
  them, \<open>beside\<close> what is searched after them in the same levels and has none of their user keys, and let the files at and below \<open>level + 2\<close> be sorted and
  disjoint.  For every user key and every sequence number not below the oldest snapshot a lookup after the entries were dropped that
  \<^verbatim>\<open>DoCompactionWork\<close> drops gives the same value, or the same absence, as before.
\<close>

theorem compaction_preserves_lookups:
  assumes C: "key_comparator C" and so: "entries_sorted (InternalKey_Compare C) es" and pa: "parsed_entries es"
    and snap: "snap < kMaxSequenceNumber" "snap \<le> s" "s \<le> kMaxSequenceNumber"
    and dj: "\<forall>lvl \<in> {lev + 2..<kNumLevels}. disjoint_sorted C (map F (v_files v ! lvl))"
    and fs: "\<forall>lvl \<in> {lev + 2..<kNumLevels}. \<forall>p \<in> set (v_files v ! lvl). file_sorted C T (F p)"
    and beside: "\<forall>e \<in> set es. \<forall>d \<in> set beside. Compare C (ExtractUserKey (fst d)) (ExtractUserKey (fst e)) \<noteq> 0"
  shows "lookup_value C u s (upper @ Drop_run C F v snap es (Compaction_make lev, Dropper_make) @ beside @ version_entries T F v [lev + 2..<kNumLevels])
    = lookup_value C u s (upper @ es @ beside @ version_entries T F v [lev + 2..<kNumLevels])"
proof -
  let ?obs = "obsolete C F v lev snap" and ?below = "version_entries T F v [lev + 2..<kNumLevels]"
  have run: "Drop_run C F v snap es (Compaction_make lev, Dropper_make) = kept_entries C snap ?obs None es"
    using C so pa snap(1) dj by (intro Drop_start) (simp_all add: Compaction_make_def)
  have kept: "find (visible_for C u s) (kept_entries C snap ?obs None es)
    = (case find (visible_for C u s) es of None \<Rightarrow> None | Some e \<Rightarrow> if ?obs (entry_key e) then None else Some e)"
    using so pa snap(2) by (intro key_comparator.kept_visible [OF C]) (auto simp: entries_sorted_def obsolete_def)
  have "find (visible_for C u s) (beside @ ?below) = None \<and> pik_type (entry_key e) = kTypeDeletion"
    if e: "find (visible_for C u s) es = Some e" and obs: "?obs (entry_key e)" for e
  proof -
    obtain k where k: "ParseInternalKey (fst e) = Some k" "Compare C (pik_user_key k) u = 0" by (rule find_visible_parse [OF e])
    have same: "Compare C w (pik_user_key k) = 0" if "Compare C w u = 0" for w
      using key_comparator.same_key_trans [OF C that] k(2) comparator.cmp_zero_swap [OF key_comparator.user_order [OF C]] by blast
    have eq: "visible_for C u s = visible_for C (pik_user_key k) s"
      using same key_comparator.same_key_trans [OF C _ k(2)] by (auto simp: visible_for_def fun_eq_iff split: option.splits)
    have "find (visible_for C u s) ?below = None"
      unfolding eq using obs k(1) by (intro key_comparator.base_level_invisible [OF C _ snap(3) fs]) (simp add: obsolete_def)
    moreover have "e \<in> set es" using e by (auto simp: find_Some_iff)
    then have "\<not> visible_for C u s d" if "d \<in> set beside" for d
      using beside that same parsed_key(1) [OF k(1)] parsed_key(1) [of "fst d"] by (fastforce simp: visible_for_def split: option.splits)
    then have "find (visible_for C u s) beside = None" by (simp add: find_None_iff)
    ultimately show ?thesis using obs by (simp add: find_append obsolete_def)
  qed
  then show ?thesis using kept unfolding run lookup_value_def
    by (cases "find (visible_for C u s) es") (auto simp: find_append split: option.splits)
qed

definition sample_entries :: entries where
  "sample_entries = [(InternalKey_make [1] 5 kTypeValue, [10]), (InternalKey_make [1] 3 kTypeValue, [11]), (InternalKey_make [2] 4 kTypeDeletion, [])]"

lemma sample_entries_ok: "entries_sorted (InternalKey_Compare BytewiseComparator) sample_entries" "parsed_entries sample_entries"
proof -
  have "InternalKey_Compare BytewiseComparator (InternalKey_make [1] 5 kTypeValue) (InternalKey_make [1] 3 kTypeValue) < 0"
    using bytewise.user.cmp_refl [of "[1]"] by (simp add: InternalKey_Compare_less InternalKey_make_def AppendInternalKey_eq PackSequenceAndType_def del: append_Cons)
  then show "entries_sorted (InternalKey_Compare BytewiseComparator) sample_entries"
    using sample_key [of 5 1 kTypeValue] sample_key [of 3 1 kTypeValue] sample_key [of 4 2 kTypeDeletion]
    by (simp add: sample_entries_def entries_sorted_def sample_order kMaxSequenceNumber_def)
  show "parsed_entries sample_entries"
    using sample_key [of 5 1 kTypeValue] sample_key [of 3 1 kTypeValue] sample_key [of 4 2 kTypeDeletion]
    by (simp add: sample_entries_def kMaxSequenceNumber_def parsed_entries_def)
qed

lemma sample_parse:
  "ParseInternalKey (InternalKey_make [1] 5 kTypeValue) = Some \<lparr>pik_user_key = [1], pik_sequence = 5, pik_type = kTypeValue\<rparr>"
  "ParseInternalKey (InternalKey_make [1] 3 kTypeValue) = Some \<lparr>pik_user_key = [1], pik_sequence = 3, pik_type = kTypeValue\<rparr>"
  "ParseInternalKey (InternalKey_make [2] 4 kTypeDeletion) = Some \<lparr>pik_user_key = [2], pik_sequence = 4, pik_type = kTypeDeletion\<rparr>"
  by code_simp+

text \<open>The second entry is hidden by the first, and the deletion is at its base level.\<close>

lemma sample_kept:
  assumes "\<And>u. base_level BytewiseComparator F v 0 u"
  shows "kept_entries BytewiseComparator 7 (obsolete BytewiseComparator F v 0 7) None sample_entries = [(InternalKey_make [1] 5 kTypeValue, [10])]"
proof -
  have "Slice_compare [1] [1] = 0" "Slice_compare [2] [1] \<noteq> 0" by code_simp+
  then show ?thesis using assms by (simp add: sample_entries_def sample_parse hidden_def obsolete_def)
qed

theorem compaction_preserves_lookups_witness:
  "lookup_value BytewiseComparator [1] 9 (Drop_run BytewiseComparator base_deref Version_make 7 sample_entries (Compaction_make 0, Dropper_make))
     = lookup_value BytewiseComparator [1] 9 sample_entries"
proof -
  have "(7 :: u64) < kMaxSequenceNumber" "(9 :: u64) \<le> kMaxSequenceNumber" by code_simp+
  moreover have "version_entries Map.empty base_deref Version_make [0 + 2..<kNumLevels] = []"
    by (auto simp: version_entries_def level_order_def Version_make_def)
  moreover have "\<forall>lvl \<in> {0 + 2..<kNumLevels}. disjoint_sorted BytewiseComparator (map base_deref (v_files Version_make ! lvl))"
    "\<forall>lvl \<in> {0 + 2..<kNumLevels}. \<forall>p \<in> set (v_files Version_make ! lvl). file_sorted BytewiseComparator Map.empty (base_deref p)"
    by (simp_all add: Version_make_def disjoint_sorted_def)
  ultimately show ?thesis
    using compaction_preserves_lookups [OF bytewise.key_comparator_axioms sample_entries_ok, of 7 9 0 base_deref Version_make Map.empty "[]" "[1]" "[]"] by simp
qed

end
