(* ===== verification/DoCompaction_Correct.thy ===== *)
theory DoCompaction_Correct
  imports DoCompaction
begin

text \<open>
  The tables that a compaction writes: over an environment in which every call may fail, if the work of a compaction succeeds then the
  outputs are tables that hold, one after the other, the entries that the compaction keeps.
\<close>

subsection \<open>Environments\<close>

locale table_env = file_env E files einvar wopen ropen + random_access_env newfile files einvar
  for E :: "('e, 'w, 'r) Env" and files einvar wopen ropen newfile +
  assumes append_exists: "einvar e \<Longrightarrow> wopen e w f \<Longrightarrow> op_Append E e w d = (s, e') \<Longrightarrow> files e f \<noteq> None \<Longrightarrow> files e' f \<noteq> None"
    and flush_exists: "einvar e \<Longrightarrow> wopen e w f \<Longrightarrow> op_Flush E e w = (s, e') \<Longrightarrow> files e f \<noteq> None \<Longrightarrow> files e' f \<noteq> None"
begin

text \<open>A file that is being written, while the other files are those of \<open>G\<close>.\<close>

definition out_inv :: "(bytes \<Rightarrow> bytes option) \<Rightarrow> bytes \<Rightarrow> 'w \<Rightarrow> 'e \<times> 'w \<Rightarrow> bool" where
  "out_inv G f w = (\<lambda>(e, h). h = w \<and> einvar e \<and> wopen e h f \<and> files e f \<noteq> None \<and> (\<forall>g. g \<noteq> f \<longrightarrow> files e g = G g))"

definition out_content :: "bytes \<Rightarrow> 'e \<times> 'w \<Rightarrow> bytes" where
  "out_content f = (\<lambda>(e, h). the (files e f))"

lemma out_fallible: "fallible_file (env_append E) (env_flush E) (out_content f) (out_inv G f w)"
proof
  fix x d s x'
  assume i: "out_inv G f w x" and a: "env_append E x d = (s, x')"
  obtain e h e' where x: "x = (e, h)" "x' = (e', h)" "op_Append E e h d = (s, e')"
    using a by (cases x) (auto simp: env_append_def split: prod.splits)
  then show "out_inv G f w x' \<and> (Status_ok s \<longrightarrow> out_content f x' = out_content f x @ d)"
    using i append [of e h f d s e'] append_exists [of e h f d s e'] by (auto simp: out_inv_def out_content_def)
next
  fix x s x'
  assume i: "out_inv G f w x" and a: "env_flush E x = (s, x')"
  obtain e h e' where x: "x = (e, h)" "x' = (e', h)" "op_Flush E e h = (s, e')"
    using a by (cases x) (auto simp: env_flush_def split: prod.splits)
  then show "out_inv G f w x' \<and> (Status_ok s \<longrightarrow> out_content f x' = out_content f x)"
    using i flush_file [of e h f s e'] flush_exists [of e h f s e'] by (auto simp: out_inv_def out_content_def)
qed

end

subsection \<open>Checking a table\<close>

text \<open>Opening a table returns: without a filter policy always, and a sound table of less than 4 GB with one.\<close>

lemma Table_Open_no_filter: "opt_filter_policy opt = None \<Longrightarrow> \<exists>r. Table_Open S opt f n c = Some r"
  by (auto simp: Table_Open_def ReadMeta_def Let_def split: prod.splits option.splits)

definition openable :: "Options \<Rightarrow> bytes \<Rightarrow> bool" where
  "openable opt c \<longleftrightarrow> opt_filter_policy opt = None \<or> length c < 2 ^ 32"

context table_env
begin

lemma check_table_returns:
  assumes env: "einvar (tc_env tc)" and c: "files (tc_env tc) (TableFileName (tc_dbname tc) n) = Some c"
    and t: "table_file S (tc_options tc) c bs ks" and sz: "sz = of_nat (length c)" and op: "openable (tc_options tc) c"
    and S: "snappy_ok S" and C: "key_comparator (opt_comparator (tc_options tc))" and r: "0 < opt_block_restart_interval (tc_options tc)"
  shows "\<exists>s tc'. check_table S newfile tc n sz = Some (s, tc') \<and> einvar (tc_env tc') \<and> files (tc_env tc') = files (tc_env tc)
    \<and> tc_dbname tc' = tc_dbname tc \<and> tc_options tc' = tc_options tc"
proof -
  let ?opt = "tc_options tc"
  obtain h cache where look: "Cache_Lookup (tc_cache tc) (EncodeFixed64 n) = (h, cache)" by fastforce
  show ?thesis
  proof (cases h)
    case (Some h)
    then show ?thesis using look env by (simp add: check_table_def FindTable_def)
  next
    case None
    have "table_contents files (tc\<lparr>tc_cache := cache\<rparr>) n = Some c" using c by (simp add: table_contents_def)
    then obtain fl e where o: "open_table_file newfile (tc\<lparr>tc_cache := cache\<rparr>) n = (Inr fl, e)" "readable fl c" "einvar e" "files e = files (tc_env tc)"
      using open_table_file [of "tc\<lparr>tc_cache := cache\<rparr>" n c] env by auto
    have "\<exists>r. Table_Open S ?opt fl (unat sz) (tc_block_cache tc) = Some r"
    proof (cases "opt_filter_policy ?opt = None")
      case False
      then have l: "length c < 2 ^ 32" using op by (auto simp: openable_def)
      then have "unat sz = length c" unfolding sz by (simp add: unat_of_nat)
      moreover obtain t' bc where "Table_Open S ?opt fl (length c) (tc_block_cache tc) = Some (Status_OK, Some t', bc)"
        by (rule Table_Open_holds [OF t o(2) l S key_comparator.user_order [OF C] r])
      ultimately show ?thesis by simp
    qed (rule Table_Open_no_filter)
    then obtain s t bc where "Table_Open S ?opt fl (unat sz) (tc_block_cache tc) = Some (s, t, bc)" by auto
    then show ?thesis using look None o by (auto simp: check_table_def FindTable_def Let_def split: prod.splits)
  qed
qed

end

subsection \<open>The outputs\<close>

text \<open>An output is a table in the files \<open>M\<close> with the entries \<open>es\<close>.\<close>

definition output_holds :: "Snappy \<Rightarrow> Options \<Rightarrow> bytes \<Rightarrow> (bytes \<Rightarrow> bytes option) \<Rightarrow> Output \<times> entries \<Rightarrow> bool" where
  "output_holds S opt dbname M = (\<lambda>(out, es). \<exists>c bs ks. M (TableFileName dbname (out_number out)) = Some c \<and> table_file S opt c bs ks
     \<and> concat (map fst bs) = es \<and> out_file_size out = of_nat (length c) \<and> es \<noteq> [] \<and> out_smallest out = fst (hd es) \<and> out_largest out = fst (last es))"

text \<open>What the loop leaves alone of the database.\<close>

definition db_frame :: "bytes \<Rightarrow> Options \<Rightarrow> 'w VersionSet \<Rightarrow> ('e, 'w, 'z) DBCore_scheme \<Rightarrow> bool" where
  "db_frame dbname opt vs0 db \<longleftrightarrow> db_dbname db = dbname \<and> db_options db = opt
     \<and> (\<exists>n. db_versions db = vs0\<lparr>vs_next_file_number := n\<rparr>) \<and> unat (vs_next_file_number vs0) \<le> unat (vs_next_file_number (db_versions db))"

abbreviation db_next :: "('e, 'w, 'z) DBCore_scheme \<Rightarrow> nat" where
  "db_next db \<equiv> unat (vs_next_file_number (db_versions db))"

definition broken :: "('e, 'w) CompactionState \<Rightarrow> bool" where
  "broken cs \<longleftrightarrow> (\<exists>b. cs_builder cs = Some b \<and> \<not> TableBuilder_ok b)"

lemma set_env_simps [simp]:
  "db_table_cache (set_env e db) = (db_table_cache db)\<lparr>tc_env := e\<rparr>" "db_versions (set_env e db) = db_versions db"
  "db_frame dbname opt vs0 (set_env e db) = db_frame dbname opt vs0 db"
  by (simp_all add: set_env_def db_frame_def)

lemma update_output_simps [simp]:
  "cs_compaction (update_output f cs) = cs_compaction cs" "cs_builder (update_output f cs) = cs_builder cs"
  "cs_smallest_snapshot (update_output f cs) = cs_smallest_snapshot cs"
  "cs_outputs (update_output f cs) = butlast (cs_outputs cs) @ [f (last (cs_outputs cs))]"
  by (simp_all add: update_output_def)

lemma TableFileName_inj: "TableFileName dbname m = TableFileName dbname n \<Longrightarrow> m = n"
proof -
  have "\<not> is_digit (hd (str ''.'' @ str ''ldb''))" by (simp add: str_letters is_digit_def)
  note P = ParseFileName_number [OF disjI2 [OF this]]
  assume "TableFileName dbname m = TableFileName dbname n"
  then have "ParseFileName (drop (length dbname + 1) (TableFileName dbname m)) = ParseFileName (drop (length dbname + 1) (TableFileName dbname n))" by simp
  then show "m = n" unfolding TableFileName_def MakeFileName_def drop_name P by (simp add: str_letters)
qed

lemma Adds_snoc: "TableBuilder_Adds fa ff S r (es @ [(k, v)]) = TableBuilder_Add fa ff S (TableBuilder_Adds fa ff S r es) k v"
  by (simp add: TableBuilder_Adds_def)

lemma NumEntries_Flush: "tb_num_entries (TableBuilder_Flush fa ff S r) = tb_num_entries r"
  by (simp add: TableBuilder_Flush_def WriteBlock_def WriteRawBlock_def filter_StartBlock_def Let_def split: prod.splits)

lemma NumEntries_Add: "TableBuilder_ok r \<Longrightarrow> NumEntries (TableBuilder_Add fa ff S r k v) = NumEntries r + 1"
  by (simp add: TableBuilder_Add_def NumEntries_def NumEntries_Flush add_index_entry_def Let_def)

text \<open>Options with which tables can be written and opened again.\<close>

definition tables_wf :: "Snappy \<Rightarrow> Options \<Rightarrow> bool" where
  "tables_wf S opt \<longleftrightarrow> snappy_ok S \<and> key_comparator (opt_comparator opt) \<and> 0 < opt_block_restart_interval opt \<and> (\<forall>c. openable opt c)"

lemma sorted_prefix: "entries_sorted cmp (xs @ ys) \<Longrightarrow> entries_sorted cmp xs"
  by (auto simp: entries_sorted_def sorted_wrt_append)

lemma sorted_suffix: "entries_sorted cmp (xs @ ys) \<Longrightarrow> entries_sorted cmp ys"
  by (auto simp: entries_sorted_def sorted_wrt_append)

text \<open>What the loop leaves alone of the compaction.\<close>

definition same_inputs :: "Compaction \<Rightarrow> Compaction \<Rightarrow> bool" where
  "same_inputs c c' \<longleftrightarrow> cn_level c' = cn_level c \<and> cn_edit c' = cn_edit c \<and> cn_inputs0 c' = cn_inputs0 c \<and> cn_inputs1 c' = cn_inputs1 c"

text \<open>The state of the loop that decides what is dropped, after the entry \<open>prev\<close>.\<close>

definition dropping ::
  "Comparator \<Rightarrow> 'w VersionSet \<Rightarrow> nat \<Rightarrow> nat \<Rightarrow> SequenceNumber \<Rightarrow> Compaction \<Rightarrow> ParsedInternalKey option \<Rightarrow> ('e, 'w) CompactionState \<Rightarrow> Dropper \<Rightarrow> bool" where
  "dropping C vs0 lev iv snap c0 prev cs d \<longleftrightarrow> dropper_ok C (vs_deref vs0) (version_at vs0 iv) lev prev (cs_compaction cs, d)
     \<and> the (cn_input_version (cs_compaction cs)) = iv \<and> cs_smallest_snapshot cs = snap \<and> same_inputs c0 (cs_compaction cs)"

lemma ShouldStopBefore_fields:
  assumes "ShouldStopBefore C F c key = (stop, c')"
  shows "cn_level c' = cn_level c" "cn_level_ptrs c' = cn_level_ptrs c" "cn_input_version c' = cn_input_version c" "same_inputs c c'"
  using assms by (auto simp: ShouldStopBefore_def same_inputs_def Let_def split: prod.splits if_splits)

lemma dropper_ok_cong:
  "cn_level c' = cn_level c \<Longrightarrow> cn_level_ptrs c' = cn_level_ptrs c \<Longrightarrow> dropper_ok C F v lev prev (c', d) = dropper_ok C F v lev prev (c, d)"
  by (simp add: dropper_ok_def split: option.splits)

lemma kept_sorted: "entries_sorted cmp es \<Longrightarrow> entries_sorted cmp (kept_entries C snap obs prev es)"
proof (induction es arbitrary: prev)
  case (Cons e es)
  have "entries_sorted cmp (kept_entries C snap obs (Some (entry_key e)) es)" using Cons by (auto simp: entries_sorted_def)
  then show ?case using Cons.prems kept_subset [of C snap obs "Some (entry_key e)" es] by (auto simp: entries_sorted_def)
qed (simp add: entries_sorted_def)

lemma length_kept: "length (kept_entries C snap obs prev es) \<le> length es"
  by (induction es arbitrary: prev) (auto intro: le_SucI)

context table_env
begin

text \<open>
  The state of the outputs: \<open>fin\<close> are the finished tables with their entries, \<open>cur\<close> the entries that were added to the open one.
\<close>

definition open_output :: "Snappy \<Rightarrow> Options \<Rightarrow> bytes \<Rightarrow> (Output \<times> entries) list \<Rightarrow> entries \<Rightarrow> Output \<Rightarrow> ('e \<times> 'w) TableBuilder \<Rightarrow> bool" where
  "open_output S opt dbname fin cur out b \<longleftrightarrow> TableBuilder_ok b \<and> NumEntries b = of_nat (length cur)
     \<and> (cur \<noteq> [] \<longrightarrow> out_smallest out = fst (hd cur) \<and> out_largest out = fst (last cur))
     \<and> (\<exists>f0 G. out_inv G (TableFileName dbname (out_number out)) (snd f0) f0 \<and> out_content (TableFileName dbname (out_number out)) f0 = []
          \<and> b = TableBuilder_Adds (env_append E) (env_flush E) S (TableBuilder_make opt f0) cur
          \<and> (\<forall>x \<in> set fin. output_holds S opt dbname G x))"

definition writing ::
  "Snappy \<Rightarrow> Options \<Rightarrow> bytes \<Rightarrow> nat \<Rightarrow> (Output \<times> entries) list \<Rightarrow> entries \<Rightarrow> ('e, 'w) CompactionState \<Rightarrow> ('e, 'w, 'z) DBCore_scheme \<Rightarrow> bool" where
  "writing S opt dbname lo fin cur cs db \<longleftrightarrow>
     distinct (map out_number (cs_outputs cs)) \<and> (\<forall>out \<in> set (cs_outputs cs). lo \<le> unat (out_number out) \<and> unat (out_number out) < db_next db)
     \<and> (case cs_builder cs of
          None \<Rightarrow> cs_outputs cs = map fst fin \<and> cur = [] \<and> einvar (db_env db) \<and> (\<forall>x \<in> set fin. output_holds S opt dbname (files (db_env db)) x)
        | Some b \<Rightarrow> \<exists>out. cs_outputs cs = map fst fin @ [out] \<and> db_env db = fst (tb_file b) \<and> open_output S opt dbname fin cur out b)"

lemma output_holds_other:
  assumes "output_holds S opt dbname G x" and "\<forall>g. g \<noteq> TableFileName dbname n \<longrightarrow> M g = G g" and "out_number (fst x) \<noteq> n"
  shows "output_holds S opt dbname M x"
proof -
  have "TableFileName dbname (out_number (fst x)) \<noteq> TableFileName dbname n" using TableFileName_inj assms(3) by blast
  then have "M (TableFileName dbname (out_number (fst x))) = G (TableFileName dbname (out_number (fst x)))" using assms(2) by simp
  then show ?thesis using assms(1) by (simp add: output_holds_def case_prod_unfold)
qed

lemma Open_ok:
  assumes w: "writing S opt dbname lo fin [] cs db" and nb: "cs_builder cs = None" and fr: "db_frame dbname opt vs0 db" and nx: "db_next db + 1 < 2 ^ 64" "lo \<le> db_next db"
    and o: "OpenCompactionOutputFile E cs db = (s, cs', db')"
  shows "cs_compaction cs' = cs_compaction cs \<and> cs_smallest_snapshot cs' = cs_smallest_snapshot cs \<and> db_frame dbname opt vs0 db' \<and> db_next db' = db_next db + 1
    \<and> (Status_ok s \<longrightarrow> cs_builder cs' \<noteq> None \<and> writing S opt dbname lo fin [] cs' db')"
proof -
  let ?n = "vs_next_file_number (db_versions db)"
  let ?f = "TableFileName dbname ?n"
  let ?out = "\<lparr>out_number = ?n, out_file_size = 0, out_smallest = [], out_largest = []\<rparr>"
  have w': "distinct (map out_number (cs_outputs cs))" "\<forall>out \<in> set (cs_outputs cs). lo \<le> unat (out_number out) \<and> unat (out_number out) < db_next db"
    "cs_outputs cs = map fst fin" "einvar (db_env db)" "\<forall>x \<in> set fin. output_holds S opt dbname (files (db_env db)) x"
    using w nb by (auto simp: writing_def)
  have nn: "unat (?n + 1) = db_next db + 1" using nx by (simp add: unat_word_ariths)
  have dn: "db_dbname db = dbname" "db_options db = opt" using fr by (simp_all add: db_frame_def)
  obtain r e where op: "op_NewWritableFile E (db_env db) ?f = (r, e)" by fastforce
  show ?thesis
  proof (cases r)
    case (Inl x)
    have "\<not> Status_ok x" using new_writable_fail [OF w'(4)] op Inl by blast
    then show ?thesis using o op Inl fr nn dn by (auto simp: OpenCompactionOutputFile_def NewFileNumber_def db_frame_def)
  next
    case (Inr h)
    have e: "einvar e" "wopen e h ?f" "files e = (files (db_env db))(?f \<mapsto> [])" using new_writable [OF w'(4)] op Inr by auto
    have cs': "cs' = cs\<lparr>cs_outputs := cs_outputs cs @ [?out], cs_builder := Some (TableBuilder_make opt (e, h))\<rparr>"
      "s = Status_OK" "db_env db' = e" "db_versions db' = (db_versions db)\<lparr>vs_next_file_number := ?n + 1\<rparr>"
      "db_dbname db' = dbname" "db_options db' = opt"
      using o op Inr dn by (auto simp: OpenCompactionOutputFile_def NewFileNumber_def Let_def)
    have "out_inv (files (db_env db)) ?f h (e, h)" "out_content ?f (e, h) = []" using e by (auto simp: out_inv_def out_content_def)
    then have "open_output S opt dbname fin [] ?out (TableBuilder_make opt (e, h))"
      unfolding open_output_def using w'(5)
      by (auto simp: TableBuilder_make_def TableBuilder_ok_def NumEntries_def TableBuilder_Adds_def intro!: exI [of _ "(e, h)"] exI [of _ "files (db_env db)"])
    moreover have "?n \<notin> out_number ` set (cs_outputs cs)" using w'(2) by auto
    moreover have "fst (tb_file (TableBuilder_make opt (e, h))) = e" by (simp add: TableBuilder_make_def)
    ultimately have "writing S opt dbname lo fin [] cs' db'"
      unfolding writing_def using w' cs' nn nx(2) by (auto simp: less_SucI)
    then show ?thesis using cs' fr nn by (auto simp: db_frame_def)
  qed
qed

lemma Output_add_ok:
  assumes w: "writing S opt dbname lo fin cur cs db" and b: "cs_builder cs = Some b" and fr: "db_frame dbname opt vs0 db"
    and len: "length cur + 1 < 2 ^ 64" and o: "Output_add E S k v cs db = (cs', db')"
  shows "db_frame dbname opt vs0 db' \<and> db_next db' = db_next db \<and> cs_builder cs' \<noteq> None \<and> cs_compaction cs' = cs_compaction cs
    \<and> cs_smallest_snapshot cs' = cs_smallest_snapshot cs \<and> (broken cs' \<or> writing S opt dbname lo fin (cur @ [(k, v)]) cs' db')"
proof -
  obtain out where w': "distinct (map out_number (cs_outputs cs))" "\<forall>out \<in> set (cs_outputs cs). lo \<le> unat (out_number out) \<and> unat (out_number out) < db_next db"
    "cs_outputs cs = map fst fin @ [out]" "db_env db = fst (tb_file b)" "open_output S opt dbname fin cur out b"
    using w b by (auto simp: writing_def)
  define b' where "b' = TableBuilder_Add (env_append E) (env_flush E) S b k v"
  have "b\<lparr>tb_file := (db_env db, snd (tb_file b))\<rparr> = b" using w'(4) by simp
  note add = this [THEN arg_cong, of "\<lambda>b. TableBuilder_Add (env_append E) (env_flush E) S b k v", folded b'_def]
  have "NumEntries b = of_nat (length cur)" using w'(5) by (simp add: open_output_def)
  then have "unat (NumEntries b) = length cur" using len by (simp add: unat_of_nat)
  then have n: "NumEntries b = 0 \<longleftrightarrow> cur = []" by (metis length_0_conv unat_0 unat_eq_zero)
  define out' where "out' = out\<lparr>out_smallest := (if cur = [] then k else out_smallest out), out_largest := k\<rparr>"
  have cs': "cs_outputs cs' = map fst fin @ [out']" "cs_builder cs' = Some b'" "cs_compaction cs' = cs_compaction cs"
    "cs_smallest_snapshot cs' = cs_smallest_snapshot cs" "db' = set_env (fst (tb_file b')) db"
    using o w'(3) by (auto simp: Output_add_def b add n out'_def Let_def)
  show ?thesis
  proof (cases "TableBuilder_ok b'")
    case False
    then show ?thesis using cs' fr by (auto simp: broken_def)
  next
    case True
    have ok: "TableBuilder_ok b" using w'(5) by (simp add: open_output_def)
    obtain f0 G where f0: "out_inv G (TableFileName dbname (out_number out)) (snd f0) f0" "out_content (TableFileName dbname (out_number out)) f0 = []"
      "b = TableBuilder_Adds (env_append E) (env_flush E) S (TableBuilder_make opt f0) cur" "\<forall>x \<in> set fin. output_holds S opt dbname G x"
      using w'(5) unfolding open_output_def by blast
    have "b' = TableBuilder_Adds (env_append E) (env_flush E) S (TableBuilder_make opt f0) (cur @ [(k, v)])" unfolding Adds_snoc b'_def f0(3) ..
    moreover have "NumEntries b' = of_nat (length (cur @ [(k, v)]))" using NumEntries_Add [OF ok] w'(5) by (simp add: b'_def open_output_def)
    moreover have "out_smallest out' = fst (hd (cur @ [(k, v)]))" "out_largest out' = fst (last (cur @ [(k, v)]))" "out_number out' = out_number out"
      using w'(5) by (auto simp: out'_def open_output_def hd_append)
    ultimately have "open_output S opt dbname fin (cur @ [(k, v)]) out' b'"
      unfolding open_output_def using True f0 by (intro conjI impI exI [of _ f0] exI [of _ G]) simp_all
    moreover have "distinct (map out_number (cs_outputs cs'))" "\<forall>out \<in> set (cs_outputs cs'). lo \<le> unat (out_number out) \<and> unat (out_number out) < db_next db'"
      using w'(1-3) cs'(1,5) by (auto simp: out'_def)
    ultimately have "writing S opt dbname lo fin (cur @ [(k, v)]) cs' db'"
      unfolding writing_def using cs' by auto
    then show ?thesis using cs' fr by simp
  qed
qed

lemma Output_add_broken:
  assumes "broken cs" and "db_frame dbname opt vs0 db" and "Output_add E S k v cs db = (cs', db')"
  shows "db_frame dbname opt vs0 db' \<and> db_next db' = db_next db \<and> broken cs' \<and> cs_compaction cs' = cs_compaction cs
    \<and> cs_smallest_snapshot cs' = cs_smallest_snapshot cs"
proof -
  obtain b where b: "cs_builder cs = Some b" "\<not> TableBuilder_ok b" using assms(1) by (auto simp: broken_def)
  then have "TableBuilder_Add (env_append E) (env_flush E) S (b\<lparr>tb_file := f\<rparr>) k v = b\<lparr>tb_file := f\<rparr>" for f
    by (simp add: TableBuilder_Add_def TableBuilder_ok_def)
  then show ?thesis using assms(2,3) b by (auto simp: Output_add_def broken_def TableBuilder_ok_def Let_def)
qed

lemma Finish_broken:
  assumes "broken cs" and "Status_ok ist" and "db_frame dbname opt vs0 db"
  shows "\<exists>s cs' db'. FinishCompactionOutputFile E S newfile ist cs db = Some (s, cs', db') \<and> \<not> Status_ok s \<and> db_frame dbname opt vs0 db'"
proof -
  obtain b where b: "cs_builder cs = Some b" "\<not> TableBuilder_ok b" using assms(1) by (auto simp: broken_def)
  let ?b = "b\<lparr>tb_file := (db_env db, snd (tb_file b))\<rparr>"
  obtain s r where f: "TableBuilder_Finish (env_append E) (env_flush E) S ?b = (s, r)" by fastforce
  have "\<not> TableBuilder_ok ?b" using b(2) by (simp add: TableBuilder_ok_def)
  then have "\<not> Status_ok s" using fallible_file.Finish_not_ok [OF out_fallible _ f] by blast
  then show ?thesis using f b(1) assms(2,3) by (simp add: FinishCompactionOutputFile_def Let_def)
qed

text \<open>Closing the file: the table stays as it is.\<close>

lemma close_ok:
  assumes "out_inv G f h (e, h)" and "(if b then op_Sync E e h else (s0, e)) = (s, e1)" and "b \<longleftrightarrow> Status_ok s0"
    and "(if Status_ok s then op_Close E e1 h else (s, e1)) = (s', e2)" and "Status_ok s'"
  shows "Status_ok s0 \<and> einvar (op_delete_writable E e2 h) \<and> files (op_delete_writable E e2 h) f = files e f
    \<and> (\<forall>g. g \<noteq> f \<longrightarrow> files (op_delete_writable E e2 h) g = G g)"
proof -
  have s: "Status_ok s" "op_Close E e1 h = (s', e2)" using assms(4,5) by (auto split: if_splits)
  then have b: "b" "op_Sync E e h = (s, e1)" using assms(2,3) by (auto split: if_splits)
  have i: "einvar e" "wopen e h f" "\<forall>g. g \<noteq> f \<longrightarrow> files e g = G g" using assms(1) by (auto simp: out_inv_def)
  have 1: "einvar e1" "wopen e1 h f" "\<forall>g. g \<noteq> f \<longrightarrow> files e1 g = files e g" "files e1 f = files e f" using sync [OF i(1,2) b(2)] s(1) by auto
  have 2: "einvar e2" "wopen e2 h f" "\<forall>g. g \<noteq> f \<longrightarrow> files e2 g = files e1 g" "files e2 f = files e1 f" using close [OF 1(1,2) s(2)] assms(5) by auto
  show ?thesis using delete_writable [OF 2(1,2)] 1 2 i(3) b(1) assms(3) by simp
qed

lemma adds_inv:
  assumes "out_inv G f w f0" and "out_content f f0 = []" and S: "snappy_ok S" and C: "key_comparator (opt_comparator opt)"
    and r: "0 < opt_block_restart_interval opt" and "entries_sorted (Compare (opt_comparator opt)) es"
    and "TableBuilder_ok (TableBuilder_Adds (env_append E) (env_flush E) S (TableBuilder_make opt f0) es)"
  shows "out_inv G f w (tb_file (TableBuilder_Adds (env_append E) (env_flush E) S (TableBuilder_make opt f0) es))"
proof -
  have "tb_inv S opt (TableBuilder_make opt f0) (out_content f (tb_file (TableBuilder_make opt f0))) [] [] []"
    using TableBuilder_make_inv [of S opt f0] assms(2) by (simp add: TableBuilder_make_def)
  from fallible_file.Adds_inv [OF out_fallible this _ S C r _ assms(7)] assms(1,6) show ?thesis
    by (simp add: Let_def TableBuilder_make_def tb_entries_def)
qed

lemma Finish_ok:
  assumes w: "writing S opt dbname lo fin cur cs db" and b: "cs_builder cs = Some b" and ne: "cur \<noteq> []" and fr: "db_frame dbname opt vs0 db"
    and so: "entries_sorted (Compare (opt_comparator opt)) cur" and len: "length cur < 2 ^ 64" and "Status_ok ist"
    and op: "\<And>c. openable opt c" and S: "snappy_ok S" and C: "key_comparator (opt_comparator opt)" and r: "0 < opt_block_restart_interval opt"
  shows "\<exists>s cs' db'. FinishCompactionOutputFile E S newfile ist cs db = Some (s, cs', db') \<and> db_frame dbname opt vs0 db' \<and> db_next db' = db_next db
    \<and> cs_compaction cs' = cs_compaction cs \<and> cs_smallest_snapshot cs' = cs_smallest_snapshot cs \<and> cs_builder cs' = None
    \<and> (Status_ok s \<longrightarrow> (\<exists>out. writing S opt dbname lo (fin @ [(out, cur)]) [] cs' db'))"
proof -
  obtain out where w': "distinct (map out_number (cs_outputs cs))" "\<forall>out \<in> set (cs_outputs cs). lo \<le> unat (out_number out) \<and> unat (out_number out) < db_next db"
    "cs_outputs cs = map fst fin @ [out]" "db_env db = fst (tb_file b)" "open_output S opt dbname fin cur out b"
    using w b by (auto simp: writing_def)
  let ?f = "TableFileName dbname (out_number out)"
  obtain f0 G where f0: "out_inv G ?f (snd f0) f0" "out_content ?f f0 = []"
    "b = TableBuilder_Adds (env_append E) (env_flush E) S (TableBuilder_make opt f0) cur" "\<forall>x \<in> set fin. output_holds S opt dbname G x"
    using w'(5) unfolding open_output_def by blast
  obtain s0 b' where fin: "TableBuilder_Finish (env_append E) (env_flush E) S b = (s0, b')" by fastforce
  then have bt: "build_table (env_append E) (env_flush E) S opt f0 cur = (s0, b')" by (simp add: build_table_def f0(3))
  obtain e h' where e: "tb_file b' = (e, h')" by fastforce
  let ?h = "snd (tb_file b)"
  have bf: "b\<lparr>tb_file := (db_env db, ?h)\<rparr> = b" using w'(4) by simp
  have "unat (NumEntries b) = length cur" using w'(5) len by (simp add: open_output_def unat_of_nat)
  then have n: "NumEntries b > 0" using ne by (metis length_0_conv unat_0 word_neq_0_conv)
  define out' where "out' = out\<lparr>out_file_size := FileSize b'\<rparr>"
  define cs' where "cs' = (update_output (\<lambda>out. out\<lparr>out_file_size := FileSize b'\<rparr>) cs)
    \<lparr>cs_total_bytes := cs_total_bytes cs + FileSize b', cs_builder := None\<rparr>"
  obtain s1 e1 where p1: "(if Status_ok s0 then op_Sync E e ?h else (s0, e)) = (s1, e1)" by fastforce
  obtain s2 e2 where p2: "(if Status_ok s1 then op_Close E e1 ?h else (s1, e1)) = (s2, e2)" by fastforce
  define e3 where "e3 = op_delete_writable E e2 ?h"
  have unf: "FinishCompactionOutputFile E S newfile ist cs db =
     (if Status_ok s2 then map_option (\<lambda>(s, tc). (s, cs', (set_env e3 db)\<lparr>db_table_cache := tc\<rparr>))
         (check_table S newfile (db_table_cache (set_env e3 db)) (out_number out) (FileSize b'))
      else Some (s2, cs', set_env e3 db))"
    using n w'(3) by (simp only: FinishCompactionOutputFile_def Let_def b option.sel bf if_P [OF assms(7)] fin prod.case e fst_conv p1 p2)
      (simp add: cs'_def e3_def)
  have cs1: "cs_compaction cs' = cs_compaction cs" "cs_smallest_snapshot cs' = cs_smallest_snapshot cs" "cs_builder cs' = None"
    "cs_outputs cs' = map fst fin @ [out']" by (simp_all add: cs'_def w'(3) out'_def)
  show ?thesis
  proof (cases "Status_ok s2")
    case False
    then show ?thesis using unf fr cs1 by auto
  next
    case True
    then have s0: "Status_ok s0" using p1 p2 by (auto split: if_splits)
    have t: "out_inv G ?f (snd f0) (tb_file b')" "tb_offset b' = of_nat (length (out_content ?f (tb_file b')))"
      and "\<exists>bs ks. table_file S opt (out_content ?f (tb_file b')) bs ks \<and> concat (map fst bs) = cur"
      using fallible_file.build_table_size [OF out_fallible f0(1,2) S C r so bt s0] by blast+
    then obtain bs ks where tf: "table_file S opt (out_content ?f (tb_file b')) bs ks" "concat (map fst bs) = cur" by blast
    have "out_inv G ?f (snd f0) (tb_file b)" using adds_inv [OF f0(1,2) S C r so] w'(5) by (simp add: f0(3) open_output_def)
    then have h: "?h = h'" using t(1) e by (auto simp: out_inv_def case_prod_unfold)
    have "out_inv G ?f ?h (e, ?h)" using t(1) e h by (auto simp: out_inv_def)
    from close_ok [OF this p1 refl p2 True] have e3: "einvar e3" "files e3 ?f = files e ?f" "\<forall>g. g \<noteq> ?f \<longrightarrow> files e3 g = G g"
      by (auto simp: e3_def)
    define c where "c = out_content ?f (tb_file b')"
    have c: "files e3 ?f = Some c" using e3(2) t(1) e by (auto simp: c_def out_inv_def out_content_def)
    have dn: "db_dbname db = dbname" "db_options db = opt" using fr by (simp_all add: db_frame_def)
    obtain s tc where ck: "check_table S newfile (db_table_cache (set_env e3 db)) (out_number out) (FileSize b') = Some (s, tc)"
      "einvar (tc_env tc)" "files (tc_env tc) = files e3" "tc_dbname tc = dbname" "tc_options tc = opt"
      using check_table_returns [of "db_table_cache (set_env e3 db)" "out_number out" c S bs ks "FileSize b'"] e3(1) c tf(1) t(2) op S C r dn
      by (auto simp: c_def FileSize_def)
    have "output_holds S opt dbname (files e3) x" if x: "x \<in> set fin" for x
    proof (rule output_holds_other [OF _ e3(3)])
      show "output_holds S opt dbname G x" using f0(4) x by blast
      show "out_number (fst x) \<noteq> out_number out" using w'(1,3) x by (auto simp: image_iff)
    qed
    moreover have "output_holds S opt dbname (files e3) (out', cur)"
      using c tf t(2) ne w'(5) unfolding output_holds_def
      by (auto simp: c_def out'_def FileSize_def open_output_def)
    moreover have "distinct (map out_number (cs_outputs cs'))" "\<forall>out \<in> set (cs_outputs cs'). lo \<le> unat (out_number out) \<and> unat (out_number out) < db_next db"
      using w'(1-3) cs1(4) by (auto simp: out'_def)
    ultimately have "writing S opt dbname lo (fin @ [(out', cur)]) [] cs' ((set_env e3 db)\<lparr>db_table_cache := tc\<rparr>)"
      unfolding writing_def using cs1(3,4) ck(2,3) by auto
    moreover have "db_frame dbname opt vs0 ((set_env e3 db)\<lparr>db_table_cache := tc\<rparr>)" using fr ck(4,5) by (simp add: db_frame_def)
    ultimately show ?thesis using unf True ck(1) cs1 by auto
  qed
qed

text \<open>
  A step of the loop: either it fails, or the builder is broken, which will make the compaction fail, or the invariant holds with
  the entries \<open>es\<close> written so far.
\<close>

definition advanced ::
  "Snappy \<Rightarrow> Options \<Rightarrow> bytes \<Rightarrow> 'w VersionSet \<Rightarrow> nat \<Rightarrow> entries \<Rightarrow> ('e, 'w) CompactionState \<Rightarrow> ('e, 'w, 'z) DBCore_scheme \<Rightarrow> bool" where
  "advanced S opt dbname vs0 n es cs db \<longleftrightarrow> db_frame dbname opt vs0 db \<and> db_next db \<le> n
     \<and> (broken cs \<or> (\<exists>fin cur. writing S opt dbname (unat (vs_next_file_number vs0)) fin cur cs db \<and> concat (map snd fin) @ cur = es \<and> (cs_builder cs \<noteq> None \<longrightarrow> cur \<noteq> [])))"

lemma advanced_frame: "advanced S opt dbname vs0 n es cs db \<Longrightarrow> db_frame dbname opt vs0 db"
  by (simp add: advanced_def)

lemma Finish_advanced:
  assumes adv: "advanced S opt dbname vs0 n es cs db" and b: "cs_builder cs \<noteq> None" and wf: "tables_wf S opt"
    and so: "entries_sorted (Compare (opt_comparator opt)) es" and len: "length es < 2 ^ 64" and st: "Status_ok ist"
  shows "\<exists>s cs' db'. FinishCompactionOutputFile E S newfile ist cs db = Some (s, cs', db') \<and> db_frame dbname opt vs0 db' \<and>
    (Status_ok s \<longrightarrow> advanced S opt dbname vs0 n es cs' db' \<and> \<not> broken cs' \<and> cs_builder cs' = None
       \<and> cs_compaction cs' = cs_compaction cs \<and> cs_smallest_snapshot cs' = cs_smallest_snapshot cs)"
proof (cases "broken cs")
  case True
  then show ?thesis using Finish_broken [OF True st, of dbname opt vs0 db S] adv by (auto simp: advanced_def)
next
  case False
  then obtain fin cur where w: "writing S opt dbname (unat (vs_next_file_number vs0)) fin cur cs db" "concat (map snd fin) @ cur = es" "cur \<noteq> []" "db_frame dbname opt vs0 db" "db_next db \<le> n"
    using adv b by (auto simp: advanced_def)
  obtain bb where bb: "cs_builder cs = Some bb" using b by auto
  have "entries_sorted (Compare (opt_comparator opt)) cur" "length cur < 2 ^ 64" using so len w(2) sorted_suffix by (auto simp: dest: sym)
  from Finish_ok [OF w(1) bb w(3,4) this st] wf obtain s cs' db' where
    f: "FinishCompactionOutputFile E S newfile ist cs db = Some (s, cs', db')" "db_frame dbname opt vs0 db'" "db_next db' = db_next db"
      "cs_compaction cs' = cs_compaction cs" "cs_smallest_snapshot cs' = cs_smallest_snapshot cs" "cs_builder cs' = None"
      "Status_ok s \<longrightarrow> (\<exists>out. writing S opt dbname (unat (vs_next_file_number vs0)) (fin @ [(out, cur)]) [] cs' db')"
    by (auto simp: tables_wf_def)
  have "advanced S opt dbname vs0 n es cs' db'" if sk: "Status_ok s"
  proof -
    obtain out where "writing S opt dbname (unat (vs_next_file_number vs0)) (fin @ [(out, cur)]) [] cs' db'" using f(7) sk by blast
    moreover have "concat (map snd (fin @ [(out, cur)])) @ [] = es" using w(2) by simp
    ultimately show ?thesis using f(2,3,6) w(5) unfolding advanced_def by metis
  qed
  then show ?thesis using f by (auto simp: broken_def)
qed

lemma keep_advanced:
  assumes adv: "advanced S opt dbname vs0 n es cs db" and wf: "tables_wf S opt" and n: "n + 1 < 2 ^ 64"
    and so: "entries_sorted (Compare (opt_comparator opt)) (es @ [(k, v)])" and len: "length es + 1 < 2 ^ 64" and st: "Status_ok ist"
  shows "\<exists>s cs' db'. Compaction_keep E S newfile ist k v cs db = Some (s, cs', db') \<and> db_frame dbname opt vs0 db' \<and>
    (Status_ok s \<longrightarrow> advanced S opt dbname vs0 (n + 1) (es @ [(k, v)]) cs' db'
       \<and> cs_compaction cs' = cs_compaction cs \<and> cs_smallest_snapshot cs' = cs_smallest_snapshot cs)"
proof -
  obtain s1 cs1 db1 where o: "(if cs_builder cs = None then OpenCompactionOutputFile E cs db else (Status_OK, cs, db)) = (s1, cs1, db1)"
    by (metis prod_cases3)
  have cc0: "cs_compaction cs1 = cs_compaction cs \<and> cs_smallest_snapshot cs1 = cs_smallest_snapshot cs \<and> db_frame dbname opt vs0 db1 \<and> db_next db1 \<le> n + 1
        \<and> (Status_ok s1 \<longrightarrow> broken cs1 \<or> (\<exists>fin cur. cs_builder cs1 \<noteq> None \<and> writing S opt dbname (unat (vs_next_file_number vs0)) fin cur cs1 db1 \<and> concat (map snd fin) @ cur = es))"
  proof (cases "cs_builder cs = None")
    case True
    then obtain fin where w: "writing S opt dbname (unat (vs_next_file_number vs0)) fin [] cs db" "concat (map snd fin) = es"
      using adv by (auto simp: advanced_def broken_def writing_def)
    have "db_frame dbname opt vs0 db" "db_next db + 1 < 2 ^ 64" "db_next db \<le> n" "unat (vs_next_file_number vs0) \<le> db_next db"
      using adv n by (auto simp: advanced_def db_frame_def)
    then show ?thesis using Open_ok [OF w(1) True, of vs0 s1 cs1 db1] o True w(2) by auto
  next
    case False
    then have "s1 = Status_OK" "cs1 = cs" "db1 = db" using o by auto
    then show ?thesis using adv False unfolding advanced_def by (metis le_SucI Suc_eq_plus1)
  qed
  show ?thesis
  proof (cases "Status_ok s1")
    case False
    then show ?thesis using o cc0 by (simp add: Compaction_keep_def)
  next
    case ok1: True
    note cc1 = cc0 [simplified ok1 simp_thms]
    obtain cs2 db2 where a: "Output_add E S k v cs1 db1 = (cs2, db2)" by fastforce
    have adv2: "advanced S opt dbname vs0 (n + 1) (es @ [(k, v)]) cs2 db2 \<and> cs_builder cs2 \<noteq> None
        \<and> cs_compaction cs2 = cs_compaction cs1 \<and> cs_smallest_snapshot cs2 = cs_smallest_snapshot cs1"
    proof (cases "broken cs1")
      case True
      then show ?thesis using Output_add_broken [OF True _ a, of dbname opt vs0] cc1 by (auto simp: advanced_def broken_def)
    next
      case False
      then obtain fin cur b where w: "cs_builder cs1 = Some b" "writing S opt dbname (unat (vs_next_file_number vs0)) fin cur cs1 db1" "concat (map snd fin) @ cur = es" using cc1 by auto
      have "length cur + 1 < 2 ^ 64" using len w(3) by auto
      from Output_add_ok [OF w(2,1) _ this a] cc1 show ?thesis using w(3) unfolding advanced_def by fastforce
    qed
    show ?thesis
    proof (cases "FileSize (the (cs_builder cs2)) \<ge> cn_max_output_file_size (cs_compaction cs2)")
      case True
      then show ?thesis using Finish_advanced [of S opt dbname vs0 "n + 1" "es @ [(k, v)]" cs2 db2, OF _ _ wf so _ st] adv2 len o ok1 a cc1
        by (auto simp: Compaction_keep_def)
    next
      case False
      then show ?thesis using adv2 advanced_frame [of S opt dbname vs0 "n + 1" "es @ [(k, v)]" cs2 db2] o ok1 a cc1 by (simp add: Compaction_keep_def)
    qed
  qed
qed

lemma advanced_compaction: "advanced S opt dbname vs0 n es (cs\<lparr>cs_compaction := c\<rparr>) db = advanced S opt dbname vs0 n es cs db"
proof -
  have "writing S opt dbname (unat (vs_next_file_number vs0)) fin cur (cs\<lparr>cs_compaction := c\<rparr>) db = writing S opt dbname (unat (vs_next_file_number vs0)) fin cur cs db" for fin cur
    by (simp add: writing_def split: option.split)
  then show ?thesis by (simp add: advanced_def broken_def)
qed

lemma advanced_done:
  assumes "advanced S opt dbname vs0 n es cs db" and "\<not> broken cs" and "cs_builder cs = None"
  shows "\<exists>fn. cs_outputs cs = map fst fn \<and> concat (map snd fn) = es \<and> (\<forall>x \<in> set fn. output_holds S opt dbname (files (db_env db)) x)
    \<and> distinct (map out_number (cs_outputs cs)) \<and> (\<forall>out \<in> set (cs_outputs cs). unat (vs_next_file_number vs0) \<le> unat (out_number out))"
proof -
  obtain fin cur where "writing S opt dbname (unat (vs_next_file_number vs0)) fin cur cs db" "concat (map snd fin) @ cur = es" using assms(1,2) by (auto simp: advanced_def)
  then show ?thesis using assms(3) by (intro exI [of _ fin]) (auto simp: writing_def)
qed

lemma step_advanced:
  assumes adv: "advanced S opt dbname vs0 n es cs db" and wf: "tables_wf S opt" and n: "n + 1 < 2 ^ 64"
    and so: "entries_sorted (Compare (opt_comparator opt)) (es @ (if hidden C snap prev key \<or> obs key then [] else [(k, v)]))"
    and len: "length es + 1 < 2 ^ 64" and st: "Status_ok ist"
    and C: "key_comparator C" and d: "dropping C vs0 lev iv snap c0 prev cs d" and k: "ParseInternalKey k = Some key" and snap: "snap < kMaxSequenceNumber"
    and "\<forall>p. prev = Some p \<longrightarrow> Compare C (pik_user_key p) (pik_user_key key) \<le> 0"
    and dj: "\<forall>lvl \<in> {lev + 2..<kNumLevels}. disjoint_sorted C (map (vs_deref vs0) (v_files (version_at vs0 iv) ! lvl))"
    and obs: "obs = obsolete C (vs_deref vs0) (version_at vs0 iv) lev snap"
  shows "\<exists>s cs' d' db'. Compaction_step E S newfile C ist k v (cs, d, db) = Some (s, cs', d', db') \<and> db_frame dbname opt vs0 db' \<and>
    (Status_ok s \<longrightarrow> advanced S opt dbname vs0 (n + 1) (es @ (if hidden C snap prev key \<or> obs key then [] else [(k, v)])) cs' db'
       \<and> dropping C vs0 lev iv snap c0 (Some key) cs' d')"
proof -
  have fr: "vs_heap (db_versions db) = vs_heap vs0" "vs_versions (db_versions db) = vs_versions vs0" using adv by (auto simp: advanced_def db_frame_def)
  obtain stop c where ss: "ShouldStopBefore C (vs_deref (db_versions db)) (cs_compaction cs) k = (stop, c)" by fastforce
  let ?cs = "cs\<lparr>cs_compaction := c\<rparr>"
  have adv0: "advanced S opt dbname vs0 n es ?cs db" using adv by (simp add: advanced_compaction)
  have d0: "dropping C vs0 lev iv snap c0 prev ?cs d"
    using d ShouldStopBefore_fields [OF ss] dropper_ok_cong [of c "cs_compaction cs"] by (simp add: dropping_def same_inputs_def)
  have "entries_sorted (Compare (opt_comparator opt)) es" using so by (auto simp: entries_sorted_def sorted_wrt_append split: if_splits)
  moreover have "length es < 2 ^ 64" using len by simp
  ultimately have "\<exists>s cs1 db1. (if stop \<and> cs_builder ?cs \<noteq> None then FinishCompactionOutputFile E S newfile ist ?cs db else Some (Status_OK, ?cs, db)) = Some (s, cs1, db1)
      \<and> db_frame dbname opt vs0 db1 \<and> (Status_ok s \<longrightarrow> advanced S opt dbname vs0 n es cs1 db1 \<and> dropping C vs0 lev iv snap c0 prev cs1 d)"
    using Finish_advanced [OF adv0 _ wf _ _ st] adv0 advanced_frame [OF adv0] d0 by (auto simp: dropping_def)
  then obtain s cs1 db1 where f: "(if stop \<and> cs_builder ?cs \<noteq> None then FinishCompactionOutputFile E S newfile ist ?cs db else Some (Status_OK, ?cs, db)) = Some (s, cs1, db1)"
    "Status_ok s \<longrightarrow> advanced S opt dbname vs0 n es cs1 db1 \<and> dropping C vs0 lev iv snap c0 prev cs1 d" "db_frame dbname opt vs0 db1" by blast
  show ?thesis
  proof (cases "Status_ok s")
    case False
    then show ?thesis using f(1,3) by (simp add: Compaction_step_def ss)
  next
    case True
    then have adv1: "advanced S opt dbname vs0 n es cs1 db1" and d1: "dropping C vs0 lev iv snap c0 prev cs1 d" using f(2) by auto
    have fr1: "vs_heap (db_versions db1) = vs_heap vs0" "vs_versions (db_versions db1) = vs_versions vs0" using adv1 by (auto simp: advanced_def db_frame_def)
    obtain ptrs d' where dk: "Drop_key C (vs_deref vs0) (version_at vs0 iv) snap k (cs_compaction cs1, d)
        = (hidden C snap prev key \<or> obs key, (cs_compaction cs1)\<lparr>cn_level_ptrs := ptrs\<rparr>, d')"
      "dropper_ok C (vs_deref vs0) (version_at vs0 iv) lev (Some key) ((cs_compaction cs1)\<lparr>cn_level_ptrs := ptrs\<rparr>, d')"
      using key_comparator.Drop_key_ok [OF C _ k snap assms(11) dj, of "cs_compaction cs1" d] d1 unfolding dropping_def obs by blast
    let ?cs1 = "cs1\<lparr>cs_compaction := (cs_compaction cs1)\<lparr>cn_level_ptrs := ptrs\<rparr>\<rparr>"
    have adv2: "advanced S opt dbname vs0 n es ?cs1 db1" using adv1 by (simp add: advanced_compaction)
    have d2: "dropping C vs0 lev iv snap c0 (Some key) ?cs1 d'" using d1 dk(2) by (simp add: dropping_def same_inputs_def)
    have unf: "Compaction_step E S newfile C ist k v (cs, d, db) =
        (if hidden C snap prev key \<or> obs key then Some (Status_OK, ?cs1, d', db1)
         else map_option (\<lambda>(s, cs, db). (s, cs, d', db)) (Compaction_keep E S newfile ist k v ?cs1 db1))"
      using f(1) True dk(1) d1 fr1 by (simp add: Compaction_step_def ss dropping_def)
    show ?thesis
    proof (cases "hidden C snap prev key \<or> obs key")
      case True
      then show ?thesis using unf adv2 d2 f(3) by (auto simp: advanced_def)
    next
      case False
      then have "entries_sorted (Compare (opt_comparator opt)) (es @ [(k, v)])" using so by simp
      from keep_advanced [OF adv2 wf n this len st] False show ?thesis using unf d2 by (auto simp: dropping_def)
    qed
  qed
qed

lemma loop_advanced:
  fixes C :: Comparator and I :: "'s Iterator" and all :: entries and vs0 :: "'w VersionSet" and lev iv n0 :: nat and snap :: SequenceNumber
  defines "obs \<equiv> obsolete C (vs_deref vs0) (version_at vs0 iv) lev snap"
  assumes it: "iterator (InternalKey_Compare C) I iat" and wf: "tables_wf S opt" and oc: "opt_comparator opt = InternalKeyComparator C" and C: "key_comparator C"
    and snap: "snap < kMaxSequenceNumber" and n0: "n0 + length all < 2 ^ 64" and pa: "parsed_entries all"
    and dj: "\<forall>lvl \<in> {lev + 2..<kNumLevels}. disjoint_sorted C (map (vs_deref vs0) (v_files (version_at vs0 iv) ! lvl))"
    and mono: "\<forall>i. shutting_down i \<longrightarrow> shutting_down (i + 1)"
    and "i \<le> length all" and "iat input all (index_in all i)" and "advanced S opt dbname vs0 (n0 + i) K cs db" and "dropping C vs0 lev iv snap c0 prev cs d"
    and "K @ kept_entries C snap obs prev (drop i all) = kept_entries C snap obs None all"
    and "\<forall>p. prev = Some p \<longrightarrow> 0 < i \<and> p = entry_key (all ! (i - 1))" and "length K \<le> i"
  shows "\<exists>n' input' s cs' db'. Compaction_loop E S newfile C I shutting_down m input (cs, d, db) = Some (n', input', s, cs', db')
    \<and> it_status I input' = Status_OK \<and> db_frame dbname opt vs0 db'
    \<and> (Status_ok s \<and> \<not> shutting_down n' \<longrightarrow> advanced S opt dbname vs0 (n0 + length all) (kept_entries C snap obs None all) cs' db' \<and> same_inputs c0 (cs_compaction cs'))"
  using assms(11-17)
proof (induction "length all - i" arbitrary: i input K cs db prev d m)
  case 0
  then have i: "i = length all" by simp
  then have at: "iat input all None" using "0.prems"(2) by (simp add: index_in_def)
  have "Compaction_loop E S newfile C I shutting_down m input (cs, d, db) = Some (m, input, Status_OK, cs, db)"
    using iterator.at_valid [OF it at] by (subst Compaction_loop.simps) simp
  moreover have "db_frame dbname opt vs0 db" "same_inputs c0 (cs_compaction cs)" using "0.prems"(3,4) by (simp_all add: advanced_def dropping_def)
  ultimately show ?case using "0.prems"(3,5) i iterator.at_status [OF it at] by simp
next
  case (Suc r)
  then have i: "i < length all" by simp
  then have at: "iat input all (Some i)" using Suc.prems(2) by (simp add: index_in_def)
  have so: "entries_sorted (InternalKey_Compare C) all" using iterator.at_order [OF it at] by blast
  have e: "all ! i = (it_key I input, it_value I input)" using iterator.at_entry [OF it at] by simp
  have ok: "Status_ok (it_status I input)" using iterator.at_status [OF it at] by simp
  obtain key where key: "ParseInternalKey (it_key I input) = Some key" using pa i e nth_mem [OF i] by (force simp: parsed_entries_def)
  show ?case
  proof (cases "shutting_down m")
    case True
    then have "Compaction_loop E S newfile C I shutting_down m input (cs, d, db) = Some (m + 1, input, Status_OK, cs, db)"
      using iterator.at_valid [OF it at] by (subst Compaction_loop.simps) simp
    moreover have "db_frame dbname opt vs0 db" using Suc.prems(3) by (simp add: advanced_def)
    ultimately show ?thesis using mono True iterator.at_status [OF it at] by simp
  next
    case False
    let ?new = "if hidden C snap prev key \<or> obs key then [] else [(it_key I input, it_value I input)]"
    have drop: "drop i all = all ! i # drop (Suc i) all" using i by (simp add: Cons_nth_drop_Suc)
    have K: "(K @ ?new) @ kept_entries C snap obs (Some key) (drop (Suc i) all) = kept_entries C snap obs None all"
      using Suc.prems(5) by (simp add: drop e key)
    have "entries_sorted (InternalKey_Compare C) ((K @ ?new) @ kept_entries C snap obs (Some key) (drop (Suc i) all))"
      unfolding K by (rule kept_sorted [OF so])
    then have soK: "entries_sorted (Compare (opt_comparator opt)) (K @ ?new)"
      unfolding oc InternalKeyComparator_simps by (rule sorted_prefix)
    have lenK: "length K + 1 < 2 ^ 64" "length (K @ ?new) \<le> Suc i" using n0 i Suc.prems(7) by auto
    have prev: "\<forall>p. prev = Some p \<longrightarrow> Compare C (pik_user_key p) (pik_user_key key) \<le> 0"
    proof (intro allI impI)
      fix p assume "prev = Some p"
      then have p: "0 < i" "p = entry_key (all ! (i - 1))" using Suc.prems(6) by auto
      have "i - 1 < length all" using i by simp
      then obtain q where q: "ParseInternalKey (fst (all ! (i - 1))) = Some q" using pa nth_mem by (fastforce simp: parsed_entries_def)
      have "InternalKey_Compare C (fst (all ! (i - 1))) (fst (all ! i)) < 0"
        using so i p(1) by (auto simp: entries_sorted_def sorted_wrt_iff_nth_less)
      then show "Compare C (pik_user_key p) (pik_user_key key) \<le> 0"
        using key_comparator.parsed_order(1) [OF C _ q, of "fst (all ! i)" key] key e p(2) q by simp
    qed
    have "n0 + i + 1 < 2 ^ 64" using n0 i by simp
    from step_advanced [OF Suc.prems(3) wf this soK [unfolded obs_def] lenK(1) ok C Suc.prems(4) key snap prev dj refl] obtain s cs' d' db' where
      st: "Compaction_step E S newfile C (it_status I input) (it_key I input) (it_value I input) (cs, d, db) = Some (s, cs', d', db')"
        "Status_ok s \<longrightarrow> advanced S opt dbname vs0 (n0 + i + 1) (K @ ?new) cs' db' \<and> dropping C vs0 lev iv snap c0 (Some key) cs' d'"
        "db_frame dbname opt vs0 db'"
      unfolding obs_def by blast
    have unf: "Compaction_loop E S newfile C I shutting_down m input (cs, d, db) =
        (if \<not> Status_ok s then Some (m + 1, input, s, cs', db')
         else Option.bind (it_Next I input) (\<lambda>input. Compaction_loop E S newfile C I shutting_down (m + 1) input (cs', d', db')))"
      using iterator.at_valid [OF it at] False st(1) by (subst Compaction_loop.simps) simp
    show ?thesis
    proof (cases "Status_ok s")
      case s: False
      then show ?thesis using unf st(3) iterator.at_status [OF it at] by simp
    next
      case True
      obtain input' where nx: "it_Next I input = Some input'" "iat input' all (index_in all (Suc i))" using iterator.at_next [OF it at] by blast
      have "r = length all - Suc i" using Suc.hyps(2) by simp
      moreover have "\<forall>p. Some key = Some p \<longrightarrow> 0 < Suc i \<and> p = entry_key (all ! (Suc i - 1))" using e key by simp
      ultimately show ?thesis using Suc.hyps(1) [of "Suc i" input' "K @ ?new" cs' db' "Some key" d' "m + 1", OF _ _ nx(2) _ _ K _ lenK(2)] i st(2) True unf nx(1) by simp
    qed
  qed
qed

end

subsection \<open>Properties\<close>

lemma CompactionRun_ok:
  fixes db :: "('e, 'w, 'z) DBCore_scheme" and cs :: "('e, 'w) CompactionState"
  assumes env: "table_env E files einvar wopen ropen newfile" "einvar (db_env db)"
    and it: "iterator (InternalKey_Compare C) I iat" "iat input es p" and pa: "parsed_entries es" and C: "key_comparator C"
    and opt: "opt_comparator (db_options db) = InternalKeyComparator C" "tables_wf S (db_options db)"
    and cs: "cs_outputs cs = []" "cs_builder cs = None" "cn_level_ptrs (cs_compaction cs) = replicate kNumLevels 0"
    and snap: "cs_smallest_snapshot cs < kMaxSequenceNumber" and n0: "unat (vs_next_file_number (db_versions db)) + length es < 2 ^ 64"
    and dj: "\<forall>lvl \<in> {cn_level (cs_compaction cs) + 2..<kNumLevels}. disjoint_sorted C (map (vs_deref (db_versions db)) (v_files (input_version cs db) ! lvl))"
    and mono: "\<forall>i. shutting_down i \<longrightarrow> shutting_down (i + 1)"
  shows "\<exists>s cs' db'. CompactionRun E S newfile C I shutting_down input cs db = Some (s, cs', db') \<and> db_frame (db_dbname db) (db_options db) (db_versions db) db' \<and>
    (Status_ok s \<longrightarrow> same_inputs (cs_compaction cs) (cs_compaction cs') \<and> distinct (map out_number (cs_outputs cs'))
       \<and> (\<forall>out \<in> set (cs_outputs cs'). unat (vs_next_file_number (db_versions db)) \<le> unat (out_number out))
       \<and> (\<exists>ess. length ess = length (cs_outputs cs')
       \<and> concat ess = Drop_run C (vs_deref (db_versions db)) (input_version cs db) (cs_smallest_snapshot cs) es (cs_compaction cs, Dropper_make)
       \<and> (\<forall>x \<in> set (zip (cs_outputs cs') ess). output_holds S (db_options db) (db_dbname db) (files (db_env db')) x)))"
proof -
  let ?vs = "db_versions db" and ?lev = "cn_level (cs_compaction cs)" and ?iv = "the (cn_input_version (cs_compaction cs))" and ?snap = "cs_smallest_snapshot cs"
  let ?n0 = "db_next db" and ?opt = "db_options db" and ?dbname = "db_dbname db"
  let ?kept = "kept_entries C ?snap (obsolete C (vs_deref ?vs) (version_at ?vs ?iv) ?lev ?snap) None es"
  have so: "entries_sorted (InternalKey_Compare C) es" using iterator.at_order [OF it] by blast
  have run: "Drop_run C (vs_deref ?vs) (input_version cs db) ?snap es (cs_compaction cs, Dropper_make) = ?kept"
    by (rule Drop_start [OF C so pa snap dj refl cs(3)])
  obtain input1 where i1: "it_SeekToFirst I input = Some input1" "iat input1 es (index_in es 0)" using iterator.at_first [OF it] by blast
  have "table_env.writing E files einvar wopen S ?opt ?dbname ?n0 [] [] cs db"
    using cs(1,2) env(2) by (simp add: table_env.writing_def [OF env(1)])
  then have adv: "table_env.advanced E files einvar wopen S ?opt ?dbname ?vs (?n0 + 0) [] cs db"
    unfolding table_env.advanced_def [OF env(1)] using cs(2) by (auto simp: db_frame_def intro: exI [of _ "vs_next_file_number ?vs"] exI [of _ "[]"])
  have dr: "dropping C ?vs ?lev ?iv ?snap (cs_compaction cs) None cs Dropper_make"
    using cs(3) by (simp add: dropping_def dropper_ok_def Dropper_make_def same_inputs_def) (simp add: level_ptrs_ok_def [abs_def] passed_def)
  obtain n input2 s cs2 db2 where l: "Compaction_loop E S newfile C I shutting_down 0 input1 (cs, Dropper_make, db) = Some (n, input2, s, cs2, db2)"
    "it_status I input2 = Status_OK" "db_frame ?dbname ?opt ?vs db2"
    "Status_ok s \<and> \<not> shutting_down n \<longrightarrow> table_env.advanced E files einvar wopen S ?opt ?dbname ?vs (?n0 + length es) ?kept cs2 db2
       \<and> same_inputs (cs_compaction cs) (cs_compaction cs2)"
    using table_env.loop_advanced [OF env(1) it(1) opt(2,1) C snap n0 pa dj mono le0 i1(2) adv dr _ _ _, of 0, simplified] by blast
  define s' where "s' = (if Status_ok s \<and> shutting_down n then IOError (str ''Deleting DB during compaction'') [] else s)"
  define fin where "fin = (if Status_ok s' \<and> cs_builder cs2 \<noteq> None then FinishCompactionOutputFile E S newfile Status_OK cs2 db2 else Some (s', cs2, db2))"
  have unf: "CompactionRun E S newfile C I shutting_down input cs db = map_option (\<lambda>(s, cs, db). (if Status_ok s then Status_OK else s, cs, db)) fin"
    unfolding CompactionRun_def i1(1) bind.bind_lunit l(1) prod.case Let_def l(2) s'_def [symmetric] fin_def [symmetric] ..
  have "\<exists>s3 cs3 db3. fin = Some (s3, cs3, db3) \<and> db_frame ?dbname ?opt ?vs db3 \<and> (Status_ok s3 \<longrightarrow>
      table_env.advanced E files einvar wopen S ?opt ?dbname ?vs (?n0 + length es) ?kept cs3 db3 \<and> \<not> broken cs3 \<and> cs_builder cs3 = None
      \<and> same_inputs (cs_compaction cs) (cs_compaction cs3))"
  proof (cases "Status_ok s'")
    case False
    then show ?thesis using l(3) by (simp add: fin_def)
  next
    case True
    then have adv2: "table_env.advanced E files einvar wopen S ?opt ?dbname ?vs (?n0 + length es) ?kept cs2 db2" "same_inputs (cs_compaction cs) (cs_compaction cs2)"
      using l(4) by (auto simp: s'_def IOError_def split: if_splits)
    show ?thesis
    proof (cases "cs_builder cs2 = None")
      case True
      then show ?thesis using adv2 l(3) by (simp add: fin_def broken_def)
    next
      case False
      have "entries_sorted (Compare (opt_comparator ?opt)) ?kept" unfolding opt(1) InternalKeyComparator_simps by (rule kept_sorted [OF so])
      moreover have "length ?kept < 2 ^ 64" using length_kept [of C ?snap _ None es] n0 by (meson le_less_trans add_lessD1 trans_le_add2 order_refl)
      ultimately show ?thesis
        using table_env.Finish_advanced [OF env(1) adv2(1) False opt(2), of Status_OK] adv2(2) True False by (auto simp: fin_def)
    qed
  qed
  then obtain s3 cs3 db3 where f: "fin = Some (s3, cs3, db3)" "db_frame ?dbname ?opt ?vs db3" "Status_ok s3 \<longrightarrow>
      table_env.advanced E files einvar wopen S ?opt ?dbname ?vs (?n0 + length es) ?kept cs3 db3 \<and> \<not> broken cs3 \<and> cs_builder cs3 = None
      \<and> same_inputs (cs_compaction cs) (cs_compaction cs3)" by blast
  have "distinct (map out_number (cs_outputs cs3)) \<and> (\<forall>out \<in> set (cs_outputs cs3). ?n0 \<le> unat (out_number out))
      \<and> (\<exists>ess. length ess = length (cs_outputs cs3) \<and> concat ess = ?kept \<and> (\<forall>x \<in> set (zip (cs_outputs cs3) ess). output_holds S ?opt ?dbname (files (db_env db3)) x))"
    if sk: "Status_ok s3"
  proof -
    have a: "table_env.advanced E files einvar wopen S ?opt ?dbname ?vs (?n0 + length es) ?kept cs3 db3" "\<not> broken cs3" "cs_builder cs3 = None"
      using f(3) sk by simp_all
    from table_env.advanced_done [OF env(1) a] obtain fn where
      fn: "cs_outputs cs3 = map fst fn" "concat (map snd fn) = ?kept" "\<forall>x \<in> set fn. output_holds S ?opt ?dbname (files (db_env db3)) x"
        "distinct (map out_number (cs_outputs cs3))" "\<forall>out \<in> set (cs_outputs cs3). ?n0 \<le> unat (out_number out)" by metis
    then have "\<exists>ess. length ess = length (cs_outputs cs3) \<and> concat ess = ?kept \<and> (\<forall>x \<in> set (zip (cs_outputs cs3) ess). output_holds S ?opt ?dbname (files (db_env db3)) x)"
      by (intro exI [of _ "map snd fn"]) (simp add: zip_map_fst_snd)
    then show ?thesis using fn(4,5) by blast
  qed
  then show ?thesis using unf f unfolding run by (cases "Status_ok s3") auto
qed


interpretation mem_tables: table_env "mem_Env u" mem_files mem_einvar mem_wopen mem_ropen mem_open_file for u
proof (intro table_env.intro table_env_axioms.intro, goal_cases)
  case 1
  show ?case by (rule memenv.file_env_axioms)
next
  case 2
  show ?case by (rule mem_random.random_access_env_axioms)
next
  case (3 e w f d s e')
  then obtain hs where h: "mem_ok e (w # hs)" "map_of (env_map e) f = Some w" "mem_Append u e w d = (s, e')"
    by (auto simp: mem_wopen_def mem_Env_def)
  from mem_Append_ok [OF this] 3(4) show ?case by (auto simp: mem_files_def)
next
  case (4 e w f s e')
  then show ?case by (simp add: mem_Env_def)
qed

definition sample_core :: "(InMemoryEnv, nat) DBCore" where
  "sample_core = \<lparr>db_table_cache = TableCache_make [] mem_empty (Options_make\<lparr>opt_comparator := InternalKeyComparator BytewiseComparator\<rparr>) None 100,
     db_versions = VersionSet_make [] BytewiseComparator, db_pending_outputs = {}, db_snapshots = SnapshotList_make, db_bg_error = Status_OK\<rparr>"

definition sample_compaction :: "(InMemoryEnv, nat) CompactionState" where
  "sample_compaction = CompactionState_make ((Compaction_make 0)\<lparr>cn_input_version := Some 0\<rparr>)"


end
