(* ===== verification/Spec2Isabelle.thy ===== *)
theory Spec2Isabelle
  imports Log_Correct MemTable WriteBatch FilterBlock Block Format VersionEdit Filename Cache Merger Table_Correct DBIter DoCompaction_Correct
begin

text \<open>
  A verification development of LevelDB, the key-value store whose sources are under \<^verbatim>\<open>src/LevelDB\<close>.

  \<^bold>\<open>The program.\<close>  A write is a \<^verbatim>\<open>WriteBatch\<close> that is appended to a log file and inserted into the memtable, a
  skip list of encoded entries ordered by user key and, newest first, by sequence number.  A full memtable
  becomes a table file: blocks of prefix-compressed entries, filter blocks, an index and a footer.  The
  manifest is a log of \<^verbatim>\<open>VersionEdit\<close> records that say which table files are live.  Everything is built on
  byte encodings, checksums and files.

  \<^bold>\<open>Theories, from the bottom up.\<close>
  \<^item> \<^verbatim>\<open>Prelude\<close>: bytes, words, the memory image of an integer, the collections of rewrite rules, and the locale of
    an encoder and its decoder.
  \<^item> \<^verbatim>\<open>Coding\<close> (\<^verbatim>\<open>util/coding.{h,cc}\<close>): fixed-width and variable-length integers, length-prefixed slices.
  \<^item> \<^verbatim>\<open>Status\<close> (\<^verbatim>\<open>slice.h\<close>, \<^verbatim>\<open>status.{h,cc}\<close>), \<^verbatim>\<open>Comparator\<close> (\<^verbatim>\<open>comparator.{h,cc}\<close>), \<^verbatim>\<open>Logging\<close> (\<^verbatim>\<open>logging.cc\<close>),
    \<^verbatim>\<open>Bloom\<close> (\<^verbatim>\<open>hash.cc\<close>, \<^verbatim>\<open>bloom.cc\<close>), \<^verbatim>\<open>Crc32c\<close> (\<^verbatim>\<open>crc32c.{h,cc}\<close>), \<^verbatim>\<open>Dbformat\<close> (\<^verbatim>\<open>dbformat.{h,cc}\<close>).
  \<^item> \<^verbatim>\<open>Memenv\<close> (\<^verbatim>\<open>memenv.cc\<close>): the interfaces of files as locales, and the in-memory files that implement them.
  \<^item> \<^verbatim>\<open>Log\<close>, \<^verbatim>\<open>Log_Correct\<close> (\<^verbatim>\<open>log_writer.{h,cc}\<close>, \<^verbatim>\<open>log_reader.{h,cc}\<close>): the write-ahead log.
  \<^item> \<^verbatim>\<open>SkipList\<close> (\<^verbatim>\<open>skiplist.h\<close>, \<^verbatim>\<open>random.h\<close>), \<^verbatim>\<open>MemTable\<close> (\<^verbatim>\<open>memtable.{h,cc}\<close>), \<^verbatim>\<open>WriteBatch\<close> (\<^verbatim>\<open>write_batch.cc\<close>).
  \<^item> \<^verbatim>\<open>Format\<close> (\<^verbatim>\<open>format.{h,cc}\<close>), \<^verbatim>\<open>Block\<close> (\<^verbatim>\<open>block_builder.cc\<close>, \<^verbatim>\<open>block.cc\<close>), \<^verbatim>\<open>FilterBlock\<close> (\<^verbatim>\<open>filter_block.cc\<close>).
  \<^item> \<^verbatim>\<open>Env\<close> (\<^verbatim>\<open>env.{h,cc}\<close>), \<^verbatim>\<open>Filename\<close> (\<^verbatim>\<open>filename.{h,cc}\<close>), \<^verbatim>\<open>Cache\<close> (\<^verbatim>\<open>cache.cc\<close>).
  \<^item> \<^verbatim>\<open>Iterator\<close> (\<^verbatim>\<open>iterator.{h,cc}\<close>, \<^verbatim>\<open>iterator_wrapper.h\<close>): the interface of iterators as a locale, whose reference is a
    cursor on a sorted list; \<^verbatim>\<open>Merger\<close> (\<^verbatim>\<open>merger.cc\<close>) and \<^verbatim>\<open>TwoLevel\<close> (\<^verbatim>\<open>two_level_iterator.cc\<close>) combine iterators.
  \<^item> \<^verbatim>\<open>Options\<close> (\<^verbatim>\<open>options.{h,cc}\<close>), \<^verbatim>\<open>TableBuilder\<close> (\<^verbatim>\<open>table_builder.cc\<close>), \<^verbatim>\<open>Table\<close> (\<^verbatim>\<open>table.cc\<close>), \<^verbatim>\<open>Table_Correct\<close>.
  \<^item> \<^verbatim>\<open>DBIter\<close> (\<^verbatim>\<open>db_iter.{h,cc}\<close>): the iterator over user keys that a client of the database sees.
  \<^item> \<^verbatim>\<open>VersionEdit\<close> (\<^verbatim>\<open>version_edit.{h,cc}\<close>), \<^verbatim>\<open>Version\<close> and \<^verbatim>\<open>Version_Correct\<close> (the class \<^verbatim>\<open>Version\<close> of \<^verbatim>\<open>version_set.{h,cc}\<close>):
    the table files of the database by level, and the searches in them.
  \<^item> \<^verbatim>\<open>TableCache\<close> (\<^verbatim>\<open>table_cache.{h,cc}\<close>): open tables by file number.
  \<^item> \<^verbatim>\<open>VersionBuilder\<close> and \<^verbatim>\<open>VersionSet\<close> (the classes \<^verbatim>\<open>VersionSet::Builder\<close> and \<^verbatim>\<open>VersionSet\<close> of \<^verbatim>\<open>version_set.{h,cc}\<close>): edits applied to
    a version, the live versions with their reference counts, the manifest.
  \<^item> \<^verbatim>\<open>Compaction\<close> (the class \<^verbatim>\<open>Compaction\<close> of \<^verbatim>\<open>version_set.{h,cc}\<close>): the choice of a compaction and of its inputs.
  \<^item> \<^verbatim>\<open>Snapshot\<close> (\<^verbatim>\<open>snapshot.h\<close>), \<^verbatim>\<open>DoCompaction\<close> and \<^verbatim>\<open>DoCompaction_Correct\<close> (\<^verbatim>\<open>DoCompactionWork\<close> and the functions it calls in
    \<^verbatim>\<open>db_impl.cc\<close>): the entries that a compaction drops, its output tables and their installation.

  \<^bold>\<open>State and operations.\<close>  A class of the source is a record with its members as fields, a method a function from the
  record and the arguments to the results and the new record; objects that are shared through pointers (the nodes of the
  skip list, the handles of the cache, the files of the in-memory environment) live in an explicit store.  A failing call
  returns a \<open>Status\<close>, as in the source.  An abstract class (comparator, filter policy, file, environment, iterator) is a
  record of its virtual functions, and its contract a locale that is interpreted on every implementation.  Snappy is a
  parameter, with the contract \<open>snappy_ok\<close>.

  \<^bold>\<open>What the lemmas show.\<close>  Encodings: decoding inverts encoding.  Log: reading returns the records that were written,
  also after a crash.  Memtable: lookups and iterators agree with the history of additions.  Iterators: blocks,
  memtables, merged, two-level, table and database iterators all satisfy one contract, and a client cannot tell them
  from a cursor on a sorted list, which is the list of entries that were stored (\<open>Block\<close>, \<open>MemTable\<close>, \<open>Table_Correct\<close>), the
  merge of the children (\<open>Merger\<close>), or the view of the internal entries at a sequence number (\<open>DBIter\<close>).  Tables: what a
  builder wrote to a file that may fail can be iterated and looked up, through filters and block cache.  Versions: the
  searches for files agree with linear scans, and a lookup through the table cache finds the newest visible entry; edits
  change the files of a level as specified and reference counts stay exact, whatever the environment does; the inputs of a
  compaction are closed under overlaps, except that a user key may be split between two files of a level; a compaction drops
  only entries that no reader can see and its outputs hold all the others, whatever the environment does.  Cache: the
  reference counts are exact in every reachable state.

  \<^bold>\<open>Fuel and partiality.\<close>  The searches of the skip list, the skipping loops of two-level and database iterators and the
  moves of iterators are partial functions whose value is \<open>None\<close> if the code does not return; the theorems show that they
  return, on every list that insertions can build and on all iterators that satisfy the contract.  The loops of a block
  iterator take as fuel (\<open>BlockIter_fuel\<close>) one more than the length of the block, which is enough because every step consumes
  a byte.

  \<^bold>\<open>Not modelled.\<close>  Of \<^verbatim>\<open>db_impl.cc\<close> the queue of writers, the switch of memtables, the recovery of the database and the threads;
  a compaction is modelled for the runs in which no memtable becomes immutable meanwhile, without its statistics, and its
  input iterator is any iterator that satisfies the contract.  The iterators of \<^verbatim>\<open>version_set.cc\<close> over all files,
  \<^verbatim>\<open>builder.cc\<close>, \<^verbatim>\<open>repair.cc\<close>, \<^verbatim>\<open>arena.cc\<close>.  \<^verbatim>\<open>env_posix.cc\<close>, \<^verbatim>\<open>env_win.cc\<close>, the porting layer, the C bindings, benchmarks, tools and
  tests: system calls, wrappers and printing.
\<close>

subsection \<open>Properties of the base components\<close>

text \<open>C30.  The checksum: the table-driven, unrolled computation of \<^verbatim>\<open>crc32c::Extend\<close> gives, for every buffer and every
  alignment of its address, the bit-by-bit remainder of the Castagnoli polynomial, and \<^verbatim>\<open>Unmask\<close> inverts \<^verbatim>\<open>Mask\<close>.\<close>

theorem crc32c_reference:
  "Extend_at pval crc buf = crc_ref (crc XOR 0xffffffff) buf XOR 0xffffffff \<and> Unmask (Mask crc) = crc"
  by (simp add: Extend_at_ref)

text \<open>C33.  Varints: decoding an encoded integer in front of any input returns the integer and the rest of the input,
  for both widths; the unrolled 32-bit encoder agrees with the 64-bit loop; encodings have the length
  \<^verbatim>\<open>VarintLength\<close> computes, at most 5 and 10 bytes.\<close>

theorem varint_roundtrip:
  "GetVarint32 (EncodeVarint32 v @ rest) = Some (v, rest) \<and> GetVarint64 (EncodeVarint64 w @ rest) = Some (w, rest)
   \<and> EncodeVarint32 v = EncodeVarint64 (ucast v) \<and> VarintLength w = length (EncodeVarint64 w)
   \<and> length (EncodeVarint32 v) \<le> 5 \<and> length (EncodeVarint64 w) \<le> 10"
  by (simp add: EncodeVarint32_eq_64 [symmetric] VarintLength_eq length_EncodeVarint32 length_EncodeVarint64)

text \<open>C32.  Bloom filters have no false negatives, for any number of bits per key; through the internal policy a filter
  built from internal keys matches every internal key with the same user key.\<close>

theorem bloom_no_false_negative:
  assumes "k \<in> set keys" and "ExtractUserKey k' = ExtractUserKey k"
  shows "Bloom_KeyMayMatch k (Bloom_CreateFilter (BloomFilter_make b) keys [])
    \<and> KeyMayMatch (InternalFilterPolicy (BloomFilterPolicy b)) k' (CreateFilter (InternalFilterPolicy (BloomFilterPolicy b)) keys [])"
  using Bloom_no_false_negative [OF assms(1)] bloom.internal_may_match [OF assms] by blast

theorem bloom_no_false_negative_witness:
  "Bloom_KeyMayMatch [1] (Bloom_CreateFilter (BloomFilter_make 10) [[1], [2, 3]] [])
    \<and> KeyMayMatch (InternalFilterPolicy (BloomFilterPolicy 10)) [1] (CreateFilter (InternalFilterPolicy (BloomFilterPolicy 10)) [[1], [2, 3]] [])"
  by (rule bloom_no_false_negative) simp_all

text \<open>C31.  Internal keys: parsing inverts appending, and the comparator orders the keys by user key and, for one user
  key, by descending sequence number and then by descending type, so that a seek at a snapshot finds the
  newest entry visible there.\<close>

theorem internal_key_order:
  assumes "s \<le> kMaxSequenceNumber" and "s' \<le> kMaxSequenceNumber"
  shows "ParseInternalKey (InternalKey_make u s t) = Some \<lparr>pik_user_key = u, pik_sequence = s, pik_type = t\<rparr>
    \<and> (InternalKey_Compare C (InternalKey_make u s t) (InternalKey_make u' s' t') < 0
       \<longleftrightarrow> Compare C u u' < 0 \<or> Compare C u u' = 0 \<and> (s' < s \<or> s' = s \<and> ValueType_num t' < ValueType_num t))"
proof -
  have "PackSequenceAndType s' t' < PackSequenceAndType s t \<longleftrightarrow> s' < s \<or> s' = s \<and> ValueType_num t' < ValueType_num t"
    unfolding word_less_nat_alt unat_Pack [OF assms(1)] unat_Pack [OF assms(2)] word_unat_eq_iff
    by (cases t; cases t') auto
  then show ?thesis
    using assms by (simp add: InternalKey_make_def ParseInternalKey_Append InternalKey_Compare_less) (simp add: AppendInternalKey_eq)
qed

theorem internal_key_order_witness:
  "ParseInternalKey (InternalKey_make [7] 3 kTypeValue) = Some \<lparr>pik_user_key = [7], pik_sequence = 3, pik_type = kTypeValue\<rparr>
    \<and> (InternalKey_Compare BytewiseComparator (InternalKey_make [7] 3 kTypeValue) (InternalKey_make [7] 2 kTypeDeletion) < 0
       \<longleftrightarrow> Compare BytewiseComparator [7] [7] < 0 \<or> Compare BytewiseComparator [7] [7] = 0
         \<and> ((2 :: u64) < 3 \<or> 2 = (3 :: u64) \<and> ValueType_num kTypeDeletion < ValueType_num kTypeValue))"
  by (rule internal_key_order) (simp_all add: word_le_nat_alt unat_kMaxSequenceNumber)

text \<open>C34.  Shortened index keys: between two keys \<open>a < b\<close>, whether user keys or internal keys over the bytewise
  comparator, \<^verbatim>\<open>FindShortestSeparator\<close> returns a key at least \<open>a\<close> and below \<open>b\<close>, and \<^verbatim>\<open>FindShortSuccessor\<close> a key not below
  its argument.\<close>

theorem separator_between:
  assumes "Slice_compare a b < 0" and "InternalKey_Compare BytewiseComparator k l < 0"
  shows "Slice_compare a (Bytewise_FindShortestSeparator a b) \<le> 0 \<and> Slice_compare (Bytewise_FindShortestSeparator a b) b < 0
    \<and> Slice_compare a (Bytewise_FindShortSuccessor a) \<le> 0
    \<and> InternalKey_Compare BytewiseComparator k (InternalKey_FindShortestSeparator BytewiseComparator k l) \<le> 0
    \<and> InternalKey_Compare BytewiseComparator (InternalKey_FindShortestSeparator BytewiseComparator k l) l < 0
    \<and> InternalKey_Compare BytewiseComparator k (InternalKey_FindShortSuccessor BytewiseComparator k) \<le> 0"
  using assms bytewise.separator_ge [of a b] bytewise.separator_less [of a b] bytewise.successor_ge [of a]
    bytewise.ikey_separator_ge [of k l] bytewise.ikey_separator_less [of k l] bytewise.ikey_successor_ge [of k] by simp

theorem separator_between_witness:
  "Slice_compare [1] (Bytewise_FindShortestSeparator [1] [3]) \<le> 0 \<and> Slice_compare (Bytewise_FindShortestSeparator [1] [3]) [3] < 0
    \<and> Slice_compare [1] (Bytewise_FindShortSuccessor [1]) \<le> 0
    \<and> InternalKey_Compare BytewiseComparator (InternalKey_make [1] 5 kTypeValue)
        (InternalKey_FindShortestSeparator BytewiseComparator (InternalKey_make [1] 5 kTypeValue) (InternalKey_make [3] 4 kTypeValue)) \<le> 0
    \<and> InternalKey_Compare BytewiseComparator
        (InternalKey_FindShortestSeparator BytewiseComparator (InternalKey_make [1] 5 kTypeValue) (InternalKey_make [3] 4 kTypeValue))
        (InternalKey_make [3] 4 kTypeValue) < 0
    \<and> InternalKey_Compare BytewiseComparator (InternalKey_make [1] 5 kTypeValue)
        (InternalKey_FindShortSuccessor BytewiseComparator (InternalKey_make [1] 5 kTypeValue)) \<le> 0"
proof (rule separator_between)
  show lt: "Slice_compare [1] [3] < 0" by code_simp
  show "InternalKey_Compare BytewiseComparator (InternalKey_make [1] 5 kTypeValue) (InternalKey_make [3] 4 kTypeValue) < 0"
    using lt by (simp add: InternalKey_Compare_less InternalKey_make_def AppendInternalKey_eq del: append_Cons append_Nil)
      (simp add: ExtractUserKey_def)
qed

end
